(* ===== verification/Prelude.thy ===== *)
theory Prelude
  imports "HOL-Library.Word"
begin

text \<open>
  Shared vocabulary of the development: the machine integers of the kernel modules, the
  outcome of a C function (a value, an errno, or a fault of the machine), and the generic
  lemmas on words, lists and outcomes that the component theories use.

  A C function that returns a value through its result or its out-parameters becomes a function
  into \<open>'a outcome\<close>: \<open>Ok v\<close> for a normal return, \<open>Err e\<close> for a negative errno, and
  \<open>Oops f\<close> where the C program would trap: a division by zero, an access outside an array or
  through a NULL pointer, a shift by the width or more, a \<open>BUG_ON\<close>, or, for the loops written with a fuel argument, the end
  of the fuel.
\<close>

section \<open>Machine integers and outcomes\<close>

type_synonym u8 = "8 word"
type_synonym u16 = "16 word"
type_synonym u32 = "32 word"
type_synonym u64 = "64 word"

datatype errno =
    EPERM | ENOENT | EIO | ENXIO | E2BIG | EAGAIN | ENOMEM | EEXIST | EINVAL | ERANGE
  | ENODATA | EOPNOTSUPP | EBADMSG | EROFS | ETIMEDOUT | EBLOCKLISTED

datatype fault = Div_Zero | Bad_Access | Bad_Shift | Bug_On | No_Fuel

datatype 'a outcome = Ok 'a | Err errno | Oops fault

primrec bind_outcome :: "'a outcome \<Rightarrow> ('a \<Rightarrow> 'b outcome) \<Rightarrow> 'b outcome" where
  "bind_outcome (Ok v) f = f v"
| "bind_outcome (Err e) f = Err e"
| "bind_outcome (Oops x) f = Oops x"

text \<open>An array read: outside the array it is a fault, never an unspecified value.\<close>

definition aref :: "'a list \<Rightarrow> nat \<Rightarrow> 'a outcome" where
  "aref xs i = (if i < length xs then Ok (xs ! i) else Oops Bad_Access)"

definition aset :: "'a list \<Rightarrow> nat \<Rightarrow> 'a \<Rightarrow> 'a list outcome" where
  "aset xs i v = (if i < length xs then Ok (xs[i := v]) else Oops Bad_Access)"

section \<open>Network addresses\<close>

text \<open>\<open>struct ceph_entity_addr\<close>; the socket address is its bytes.\<close>

record ceph_entity_addr =
  ea_type :: u32
  ea_nonce :: u32
  ea_in_addr :: "u8 list"

section \<open>Collections of facts\<close>

named_theorems nat_of_word \<open>\<open>unat\<close> of word expressions that do not wrap\<close>
named_theorems outcome_simps \<open>when a composed outcome is \<open>Ok\<close>\<close>

section \<open>Outcomes\<close>

lemma bind_outcome_Ok_iff [outcome_simps]:
  "bind_outcome m f = Ok v \<longleftrightarrow> (\<exists>a. m = Ok a \<and> f a = Ok v)"
  by (cases m) auto

lemma bind_outcome_Ok_right [simp]: "bind_outcome m Ok = m"
  by (cases m) auto

lemma bind_outcome_assoc:
  "bind_outcome (bind_outcome m f) g = bind_outcome m (\<lambda>x. bind_outcome (f x) g)"
  by (cases m) auto

lemma bind_outcome_cong [fundef_cong]:
  "m = m' \<Longrightarrow> (\<And>v. m' = Ok v \<Longrightarrow> f v = f' v) \<Longrightarrow> bind_outcome m f = bind_outcome m' f'"
  by (cases m') auto

lemma aref_in_range [simp]: "i < length xs \<Longrightarrow> aref xs i = Ok (xs ! i)"
  by (simp add: aref_def)

lemma aref_Ok_iff [outcome_simps]: "aref xs i = Ok v \<longleftrightarrow> i < length xs \<and> v = xs ! i"
  by (auto simp: aref_def)

lemma aset_in_range [simp]: "i < length xs \<Longrightarrow> aset xs i v = Ok (xs[i := v])"
  by (simp add: aset_def)

lemma aset_Ok_iff [outcome_simps]: "aset xs i v = Ok ys \<longleftrightarrow> i < length xs \<and> ys = xs[i := v]"
  by (auto simp: aset_def)

section \<open>Words\<close>

lemma unat_less_word [simp]: "unat (x :: 'a::len word) < 2 ^ LENGTH('a)"
  by (rule unsigned_less)

lemma unat_u32_less: "unat (x :: u32) < 4294967296"
  using unsigned_less [of x] by simp

lemma unat_u64_less: "unat (x :: u64) < 18446744073709551616"
  using unsigned_less [of x] by simp

lemma unat_ucast_widen:
  assumes "LENGTH('a::len) \<le> LENGTH('b::len)"
  shows "unat (ucast (x :: 'a word) :: 'b word) = unat x"
proof -
  have "unat x < 2 ^ LENGTH('a)" by simp
  also have "\<dots> \<le> (2 :: nat) ^ LENGTH('b)" using assms by (simp add: power_increasing)
  finally show ?thesis by (simp add: unsigned_ucast_eq take_bit_nat_eq_self)
qed

lemma unat_ucast_32_64 [nat_of_word, simp]: "unat (ucast (x :: u32) :: u64) = unat x"
  by (rule unat_ucast_widen) simp

lemma unat_ucast_8_32 [nat_of_word, simp]: "unat (ucast (x :: u8) :: u32) = unat x"
  by (rule unat_ucast_widen) simp

lemma unat_ucast_8_64 [nat_of_word, simp]: "unat (ucast (x :: u8) :: u64) = unat x"
  by (rule unat_ucast_widen) simp

lemma unat_ucast_64_32:
  "unat (x :: u64) < 4294967296 \<Longrightarrow> unat (ucast x :: u32) = unat x"
  by (simp add: unsigned_ucast_eq take_bit_nat_eq_self)

lemma ucast_32_64_eq_0 [simp]: "(ucast (x :: u32) :: u64) = 0 \<longleftrightarrow> x = 0"
  by (metis unat_eq_zero unat_ucast_32_64)

lemma unat_add_no_wrap:
  "unat x + unat y < 2 ^ LENGTH('a) \<Longrightarrow> unat (x + y :: 'a::len word) = unat x + unat y"
  using unat_add_lem by blast

lemma unat_mult_no_wrap:
  "unat x * unat y < 2 ^ LENGTH('a) \<Longrightarrow> unat (x * y :: 'a::len word) = unat x * unat y"
  using unat_mult_lem by blast

lemma unat_mult_add_no_wrap:
  assumes "unat x * unat y + unat z < 2 ^ LENGTH('a)"
  shows "unat (x * y + z :: 'a::len word) = unat x * unat y + unat z"
proof -
  have "unat (x * y) = unat x * unat y" using assms by (intro unat_mult_no_wrap) simp
  then show ?thesis using assms by (simp add: unat_add_no_wrap)
qed

lemma unat_mult_32_64 [nat_of_word]:
  "unat (ucast (x :: u32) * ucast (y :: u32) :: u64) = unat x * unat y"
proof -
  have "unat x * unat y \<le> 4294967295 * 4294967295"
    using unat_u32_less [of x] unat_u32_less [of y] by (intro mult_le_mono) simp_all
  then show ?thesis by (subst unat_mult_no_wrap) simp_all
qed

lemma unat_sub_no_wrap:
  "unat y \<le> unat x \<Longrightarrow> unat (x - y :: 'a::len word) = unat x - unat y"
  by (simp add: unat_sub word_le_nat_alt)

lemma unat_min: "unat (min x y :: 'a::len word) = min (unat x) (unat y)"
  by (simp add: min_def word_le_nat_alt)

lemma unat_inj_iff: "unat x = unat y \<longleftrightarrow> (x :: 'a::len word) = y"
  by (simp add: word_unat_eq_iff)

section \<open>Lists\<close>

definition insert_at :: "nat \<Rightarrow> 'a \<Rightarrow> 'a list \<Rightarrow> 'a list" where
  "insert_at p x xs = take p xs @ x # drop p xs"

lemma set_insert_at [simp]: "set (insert_at p x xs) = insert x (set xs)"
  by (simp add: insert_at_def) (metis append_take_drop_id set_append)

lemma length_insert_at [simp]: "length (insert_at p x xs) = Suc (length xs)"
  by (simp add: insert_at_def)

lemma insert_at_append [simp]: "insert_at (length xs) x (xs @ ys) = xs @ x # ys"
  by (simp add: insert_at_def)

section \<open>Machines driven by events\<close>

text \<open>
  The contract of a machine that handles events: \<open>ok s e\<close> says which events can come in a state, \<open>handle\<close> is the handler and \<open>res\<close> the
  result once the machine is done. The handler keeps the invariant and comes closer to the end, and as long as there is no result
  some event can come.
\<close>

locale event_machine =
  fixes inv :: "'s \<Rightarrow> bool" and meas :: "'s \<Rightarrow> nat" and ok :: "'s \<Rightarrow> 'e \<Rightarrow> bool" and handle :: "'e \<Rightarrow> 's \<Rightarrow> 's outcome"
    and res :: "'s \<Rightarrow> int option" and step :: "'s \<Rightarrow> 's \<Rightarrow> bool"
  assumes step_iff: "step s s' \<longleftrightarrow> (\<exists>e. ok s e \<and> handle e s = Ok s')"
    and handled: "inv s \<Longrightarrow> ok s e \<Longrightarrow> \<exists>s'. handle e s = Ok s' \<and> inv s' \<and> meas s' < meas s"
    and waits: "inv s \<Longrightarrow> res s = None \<Longrightarrow> \<exists>e. ok s e"
begin

lemma step_inv: "step s s' \<Longrightarrow> inv s \<Longrightarrow> inv s' \<and> meas s' < meas s"
  using handled [of s] by (fastforce simp: step_iff)

lemma steps_inv: "step\<^sup>*\<^sup>* s s' \<Longrightarrow> inv s \<Longrightarrow> inv s'"
  by (induction rule: rtranclp_induct) (auto dest: step_inv)

lemma run_bounded: "(step ^^ n) s s' \<Longrightarrow> inv s \<Longrightarrow> n + meas s' \<le> meas s \<and> inv s'"
proof (induction n arbitrary: s')
  case (Suc n)
  then obtain t where t: "(step ^^ n) s t" "step t s'" by auto
  from Suc.IH [OF t(1) Suc.prems(2)] step_inv [OF t(2)] show ?case by auto
qed simp

lemma progress: "inv s \<Longrightarrow> res s = None \<Longrightarrow> \<exists>s'. step s s'"
  using waits [of s] handled [of s] unfolding step_iff by blast

lemma finishes: "(step ^^ n) s t \<Longrightarrow> inv s \<Longrightarrow> n \<le> meas s \<and> (res t = None \<longrightarrow> (\<exists>t'. step t t'))"
  using run_bounded [of n s t] progress [of t] by auto

lemma safe: "step\<^sup>*\<^sup>* s t \<Longrightarrow> inv s \<Longrightarrow> ok t e \<Longrightarrow> \<exists>t'. handle e t = Ok t'"
  using steps_inv [of s t] handled [of t e] by auto

end

end
