(* ===== verification/Striper.thy ===== *)
theory Striper
  imports Prelude
begin

text \<open>
  \<open>libceph/striper.c\<close> and \<open>include/linux/ceph/striper.h\<close>: how a byte range of a striped image
  or file is laid out over objects. The definitions keep the widths of the C code (the stripe
  arithmetic mixes 32-bit and 64-bit unsigned integers); the specification is the byte mapping
  \<open>obj_byte\<close> on natural numbers, the position of one byte of the file in its object.
\<close>

section \<open>Data\<close>

record ceph_file_layout =
  stripe_unit :: u32
  stripe_count :: u32
  object_size :: u32
  pool_id :: int
  pool_ns :: "string option"

record ceph_object_extent =
  oe_objno :: u64
  oe_off :: u64
  oe_len :: u64

record ceph_file_extent =
  fe_off :: u64
  fe_len :: u64

section \<open>Operations\<close>

text \<open>The kernel's 64-by-32 division with remainder; a zero divisor traps.\<close>

definition div_u64_rem :: "u64 \<Rightarrow> u32 \<Rightarrow> (u64 \<times> u32) outcome" where
  "div_u64_rem n d =
     (if d = 0 then Oops Div_Zero else Ok (n div ucast d, ucast (n mod ucast d)))"

definition ceph_calc_file_object_mapping ::
    "ceph_file_layout \<Rightarrow> u64 \<Rightarrow> u64 \<Rightarrow> (u64 \<times> u64 \<times> u32) outcome" where
  "ceph_calc_file_object_mapping l off len =
     (if stripe_unit l = 0 then Oops Div_Zero
      else let stripes_per_object = object_size l div stripe_unit l in
        bind_outcome (div_u64_rem off (stripe_unit l)) (\<lambda>(blockno, blockoff).
        bind_outcome (div_u64_rem blockno (stripe_count l)) (\<lambda>(stripeno, stripepos).
        bind_outcome (div_u64_rem stripeno stripes_per_object) (\<lambda>(objsetno, objsetpos).
          Ok (objsetno * ucast (stripe_count l) + ucast stripepos,
              ucast (objsetpos * stripe_unit l + blockoff),
              ucast (min len (ucast (stripe_unit l - blockoff))))))))"

text \<open>
  The list of extents is a list in list order. \<open>lookup_last\<close> walks it from the tail: \<open>Inr i\<close> is
  the extent found, \<open>Inl p\<close> the number of extents in front of the insertion point.
\<close>

fun lookup_last_from :: "ceph_object_extent list \<Rightarrow> u64 \<Rightarrow> nat \<Rightarrow> nat + nat" where
  "lookup_last_from exs objno 0 = Inl 0"
| "lookup_last_from exs objno (Suc i) =
     (if oe_objno (exs ! i) = objno then Inr i
      else if oe_objno (exs ! i) < objno then Inl (Suc i)
      else lookup_last_from exs objno i)"

definition lookup_last :: "ceph_object_extent list \<Rightarrow> u64 \<Rightarrow> nat + nat" where
  "lookup_last exs objno = lookup_last_from exs objno (length exs)"

fun lookup_containing ::
    "ceph_object_extent list \<Rightarrow> u64 \<Rightarrow> u64 \<Rightarrow> u32 \<Rightarrow> ceph_object_extent option" where
  "lookup_containing [] objno objoff xlen = None"
| "lookup_containing (ex # exs) objno objoff xlen =
     (if oe_objno ex = objno \<and> oe_off ex \<le> objoff \<and>
         objoff + ucast xlen \<le> oe_off ex + oe_len ex then Some ex
      else if oe_objno ex > objno then None
      else lookup_containing exs objno objoff xlen)"

text \<open>
  One pass of the mapping loop of \<open>ceph_file_to_extents\<close>: \<open>alloc\<close> is \<open>alloc_fn\<close> on its argument
  (it may fail), \<open>act\<close> is \<open>action_fn\<close> on its argument. The state is the list of extents with
  the two callback arguments.
\<close>

definition add_stripe_unit ::
    "('a \<Rightarrow> bool \<times> 'a) \<Rightarrow> (ceph_object_extent \<Rightarrow> u32 \<Rightarrow> 'b \<Rightarrow> 'b) \<Rightarrow> u64 \<Rightarrow> u64 \<Rightarrow> u32 \<Rightarrow>
     ceph_object_extent list \<times> 'a \<times> 'b \<Rightarrow> bool \<times> ceph_object_extent list \<times> 'a \<times> 'b" where
  "add_stripe_unit alloc act objno objoff xlen st =
     (case st of (exs, aa, ca) \<Rightarrow>
       let found = lookup_last exs objno;
           start_new = (\<lambda>p.
             case alloc aa of
               (False, aa') \<Rightarrow> (False, exs, aa', ca)
             | (True, aa') \<Rightarrow>
                 let ex = \<lparr>oe_objno = objno, oe_off = objoff, oe_len = ucast xlen\<rparr>
                 in (True, insert_at p ex exs, aa', act ex xlen ca))
       in case found of
            Inl p \<Rightarrow> start_new p
          | Inr i \<Rightarrow>
              let last_ex = exs ! i in
              if oe_off last_ex + oe_len last_ex \<noteq> objoff then start_new (Suc i)
              else let last_ex = last_ex\<lparr>oe_len := oe_len last_ex + ucast xlen\<rparr>
                   in (True, exs[i := last_ex], aa, act last_ex xlen ca))"

text \<open>The mapping loop always advances: a mapped stripe unit is not empty.\<close>

lemma div_u64_rem_Ok [outcome_simps]:
  "div_u64_rem n d = Ok (q, r) \<longleftrightarrow> d \<noteq> 0 \<and> q = n div ucast d \<and> r = ucast (n mod ucast d)"
  by (auto simp: div_u64_rem_def)

lemma unat_rem [nat_of_word]:
  "d \<noteq> 0 \<Longrightarrow> unat (ucast ((n :: u64) mod ucast (d :: u32)) :: u32) = unat n mod unat d"
proof -
  assume "d \<noteq> 0"
  then have "unat n mod unat d < unat d" by (simp add: unat_gt_0)
  also have "\<dots> < 4294967296" by (rule unat_u32_less)
  finally show ?thesis by (simp add: unat_ucast_64_32 unat_mod)
qed

lemma mapped_nonempty:
  assumes "ceph_calc_file_object_mapping l off len = Ok (objno, objoff, xlen)" and "len \<noteq> 0"
  shows "0 < unat xlen" and "unat xlen \<le> unat len"
proof -
  let ?b = "ucast (off mod ucast (stripe_unit l)) :: u32"
  from assms(1) have su: "stripe_unit l \<noteq> 0"
    and x: "xlen = ucast (min len (ucast (stripe_unit l - ?b)))"
    by (auto simp: ceph_calc_file_object_mapping_def Let_def outcome_simps split: if_splits)
  have "unat ?b < unat (stripe_unit l)"
    using su by (simp add: unat_rem unat_gt_0)
  then have s: "unat (stripe_unit l - ?b) = unat (stripe_unit l) - unat ?b" "0 < unat (stripe_unit l - ?b)"
    by (simp_all add: unat_sub_no_wrap)
  have m: "unat (min len (ucast (stripe_unit l - ?b))) = min (unat len) (unat (stripe_unit l - ?b))"
    by (simp add: unat_min)
  have "unat xlen = min (unat len) (unat (stripe_unit l - ?b))"
    unfolding x by (subst unat_ucast_64_32) (simp_all add: m unat_u32_less min.strict_coboundedI2)
  then show "0 < unat xlen" "unat xlen \<le> unat len"
    using s assms(2) by (simp_all add: unat_gt_0)
qed

lemma remaining_decreases:
  assumes "ceph_calc_file_object_mapping l off len = Ok (objno, objoff, xlen)" and "len \<noteq> 0"
  shows "unat (len - ucast xlen) = unat len - unat xlen" and "unat (len - ucast xlen) < unat len"
  using mapped_nonempty [OF assms] by (simp_all add: unat_sub_no_wrap)

function file_to_extents_loop ::
    "ceph_file_layout \<Rightarrow> ('a \<Rightarrow> bool \<times> 'a) \<Rightarrow> (ceph_object_extent \<Rightarrow> u32 \<Rightarrow> 'b \<Rightarrow> 'b) \<Rightarrow>
     u64 \<Rightarrow> u64 \<Rightarrow> ceph_object_extent list \<times> 'a \<times> 'b \<Rightarrow>
     (errno option \<times> ceph_object_extent list \<times> 'a \<times> 'b) outcome" where
  "file_to_extents_loop l alloc act off len st =
     (if len = 0 then Ok (None, st)
      else case ceph_calc_file_object_mapping l off len of
        Oops f \<Rightarrow> Oops f
      | Err e \<Rightarrow> Err e
      | Ok (objno, objoff, xlen) \<Rightarrow>
          (case add_stripe_unit alloc act objno objoff xlen st of
             (False, st') \<Rightarrow> Ok (Some ENOMEM, st')
           | (True, st') \<Rightarrow>
               file_to_extents_loop l alloc act (off + ucast xlen) (len - ucast xlen) st'))"
  by pat_completeness auto
termination
  by (relation "measure (\<lambda>(l, alloc, act, off, len, st). unat len)")
     (auto intro: remaining_decreases)

fun extents_sorted :: "ceph_object_extent list \<Rightarrow> bool" where
  "extents_sorted (last_ex # ex # exs) =
     (\<not> (oe_objno last_ex > oe_objno ex \<or>
         (oe_objno last_ex = oe_objno ex \<and> oe_off last_ex + oe_len last_ex \<ge> oe_off ex)) \<and>
      extents_sorted (ex # exs))"
| "extents_sorted exs = True"

text \<open>
  The result pairs the return code (\<open>None\<close> for 0) with the list and the callback arguments,
  which the C code leaves updated in the error returns too.
\<close>

definition ceph_file_to_extents ::
    "ceph_file_layout \<Rightarrow> u64 \<Rightarrow> u64 \<Rightarrow> ceph_object_extent list \<Rightarrow> ('a \<Rightarrow> bool \<times> 'a) \<Rightarrow> 'a \<Rightarrow>
     (ceph_object_extent \<Rightarrow> u32 \<Rightarrow> 'b \<Rightarrow> 'b) \<Rightarrow> 'b \<Rightarrow>
     (errno option \<times> ceph_object_extent list \<times> 'a \<times> 'b) outcome" where
  "ceph_file_to_extents l off len exs alloc aa act ca =
     (case file_to_extents_loop l alloc act off len (exs, aa, ca) of
        Ok (None, exs', aa', ca') \<Rightarrow>
          Ok (if extents_sorted exs' then None else Some EINVAL, exs', aa', ca')
      | r \<Rightarrow> r)"

function ceph_iterate_extents ::
    "ceph_file_layout \<Rightarrow> u64 \<Rightarrow> u64 \<Rightarrow> ceph_object_extent list \<Rightarrow>
     (ceph_object_extent \<Rightarrow> u32 \<Rightarrow> 'b \<Rightarrow> 'b) \<Rightarrow> 'b \<Rightarrow> (errno option \<times> 'b) outcome" where
  "ceph_iterate_extents l off len exs act ca =
     (if len = 0 then Ok (None, ca)
      else case ceph_calc_file_object_mapping l off len of
        Oops f \<Rightarrow> Oops f
      | Err e \<Rightarrow> Err e
      | Ok (objno, objoff, xlen) \<Rightarrow>
          (case lookup_containing exs objno objoff xlen of
             None \<Rightarrow> Ok (Some EINVAL, ca)
           | Some ex \<Rightarrow>
               ceph_iterate_extents l (off + ucast xlen) (len - ucast xlen) exs act (act ex xlen ca)))"
  by pat_completeness auto
termination
  by (relation "measure (\<lambda>(l, off, len, exs, act, ca). unat len)")
     (auto intro: remaining_decreases)

declare file_to_extents_loop.simps [simp del] ceph_iterate_extents.simps [simp del]

text \<open>
  The reverse mapping. \<open>kmalloc_ok\<close> says whether the array of the given number of entries can
  be allocated; a store past the allocated entries is a fault. Every pass of the loop maps at
  least one byte, so as many passes as there are bytes are enough fuel.
\<close>

definition DIV_ROUND_UP_ULL :: "u64 \<Rightarrow> u32 \<Rightarrow> u64" where
  "DIV_ROUND_UP_ULL ll d = (ll + ucast d - 1) div ucast d"

fun extent_to_file_loop ::
    "nat \<Rightarrow> ceph_file_layout \<Rightarrow> u32 \<Rightarrow> u64 \<Rightarrow> u64 \<Rightarrow> u64 \<Rightarrow> u32 \<Rightarrow> u32 \<Rightarrow> ceph_file_extent list \<Rightarrow>
     ceph_file_extent list outcome" where
  "extent_to_file_loop fuel l stripes_per_object objno objoff objlen blockoff num fes =
     (if objlen = 0 then
        (if length fes \<noteq> unat num then Oops Bug_On else Ok fes)
      else case fuel of
        0 \<Rightarrow> Oops No_Fuel
      | Suc fuel' \<Rightarrow>
          bind_outcome (div_u64_rem objno (stripe_count l)) (\<lambda>(objsetno, stripepos).
          let stripeno = objoff div ucast (stripe_unit l) + objsetno * ucast stripes_per_object;
              blockno = stripeno * ucast (stripe_count l) + ucast stripepos;
              off = blockno * ucast (stripe_unit l) + ucast blockoff;
              len = min objlen (ucast (stripe_unit l - blockoff))
          in if length fes < unat num then
               extent_to_file_loop fuel' l stripes_per_object objno (objoff + len) (objlen - len) 0
                 num (fes @ [\<lparr>fe_off = off, fe_len = len\<rparr>])
             else Oops Bad_Access))"

declare extent_to_file_loop.simps [simp del]

definition ceph_extent_to_file ::
    "(u32 \<Rightarrow> bool) \<Rightarrow> ceph_file_layout \<Rightarrow> u64 \<Rightarrow> u64 \<Rightarrow> u64 \<Rightarrow> ceph_file_extent list outcome" where
  "ceph_extent_to_file kmalloc_ok l objno objoff objlen =
     (if stripe_unit l = 0 then Oops Div_Zero
      else let stripes_per_object = object_size l div stripe_unit l in
        if objlen = 0 then Ok []
        else let num = ucast (DIV_ROUND_UP_ULL (objoff + objlen) (stripe_unit l) -
                              objoff div ucast (stripe_unit l)) in
          if \<not> kmalloc_ok num then Err ENOMEM
          else bind_outcome (div_u64_rem objoff (stripe_unit l)) (\<lambda>(_, blockoff).
            extent_to_file_loop (unat objlen) l stripes_per_object objno objoff objlen blockoff num []))"

definition ceph_file_extents_bytes :: "ceph_file_extent list \<Rightarrow> u64" where
  "ceph_file_extents_bytes fes = foldl (\<lambda>bytes fe. bytes + fe_len fe) 0 fes"

definition ceph_get_num_objects :: "ceph_file_layout \<Rightarrow> u64 \<Rightarrow> u64 outcome" where
  "ceph_get_num_objects l sz =
     (let period = ucast (stripe_count l) * ucast (object_size l) :: u64 in
      if period = 0 then Oops Div_Zero
      else
        let num_periods = (sz + period - 1) div period;
            remainder_bytes = sz mod period in
        if 0 < remainder_bytes \<and>
           remainder_bytes < ucast (stripe_count l) * ucast (stripe_unit l) then
          (if stripe_unit l = 0 then Oops Div_Zero
           else Ok (num_periods * ucast (stripe_count l) -
                    (ucast (stripe_count l) - DIV_ROUND_UP_ULL remainder_bytes (stripe_unit l))))
        else Ok (num_periods * ucast (stripe_count l) - 0))"


section \<open>The byte mapping\<close>

definition valid_layout :: "ceph_file_layout \<Rightarrow> bool" where
  "valid_layout l \<longleftrightarrow> 0 < stripe_unit l \<and> 0 < stripe_count l \<and> stripe_unit l \<le> object_size l"

definition stripes_per_obj :: "ceph_file_layout \<Rightarrow> nat" where
  "stripes_per_obj l = unat (object_size l) div unat (stripe_unit l)"

definition obj_byte :: "ceph_file_layout \<Rightarrow> nat \<Rightarrow> nat \<times> nat" where
  "obj_byte l b =
     (let blockno = b div unat (stripe_unit l); stripeno = blockno div unat (stripe_count l) in
      (stripeno div stripes_per_obj l * unat (stripe_count l) + blockno mod unat (stripe_count l),
       stripeno mod stripes_per_obj l * unat (stripe_unit l) + b mod unat (stripe_unit l)))"

definition file_byte :: "ceph_file_layout \<Rightarrow> nat \<times> nat \<Rightarrow> nat" where
  "file_byte l no =
     (case no of (n, j) \<Rightarrow>
       ((n div unat (stripe_count l) * stripes_per_obj l + j div unat (stripe_unit l)) *
          unat (stripe_count l) + n mod unat (stripe_count l)) * unat (stripe_unit l) +
       j mod unat (stripe_unit l))"

definition unit_left :: "ceph_file_layout \<Rightarrow> nat \<Rightarrow> nat" where
  "unit_left l b = unat (stripe_unit l) - b mod unat (stripe_unit l)"

lemma valid_layout_pos:
  assumes "valid_layout l"
  shows "0 < unat (stripe_unit l)" "0 < unat (stripe_count l)" "0 < stripes_per_obj l"
    "stripes_per_obj l * unat (stripe_unit l) \<le> unat (object_size l)"
  using assms
  by (auto simp: valid_layout_def stripes_per_obj_def word_less_nat_alt word_le_nat_alt
      div_greater_zero_iff)

lemma mul_add_div_mod:
  fixes q r d :: nat
  assumes "r < d"
  shows "(q * d + r) div d = q" "(q * d + r) mod d = r"
  using assms by simp_all

lemma file_byte_obj_byte:
  assumes "valid_layout l"
  shows "file_byte l (obj_byte l b) = b"
proof -
  note p = valid_layout_pos [OF assms]
  let ?u = "unat (stripe_unit l)" and ?c = "unat (stripe_count l)" and ?s = "stripes_per_obj l"
  have "b mod ?u < ?u" "b div ?u mod ?c < ?c" using p by simp_all
  then show ?thesis
    using p by (simp add: file_byte_def obj_byte_def Let_def mul_add_div_mod)
qed

lemma obj_byte_file_byte:
  assumes "valid_layout l" and "j < stripes_per_obj l * unat (stripe_unit l)"
  shows "obj_byte l (file_byte l (n, j)) = (n, j)"
proof -
  note p = valid_layout_pos [OF assms(1)]
  let ?u = "unat (stripe_unit l)" and ?c = "unat (stripe_count l)" and ?s = "stripes_per_obj l"
  have "j mod ?u < ?u" "n mod ?c < ?c" "j div ?u < ?s"
    using p assms(2) by (simp_all add: less_mult_imp_div_less)
  then show ?thesis
    using p by (simp add: file_byte_def obj_byte_def Let_def mul_add_div_mod)
qed

lemma obj_byte_bound:
  assumes "valid_layout l"
  shows "snd (obj_byte l b) < stripes_per_obj l * unat (stripe_unit l)"
proof -
  note p = valid_layout_pos [OF assms]
  let ?u = "unat (stripe_unit l)" and ?q = "b div unat (stripe_unit l) div unat (stripe_count l) mod stripes_per_obj l"
  have "?q * ?u + b mod ?u < Suc ?q * ?u" using p by simp
  also have "\<dots> \<le> stripes_per_obj l * ?u"
    using p by (intro mult_le_mono1) (simp add: Suc_le_eq)
  finally show ?thesis by (simp add: obj_byte_def Let_def)
qed

lemma file_byte_strict_mono:
  assumes "valid_layout l" and "i < j"
  shows "file_byte l (n, i) < file_byte l (n, j)"
proof -
  note p = valid_layout_pos [OF assms(1)]
  let ?u = "unat (stripe_unit l)" and ?c = "unat (stripe_count l)" and ?s = "stripes_per_obj l"
  have le: "i div ?u \<le> j div ?u" using assms(2) by (simp add: div_le_mono)
  show ?thesis
  proof (cases "i div ?u = j div ?u")
    case True
    moreover have "i mod ?u < j mod ?u"
      using True assms(2) by (metis div_mult_mod_eq nat_add_left_cancel_less)
    ultimately show ?thesis by (simp add: file_byte_def)
  next
    case False
    with le have "Suc (i div ?u) \<le> j div ?u" by simp
    then have "(n div ?c * ?s + i div ?u + 1) * ?c \<le> (n div ?c * ?s + j div ?u) * ?c"
      by (intro mult_le_mono1) simp
    then have "Suc ((n div ?c * ?s + i div ?u) * ?c + n mod ?c) \<le> (n div ?c * ?s + j div ?u) * ?c + n mod ?c"
      using p by simp
    then have "Suc ((n div ?c * ?s + i div ?u) * ?c + n mod ?c) * ?u \<le> ((n div ?c * ?s + j div ?u) * ?c + n mod ?c) * ?u"
      by (rule mult_le_mono1)
    moreover have "i mod ?u < ?u" using p by simp
    ultimately show ?thesis by (simp add: file_byte_def)
  qed
qed

lemma obj_byte_ascending:
  assumes "valid_layout l" and "b < c" and "fst (obj_byte l b) = fst (obj_byte l c)"
  shows "snd (obj_byte l b) < snd (obj_byte l c)"
proof (rule ccontr)
  assume "\<not> ?thesis"
  then have "file_byte l (obj_byte l c) \<le> file_byte l (obj_byte l b)"
    using file_byte_strict_mono [OF assms(1)] assms(3)
    by (metis le_less linorder_not_less prod.collapse)
  then show False using assms by (simp add: file_byte_obj_byte)
qed

lemma obj_byte_contiguous:
  assumes "valid_layout l" and "k < unit_left l b"
  shows "obj_byte l (b + k) = (fst (obj_byte l b), snd (obj_byte l b) + k)"
proof -
  let ?u = "unat (stripe_unit l)"
  have "b mod ?u + k < ?u" using assms(2) by (simp add: unit_left_def)
  then have "(b + k) div ?u = b div ?u" "(b + k) mod ?u = b mod ?u + k"
    by (metis (no_types) add.assoc div_mult_mod_eq mul_add_div_mod)+
  then show ?thesis by (simp add: obj_byte_def Let_def)
qed

lemma unit_left_pos: "valid_layout l \<Longrightarrow> 0 < unit_left l b"
  using valid_layout_pos(1) [of l] by (simp add: unit_left_def)

lemma calc_mapping_refines:
  assumes "valid_layout l"
  obtains objno objoff xlen where
    "ceph_calc_file_object_mapping l off len = Ok (objno, objoff, xlen)"
    "(unat objno, unat objoff) = obj_byte l (unat off)"
    "unat xlen = min (unat len) (unit_left l (unat off))"
proof -
  note p = valid_layout_pos [OF assms]
  let ?u = "unat (stripe_unit l)" and ?c = "unat (stripe_count l)" and ?s = "stripes_per_obj l"
  let ?spo = "object_size l div stripe_unit l"
  let ?bn = "off div ucast (stripe_unit l)" and ?bo = "ucast (off mod ucast (stripe_unit l)) :: u32"
  let ?sn = "?bn div ucast (stripe_count l)" and ?sp = "ucast (?bn mod ucast (stripe_count l)) :: u32"
  let ?on = "?sn div ucast ?spo" and ?op = "ucast (?sn mod ucast ?spo) :: u32"
  let ?objno = "?on * ucast (stripe_count l) + ucast ?sp"
  let ?objoff = "ucast (?op * stripe_unit l + ?bo) :: u64"
  let ?xlen = "ucast (min len (ucast (stripe_unit l - ?bo))) :: u32"
  have nz: "stripe_unit l \<noteq> 0" "stripe_count l \<noteq> 0" "?spo \<noteq> 0"
    using p by (auto simp: unat_gt_0 [symmetric] stripes_per_obj_def unat_div)
  have spo: "unat ?spo = ?s" by (simp add: unat_div stripes_per_obj_def)
  have un: "unat ?bo = unat off mod ?u" "unat ?sp = unat off div ?u mod ?c"
      "unat ?op = unat off div ?u div ?c mod ?s" "unat ?on = unat off div ?u div ?c div ?s"
    using nz by (simp_all add: unat_rem unat_div stripes_per_obj_def)
  have ob: "obj_byte l (unat off) = (unat ?on * ?c + unat ?sp, unat ?op * ?u + unat ?bo)"
    by (simp add: un obj_byte_def Let_def)
  have "unat ?on * ?c + unat ?sp \<le> unat off div ?u div ?c * ?c + unat off div ?u mod ?c"
    unfolding un by (intro add_mono mult_le_mono1 div_le_dividend order_refl)
  also have "\<dots> \<le> unat off" by simp
  finally have b1: "unat ?on * ?c + unat ?sp < 18446744073709551616"
    using unat_u64_less [of off] by linarith
  then have objno: "unat ?objno = unat ?on * ?c + unat ?sp"
    by (subst unat_add_no_wrap; subst unat_mult_no_wrap) simp_all
  have "unat ?op * ?u + unat ?bo < 4294967296"
    using obj_byte_bound [OF assms, of "unat off"] p(4) unat_u32_less [of "object_size l"]
    by (simp add: ob)
  then have objoff: "unat ?objoff = unat ?op * ?u + unat ?bo"
    by (simp, subst unat_add_no_wrap; subst unat_mult_no_wrap) simp_all
  have m: "unat (min len (ucast (stripe_unit l - ?bo))) = min (unat len) (unit_left l (unat off))"
    using p by (simp add: unat_min unat_sub_no_wrap un unit_left_def less_imp_le)
  have "unit_left l (unat off) < 4294967296"
    using unat_u32_less [of "stripe_unit l"] by (simp add: unit_left_def)
  then have xlen: "unat ?xlen = min (unat len) (unit_left l (unat off))"
    by (subst unat_ucast_64_32) (simp_all add: m min.strict_coboundedI2)
  have "ceph_calc_file_object_mapping l off len = Ok (?objno, ?objoff, ?xlen)"
    using nz by (simp add: ceph_calc_file_object_mapping_def Let_def div_u64_rem_def)
  then show thesis
    by (rule that) (simp_all only: objno objoff ob xlen)
qed

section \<open>Building the extents of a byte mapping\<close>

definition ext_bytes :: "ceph_object_extent \<Rightarrow> (nat \<times> nat) set" where
  "ext_bytes ex = {unat (oe_objno ex)} \<times> {unat (oe_off ex) ..< unat (oe_off ex) + unat (oe_len ex)}"

definition ext_before :: "ceph_object_extent \<Rightarrow> ceph_object_extent \<Rightarrow> bool" where
  "ext_before x y \<longleftrightarrow> unat (oe_objno x) < unat (oe_objno y) \<or>
     oe_objno x = oe_objno y \<and> unat (oe_off x) + unat (oe_len x) < unat (oe_off y)"

lemma lookup_last_from_append:
  "length P = k \<Longrightarrow> sorted_wrt (\<lambda>x y. oe_objno x \<le> oe_objno y) P \<Longrightarrow>
   (\<exists>A e B. P = A @ e # B \<and> oe_objno e = objno \<and> (\<forall>x\<in>set B. objno < oe_objno x) \<and>
      lookup_last_from (P @ S) objno k = Inr (length A)) \<or>
   (\<exists>A B. P = A @ B \<and> (\<forall>x\<in>set A. oe_objno x < objno) \<and> (\<forall>x\<in>set B. objno < oe_objno x) \<and>
      lookup_last_from (P @ S) objno k = Inl (length A))"
proof (induction P arbitrary: k S rule: rev_induct)
  case Nil
  then show ?case by auto
next
  case (snoc e P)
  have so: "sorted_wrt (\<lambda>x y. oe_objno x \<le> oe_objno y) P" "\<forall>x\<in>set P. oe_objno x \<le> oe_objno e"
    using snoc.prems by (auto simp: sorted_wrt_append)
  have k: "k = Suc (length P)" using snoc.prems by simp
  consider "oe_objno e = objno" | "oe_objno e < objno" | "objno < oe_objno e" by fastforce
  then show ?case
  proof cases
    case 1
    then have "lookup_last_from ((P @ [e]) @ S) objno k = Inr (length P)" by (simp add: k)
    with 1 show ?thesis by (intro disjI1 exI [of _ P] exI [of _ e] exI [of _ "[]"]) simp
  next
    case 2
    then have "lookup_last_from ((P @ [e]) @ S) objno k = Inl (length (P @ [e]))" by (simp add: k)
    with 2 so show ?thesis by (intro disjI2 exI [of _ "P @ [e]"] exI [of _ "[]"]) auto
  next
    case 3
    then have eq: "lookup_last_from ((P @ [e]) @ S) objno k = lookup_last_from (P @ e # S) objno (length P)"
      by (simp add: k nth_append) (metis less_irrefl less_trans)
    from snoc.IH [OF refl so(1), of "e # S"] show ?thesis
    proof (elim disjE exE conjE, goal_cases)
      case (1 A f B)
      with 3 eq show ?case
        by (intro disjI1 exI [of _ A] exI [of _ f] exI [of _ "B @ [e]"]) auto
    next
      case (2 A B)
      with 3 eq show ?case
        by (intro disjI2 exI [of _ A] exI [of _ "B @ [e]"]) auto
    qed
  qed
qed

lemma lookup_last_cases:
  assumes "sorted_wrt ext_before exs"
  obtains (found) A e B where "exs = A @ e # B" "oe_objno e = objno"
      "\<forall>x\<in>set B. objno < oe_objno x" "lookup_last exs objno = Inr (length A)"
    | (absent) A B where "exs = A @ B" "\<forall>x\<in>set A. oe_objno x < objno"
      "\<forall>x\<in>set B. objno < oe_objno x" "lookup_last exs objno = Inl (length A)"
proof -
  have "sorted_wrt (\<lambda>x y. oe_objno x \<le> oe_objno y) exs"
    using assms by (rule sorted_wrt_mono_rel [rotated]) (auto simp: ext_before_def word_le_nat_alt)
  from lookup_last_from_append [OF refl this, of objno "[]"] show thesis
    using found absent by (auto simp: lookup_last_def)
qed

text \<open>
  What the extent builder needs of the mapping of a layout: the bytes of one stripe unit are
  adjacent in one object, later bytes of one object come later in the file, and offsets in
  objects stay small.
\<close>

locale byte_layout =
  fixes valid :: "'l \<Rightarrow> bool" and byte :: "'l \<Rightarrow> nat \<Rightarrow> nat \<times> nat" and left :: "'l \<Rightarrow> nat \<Rightarrow> nat"
  assumes left_pos: "valid l \<Longrightarrow> 0 < left l b"
    and contiguous: "valid l \<Longrightarrow> k < left l b \<Longrightarrow> byte l (b + k) = (fst (byte l b), snd (byte l b) + k)"
    and ascending: "valid l \<Longrightarrow> b < c \<Longrightarrow> fst (byte l b) = fst (byte l c) \<Longrightarrow>
      snd (byte l b) < snd (byte l c)"
    and bounded: "valid l \<Longrightarrow> snd (byte l b) < 4294967296"
begin

definition covers :: "'l \<Rightarrow> nat \<Rightarrow> nat \<Rightarrow> ceph_object_extent list \<Rightarrow> bool" where
  "covers l b c exs \<longleftrightarrow> sorted_wrt ext_before exs \<and> (\<forall>e\<in>set exs. 0 < unat (oe_len e)) \<and>
     (\<Union>e\<in>set exs. ext_bytes e) = byte l ` {b..<c} \<and>
     sum_list (map (\<lambda>e. unat (oe_len e)) exs) = c - b"

lemma unit_image:
  assumes "valid l" and "x \<le> left l c" and "byte l c = (n, j)"
  shows "byte l ` {c..<c + x} = {n} \<times> {j..<j + x}"
proof -
  have "{c..<c + x} = plus c ` {0..<x}" by (simp add: add.commute)
  then have "byte l ` {c..<c + x} = (\<lambda>k. byte l (c + k)) ` {0..<x}"
    by (simp only: image_image)
  also have "\<dots> = (\<lambda>k. (n, j + k)) ` {0..<x}"
    using assms contiguous by (intro image_cong) auto
  also have "\<dots> = {n} \<times> {j..<j + x}"
    by (auto simp: image_iff le_iff_add)
  finally show ?thesis .
qed

lemma covers_bounds:
  assumes "valid l" and "covers l b c exs" and "e \<in> set exs"
  shows "unat (oe_off e) + unat (oe_len e) \<le> 4294967296"
    and "unat (oe_off e + oe_len e) = unat (oe_off e) + unat (oe_len e)"
    and "byte l c = (unat (oe_objno e), j) \<Longrightarrow> unat (oe_off e) + unat (oe_len e) \<le> j"
proof -
  let ?m = "unat (oe_off e) + unat (oe_len e)"
  from assms have pos: "0 < unat (oe_len e)" and im: "ext_bytes e \<subseteq> byte l ` {b..<c}"
    unfolding covers_def by blast+
  have "(unat (oe_objno e), ?m - 1) \<in> ext_bytes e"
    using pos by (simp add: ext_bytes_def)
  with im obtain i where i: "i < c" "byte l i = (unat (oe_objno e), ?m - 1)" 
    by (metis atLeastLessThan_iff imageE subsetD)
  have "?m - 1 < 4294967296" using bounded [OF assms(1), of i] i by simp
  then show 1: "?m \<le> 4294967296" by linarith
  then show "unat (oe_off e + oe_len e) = ?m" by (intro unat_add_no_wrap) simp
  assume "byte l c = (unat (oe_objno e), j)"
  then show "?m \<le> j" using ascending [OF assms(1) i(1)] i(2) pos by simp
qed

lemma covers_new:
  assumes "valid l" "covers l b c (A @ B)" "b \<le> c" "byte l c = (unat objno, unat objoff)"
    "0 < unat xlen" "unat xlen \<le> left l c" "\<forall>x\<in>set B. objno < oe_objno x"
    "\<forall>x\<in>set A. oe_objno x < objno \<or>
       oe_objno x = objno \<and> unat (oe_off x) + unat (oe_len x) \<noteq> unat objoff"
  shows "covers l b (c + unat xlen)
    (A @ \<lparr>oe_objno = objno, oe_off = objoff, oe_len = ucast (xlen :: u32)\<rparr> # B)"
proof -
  let ?e = "\<lparr>oe_objno = objno, oe_off = objoff, oe_len = ucast xlen\<rparr>"
  have A: "ext_before x ?e" if "x \<in> set A" for x
    using covers_bounds(3) [OF assms(1,2), of x "unat objoff"] assms(4,8) that
    by (fastforce simp: ext_before_def word_less_nat_alt)
  have "byte l ` {b..<c + unat xlen} = byte l ` {b..<c} \<union> byte l ` {c..<c + unat xlen}"
    using assms(3) by (metis image_Un ivl_disj_un_two(3) le_add1)
  then have im: "byte l ` {b..<c + unat xlen} = byte l ` {b..<c} \<union> ext_bytes ?e"
    using unit_image [OF assms(1,6,4)] by (simp add: ext_bytes_def)
  show ?thesis
    using assms(2,3,5,7) A im
    by (auto simp: covers_def sorted_wrt_append ext_before_def word_less_nat_alt ext_bytes_def)
qed

lemma covers_merge:
  assumes "valid l" "covers l b c (A @ e # B)" "b \<le> c" "byte l c = (unat (oe_objno e), unat objoff)"
    "0 < unat xlen" "unat xlen \<le> left l c" "\<forall>x\<in>set B. oe_objno e < oe_objno x"
    "unat (oe_off e) + unat (oe_len e) = unat objoff"
  shows "covers l b (c + unat xlen) (A @ e\<lparr>oe_len := oe_len e + ucast (xlen :: u32)\<rparr> # B)"
proof -
  let ?e = "e\<lparr>oe_len := oe_len e + ucast xlen\<rparr>"
  have "unat (oe_len e) \<le> 4294967296"
    using covers_bounds(1) [OF assms(1,2), of e] by simp
  then have len: "unat (oe_len e + ucast xlen) = unat (oe_len e) + unat xlen"
    using unat_u32_less [of xlen] by (subst unat_add_no_wrap) simp_all
  have "ext_bytes ?e = ext_bytes e \<union> {unat (oe_objno e)} \<times> {unat objoff..<unat objoff + unat xlen}"
    using assms(8) by (auto simp: ext_bytes_def len)
  moreover have "byte l ` {b..<c + unat xlen} = byte l ` {b..<c} \<union> byte l ` {c..<c + unat xlen}"
    using assms(3) by (metis image_Un ivl_disj_un_two(3) le_add1)
  ultimately have im: "byte l ` {b..<c + unat xlen} \<union> ext_bytes e = byte l ` {b..<c} \<union> ext_bytes ?e"
    using unit_image [OF assms(1,6,4)] by auto
  have "ext_bytes e \<subseteq> byte l ` {b..<c}" "byte l ` {b..<c} \<subseteq> byte l ` {b..<c + unat xlen}"
    using assms(2) by (auto simp: covers_def)
  with im have im': "byte l ` {b..<c + unat xlen} = byte l ` {b..<c} \<union> ext_bytes ?e" by blast
  have sub: "ext_bytes e \<subseteq> ext_bytes ?e" by (auto simp: ext_bytes_def len)
  show ?thesis
    using assms(2,3,5,7) im' sub
    by (auto simp: covers_def sorted_wrt_append ext_before_def word_less_nat_alt len)
qed

lemma add_stripe_unit_covers:
  assumes "valid l" "covers l b c exs" "b \<le> c" "byte l c = (unat objno, unat objoff)"
    "0 < unat xlen" "unat xlen \<le> left l c"
    and "add_stripe_unit alloc act objno objoff xlen (exs, aa, ca) = (True, exs', aa', ca')"
  shows "covers l b (c + unat xlen) exs'"
proof -
  have so: "sorted_wrt ext_before exs" using assms(2) by (simp add: covers_def)
  from so show ?thesis
  proof (cases rule: lookup_last_cases [of exs objno])
    case (found A e B)
    have e: "unat (oe_off e + oe_len e) = unat (oe_off e) + unat (oe_len e)"
      using covers_bounds(2) [OF assms(1,2), of e] found(1) by simp
    show ?thesis
    proof (cases "oe_off e + oe_len e = objoff")
      case True
      then have "exs' = A @ e\<lparr>oe_len := oe_len e + ucast xlen\<rparr> # B"
        using assms(7) found(1,4) by (simp add: add_stripe_unit_def Let_def)
      with True show ?thesis
        using covers_merge [of l b c A e B objoff xlen] assms found e by simp
    next
      case False
      then have exs': "exs' = (A @ [e]) @ \<lparr>oe_objno = objno, oe_off = objoff, oe_len = ucast xlen\<rparr> # B"
        using assms(7) found(1,4)
        by (simp add: add_stripe_unit_def Let_def insert_at_def split: prod.splits bool.splits)
      have "oe_objno x < objno \<or> oe_objno x = objno \<and> unat (oe_off x) + unat (oe_len x) \<noteq> unat objoff"
        if "x \<in> set (A @ [e])" for x
        using that so found(1,2) False e covers_bounds(3) [OF assms(1,2), of e "unat objoff"] assms(4)
        by (auto simp: sorted_wrt_append ext_before_def word_less_nat_alt unat_inj_iff [symmetric])
      then show ?thesis
        unfolding exs' using covers_new [of l b c "A @ [e]" B objno objoff xlen] assms(1-6) found(1,3)
        by simp
    qed
  next
    case (absent A B)
    then have "exs' = A @ \<lparr>oe_objno = objno, oe_off = objoff, oe_len = ucast xlen\<rparr> # B"
      using assms(7)
      by (simp add: add_stripe_unit_def Let_def split: prod.splits bool.splits)
    then show ?thesis using covers_new [of l b c A B objno objoff xlen] assms absent by simp
  qed
qed

lemma covers_sorted: "valid l \<Longrightarrow> covers l b c exs \<Longrightarrow> extents_sorted exs"
proof -
  assume v: "valid l" and c: "covers l b c exs"
  have "sorted_wrt ext_before xs \<Longrightarrow> set xs \<subseteq> set exs \<Longrightarrow> extents_sorted xs" for xs
  proof (induction xs rule: extents_sorted.induct)
    case (1 x y xs)
    then have "ext_before x y" "unat (oe_off x + oe_len x) = unat (oe_off x) + unat (oe_len x)"
      using covers_bounds(2) [OF v c, of x] by auto
    then show ?case
      using 1 by (auto simp: ext_before_def word_less_nat_alt word_le_nat_alt)
  qed auto
  then show ?thesis using c by (auto simp: covers_def)
qed

end

interpretation striping: byte_layout valid_layout obj_byte unit_left
proof
  fix l b k c
  assume v: "valid_layout l"
  show "0 < unit_left l b" using v by (rule unit_left_pos)
  show "k < unit_left l b \<Longrightarrow> obj_byte l (b + k) = (fst (obj_byte l b), snd (obj_byte l b) + k)"
    using v by (rule obj_byte_contiguous)
  show "b < c \<Longrightarrow> fst (obj_byte l b) = fst (obj_byte l c) \<Longrightarrow> snd (obj_byte l b) < snd (obj_byte l c)"
    using v by (rule obj_byte_ascending)
  show "snd (obj_byte l b) < 4294967296"
    using obj_byte_bound [OF v, of b] valid_layout_pos(4) [OF v] unat_u32_less [of "object_size l"]
    by linarith
qed


section \<open>The extents of a file range\<close>

lemma calc_mapping_Ok:
  assumes "valid_layout l" and "ceph_calc_file_object_mapping l off len = Ok (objno, objoff, xlen)"
  shows "obj_byte l (unat off) = (unat objno, unat objoff)"
    and "unat xlen = min (unat len) (unit_left l (unat off))"
proof -
  obtain n j x where "ceph_calc_file_object_mapping l off len = Ok (n, j, x)"
    "(unat n, unat j) = obj_byte l (unat off)" "unat x = min (unat len) (unit_left l (unat off))"
    by (rule calc_mapping_refines [OF assms(1)])
  with assms(2) show "obj_byte l (unat off) = (unat objno, unat objoff)"
    "unat xlen = min (unat len) (unit_left l (unat off))" by simp_all
qed

lemma file_to_extents_loop_covers:
  assumes "valid_layout l" and "striping.covers l b (unat off) exs" and "b \<le> unat off"
    and "unat off + unat len < 18446744073709551616"
  shows "\<exists>rc exs' aa' ca'.
    file_to_extents_loop l alloc act off len (exs, aa, ca) = Ok (rc, exs', aa', ca') \<and>
    (rc = None \<and> striping.covers l b (unat off + unat len) exs' \<or>
     rc = Some ENOMEM \<and> \<not> (\<forall>a. fst (alloc a)))"
  using assms(2-4)
proof (induction "unat len" arbitrary: off len exs aa ca rule: less_induct)
  case less
  show ?case
  proof (cases "len = 0")
    case True
    with less.prems show ?thesis by (simp add: file_to_extents_loop.simps [of l])
  next
    case False
    obtain objno objoff xlen where m: "ceph_calc_file_object_mapping l off len = Ok (objno, objoff, xlen)"
      and ob: "obj_byte l (unat off) = (unat objno, unat objoff)"
      and x: "unat xlen = min (unat len) (unit_left l (unat off))"
      using calc_mapping_refines [OF assms(1)] by metis
    note ne = mapped_nonempty [OF m False] and dec = remaining_decreases [OF m False]
    have off': "unat (off + ucast xlen) = unat off + unat xlen"
      using less.prems(3) ne by (subst unat_add_no_wrap) simp_all
    obtain ok exs' aa' ca' where st:
        "add_stripe_unit alloc act objno objoff xlen (exs, aa, ca) = (ok, exs', aa', ca')"
      by (metis prod_cases4)
    show ?thesis
    proof (cases ok)
      case True
      have "striping.covers l b (unat (off + ucast xlen)) exs'"
        using striping.add_stripe_unit_covers [OF assms(1) less.prems(1,2) ob ne(1)] st True x off'
        by simp
      from less.hyps [OF dec(2) this] show ?thesis
        using less.prems(2,3) off' dec(1) ne(2) m st True False
        by (simp add: file_to_extents_loop.simps [of l _ _ off len])
    next
      case ok: False
      then have "\<not> fst (alloc aa)"
        using st by (auto simp: add_stripe_unit_def Let_def split: sum.splits if_splits prod.splits bool.splits)
      with ok False m st show ?thesis by (auto simp: file_to_extents_loop.simps [of l _ _ off len])
    qed
  qed
qed

text \<open>
  C29: mapping a file range from an empty list either runs out of memory or returns 0 (never the
  \<open>-EINVAL\<close> of the sortedness check) with extents that are strictly sorted and not adjacent, that
  hold exactly the object bytes of the range, and whose lengths add up to the length of the range.
\<close>

theorem ceph_file_to_extents_correct:
  assumes "valid_layout l" and "unat off + unat len < 18446744073709551616"
  shows "\<exists>rc exs aa' ca'. ceph_file_to_extents l off len [] alloc aa act ca = Ok (rc, exs, aa', ca') \<and>
    (rc = None \<and> sorted_wrt ext_before exs \<and>
       (\<Union>e\<in>set exs. ext_bytes e) = obj_byte l ` {unat off..<unat off + unat len} \<and>
       sum_list (map (\<lambda>e. unat (oe_len e)) exs) = unat len \<or>
     rc = Some ENOMEM \<and> \<not> (\<forall>a. fst (alloc a)))"
proof -
  have "striping.covers l (unat off) (unat off) []" by (simp add: striping.covers_def)
  from file_to_extents_loop_covers [OF assms(1) this order_refl assms(2), of alloc act aa ca]
  obtain rc exs aa' ca' where
    lp: "file_to_extents_loop l alloc act off len ([], aa, ca) = Ok (rc, exs, aa', ca')" and
    cases: "rc = None \<and> striping.covers l (unat off) (unat off + unat len) exs \<or>
       rc = Some ENOMEM \<and> \<not> (\<forall>a. fst (alloc a))" by blast
  from cases show ?thesis
  proof (elim disjE conjE)
    assume rc: "rc = None" and c: "striping.covers l (unat off) (unat off + unat len) exs"
    then show ?thesis
      using lp striping.covers_sorted [OF assms(1) c]
      by (simp add: ceph_file_to_extents_def striping.covers_def)
  next
    assume "rc = Some ENOMEM" "\<not> (\<forall>a. fst (alloc a))"
    then show ?thesis using lp by (simp add: ceph_file_to_extents_def)
  qed
qed

section \<open>One stripe unit\<close>

text \<open>
  with a valid layout the mapping of a non-empty range does not fault, and returns the object
  and the offset of its first byte, with a length that is positive, at most the requested length,
  does not cross the end of the object, and whose bytes are adjacent in that one object.
\<close>

theorem ceph_calc_file_object_mapping_correct:
  assumes "valid_layout l" and "len \<noteq> 0"
  shows "\<exists>objno objoff xlen. ceph_calc_file_object_mapping l off len = Ok (objno, objoff, xlen) \<and>
    0 < unat xlen \<and> unat xlen \<le> unat len \<and> unat objoff + unat xlen \<le> unat (object_size l) \<and>
    (\<forall>k < unat xlen. obj_byte l (unat off + k) = (unat objno, unat objoff + k))"
proof -
  obtain objno objoff xlen where m: "ceph_calc_file_object_mapping l off len = Ok (objno, objoff, xlen)"
    by (rule calc_mapping_refines [OF assms(1)])
  note ob = calc_mapping_Ok [OF assms(1) m] and ne = mapped_nonempty [OF m assms(2)]
  have run: "\<forall>k < unat xlen. obj_byte l (unat off + k) = (unat objno, unat objoff + k)"
    using obj_byte_contiguous [OF assms(1), of _ "unat off"] ob by simp
  then have "obj_byte l (unat off + (unat xlen - 1)) = (unat objno, unat objoff + (unat xlen - 1))"
    using ne(1) by (metis diff_less zero_less_one)
  then have "unat objoff + (unat xlen - 1) < stripes_per_obj l * unat (stripe_unit l)"
    using obj_byte_bound [OF assms(1), of "unat off + (unat xlen - 1)"] by (simp only: snd_conv)
  with m ne run show ?thesis using valid_layout_pos(4) [OF assms(1)] by auto
qed

section \<open>Iterating over populated extents\<close>

lemma covered_run_in_one_extent:
  assumes "sorted_wrt ext_before exs" and "{n} \<times> {j..<j + x} \<subseteq> (\<Union>e\<in>set exs. ext_bytes e)" and "0 < x"
  obtains e where "e \<in> set exs" "{n} \<times> {j..<j + x} \<subseteq> ext_bytes e"
proof -
  have gap: "e = f" if "e \<in> set exs" "f \<in> set exs" "(n, i) \<in> ext_bytes e" "(n, Suc i) \<in> ext_bytes f" for e f i
  proof (rule ccontr)
    assume "e \<noteq> f"
    then have "ext_before e f \<or> ext_before f e"
      using assms(1) that(1,2) by (auto simp: in_set_conv_nth sorted_wrt_iff_nth_less) (metis linorder_neqE_nat)
    then show False using that(3,4) by (auto simp: ext_before_def ext_bytes_def)
  qed
  have "(n, j) \<in> (\<Union>e\<in>set exs. ext_bytes e)"
    using assms(3) by (intro subsetD [OF assms(2)]) simp
  then obtain e where e: "e \<in> set exs" "(n, j) \<in> ext_bytes e" by auto
  have "k < x \<Longrightarrow> (n, j + k) \<in> ext_bytes e" for k
  proof (induction k)
    case 0
    then show ?case using e by simp
  next
    case (Suc k)
    from Suc.prems have "(n, j + Suc k) \<in> (\<Union>e\<in>set exs. ext_bytes e)"
      by (intro subsetD [OF assms(2)]) simp
    then obtain f where "f \<in> set exs" "(n, j + Suc k) \<in> ext_bytes f" by blast
    with Suc gap [of e f "j + k"] e show ?case by simp
  qed
  then have "{n} \<times> {j..<j + x} \<subseteq> ext_bytes e" by (auto simp: le_iff_add)
  with e(1) show thesis by (intro that)
qed

lemma lookup_containing_found:
  assumes "sorted_wrt ext_before exs" "e \<in> set exs"
    "oe_objno e = objno" "oe_off e \<le> objoff" "objoff + ucast xlen \<le> oe_off e + oe_len e"
  shows "lookup_containing exs objno objoff xlen \<noteq> None"
  using assms
proof (induction exs)
  case (Cons f exs)
  show ?case
  proof (cases "e = f")
    case False
    then have "oe_objno f \<le> objno"
      using Cons.prems by (auto simp: ext_before_def word_le_nat_alt)
    with False Cons show ?thesis by auto
  qed (use Cons in auto)
qed simp

lemma mapped_unit_found:
  assumes "valid_layout l" and c: "striping.covers l b c exs"
    and m: "ceph_calc_file_object_mapping l off len = Ok (objno, objoff, xlen)" and "len \<noteq> 0"
    and "b \<le> unat off" and "unat off + unat len \<le> c"
  shows "lookup_containing exs objno objoff xlen \<noteq> None"
proof -
  have so: "sorted_wrt ext_before exs" using c by (simp add: striping.covers_def)
  have ob: "obj_byte l (unat off) = (unat objno, unat objoff)"
    and x: "unat xlen = min (unat len) (unit_left l (unat off))"
    using calc_mapping_Ok [OF assms(1) m] by auto
  note ne = mapped_nonempty [OF m assms(4)]
  have "obj_byte l ` {unat off..<unat off + unat xlen} = {unat objno} \<times> {unat objoff..<unat objoff + unat xlen}"
    by (rule striping.unit_image [OF assms(1) _ ob]) (simp add: x)
  moreover have "obj_byte l ` {unat off..<unat off + unat xlen} \<subseteq> (\<Union>e\<in>set exs. ext_bytes e)"
    using c assms(5,6) ne(2) by (auto simp: striping.covers_def)
  ultimately obtain e where e: "e \<in> set exs"
      "{unat objno} \<times> {unat objoff..<unat objoff + unat xlen} \<subseteq> ext_bytes e"
    using covered_run_in_one_extent [OF so _ ne(1)] by metis
  note eb = striping.covers_bounds(1,2) [OF assms(1) c e(1)]
  have "(unat objno, unat objoff) \<in> ext_bytes e" "(unat objno, unat objoff + unat xlen - 1) \<in> ext_bytes e"
    using ne(1) by (auto intro!: subsetD [OF e(2)])
  then have "unat objno = unat (oe_objno e)" "unat (oe_off e) \<le> unat objoff"
      "unat objoff + unat xlen \<le> unat (oe_off e) + unat (oe_len e)"
    using ne(1) by (auto simp: ext_bytes_def)
  moreover from this eb have "unat (objoff + ucast xlen) = unat objoff + unat xlen"
    by (subst unat_add_no_wrap) simp_all
  ultimately show ?thesis
    using e(1) eb(2)
    by (intro lookup_containing_found [OF so e(1)]) (simp_all add: word_le_nat_alt unat_inj_iff)
qed

lemma iterate_covered_extents:
  assumes "valid_layout l" and "striping.covers l b c exs" and "c < 18446744073709551616"
    and "b \<le> unat off" and "unat off + unat len \<le> c"
  shows "\<exists>ca'. ceph_iterate_extents l off len exs act ca = Ok (None, ca')"
  using assms(4,5)
proof (induction "unat len" arbitrary: off len ca rule: less_induct)
  case less
  show ?case
  proof (cases "len = 0")
    case True
    then show ?thesis by (simp add: ceph_iterate_extents.simps [of l])
  next
    case False
    obtain objno objoff xlen where m: "ceph_calc_file_object_mapping l off len = Ok (objno, objoff, xlen)"
      using calc_mapping_refines [OF assms(1)] by metis
    note ne = mapped_nonempty [OF m False] and dec = remaining_decreases [OF m False]
    have off': "unat (off + ucast xlen) = unat off + unat xlen"
      using less.prems assms(3) ne by (subst unat_add_no_wrap) simp_all
    have "lookup_containing exs objno objoff xlen \<noteq> None"
      using mapped_unit_found [OF assms(1,2) m False less.prems] .
    then show ?thesis
      using less.hyps [OF dec(2), of "off + ucast xlen"] less.prems off' dec(1) ne(2) m False
      by (auto simp: ceph_iterate_extents.simps [of l off len])
  qed
qed

text \<open>
  once \<open>ceph_file_to_extents\<close> has populated a list of extents for a range, iterating over any
  part of that range with \<open>ceph_iterate_extents\<close> finds an extent for every stripe unit and
  returns 0.
\<close>

theorem ceph_iterate_extents_after_mapping:
  assumes "valid_layout l" and "unat off + unat len < 18446744073709551616"
    and "ceph_file_to_extents l off len [] alloc aa act ca = Ok (None, exs, aa', ca')"
    and "unat off \<le> unat o2" and "unat o2 + unat l2 \<le> unat off + unat len"
  shows "\<exists>cb'. ceph_iterate_extents l o2 l2 exs act2 cb = Ok (None, cb')"
proof -
  have "striping.covers l (unat off) (unat off) []" by (simp add: striping.covers_def)
  from file_to_extents_loop_covers [OF assms(1) this order_refl assms(2), of alloc act aa ca] assms(3)
  have "striping.covers l (unat off) (unat off + unat len) exs"
    by (auto simp: ceph_file_to_extents_def split: if_splits)
  then show ?thesis by (rule iterate_covered_extents [OF assms(1) _ assms(2,4,5)])
qed


section \<open>The reverse mapping\<close>

definition fe_range :: "ceph_file_extent \<Rightarrow> nat list" where
  "fe_range fe = [unat (fe_off fe) ..< unat (fe_off fe) + unat (fe_len fe)]"

lemma file_byte_contiguous:
  assumes "valid_layout l" and "k < unit_left l j"
  shows "file_byte l (n, j + k) = file_byte l (n, j) + k"
proof -
  let ?u = "unat (stripe_unit l)"
  have "j mod ?u + k < ?u" using assms(2) by (simp add: unit_left_def)
  then have "(j + k) div ?u = j div ?u" "(j + k) mod ?u = j mod ?u + k"
    by (metis (no_types) add.assoc div_mult_mod_eq mul_add_div_mod)+
  then show ?thesis by (simp add: file_byte_def)
qed

lemma file_byte_run:
  assumes "valid_layout l" and "x \<le> unit_left l j"
  shows "map (\<lambda>i. file_byte l (n, i)) [j..<j + x] = [file_byte l (n, j)..<file_byte l (n, j) + x]"
  using assms(2)
proof (induction x)
  case (Suc x)
  then show ?case using file_byte_contiguous [OF assms(1), of x j n] by simp
qed simp

lemma file_byte_mono:
  "valid_layout l \<Longrightarrow> i \<le> j \<Longrightarrow> file_byte l (n, i) \<le> file_byte l (n, j)"
  using file_byte_strict_mono [of l i j n] by (cases "i = j") auto

lemma unat_file_offset:
  assumes v: "valid_layout l" and b: "unat blockoff = unat objoff mod unat (stripe_unit l)"
    and f: "file_byte l (unat objno, unat objoff) < 18446744073709551616"
  shows "unat (((objoff div ucast (stripe_unit l) +
             (objno div ucast (stripe_count l)) * ucast (object_size l div stripe_unit l)) *
           ucast (stripe_count l) + ucast (ucast (objno mod ucast (stripe_count l)) :: u32)) *
          ucast (stripe_unit l) + ucast (blockoff :: u32) :: u64) =
         file_byte l (unat objno, unat objoff)"
proof -
  note p = valid_layout_pos [OF v]
  let ?u = "unat (stripe_unit l)" and ?c = "unat (stripe_count l)" and ?s = "stripes_per_obj l"
  let ?a = "unat objno div ?c * ?s" and ?q = "unat objoff div ?u"
  have nz: "stripe_count l \<noteq> 0" using p by (simp add: unat_gt_0 [symmetric])
  have f': "((?a + ?q) * ?c + unat objno mod ?c) * ?u + unat objoff mod ?u < 18446744073709551616"
    using f by (simp add: file_byte_def)
  have "(?a + ?q) * ?c + unat objno mod ?c \<le> ((?a + ?q) * ?c + unat objno mod ?c) * ?u" using p(1) by simp
  then have l2: "(?a + ?q) * ?c + unat objno mod ?c < 18446744073709551616" using f' by linarith
  moreover have "?a + ?q \<le> (?a + ?q) * ?c" using p(2) by simp
  ultimately have l3: "?a + ?q < 18446744073709551616" by linarith
  have u1: "unat ((objno div ucast (stripe_count l)) * ucast (object_size l div stripe_unit l)) = ?a"
    using l3 by (subst unat_mult_no_wrap) (simp_all add: unat_div stripes_per_obj_def)
  have u2: "unat (objoff div ucast (stripe_unit l) +
      (objno div ucast (stripe_count l)) * ucast (object_size l div stripe_unit l)) = ?a + ?q"
    using l3 by (subst unat_add_no_wrap) (simp_all add: u1 unat_div)
  let ?X = "objoff div ucast (stripe_unit l) +
      (objno div ucast (stripe_count l)) * ucast (object_size l div stripe_unit l)"
  let ?Z = "ucast (ucast (objno mod ucast (stripe_count l)) :: u32) :: u64"
  have u3: "unat (?X * ucast (stripe_count l) + ?Z) = (?a + ?q) * ?c + unat objno mod ?c"
    using unat_mult_add_no_wrap [of ?X "ucast (stripe_count l)" ?Z] l2
    by (simp add: u2 unat_rem [OF nz])
  show ?thesis
    using unat_mult_add_no_wrap [of "?X * ucast (stripe_count l) + ?Z" "ucast (stripe_unit l)" "ucast blockoff"] f'
    by (simp add: u3 b file_byte_def)
qed

lemma upt_append_split: "i \<le> j \<Longrightarrow> j \<le> k \<Longrightarrow> [i..<k] = [i..<j] @ [j..<k]"
  by (metis le_add_diff_inverse upt_add_eq_append)

lemma blocks_of_range:
  fixes u x n :: nat
  assumes "0 < u" "0 < n"
  shows "n \<le> u - x mod u \<Longrightarrow> (x + n + u - 1) div u = Suc (x div u)"
    and "u - x mod u < n \<Longrightarrow> (x + (u - x mod u)) div u = Suc (x div u) \<and> (x + (u - x mod u)) mod u = 0"
proof -
  have x: "x = x div u * u + x mod u" by simp
  have lt: "x mod u < u" using assms(1) by simp
  {
    assume "n \<le> u - x mod u"
    then have "x + n + u - 1 = Suc (x div u) * u + (x mod u + n - 1)" "x mod u + n - 1 < u"
      using assms lt x by (auto simp: algebra_simps)
    then show "(x + n + u - 1) div u = Suc (x div u)" by (metis mul_add_div_mod(1))
  }
  have "x + (u - x mod u) = (x - x mod u) + u" using lt by simp
  then have "x + (u - x mod u) = Suc (x div u) * u" by (simp add: minus_mod_eq_div_mult)
  then show "(x + (u - x mod u)) div u = Suc (x div u) \<and> (x + (u - x mod u)) mod u = 0"
    using assms(1) by simp
qed

abbreviation reverse_off :: "ceph_file_layout \<Rightarrow> u64 \<Rightarrow> u64 \<Rightarrow> u32 \<Rightarrow> u64" where
  "reverse_off l objno objoff blockoff \<equiv>
     ((objoff div ucast (stripe_unit l) +
         (objno div ucast (stripe_count l)) * ucast (object_size l div stripe_unit l)) *
       ucast (stripe_count l) + ucast (ucast (objno mod ucast (stripe_count l)) :: u32)) *
      ucast (stripe_unit l) + ucast blockoff"

lemma extent_to_file_step:
  assumes v: "valid_layout l" and b: "unat blockoff = unat objoff mod unat (stripe_unit l)"
    and nz: "objlen \<noteq> 0" and w: "unat objoff + unat objlen < 18446744073709551616"
    and f: "file_byte l (unat objno, unat objoff + unat objlen - 1) < 18446744073709551616"
  obtains off len where
    "\<forall>fuel num fes. extent_to_file_loop (Suc fuel) l (object_size l div stripe_unit l) objno objoff objlen
       blockoff num fes =
     (if length fes < unat num then
        extent_to_file_loop fuel l (object_size l div stripe_unit l) objno (objoff + len) (objlen - len) 0
          num (fes @ [\<lparr>fe_off = off, fe_len = len\<rparr>])
      else Oops Bad_Access)"
    "unat len = min (unat objlen) (unit_left l (unat objoff))"
    "fe_range \<lparr>fe_off = off, fe_len = len\<rparr> =
       map (\<lambda>j. file_byte l (unat objno, j)) [unat objoff..<unat objoff + unat len]"
    "unat (objoff + len) = unat objoff + unat len" "unat (objlen - len) = unat objlen - unat len"
    "unat off = file_byte l (unat objno, unat objoff)"
proof -
  note p = valid_layout_pos [OF v]
  let ?off = "reverse_off l objno objoff blockoff" and ?len = "min objlen (ucast (stripe_unit l - blockoff))"
  have pos: "0 < unat objlen" using nz by (simp add: unat_gt_0)
  have cnz: "stripe_count l \<noteq> 0" using p by (simp add: unat_gt_0 [symmetric])
  have "unat (stripe_unit l - blockoff) = unit_left l (unat objoff)"
    using b p(1) by (subst unat_sub_no_wrap) (simp_all add: unit_left_def less_imp_le)
  then have len: "unat ?len = min (unat objlen) (unit_left l (unat objoff))" by (simp add: unat_min)
  have "file_byte l (unat objno, unat objoff) < 18446744073709551616"
    using f pos file_byte_mono [OF v, of "unat objoff" "unat objoff + unat objlen - 1" "unat objno"] by linarith
  then have off: "unat ?off = file_byte l (unat objno, unat objoff)" by (rule unat_file_offset [OF v b])
  show thesis
  proof (rule that [of ?len ?off])
    show "unat (objoff + ?len) = unat objoff + unat ?len"
      using w by (subst unat_add_no_wrap) (simp_all add: len)
    show "unat (objlen - ?len) = unat objlen - unat ?len" by (subst unat_sub_no_wrap) (simp_all add: len)
    show "fe_range \<lparr>fe_off = ?off, fe_len = ?len\<rparr> =
       map (\<lambda>j. file_byte l (unat objno, j)) [unat objoff..<unat objoff + unat ?len]"
      using file_byte_run [OF v, of "unat ?len" "unat objoff" "unat objno"] by (simp add: fe_range_def off len)
  qed (use nz cnz len off in \<open>simp_all add: extent_to_file_loop.simps [of "Suc _"] div_u64_rem_def Let_def\<close>)
qed

lemma extent_to_file_loop_correct:
  assumes v: "valid_layout l"
  shows "\<lbrakk> objlen \<noteq> 0; unat blockoff = unat objoff mod unat (stripe_unit l);
     unat objoff + unat objlen < 18446744073709551616; unat objlen \<le> fuel;
     file_byte l (unat objno, unat objoff + unat objlen - 1) < 18446744073709551616;
     unat num = length fes +
       ((unat objoff + unat objlen + unat (stripe_unit l) - 1) div unat (stripe_unit l) -
        unat objoff div unat (stripe_unit l)) \<rbrakk> \<Longrightarrow>
   \<exists>fes'. extent_to_file_loop fuel l (object_size l div stripe_unit l) objno objoff objlen blockoff num fes =
       Ok (fes @ fes') \<and>
     concat (map fe_range fes') =
       map (\<lambda>j. file_byte l (unat objno, j)) [unat objoff..<unat objoff + unat objlen]"
proof (induction fuel arbitrary: objoff objlen blockoff fes)
  case 0
  then show ?case by (simp add: unat_eq_zero)
next
  case (Suc fuel)
  let ?u = "unat (stripe_unit l)"
  have u: "0 < ?u" using valid_layout_pos [OF v] by simp
  have pos: "0 < unat objlen" using Suc.prems(1) by (simp add: unat_gt_0)
  obtain off len where st: "\<forall>fuel num fes. extent_to_file_loop (Suc fuel) l (object_size l div stripe_unit l) objno
       objoff objlen blockoff num fes =
     (if length fes < unat num then
        extent_to_file_loop fuel l (object_size l div stripe_unit l) objno (objoff + len) (objlen - len) 0
          num (fes @ [\<lparr>fe_off = off, fe_len = len\<rparr>])
      else Oops Bad_Access)"
    and len: "unat len = min (unat objlen) (unit_left l (unat objoff))"
    and rng: "fe_range \<lparr>fe_off = off, fe_len = len\<rparr> =
       map (\<lambda>j. file_byte l (unat objno, j)) [unat objoff..<unat objoff + unat len]"
    and w: "unat (objoff + len) = unat objoff + unat len" "unat (objlen - len) = unat objlen - unat len"
    and "unat off = file_byte l (unat objno, unat objoff)"
    by (rule extent_to_file_step [OF v Suc.prems(2,1,3,5)])
  let ?fe = "\<lparr>fe_off = off, fe_len = len\<rparr>"
  show ?case
  proof (cases "unat objlen \<le> unit_left l (unat objoff)")
    case True
    then have "unat (objlen - len) = 0" using w(2) len by simp
    then have z: "objlen - len = 0" by (metis unat_eq_zero)
    have "unat num = Suc (length fes)"
      using True Suc.prems(6) blocks_of_range(1) [OF u pos, of "unat objoff"] by (simp add: unit_left_def)
    then have "extent_to_file_loop (Suc fuel) l (object_size l div stripe_unit l) objno objoff objlen
        blockoff num fes = Ok (fes @ [?fe])"
      unfolding st [rule_format] z by (simp add: extent_to_file_loop.simps)
    moreover have "unat len = unat objlen" using len True by simp
    ultimately show ?thesis using rng by (intro exI [of _ "[?fe]"]) simp
  next
    case False
    then have lu: "unat len = unit_left l (unat objoff)" using len by simp
    have b: "unat (objoff + len) div ?u = Suc (unat objoff div ?u)" "unat (objoff + len) mod ?u = 0"
      using blocks_of_range(2) [OF u pos, of "unat objoff"] False lu w(1) by (simp_all add: unit_left_def)
    have "Suc (unat objoff div ?u) * ?u = unat objoff + unat len"
      using div_mult_mod_eq [of "unat (objoff + len)" ?u] unfolding b by (simp only: add_0_right w(1))
    then have "Suc (Suc (unat objoff div ?u)) * ?u \<le> unat objoff + unat objlen + ?u - 1"
      using False lu u unfolding mult_Suc [of "Suc (unat objoff div unat (stripe_unit l))"] by linarith
    then have le: "Suc (Suc (unat objoff div ?u)) \<le> (unat objoff + unat objlen + ?u - 1) div ?u"
      using u by (simp add: less_eq_div_iff_mult_less_eq)
    have tot: "unat (objoff + len) + unat (objlen - len) = unat objoff + unat objlen"
      using w len by simp
    have "unat (objlen - len) \<noteq> 0" using w(2) lu False by simp
    then have nz: "objlen - len \<noteq> 0" by (metis unat_0)
    have "\<exists>fes'. extent_to_file_loop fuel l (object_size l div stripe_unit l) objno (objoff + len)
        (objlen - len) 0 num (fes @ [?fe]) = Ok ((fes @ [?fe]) @ fes') \<and>
      concat (map fe_range fes') = map (\<lambda>j. file_byte l (unat objno, j))
        [unat (objoff + len)..<unat (objoff + len) + unat (objlen - len)]"
    proof (rule Suc.IH [OF nz])
      show "unat (0 :: u32) = unat (objoff + len) mod ?u" by (simp only: b unat_0)
      show "unat (objoff + len) + unat (objlen - len) < 18446744073709551616"
        "file_byte l (unat objno, unat (objoff + len) + unat (objlen - len) - 1) < 18446744073709551616"
        using Suc.prems(3,5) by (simp_all only: tot)
      show "unat (objlen - len) \<le> fuel"
        using Suc.prems(4) w(2) lu unit_left_pos [OF v, of "unat objoff"] by linarith
      show "unat num = length (fes @ [?fe]) + ((unat (objoff + len) + unat (objlen - len) + ?u - 1) div ?u -
          unat (objoff + len) div ?u)"
        using Suc.prems(6) le unfolding tot b by simp
    qed
    then obtain fes' where r: "extent_to_file_loop fuel l (object_size l div stripe_unit l) objno (objoff + len)
        (objlen - len) 0 num (fes @ [?fe]) = Ok ((fes @ [?fe]) @ fes')"
      and c0: "concat (map fe_range fes') = map (\<lambda>j. file_byte l (unat objno, j))
        [unat (objoff + len)..<unat (objoff + len) + unat (objlen - len)]" by blast
    note c = c0 [unfolded tot, unfolded w(1)]
    have "length fes < unat num" using Suc.prems(6) le by simp
    then have "extent_to_file_loop (Suc fuel) l (object_size l div stripe_unit l) objno objoff objlen
        blockoff num fes = Ok (fes @ ?fe # fes')"
      unfolding st [rule_format] r by simp
    moreover have "[unat objoff..<unat objoff + unat objlen] =
        [unat objoff..<unat objoff + unat len] @ [unat objoff + unat len..<unat objoff + unat objlen]"
      using len by (intro upt_append_split) simp_all
    ultimately show ?thesis using rng c by (intro exI [of _ "?fe # fes'"]) simp
  qed
qed

lemma unat_round_up:
  fixes x d :: u64
  assumes "0 < unat d" and "unat x + unat d \<le> 18446744073709551616"
  shows "unat ((x + d - 1) div d) = (unat x + unat d - 1) div unat d"
proof -
  have d1: "unat (d - 1) = unat d - 1" using assms(1) by (subst unat_sub_no_wrap) simp_all
  have "unat (x + (d - 1)) = unat x + (unat d - 1)"
    using assms by (subst unat_add_no_wrap) (simp_all add: d1)
  then show ?thesis using assms(1) by (simp add: unat_div add_diff_eq)
qed

lemma unat_num_extents:
  assumes "valid_layout l" and "objlen \<noteq> 0"
    and "unat objoff + unat objlen < 4294967296"
  shows "unat (ucast (DIV_ROUND_UP_ULL (objoff + objlen) (stripe_unit l) - objoff div ucast (stripe_unit l)) :: u32)
    = (unat objoff + unat objlen + unat (stripe_unit l) - 1) div unat (stripe_unit l) -
      unat objoff div unat (stripe_unit l)"
proof -
  let ?u = "unat (stripe_unit l)"
  have u: "0 < ?u" using valid_layout_pos [OF assms(1)] by simp
  have pos: "0 < unat objlen" using assms(2) by (simp add: unat_gt_0)
  have s1: "unat (objoff + objlen) = unat objoff + unat objlen"
    using assms(3) by (intro unat_add_no_wrap) simp
  have s2: "unat ((objoff + objlen + ucast (stripe_unit l) - 1) div ucast (stripe_unit l)) =
      (unat objoff + unat objlen + ?u - 1) div ?u"
    using assms(3) u unat_u32_less [of "stripe_unit l"]
    by (subst unat_round_up) (simp_all add: s1)
  have s3: "unat (objoff div ucast (stripe_unit l)) = unat objoff div ?u" by (simp add: unat_div)
  have le: "unat objoff div ?u \<le> (unat objoff + unat objlen + ?u - 1) div ?u"
    using u by (intro div_le_mono) simp
  have "(unat objoff + unat objlen + ?u - 1) div ?u \<le> unat objoff + unat objlen"
  proof -
    have "unat objoff + unat objlen + ?u - 1 \<le> (unat objoff + unat objlen) * ?u"
      using u pos by (cases ?u; cases "unat objlen") (auto simp: algebra_simps)
    then show ?thesis using u by (metis div_le_mono div_mult_self_is_m mult.commute)
  qed
  then have small: "(unat objoff + unat objlen + ?u - 1) div ?u - unat objoff div ?u < 4294967296"
    using assms(3) by linarith
  show ?thesis
    unfolding DIV_ROUND_UP_ULL_def
    using small le by (subst unat_ucast_64_32; subst unat_sub_no_wrap) (simp_all only: s2 s3)
qed

lemma ceph_extent_to_file_Ok:
  assumes "valid_layout l" and "\<And>n. kmalloc_ok n"
    and "unat objoff + unat objlen \<le> stripes_per_obj l * unat (stripe_unit l)"
    and "file_byte l (unat objno, unat objoff + unat objlen - 1) < 18446744073709551616"
  shows "\<exists>fes. ceph_extent_to_file kmalloc_ok l objno objoff objlen = Ok fes \<and>
    concat (map fe_range fes) =
      map (\<lambda>j. file_byte l (unat objno, j)) [unat objoff..<unat objoff + unat objlen]"
proof (cases "objlen = 0")
  case True
  then show ?thesis using assms(1) by (auto simp: ceph_extent_to_file_def valid_layout_def Let_def)
next
  case False
  have su: "stripe_unit l \<noteq> 0" using assms(1) by (auto simp: valid_layout_def)
  have w: "unat objoff + unat objlen < 4294967296"
    using assms(3) valid_layout_pos(4) [OF assms(1)] unat_u32_less [of "object_size l"] by linarith
  let ?num = "ucast (DIV_ROUND_UP_ULL (objoff + objlen) (stripe_unit l) - objoff div ucast (stripe_unit l)) :: u32"
  have "\<exists>fes'. extent_to_file_loop (unat objlen) l (object_size l div stripe_unit l) objno objoff objlen
      (ucast (objoff mod ucast (stripe_unit l))) ?num [] = Ok ([] @ fes') \<and>
    concat (map fe_range fes') = map (\<lambda>j. file_byte l (unat objno, j)) [unat objoff..<unat objoff + unat objlen]"
    using w assms(4) unat_num_extents [OF assms(1) False w]
    by (intro extent_to_file_loop_correct [OF assms(1) False]) (simp_all add: unat_rem [OF su])
  then show ?thesis
    using False su assms(2) by (simp add: ceph_extent_to_file_def Let_def div_u64_rem_def)
qed

lemma extent_to_file_loop_nonempty:
  assumes "extent_to_file_loop fuel l s objno objoff objlen blockoff num fes = Ok fes'"
    and "blockoff < stripe_unit l" and "\<forall>fe\<in>set fes. fe_len fe \<noteq> 0"
  shows "\<forall>fe\<in>set fes'. fe_len fe \<noteq> 0"
  using assms
proof (induction fuel arbitrary: objoff objlen blockoff fes)
  case 0
  then show ?case by (subst (asm) extent_to_file_loop.simps) (auto split: if_splits)
next
  case (Suc fuel)
  show ?case
  proof (cases "objlen = 0")
    case True
    then show ?thesis using Suc.prems by (subst (asm) extent_to_file_loop.simps) (auto split: if_splits)
  next
    case False
    let ?len = "min objlen (ucast (stripe_unit l - blockoff))"
    have "0 < unat (stripe_unit l - blockoff)"
      using Suc.prems(2) by (subst unat_sub_no_wrap) (simp_all add: word_less_nat_alt)
    then have len: "?len \<noteq> 0" using False by (auto simp: min_def unat_gt_0)
    obtain off where "extent_to_file_loop fuel l s objno (objoff + ?len) (objlen - ?len) 0 num
        (fes @ [\<lparr>fe_off = off, fe_len = ?len\<rparr>]) = Ok fes'"
      using Suc.prems(1) False
      by (subst (asm) extent_to_file_loop.simps) (auto simp: outcome_simps Let_def split: if_splits prod.splits)
    then show ?thesis
    proof (rule Suc.IH)
      show "0 < stripe_unit l" using Suc.prems(2) by (simp add: word_less_nat_alt)
      show "\<forall>fe\<in>set (fes @ [\<lparr>fe_off = off, fe_len = ?len\<rparr>]). fe_len fe \<noteq> 0" using Suc.prems(3) len by simp
    qed
  qed
qed

lemma ceph_extent_to_file_nonempty:
  assumes "ceph_extent_to_file kmalloc_ok l objno objoff objlen = Ok fes"
  shows "\<forall>fe\<in>set fes. fe_len fe \<noteq> 0"
proof (cases "objlen = 0 \<or> stripe_unit l = 0")
  case True
  then show ?thesis using assms by (auto simp: ceph_extent_to_file_def Let_def split: if_splits)
next
  case False
  then have su: "stripe_unit l \<noteq> 0" by simp
  have lt: "ucast (objoff mod ucast (stripe_unit l)) < stripe_unit l"
    using su by (simp add: word_less_nat_alt unat_rem unat_gt_0)
  obtain num where "extent_to_file_loop (unat objlen) l (object_size l div stripe_unit l) objno objoff objlen
      (ucast (objoff mod ucast (stripe_unit l))) num [] = Ok fes"
    using assms False by (auto simp: ceph_extent_to_file_def Let_def div_u64_rem_def split: if_splits)
  from extent_to_file_loop_nonempty [OF this lt] show ?thesis by simp
qed

text \<open>
  reverse mapping a range that lies inside an object returns without a fault, and the file
  extents, read in order, are exactly the file positions of the bytes of the range, in order; in
  particular the number of entries computed up front is the number filled in.
\<close>

theorem ceph_extent_to_file_correct:
  assumes "valid_layout l" and "\<And>n. kmalloc_ok n"
    and "unat objoff + unat objlen \<le> stripes_per_obj l * unat (stripe_unit l)"
    and "file_byte l (unat objno, unat objoff + unat objlen - 1) < 18446744073709551616"
  shows "\<exists>fes. ceph_extent_to_file kmalloc_ok l objno objoff objlen = Ok fes \<and>
    concat (map fe_range fes) =
      map (\<lambda>j. file_byte l (unat objno, j)) [unat objoff..<unat objoff + unat objlen]"
  using assms by (rule ceph_extent_to_file_Ok)

text \<open>
  C30: reverse mapping the object extent that the forward mapping returned gives back the one file
  extent that was mapped.
\<close>

theorem ceph_extent_to_file_inverts_mapping:
  assumes "valid_layout l" and "\<And>n. kmalloc_ok n" and "len \<noteq> 0"
    and "unat off + unat len < 18446744073709551616"
    and m: "ceph_calc_file_object_mapping l off len = Ok (objno, objoff, xlen)"
  shows "ceph_extent_to_file kmalloc_ok l objno objoff (ucast xlen) =
    Ok [\<lparr>fe_off = off, fe_len = ucast xlen\<rparr>]"
proof -
  let ?u = "unat (stripe_unit l)" and ?bo = "ucast (objoff mod ucast (stripe_unit l)) :: u32"
  note ob = calc_mapping_Ok [OF assms(1) m] and ne = mapped_nonempty [OF m assms(3)]
  have su: "stripe_unit l \<noteq> 0" using assms(1) by (auto simp: valid_layout_def)
  have u: "0 < ?u" using valid_layout_pos [OF assms(1)] by simp
  have "unat objoff mod ?u = unat off mod ?u"
  proof -
    have "unat objoff = snd (obj_byte l (unat off))" by (simp add: ob(1))
    then show ?thesis by (simp add: obj_byte_def Let_def)
  qed
  then have x: "unat xlen \<le> unit_left l (unat objoff)" using ob(2) by (simp add: unit_left_def)
  have fb: "file_byte l (unat objno, unat objoff) = unat off"
    using file_byte_obj_byte [OF assms(1), of "unat off"] by (simp add: ob(1))
  have in_obj: "unat objoff + unat xlen \<le> stripes_per_obj l * ?u"
  proof -
    have "unat xlen - 1 < unit_left l (unat off)" using ne ob(2) by linarith
    then have "unat objoff + (unat xlen - 1) < stripes_per_obj l * ?u"
      using obj_byte_bound [OF assms(1), of "unat off + (unat xlen - 1)"]
      by (simp only: obj_byte_contiguous [OF assms(1)] ob(1) snd_conv)
    then show ?thesis using ne(1) by linarith
  qed
  have w: "unat objoff + unat xlen < 4294967296"
    using in_obj valid_layout_pos(4) [OF assms(1)] unat_u32_less [of "object_size l"] by linarith
  have f: "file_byte l (unat objno, unat objoff + unat (ucast xlen :: u64) - 1) < 18446744073709551616"
    using file_byte_contiguous [OF assms(1), of "unat xlen - 1" "unat objoff" "unat objno"] x ne fb assms(4)
    by simp
  have b0: "unat ?bo = unat objoff mod ?u" by (rule unat_rem [OF su])
  have w0: "unat objoff + unat (ucast xlen :: u64) < 18446744073709551616" using w by simp
  have xnz: "(ucast xlen :: u64) \<noteq> 0" using ne(1) by (auto simp: unat_gt_0)
  obtain off' len' where st: "\<forall>fuel num fes. extent_to_file_loop (Suc fuel) l (object_size l div stripe_unit l) objno
       objoff (ucast xlen) ?bo num fes =
     (if length fes < unat num then
        extent_to_file_loop fuel l (object_size l div stripe_unit l) objno (objoff + len') (ucast xlen - len') 0
          num (fes @ [\<lparr>fe_off = off', fe_len = len'\<rparr>])
      else Oops Bad_Access)"
    and len': "unat len' = min (unat (ucast xlen :: u64)) (unit_left l (unat objoff))"
    and "fe_range \<lparr>fe_off = off', fe_len = len'\<rparr> =
       map (\<lambda>j. file_byte l (unat objno, j)) [unat objoff..<unat objoff + unat len']"
    and "unat (objoff + len') = unat objoff + unat len'"
    and "unat (ucast xlen - len') = unat (ucast xlen :: u64) - unat len'"
    and off': "unat off' = file_byte l (unat objno, unat objoff)"
    by (rule extent_to_file_step [OF assms(1) b0 xnz w0 f])
  have eq: "off' = off" "len' = ucast xlen"
    using off' len' fb x by (simp_all add: unat_inj_iff [symmetric])
  let ?num = "ucast (DIV_ROUND_UP_ULL (objoff + ucast xlen) (stripe_unit l) - objoff div ucast (stripe_unit l)) :: u32"
  have num: "unat ?num = 1"
    using unat_num_extents [OF assms(1) xnz, of objoff] w blocks_of_range(1) [OF u ne(1), of "unat objoff"] x
    by (simp add: unit_left_def)
  obtain k where k: "unat xlen = Suc k" using ne(1) by (cases "unat xlen") simp_all
  have "extent_to_file_loop (unat xlen) l (object_size l div stripe_unit l) objno objoff (ucast xlen) ?bo ?num [] =
    Ok [\<lparr>fe_off = off, fe_len = ucast xlen\<rparr>]"
    unfolding k st [rule_format] eq using num by (simp add: extent_to_file_loop.simps)
  then show ?thesis
    using xnz su assms(2) by (simp add: ceph_extent_to_file_def Let_def div_u64_rem_def)
qed

lemma obj_byte_period:
  assumes "valid_layout l" and "t < unat (stripe_count l) * (stripes_per_obj l * unat (stripe_unit l))"
  shows "fst (obj_byte l (a * (unat (stripe_count l) * (stripes_per_obj l * unat (stripe_unit l))) + t)) =
    a * unat (stripe_count l) + t div unat (stripe_unit l) mod unat (stripe_count l)"
proof -
  note p = valid_layout_pos [OF assms(1)]
  let ?u = "unat (stripe_unit l)" and ?c = "unat (stripe_count l)" and ?s = "stripes_per_obj l"
  have 1: "(a * (?c * (?s * ?u)) + t) div ?u = a * ?s * ?c + t div ?u"
  proof -
    have "a * (?c * (?s * ?u)) + t = (a * ?s * ?c) * ?u + t" by (simp add: algebra_simps)
    then show ?thesis using p(1) by (simp only: div_mult_self3)
  qed
  have 2: "(a * ?s * ?c + t div ?u) div ?c = a * ?s + t div ?u div ?c" 
    using p by (simp add: mult.commute)
  have "t div ?u < ?c * ?s" using assms(2) by (metis less_mult_imp_div_less mult.assoc)
  then have "t div ?u div ?c < ?s" by (simp add: less_mult_imp_div_less mult.commute)
  then have 3: "(a * ?s + t div ?u div ?c) div ?s = a" by (rule mul_add_div_mod(1))
  show ?thesis by (simp add: obj_byte_def Let_def 1 2 3)
qed

lemma objects_of_prefix:
  fixes c u r :: nat
  assumes "0 < u" and "0 < c" and "0 < r"
  shows "(\<lambda>t. t div u mod c) ` {0..<r} = {0..<min c ((r + u - 1) div u)}"
proof -
  have k: "k < (r + u - 1) div u \<longleftrightarrow> k * u < r" for k
  proof -
    have "k < (r + u - 1) div u \<longleftrightarrow> Suc k * u \<le> r + u - 1"
      using assms(1) by (simp add: less_eq_div_iff_mult_less_eq Suc_le_eq [symmetric] del: mult_Suc)
    also have "\<dots> \<longleftrightarrow> k * u < r" using assms(1) by (auto simp: algebra_simps)
    finally show ?thesis .
  qed
  show ?thesis
  proof (intro equalityI subsetI)
    fix i assume "i \<in> (\<lambda>t. t div u mod c) ` {0..<r}"
    then obtain t where t: "t < r" "i = t div u mod c" by auto
    have "t div u * u < r" using t(1) by (metis div_times_less_eq_dividend le_less_trans)
    then have "t div u < (r + u - 1) div u" by (simp only: k)
    then have "i < (r + u - 1) div u" using t(2) mod_less_eq_dividend [of "t div u" c] by linarith
    then show "i \<in> {0..<min c ((r + u - 1) div u)}" using t(2) assms(2) by simp
  next
    fix i assume "i \<in> {0..<min c ((r + u - 1) div u)}"
    then have "i < c" "i < (r + u - 1) div u" by simp_all
    then have "i < c" "i * u < r" by (simp_all only: k)
    then show "i \<in> (\<lambda>t. t div u mod c) ` {0..<r}"
      using assms(1) by (intro image_eqI [of _ _ "i * u"]) simp_all
  qed
qed

lemma objects_of_size:
  assumes "valid_layout l" and P: "P = unat (stripe_count l) * (stripes_per_obj l * unat (stripe_unit l))"
    and "r < P"
  shows "fst ` obj_byte l ` {0..<q * P + r} = {0..<q * unat (stripe_count l) +
    (if r = 0 then 0 else min (unat (stripe_count l)) ((r + unat (stripe_unit l) - 1) div unat (stripe_unit l)))}"
    (is "_ = {0..<q * ?c + ?m}")
proof -
  note p = valid_layout_pos [OF assms(1)]
  let ?u = "unat (stripe_unit l)" and ?pos = "\<lambda>t. t div unat (stripe_unit l) mod unat (stripe_count l)"
  have per: "fst (obj_byte l (a * P + t)) = a * ?c + ?pos t" if "t < P" for a t
    using obj_byte_period [OF assms(1), of t a] that by (simp add: P)
  have pre: "?pos ` {0..<r} = {0..<?m}"
    using objects_of_prefix [OF p(1,2), of r] by (cases "r = 0") simp_all
  have cu: "?c * ?u \<le> P" using p(3) by (simp add: P)
  show ?thesis
  proof (intro equalityI subsetI)
    fix n assume "n \<in> fst ` obj_byte l ` {0..<q * P + r}"
    then obtain b where b: "b < q * P + r" "n = fst (obj_byte l b)" by auto
    have "b mod P < P" using assms(3) by simp
    then have n: "n = b div P * ?c + ?pos (b mod P)" using per [of "b mod P" "b div P"] b(2) by simp
    show "n \<in> {0..<q * ?c + ?m}"
    proof (cases "b div P < q")
      case True
      have "n < Suc (b div P) * ?c" using n p(2) by simp
      also have "\<dots> \<le> q * ?c" using True by (intro mult_le_mono1) simp
      finally show ?thesis by simp
    next
      case False
      have "b div P = q" "b mod P < r"
      proof -
        have "b < Suc q * P" using b(1) assms(3) by simp
        then have "b div P < Suc q" by (rule less_mult_imp_div_less)
        with False show "b div P = q" by simp
        then show "b mod P < r" using b(1) div_mult_mod_eq [of b P] by simp
      qed
      then show ?thesis using n pre by auto
    qed
  next
    fix n assume n: "n \<in> {0..<q * ?c + ?m}"
    show "n \<in> fst ` obj_byte l ` {0..<q * P + r}"
    proof (cases "n < q * ?c")
      case True
      have "n mod ?c * ?u < ?c * ?u" using p by simp
      then have i: "n mod ?c * ?u < P" using cu by (rule less_le_trans)
      have "fst (obj_byte l (n div ?c * P + n mod ?c * ?u)) = n"
        using per [of "n mod ?c * ?u" "n div ?c"] i p by simp
      moreover have "n div ?c * P + n mod ?c * ?u < q * P"
      proof -
        have "n div ?c * P + n mod ?c * ?u < Suc (n div ?c) * P" using i by simp
        also have "\<dots> \<le> q * P"
          using True by (intro mult_le_mono1) (simp add: Suc_le_eq less_mult_imp_div_less)
        finally show ?thesis .
      qed
      ultimately show ?thesis
        by (intro image_eqI [where f = fst and x = "obj_byte l (n div ?c * P + n mod ?c * ?u)"] imageI) simp_all
    next
      case False
      then have "n - q * ?c \<in> ?pos ` {0..<r}" using n pre by auto
      then obtain t where "t < r" "?pos t = n - q * ?c" by auto
      then have "fst (obj_byte l (q * P + t)) = n" "q * P + t < q * P + r"
        using per [of t q] assms(3) False by simp_all
      then show ?thesis
        by (intro image_eqI [where f = fst and x = "obj_byte l (q * P + t)"] imageI) simp_all
    qed
  qed
qed

lemma round_up_div:
  fixes P :: nat
  assumes "0 < P"
  shows "(q * P + P - 1) div P = q" and "0 < r \<Longrightarrow> r < P \<Longrightarrow> (q * P + r + P - 1) div P = Suc q"
proof -
  have "q * P + P - 1 = q * P + (P - 1)" using assms by simp
  then show "(q * P + P - 1) div P = q" using assms mul_add_div_mod(1) [of "P - 1" P q] by simp
  assume "0 < r" "r < P"
  then have "q * P + r + P - 1 = Suc q * P + (r - 1)" "r - 1 < P" by simp_all
  then show "(q * P + r + P - 1) div P = Suc q" by (simp only: mul_add_div_mod(1))
qed

lemma last_period_objects:
  assumes "valid_layout l" and P: "P = unat (stripe_count l) * (stripes_per_obj l * unat (stripe_unit l))"
    and rem: "0 < unat rem" "unat rem < P" and "unat rem + P \<le> 18446744073709551616"
    and np: "unat (np * ucast (stripe_count l)) = Suc q * unat (stripe_count l)"
  shows "unat (if 0 < rem \<and> rem < ucast (stripe_count l) * ucast (stripe_unit l)
      then np * ucast (stripe_count l) - (ucast (stripe_count l) - DIV_ROUND_UP_ULL rem (stripe_unit l))
      else np * ucast (stripe_count l)) =
    q * unat (stripe_count l) +
      min (unat (stripe_count l)) ((unat rem + unat (stripe_unit l) - 1) div unat (stripe_unit l))"
proof -
  note p = valid_layout_pos [OF assms(1)]
  let ?u = "unat (stripe_unit l)" and ?c = "unat (stripe_count l)"
  have lt: "rem < ucast (stripe_count l) * ucast (stripe_unit l) \<longleftrightarrow> unat rem < ?c * ?u"
    by (simp only: word_less_nat_alt unat_mult_32_64)
  have pos: "0 < rem" using rem by (simp add: word_less_nat_alt)
  show ?thesis
  proof (cases "unat rem < ?c * ?u")
    case True
    have "?u \<le> P" using p by (simp add: P)
    then have up: "unat (DIV_ROUND_UP_ULL rem (stripe_unit l)) = (unat rem + ?u - 1) div ?u"
      unfolding DIV_ROUND_UP_ULL_def using p(1) assms(5) by (subst unat_round_up) simp_all
    have "unat rem + ?u - 1 < Suc ?c * ?u" using True p(1) by simp
    then have le: "(unat rem + ?u - 1) div ?u \<le> ?c" using less_mult_imp_div_less less_Suc_eq_le by blast
    then have "unat (ucast (stripe_count l) - DIV_ROUND_UP_ULL rem (stripe_unit l)) =
        ?c - (unat rem + ?u - 1) div ?u"
      by (subst unat_sub_no_wrap) (simp_all add: up)
    then have "unat (np * ucast (stripe_count l) -
        (ucast (stripe_count l) - DIV_ROUND_UP_ULL rem (stripe_unit l))) =
        Suc q * ?c - (?c - (unat rem + ?u - 1) div ?u)"
      by (subst unat_sub_no_wrap) (simp_all only: np, simp_all)
    then show ?thesis using True pos le by (simp add: lt)
  next
    case False
    then have "?c * ?u \<le> unat rem + ?u - 1" using p(1) by linarith
    then have "?c \<le> (unat rem + ?u - 1) div ?u" using p(1) by (simp add: less_eq_div_iff_mult_less_eq)
    then show ?thesis using False np by (simp add: lt)
  qed
qed

lemma get_num_objects_value:
  assumes "valid_layout l" and "unat (object_size l) = stripes_per_obj l * unat (stripe_unit l)"
    and P: "P = unat (stripe_count l) * (stripes_per_obj l * unat (stripe_unit l))"
    and "unat sz + P \<le> 18446744073709551616"
  shows "\<exists>n. ceph_get_num_objects l sz = Ok n \<and>
    unat n = unat sz div P * unat (stripe_count l) +
      (if unat sz mod P = 0 then 0 else min (unat (stripe_count l))
        ((unat sz mod P + unat (stripe_unit l) - 1) div unat (stripe_unit l)))"
proof -
  note p = valid_layout_pos [OF assms(1)]
  let ?u = "unat (stripe_unit l)" and ?c = "unat (stripe_count l)"
  let ?period = "ucast (stripe_count l) * ucast (object_size l) :: u64"
  let ?q = "unat sz div P" and ?r = "unat sz mod P"
  let ?np = "(sz + ?period - 1) div ?period"
  have P0: "0 < P" using p P by simp
  have per: "unat ?period = P" by (simp only: unat_mult_32_64 assms(2) P)
  have pnz: "?period \<noteq> 0" using per P0 by auto
  have S: "unat sz = ?q * P + ?r" by simp
  have r: "?r < P" using P0 by simp
  have np: "unat ?np = (unat sz + P - 1) div P"
    using unat_round_up [of ?period sz] per P0 assms(4) by simp
  have rem: "unat (sz mod ?period) = ?r" by (simp only: unat_mod per)
  have cP: "?c \<le> P" using p by (simp add: P)
  show ?thesis
  proof (cases "?r = 0")
    case True
    then have "unat ?np = ?q" using np S round_up_div(1) [OF P0, of ?q] by simp
    moreover have "?q * ?c < 18446744073709551616"
      using mult_le_mono2 [OF cP, of ?q] S unat_u64_less [of sz] by linarith
    ultimately have "unat (?np * ucast (stripe_count l)) = ?q * ?c"
      by (subst unat_mult_no_wrap) simp_all
    moreover have "sz mod ?period = 0" using rem True by (metis unat_eq_zero)
    ultimately show ?thesis using pnz True by (simp add: ceph_get_num_objects_def Let_def)
  next
    case False
    then have npv: "unat ?np = Suc ?q" using np S round_up_div(2) [OF P0, of ?r ?q] r by simp
    have bnd: "Suc ?q * ?c < 18446744073709551616"
      using mult_le_mono2 [OF cP, of "Suc ?q"] S assms(4) False unfolding mult_Suc by linarith
    have npc: "unat (?np * ucast (stripe_count l)) = Suc ?q * ?c"
      using bnd npv by (subst unat_mult_no_wrap) simp_all
    have nz: "stripe_unit l \<noteq> 0" using p(1) by auto
    have "unat (sz mod ?period) + P \<le> 18446744073709551616" using rem assms(4) S by linarith
    then show ?thesis
      using last_period_objects [OF assms(1) P _ _ _ npc, of "sz mod ?period"] False r rem pnz nz
      by (auto simp: ceph_get_num_objects_def Let_def split: if_splits)
  qed
qed

text \<open>
  when the object size is a multiple of the stripe unit, the number of objects computed for a
  size is exactly the number of objects that the bytes of that size fall into, numbered from 0.
\<close>

theorem ceph_get_num_objects_correct:
  assumes "valid_layout l" and "unat (stripe_unit l) dvd unat (object_size l)"
    and "unat sz + unat (stripe_count l) * unat (object_size l) \<le> 18446744073709551616"
  shows "\<exists>n. ceph_get_num_objects l sz = Ok n \<and> fst ` obj_byte l ` {0..<unat sz} = {0..<unat n}"
proof -
  let ?P = "unat (stripe_count l) * (stripes_per_obj l * unat (stripe_unit l))"
  have os: "unat (object_size l) = stripes_per_obj l * unat (stripe_unit l)"
    using assms(2) by (simp add: stripes_per_obj_def)
  have "0 < ?P" using valid_layout_pos [OF assms(1)] by simp
  then have r: "unat sz mod ?P < ?P" by simp
  have le: "unat sz + ?P \<le> 18446744073709551616" using assms(3) by (simp only: os)
  from get_num_objects_value [OF assms(1) os refl le] obtain n where
    "ceph_get_num_objects l sz = Ok n" and n: "unat n = unat sz div ?P * unat (stripe_count l) +
      (if unat sz mod ?P = 0 then 0 else min (unat (stripe_count l))
        ((unat sz mod ?P + unat (stripe_unit l) - 1) div unat (stripe_unit l)))" by blast
  moreover have "fst ` obj_byte l ` {0..<unat sz} = {0..<unat n}"
    using objects_of_size [OF assms(1) refl r, of "unat sz div ?P"] unfolding n div_mult_mod_eq .
  ultimately show ?thesis by blast
qed

section \<open>A small layout: two stripe units of four bytes in each object, two objects in a set\<close>

definition small_layout :: ceph_file_layout where
  "small_layout = \<lparr>stripe_unit = 4, stripe_count = 2, object_size = 8, pool_id = 1, pool_ns = None\<rparr>"

lemma small_layout_valid: "valid_layout small_layout"
  by (simp add: valid_layout_def small_layout_def)

lemma small_layout_extents:
  "ceph_file_to_extents small_layout 3 16 [] (\<lambda>a. (True, a)) () (\<lambda>e x n. n + unat x) (0 :: nat) =
   Ok (None, [\<lparr>oe_objno = 0, oe_off = 3, oe_len = 5\<rparr>, \<lparr>oe_objno = 1, oe_off = 0, oe_len = 8\<rparr>,
     \<lparr>oe_objno = 2, oe_off = 0, oe_len = 3\<rparr>], (), 16)"
  by code_simp

theorem ceph_file_to_extents_correct_witness:
  "(\<Union>e\<in>set [\<lparr>oe_objno = 0, oe_off = 3, oe_len = 5\<rparr>, \<lparr>oe_objno = 1, oe_off = 0, oe_len = 8\<rparr>,
     \<lparr>oe_objno = 2, oe_off = 0, oe_len = 3\<rparr>]. ext_bytes e) = obj_byte small_layout ` {3..<19}"
proof -
  have "unat (3 :: u64) + unat (16 :: u64) < 18446744073709551616" by simp
  from ceph_file_to_extents_correct [OF small_layout_valid this, of "\<lambda>a. (True, a)" "()" "\<lambda>e x n. n + unat x" "0 :: nat"]
  show ?thesis by (simp add: small_layout_extents)
qed

theorem ceph_iterate_extents_after_mapping_witness:
  "\<exists>ca. ceph_iterate_extents small_layout 5 6 [\<lparr>oe_objno = 0, oe_off = 3, oe_len = 5\<rparr>,
     \<lparr>oe_objno = 1, oe_off = 0, oe_len = 8\<rparr>, \<lparr>oe_objno = 2, oe_off = 0, oe_len = 3\<rparr>]
     (\<lambda>e x n. n + unat x) (0 :: nat) = Ok (None, ca)"
  by (rule ceph_iterate_extents_after_mapping [OF small_layout_valid _ small_layout_extents]) simp_all

theorem ceph_extent_to_file_correct_witness:
  "\<exists>fes. ceph_extent_to_file (\<lambda>n. True) small_layout 3 2 5 = Ok fes \<and>
    concat (map fe_range fes) = map (\<lambda>j. file_byte small_layout (3, j)) [2..<7]"
  using ceph_extent_to_file_correct [OF small_layout_valid, of "\<lambda>n. True" 2 5 3]
  by (simp add: small_layout_def stripes_per_obj_def file_byte_def)

theorem ceph_extent_to_file_inverts_mapping_witness:
  "ceph_extent_to_file (\<lambda>n. True) small_layout 0 3 1 = Ok [\<lparr>fe_off = 3, fe_len = 1\<rparr>]"
proof -
  have "ceph_calc_file_object_mapping small_layout 3 16 = Ok (0, 3, 1)" by code_simp
  from ceph_extent_to_file_inverts_mapping [OF small_layout_valid _ _ _ this, of "\<lambda>n. True"]
  show ?thesis by simp
qed

theorem ceph_get_num_objects_correct_witness:
  "\<exists>n. ceph_get_num_objects small_layout 19 = Ok n \<and> fst ` obj_byte small_layout ` {0..<19} = {0..<unat n}"
  using ceph_get_num_objects_correct [OF small_layout_valid, of 19] by (simp add: small_layout_def)

theorem ceph_calc_file_object_mapping_correct_witness:
  "\<exists>objno objoff xlen. ceph_calc_file_object_mapping small_layout 13 100 = Ok (objno, objoff, xlen) \<and>
    0 < unat xlen \<and> unat xlen \<le> unat (100 :: u64) \<and> unat objoff + unat xlen \<le> unat (object_size small_layout) \<and>
    (\<forall>k < unat xlen. obj_byte small_layout (unat (13 :: u64) + k) = (unat objno, unat objoff + k))"
  by (rule ceph_calc_file_object_mapping_correct [OF small_layout_valid]) simp

end
