(* ===== verification/Armor.thy ===== *)
theory Armor
  imports Prelude
begin

text \<open>
  \<open>libceph/armor.c\<close>: the base64 codec of the keyring secrets. Characters and bytes are octets;
  the codec emits a newline after every 64 characters and skips newlines when decoding. The
  destination buffer is the list of the bytes stored so far, and the return value of the C
  function is carried separately.
\<close>

unbundle bit_operations_syntax

section \<open>The codec\<close>

definition pem_key :: "u8 list" where
  \<comment> \<open>the letters A to Z, a to z, the digits 0 to 9, plus and slash\<close>
  "pem_key = [
     65, 66, 67, 68, 69, 70, 71, 72, 73, 74, 75, 76, 77, 78, 79, 80,
     81, 82, 83, 84, 85, 86, 87, 88, 89, 90, 97, 98, 99, 100, 101, 102,
     103, 104, 105, 106, 107, 108, 109, 110, 111, 112, 113, 114, 115, 116, 117, 118,
     119, 120, 121, 122, 48, 49, 50, 51, 52, 53, 54, 55, 56, 57, 43, 47]"

definition encode_bits :: "u32 \<Rightarrow> u8 outcome" where
  "encode_bits c = aref pem_key (unat c)"

definition decode_bits :: "u8 \<Rightarrow> u32 outcome" where
  "decode_bits c =
     (if 65 \<le> c \<and> c \<le> 90 then Ok (ucast c - 65)
      else if 97 \<le> c \<and> c \<le> 122 then Ok (ucast c - 97 + 26)
      else if 48 \<le> c \<and> c \<le> 57 then Ok (ucast c - 48 + 52)
      else if c = 43 then Ok 62
      else if c = 47 then Ok 63
      else if c = 61 then Ok 0
      else Err EINVAL)"

text \<open>One group of the encoder: up to three bytes of input become four characters.\<close>

fun armor_group :: "u8 list \<Rightarrow> u8 list outcome" where
  "armor_group [a] =
     bind_outcome (encode_bits (drop_bit 2 (ucast a))) (\<lambda>w.
     bind_outcome (encode_bits (push_bit 4 (ucast a AND 3))) (\<lambda>x. Ok [w, x, 61, 61]))"
| "armor_group [a, b] =
     bind_outcome (encode_bits (drop_bit 2 (ucast a))) (\<lambda>w.
     bind_outcome (encode_bits (push_bit 4 (ucast a AND 3) OR drop_bit 4 (ucast b))) (\<lambda>x.
     bind_outcome (encode_bits (push_bit 2 (ucast b AND 15))) (\<lambda>y. Ok [w, x, y, 61])))"
| "armor_group [a, b, c] =
     bind_outcome (encode_bits (drop_bit 2 (ucast a))) (\<lambda>w.
     bind_outcome (encode_bits (push_bit 4 (ucast a AND 3) OR drop_bit 4 (ucast b))) (\<lambda>x.
     bind_outcome (encode_bits (push_bit 2 (ucast b AND 15) OR drop_bit 6 (ucast c))) (\<lambda>y.
     bind_outcome (encode_bits (ucast c AND 63)) (\<lambda>z. Ok [w, x, y, z]))))"
| "armor_group _ = Oops Bad_Access"

function armor_loop :: "nat \<Rightarrow> nat \<Rightarrow> u8 list \<Rightarrow> u8 list \<Rightarrow> (nat \<times> u8 list) outcome" where
  "armor_loop olen line dst src =
     (if src = [] then Ok (olen, dst)
      else bind_outcome (armor_group (take 3 src)) (\<lambda>g.
        if line + 4 = 64
        then armor_loop (olen + 5) 0 (dst @ g @ [10]) (drop 3 src)
        else armor_loop (olen + 4) (line + 4) (dst @ g) (drop 3 src)))"
  by pat_completeness auto
termination
  by (relation "measure (\<lambda>(olen, line, dst, src). length src)") auto

declare armor_loop.simps [simp del]

definition ceph_armor :: "u8 list \<Rightarrow> (nat \<times> u8 list) outcome" where
  "ceph_armor src = armor_loop 0 0 [] src"

function unarmor_loop :: "nat \<Rightarrow> u8 list \<Rightarrow> u8 list \<Rightarrow> (nat \<times> u8 list) outcome" where
  "unarmor_loop olen dst src =
     (if src = [] then Ok (olen, dst)
      else if src ! 0 = 10 then unarmor_loop olen dst (drop 1 src)
      else if length src < 4 then Err EINVAL
      else
        bind_outcome (decode_bits (src ! 0)) (\<lambda>a.
        bind_outcome (decode_bits (src ! 1)) (\<lambda>b.
        bind_outcome (decode_bits (src ! 2)) (\<lambda>c.
        bind_outcome (decode_bits (src ! 3)) (\<lambda>d.
          let dst = dst @ [ucast (push_bit 2 a OR drop_bit 4 b)] in
          if src ! 2 = 61 then Ok (olen + 1, dst)
          else let dst = dst @ [ucast (push_bit 4 (b AND 15) OR drop_bit 2 c)] in
            if src ! 3 = 61 then Ok (olen + 2, dst)
            else unarmor_loop (olen + 3) (dst @ [ucast (push_bit 6 (c AND 3) OR d)]) (drop 4 src))))))"
  by pat_completeness auto
termination
  by (relation "measure (\<lambda>(olen, dst, src). length src)") auto

declare unarmor_loop.simps [simp del]

definition ceph_unarmor :: "u8 list \<Rightarrow> (nat \<times> u8 list) outcome" where
  "ceph_unarmor src = unarmor_loop 0 [] src"

section \<open>Round trip\<close>

lemma length_pem_key [simp]: "length pem_key = 64"
  by (simp add: pem_key_def)

lemma pem_key_decodes: "map decode_bits pem_key = map (\<lambda>i. Ok (of_nat i)) [0..<64]"
  by (simp add: pem_key_def decode_bits_def upt_rec)

lemma pem_key_plain: "list_all (\<lambda>c. c \<noteq> 10 \<and> c \<noteq> 61) pem_key"
  by (simp add: pem_key_def)

lemma pem_key_table:
  assumes "i < 64"
  shows "pem_key ! i \<noteq> 10" "pem_key ! i \<noteq> 61" "decode_bits (pem_key ! i) = Ok (of_nat i)"
  using assms pem_key_plain nth_map [of i pem_key decode_bits]
  by (auto simp: list_all_length pem_key_decodes)

lemma encode_bits_small:
  assumes "c < 64"
  obtains e where "encode_bits c = Ok e" "e \<noteq> 10" "e \<noteq> 61" "decode_bits e = Ok c"
proof -
  have "unat c < 64" using assms by (simp add: word_less_nat_alt)
  then show thesis
    using pem_key_table [of "unat c"] by (intro that [of "pem_key ! unat c"]) (simp_all add: encode_bits_def)
qed

lemma octet_bits: "bit (ucast (a :: u8) :: u32) n \<longleftrightarrow> bit a n"
  by (auto simp: bit_ucast_iff dest: bit_imp_le_length)

lemma octet_no_bit: "8 \<le> n \<Longrightarrow> \<not> bit (a :: u8) n"
  by (auto dest: bit_imp_le_length)

lemma Suc_Suc_diff_2: "2 \<le> n \<Longrightarrow> Suc (Suc (n - 2)) = n"
  by simp

lemma and_masks:
  "(x :: u32) AND 3 = take_bit 2 x" "x AND 15 = take_bit 4 x" "x AND 63 = take_bit 6 x"
  by (simp_all add: take_bit_eq_mask mask_eq_exp_minus_1)

lemma less_64_iff_bits: "(w :: u32) < 64 \<longleftrightarrow> (\<forall>n. 6 \<le> n \<longrightarrow> \<not> bit w n)"
proof -
  have "w < 64 \<longleftrightarrow> take_bit 6 (unat w) = unat w"
    by (simp add: word_less_nat_alt take_bit_nat_eq_self_iff)
  also have "\<dots> \<longleftrightarrow> take_bit 6 w = w"
    by (simp add: unsigned_take_bit_eq flip: unat_inj_iff)
  also have "\<dots> \<longleftrightarrow> (\<forall>n. 6 \<le> n \<longrightarrow> \<not> bit w n)"
  proof -
    have "bit w n \<Longrightarrow> n < 32" for n using bit_imp_le_length [of w n] by simp
    then show ?thesis by (auto simp: bit_eq_iff bit_take_bit_iff not_le [symmetric])
  qed
  finally show ?thesis .
qed

lemma sextets:
  fixes a b c :: u8
  shows "drop_bit 2 (ucast a :: u32) < 64" "push_bit 4 ((ucast a :: u32) AND 3) < 64"
    "push_bit 4 ((ucast a :: u32) AND 3) OR drop_bit 4 (ucast b) < 64"
    "push_bit 2 ((ucast b :: u32) AND 15) < 64"
    "push_bit 2 ((ucast b :: u32) AND 15) OR drop_bit 6 (ucast c) < 64"
    "(ucast c :: u32) AND 63 < 64"
  by (auto simp: less_64_iff_bits and_masks bit_simps octet_bits octet_no_bit)

lemma recombine:
  fixes a b c :: u8
  shows "ucast (push_bit 2 (drop_bit 2 (ucast a :: u32)) OR drop_bit 4 (push_bit 4 ((ucast a :: u32) AND 3))) = a"
    "ucast (push_bit 2 (drop_bit 2 (ucast a :: u32)) OR
       drop_bit 4 (push_bit 4 ((ucast a :: u32) AND 3) OR drop_bit 4 (ucast b))) = a"
    "ucast (push_bit 4 ((push_bit 4 ((ucast a :: u32) AND 3) OR drop_bit 4 (ucast b)) AND 15) OR
       drop_bit 2 (push_bit 2 ((ucast b :: u32) AND 15))) = b"
    "ucast (push_bit 4 ((push_bit 4 ((ucast a :: u32) AND 3) OR drop_bit 4 (ucast b)) AND 15) OR
       drop_bit 2 (push_bit 2 ((ucast b :: u32) AND 15) OR drop_bit 6 (ucast c))) = b"
    "ucast (push_bit 6 ((push_bit 2 ((ucast b :: u32) AND 15) OR drop_bit 6 (ucast c)) AND 3) OR
       ((ucast c :: u32) AND 63)) = c"
  by (rule bit_word_eqI; auto simp: and_masks bit_simps octet_bits octet_no_bit not_le
      Suc_Suc_diff_2 not_less)+

text \<open>What the decoder does with one group, for any decoded values.\<close>

lemma unarmor_groups:
  assumes "w \<noteq> 10" "decode_bits w = Ok a" "decode_bits x = Ok b"
  shows "unarmor_loop n dst (w # x # 61 # 61 # t) = Ok (n + 1, dst @ [ucast (push_bit 2 a OR drop_bit 4 b)])"
    and "decode_bits y = Ok c \<Longrightarrow> y \<noteq> 61 \<Longrightarrow> unarmor_loop n dst (w # x # y # 61 # t) =
      Ok (n + 2, dst @ [ucast (push_bit 2 a OR drop_bit 4 b), ucast (push_bit 4 (b AND 15) OR drop_bit 2 c)])"
    and "decode_bits y = Ok c \<Longrightarrow> y \<noteq> 61 \<Longrightarrow> decode_bits z = Ok d \<Longrightarrow> z \<noteq> 61 \<Longrightarrow>
      unarmor_loop n dst (w # x # y # z # t) =
      unarmor_loop (n + 3) (dst @ [ucast (push_bit 2 a OR drop_bit 4 b),
        ucast (push_bit 4 (b AND 15) OR drop_bit 2 c), ucast (push_bit 6 (c AND 3) OR d)]) t"
  using assms by (simp_all add: unarmor_loop.simps [of _ _ "w # _"] decode_bits_def [of 61])

lemma armor_group_1:
  obtains g where "armor_group [a] = Ok g" "length g = 4"
    "\<forall>n dst t. unarmor_loop n dst (g @ t) = Ok (n + 1, dst @ [a])"
proof -
  obtain w where w: "encode_bits (drop_bit 2 (ucast a)) = Ok w" "w \<noteq> 10" "w \<noteq> 61"
      "decode_bits w = Ok (drop_bit 2 (ucast a))"
    by (rule encode_bits_small [OF sextets(1)])
  obtain x where x: "encode_bits (push_bit 4 (ucast a AND 3)) = Ok x" "x \<noteq> 10" "x \<noteq> 61"
      "decode_bits x = Ok (push_bit 4 (ucast a AND 3))"
    by (rule encode_bits_small [OF sextets(2)])
  show thesis
  proof (rule that [of "[w, x, 61, 61]"])
    show "\<forall>n dst t. unarmor_loop n dst ([w, x, 61, 61] @ t) = Ok (n + 1, dst @ [a])"
      using unarmor_groups(1) [OF w(2,4) x(4), unfolded recombine] by simp
  qed (simp_all only: armor_group.simps bind_outcome.simps w(1) x(1), simp)
qed

lemma armor_group_2:
  obtains g where "armor_group [a, b] = Ok g" "length g = 4"
    "\<forall>n dst t. unarmor_loop n dst (g @ t) = Ok (n + 2, dst @ [a, b])"
proof -
  obtain w where w: "encode_bits (drop_bit 2 (ucast a)) = Ok w" "w \<noteq> 10" "w \<noteq> 61"
      "decode_bits w = Ok (drop_bit 2 (ucast a))"
    by (rule encode_bits_small [OF sextets(1)])
  obtain x where x: "encode_bits (push_bit 4 (ucast a AND 3) OR drop_bit 4 (ucast b)) = Ok x" "x \<noteq> 10" "x \<noteq> 61"
      "decode_bits x = Ok (push_bit 4 (ucast a AND 3) OR drop_bit 4 (ucast b))"
    by (rule encode_bits_small [OF sextets(3)])
  obtain y where y: "encode_bits (push_bit 2 (ucast b AND 15)) = Ok y" "y \<noteq> 10" "y \<noteq> 61"
      "decode_bits y = Ok (push_bit 2 (ucast b AND 15))"
    by (rule encode_bits_small [OF sextets(4)])
  show thesis
  proof (rule that [of "[w, x, y, 61]"])
    show "\<forall>n dst t. unarmor_loop n dst ([w, x, y, 61] @ t) = Ok (n + 2, dst @ [a, b])"
      using unarmor_groups(2) [OF w(2,4) x(4) y(4,3), unfolded recombine] by simp
  qed (simp_all only: armor_group.simps bind_outcome.simps w(1) x(1) y(1), simp)
qed

lemma armor_group_3:
  obtains g where "armor_group [a, b, c] = Ok g" "length g = 4"
    "\<forall>n dst t. unarmor_loop n dst (g @ t) = unarmor_loop (n + 3) (dst @ [a, b, c]) t"
proof -
  obtain w where w: "encode_bits (drop_bit 2 (ucast a)) = Ok w" "w \<noteq> 10" "w \<noteq> 61"
      "decode_bits w = Ok (drop_bit 2 (ucast a))"
    by (rule encode_bits_small [OF sextets(1)])
  obtain x where x: "encode_bits (push_bit 4 (ucast a AND 3) OR drop_bit 4 (ucast b)) = Ok x" "x \<noteq> 10" "x \<noteq> 61"
      "decode_bits x = Ok (push_bit 4 (ucast a AND 3) OR drop_bit 4 (ucast b))"
    by (rule encode_bits_small [OF sextets(3)])
  obtain y where y: "encode_bits (push_bit 2 (ucast b AND 15) OR drop_bit 6 (ucast c)) = Ok y" "y \<noteq> 10" "y \<noteq> 61"
      "decode_bits y = Ok (push_bit 2 (ucast b AND 15) OR drop_bit 6 (ucast c))"
    by (rule encode_bits_small [OF sextets(5)])
  obtain z where z: "encode_bits (ucast c AND 63) = Ok z" "z \<noteq> 10" "z \<noteq> 61"
      "decode_bits z = Ok (ucast c AND 63)"
    by (rule encode_bits_small [OF sextets(6)])
  show thesis
  proof (rule that [of "[w, x, y, z]"])
    show "\<forall>n dst t. unarmor_loop n dst ([w, x, y, z] @ t) = unarmor_loop (n + 3) (dst @ [a, b, c]) t"
      using unarmor_groups(3) [OF w(2,4) x(4) y(4,3) z(4,3), unfolded recombine] by simp
  qed (simp_all only: armor_group.simps bind_outcome.simps w(1) x(1) y(1) z(1), simp)
qed

lemma unarmor_newline: "unarmor_loop n dst (10 # t) = unarmor_loop n dst t"
  by (subst unarmor_loop.simps) simp

lemma armor_loop_last:
  assumes "armor_group (take 3 src) = Ok g" "length g = 4" "src \<noteq> []" "drop 3 src = []"
    "\<forall>n dst t. unarmor_loop n dst (g @ t) = Ok (n + length src, dst @ src)"
  shows "\<exists>t. armor_loop olen line dst src = Ok (olen + length t, dst @ t) \<and>
     (\<forall>n d. unarmor_loop n d t = Ok (n + length src, d @ src))"
proof (cases "line + 4 = 64")
  case True
  then show ?thesis using assms by (intro exI [of _ "g @ [10]"]) (simp add: armor_loop.simps)
next
  case False
  have "unarmor_loop n d g = Ok (n + length src, d @ src)" for n d
    using assms(5) by (metis append_Nil2)
  with False show ?thesis using assms by (intro exI [of _ g]) (simp add: armor_loop.simps)
qed

lemma armor_loop_decodes:
  "\<exists>t. armor_loop olen line dst src = Ok (olen + length t, dst @ t) \<and>
     (\<forall>n d. unarmor_loop n d t = Ok (n + length src, d @ src))"
proof (induction "length src" arbitrary: olen line dst src rule: less_induct)
  case less
  consider "src = []" | a where "src = [a]" | a b where "src = [a, b]" | a b c r where "src = a # b # c # r"
    by (metis list.exhaust)
  then show ?case
  proof cases
    case 1
    then show ?thesis by (simp add: armor_loop.simps unarmor_loop.simps)
  next
    case (2 a)
    obtain g where "armor_group [a] = Ok g" "length g = 4"
      "\<forall>n dst t. unarmor_loop n dst (g @ t) = Ok (n + 1, dst @ [a])" by (rule armor_group_1)
    with 2 show ?thesis using armor_loop_last [of src g] by simp
  next
    case (3 a b)
    obtain g where "armor_group [a, b] = Ok g" "length g = 4"
      "\<forall>n dst t. unarmor_loop n dst (g @ t) = Ok (n + 2, dst @ [a, b])" by (rule armor_group_2)
    with 3 show ?thesis using armor_loop_last [of src g] by simp
  next
    case (4 a b c r)
    obtain g where g: "armor_group [a, b, c] = Ok g" "length g = 4"
      "\<forall>n dst t. unarmor_loop n dst (g @ t) = unarmor_loop (n + 3) (dst @ [a, b, c]) t"
      by (rule armor_group_3)
    have IH: "\<And>olen line dst. \<exists>t. armor_loop olen line dst r = Ok (olen + length t, dst @ t) \<and>
        (\<forall>n d. unarmor_loop n d t = Ok (n + length r, d @ r))"
      using less [of r] 4 by simp
    obtain t where t: "armor_loop (olen + 4) (line + 4) (dst @ g) r = Ok (olen + 4 + length t, (dst @ g) @ t)"
      "\<forall>n d. unarmor_loop n d t = Ok (n + length r, d @ r)"
      using IH [of "olen + 4" "line + 4" "dst @ g"] by blast
    obtain u where u: "armor_loop (olen + 5) 0 (dst @ g @ [10]) r = Ok (olen + 5 + length u, (dst @ g @ [10]) @ u)"
      "\<forall>n d. unarmor_loop n d u = Ok (n + length r, d @ r)"
      using IH [of "olen + 5" 0 "dst @ g @ [10]"] by blast
    show ?thesis
    proof (cases "line + 4 = 64")
      case True
      then have "armor_loop olen line dst src = Ok (olen + length (g @ 10 # u), dst @ g @ 10 # u)"
        using g u 4 by (subst armor_loop.simps) simp
      then show ?thesis using g u 4 by (intro exI [of _ "g @ 10 # u"]) (simp add: unarmor_newline)
    next
      case False
      then have "armor_loop olen line dst src = Ok (olen + length (g @ t), dst @ g @ t)"
        using g t 4 by (subst armor_loop.simps) simp
      then show ?thesis using g t 4 by (intro exI [of _ "g @ t"]) simp
    qed
  qed
qed


end
