(* ===== verification/Codec.thy ===== *)
theory Codec
  imports Prelude
begin

text \<open>
  The wire codec of \<open>include/linux/ceph/decode.h\<close>: little-endian integers, strings and versioned
  blocks in a buffer. A buffer is a list of bytes; the position pointer \<open>*p\<close> and the end pointer
  are offsets into it. Decoders return the value and the new position, encoders the new buffer and the new position.
  Reading or writing outside the buffer is a fault; the \<open>_safe\<close> macros take the outcome of their \<open>bad\<close> label as an argument.
\<close>

unbundle bit_operations_syntax

section \<open>Operations\<close>

primrec put_le :: "nat \<Rightarrow> 'a::len word \<Rightarrow> u8 list" where
  "put_le 0 w = []"
| "put_le (Suc n) w = ucast w # put_le n (drop_bit 8 w)"

primrec get_le :: "u8 list \<Rightarrow> 'a::len word" where
  "get_le [] = 0"
| "get_le (b # bs) = ucast b OR push_bit 8 (get_le bs)"

definition get_bytes :: "u8 list \<Rightarrow> nat \<Rightarrow> nat \<Rightarrow> u8 list outcome" where
  "get_bytes b p n = (if p + n \<le> length b then Ok (take n (drop p b)) else Oops Bad_Access)"

definition put_bytes :: "u8 list \<Rightarrow> nat \<Rightarrow> u8 list \<Rightarrow> (u8 list \<times> nat) outcome" where
  "put_bytes b p bs =
     (if p + length bs \<le> length b
      then Ok (take p b @ bs @ drop (p + length bs) b, p + length bs) else Oops Bad_Access)"

definition ceph_decode_64 :: "u8 list \<Rightarrow> nat \<Rightarrow> (u64 \<times> nat) outcome" where
  "ceph_decode_64 b p = bind_outcome (get_bytes b p 8) (\<lambda>bs. Ok (get_le bs, p + 8))"

definition ceph_decode_32 :: "u8 list \<Rightarrow> nat \<Rightarrow> (u32 \<times> nat) outcome" where
  "ceph_decode_32 b p = bind_outcome (get_bytes b p 4) (\<lambda>bs. Ok (get_le bs, p + 4))"

definition ceph_decode_16 :: "u8 list \<Rightarrow> nat \<Rightarrow> (u16 \<times> nat) outcome" where
  "ceph_decode_16 b p = bind_outcome (get_bytes b p 2) (\<lambda>bs. Ok (get_le bs, p + 2))"

definition ceph_decode_8 :: "u8 list \<Rightarrow> nat \<Rightarrow> (u8 \<times> nat) outcome" where
  "ceph_decode_8 b p = bind_outcome (aref b p) (\<lambda>v. Ok (v, p + 1))"

definition ceph_decode_copy :: "u8 list \<Rightarrow> nat \<Rightarrow> nat \<Rightarrow> (u8 list \<times> nat) outcome" where
  "ceph_decode_copy b p n = bind_outcome (get_bytes b p n) (\<lambda>bs. Ok (bs, p + n))"

definition ceph_has_room :: "nat \<Rightarrow> nat \<Rightarrow> nat \<Rightarrow> bool" where
  "ceph_has_room p end n \<longleftrightarrow> end \<ge> p \<and> n \<le> end - p"

definition ceph_decode_need :: "nat \<Rightarrow> nat \<Rightarrow> nat \<Rightarrow> 'a outcome \<Rightarrow> 'a outcome \<Rightarrow> 'a outcome" where
  "ceph_decode_need p end n bad k = (if ceph_has_room p end n then k else bad)"

definition ceph_decode_64_safe :: "u8 list \<Rightarrow> nat \<Rightarrow> nat \<Rightarrow> (u64 \<times> nat) outcome \<Rightarrow> (u64 \<times> nat) outcome" where
  "ceph_decode_64_safe b p end bad = ceph_decode_need p end 8 bad (ceph_decode_64 b p)"

definition ceph_decode_32_safe :: "u8 list \<Rightarrow> nat \<Rightarrow> nat \<Rightarrow> (u32 \<times> nat) outcome \<Rightarrow> (u32 \<times> nat) outcome" where
  "ceph_decode_32_safe b p end bad = ceph_decode_need p end 4 bad (ceph_decode_32 b p)"

definition ceph_decode_16_safe :: "u8 list \<Rightarrow> nat \<Rightarrow> nat \<Rightarrow> (u16 \<times> nat) outcome \<Rightarrow> (u16 \<times> nat) outcome" where
  "ceph_decode_16_safe b p end bad = ceph_decode_need p end 2 bad (ceph_decode_16 b p)"

definition ceph_decode_8_safe :: "u8 list \<Rightarrow> nat \<Rightarrow> nat \<Rightarrow> (u8 \<times> nat) outcome \<Rightarrow> (u8 \<times> nat) outcome" where
  "ceph_decode_8_safe b p end bad = ceph_decode_need p end 1 bad (ceph_decode_8 b p)"

definition ceph_decode_copy_safe ::
    "u8 list \<Rightarrow> nat \<Rightarrow> nat \<Rightarrow> nat \<Rightarrow> (u8 list \<times> nat) outcome \<Rightarrow> (u8 list \<times> nat) outcome" where
  "ceph_decode_copy_safe b p end n bad = ceph_decode_need p end n bad (ceph_decode_copy b p n)"

text \<open>The allocation of the string is \<open>kmalloc_ok\<close> on its size.\<close>

definition ceph_extract_encoded_string ::
    "(nat \<Rightarrow> bool) \<Rightarrow> u8 list \<Rightarrow> nat \<Rightarrow> nat \<Rightarrow> (u8 list \<times> nat) outcome" where
  "ceph_extract_encoded_string kmalloc_ok b p end =
     bind_outcome (ceph_decode_32_safe b p end (Err ERANGE)) (\<lambda>(len, sp).
       if \<not> ceph_has_room sp end (unat len) then Err ERANGE
       else if \<not> kmalloc_ok (unat (ucast len + 1 :: u64)) then Err ENOMEM
       else bind_outcome (if len \<noteq> 0 then get_bytes b sp (unat len) else Ok []) (\<lambda>buf.
         Ok (buf, p + 4 + unat len)))"

definition ceph_decode_skip_n :: "nat \<Rightarrow> nat \<Rightarrow> nat \<Rightarrow> nat outcome \<Rightarrow> nat outcome" where
  "ceph_decode_skip_n p end n bad = ceph_decode_need p end n bad (Ok (p + n))"

definition ceph_decode_skip_string :: "u8 list \<Rightarrow> nat \<Rightarrow> nat \<Rightarrow> nat outcome \<Rightarrow> nat outcome" where
  "ceph_decode_skip_string b p end bad =
     ceph_decode_need p end 4 bad
       (bind_outcome (ceph_decode_32 b p) (\<lambda>(len, p). ceph_decode_skip_n p end (unat len) bad))"

text \<open>The loop of the skip macros: \<open>skip\<close> passes over one element.\<close>

primrec skip_loop :: "(nat \<Rightarrow> nat outcome) \<Rightarrow> nat \<Rightarrow> nat \<Rightarrow> nat outcome" where
  "skip_loop skip 0 p = Ok p"
| "skip_loop skip (Suc n) p = bind_outcome (skip p) (skip_loop skip n)"

definition ceph_decode_skip_set ::
    "u8 list \<Rightarrow> nat \<Rightarrow> nat \<Rightarrow> (nat \<Rightarrow> nat outcome) \<Rightarrow> nat outcome \<Rightarrow> nat outcome" where
  "ceph_decode_skip_set b p end skip bad =
     ceph_decode_need p end 4 bad
       (bind_outcome (ceph_decode_32 b p) (\<lambda>(len, p). skip_loop skip (unat len) p))"

definition ceph_decode_skip_map ::
    "u8 list \<Rightarrow> nat \<Rightarrow> nat \<Rightarrow> (nat \<Rightarrow> nat outcome) \<Rightarrow> (nat \<Rightarrow> nat outcome) \<Rightarrow> nat outcome \<Rightarrow> nat outcome" where
  "ceph_decode_skip_map b p end kskip vskip bad =
     ceph_decode_need p end 4 bad
       (bind_outcome (ceph_decode_32 b p) (\<lambda>(len, p).
         skip_loop (\<lambda>p. bind_outcome (kskip p) vskip) (unat len) p))"

definition ceph_encode_64 :: "u8 list \<Rightarrow> nat \<Rightarrow> u64 \<Rightarrow> (u8 list \<times> nat) outcome" where
  "ceph_encode_64 b p v = put_bytes b p (put_le 8 v)"

definition ceph_encode_32 :: "u8 list \<Rightarrow> nat \<Rightarrow> u32 \<Rightarrow> (u8 list \<times> nat) outcome" where
  "ceph_encode_32 b p v = put_bytes b p (put_le 4 v)"

definition ceph_encode_16 :: "u8 list \<Rightarrow> nat \<Rightarrow> u16 \<Rightarrow> (u8 list \<times> nat) outcome" where
  "ceph_encode_16 b p v = put_bytes b p (put_le 2 v)"

definition ceph_encode_8 :: "u8 list \<Rightarrow> nat \<Rightarrow> u8 \<Rightarrow> (u8 list \<times> nat) outcome" where
  "ceph_encode_8 b p v = put_bytes b p [v]"

definition ceph_encode_copy :: "u8 list \<Rightarrow> nat \<Rightarrow> u8 list \<Rightarrow> (u8 list \<times> nat) outcome" where
  "ceph_encode_copy b p s = put_bytes b p s"

definition ceph_encode_string :: "u8 list \<Rightarrow> nat \<Rightarrow> nat \<Rightarrow> u8 list \<Rightarrow> (u8 list \<times> nat) outcome" where
  "ceph_encode_string b p end s =
     (if p + 4 + length s > end then Oops Bug_On
      else bind_outcome (ceph_encode_32 b p (of_nat (length s))) (\<lambda>(b, p). put_bytes b p s))"

definition ceph_encode_string_safe ::
    "u8 list \<Rightarrow> nat \<Rightarrow> nat \<Rightarrow> u8 list \<Rightarrow> (u8 list \<times> nat) outcome \<Rightarrow> (u8 list \<times> nat) outcome" where
  "ceph_encode_string_safe b p end s bad =
     ceph_decode_need p end (length s) bad (ceph_encode_string b p end s)"

definition ceph_start_encoding :: "u8 list \<Rightarrow> nat \<Rightarrow> u8 \<Rightarrow> u8 \<Rightarrow> u32 \<Rightarrow> (u8 list \<times> nat) outcome" where
  "ceph_start_encoding b p struct_v struct_compat struct_len =
     bind_outcome (ceph_encode_8 b p struct_v) (\<lambda>(b, p).
     bind_outcome (ceph_encode_8 b p struct_compat) (\<lambda>(b, p).
       ceph_encode_32 b p struct_len))"

text \<open>The result is the version, the length of the block and the position of its body.\<close>

definition ceph_start_decoding :: "u8 list \<Rightarrow> nat \<Rightarrow> nat \<Rightarrow> u8 \<Rightarrow> (u8 \<times> u32 \<times> nat) outcome" where
  "ceph_start_decoding b p end v =
     ceph_decode_need p end 6 (Err ERANGE)
       (bind_outcome (ceph_decode_8 b p) (\<lambda>(struct_v, p).
        bind_outcome (ceph_decode_8 b p) (\<lambda>(struct_compat, p).
        if v < struct_compat then Err EINVAL
        else bind_outcome (ceph_decode_32 b p) (\<lambda>(struct_len, p).
          ceph_decode_need p end (unat struct_len) (Err ERANGE) (Ok (struct_v, struct_len, p))))))"

section \<open>Little-endian integers\<close>

lemma length_put_le [simp]: "length (put_le n w) = n"
  by (induction n arbitrary: w) simp_all

lemma get_put_le_take:
  assumes "8 \<le> LENGTH('a::len)"
  shows "get_le (put_le n (w :: 'a word)) = take_bit (8 * n) w"
proof (induction n arbitrary: w)
  case (Suc n)
  show ?case
  proof (rule bit_word_eqI)
    fix i
    assume i: "i < LENGTH('a)"
    show "bit (get_le (put_le (Suc n) w) :: 'a word) i = bit (take_bit (8 * Suc n) w) i"
      using i assms by (auto simp: Suc bit_or_iff bit_push_bit_iff bit_take_bit_iff bit_drop_bit_eq bit_ucast_iff)
  qed
qed simp

lemma get_put_le [simp]:
  "get_le (put_le 8 (v64 :: u64)) = v64" "get_le (put_le 4 (v32 :: u32)) = v32" "get_le (put_le 2 (v16 :: u16)) = v16"
  by (simp_all add: get_put_le_take take_bit_word_eq_self)

lemma get_bytes_put: "length bs = n \<Longrightarrow> length pre = p \<Longrightarrow> get_bytes (pre @ bs @ post) p n = Ok bs"
  by (simp add: get_bytes_def)

lemma decode_put:
  assumes "length pre = p"
  shows "ceph_decode_64 (pre @ put_le 8 v64 @ post) p = Ok (v64, p + 8)"
    and "ceph_decode_32 (pre @ put_le 4 v32 @ post) p = Ok (v32, p + 4)"
    and "ceph_decode_16 (pre @ put_le 2 v16 @ post) p = Ok (v16, p + 2)"
    and "ceph_decode_8 (pre @ v8 # post) p = Ok (v8, p + 1)"
  using assms by (auto simp: ceph_decode_64_def ceph_decode_32_def ceph_decode_16_def ceph_decode_8_def get_bytes_put nth_append)

text \<open>What an encoder leaves in the buffer.\<close>

definition written :: "u8 list \<Rightarrow> nat \<Rightarrow> u8 list \<Rightarrow> u8 list" where
  "written b p bs = take p b @ bs @ drop (p + length bs) b"

lemma put_bytes_Ok: "p + length bs \<le> length b \<Longrightarrow> put_bytes b p bs = Ok (written b p bs, p + length bs)"
  by (simp add: put_bytes_def written_def)

lemma length_written [simp]: "p + length bs \<le> length b \<Longrightarrow> length (written b p bs) = length b"
  by (simp add: written_def)

lemma written_written:
  "p + length bs + length cs \<le> length b \<Longrightarrow> written (written b p bs) (p + length bs) cs = written b p (bs @ cs)"
  by (simp add: written_def ac_simps)

text \<open>Reading back, for any buffer whose bytes at \<open>p\<close> are the encoded ones.\<close>

definition holds_at :: "u8 list \<Rightarrow> nat \<Rightarrow> u8 list \<Rightarrow> bool" where
  "holds_at b p bs \<longleftrightarrow> (\<exists>post. b = take p b @ bs @ post \<and> p \<le> length b)"

lemma holds_written: "p + length bs \<le> length b \<Longrightarrow> holds_at (written b p bs) p bs"
  by (auto simp: holds_at_def written_def)

lemma holds_append: "holds_at b p (bs @ cs) \<longleftrightarrow> holds_at b p bs \<and> holds_at b (p + length bs) cs"
proof
  assume "holds_at b p (bs @ cs)"
  then obtain post where b: "b = take p b @ bs @ cs @ post" "p \<le> length b" by (auto simp: holds_at_def)
  then have len: "length b = p + length bs + length cs + length post"
    by (metis (no_types, lifting) add.assoc length_append length_take min.absorb2)
  have "take (p + length bs) b = take p b @ bs"
    using b by (metis (no_types, lifting) append.assoc append_eq_conv_conj length_append length_take min.absorb2)
  then show "holds_at b p bs \<and> holds_at b (p + length bs) cs"
    using b len by (auto simp: holds_at_def)
next
  assume h: "holds_at b p bs \<and> holds_at b (p + length bs) cs"
  then obtain post post' where b: "b = take p b @ bs @ post" "p \<le> length b"
    and c: "b = take (p + length bs) b @ cs @ post'" by (auto simp: holds_at_def)
  have "take (p + length bs) b = take p b @ bs"
    using b by (metis (no_types, lifting) append.assoc append_eq_conv_conj length_append length_take min.absorb2)
  then show "holds_at b p (bs @ cs)" using b c by (auto simp: holds_at_def)
qed

lemma holds_decode:
  "holds_at b p (put_le 8 v64) \<Longrightarrow> ceph_decode_64 b p = Ok (v64, p + 8)"
  "holds_at b p (put_le 4 v32) \<Longrightarrow> ceph_decode_32 b p = Ok (v32, p + 4)"
  "holds_at b p (put_le 2 v16) \<Longrightarrow> ceph_decode_16 b p = Ok (v16, p + 2)"
  "holds_at b p [v8] \<Longrightarrow> ceph_decode_8 b p = Ok (v8, p + 1)"
  "holds_at b p bs \<Longrightarrow> get_bytes b p (length bs) = Ok bs"
proof -
  have len: "p \<le> length b \<Longrightarrow> length (take p b) = p" by simp
  show "holds_at b p (put_le 8 v64) \<Longrightarrow> ceph_decode_64 b p = Ok (v64, p + 8)"
    using decode_put(1) [OF len] by (auto simp: holds_at_def) metis
  show "holds_at b p (put_le 4 v32) \<Longrightarrow> ceph_decode_32 b p = Ok (v32, p + 4)"
    using decode_put(2) [OF len] by (auto simp: holds_at_def) metis
  show "holds_at b p (put_le 2 v16) \<Longrightarrow> ceph_decode_16 b p = Ok (v16, p + 2)"
    using decode_put(3) [OF len] by (auto simp: holds_at_def) metis
  show "holds_at b p [v8] \<Longrightarrow> ceph_decode_8 b p = Ok (v8, p + 1)"
    using decode_put(4) [OF len] by (auto simp: holds_at_def) metis
  show "holds_at b p bs \<Longrightarrow> get_bytes b p (length bs) = Ok bs"
    using get_bytes_put [OF refl len] by (auto simp: holds_at_def) metis
qed

lemma holds_length: "holds_at b p bs \<Longrightarrow> p + length bs \<le> length b"
  by (auto simp: holds_at_def) (metis (no_types, lifting) le_add1 add.assoc length_append length_take min.absorb2)

text \<open>Reading behind a check for room.\<close>

lemma get_bytes_room:
  "end \<le> length b \<Longrightarrow> ceph_has_room q end n \<Longrightarrow> get_bytes b q n = Ok (take n (drop q b))"
  by (auto simp: get_bytes_def ceph_has_room_def)

lemma ceph_decode_32_safe_safe:
  assumes "end \<le> length b"
  shows "case ceph_decode_32_safe b p end (Err e) of
       Ok (x, p') \<Rightarrow> p' = p + 4 \<and> p' \<le> end | Err e' \<Rightarrow> e' = e | Oops f \<Rightarrow> False"
  using get_bytes_room [OF assms, of p 4]
  by (auto simp: ceph_decode_32_safe_def ceph_decode_need_def ceph_decode_32_def ceph_has_room_def)

lemma ceph_decode_64_safe_safe:
  assumes "end \<le> length b"
  shows "case ceph_decode_64_safe b p end (Err e) of
       Ok (x, p') \<Rightarrow> p' = p + 8 \<and> p' \<le> end | Err e' \<Rightarrow> e' = e | Oops f \<Rightarrow> False"
  using get_bytes_room [OF assms, of p 8]
  by (auto simp: ceph_decode_64_safe_def ceph_decode_need_def ceph_decode_64_def ceph_has_room_def)

lemma ceph_start_decoding_safe:
  assumes "end \<le> length b"
  shows "case ceph_start_decoding b p end v of
       Ok (struct_v, struct_len, p') \<Rightarrow> p' = p + 6 \<and> p' + unat struct_len \<le> end \<and> aref b p = Ok struct_v
     | Err e \<Rightarrow> e \<in> {ERANGE, EINVAL} | Oops f \<Rightarrow> False"
proof (cases "ceph_has_room p end 6")
  case False
  then show ?thesis by (simp add: ceph_start_decoding_def ceph_decode_need_def)
next
  case True
  then have r: "p < end" "Suc p < end" "ceph_has_room (p + 2) end 4" by (auto simp: ceph_has_room_def)
  have "aref b p = Ok (b ! p)" "aref b (Suc p) = Ok (b ! Suc p)" using r assms by simp_all
  then show ?thesis
    using True get_bytes_room [OF assms r(3)]
    by (auto simp: ceph_start_decoding_def ceph_decode_need_def ceph_decode_8_def ceph_decode_32_def ceph_has_room_def)
qed

section \<open>Formats\<close>

text \<open>
  \<open>writes\<close>: an encoder puts the bytes at its position when there is room for them. \<open>reads\<close>: a decoder finds the value in a buffer that holds the
  bytes at its position.
\<close>

definition writes :: "nat \<Rightarrow> (u8 list \<Rightarrow> nat \<Rightarrow> (u8 list \<times> nat) outcome) \<Rightarrow> u8 list \<Rightarrow> bool" where
  "writes end f bs \<longleftrightarrow> (\<forall>b p. p + length bs \<le> end \<and> end \<le> length b \<longrightarrow> f b p = Ok (written b p bs, p + length bs))"

definition reads :: "nat \<Rightarrow> (u8 list \<Rightarrow> nat \<Rightarrow> ('a \<times> nat) outcome) \<Rightarrow> u8 list \<Rightarrow> 'a \<Rightarrow> bool" where
  "reads end f bs v \<longleftrightarrow> (\<forall>b p. holds_at b p bs \<and> p + length bs \<le> end \<longrightarrow> f b p = Ok (v, p + length bs))"

lemma writesD: "writes end f bs \<Longrightarrow> p + length bs \<le> end \<Longrightarrow> end \<le> length b \<Longrightarrow> f b p = Ok (written b p bs, p + length bs)"
  by (simp add: writes_def)

lemma readsD: "reads end f bs v \<Longrightarrow> holds_at b p bs \<Longrightarrow> p + length bs \<le> end \<Longrightarrow> f b p = Ok (v, p + length bs)"
  by (simp add: reads_def)

lemma writes_bind:
  assumes f: "writes end f xs" and g: "writes end g ys"
  shows "writes end (\<lambda>b p. bind_outcome (f b p) (\<lambda>(b, p). g b p)) (xs @ ys)"
  unfolding writes_def
proof (intro allI impI, elim conjE)
  fix b :: "u8 list" and p
  assume room: "p + length (xs @ ys) \<le> end" "end \<le> length b"
  have x: "f b p = Ok (written b p xs, p + length xs)" by (rule writesD [OF f]) (use room in simp_all)
  have "g (written b p xs) (p + length xs) = Ok (written (written b p xs) (p + length xs) ys, p + length xs + length ys)"
    by (rule writesD [OF g]) (use room in simp_all)
  then show "bind_outcome (f b p) (\<lambda>(b, p). g b p) = Ok (written b p (xs @ ys), p + length (xs @ ys))"
    using x room by (simp add: written_written ac_simps)
qed

lemma reads_bind:
  assumes f: "reads end f xs v" and g: "reads end (\<lambda>b p. g b v p) ys w"
  shows "reads end (\<lambda>b p. bind_outcome (f b p) (\<lambda>(v, p). g b v p)) (xs @ ys) w"
  unfolding reads_def
proof (intro allI impI, elim conjE)
  fix b p
  assume h: "holds_at b p (xs @ ys)" and room: "p + length (xs @ ys) \<le> end"
  have x: "f b p = Ok (v, p + length xs)"
    using h room by (intro readsD [OF f]) (simp_all add: holds_append)
  have "g b v (p + length xs) = Ok (w, p + length xs + length ys)"
    using h room by (intro readsD [OF g]) (simp_all add: holds_append)
  then show "bind_outcome (f b p) (\<lambda>(v, p). g b v p) = Ok (w, p + length (xs @ ys))" using x by simp
qed

lemma reads_return: "reads end (\<lambda>b p. Ok (v, p)) [] v"
  by (simp add: reads_def)

lemma writes_put_bytes: "writes end (\<lambda>b p. put_bytes b p bs) bs"
  by (simp add: writes_def put_bytes_Ok)

text \<open>
  A format: what an encoder and a decoder have in common. \<open>valid\<close> says for which values it exists (strings shorter than \<open>2\<^sup>3\<^sup>2\<close>, for
  example).
\<close>

locale wire_format =
  fixes put :: "nat \<Rightarrow> u8 list \<Rightarrow> nat \<Rightarrow> 'a \<Rightarrow> (u8 list \<times> nat) outcome"
    and get :: "nat \<Rightarrow> u8 list \<Rightarrow> nat \<Rightarrow> ('a \<times> nat) outcome"
    and bytes :: "'a \<Rightarrow> u8 list" and valid :: "'a \<Rightarrow> bool"
  assumes put_writes: "valid v \<Longrightarrow> writes end (\<lambda>b p. put end b p v) (bytes v)"
    and get_reads: "valid v \<Longrightarrow> reads end (get end) (bytes v) v"
begin

lemma roundtrip:
  assumes "valid v" and "p + length (bytes v) \<le> end" and "end \<le> length b"
  shows "\<exists>b'. put end b p v = Ok (b', p + length (bytes v)) \<and> length b' = length b \<and>
     get end b' p = Ok (v, p + length (bytes v))"
proof -
  have "put end b p v = Ok (written b p (bytes v), p + length (bytes v))" by (rule writesD [OF put_writes]) (use assms in auto)
  moreover have "get end (written b p (bytes v)) p = Ok (v, p + length (bytes v))"
    by (rule readsD [OF get_reads]) (use assms in \<open>auto intro: holds_written\<close>)
  ultimately show ?thesis using assms by auto
qed

end

definition string_bytes :: "u8 list \<Rightarrow> u8 list" where
  "string_bytes s = put_le 4 (of_nat (length s) :: u32) @ s"

lemma length_string_bytes [simp]: "length (string_bytes s) = 4 + length s"
  by (simp add: string_bytes_def)

lemma holds_room: "holds_at b p bs \<Longrightarrow> p + n \<le> end \<Longrightarrow> ceph_has_room p end n"
  by (simp add: ceph_has_room_def)

interpretation fmt64: wire_format "\<lambda>end. ceph_encode_64" "\<lambda>end b p. ceph_decode_64_safe b p end (Err EINVAL)" "put_le 8" "\<lambda>v. True"
  by unfold_locales
     (auto simp: writes_def reads_def ceph_encode_64_def put_bytes_Ok ceph_decode_64_safe_def ceph_decode_need_def holds_decode holds_room)

interpretation fmt32: wire_format "\<lambda>end. ceph_encode_32" "\<lambda>end b p. ceph_decode_32_safe b p end (Err EINVAL)" "put_le 4" "\<lambda>v. True"
  by unfold_locales
     (auto simp: writes_def reads_def ceph_encode_32_def put_bytes_Ok ceph_decode_32_safe_def ceph_decode_need_def holds_decode holds_room)

interpretation fmt8: wire_format "\<lambda>end. ceph_encode_8" "\<lambda>end b p. ceph_decode_8_safe b p end (Err EINVAL)" "\<lambda>v. [v]" "\<lambda>v. True"
  by unfold_locales
     (auto simp: writes_def reads_def ceph_encode_8_def put_bytes_Ok ceph_decode_8_safe_def ceph_decode_need_def holds_decode holds_room)

lemma unat_len32: "length s < 2 ^ 32 \<Longrightarrow> unat (of_nat (length s) :: u32) = length s"
  unfolding unsigned_of_nat by (simp add: take_bit_nat_eq_self)

lemma writes_string: "writes end (\<lambda>b p. ceph_encode_string b p end s) (string_bytes s)"
  unfolding writes_def
proof (intro allI impI, elim conjE)
  fix b :: "u8 list" and p
  assume room: "p + length (string_bytes s) \<le> end" "end \<le> length b"
  have "ceph_encode_string b p end s = bind_outcome (ceph_encode_32 b p (of_nat (length s))) (\<lambda>(b, p). put_bytes b p s)"
    using room by (simp add: ceph_encode_string_def)
  also have "\<dots> = Ok (written b p (string_bytes s), p + length (string_bytes s))"
    unfolding string_bytes_def
    by (rule writesD [OF writes_bind [OF fmt32.put_writes writes_put_bytes]]) (use room in simp_all)
  finally show "ceph_encode_string b p end s = Ok (written b p (string_bytes s), p + length (string_bytes s))" .
qed

lemma reads_string:
  assumes len: "length s < 2 ^ 32" and alloc: "kmalloc_ok (Suc (length s))"
  shows "reads end (\<lambda>b p. ceph_extract_encoded_string kmalloc_ok b p end) (string_bytes s) s"
  unfolding reads_def
proof (intro allI impI, elim conjE)
  fix b p
  let ?l = "of_nat (length s) :: u32"
  assume h: "holds_at b p (string_bytes s)" and room: "p + length (string_bytes s) \<le> end"
  have hs: "holds_at b p (put_le 4 ?l)" "holds_at b (p + 4) s" using h by (simp_all add: string_bytes_def holds_append)
  have l: "unat ?l = length s" by (rule unat_len32 [OF len])
  have a: "unat (ucast ?l + 1 :: u64) = Suc (length s)" using len l by (subst unat_add_no_wrap) simp_all
  have z: "?l = 0 \<longleftrightarrow> s = []" using l by (metis length_0_conv unat_eq_zero)
  have "ceph_decode_32_safe b p end (Err ERANGE) = Ok (?l, p + 4)"
    using holds_decode(2) [OF hs(1)] room by (simp add: ceph_decode_32_safe_def ceph_decode_need_def ceph_has_room_def)
  then show "ceph_extract_encoded_string kmalloc_ok b p end = Ok (s, p + length (string_bytes s))"
    using holds_decode(5) [OF hs(2)] l a z alloc room by (auto simp: ceph_extract_encoded_string_def ceph_has_room_def)
qed

interpretation fmtstr: wire_format "\<lambda>end b p. ceph_encode_string b p end" "\<lambda>end b p. ceph_extract_encoded_string (\<lambda>_. True) b p end"
    string_bytes "\<lambda>s. length s < 2 ^ 32"
  by unfold_locales (simp_all add: writes_string reads_string)

text \<open>The header of a versioned block.\<close>

definition header_bytes :: "u8 \<Rightarrow> u8 \<Rightarrow> u32 \<Rightarrow> u8 list" where
  "header_bytes struct_v struct_compat struct_len = [struct_v] @ [struct_compat] @ put_le 4 struct_len"

lemma length_header_bytes [simp]: "length (header_bytes v c n) = 6"
  by (simp add: header_bytes_def)

lemma writes_header: "writes end (\<lambda>b p. ceph_start_encoding b p v c n) (header_bytes v c n)"
  unfolding ceph_start_encoding_def header_bytes_def
  by (intro writes_bind fmt8.put_writes fmt32.put_writes TrueI)

lemma reads_header:
  assumes "holds_at b p (header_bytes struct_v c n)" and "p + 6 + unat n \<le> end" and "c \<le> v"
  shows "ceph_start_decoding b p end v = Ok (struct_v, n, p + 6)"
proof -
  have h: "holds_at b p [struct_v]" "holds_at b (Suc p) [c]" "holds_at b (Suc (Suc p)) (put_le 4 n)"
    using assms(1) unfolding header_bytes_def holds_append by simp_all
  show ?thesis
    using holds_decode(4) [OF h(1)] holds_decode(4) [OF h(2)] holds_decode(2) [OF h(3)] assms(2,3)
    by (auto simp: ceph_start_decoding_def ceph_decode_need_def ceph_has_room_def not_less)
qed

section \<open>Properties\<close>

text \<open>
  A versioned block that holds a string decodes to what was encoded: the version, the length of the
  block and the string come back, and both sides agree on every position. This needs room for the
  block and a decoder at least as new as the block's compatibility version.
\<close>

theorem ceph_block_roundtrip:
  assumes room: "p + 10 + length s \<le> end" "end \<le> length b" and len: "length s < 2 ^ 32 - 4"
    and compat: "struct_compat \<le> v" and alloc: "kmalloc_ok (Suc (length s))"
  shows "\<exists>b1 b2. ceph_start_encoding b p struct_v struct_compat (of_nat (4 + length s)) = Ok (b1, p + 6) \<and>
     ceph_encode_string b1 (p + 6) end s = Ok (b2, p + 10 + length s) \<and> length b2 = length b \<and>
     ceph_start_decoding b2 p end v = Ok (struct_v, of_nat (4 + length s), p + 6) \<and>
     ceph_extract_encoded_string kmalloc_ok b2 (p + 6) end = Ok (s, p + 10 + length s)"
proof -
  let ?n = "of_nat (4 + length s) :: u32"
  let ?hd = "header_bytes struct_v struct_compat ?n" and ?str = "string_bytes s"
  let ?b2 = "written b p (?hd @ ?str)"
  have e1: "ceph_start_encoding b p struct_v struct_compat ?n = Ok (written b p ?hd, p + 6)"
    using writesD [OF writes_header, of p struct_v struct_compat ?n "end" b] room by simp
  have "ceph_encode_string (written b p ?hd) (p + 6) end s = Ok (written (written b p ?hd) (p + 6) ?str, p + 10 + length s)"
    using writesD [OF writes_string, of "p + 6" s "end" "written b p ?hd"] room by (simp add: ac_simps)
  then have e2: "ceph_encode_string (written b p ?hd) (p + 6) end s = Ok (?b2, p + 10 + length s)"
    using written_written [of p ?hd ?str b] room by simp
  have "holds_at ?b2 p (?hd @ ?str)" by (rule holds_written) (use room in simp)
  then have h: "holds_at ?b2 p ?hd" "holds_at ?b2 (p + 6) ?str" unfolding holds_append by simp_all
  have n: "unat ?n = 4 + length s" using len unfolding unsigned_of_nat by (simp add: take_bit_nat_eq_self)
  have d1: "ceph_start_decoding ?b2 p end v = Ok (struct_v, ?n, p + 6)" by (rule reads_header [OF h(1)]) (use room compat n in simp_all)
  have "length s < 2 ^ 32" using len by simp
  then have d2: "ceph_extract_encoded_string kmalloc_ok ?b2 (p + 6) end = Ok (s, p + 10 + length s)"
    using readsD [OF reads_string [of s kmalloc_ok] h(2)] alloc room by simp
  show ?thesis using e1 e2 d1 d2 room by (intro exI [of _ "written b p ?hd"] exI [of _ ?b2]) simp
qed

theorem ceph_block_roundtrip_witness:
  "\<exists>b1 b2. ceph_start_encoding (replicate 16 0) 1 2 1 (of_nat 7) = Ok (b1, 7) \<and>
     ceph_encode_string b1 7 16 [114, 98, 100] = Ok (b2, 14) \<and>
     ceph_start_decoding b2 1 16 1 = Ok (2, of_nat 7, 7) \<and>
     ceph_extract_encoded_string (\<lambda>_. True) b2 7 16 = Ok ([114, 98, 100], 14)"
  using ceph_block_roundtrip [of 1 "[114, 98, 100]" 16 "replicate 16 0" 1 1 "\<lambda>_. True" 2] by auto

text \<open>
  Decoding untrusted bytes is memory safe: as long as the end pointer is inside the buffer, the checked decoders
  of integers, strings and versioned blocks return a value or an error, never read past the end, and a
  position they return is at most the end. After a block header, its whole body is inside the buffer.
\<close>

theorem ceph_decode_safe:
  assumes "end \<le> length b"
  shows "(case ceph_extract_encoded_string kmalloc_ok b p end of
       Ok (s, p') \<Rightarrow> p' = p + 4 + length s \<and> p' \<le> end \<and> get_bytes b (p + 4) (length s) = Ok s
     | Err e \<Rightarrow> e \<in> {ERANGE, ENOMEM} | Oops f \<Rightarrow> False) \<and>
    (case ceph_start_decoding b p end v of
       Ok (struct_v, struct_len, p') \<Rightarrow> p' = p + 6 \<and> p' + unat struct_len \<le> end \<and> aref b p = Ok struct_v
     | Err e \<Rightarrow> e \<in> {ERANGE, EINVAL} | Oops f \<Rightarrow> False) \<and>
    (case ceph_decode_64_safe b p end (Err EINVAL) of
       Ok (x, p') \<Rightarrow> p' = p + 8 \<and> p' \<le> end | Err e \<Rightarrow> e = EINVAL | Oops f \<Rightarrow> False)"
proof (intro conjI)
  note g = get_bytes_room [OF assms]
  show "case ceph_extract_encoded_string kmalloc_ok b p end of
       Ok (s, p') \<Rightarrow> p' = p + 4 + length s \<and> p' \<le> end \<and> get_bytes b (p + 4) (length s) = Ok s
     | Err e \<Rightarrow> e \<in> {ERANGE, ENOMEM} | Oops f \<Rightarrow> False"
  proof (cases "ceph_has_room p end 4")
    case False
    then show ?thesis
      by (simp add: ceph_extract_encoded_string_def ceph_decode_32_safe_def ceph_decode_need_def)
  next
    case True
    define len :: u32 where "len = get_le (take 4 (drop p b))"
    have d: "ceph_decode_32_safe b p end (Err ERANGE) = Ok (len, p + 4)"
      using True g [OF True] by (simp add: ceph_decode_32_safe_def ceph_decode_need_def ceph_decode_32_def len_def)
    show ?thesis
    proof (cases "ceph_has_room (p + 4) end (unat len) \<and> kmalloc_ok (unat (ucast len + 1 :: u64))")
      case False
      then show ?thesis using d by (auto simp: ceph_extract_encoded_string_def)
    next
      case room: True
      have l: "p + 4 + unat len \<le> end" using room by (auto simp: ceph_has_room_def)
      have "ceph_extract_encoded_string kmalloc_ok b p end = Ok (take (unat len) (drop (p + 4) b), p + 4 + unat len)"
        using d room g [of "p + 4" "unat len"] by (auto simp: ceph_extract_encoded_string_def)
      moreover have "length (take (unat len) (drop (p + 4) b)) = unat len" using l assms by simp
      ultimately show ?thesis using l g [of "p + 4" "unat len"] room by simp
    qed
  qed
qed (use ceph_start_decoding_safe [OF assms] ceph_decode_64_safe_safe [OF assms] in blast)+

theorem ceph_decode_safe_witness:
  "case ceph_extract_encoded_string (\<lambda>_. True) [255, 255, 255, 255, 1] 0 5 of
     Ok (s, p') \<Rightarrow> p' = 0 + 4 + length s \<and> p' \<le> 5 \<and> get_bytes [255, 255, 255, 255, 1] (0 + 4) (length s) = Ok s
   | Err e \<Rightarrow> e \<in> {ERANGE, ENOMEM} | Oops f \<Rightarrow> False"
  using ceph_decode_safe [of 5 "[255, 255, 255, 255, 1]"] by simp

text \<open>
  \<open>ceph_encode_string_safe\<close> checks the room for the bytes of the string but not for its length field:
  with less than four spare bytes it reaches the \<open>BUG_ON\<close> of the encoder instead of its error label.
\<close>

theorem ceph_encode_string_safe_bug:
  assumes "p + length s \<le> end" and "end < p + 4 + length s"
  shows "ceph_encode_string_safe b p end s bad = Oops Bug_On"
proof -
  have "ceph_has_room p end (length s)" using assms(1) by (auto simp: ceph_has_room_def)
  then show ?thesis using assms(2) by (simp add: ceph_encode_string_safe_def ceph_decode_need_def ceph_encode_string_def)
qed

theorem ceph_encode_string_safe_bug_witness:
  "ceph_encode_string_safe (replicate 4 0) 0 4 [114, 98, 100] (Err ERANGE) = Oops Bug_On"
  by (rule ceph_encode_string_safe_bug) simp_all

end
