(* ===== verification/CrushHash.thy ===== *)
theory CrushHash
  imports Prelude
begin

text \<open>
  \<open>libceph/crush/hash.c\<close> (the hashes CRUSH draws its choices from) and \<open>libceph/ceph_hash.c\<close>
  (the hashes of object names). All arithmetic is on 32-bit words and wraps, except in
  \<open>ceph_str_hash_linux\<close>, whose accumulator is an \<open>unsigned long\<close> of 64 bits. The mixing macro
  updates its three arguments in place; here it returns them.
\<close>

unbundle bit_operations_syntax

section \<open>The mixing step\<close>

definition crush_hashmix :: "u32 \<Rightarrow> u32 \<Rightarrow> u32 \<Rightarrow> u32 \<times> u32 \<times> u32" where
  "crush_hashmix a b c =
     (let a = a - b; a = a - c; a = a XOR drop_bit 13 c;
          b = b - c; b = b - a; b = b XOR push_bit 8 a;
          c = c - a; c = c - b; c = c XOR drop_bit 13 b;
          a = a - b; a = a - c; a = a XOR drop_bit 12 c;
          b = b - c; b = b - a; b = b XOR push_bit 16 a;
          c = c - a; c = c - b; c = c XOR drop_bit 5 b;
          a = a - b; a = a - c; a = a XOR drop_bit 3 c;
          b = b - c; b = b - a; b = b XOR push_bit 10 a;
          c = c - a; c = c - b; c = c XOR drop_bit 15 b
      in (a, b, c))"

abbreviation (input) crush_hash_seed :: u32 where
  "crush_hash_seed \<equiv> 1315423911"

section \<open>The CRUSH hashes\<close>

definition crush_hash32_rjenkins1 :: "u32 \<Rightarrow> u32" where
  "crush_hash32_rjenkins1 a =
     (let hash = crush_hash_seed XOR a; b = a; x = 231232; y = 1232;
          (b, x, hash) = crush_hashmix b x hash;
          (y, a, hash) = crush_hashmix y a hash
      in hash)"

definition crush_hash32_rjenkins1_2 :: "u32 \<Rightarrow> u32 \<Rightarrow> u32" where
  "crush_hash32_rjenkins1_2 a b =
     (let hash = crush_hash_seed XOR a XOR b; x = 231232; y = 1232;
          (a, b, hash) = crush_hashmix a b hash;
          (x, a, hash) = crush_hashmix x a hash;
          (b, y, hash) = crush_hashmix b y hash
      in hash)"

definition crush_hash32_rjenkins1_3 :: "u32 \<Rightarrow> u32 \<Rightarrow> u32 \<Rightarrow> u32" where
  "crush_hash32_rjenkins1_3 a b c =
     (let hash = crush_hash_seed XOR a XOR b XOR c; x = 231232; y = 1232;
          (a, b, hash) = crush_hashmix a b hash;
          (c, x, hash) = crush_hashmix c x hash;
          (y, a, hash) = crush_hashmix y a hash;
          (b, x, hash) = crush_hashmix b x hash;
          (y, c, hash) = crush_hashmix y c hash
      in hash)"

definition crush_hash32_rjenkins1_4 :: "u32 \<Rightarrow> u32 \<Rightarrow> u32 \<Rightarrow> u32 \<Rightarrow> u32" where
  "crush_hash32_rjenkins1_4 a b c d =
     (let hash = crush_hash_seed XOR a XOR b XOR c XOR d; x = 231232; y = 1232;
          (a, b, hash) = crush_hashmix a b hash;
          (c, d, hash) = crush_hashmix c d hash;
          (a, x, hash) = crush_hashmix a x hash;
          (y, b, hash) = crush_hashmix y b hash;
          (c, x, hash) = crush_hashmix c x hash;
          (y, d, hash) = crush_hashmix y d hash
      in hash)"

definition crush_hash32_rjenkins1_5 :: "u32 \<Rightarrow> u32 \<Rightarrow> u32 \<Rightarrow> u32 \<Rightarrow> u32 \<Rightarrow> u32" where
  "crush_hash32_rjenkins1_5 a b c d e =
     (let hash = crush_hash_seed XOR a XOR b XOR c XOR d XOR e; x = 231232; y = 1232;
          (a, b, hash) = crush_hashmix a b hash;
          (c, d, hash) = crush_hashmix c d hash;
          (e, x, hash) = crush_hashmix e x hash;
          (y, a, hash) = crush_hashmix y a hash;
          (b, x, hash) = crush_hashmix b x hash;
          (y, c, hash) = crush_hashmix y c hash;
          (d, x, hash) = crush_hashmix d x hash;
          (y, e, hash) = crush_hashmix y e hash
      in hash)"

abbreviation (input) CRUSH_HASH_RJENKINS1 :: u8 where
  "CRUSH_HASH_RJENKINS1 \<equiv> 0"

definition crush_hash32 :: "u8 \<Rightarrow> u32 \<Rightarrow> u32" where
  "crush_hash32 type a = (if type = CRUSH_HASH_RJENKINS1 then crush_hash32_rjenkins1 a else 0)"

definition crush_hash32_2 :: "u8 \<Rightarrow> u32 \<Rightarrow> u32 \<Rightarrow> u32" where
  "crush_hash32_2 type a b =
     (if type = CRUSH_HASH_RJENKINS1 then crush_hash32_rjenkins1_2 a b else 0)"

definition crush_hash32_3 :: "u8 \<Rightarrow> u32 \<Rightarrow> u32 \<Rightarrow> u32 \<Rightarrow> u32" where
  "crush_hash32_3 type a b c =
     (if type = CRUSH_HASH_RJENKINS1 then crush_hash32_rjenkins1_3 a b c else 0)"

definition crush_hash32_4 :: "u8 \<Rightarrow> u32 \<Rightarrow> u32 \<Rightarrow> u32 \<Rightarrow> u32 \<Rightarrow> u32" where
  "crush_hash32_4 type a b c d =
     (if type = CRUSH_HASH_RJENKINS1 then crush_hash32_rjenkins1_4 a b c d else 0)"

definition crush_hash32_5 :: "u8 \<Rightarrow> u32 \<Rightarrow> u32 \<Rightarrow> u32 \<Rightarrow> u32 \<Rightarrow> u32 \<Rightarrow> u32" where
  "crush_hash32_5 type a b c d e =
     (if type = CRUSH_HASH_RJENKINS1 then crush_hash32_rjenkins1_5 a b c d e else 0)"

definition crush_hash_name :: "u8 \<Rightarrow> string" where
  "crush_hash_name type = (if type = CRUSH_HASH_RJENKINS1 then ''rjenkins1'' else ''unknown'')"

section \<open>Hashes of object names\<close>

text \<open>
  The mixing macro of \<open>ceph_hash.c\<close> is the same text as that of \<open>crush/hash.c\<close>. The name is a
  list of octets, so that the length argument of the C functions is its length.
\<close>

definition le_word :: "u8 \<Rightarrow> u8 \<Rightarrow> u8 \<Rightarrow> u8 \<Rightarrow> u32" where
  "le_word k0 k1 k2 k3 =
     ucast k0 + push_bit 8 (ucast k1) + push_bit 16 (ucast k2) + push_bit 24 (ucast k3)"

definition str_tail :: "u8 list \<Rightarrow> nat \<Rightarrow> u32 \<times> u32 \<times> u32 \<Rightarrow> u32 \<times> u32 \<times> u32" where
  "str_tail k len s =
     (case s of (a, b, c) \<Rightarrow>
       let c = (if 11 \<le> len then c + push_bit 24 (ucast (k ! 10)) else c);
           c = (if 10 \<le> len then c + push_bit 16 (ucast (k ! 9)) else c);
           c = (if 9 \<le> len then c + push_bit 8 (ucast (k ! 8)) else c);
           b = (if 8 \<le> len then b + push_bit 24 (ucast (k ! 7)) else b);
           b = (if 7 \<le> len then b + push_bit 16 (ucast (k ! 6)) else b);
           b = (if 6 \<le> len then b + push_bit 8 (ucast (k ! 5)) else b);
           b = (if 5 \<le> len then b + ucast (k ! 4) else b);
           a = (if 4 \<le> len then a + push_bit 24 (ucast (k ! 3)) else a);
           a = (if 3 \<le> len then a + push_bit 16 (ucast (k ! 2)) else a);
           a = (if 2 \<le> len then a + push_bit 8 (ucast (k ! 1)) else a);
           a = (if 1 \<le> len then a + ucast (k ! 0) else a)
       in (a, b, c))"

fun rjenkins_loop :: "u8 list \<Rightarrow> u32 \<times> u32 \<times> u32 \<Rightarrow> u8 list \<times> (u32 \<times> u32 \<times> u32)" where
  "rjenkins_loop (k0 # k1 # k2 # k3 # k4 # k5 # k6 # k7 # k8 # k9 # k10 # k11 # k) (a, b, c) =
     rjenkins_loop k (crush_hashmix (a + le_word k0 k1 k2 k3) (b + le_word k4 k5 k6 k7)
       (c + le_word k8 k9 k10 k11))"
| "rjenkins_loop k s = (k, s)"

definition ceph_str_hash_rjenkins :: "u8 list \<Rightarrow> u32" where
  "ceph_str_hash_rjenkins str =
     (let (k, a, b, c) = rjenkins_loop str (2654435769, 2654435769, 0);
          (a, b, c) = str_tail k (length k) (a, b, c + of_nat (length str));
          (a, b, c) = crush_hashmix a b c
      in c)"

fun str_hash_linux_loop :: "u8 list \<Rightarrow> u64 \<Rightarrow> u64" where
  "str_hash_linux_loop [] hash = hash"
| "str_hash_linux_loop (c # str) hash =
     str_hash_linux_loop str ((hash + push_bit 4 (ucast c) + drop_bit 4 (ucast c)) * 11)"

definition ceph_str_hash_linux :: "u8 list \<Rightarrow> u32" where
  "ceph_str_hash_linux str = ucast (str_hash_linux_loop str 0)"

abbreviation (input) CEPH_STR_HASH_LINUX :: int where
  "CEPH_STR_HASH_LINUX \<equiv> 1"

abbreviation (input) CEPH_STR_HASH_RJENKINS :: int where
  "CEPH_STR_HASH_RJENKINS \<equiv> 2"

definition ceph_str_hash :: "int \<Rightarrow> u8 list \<Rightarrow> u32" where
  "ceph_str_hash type s =
     (if type = CEPH_STR_HASH_LINUX then ceph_str_hash_linux s
      else if type = CEPH_STR_HASH_RJENKINS then ceph_str_hash_rjenkins s
      else - 1)"

definition ceph_str_hash_name :: "int \<Rightarrow> string" where
  "ceph_str_hash_name type =
     (if type = CEPH_STR_HASH_LINUX then ''linux''
      else if type = CEPH_STR_HASH_RJENKINS then ''rjenkins''
      else ''unknown'')"

section \<open>Mixing loses no information\<close>

definition mix_a :: "(u32 \<Rightarrow> u32) \<Rightarrow> u32 \<times> u32 \<times> u32 \<Rightarrow> u32 \<times> u32 \<times> u32" where
  "mix_a f s = (case s of (a, b, c) \<Rightarrow> ((a - b - c) XOR f c, b, c))"

definition mix_b :: "(u32 \<Rightarrow> u32) \<Rightarrow> u32 \<times> u32 \<times> u32 \<Rightarrow> u32 \<times> u32 \<times> u32" where
  "mix_b f s = (case s of (a, b, c) \<Rightarrow> (a, (b - c - a) XOR f a, c))"

definition mix_c :: "(u32 \<Rightarrow> u32) \<Rightarrow> u32 \<times> u32 \<times> u32 \<Rightarrow> u32 \<times> u32 \<times> u32" where
  "mix_c f s = (case s of (a, b, c) \<Rightarrow> (a, b, (c - a - b) XOR f b))"

lemma xor_twice: "(x XOR y) XOR y = (x :: u32)"
  by (simp add: xor.assoc)

lemma mix_steps_bij: "bij (mix_a f)" "bij (mix_b f)" "bij (mix_c f)"
proof -
  show "bij (mix_a f)"
    by (rule o_bij [where g = "\<lambda>(a, b, c). ((a XOR f c) + c + b, b, c)"])
       (auto simp: mix_a_def fun_eq_iff xor_twice)
  show "bij (mix_b f)"
    by (rule o_bij [where g = "\<lambda>(a, b, c). (a, (b XOR f a) + a + c, c)"])
       (auto simp: mix_b_def fun_eq_iff xor_twice)
  show "bij (mix_c f)"
    by (rule o_bij [where g = "\<lambda>(a, b, c). (a, b, (c XOR f b) + b + a)"])
       (auto simp: mix_c_def fun_eq_iff xor_twice)
qed

lemma crush_hashmix_steps:
  "(\<lambda>(a, b, c). crush_hashmix a b c) =
     mix_c (drop_bit 15) \<circ> mix_b (push_bit 10) \<circ> mix_a (drop_bit 3) \<circ>
     mix_c (drop_bit 5) \<circ> mix_b (push_bit 16) \<circ> mix_a (drop_bit 12) \<circ>
     mix_c (drop_bit 13) \<circ> mix_b (push_bit 8) \<circ> mix_a (drop_bit 13)"
  by (rule ext) (simp only: crush_hashmix_def mix_a_def mix_b_def mix_c_def Let_def comp_apply split_beta fst_conv snd_conv)

text \<open>
  The mixing step is a bijection on its 96 bits of state, so no two states of a hash
  computation are merged by a mixing step.
\<close>

theorem crush_hashmix_bij: "bij (\<lambda>(a, b, c). crush_hashmix a b c)"
  unfolding crush_hashmix_steps by (intro bij_comp mix_steps_bij)

end
