(* ===== verification/CrushBuckets.thy ===== *)
theory CrushBuckets
  imports CrushMap "HOL-Library.Multiset"
begin

text \<open>
  The bucket choose methods of \<open>libceph/crush/mapper.c\<close>: given a CRUSH input \<open>x\<close> and a replica
  position \<open>r\<close>, each picks one item of a bucket. \<open>x\<close> and \<open>r\<close> are C \<open>int\<close>s that are hashed or
  reduced modulo the unsigned bucket size, so they are 32-bit words here.
\<close>

unbundle bit_operations_syntax

section \<open>Finding a rule\<close>

fun find_rule_loop :: "crush_rule option list \<Rightarrow> nat \<Rightarrow> int \<Rightarrow> int \<Rightarrow> int \<Rightarrow> int" where
  "find_rule_loop [] i ruleset type sz = - 1"
| "find_rule_loop (r # rs) i ruleset type sz =
     (case r of
        Some rule \<Rightarrow>
          if uint (mask_ruleset (rule_mask rule)) = ruleset \<and> uint (mask_type (rule_mask rule)) = type \<and>
             uint (mask_min_size (rule_mask rule)) \<le> sz \<and> uint (mask_max_size (rule_mask rule)) \<ge> sz
          then int i else find_rule_loop rs (Suc i) ruleset type sz
      | None \<Rightarrow> find_rule_loop rs (Suc i) ruleset type sz)"

definition crush_find_rule :: "crush_map \<Rightarrow> int \<Rightarrow> int \<Rightarrow> int \<Rightarrow> int" where
  "crush_find_rule m ruleset type sz =
     find_rule_loop (take (unat (max_rules m)) (rules m)) 0 ruleset type sz"

section \<open>Choosing by a permutation\<close>

function perm_fill :: "u32 list \<Rightarrow> nat \<Rightarrow> nat \<Rightarrow> u32 list outcome" where
  "perm_fill p i n =
     (if i < n then bind_outcome (aset p i (of_nat i)) (\<lambda>p'. perm_fill p' (Suc i) n) else Ok p)"
  by pat_completeness auto
termination
  by (relation "measure (\<lambda>(p, i, n). n - i)") auto

declare perm_fill.simps [simp del]

text \<open>
  The loop that extends the permutation up to position \<open>pr\<close>. Its counter is \<open>work->perm_n\<close>,
  which stays below the bucket size and therefore never wraps.
\<close>

definition perm_swap :: "crush_bucket \<Rightarrow> u32 \<Rightarrow> nat \<Rightarrow> u32 list \<Rightarrow> u32 list outcome" where
  "perm_swap b x p pm =
     (if p < unat (bucket_size b) - 1 then
        let i = unat (crush_hash32_3 (bucket_hash b) x (word_of_int (bucket_id b)) (of_nat p) mod
                  (bucket_size b - of_nat p)) in
        if i \<noteq> 0 then
          bind_outcome (aref pm (p + i)) (\<lambda>t.
          bind_outcome (aref pm p) (\<lambda>q.
          bind_outcome (aset pm (p + i) q) (\<lambda>pm. aset pm p t)))
        else Ok pm
      else Ok pm)"

function perm_extend :: "crush_bucket \<Rightarrow> u32 \<Rightarrow> nat \<Rightarrow> nat \<Rightarrow> u32 list \<Rightarrow> (nat \<times> u32 list) outcome" where
  "perm_extend b x pr p pm =
     (if p \<le> pr then bind_outcome (perm_swap b x p pm) (\<lambda>pm. perm_extend b x pr (Suc p) pm)
      else Ok (p, pm))"
  by pat_completeness auto
termination
  by (relation "measure (\<lambda>(b, x, pr, p, pm). Suc pr - p)") auto

declare perm_extend.simps [simp del]

definition bucket_perm_choose ::
    "crush_bucket \<Rightarrow> crush_work_bucket \<Rightarrow> u32 \<Rightarrow> u32 \<Rightarrow> (crush_work_bucket \<times> int) outcome" where
  "bucket_perm_choose b work x r =
     (if bucket_size b = 0 then Oops Div_Zero
      else let pr = r mod bucket_size b;
               fin = (\<lambda>work s. bind_outcome (aref (bucket_items b) (unat s)) (\<lambda>item. Ok (work, item)));
               extend = (\<lambda>work.
                 bind_outcome (perm_extend b x (unat pr) (unat (perm_n work)) (perm work)) (\<lambda>(n, pm).
                 bind_outcome (aref pm (unat pr)) (\<lambda>s. fin (work\<lparr>perm_n := of_nat n, perm := pm\<rparr>) s)))
        in if perm_x work \<noteq> x \<or> perm_n work = 0 then
             let work = work\<lparr>perm_x := x\<rparr> in
             if pr = 0 then
               let s = crush_hash32_3 (bucket_hash b) x (word_of_int (bucket_id b)) 0 mod bucket_size b in
               bind_outcome (aset (perm work) 0 s) (\<lambda>pm.
                 fin (work\<lparr>perm := pm, perm_n := 0xffff\<rparr>) s)
             else
               bind_outcome (perm_fill (perm work) 0 (unat (bucket_size b))) (\<lambda>pm.
                 extend (work\<lparr>perm := pm, perm_n := 0\<rparr>))
           else if perm_n work = 0xffff then
             bind_outcome (perm_fill (perm work) 1 (unat (bucket_size b))) (\<lambda>pm.
             bind_outcome (aref pm 0) (\<lambda>s.
             bind_outcome (aset pm (unat s) 0) (\<lambda>pm.
               extend (work\<lparr>perm := pm, perm_n := 1\<rparr>))))
           else extend work)"

definition bucket_uniform_choose ::
    "crush_bucket \<Rightarrow> crush_work_bucket \<Rightarrow> u32 \<Rightarrow> u32 \<Rightarrow> (crush_work_bucket \<times> int) outcome" where
  "bucket_uniform_choose b work x r = bucket_perm_choose b work x r"

section \<open>List buckets\<close>

fun list_choose_loop ::
    "crush_bucket \<Rightarrow> u32 list \<Rightarrow> u32 list \<Rightarrow> u32 \<Rightarrow> u32 \<Rightarrow> nat \<Rightarrow> int outcome" where
  "list_choose_loop b item_weights sum_weights x r 0 = aref (bucket_items b) 0"
| "list_choose_loop b item_weights sum_weights x r (Suc i) =
     bind_outcome (aref (bucket_items b) i) (\<lambda>item.
     bind_outcome (aref sum_weights i) (\<lambda>sw.
     bind_outcome (aref item_weights i) (\<lambda>iw.
       let w = ucast (crush_hash32_4 (bucket_hash b) x (word_of_int item) r (word_of_int (bucket_id b))) :: u64;
           w = w AND 0xffff;
           w = w * ucast sw;
           w = drop_bit 16 w
       in if w < ucast iw then Ok item
          else list_choose_loop b item_weights sum_weights x r i)))"

definition bucket_list_choose ::
    "crush_bucket \<Rightarrow> u32 list \<Rightarrow> u32 list \<Rightarrow> u32 \<Rightarrow> u32 \<Rightarrow> int outcome" where
  "bucket_list_choose b item_weights sum_weights x r =
     list_choose_loop b item_weights sum_weights x r (unat (bucket_size b))"

section \<open>Tree buckets\<close>

text \<open>\<open>height 0\<close> does not return in C.\<close>

fun height :: "nat \<Rightarrow> nat outcome" where
  "height n =
     (if n = 0 then Oops No_Fuel
      else if odd n then Ok 0
      else bind_outcome (height (n div 2)) (\<lambda>h. Ok (Suc h)))"

declare height.simps [simp del]

definition left :: "nat \<Rightarrow> nat outcome" where
  "left x = bind_outcome (height x) (\<lambda>h. Ok (x - 2 ^ (h - 1)))"

definition right :: "nat \<Rightarrow> nat outcome" where
  "right x = bind_outcome (height x) (\<lambda>h. Ok (x + 2 ^ (h - 1)))"

definition terminal :: "nat \<Rightarrow> bool" where
  "terminal x \<longleftrightarrow> odd x"

fun tree_descend :: "nat \<Rightarrow> crush_bucket \<Rightarrow> u32 list \<Rightarrow> u32 \<Rightarrow> u32 \<Rightarrow> nat \<Rightarrow> nat outcome" where
  "tree_descend 0 b node_weights x r n = Oops No_Fuel"
| "tree_descend (Suc fuel) b node_weights x r n =
     (if terminal n then Ok n
      else
        bind_outcome (aref node_weights n) (\<lambda>w.
        bind_outcome (left n) (\<lambda>l.
        bind_outcome (aref node_weights l) (\<lambda>wl.
          let t = drop_bit 32 (ucast (crush_hash32_4 (bucket_hash b) x (of_nat n) r
                    (word_of_int (bucket_id b))) * ucast w :: u64) in
          if t < ucast wl then tree_descend fuel b node_weights x r l
          else bind_outcome (right n) (\<lambda>rt. tree_descend fuel b node_weights x r rt)))))"

text \<open>The node numbers are below 256, so no descent has more than eight steps.\<close>

definition bucket_tree_choose :: "crush_bucket \<Rightarrow> u8 \<Rightarrow> u32 list \<Rightarrow> u32 \<Rightarrow> u32 \<Rightarrow> int outcome" where
  "bucket_tree_choose b num_nodes node_weights x r =
     bind_outcome (tree_descend 9 b node_weights x r (unat (drop_bit 1 num_nodes))) (\<lambda>n.
       aref (bucket_items b) (n div 2))"

section \<open>Straw buckets\<close>

text \<open>The loop keeps the position of the longest straw so far and its draw.\<close>

function straw_loop :: "crush_bucket \<Rightarrow> u32 list \<Rightarrow> u32 \<Rightarrow> u32 \<Rightarrow> nat \<Rightarrow> nat \<Rightarrow> u64 \<Rightarrow> nat outcome" where
  "straw_loop b straws x r i high high_draw =
     (if i < unat (bucket_size b) then
        bind_outcome (aref (bucket_items b) i) (\<lambda>item.
        bind_outcome (aref straws i) (\<lambda>straw.
          let draw = ucast (crush_hash32_3 (bucket_hash b) x (word_of_int item) r) :: u64;
              draw = draw AND 0xffff;
              draw = draw * ucast straw
          in if i = 0 \<or> draw > high_draw then straw_loop b straws x r (Suc i) i draw
             else straw_loop b straws x r (Suc i) high high_draw))
      else Ok high)"
  by pat_completeness auto
termination
  by (relation "measure (\<lambda>(b, straws, x, r, i, high, high_draw). unat (bucket_size b) - i)") auto

declare straw_loop.simps [simp del]

definition bucket_straw_choose :: "crush_bucket \<Rightarrow> u32 list \<Rightarrow> u32 \<Rightarrow> u32 \<Rightarrow> int outcome" where
  "bucket_straw_choose b straws x r =
     bind_outcome (straw_loop b straws x r 0 0 0) (\<lambda>high. aref (bucket_items b) high)"

section \<open>Straw2 buckets\<close>

fun bit_length :: "nat \<Rightarrow> nat" where
  "bit_length n = (if n = 0 then 0 else Suc (bit_length (n div 2)))"

declare bit_length.simps [simp del]

definition clz :: "u32 \<Rightarrow> nat" where
  "clz x = 32 - bit_length (unat x)"

definition crush_ln :: "u32 \<Rightarrow> u64 outcome" where
  "crush_ln xin =
     (let x = xin + 1;
          bits = (if x AND 0x18000 = 0 then clz (x AND 0x1FFFF) - 16 else 0);
          x = push_bit bits x;
          iexpon = 15 - bits;
          index1 = unat (push_bit 1 (drop_bit 8 x))
      in if index1 < 256 then Oops Bad_Access
         else
           bind_outcome (aref RH_LH_tbl (index1 - 256)) (\<lambda>RH.
           bind_outcome (aref RH_LH_tbl (index1 + 1 - 256)) (\<lambda>LH.
             let xl64 = drop_bit 48 (ucast x * RH);
                 result = push_bit (12 + 32) (of_nat iexpon);
                 index2 = unat (xl64 AND 0xff)
             in bind_outcome (aref LL_tbl index2) (\<lambda>LL.
                  Ok (result + drop_bit (48 - 12 - 32) (LH + LL))))))"

definition get_choose_arg_weights ::
    "u32 list \<Rightarrow> crush_choose_arg option \<Rightarrow> nat \<Rightarrow> u32 list outcome" where
  "get_choose_arg_weights item_weights arg position =
     (case arg of
        None \<Rightarrow> Ok item_weights
      | Some a \<Rightarrow>
          (case arg_weight_set a of
             None \<Rightarrow> Ok item_weights
           | Some ws \<Rightarrow>
               if ws = [] then Oops Bad_Access
               else aref ws (if position \<ge> length ws then length ws - 1 else position)))"

definition get_choose_arg_ids :: "crush_bucket \<Rightarrow> crush_choose_arg option \<Rightarrow> int list" where
  "get_choose_arg_ids b arg =
     (case arg of
        None \<Rightarrow> bucket_items b
      | Some a \<Rightarrow> (case arg_ids a of None \<Rightarrow> bucket_items b | Some ids \<Rightarrow> ids))"

text \<open>Signed 64-bit division truncates towards zero.\<close>

definition div64_s64 :: "int \<Rightarrow> int \<Rightarrow> int" where
  "div64_s64 a d = sgn a * sgn d * (\<bar>a\<bar> div \<bar>d\<bar>)"

abbreviation (input) S64_MIN :: int where
  "S64_MIN \<equiv> - 0x8000000000000000"

definition straw2_draw :: "crush_bucket \<Rightarrow> u32 \<Rightarrow> u32 \<Rightarrow> int \<Rightarrow> u32 \<Rightarrow> int outcome" where
  "straw2_draw b x r item_id weight =
     (if weight \<noteq> 0 then
        let u = crush_hash32_3 (bucket_hash b) x (word_of_int item_id) r AND 0xffff in
        bind_outcome (crush_ln u) (\<lambda>l.
          let ln = sint (l - 0x1000000000000) in Ok (div64_s64 ln (uint weight)))
      else Ok S64_MIN)"

function straw2_loop ::
    "crush_bucket \<Rightarrow> u32 list \<Rightarrow> int list \<Rightarrow> u32 \<Rightarrow> u32 \<Rightarrow> nat \<Rightarrow> nat \<Rightarrow> int \<Rightarrow> nat outcome" where
  "straw2_loop b weights ids x r i high high_draw =
     (if i < unat (bucket_size b) then
        bind_outcome (aref weights i) (\<lambda>weight.
        bind_outcome (if weight \<noteq> 0 then aref ids i else Ok 0) (\<lambda>item_id.
        bind_outcome (straw2_draw b x r item_id weight) (\<lambda>draw.
          if i = 0 \<or> draw > high_draw then straw2_loop b weights ids x r (Suc i) i draw
          else straw2_loop b weights ids x r (Suc i) high high_draw)))
      else Ok high)"
  by pat_completeness auto
termination
  by (relation "measure (\<lambda>(b, weights, ids, x, r, i, high, high_draw). unat (bucket_size b) - i)") auto

declare straw2_loop.simps [simp del]

definition bucket_straw2_choose ::
    "crush_bucket \<Rightarrow> u32 list \<Rightarrow> u32 \<Rightarrow> u32 \<Rightarrow> crush_choose_arg option \<Rightarrow> nat \<Rightarrow> int outcome" where
  "bucket_straw2_choose b item_weights x r arg position =
     bind_outcome (get_choose_arg_weights item_weights arg position) (\<lambda>weights.
     bind_outcome (straw2_loop b weights (get_choose_arg_ids b arg) x r 0 0 0) (\<lambda>high.
       aref (bucket_items b) high))"

section \<open>The dispatcher\<close>

definition crush_bucket_choose ::
    "crush_bucket \<Rightarrow> crush_work_bucket \<Rightarrow> u32 \<Rightarrow> u32 \<Rightarrow> crush_choose_arg option \<Rightarrow> nat \<Rightarrow>
     (crush_work_bucket \<times> int) outcome" where
  "crush_bucket_choose b work x r arg position =
     (if bucket_size b = 0 then Oops Bug_On
      else case bucket_alg b of
        CRUSH_BUCKET_UNIFORM _ \<Rightarrow> bucket_uniform_choose b work x r
      | CRUSH_BUCKET_LIST iw sw \<Rightarrow>
          bind_outcome (bucket_list_choose b iw sw x r) (\<lambda>item. Ok (work, item))
      | CRUSH_BUCKET_TREE nn nw \<Rightarrow>
          bind_outcome (bucket_tree_choose b nn nw x r) (\<lambda>item. Ok (work, item))
      | CRUSH_BUCKET_STRAW _ straws \<Rightarrow>
          bind_outcome (bucket_straw_choose b straws x r) (\<lambda>item. Ok (work, item))
      | CRUSH_BUCKET_STRAW2 iw \<Rightarrow>
          bind_outcome (bucket_straw2_choose b iw x r arg position) (\<lambda>item. Ok (work, item))
      | CRUSH_BUCKET_OTHER _ \<Rightarrow>
          bind_outcome (aref (bucket_items b) 0) (\<lambda>item. Ok (work, item)))"

section \<open>The permutation a bucket and an input define\<close>

definition shuffle_step :: "crush_bucket \<Rightarrow> u32 \<Rightarrow> nat \<Rightarrow> u32 list \<Rightarrow> u32 list" where
  "shuffle_step b x p pm =
     (if p < unat (bucket_size b) - 1 then
        let i = unat (crush_hash32_3 (bucket_hash b) x (word_of_int (bucket_id b)) (of_nat p)) mod
                  (unat (bucket_size b) - p)
        in pm[p + i := pm ! p, p := pm ! (p + i)]
      else pm)"

definition shuffle :: "crush_bucket \<Rightarrow> u32 \<Rightarrow> nat \<Rightarrow> u32 list" where
  "shuffle b x n = fold (shuffle_step b x) [0..<n] (map of_nat [0..<unat (bucket_size b)])"

lemma shuffle_Suc: "shuffle b x (Suc n) = shuffle_step b x n (shuffle b x n)"
  by (simp add: shuffle_def)

lemma length_shuffle_step [simp]: "length (shuffle_step b x p pm) = length pm"
  by (simp add: shuffle_step_def Let_def)

lemma length_shuffle [simp]: "length (shuffle b x n) = unat (bucket_size b)"
  by (induction n) (simp_all add: shuffle_Suc, simp add: shuffle_def)

lemma shuffle_index:
  fixes p n h :: nat
  assumes "p < n"
  shows "p + h mod (n - p) < n"
  using assms mod_less_divisor [of "n - p" h] by linarith

lemma mset_shuffle_step:
  assumes "length pm = unat (bucket_size b)" and "p < unat (bucket_size b)"
  shows "mset (shuffle_step b x p pm) = mset pm"
  using assms shuffle_index [OF assms(2)]
  by (auto simp: shuffle_step_def Let_def mset_swap)

lemma mset_shuffle:
  "n \<le> unat (bucket_size b) \<Longrightarrow> mset (shuffle b x n) = mset (map of_nat [0..<unat (bucket_size b)])"
proof (induction n)
  case 0
  then show ?case by (simp add: shuffle_def)
next
  case (Suc n)
  then show ?case by (simp add: shuffle_Suc mset_shuffle_step)
qed

lemma shuffle_step_below: "k < p \<Longrightarrow> shuffle_step b x p pm ! k = pm ! k"
  by (simp add: shuffle_step_def Let_def)

lemma shuffle_stable:
  assumes "k < m" and "m \<le> n"
  shows "shuffle b x n ! k = shuffle b x m ! k"
  using assms(2)
proof (induction rule: dec_induct)
  case (step n)
  then show ?case using assms(1) by (simp add: shuffle_Suc shuffle_step_below)
qed simp

lemma shuffle_entry:
  assumes "n \<le> unat (bucket_size b)" and "k < unat (bucket_size b)"
  shows "unat (shuffle b x n ! k) < unat (bucket_size b)"
proof -
  have "shuffle b x n ! k \<in> set (shuffle b x n)" using assms(2) by simp
  also have "set (shuffle b x n) = of_nat ` {0..<unat (bucket_size b)}"
    using mset_eq_setD [OF mset_shuffle [OF assms(1)]] by simp
  finally obtain j where "j < unat (bucket_size b)" "shuffle b x n ! k = of_nat j" by auto
  then show ?thesis using unat_u32_less [of "bucket_size b"] by (simp add: unat_of_nat)
qed

section \<open>The cached permutation\<close>

lemma perm_swap_shuffle:
  assumes "length pm = unat (bucket_size b)" and "p < unat (bucket_size b)"
  shows "perm_swap b x p pm = Ok (shuffle_step b x p pm)"
proof -
  let ?h = "crush_hash32_3 (bucket_hash b) x (word_of_int (bucket_id b)) (of_nat p)"
  let ?i = "unat (?h mod (bucket_size b - of_nat p))"
  have p: "unat (of_nat p :: u32) = p"
    using assms(2) unat_u32_less [of "bucket_size b"] by (simp add: unat_of_nat)
  have i: "?i = unat ?h mod (unat (bucket_size b) - p)"
    using assms(2) by (simp add: unat_mod unat_sub_no_wrap p)
  have lt: "p + ?i < length pm" unfolding i assms(1) by (rule shuffle_index [OF assms(2)])
  then show ?thesis
    using assms by (auto simp: perm_swap_def shuffle_step_def Let_def i)
qed

lemma perm_extend_shuffle:
  assumes "p \<le> Suc pr" and "pr < unat (bucket_size b)"
  shows "perm_extend b x pr p (shuffle b x p) = Ok (Suc pr, shuffle b x (Suc pr))"
  using assms(1)
proof (induction "Suc pr - p" arbitrary: p)
  case 0
  then show ?case by (simp add: perm_extend.simps)
next
  case (Suc d)
  then have "perm_swap b x p (shuffle b x p) = Ok (shuffle b x (Suc p))"
    using assms(2) by (simp add: perm_swap_shuffle shuffle_Suc)
  moreover have "p \<le> pr" using Suc by simp
  ultimately show ?case using Suc by (subst perm_extend.simps) simp
qed

lemma perm_fill_from:
  assumes "i \<le> n" and "length pm = n"
  shows "perm_fill pm i n = Ok (take i pm @ map of_nat [i..<n])"
  using assms
proof (induction "n - i" arbitrary: i pm)
  case 0
  then show ?case by (simp add: perm_fill.simps)
next
  case (Suc d)
  then have "perm_fill (pm[i := of_nat i]) (Suc i) n =
      Ok (take (Suc i) (pm[i := of_nat i]) @ map of_nat [Suc i..<n])" by simp
  with Suc show ?case
    by (subst perm_fill.simps) (simp add: take_Suc_conv_app_nth upt_conv_Cons)
qed

definition perm_inv :: "crush_bucket \<Rightarrow> crush_work_bucket \<Rightarrow> bool" where
  "perm_inv b w \<longleftrightarrow> length (perm w) = unat (bucket_size b) \<and>
     (perm_n w \<noteq> 0 \<longrightarrow>
       (if perm_n w = 0xffff then perm w ! 0 = shuffle b (perm_x w) 1 ! 0
        else unat (perm_n w) \<le> unat (bucket_size b) \<and> perm w = shuffle b (perm_x w) (unat (perm_n w))))"

lemma perm_inv_shuffled:
  assumes "0 < n" and "n \<le> unat (bucket_size b)"
  shows "perm_inv b (w\<lparr>perm_x := x, perm_n := of_nat n, perm := shuffle b x n\<rparr>)"
proof -
  have "unat (of_nat n :: u32) = n"
    using assms(2) unat_u32_less [of "bucket_size b"] by (simp add: unat_of_nat)
  then show ?thesis
    using assms shuffle_stable [of 0 1 n b x] by (simp add: perm_inv_def)
qed

lemma shuffle_1:
  fixes x :: u32
  assumes "0 < unat (bucket_size b)"
  defines "s \<equiv> crush_hash32_3 (bucket_hash b) x (word_of_int (bucket_id b)) 0 mod bucket_size b"
  shows "shuffle b x 1 = (s # map of_nat [1..<unat (bucket_size b)])[unat s := 0]"
    and "shuffle b x 1 ! 0 = s"
proof -
  let ?n = "unat (bucket_size b)"
  let ?l = "map of_nat [0..<?n] :: u32 list"
  have s: "unat s = unat (crush_hash32_3 (bucket_hash b) x (word_of_int (bucket_id b)) 0) mod ?n"
    by (simp add: s_def unat_mod)
  then have lt: "unat s < ?n" using assms(1) by simp
  have l: "?l = 0 # map of_nat [1..<?n]" using assms(1) by (simp add: upt_conv_Cons)
  have at: "?l ! unat s = s" using lt by simp
  have "shuffle b x 1 = shuffle_step b x 0 ?l" by (simp add: shuffle_def)
  also have "\<dots> = ?l[unat s := 0, 0 := s]"
  proof (cases "?n = 1")
    case True
    then have "s = 0" using lt by (simp add: unat_eq_zero)
    with True show ?thesis by (simp add: shuffle_step_def)
  next
    case False
    with assms(1) have "0 < ?n - 1" by simp
    then show ?thesis
      using at assms(1) by (simp add: shuffle_step_def s [symmetric])
  qed
  finally have eq: "shuffle b x 1 = ?l[unat s := 0, 0 := s]" .
  then show "shuffle b x 1 ! 0 = s" using assms(1) by simp
  show "shuffle b x 1 = (s # map of_nat [1..<?n])[unat s := 0]"
    unfolding eq l by (cases "unat s") (simp_all add: unat_eq_zero)
qed

definition perm_item :: "crush_bucket \<Rightarrow> u32 \<Rightarrow> nat \<Rightarrow> int" where
  "perm_item b x k = bucket_items b ! unat (shuffle b x (unat (bucket_size b)) ! k)"

lemma mset_perm_items:
  assumes "length (bucket_items b) = unat (bucket_size b)"
  shows "mset (map (perm_item b x) [0..<unat (bucket_size b)]) = mset (bucket_items b)"
proof -
  let ?n = "unat (bucket_size b)"
  have "map (perm_item b x) [0..<?n] = map (\<lambda>s. bucket_items b ! unat s) (shuffle b x ?n)"
    by (rule nth_equalityI) (simp_all add: perm_item_def)
  then have "mset (map (perm_item b x) [0..<?n]) =
      image_mset (\<lambda>s. bucket_items b ! unat s) (mset (map of_nat [0..<?n]) :: u32 multiset)"
    by (simp add: mset_shuffle)
  also have "\<dots> = mset (map (\<lambda>k. bucket_items b ! unat (of_nat k :: u32)) [0..<?n])"
    by (simp add: multiset.map_comp o_def)
  also have "map (\<lambda>k. bucket_items b ! unat (of_nat k :: u32)) [0..<?n] = bucket_items b"
  proof (rule nth_equalityI)
    fix k assume "k < length (map (\<lambda>k. bucket_items b ! unat (of_nat k :: u32)) [0..<?n])"
    then have "k < ?n" by simp
    then show "map (\<lambda>k. bucket_items b ! unat (of_nat k :: u32)) [0..<?n] ! k = bucket_items b ! k"
      using unat_u32_less [of "bucket_size b"] by (simp add: unat_of_nat)
  qed (simp add: assms)
  finally show ?thesis .
qed

lemma perm_extend_choose:
  assumes b: "length (bucket_items b) = unat (bucket_size b)" and pr: "pr < unat (bucket_size b)"
    and n: "unat (perm_n w) \<le> unat (bucket_size b)" and pm: "perm w = shuffle b x (unat (perm_n w))"
    and px: "perm_x w = x"
  shows "\<exists>w'. bind_outcome (perm_extend b x pr (unat (perm_n w)) (perm w)) (\<lambda>(n, pm).
      bind_outcome (aref pm pr) (\<lambda>s. bind_outcome (aref (bucket_items b) (unat s)) (\<lambda>item.
        Ok (w\<lparr>perm_n := of_nat n, perm := pm\<rparr>, item)))) = Ok (w', perm_item b x pr) \<and> perm_inv b w'"
proof (cases "unat (perm_n w) \<le> pr")
  case True
  have e: "perm_extend b x pr (unat (perm_n w)) (perm w) = Ok (Suc pr, shuffle b x (Suc pr))"
    unfolding pm using True pr by (intro perm_extend_shuffle) simp_all
  have s: "shuffle b x (unat (bucket_size b)) ! pr = shuffle b x (Suc pr) ! pr"
    using pr by (intro shuffle_stable) simp_all
  have "unat (shuffle b x (Suc pr) ! pr) < unat (bucket_size b)"
    using pr by (intro shuffle_entry) simp_all
  then have "aref (bucket_items b) (unat (shuffle b x (Suc pr) ! pr)) = Ok (perm_item b x pr)"
    using b by (simp add: perm_item_def s)
  moreover have "perm_inv b (w\<lparr>perm_n := of_nat (Suc pr), perm := shuffle b x (Suc pr)\<rparr>)"
    using perm_inv_shuffled [where n = "Suc pr" and b = b and w = w and x = x] pr px by (cases w) simp
  ultimately show ?thesis using e pr by simp
next
  case False
  have e: "perm_extend b x pr (unat (perm_n w)) (perm w) = Ok (unat (perm_n w), perm w)"
    using False by (subst perm_extend.simps) simp
  have s: "shuffle b x (unat (bucket_size b)) ! pr = perm w ! pr"
    unfolding pm using False n by (intro shuffle_stable) simp_all
  have "unat (perm w ! pr) < unat (bucket_size b)"
    unfolding pm using n pr by (intro shuffle_entry) simp_all
  then have i: "aref (bucket_items b) (unat (perm w ! pr)) = Ok (perm_item b x pr)"
    using b by (simp add: perm_item_def s)
  have a: "aref (perm w) pr = Ok (perm w ! pr)" using pm pr by simp
  have "perm_inv b (w\<lparr>perm_n := of_nat (unat (perm_n w)), perm := perm w\<rparr>)"
    using perm_inv_shuffled [where n = "unat (perm_n w)" and b = b and w = w and x = x] n px pm False by (cases w) simp
  then show ?thesis using e a i by simp
qed

lemma bucket_perm_choose_item:
  assumes b: "length (bucket_items b) = unat (bucket_size b)" and sz: "bucket_size b \<noteq> 0"
    and w: "perm_inv b w"
  shows "\<exists>w'. bucket_perm_choose b w x r = Ok (w', perm_item b x (unat r mod unat (bucket_size b))) \<and>
              perm_inv b w'"
proof -
  let ?n = "unat (bucket_size b)" and ?pr = "unat (r mod bucket_size b)"
  have n: "0 < ?n" using sz by (simp add: unat_gt_0)
  have pr: "?pr < ?n" using n by (simp add: unat_mod)
  have pr_eq: "unat r mod ?n = ?pr" by (simp add: unat_mod)
  have len: "length (perm w) = ?n" using w by (simp add: perm_inv_def)
  note s1 = shuffle_1 [OF n, of x]
  note ext = perm_extend_choose [OF b pr]
  consider (first) "perm_x w \<noteq> x \<or> perm_n w = 0" "r mod bucket_size b = 0"
    | (fresh) "perm_x w \<noteq> x \<or> perm_n w = 0" "r mod bucket_size b \<noteq> 0"
    | (magic) "perm_x w = x" "perm_n w = 0xffff"
    | (cached) "perm_x w = x" "perm_n w \<noteq> 0" "perm_n w \<noteq> 0xffff"
    by fastforce
  then show ?thesis
  proof cases
    case first
    let ?s = "crush_hash32_3 (bucket_hash b) x (word_of_int (bucket_id b)) 0 mod bucket_size b"
    have "shuffle b x ?n ! 0 = ?s"
      unfolding s1(2) [symmetric] using n by (intro shuffle_stable) simp_all
    then have item: "bucket_items b ! unat ?s = perm_item b x 0" by (simp add: perm_item_def)
    have "unat ?s < ?n" using n by (simp add: unat_mod)
    then show ?thesis
      using first n len b sz item
      by (simp add: bucket_perm_choose_def pr_eq perm_inv_def s1(2) [unfolded One_nat_def] Let_def)
  next
    case fresh
    have "perm_fill (perm w) 0 ?n = Ok (shuffle b x 0)"
      using perm_fill_from [of 0 ?n "perm w"] len by (simp add: shuffle_def)
    then show ?thesis
      using fresh sz ext [of "w\<lparr>perm_x := x, perm := shuffle b x 0, perm_n := 0\<rparr>" x]
      by (simp add: bucket_perm_choose_def pr_eq Let_def)
  next
    case magic
    then have s0: "perm w ! 0 = shuffle b x 1 ! 0" using w by (simp add: perm_inv_def)
    let ?pm = "perm w ! 0 # map of_nat [1..<?n]"
    have "perm_fill (perm w) 1 ?n = Ok ?pm"
      using perm_fill_from [of 1 ?n "perm w"] len n by (cases "perm w") simp_all
    moreover have "aset ?pm (unat (perm w ! 0)) 0 = Ok (shuffle b x 1)"
      using s1 s0 n by (simp add: aset_def unat_mod)
    ultimately show ?thesis
      using magic sz ext [of "w\<lparr>perm := shuffle b x 1, perm_n := 1\<rparr>" x] n
      by (simp add: bucket_perm_choose_def pr_eq Let_def)
  next
    case cached
    then have "unat (perm_n w) \<le> ?n" "perm w = shuffle b x (unat (perm_n w))"
      using w by (simp_all add: perm_inv_def)
    then show ?thesis
      using cached sz ext [of w x] by (simp add: bucket_perm_choose_def pr_eq Let_def)
  qed
qed
section \<open>The other algorithms choose items of the bucket\<close>

lemma list_choose_loop_item:
  assumes "bucket_items b \<noteq> []" and "n \<le> length (bucket_items b)"
    and "n \<le> length iw" and "n \<le> length sw"
  shows "\<exists>item\<in>set (bucket_items b). list_choose_loop b iw sw x r n = Ok item"
  using assms(2-)
proof (induction n)
  case 0
  then show ?case using assms(1) by simp
next
  case (Suc n)
  then show ?case by (auto simp: Let_def)
qed

lemma straw_loop_position:
  assumes "length (bucket_items b) = unat (bucket_size b)" and "length straws = unat (bucket_size b)"
    and "high < unat (bucket_size b)"
  shows "\<exists>p<unat (bucket_size b). straw_loop b straws x r i high high_draw = Ok p"
  using assms
proof (induction b straws x r i high high_draw rule: straw_loop.induct)
  case (1 b straws x r i high high_draw)
  then show ?case
    by (subst straw_loop.simps) (simp add: Let_def)
qed

text \<open>The index computations of \<open>crush_ln\<close> stay inside its tables for every 16-bit input.\<close>

lemma length_RH_LH_tbl [simp]: "length RH_LH_tbl = 258"
  by (simp add: RH_LH_tbl_def)

lemma length_LL_tbl [simp]: "length LL_tbl = 256"
  by (simp add: LL_tbl_def)

lemma bit_length_bounds: "0 < n \<Longrightarrow> 2 ^ (bit_length n - 1) \<le> n \<and> n < 2 ^ bit_length n \<and> 0 < bit_length n"
proof (induction n rule: bit_length.induct)
  case (1 n)
  show ?case
  proof (cases "n = 1")
    case True
    then show ?thesis by (simp add: bit_length.simps)
  next
    case False
    with 1 have IH: "2 ^ (bit_length (n div 2) - 1) \<le> n div 2" "n div 2 < 2 ^ bit_length (n div 2)"
      "0 < bit_length (n div 2)" by auto
    then obtain k where "bit_length (n div 2) = Suc k" by (cases "bit_length (n div 2)") auto
    with IH show ?thesis using 1(2) by (subst (1 2 3) bit_length.simps) auto
  qed
qed

lemma take_bit_word_eq_self_unat:
  fixes w :: "'a::len word"
  assumes "unat w < 2 ^ n"
  shows "take_bit n w = w"
  using assms by (simp add: word_unat_eq_iff unsigned_take_bit_eq take_bit_nat_eq_self)

lemma and_0x18000_eq_0:
  fixes x :: u32
  assumes "unat x < 0x20000"
  shows "x AND 0x18000 = 0 \<longleftrightarrow> unat x < 0x8000"
proof -
  have d: "unat (drop_bit 15 x) = unat x div 0x8000" unfolding unat_drop_bit_eq by (simp add: drop_bit_eq_div)
  have m: "(0x18000 :: u32) = push_bit 15 (mask 2)" by (simp add: mask_eq_exp_minus_1)
  have "x AND 0x18000 = push_bit 15 (take_bit 2 (drop_bit 15 x))"
    unfolding m by (rule bit_word_eqI) (auto simp: bit_simps)
  also have "take_bit 2 (drop_bit 15 x) = drop_bit 15 x"
    using assms d by (intro take_bit_word_eq_self_unat) simp
  finally have "x AND 0x18000 = push_bit 15 (drop_bit 15 x)" .
  moreover have "unat x < 0x8000" if "push_bit 15 (drop_bit 15 x) = 0"
  proof -
    have "unat x = unat (take_bit 15 x)" using bits_ident [where n = 15 and a = x] that by simp
    then have "unat x = unat x mod 0x8000"
      unfolding unsigned_take_bit_eq by (simp add: take_bit_eq_mod)
    then show ?thesis by linarith
  qed
  moreover have "drop_bit 15 x = 0" if "unat x < 0x8000"
    using d that by (simp add: unat_eq_zero)
  ultimately show ?thesis by auto
qed

lemma crush_ln_normalised:
  fixes xin :: u32
  assumes "unat xin \<le> 0xffff"
  defines "x \<equiv> xin + 1"
  defines "bits \<equiv> if x AND 0x18000 = 0 then clz (x AND 0x1FFFF) - 16 else 0"
  shows "0x8000 \<le> unat (push_bit bits x) \<and> unat (push_bit bits x) \<le> 0x10000"
proof -
  have x: "unat x = unat xin + 1"
    unfolding x_def using assms(1) by (subst unat_add_no_wrap) simp_all
  then have lt: "0 < unat x" "unat x \<le> 0x10000" using assms(1) by simp_all
  have "x AND 0x1FFFF = take_bit 17 x"
    by (simp add: take_bit_eq_mask mask_eq_exp_minus_1)
  also have "\<dots> = x" using lt by (intro take_bit_word_eq_self_unat) simp
  finally have mask: "x AND 0x1FFFF = x" .
  show ?thesis
  proof (cases "unat x < 0x8000")
    case True
    let ?k = "bit_length (unat x)"
    have k: "2 ^ (?k - 1) \<le> unat x" "unat x < 2 ^ ?k" "0 < ?k"
      using bit_length_bounds [OF lt(1)] by simp_all
    have "2 ^ (?k - 1) < (2 :: nat) ^ 15" using k(1) True by simp
    then have k16: "?k < 16" by (simp add: power_strict_increasing_iff del: power_numeral)
    have "bits = 16 - ?k"
      using True lt by (simp add: bits_def and_0x18000_eq_0 clz_def mask)
    moreover have "2 ^ (?k - 1) * 2 ^ (16 - ?k) = (2 :: nat) ^ 15"
      using k(3) k16 by (simp flip: power_add)
    moreover have "2 ^ ?k * 2 ^ (16 - ?k) = (2 :: nat) ^ 16"
      using k16 by (simp flip: power_add)
    ultimately have b: "unat x * 2 ^ bits < 2 ^ 16" "2 ^ 15 \<le> unat x * 2 ^ bits"
      using k by (metis mult_less_mono1 zero_less_numeral zero_less_power) (metis k(1) \<open>bits = 16 - ?k\<close> \<open>2 ^ (?k - 1) * 2 ^ (16 - ?k) = 2 ^ 15\<close> mult_le_mono1)
    have "bits < 32" using \<open>bits = 16 - ?k\<close> by simp
    then have "unat ((2 :: u32) ^ bits) = 2 ^ bits"
      using unat_of_nat [where 'a = 32, of "2 ^ bits"] power_strict_increasing [of bits 32 "2 :: nat"]
      by simp
    then have "unat (push_bit bits x) = unat x * 2 ^ bits"
      using b(1) unfolding push_bit_eq_mult by (subst unat_mult_no_wrap) simp_all
    then show ?thesis using b by simp
  next
    case False
    then show ?thesis using lt by (simp add: bits_def and_0x18000_eq_0)
  qed
qed

lemma crush_ln_sum_less:
  fixes a b :: u64
  assumes "k \<le> 15"
  shows "unat (push_bit 44 (of_nat k) + drop_bit 4 (a + b) :: u64) < 0x2000000000000000"
proof -
  have k: "unat (of_nat k :: u64) = k" using assms by (simp add: unat_of_nat)
  have p: "unat (push_bit 44 (of_nat k) :: u64) = k * 0x100000000000"
    unfolding push_bit_eq_mult using assms k by (subst unat_mult_no_wrap) simp_all
  have d: "unat (drop_bit 4 (a + b)) < 0x1000000000000000"
    unfolding unat_drop_bit_eq using unat_u64_less [of "a + b"] by (simp add: drop_bit_eq_div)
  show ?thesis using p d assms by (subst unat_add_no_wrap) simp_all
qed

lemma crush_ln_index:
  fixes y :: u32
  assumes "0x8000 \<le> unat y" and "unat y \<le> 0x10000"
  shows "256 \<le> unat (push_bit 1 (drop_bit 8 y))" and "unat (push_bit 1 (drop_bit 8 y)) \<le> 512"
proof -
  have d: "unat (drop_bit 8 y) = unat y div 256"
    unfolding unat_drop_bit_eq by (simp add: drop_bit_eq_div)
  have "unat (push_bit 1 (drop_bit 8 y)) = unat y div 256 * 2"
    unfolding push_bit_eq_mult using assms d by (subst unat_mult_no_wrap) simp_all
  then show "256 \<le> unat (push_bit 1 (drop_bit 8 y))" and "unat (push_bit 1 (drop_bit 8 y)) \<le> 512"
    using assms div_le_mono [of "0x8000" "unat y" 256] div_le_mono [of "unat y" "0x10000" 256] by simp_all
qed

lemma crush_ln_Ok:
  fixes xin :: u32
  assumes "unat xin \<le> 0xffff"
  shows "\<exists>l. crush_ln xin = Ok l \<and> unat l < 0x2000000000000000"
proof -
  let ?x = "xin + 1"
  let ?bits = "if ?x AND 0x18000 = 0 then clz (?x AND 0x1FFFF) - 16 else 0"
  let ?y = "push_bit ?bits ?x"
  let ?i = "unat (push_bit 1 (drop_bit 8 ?y))"
  have y: "0x8000 \<le> unat ?y" "unat ?y \<le> 0x10000"
    using crush_ln_normalised [OF assms] by blast+
  note idx = crush_ln_index [OF y]
  have i: "\<not> ?i < 256" "?i - 256 < 258" "?i + 1 - 256 < 258" using idx by linarith+
  have lt: "unat (w AND 0xff) < 256" for w :: u64
  proof -
    have "w AND 0xff = take_bit 8 w" by (simp add: take_bit_eq_mask mask_eq_exp_minus_1)
    then have "unat (w AND 0xff) = unat w mod 256" by (simp add: take_bit_eq_mod unat_mod)
    then show ?thesis by simp
  qed
  show ?thesis
    unfolding crush_ln_def Let_def
    using i lt crush_ln_sum_less [of "15 - ?bits"] by (simp del: push_bit_numeral push_bit_of_1)
qed
lemma sint_ln_bounds:
  fixes l :: u64
  assumes "unat l < 0x2000000000000000"
  shows "\<bar>sint (l - 0x1000000000000)\<bar> < 0x2000000000000000"
proof -
  have "uint l = int (unat l)" by simp
  then have u: "0 \<le> uint l" "uint l < 0x2000000000000000" using assms by linarith+
  have "l - 0x1000000000000 = word_of_int (uint l - 0x1000000000000)"
    by (simp only: of_int_diff word_of_int_uint of_int_numeral)
  then have "sint (l - 0x1000000000000) = signed_take_bit 63 (uint l - 0x1000000000000)"
    using sint_sbintrunc' [where 'a = 64, of "uint l - 0x1000000000000"] by (simp only: ) simp
  also have "\<dots> = uint l - 0x1000000000000"
    using u by (intro signed_take_bit_int_eq_self) simp_all
  finally show ?thesis using u by (subst abs_less_iff) (intro conjI; linarith)
qed

lemma div64_s64_bound: "0 < d \<Longrightarrow> \<bar>div64_s64 a d\<bar> \<le> \<bar>a\<bar>"
proof -
  assume "0 < d"
  have "\<bar>div64_s64 a d\<bar> \<le> \<bar>a\<bar> div d"
    using \<open>0 < d\<close> by (simp add: div64_s64_def abs_mult abs_sgn_eq pos_imp_zdiv_nonneg_iff)
  also have "\<dots> \<le> \<bar>a\<bar>" using \<open>0 < d\<close> zdiv_mono2 [of "\<bar>a\<bar>" 1 d] by simp
  finally show ?thesis .
qed

lemma hash_low_bits: "unat (h AND 0xffff :: u32) \<le> 0xffff"
proof -
  have "h AND 0xffff = take_bit 16 h" by (simp add: take_bit_eq_mask mask_eq_exp_minus_1)
  then have "unat (h AND 0xffff) = unat h mod 0x10000" by (simp add: take_bit_eq_mod unat_mod)
  then show ?thesis using mod_less_divisor [of "0x10000" "unat h"] by linarith
qed

lemma straw2_draw_weighted:
  assumes "weight \<noteq> 0"
  shows "\<exists>d>S64_MIN. straw2_draw b x r item_id weight = Ok d"
proof -
  let ?h = "crush_hash32_3 (bucket_hash b) x (word_of_int item_id) r AND 0xffff"
  obtain l where l: "crush_ln ?h = Ok l" "unat l < 0x2000000000000000"
    using crush_ln_Ok [OF hash_low_bits] by blast
  have w: "0 < uint weight" using assms by (simp add: word_neq_0_conv word_less_def)
  have "\<bar>div64_s64 (sint (l - 0x1000000000000)) (uint weight)\<bar> < 0x2000000000000000"
    using div64_s64_bound [OF w] sint_ln_bounds [OF l(2)] by (rule order.strict_trans1)
  then show ?thesis using assms l(1) by (simp add: straw2_draw_def Let_def)
qed

lemma straw2_loop_position:
  assumes "length weights = unat (bucket_size b)" and "length ids = unat (bucket_size b)"
    and "bucket_size b \<noteq> 0"
    and "i = 0 \<or> high < unat (bucket_size b) \<and> S64_MIN \<le> high_draw \<and>
           (if high_draw = S64_MIN then \<forall>j<i. weights ! j = 0 else weights ! high \<noteq> 0)"
  shows "\<exists>p<unat (bucket_size b). straw2_loop b weights ids x r i high high_draw = Ok p \<and>
           ((\<exists>j<unat (bucket_size b). weights ! j \<noteq> 0) \<longrightarrow> weights ! p \<noteq> 0)"
  using assms
proof (induction b weights ids x r i high high_draw rule: straw2_loop.induct)
  case (1 b weights ids x r i high high_draw)
  note IH = 1(1,2) and len = 1(3,4) and inv = 1(6)
  show ?case
  proof (cases "i < unat (bucket_size b)")
    case False
    moreover have "0 < unat (bucket_size b)" using 1(5) by (simp add: unat_gt_0)
    ultimately have "i \<noteq> 0" by simp
    then show ?thesis using False inv
      by (subst (1) straw2_loop.simps) (auto split: if_splits)
  next
    case True
    define weight where "weight = weights ! i"
    obtain item_id where id: "(if weight \<noteq> 0 then aref ids i else Ok 0) = Ok item_id"
      using True len by (cases "weight = 0") simp_all
    obtain d where d: "straw2_draw b x r item_id weight = Ok d" "S64_MIN \<le> d"
      "d = S64_MIN \<longleftrightarrow> weight = 0"
    proof (cases "weight = 0")
      case True
      then show thesis using that by (simp add: straw2_draw_def)
    next
      case False
      then show thesis using that straw2_draw_weighted [OF False, of b x r item_id] by force
    qed
    have w: "aref weights i = Ok weight" using True len by (simp add: weight_def)
    have step: "straw2_loop b weights ids x r i high high_draw =
      (if i = 0 \<or> d > high_draw then straw2_loop b weights ids x r (Suc i) i d
       else straw2_loop b weights ids x r (Suc i) high high_draw)"
      by (subst straw2_loop.simps) (simp add: True w id d(1))
    have all: "(\<forall>j<Suc i. weights ! j = 0) \<longleftrightarrow> weight = 0 \<and> (\<forall>j<i. weights ! j = 0)"
      by (auto simp: weight_def less_Suc_eq)
    show ?thesis
    proof (cases "i = 0 \<or> d > high_draw")
      case up: True
      show ?thesis unfolding step using up
        apply simp
        apply (rule IH(1) [OF True w id d(1) up len 1(5)])
        using True d inv up all apply (auto simp: weight_def split: if_splits) done
    next
      case down: False
      show ?thesis unfolding step using down
        apply simp
        apply (rule IH(2) [OF True w id d(1) down len 1(5)])
        using True d inv down all apply (auto simp: weight_def split: if_splits) done
    qed
  qed
qed

section \<open>Tree buckets\<close>

text \<open>
  A node of height \<open>h\<close> is an odd multiple of \<open>2 ^ h\<close>; its sons are \<open>2 ^ (h - 1)\<close> away.
\<close>

lemma height_odd_multiple: "odd k \<Longrightarrow> height (k * 2 ^ h) = Ok h"
proof (induction h)
  case 0
  then show ?case by (subst height.simps) (auto simp: odd_pos)
next
  case (Suc h)
  then have "0 < k" by (simp add: odd_pos)
  have "height (k * 2 ^ Suc h) = bind_outcome (height (k * 2 ^ Suc h div 2)) (\<lambda>h. Ok (Suc h))"
    using \<open>0 < k\<close> by (subst height.simps) simp
  also have "k * 2 ^ Suc h div 2 = k * 2 ^ h" by simp
  finally show ?case using Suc by simp
qed

text \<open>
  The weights of the tree nodes are consistent: an inner node weighs as much as its sons, and the
  leaves that stand for no item weigh nothing.
\<close>

definition node_sums :: "nat \<Rightarrow> u32 list \<Rightarrow> bool" where
  "node_sums depth nw \<longleftrightarrow>
     (\<forall>h\<in>{1..depth}. \<forall>k\<in>{0..<2 ^ (depth - h)}.
        let n = (2 * k + 1) * 2 ^ h; d = 2 ^ (h - 1) in
        unat (nw ! n) = unat (nw ! (n - d)) + unat (nw ! (n + d)))"

definition wf_tree :: "crush_bucket \<Rightarrow> u8 \<Rightarrow> u32 list \<Rightarrow> bool" where
  "wf_tree b num_nodes nw \<longleftrightarrow>
     (\<exists>depth\<in>{0..6}. unat num_nodes = 2 ^ Suc depth \<and> length nw = 2 ^ Suc depth \<and>
        length (bucket_items b) \<le> 2 ^ depth \<and> node_sums depth nw \<and> nw ! (2 ^ depth) \<noteq> 0 \<and>
        (\<forall>p\<in>{0..<2 ^ depth}. p \<ge> length (bucket_items b) \<longrightarrow> nw ! (2 * p + 1) = 0))"

lemma scaled_hash_less:
  fixes h w :: u32
  assumes "w \<noteq> 0"
  shows "unat (drop_bit 32 (ucast h * ucast w :: u64)) < unat w"
proof -
  have w: "0 < unat w" using assms by (simp add: unat_gt_0)
  have "unat (drop_bit 32 (ucast h * ucast w :: u64)) = unat h * unat w div 4294967296"
    unfolding unat_drop_bit_eq unat_mult_32_64 by (simp add: drop_bit_eq_div)
  moreover have "unat h * unat w < 4294967296 * unat w"
    using w unat_u32_less [of h] by simp
  ultimately show ?thesis using less_mult_imp_div_less [of "unat h * unat w" "unat w" 4294967296]
    by (simp add: mult.commute)
qed

lemma tree_descend_leaf:
  assumes sums: "node_sums depth nw" and len: "length nw = 2 ^ Suc depth"
    and leaves: "\<And>p. p < 2 ^ depth \<Longrightarrow> length (bucket_items b) \<le> p \<Longrightarrow> nw ! (2 * p + 1) = 0"
    and "h \<le> depth" and "k < 2 ^ (depth - h)" and "h < fuel"
    and "nw ! ((2 * k + 1) * 2 ^ h) \<noteq> 0"
  shows "\<exists>p<length (bucket_items b).
    tree_descend fuel b nw x r ((2 * k + 1) * 2 ^ h) = Ok (2 * p + 1) \<and> nw ! (2 * p + 1) \<noteq> 0"
  using assms(4-)
proof (induction h arbitrary: k fuel)
  case 0
  then obtain f where "fuel = Suc f" by (cases fuel) auto
  moreover have "k < length (bucket_items b)"
    using 0 leaves [of k] by (cases "length (bucket_items b) \<le> k") simp_all
  ultimately show ?case using 0 by (auto simp: terminal_def)
next
  case (Suc h)
  then obtain f where f: "fuel = Suc f" "h < f" by (cases fuel) auto
  let ?n = "(2 * k + 1) * 2 ^ Suc h"
  have split: "(2::nat) ^ (depth - h) = 2 * 2 ^ (depth - Suc h)"
    using Suc.prems(1) by (metis Suc_diff_Suc Suc_le_lessD power_Suc)
  have n: "?n - 2 ^ h = (2 * (2 * k) + 1) * 2 ^ h" "?n + 2 ^ h = (2 * (2 * k + 1) + 1) * 2 ^ h"
    by (simp_all add: algebra_simps)
  have kk: "2 * k < 2 ^ (depth - h)" "2 * k + 1 < 2 ^ (depth - h)"
    using Suc.prems(2) split by linarith+
  have "(2 * (2 * k + 1) + 1) * 2 ^ h < 2 * 2 ^ (depth - h) * 2 ^ h"
    using kk(2) by (intro mult_less_mono1) simp_all
  also have "\<dots> = (2 :: nat) ^ Suc depth" using Suc.prems(1) by (simp flip: power_add)
  finally have hi: "?n + 2 ^ h < 2 ^ Suc depth" unfolding n .
  have height: "height ?n = Ok (Suc h)" by (rule height_odd_multiple) simp
  have sum: "unat (nw ! ?n) = unat (nw ! (?n - 2 ^ h)) + unat (nw ! (?n + 2 ^ h))"
    using sums Suc.prems(1,2) unfolding node_sums_def Let_def by force
  let ?h = "crush_hash32_4 (bucket_hash b) x (of_nat ?n) r (word_of_int (bucket_id b))"
  let ?t = "drop_bit 32 (ucast ?h * ucast (nw ! ?n) :: u64)"
  have t: "unat ?t < unat (nw ! ?n)" using Suc.prems(4) by (rule scaled_hash_less)
  have range: "?n < length nw" "?n - 2 ^ h < length nw"
    using hi len by linarith+
  have step: "tree_descend fuel b nw x r ?n =
      (if ?t < ucast (nw ! (?n - 2 ^ h)) then tree_descend f b nw x r (?n - 2 ^ h)
       else tree_descend f b nw x r (?n + 2 ^ h))"
    unfolding f(1) using range
    by (simp only: tree_descend.simps left_def right_def height bind_outcome.simps aref_in_range
        diff_Suc_1 Let_def terminal_def) simp
  show ?case
  proof (cases "?t < ucast (nw ! (?n - 2 ^ h))")
    case True
    then have "nw ! (?n - 2 ^ h) \<noteq> 0" by (auto simp: word_less_nat_alt)
    then show ?thesis
      unfolding step using True Suc.IH [of "2 * k" f] kk(1) f(2) Suc.prems(1) unfolding n by simp
  next
    case False
    then have "unat (nw ! (?n - 2 ^ h)) \<le> unat ?t" by (simp add: word_less_nat_alt)
    then have "nw ! (?n + 2 ^ h) \<noteq> 0" using t sum by (auto simp: unat_eq_zero)
    then show ?thesis
      unfolding step using False Suc.IH [of "2 * k + 1" f] kk(2) f(2) Suc.prems(1) unfolding n by simp
  qed
qed
lemma bucket_tree_choose_leaf:
  assumes "wf_tree b nn nw"
  shows "\<exists>p<length (bucket_items b). bucket_tree_choose b nn nw x r = Ok (bucket_items b ! p) \<and>
           2 * p + 1 < length nw \<and> nw ! (2 * p + 1) \<noteq> 0"
proof -
  obtain depth where d: "depth \<le> 6" "unat nn = 2 ^ Suc depth" "length nw = 2 ^ Suc depth"
      "node_sums depth nw" "nw ! (2 ^ depth) \<noteq> 0"
      "\<And>p. p < 2 ^ depth \<Longrightarrow> length (bucket_items b) \<le> p \<Longrightarrow> nw ! (2 * p + 1) = 0"
      "length (bucket_items b) \<le> 2 ^ depth"
    using assms by (auto simp: wf_tree_def)
  have root: "unat (drop_bit 1 nn) = 2 ^ depth"
    unfolding unat_drop_bit_eq using d(2) by (simp add: drop_bit_eq_div)
  obtain p where "p < length (bucket_items b)" "tree_descend 9 b nw x r (2 ^ depth) = Ok (2 * p + 1)"
      "nw ! (2 * p + 1) \<noteq> 0"
    using tree_descend_leaf [OF d(4,3,6), of b depth 0 9 x r] d(1,5) by auto
  then show ?thesis
    using d(3,7) by (intro exI [of _ p]) (simp add: bucket_tree_choose_def root del: One_nat_def)
qed

section \<open>The contract of a bucket algorithm\<close>

text \<open>
  What the mapper relies on: on a usable bucket and working space, choosing returns an item of
  the bucket that depends on the bucket, the input and the position only, never on what
  was chosen before, and leaves the working space usable.
\<close>

fun choose_all ::
    "(crush_bucket \<Rightarrow> crush_work_bucket \<Rightarrow> u32 \<Rightarrow> u32 \<Rightarrow> (crush_work_bucket \<times> int) outcome) \<Rightarrow>
     crush_bucket \<Rightarrow> crush_work_bucket \<Rightarrow> (u32 \<times> u32) list \<Rightarrow> (crush_work_bucket \<times> int list) outcome" where
  "choose_all c b w [] = Ok (w, [])"
| "choose_all c b w ((x, r) # xs) =
     bind_outcome (c b w x r) (\<lambda>(w, i).
     bind_outcome (choose_all c b w xs) (\<lambda>(w, is). Ok (w, i # is)))"

locale bucket_chooser =
  fixes usable :: "crush_bucket \<Rightarrow> crush_work_bucket \<Rightarrow> bool"
    and choose_item :: "crush_bucket \<Rightarrow> crush_work_bucket \<Rightarrow> u32 \<Rightarrow> u32 \<Rightarrow> (crush_work_bucket \<times> int) outcome"
    and pick :: "crush_bucket \<Rightarrow> u32 \<Rightarrow> u32 \<Rightarrow> int"
  assumes choose_pick: "usable b w \<Longrightarrow> \<exists>w'. choose_item b w x r = Ok (w', pick b x r) \<and> usable b w'"
    and pick_item: "usable b w \<Longrightarrow> pick b x r \<in> set (bucket_items b)"
begin

lemma choose_all_picks:
  "usable b w \<Longrightarrow>
     \<exists>w'. choose_all choose_item b w xs = Ok (w', map (\<lambda>(x, r). pick b x r) xs) \<and> usable b w'"
proof (induction xs arbitrary: w)
  case (Cons a xs)
  obtain x r where a: "a = (x, r)" by (cases a)
  obtain w1 where w1: "choose_item b w x r = Ok (w1, pick b x r)" "usable b w1"
    using choose_pick [OF Cons.prems] by blast
  with Cons.IH [OF w1(2)] show ?case by (auto simp: a)
qed simp

lemma choose_same:
  assumes "usable b w" and "usable b v" and "choose_item b w x r = Ok (w', i)" and "choose_item b v x r = Ok (v', j)"
  shows "i = j \<and> i \<in> set (bucket_items b) \<and> usable b w'"
  using choose_pick [OF assms(1), of x r] choose_pick [OF assms(2), of x r] pick_item [OF assms(1), of x r]
    assms(3,4) by auto

end

section \<open>Every algorithm meets the contract\<close>

interpretation uniform: bucket_chooser
  "\<lambda>b w. length (bucket_items b) = unat (bucket_size b) \<and> bucket_size b \<noteq> 0 \<and> perm_inv b w"
  bucket_uniform_choose
  "\<lambda>b x r. perm_item b x (unat r mod unat (bucket_size b))"
proof
  fix b w x r
  assume "length (bucket_items b) = unat (bucket_size b) \<and> bucket_size b \<noteq> 0 \<and> perm_inv b w"
  then have b: "length (bucket_items b) = unat (bucket_size b)" "bucket_size b \<noteq> 0" "perm_inv b w" by auto
  show "\<exists>w'. bucket_uniform_choose b w x r = Ok (w', perm_item b x (unat r mod unat (bucket_size b))) \<and>
      length (bucket_items b) = unat (bucket_size b) \<and> bucket_size b \<noteq> 0 \<and> perm_inv b w'"
    using bucket_perm_choose_item [OF b, of x r] b by (simp add: bucket_uniform_choose_def)
  have "unat r mod unat (bucket_size b) < unat (bucket_size b)" using b(2) by (simp add: unat_gt_0)
  then show "perm_item b x (unat r mod unat (bucket_size b)) \<in> set (bucket_items b)"
    using b(1) shuffle_entry [of "unat (bucket_size b)" b "unat r mod unat (bucket_size b)" x]
    by (simp add: perm_item_def)
qed

text \<open>The working space matters to permutations only: every other algorithm passes it through.\<close>

definition pure_choice :: "(crush_bucket \<Rightarrow> u32 \<Rightarrow> u32 \<Rightarrow> int outcome) \<Rightarrow>
    crush_bucket \<Rightarrow> crush_work_bucket \<Rightarrow> u32 \<Rightarrow> u32 \<Rightarrow> (crush_work_bucket \<times> int) outcome" where
  "pure_choice f b w x r = bind_outcome (f b x r) (\<lambda>item. Ok (w, item))"

definition pure_pick :: "(crush_bucket \<Rightarrow> u32 \<Rightarrow> u32 \<Rightarrow> int outcome) \<Rightarrow> crush_bucket \<Rightarrow> u32 \<Rightarrow> u32 \<Rightarrow> int" where
  "pure_pick f b x r = (case f b x r of Ok i \<Rightarrow> i | _ \<Rightarrow> 0)"

lemma pure_bucket_chooser:
  assumes "\<And>b w x r. usable b w \<Longrightarrow> \<exists>item\<in>set (bucket_items b). f b x r = Ok item"
  shows "bucket_chooser usable (pure_choice f) (pure_pick f)"
proof
  fix b w x r assume "usable b w"
  with assms [of b w x r] obtain item where "item \<in> set (bucket_items b)" "f b x r = Ok item" by auto
  with \<open>usable b w\<close> show "\<exists>w'. pure_choice f b w x r = Ok (w', pure_pick f b x r) \<and> usable b w'"
    and "pure_pick f b x r \<in> set (bucket_items b)"
    by (simp_all add: pure_choice_def pure_pick_def)
qed

text \<open>Which buckets and weight overrides an algorithm is safe on.\<close>

definition wf_choose_arg :: "crush_bucket \<Rightarrow> crush_choose_arg option \<Rightarrow> bool" where
  "wf_choose_arg b arg \<longleftrightarrow>
     (case arg of None \<Rightarrow> True
      | Some a \<Rightarrow>
          (case arg_ids a of None \<Rightarrow> True | Some ids \<Rightarrow> length ids = unat (bucket_size b)) \<and>
          (case arg_weight_set a of None \<Rightarrow> True
           | Some ws \<Rightarrow> ws \<noteq> [] \<and> list_all (\<lambda>w. length w = unat (bucket_size b)) ws))"

definition wf_alg :: "crush_bucket \<Rightarrow> bool" where
  "wf_alg b \<longleftrightarrow>
     (case bucket_alg b of
        CRUSH_BUCKET_UNIFORM _ \<Rightarrow> True
      | CRUSH_BUCKET_LIST iw sw \<Rightarrow> length iw = unat (bucket_size b) \<and> length sw = unat (bucket_size b)
      | CRUSH_BUCKET_TREE nn nw \<Rightarrow> wf_tree b nn nw
      | CRUSH_BUCKET_STRAW _ straws \<Rightarrow> length straws = unat (bucket_size b)
      | CRUSH_BUCKET_STRAW2 iw \<Rightarrow> length iw = unat (bucket_size b)
      | CRUSH_BUCKET_OTHER _ \<Rightarrow> True)"

definition wf_bucket :: "crush_bucket \<Rightarrow> bool" where
  "wf_bucket b \<longleftrightarrow>
     bucket_size b \<noteq> 0 \<and> length (bucket_items b) = unat (bucket_size b) \<and> wf_alg b"

lemma choose_arg_weights_Ok:
  assumes "length iw = unat (bucket_size b)" and "wf_choose_arg b arg"
  shows "\<exists>ws. get_choose_arg_weights iw arg position = Ok ws \<and> length ws = unat (bucket_size b)"
  using assms
  by (auto simp: get_choose_arg_weights_def wf_choose_arg_def aref_def list_all_iff Let_def
      split: option.splits)

lemma choose_arg_ids_length:
  assumes "length (bucket_items b) = unat (bucket_size b)" and "wf_choose_arg b arg"
  shows "length (get_choose_arg_ids b arg) = unat (bucket_size b)"
  using assms by (auto simp: get_choose_arg_ids_def wf_choose_arg_def split: option.splits)

lemma bucket_straw2_choose_item:
  assumes "wf_bucket b" and "length iw = unat (bucket_size b)" and "wf_choose_arg b arg"
  obtains ws p where "get_choose_arg_weights iw arg position = Ok ws"
    and "p < length (bucket_items b)"
    and "bucket_straw2_choose b iw x r arg position = Ok (bucket_items b ! p)"
    and "(\<exists>w\<in>set ws. w \<noteq> 0) \<longrightarrow> ws ! p \<noteq> 0"
proof -
  have b: "bucket_size b \<noteq> 0" "length (bucket_items b) = unat (bucket_size b)"
    using assms(1) by (simp_all add: wf_bucket_def)
  obtain ws where ws: "get_choose_arg_weights iw arg position = Ok ws" "length ws = unat (bucket_size b)"
    using choose_arg_weights_Ok [OF assms(2,3)] by blast
  obtain p where p: "p < unat (bucket_size b)"
    "straw2_loop b ws (get_choose_arg_ids b arg) x r 0 0 0 = Ok p"
    "(\<exists>j<unat (bucket_size b). ws ! j \<noteq> 0) \<longrightarrow> ws ! p \<noteq> 0"
    using straw2_loop_position [OF ws(2) choose_arg_ids_length [OF b(2) assms(3)] b(1), of 0 0 0 x r]
    by auto
  show thesis
  proof (rule that)
    show "bucket_straw2_choose b iw x r arg position = Ok (bucket_items b ! p)"
      using ws(1) p b(2) by (simp add: bucket_straw2_choose_def)
    show "(\<exists>w\<in>set ws. w \<noteq> 0) \<longrightarrow> ws ! p \<noteq> 0" using p(3) ws(2) by (simp add: set_conv_nth) blast
  qed (use ws p b in simp_all)
qed

definition usable_bucket :: "crush_choose_arg option \<Rightarrow> crush_bucket \<Rightarrow> crush_work_bucket \<Rightarrow> bool" where
  "usable_bucket arg b w \<longleftrightarrow> wf_bucket b \<and> wf_choose_arg b arg \<and> perm_inv b w"

definition alg_choose :: "crush_choose_arg option \<Rightarrow> nat \<Rightarrow> crush_bucket \<Rightarrow> u32 \<Rightarrow> u32 \<Rightarrow> int outcome" where
  "alg_choose arg position b x r =
     (case bucket_alg b of
        CRUSH_BUCKET_UNIFORM _ \<Rightarrow> Ok (perm_item b x (unat r mod unat (bucket_size b)))
      | CRUSH_BUCKET_LIST iw sw \<Rightarrow> bucket_list_choose b iw sw x r
      | CRUSH_BUCKET_TREE nn nw \<Rightarrow> bucket_tree_choose b nn nw x r
      | CRUSH_BUCKET_STRAW _ straws \<Rightarrow> bucket_straw_choose b straws x r
      | CRUSH_BUCKET_STRAW2 iw \<Rightarrow> bucket_straw2_choose b iw x r arg position
      | CRUSH_BUCKET_OTHER _ \<Rightarrow> aref (bucket_items b) 0)"

lemma alg_choose_item:
  assumes "wf_bucket b" and "wf_choose_arg b arg"
  shows "\<exists>item\<in>set (bucket_items b). alg_choose arg position b x r = Ok item"
proof -
  have b: "bucket_size b \<noteq> 0" "length (bucket_items b) = unat (bucket_size b)" "wf_alg b"
    using assms(1) by (simp_all add: wf_bucket_def)
  then have sz: "0 < unat (bucket_size b)" by (simp add: unat_gt_0)
  then have ne: "bucket_items b \<noteq> []" using b(2) by auto
  show ?thesis
  proof (cases "bucket_alg b")
    case (CRUSH_BUCKET_UNIFORM w)
    have "perm_inv b \<lparr>perm_x = 0, perm_n = 0, perm = replicate (unat (bucket_size b)) 0\<rparr>"
      by (simp add: perm_inv_def)
    then show ?thesis
      using uniform.pick_item [of b _ x r] b CRUSH_BUCKET_UNIFORM by (simp add: alg_choose_def)
  next
    case (CRUSH_BUCKET_LIST iw sw)
    then show ?thesis
      using b list_choose_loop_item [OF ne, of "unat (bucket_size b)" iw sw x r]
      by (simp add: alg_choose_def bucket_list_choose_def wf_alg_def)
  next
    case (CRUSH_BUCKET_TREE nn nw)
    then show ?thesis using b bucket_tree_choose_leaf [of b nn nw x r]
      by (auto simp: alg_choose_def wf_alg_def)
  next
    case (CRUSH_BUCKET_STRAW iw straws)
    then show ?thesis
      using b straw_loop_position [OF b(2) _ sz, of straws x r 0 0]
      by (auto simp: alg_choose_def wf_alg_def bucket_straw_choose_def)
  next
    case (CRUSH_BUCKET_STRAW2 iw)
    then have iw: "length iw = unat (bucket_size b)" using b by (simp add: wf_alg_def)
    show ?thesis
      by (rule bucket_straw2_choose_item [OF assms(1) iw assms(2), of position x r])
        (use CRUSH_BUCKET_STRAW2 in \<open>simp add: alg_choose_def\<close>)
  next
    case (CRUSH_BUCKET_OTHER a)
    then show ?thesis using ne by (simp add: alg_choose_def)
  qed
qed

interpretation dispatch: bucket_chooser "usable_bucket arg"
  "\<lambda>b w x r. crush_bucket_choose b w x r arg position" "pure_pick (alg_choose arg position)"
proof
  fix b w x r
  assume u: "usable_bucket arg b w"
  then have b: "wf_bucket b" "wf_choose_arg b arg" "perm_inv b w" "bucket_size b \<noteq> 0"
    "length (bucket_items b) = unat (bucket_size b)" by (simp_all add: usable_bucket_def wf_bucket_def)
  obtain i where i: "i \<in> set (bucket_items b)" "alg_choose arg position b x r = Ok i"
    using alg_choose_item [OF b(1,2)] by blast
  then have pick: "pure_pick (alg_choose arg position) b x r = i" by (simp add: pure_pick_def)
  then show "pure_pick (alg_choose arg position) b x r \<in> set (bucket_items b)" using i by simp
  show "\<exists>w'. crush_bucket_choose b w x r arg position =
      Ok (w', pure_pick (alg_choose arg position) b x r) \<and> usable_bucket arg b w'"
  proof (cases "\<exists>w. bucket_alg b = CRUSH_BUCKET_UNIFORM w")
    case True
    then show ?thesis
      using uniform.choose_pick [of b w x r] b i(2)
      by (auto simp: pick crush_bucket_choose_def usable_bucket_def alg_choose_def)
  next
    case False
    then have "crush_bucket_choose b w x r arg position = Ok (w, i)"
      using b(4) i(2)
      by (auto simp: crush_bucket_choose_def alg_choose_def split: crush_bucket_alg.splits)
    then show ?thesis using u pick by simp
  qed
qed
section \<open>Properties\<close>

text \<open>
  C26: The permutation that a uniform bucket caches in its working space is transparent: from a
  fresh working space, any sequence of choices, with changing inputs and positions, returns items
  that are a fixed function of the input and of the position modulo the bucket size, and for every
  input the positions below the size enumerate the items of the bucket, each exactly as
  often as the bucket holds it.
\<close>

theorem bucket_perm_choose_enumerates:
  assumes "length (bucket_items b) = unat (bucket_size b)" and "bucket_size b \<noteq> 0"
    and "perm_n w = 0" and "length (perm w) = unat (bucket_size b)"
  shows "\<exists>f. (\<forall>reqs. \<exists>w'. choose_all bucket_perm_choose b w reqs =
             Ok (w', map (\<lambda>(x, r). f x (unat r mod unat (bucket_size b))) reqs)) \<and>
           (\<forall>x. mset (map (f x) [0..<unat (bucket_size b)]) = mset (bucket_items b))"
proof -
  have "bucket_uniform_choose = bucket_perm_choose" by (simp add: fun_eq_iff bucket_uniform_choose_def)
  moreover have "perm_inv b w" using assms(3,4) by (simp add: perm_inv_def)
  ultimately have "\<exists>w'. choose_all bucket_perm_choose b w reqs =
      Ok (w', map (\<lambda>(x, r). perm_item b x (unat r mod unat (bucket_size b))) reqs)" for reqs
    using uniform.choose_all_picks [of b w reqs] assms(1,2) by auto
  then show ?thesis using mset_perm_items [OF assms(1)] by blast
qed

definition three_items :: crush_bucket where
  "three_items = \<lparr>bucket_id = - 1, bucket_type = 1, bucket_alg = CRUSH_BUCKET_UNIFORM 0x10000,
     bucket_hash = 0, bucket_weight = 0x30000, bucket_size = 3, bucket_items = [4, 5, 6]\<rparr>"

definition fresh_work :: crush_work_bucket where
  "fresh_work = \<lparr>perm_x = 0, perm_n = 0, perm = [0, 0, 0]\<rparr>"

theorem bucket_perm_choose_enumerates_witness:
  "\<exists>f. (\<forall>reqs. \<exists>w'. choose_all bucket_perm_choose three_items fresh_work reqs =
           Ok (w', map (\<lambda>(x, r). f x (unat r mod 3)) reqs)) \<and>
         (\<forall>x. mset (map (f x) [0..<3]) = mset [4, 5, 6])"
proof -
  have b: "bucket_items three_items = [4, 5, 6]" "unat (bucket_size three_items) = 3"
    "bucket_size three_items \<noteq> 0" "perm_n fresh_work = 0" "length (perm fresh_work) = 3"
    by (simp_all add: three_items_def fresh_work_def)
  have "length (bucket_items three_items) = unat (bucket_size three_items)"
    "length (perm fresh_work) = unat (bucket_size three_items)"
    unfolding b by simp_all
  from bucket_perm_choose_enumerates [OF this(1) b(3,4) this(2)] show ?thesis unfolding b .
qed

text \<open>
  C27: Dispatching to the algorithm of a well-formed bucket always returns an item of that
  bucket, for every algorithm, weight override and position; the item does not depend on
  what the working space has cached, and the working space stays usable for the next call.
\<close>

theorem crush_bucket_choose_deterministic:
  assumes "usable_bucket arg b w" and "usable_bucket arg b v"
  shows "\<exists>item\<in>set (bucket_items b). \<exists>w' v'.
           crush_bucket_choose b w x r arg position = Ok (w', item) \<and>
           crush_bucket_choose b v x r arg position = Ok (v', item) \<and> usable_bucket arg b w'"
  using dispatch.choose_pick [OF assms(1), of x r position]
    dispatch.choose_pick [OF assms(2), of x r position]
    dispatch.pick_item [OF assms(1), of position x r] by blast

theorem crush_bucket_choose_deterministic_witness:
  "\<exists>item\<in>{4, 5, 6}. \<exists>w' v'.
     crush_bucket_choose three_items fresh_work 11 2 None 0 = Ok (w', item) \<and>
     crush_bucket_choose three_items (fresh_work\<lparr>perm := [7, 8, 9]\<rparr>) 11 2 None 0 = Ok (v', item)"
  using crush_bucket_choose_deterministic
    [of None three_items fresh_work "fresh_work\<lparr>perm := [7, 8, 9]\<rparr>" 11 2 0]
  by (auto simp: usable_bucket_def wf_bucket_def wf_alg_def wf_choose_arg_def perm_inv_def
      three_items_def fresh_work_def)

text \<open>
  C28: A straw2 bucket never chooses an item whose weight (in the weight set in force) is zero
  as long as one of its items has a weight: the draw of a weighted item is always above
  \<open>S64_MIN\<close>, because the fixed-point logarithm stays in its range.
\<close>

theorem bucket_straw2_choose_weighted:
  assumes "wf_bucket b" and "bucket_alg b = CRUSH_BUCKET_STRAW2 iw" and "wf_choose_arg b arg"
    and "get_choose_arg_weights iw arg position = Ok ws" and "\<exists>w\<in>set ws. w \<noteq> 0"
  shows "\<exists>p<length (bucket_items b).
           bucket_straw2_choose b iw x r arg position = Ok (bucket_items b ! p) \<and> ws ! p \<noteq> 0"
proof -
  have "length iw = unat (bucket_size b)" using assms(1,2) by (simp add: wf_bucket_def wf_alg_def)
  then show ?thesis
    by (rule bucket_straw2_choose_item [OF assms(1) _ assms(3), of iw position x r])
      (use assms(4,5) in auto)
qed

definition straw2_items :: crush_bucket where
  "straw2_items = three_items\<lparr>bucket_alg := CRUSH_BUCKET_STRAW2 [0, 0x10000, 0]\<rparr>"

theorem bucket_straw2_choose_weighted_witness:
  "bucket_straw2_choose straw2_items [0, 0x10000, 0] 17 1 None 0 = Ok 5"
proof -
  have "\<exists>p<length (bucket_items straw2_items).
      bucket_straw2_choose straw2_items [0, 0x10000, 0] 17 1 None 0 = Ok (bucket_items straw2_items ! p) \<and>
      [0, 0x10000, 0 :: u32] ! p \<noteq> 0"
    by (rule bucket_straw2_choose_weighted)
      (simp_all add: straw2_items_def three_items_def wf_bucket_def wf_alg_def wf_choose_arg_def
        get_choose_arg_weights_def)
  then show ?thesis
    by (auto simp: straw2_items_def three_items_def less_Suc_eq numeral_3_eq_3)
qed

text \<open>
  On a tree bucket with consistent node weights and a positive total, the descent stops
  after at most eight steps at the leaf of an item of the bucket whose weight is positive; the
  weight is the one that \<open>crush_get_bucket_item_weight\<close> reports.
\<close>

theorem bucket_tree_choose_weighted:
  assumes "bucket_alg b = CRUSH_BUCKET_TREE nn nw" and "wf_bucket b"
  shows "\<exists>p<bucket_size b. \<exists>w. bucket_tree_choose b nn nw x r = Ok (bucket_items b ! unat p) \<and>
           crush_get_bucket_item_weight b p = Ok w \<and> w \<noteq> 0"
proof -
  have b: "wf_tree b nn nw" "length (bucket_items b) = unat (bucket_size b)"
    using assms by (simp_all add: wf_bucket_def wf_alg_def)
  obtain p where p: "p < length (bucket_items b)" "bucket_tree_choose b nn nw x r = Ok (bucket_items b ! p)"
    "2 * p + 1 < length nw" "nw ! (2 * p + 1) \<noteq> 0"
    using bucket_tree_choose_leaf [OF b(1)] by blast
  have u: "unat (of_nat p :: u32) = p"
    using p(1) b(2) unat_u32_less [of "bucket_size b"] by (simp add: unat_of_nat)
  moreover have "crush_calc_tree_node p = 2 * p + 1" by (simp add: crush_calc_tree_node_def)
  moreover have "of_nat p < bucket_size b" using p(1) b(2) u by (simp add: word_less_nat_alt)
  ultimately show ?thesis
    using p assms(1) by (intro exI [of _ "of_nat p"]) (simp add: crush_get_bucket_item_weight_def)
qed

definition tree_items :: "u32 list \<Rightarrow> crush_bucket" where
  "tree_items nw = three_items\<lparr>bucket_alg := CRUSH_BUCKET_TREE 8 nw\<rparr>"

theorem bucket_tree_choose_weighted_witness:
  "\<exists>p<3. \<exists>w. bucket_tree_choose (tree_items [0, 1, 3, 2, 7, 4, 4, 0]) 8 [0, 1, 3, 2, 7, 4, 4, 0] 5 1 =
       Ok ([4, 5, 6] ! unat p) \<and>
     crush_get_bucket_item_weight (tree_items [0, 1, 3, 2, 7, 4, 4, 0]) p = Ok w \<and> w \<noteq> 0"
proof -
  have "wf_bucket (tree_items [0, 1, 3, 2, 7, 4, 4, 0])" by code_simp
  then show ?thesis
    using bucket_tree_choose_weighted [of "tree_items [0, 1, 3, 2, 7, 4, 4, 0]" 8 "[0, 1, 3, 2, 7, 4, 4, 0]" 5 1]
    by (simp add: tree_items_def three_items_def)
qed

text \<open>
  Without a positive total weight the descent of a tree bucket always turns right and
  reads past the items: three items of weight zero need a tree of four leaves, and the
  descent reaches the fourth.
\<close>

theorem bucket_tree_choose_weightless_overrun:
  "bucket_tree_choose (tree_items (replicate 8 0)) 8 (replicate 8 0) x r = Oops Bad_Access"
proof -
  have h: "height 4 = Ok 2" "height 6 = Ok 1"
    using height_odd_multiple [of 1 2] height_odd_multiple [of 3 1] by simp_all
  have zero: "aref (replicate 8 (0 :: u32)) n = Ok 0" if "n < 8" for n
    using that by simp
  have turn: "tree_descend (Suc f) b (replicate 8 0) x r 4 = tree_descend f b (replicate 8 0) x r 6"
    "tree_descend (Suc f) b (replicate 8 0) x r 6 = tree_descend f b (replicate 8 0) x r 7"
    "tree_descend (Suc f) b (replicate 8 0) x r 7 = Ok 7" for f b
    by (simp_all add: terminal_def left_def right_def h zero)
  have "(9 :: nat) = Suc (Suc (Suc 6))" by simp
  then have "tree_descend 9 b (replicate 8 0) x r 4 = Ok 7" for b
    by (simp only: turn)
  moreover have "unat (drop_bit 1 (8 :: u8)) = 4" by code_simp
  moreover have "length (bucket_items (tree_items (replicate 8 0))) = 3"
    by (simp add: tree_items_def three_items_def)
  ultimately show ?thesis by (simp add: bucket_tree_choose_def aref_def del: One_nat_def)
qed
end
