(* ===== verification/CrushChoose.thy ===== *)
theory CrushChoose
  imports CrushBuckets
begin

text \<open>
  The placement functions of \<open>libceph/crush/mapper.c\<close>: \<open>is_out\<close>, \<open>crush_choose_firstn\<close>,
  \<open>crush_choose_indep\<close> and \<open>crush_do_rule\<close>.

  What a placement reads and never changes is a \<open>choose_env\<close>; the working space is threaded
  through the calls; the vectors \<open>out\<close> and \<open>out2\<close> are lists, \<open>out2\<close> being \<open>None\<close> where the code
  passes NULL. The loops \<open>do { ... } while (retry_bucket)\<close> and \<open>for (;;)\<close> follow the edges of the map
  and take a fuel, whose end is the outcome \<open>Oops No_Fuel\<close>: on a map with a cycle they need not end.
\<close>

unbundle bit_operations_syntax

section \<open>Environment\<close>

record choose_env =
  env_map :: crush_map
  env_weight :: "u32 list"
  env_weight_max :: int
  env_x :: u32
  env_choose_args :: "crush_choose_arg list option"

definition is_out :: "choose_env \<Rightarrow> int \<Rightarrow> bool outcome" where
  "is_out e item =
     (if item \<ge> env_weight_max e then Ok True
      else if item < 0 then Oops Bad_Access
      else bind_outcome (aref (env_weight e) (nat item)) (\<lambda>w.
        if w \<ge> 0x10000 then Ok False
        else if w = 0 then Ok True
        else if crush_hash32_2 CRUSH_HASH_RJENKINS1 (env_x e) (word_of_int item) AND 0xffff < w then Ok False
        else Ok True))"

text \<open>The working space slot \<open>work->work[-1-in->id]\<close>, read, used and written back.\<close>

definition with_work ::
    "crush_work \<Rightarrow> crush_bucket \<Rightarrow> (crush_work_bucket \<Rightarrow> (crush_work_bucket \<times> int) outcome) \<Rightarrow>
     (crush_work \<times> int) outcome" where
  "with_work work b f =
     (let k = - 1 - bucket_id b in
      if k < 0 then Oops Bad_Access
      else bind_outcome (aref work (nat k)) (\<lambda>slot.
        case slot of
          None \<Rightarrow> Oops Bad_Access
        | Some wb \<Rightarrow> bind_outcome (f wb) (\<lambda>(wb, item). Ok (work[nat k := Some wb], item))))"

text \<open>The argument \<open>choose_args ? &choose_args[-1-in->id] : NULL\<close>.\<close>

definition choose_arg_of :: "choose_env \<Rightarrow> crush_bucket \<Rightarrow> crush_choose_arg option outcome" where
  "choose_arg_of e b =
     (case env_choose_args e of
        None \<Rightarrow> Ok None
      | Some args \<Rightarrow>
          if - 1 - bucket_id b < 0 then Oops Bad_Access
          else bind_outcome (aref args (nat (- 1 - bucket_id b))) (\<lambda>a. Ok (Some a)))"

definition choose_in ::
    "choose_env \<Rightarrow> crush_work \<Rightarrow> crush_bucket \<Rightarrow> u32 \<Rightarrow> nat \<Rightarrow> (crush_work \<times> int) outcome" where
  "choose_in e work b r position =
     bind_outcome (choose_arg_of e b) (\<lambda>arg.
       with_work work b (\<lambda>wb. crush_bucket_choose b wb (env_x e) r arg position))"

text \<open>The type of an item: that of the bucket it names, or zero for a device.\<close>

definition item_type :: "choose_env \<Rightarrow> int \<Rightarrow> int outcome" where
  "item_type e item =
     (if item < 0 then bind_outcome (get_bucket (env_map e) (- 1 - item)) (\<lambda>b. Ok (uint (bucket_type b)))
      else Ok 0)"

section \<open>Depth-first placement\<close>

record firstn_args =
  fa_numrep :: int
  fa_type :: int
  fa_tries :: u32
  fa_recurse_tries :: u32
  fa_local_retries :: u32
  fa_local_fallback_retries :: u32
  fa_recurse_to_leaf :: bool
  fa_vary_r :: u32
  fa_stable :: u32
  fa_parent_r :: u32

text \<open>
  A leaf chooser takes the working space, a bucket, \<open>out2\<close>, \<open>outpos\<close>, \<open>count\<close> and \<open>sub_r\<close>, and
  returns the working space, \<open>out2\<close> and the new position.
\<close>

type_synonym leaf_chooser =
  "crush_work \<Rightarrow> crush_bucket \<Rightarrow> int list \<Rightarrow> nat \<Rightarrow> int \<Rightarrow> u32 \<Rightarrow> (crush_work \<times> int list \<times> nat) outcome"

text \<open>How one iteration of the inner loop ends.\<close>

datatype attempt =
    Skip_Rep
  | Got int
  | Retry_Bucket crush_bucket u32 u32
  | Retry_Descent u32

text \<open>The code after the label \<open>reject\<close>, for a rejected or colliding item.\<close>

definition firstn_reject :: "firstn_args \<Rightarrow> crush_bucket \<Rightarrow> bool \<Rightarrow> u32 \<Rightarrow> u32 \<Rightarrow> attempt" where
  "firstn_reject a b collide ftotal flocal =
     (let ftotal = ftotal + 1; flocal = flocal + 1 in
      if collide \<and> flocal \<le> fa_local_retries a then Retry_Bucket b ftotal flocal
      else if fa_local_fallback_retries a > 0 \<and> flocal \<le> bucket_size b + fa_local_fallback_retries a
        then Retry_Bucket b ftotal flocal
      else if ftotal < fa_tries a then Retry_Descent ftotal
      else Skip_Rep)"

definition firstn_pick ::
    "choose_env \<Rightarrow> firstn_args \<Rightarrow> crush_work \<Rightarrow> crush_bucket \<Rightarrow> u32 \<Rightarrow> nat \<Rightarrow> u32 \<Rightarrow> (crush_work \<times> int) outcome" where
  "firstn_pick e a work b r outpos flocal =
     (if fa_local_fallback_retries a > 0 \<and> flocal \<ge> drop_bit 1 (bucket_size b) \<and>
         flocal > fa_local_fallback_retries a
      then with_work work b (\<lambda>wb. bucket_perm_choose b wb (env_x e) r)
      else choose_in e work b r outpos)"

text \<open>The part of an iteration that finds a leaf below the item: whether it rejects the item.\<close>

definition firstn_leaf ::
    "choose_env \<Rightarrow> firstn_args \<Rightarrow> leaf_chooser \<Rightarrow> crush_work \<Rightarrow> int list option \<Rightarrow> nat \<Rightarrow> int \<Rightarrow> u32 \<Rightarrow> bool \<Rightarrow> int \<Rightarrow>
     (crush_work \<times> int list option \<times> bool) outcome" where
  "firstn_leaf e a leaf work out2 outpos cnt r collide item =
     (if \<not> collide \<and> fa_recurse_to_leaf a then
        (case out2 of
           None \<Rightarrow> Oops Bad_Access
         | Some o2 \<Rightarrow>
             if item < 0 then
               bind_outcome
                 (if fa_vary_r a = 0 then Ok 0
                  else if unat (fa_vary_r a - 1) \<ge> 32 then Oops Bad_Shift
                  else Ok (signed_drop_bit (unat (fa_vary_r a - 1)) r)) (\<lambda>sub_r.
               bind_outcome (get_bucket (env_map e) (- 1 - item)) (\<lambda>b.
               bind_outcome (leaf work b o2 outpos cnt sub_r) (\<lambda>(work, o2, pos).
                 Ok (work, Some o2, pos \<le> outpos))))
             else bind_outcome (aset o2 outpos item) (\<lambda>o2. Ok (work, Some o2, False)))
      else Ok (work, out2, False))"

definition firstn_try ::
    "choose_env \<Rightarrow> firstn_args \<Rightarrow> leaf_chooser \<Rightarrow> crush_work \<Rightarrow> int list \<Rightarrow> int list option \<Rightarrow> nat \<Rightarrow> int \<Rightarrow> nat \<Rightarrow>
     crush_bucket \<Rightarrow> u32 \<Rightarrow> u32 \<Rightarrow> (crush_work \<times> int list option \<times> attempt) outcome" where
  "firstn_try e a leaf work out out2 outpos cnt rep b ftotal flocal =
     (let r = of_nat rep + fa_parent_r a + ftotal in
      if bucket_size b = 0 then Ok (work, out2, firstn_reject a b False ftotal flocal)
      else
        bind_outcome (firstn_pick e a work b r outpos flocal) (\<lambda>(work, item).
        if item \<ge> max_devices (env_map e) then Ok (work, out2, Skip_Rep)
        else
          bind_outcome (item_type e item) (\<lambda>itemtype.
          if itemtype \<noteq> fa_type a then
            if item \<ge> 0 \<or> - 1 - item \<ge> max_buckets (env_map e) then Ok (work, out2, Skip_Rep)
            else bind_outcome (get_bucket (env_map e) (- 1 - item)) (\<lambda>child.
                   Ok (work, out2, Retry_Bucket child ftotal flocal))
          else if length out < outpos then Oops Bad_Access
          else
            let collide = (item \<in> set (take outpos out)) in
            bind_outcome (firstn_leaf e a leaf work out2 outpos cnt r collide item) (\<lambda>(work, out2, reject).
            bind_outcome
              (if \<not> reject \<and> \<not> collide \<and> itemtype = 0 then is_out e item else Ok reject) (\<lambda>reject.
              if reject \<or> collide then Ok (work, out2, firstn_reject a b collide ftotal flocal)
              else Ok (work, out2, Got item))))))"

text \<open>The two retry loops; \<open>None\<close> is a replica given up (\<open>skip_rep\<close>).\<close>

fun firstn_tries ::
    "nat \<Rightarrow> choose_env \<Rightarrow> firstn_args \<Rightarrow> leaf_chooser \<Rightarrow> crush_work \<Rightarrow> crush_bucket \<Rightarrow> int list \<Rightarrow> int list option \<Rightarrow>
     nat \<Rightarrow> int \<Rightarrow> nat \<Rightarrow> crush_bucket \<Rightarrow> u32 \<Rightarrow> u32 \<Rightarrow> (crush_work \<times> int list option \<times> int option) outcome" where
  "firstn_tries 0 e a leaf work bucket out out2 outpos cnt rep b ftotal flocal = Oops No_Fuel"
| "firstn_tries (Suc fuel) e a leaf work bucket out out2 outpos cnt rep b ftotal flocal =
     bind_outcome (firstn_try e a leaf work out out2 outpos cnt rep b ftotal flocal) (\<lambda>(work, out2, t).
       case t of
         Skip_Rep \<Rightarrow> Ok (work, out2, None)
       | Got item \<Rightarrow> Ok (work, out2, Some item)
       | Retry_Bucket b ftotal flocal \<Rightarrow>
           firstn_tries fuel e a leaf work bucket out out2 outpos cnt rep b ftotal flocal
       | Retry_Descent ftotal \<Rightarrow>
           firstn_tries fuel e a leaf work bucket out out2 outpos cnt rep bucket ftotal 0)"

text \<open>The loop over the replicas.\<close>

function firstn_reps ::
    "nat \<Rightarrow> choose_env \<Rightarrow> firstn_args \<Rightarrow> leaf_chooser \<Rightarrow> crush_work \<Rightarrow> crush_bucket \<Rightarrow> int list \<Rightarrow> int list option \<Rightarrow>
     nat \<Rightarrow> int \<Rightarrow> nat \<Rightarrow> (crush_work \<times> int list \<times> int list option \<times> nat) outcome" where
  "firstn_reps fuel e a leaf work bucket out out2 outpos cnt rep =
     (if int rep < fa_numrep a \<and> cnt > 0 then
        bind_outcome (firstn_tries fuel e a leaf work bucket out out2 outpos cnt rep bucket 0 0)
          (\<lambda>(work, out2, got).
             case got of
               None \<Rightarrow> firstn_reps fuel e a leaf work bucket out out2 outpos cnt (Suc rep)
             | Some item \<Rightarrow>
                 bind_outcome (aset out outpos item) (\<lambda>out.
                   firstn_reps fuel e a leaf work bucket out out2 (Suc outpos) (cnt - 1) (Suc rep)))
      else Ok (work, out, out2, outpos))"
  by pat_completeness auto
termination
  by (relation "measure (\<lambda>(fuel, e, a, leaf, work, bucket, out, out2, outpos, cnt, rep).
        nat (fa_numrep a - int rep))") auto

declare firstn_reps.simps [simp del]

text \<open>
  The function itself, by the depth of its recursion: the call for a leaf has
  \<open>recurse_to_leaf = 0\<close>, so no call is nested deeper than two.
\<close>

fun firstn_at ::
    "nat \<Rightarrow> nat \<Rightarrow> choose_env \<Rightarrow> firstn_args \<Rightarrow> crush_work \<Rightarrow> crush_bucket \<Rightarrow> int list \<Rightarrow> nat \<Rightarrow> int \<Rightarrow>
     int list option \<Rightarrow> (crush_work \<times> int list \<times> int list option \<times> nat) outcome" where
  "firstn_at 0 fuel e a work bucket out outpos out_size out2 = Oops No_Fuel"
| "firstn_at (Suc depth) fuel e a work bucket out outpos out_size out2 =
     firstn_reps fuel e a
       (\<lambda>work b o2 outpos cnt sub_r.
          bind_outcome
            (firstn_at depth fuel e
               \<lparr>fa_numrep = (if fa_stable a \<noteq> 0 then 1 else int outpos + 1), fa_type = 0,
                fa_tries = fa_recurse_tries a, fa_recurse_tries = 0,
                fa_local_retries = fa_local_retries a,
                fa_local_fallback_retries = fa_local_fallback_retries a,
                fa_recurse_to_leaf = False, fa_vary_r = fa_vary_r a, fa_stable = fa_stable a,
                fa_parent_r = sub_r\<rparr>
               work b o2 outpos cnt None)
            (\<lambda>(work, o2, _, pos). Ok (work, o2, pos)))
       work bucket out out2 outpos out_size (if fa_stable a \<noteq> 0 then 0 else outpos)"

definition crush_choose_firstn ::
    "nat \<Rightarrow> choose_env \<Rightarrow> firstn_args \<Rightarrow> crush_work \<Rightarrow> crush_bucket \<Rightarrow> int list \<Rightarrow> nat \<Rightarrow> int \<Rightarrow>
     int list option \<Rightarrow> (crush_work \<times> int list \<times> int list option \<times> nat) outcome" where
  "crush_choose_firstn fuel e a work bucket out outpos out_size out2 =
     firstn_at 2 fuel e a work bucket out outpos out_size out2"

section \<open>Breadth-first placement\<close>

record indep_args =
  ia_numrep :: int
  ia_type :: int
  ia_tries :: u32
  ia_recurse_tries :: u32
  ia_recurse_to_leaf :: bool
  ia_parent_r :: u32

text \<open>What the loops of \<open>crush_choose_indep\<close> change.\<close>

record indep_state =
  is_work :: crush_work
  is_out1 :: "int list"
  is_out2 :: "int list option"
  is_left :: int

text \<open>Writing a value to \<open>out2[rep]\<close> if there is an \<open>out2\<close>.\<close>

definition set_out2 :: "nat \<Rightarrow> int \<Rightarrow> indep_state \<Rightarrow> indep_state outcome" where
  "set_out2 rep v s =
     (case is_out2 s of
        None \<Rightarrow> Ok s
      | Some o2 \<Rightarrow> bind_outcome (aset o2 rep v) (\<lambda>o2. Ok (s\<lparr>is_out2 := Some o2\<rparr>)))"

definition set_out :: "nat \<Rightarrow> int \<Rightarrow> indep_state \<Rightarrow> indep_state outcome" where
  "set_out rep v s = bind_outcome (aset (is_out1 s) rep v) (\<lambda>out. Ok (s\<lparr>is_out1 := out\<rparr>))"

definition indep_give_up :: "nat \<Rightarrow> indep_state \<Rightarrow> indep_state outcome" where
  "indep_give_up rep s =
     bind_outcome (set_out rep CRUSH_ITEM_NONE s) (\<lambda>s.
     bind_outcome (set_out2 rep CRUSH_ITEM_NONE s) (\<lambda>s. Ok (s\<lparr>is_left := is_left s - 1\<rparr>)))"

text \<open>A leaf chooser takes the working space, a bucket, \<open>out2\<close>, the position and \<open>r\<close>.\<close>

type_synonym indep_leaf_chooser =
  "crush_work \<Rightarrow> crush_bucket \<Rightarrow> int list \<Rightarrow> nat \<Rightarrow> u32 \<Rightarrow> (crush_work \<times> int list) outcome"

text \<open>The replica number of a choice from bucket \<open>b\<close>.\<close>

definition indep_r :: "indep_args \<Rightarrow> crush_bucket \<Rightarrow> nat \<Rightarrow> nat \<Rightarrow> u32 outcome" where
  "indep_r a b rep ftotal =
     (let r = of_nat rep + ia_parent_r a; n = word_of_int (ia_numrep a) :: u32 in
      case bucket_alg b of
        CRUSH_BUCKET_UNIFORM _ \<Rightarrow>
          if n = 0 then Oops Div_Zero
          else if bucket_size b mod n = 0 then Ok (r + (n + 1) * of_nat ftotal)
          else Ok (r + n * of_nat ftotal)
      | _ \<Rightarrow> Ok (r + n * of_nat ftotal))"

text \<open>
  The leaf below a chosen item, if one is wanted: the new state, and whether no leaf was found.
\<close>

definition indep_leaf ::
    "choose_env \<Rightarrow> indep_args \<Rightarrow> indep_leaf_chooser \<Rightarrow> nat \<Rightarrow> u32 \<Rightarrow> int \<Rightarrow> indep_state \<Rightarrow> (indep_state \<times> bool) outcome" where
  "indep_leaf e a leaf rep r item s =
     (if ia_recurse_to_leaf a then
        (case is_out2 s of
           None \<Rightarrow> Oops Bad_Access
         | Some o2 \<Rightarrow>
             if item < 0 then
               bind_outcome (get_bucket (env_map e) (- 1 - item)) (\<lambda>b.
               bind_outcome (leaf (is_work s) b o2 rep r) (\<lambda>(work, o2).
               bind_outcome (aref o2 rep) (\<lambda>v.
                 Ok (s\<lparr>is_work := work, is_out2 := Some o2\<rparr>, v = CRUSH_ITEM_NONE))))
             else bind_outcome (aset o2 rep item) (\<lambda>o2. Ok (s\<lparr>is_out2 := Some o2\<rparr>, False)))
      else Ok (s, False))"

text \<open>The descent \<open>for (;;)\<close> of one position.\<close>

fun indep_descend ::
    "nat \<Rightarrow> choose_env \<Rightarrow> indep_args \<Rightarrow> indep_leaf_chooser \<Rightarrow> nat \<Rightarrow> nat \<Rightarrow> nat \<Rightarrow> nat \<Rightarrow> crush_bucket \<Rightarrow>
     indep_state \<Rightarrow> indep_state outcome" where
  "indep_descend 0 e a leaf outpos endpos rep ftotal b s = Oops No_Fuel"
| "indep_descend (Suc fuel) e a leaf outpos endpos rep ftotal b s =
     bind_outcome (indep_r a b rep ftotal) (\<lambda>r.
     if bucket_size b = 0 then Ok s
     else
       bind_outcome (choose_in e (is_work s) b r outpos) (\<lambda>(work, item).
       let s = s\<lparr>is_work := work\<rparr> in
       if item \<ge> max_devices (env_map e) then indep_give_up rep s
       else
         bind_outcome (item_type e item) (\<lambda>itemtype.
         if itemtype \<noteq> ia_type a then
           if item \<ge> 0 \<or> - 1 - item \<ge> max_buckets (env_map e) then indep_give_up rep s
           else bind_outcome (get_bucket (env_map e) (- 1 - item)) (\<lambda>child.
                  indep_descend fuel e a leaf outpos endpos rep ftotal child s)
         else if length (is_out1 s) < endpos then Oops Bad_Access
         else if item \<in> set (drop outpos (take endpos (is_out1 s))) then Ok s
         else
           bind_outcome (indep_leaf e a leaf rep r item s) (\<lambda>(s, no_leaf).
           if no_leaf then Ok s
           else
             bind_outcome (if itemtype = 0 then is_out e item else Ok False) (\<lambda>out.
               if out then Ok s
               else bind_outcome (set_out rep item s) (\<lambda>s. Ok (s\<lparr>is_left := is_left s - 1\<rparr>)))))))"

text \<open>One round over the positions, the rounds, and the loops before and after them.\<close>

fun indep_round ::
    "nat \<Rightarrow> choose_env \<Rightarrow> indep_args \<Rightarrow> indep_leaf_chooser \<Rightarrow> nat \<Rightarrow> nat \<Rightarrow> nat \<Rightarrow> crush_bucket \<Rightarrow> nat list \<Rightarrow>
     indep_state \<Rightarrow> indep_state outcome" where
  "indep_round fuel e a leaf outpos endpos ftotal bucket [] s = Ok s"
| "indep_round fuel e a leaf outpos endpos ftotal bucket (rep # reps) s =
     bind_outcome (aref (is_out1 s) rep) (\<lambda>v.
     bind_outcome
       (if v \<noteq> CRUSH_ITEM_UNDEF then Ok s
        else indep_descend fuel e a leaf outpos endpos rep ftotal bucket s) (\<lambda>s.
       indep_round fuel e a leaf outpos endpos ftotal bucket reps s))"

function indep_rounds ::
    "nat \<Rightarrow> choose_env \<Rightarrow> indep_args \<Rightarrow> indep_leaf_chooser \<Rightarrow> nat \<Rightarrow> nat \<Rightarrow> nat \<Rightarrow> crush_bucket \<Rightarrow>
     indep_state \<Rightarrow> indep_state outcome" where
  "indep_rounds fuel e a leaf outpos endpos ftotal bucket s =
     (if is_left s > 0 \<and> ftotal < unat (ia_tries a) then
        bind_outcome (indep_round fuel e a leaf outpos endpos ftotal bucket [outpos..<endpos] s)
          (indep_rounds fuel e a leaf outpos endpos (Suc ftotal) bucket)
      else Ok s)"
  by pat_completeness auto
termination
  by (relation "measure (\<lambda>(fuel, e, a, leaf, outpos, endpos, ftotal, bucket, s).
        unat (ia_tries a) - ftotal)") auto

declare indep_rounds.simps [simp del]

fun indep_clear :: "nat list \<Rightarrow> indep_state \<Rightarrow> indep_state outcome" where
  "indep_clear [] s = Ok s"
| "indep_clear (rep # reps) s =
     bind_outcome (set_out rep CRUSH_ITEM_UNDEF s) (\<lambda>s.
     bind_outcome (set_out2 rep CRUSH_ITEM_UNDEF s) (\<lambda>s. indep_clear reps s))"

fun indep_finish :: "nat list \<Rightarrow> indep_state \<Rightarrow> indep_state outcome" where
  "indep_finish [] s = Ok s"
| "indep_finish (rep # reps) s =
     bind_outcome (aref (is_out1 s) rep) (\<lambda>v.
     bind_outcome (if v = CRUSH_ITEM_UNDEF then set_out rep CRUSH_ITEM_NONE s else Ok s) (\<lambda>s.
     bind_outcome
       (case is_out2 s of
          None \<Rightarrow> Ok s
        | Some o2 \<Rightarrow> bind_outcome (aref o2 rep) (\<lambda>v.
            if v = CRUSH_ITEM_UNDEF then set_out2 rep CRUSH_ITEM_NONE s else Ok s)) (\<lambda>s.
       indep_finish reps s)))"

fun indep_at ::
    "nat \<Rightarrow> nat \<Rightarrow> choose_env \<Rightarrow> indep_args \<Rightarrow> crush_work \<Rightarrow> crush_bucket \<Rightarrow> int \<Rightarrow> int list \<Rightarrow> nat \<Rightarrow>
     int list option \<Rightarrow> (crush_work \<times> int list \<times> int list option) outcome" where
  "indep_at 0 fuel e a work bucket nleft out outpos out2 = Oops No_Fuel"
| "indep_at (Suc depth) fuel e a work bucket nleft out outpos out2 =
     (let endpos = outpos + nat nleft;
          s = \<lparr>is_work = work, is_out1 = out, is_out2 = out2, is_left = nleft\<rparr> in
      bind_outcome (indep_clear [outpos..<endpos] s) (\<lambda>s.
      bind_outcome (indep_rounds fuel e a
          (\<lambda>work b o2 rep r.
             bind_outcome
               (indep_at depth fuel e
                  \<lparr>ia_numrep = ia_numrep a, ia_type = 0, ia_tries = ia_recurse_tries a,
                   ia_recurse_tries = 0, ia_recurse_to_leaf = False, ia_parent_r = r\<rparr>
                  work b 1 o2 rep None)
               (\<lambda>(work, o2, _). Ok (work, o2)))
          outpos endpos 0 bucket s) (\<lambda>s.
      bind_outcome (indep_finish [outpos..<endpos] s) (\<lambda>s.
        Ok (is_work s, is_out1 s, is_out2 s)))))"

definition crush_choose_indep ::
    "nat \<Rightarrow> choose_env \<Rightarrow> indep_args \<Rightarrow> crush_work \<Rightarrow> crush_bucket \<Rightarrow> int \<Rightarrow> int list \<Rightarrow> nat \<Rightarrow>
     int list option \<Rightarrow> (crush_work \<times> int list \<times> int list option) outcome" where
  "crush_choose_indep fuel e a work bucket nleft out outpos out2 =
     indep_at 2 fuel e a work bucket nleft out outpos out2"

section \<open>Rules\<close>

text \<open>
  The local variables of \<open>crush_do_rule\<close>: the vectors \<open>w\<close>, \<open>o\<close> and \<open>c\<close>, the items of \<open>result\<close>
  filled so far, and the tunables a rule may override.
\<close>

record rule_state =
  rs_work :: crush_work
  rs_w :: "int list"
  rs_o :: "int list"
  rs_c :: "int list"
  rs_wsize :: nat
  rs_result :: "int list"
  rs_choose_tries :: u32
  rs_choose_leaf_tries :: u32
  rs_choose_local_retries :: u32
  rs_choose_local_fallback_retries :: u32
  rs_vary_r :: u32
  rs_stable :: u32

definition rule_firstn_args :: "choose_env \<Rightarrow> rule_state \<Rightarrow> bool \<Rightarrow> int \<Rightarrow> int \<Rightarrow> firstn_args" where
  "rule_firstn_args e s leaf numrep type =
     \<lparr>fa_numrep = numrep, fa_type = type, fa_tries = rs_choose_tries s,
      fa_recurse_tries =
        (if rs_choose_leaf_tries s \<noteq> 0 then rs_choose_leaf_tries s
         else if chooseleaf_descend_once (env_map e) \<noteq> 0 then 1
         else rs_choose_tries s),
      fa_local_retries = rs_choose_local_retries s,
      fa_local_fallback_retries = rs_choose_local_fallback_retries s,
      fa_recurse_to_leaf = leaf, fa_vary_r = rs_vary_r s, fa_stable = rs_stable s, fa_parent_r = 0\<rparr>"

definition rule_indep_args :: "rule_state \<Rightarrow> bool \<Rightarrow> int \<Rightarrow> int \<Rightarrow> indep_args" where
  "rule_indep_args s leaf numrep type =
     \<lparr>ia_numrep = numrep, ia_type = type, ia_tries = rs_choose_tries s,
      ia_recurse_tries = (if rs_choose_leaf_tries s \<noteq> 0 then rs_choose_leaf_tries s else 1),
      ia_recurse_to_leaf = leaf, ia_parent_r = 0\<rparr>"

text \<open>One element of \<open>w\<close> in a choose step; the state is followed by \<open>osize\<close>.\<close>

definition rule_choose_one ::
    "nat \<Rightarrow> choose_env \<Rightarrow> nat \<Rightarrow> bool \<Rightarrow> bool \<Rightarrow> int \<Rightarrow> int \<Rightarrow> int \<Rightarrow> rule_state \<times> nat \<Rightarrow> (rule_state \<times> nat) outcome" where
  "rule_choose_one fuel e result_max firstn leaf a1 a2 wi = (\<lambda>(s, osize).
     let numrep = (if a1 \<le> 0 then a1 + int result_max else a1);
         bno = - 1 - wi in
     if numrep \<le> 0 then Ok (s, osize)
     else if bno < 0 \<or> bno \<ge> max_buckets (env_map e) then Ok (s, osize)
     else
       bind_outcome (get_bucket (env_map e) bno) (\<lambda>b.
       if firstn then
         bind_outcome
           (crush_choose_firstn fuel e (rule_firstn_args e s leaf numrep a2) (rs_work s) b
              (drop osize (rs_o s)) 0 (int result_max - int osize) (Some (drop osize (rs_c s))))
           (\<lambda>(work, out, out2, n).
              Ok (s\<lparr>rs_work := work, rs_o := take osize (rs_o s) @ out,
                    rs_c := take osize (rs_c s) @ the out2\<rparr>, osize + n))
       else
         let out_size = (if numrep < int result_max - int osize then numrep else int result_max - int osize) in
         bind_outcome
           (crush_choose_indep fuel e (rule_indep_args s leaf numrep a2) (rs_work s) b out_size
              (drop osize (rs_o s)) 0 (Some (drop osize (rs_c s))))
           (\<lambda>(work, out, out2).
              Ok (s\<lparr>rs_work := work, rs_o := take osize (rs_o s) @ out,
                    rs_c := take osize (rs_c s) @ the out2\<rparr>, osize + nat out_size))))"

fun rule_choose_loop ::
    "nat \<Rightarrow> choose_env \<Rightarrow> nat \<Rightarrow> bool \<Rightarrow> bool \<Rightarrow> int \<Rightarrow> int \<Rightarrow> nat list \<Rightarrow> rule_state \<times> nat \<Rightarrow> (rule_state \<times> nat) outcome" where
  "rule_choose_loop fuel e result_max firstn leaf a1 a2 [] st = Ok st"
| "rule_choose_loop fuel e result_max firstn leaf a1 a2 (i # is) st =
     bind_outcome (aref (rs_w (fst st)) i) (\<lambda>wi.
     bind_outcome (rule_choose_one fuel e result_max firstn leaf a1 a2 wi st)
       (rule_choose_loop fuel e result_max firstn leaf a1 a2 is))"

definition rule_choose ::
    "nat \<Rightarrow> choose_env \<Rightarrow> nat \<Rightarrow> bool \<Rightarrow> bool \<Rightarrow> int \<Rightarrow> int \<Rightarrow> rule_state \<Rightarrow> rule_state outcome" where
  "rule_choose fuel e result_max firstn leaf a1 a2 s =
     (if rs_wsize s = 0 then Ok s
      else
        bind_outcome (rule_choose_loop fuel e result_max firstn leaf a1 a2 [0..<rs_wsize s] (s, 0))
          (\<lambda>(s, osize).
             let out = (if leaf then take osize (rs_c s) @ drop osize (rs_o s) else rs_o s) in
             Ok (s\<lparr>rs_w := out, rs_o := rs_w s, rs_wsize := osize\<rparr>)))"

definition rule_step ::
    "nat \<Rightarrow> choose_env \<Rightarrow> nat \<Rightarrow> crush_rule_step \<Rightarrow> rule_state \<Rightarrow> rule_state outcome" where
  "rule_step fuel e result_max step s =
     (let m = env_map e; a = arg1 step in
      if op step = CRUSH_RULE_TAKE then
        bind_outcome
          (if a \<ge> 0 \<and> a < max_devices m then Ok True
           else if - 1 - a \<ge> 0 \<and> - 1 - a < max_buckets m then
             bind_outcome (aref (buckets m) (nat (- 1 - a))) (\<lambda>b. Ok (b \<noteq> None))
           else Ok False) (\<lambda>good.
          if good then bind_outcome (aset (rs_w s) 0 a) (\<lambda>w. Ok (s\<lparr>rs_w := w, rs_wsize := 1\<rparr>))
          else Ok s)
      else if op step = CRUSH_RULE_SET_CHOOSE_TRIES then
        Ok (if a > 0 then s\<lparr>rs_choose_tries := word_of_int a\<rparr> else s)
      else if op step = CRUSH_RULE_SET_CHOOSELEAF_TRIES then
        Ok (if a > 0 then s\<lparr>rs_choose_leaf_tries := word_of_int a\<rparr> else s)
      else if op step = CRUSH_RULE_SET_CHOOSE_LOCAL_TRIES then
        Ok (if a \<ge> 0 then s\<lparr>rs_choose_local_retries := word_of_int a\<rparr> else s)
      else if op step = CRUSH_RULE_SET_CHOOSE_LOCAL_FALLBACK_TRIES then
        Ok (if a \<ge> 0 then s\<lparr>rs_choose_local_fallback_retries := word_of_int a\<rparr> else s)
      else if op step = CRUSH_RULE_SET_CHOOSELEAF_VARY_R then
        Ok (if a \<ge> 0 then s\<lparr>rs_vary_r := word_of_int a\<rparr> else s)
      else if op step = CRUSH_RULE_SET_CHOOSELEAF_STABLE then
        Ok (if a \<ge> 0 then s\<lparr>rs_stable := word_of_int a\<rparr> else s)
      else if op step \<in> {CRUSH_RULE_CHOOSELEAF_FIRSTN, CRUSH_RULE_CHOOSE_FIRSTN,
                         CRUSH_RULE_CHOOSELEAF_INDEP, CRUSH_RULE_CHOOSE_INDEP} then
        rule_choose fuel e result_max
          (op step \<in> {CRUSH_RULE_CHOOSELEAF_FIRSTN, CRUSH_RULE_CHOOSE_FIRSTN})
          (op step \<in> {CRUSH_RULE_CHOOSELEAF_FIRSTN, CRUSH_RULE_CHOOSELEAF_INDEP}) a (arg2 step) s
      else if op step = CRUSH_RULE_EMIT then
        let n = min (rs_wsize s) (result_max - length (rs_result s)) in
        if length (rs_w s) < n then Oops Bad_Access
        else Ok (s\<lparr>rs_result := rs_result s @ take n (rs_w s), rs_wsize := 0\<rparr>)
      else Ok s)"

fun rule_steps_loop ::
    "nat \<Rightarrow> choose_env \<Rightarrow> nat \<Rightarrow> crush_rule_step list \<Rightarrow> rule_state \<Rightarrow> rule_state outcome" where
  "rule_steps_loop fuel e result_max [] s = Ok s"
| "rule_steps_loop fuel e result_max (step # steps) s =
     bind_outcome (rule_step fuel e result_max step s) (rule_steps_loop fuel e result_max steps)"

text \<open>
  \<open>a\<close>, \<open>b\<close> and \<open>c\<close> are what the scratch vectors behind the working space hold before the call.
  The result is the working space and the first \<open>result_len\<close> entries of \<open>result\<close>.
\<close>

definition crush_do_rule ::
    "nat \<Rightarrow> choose_env \<Rightarrow> int \<Rightarrow> nat \<Rightarrow> crush_work \<Rightarrow> int list \<Rightarrow> int list \<Rightarrow> int list \<Rightarrow>
     (crush_work \<times> int list) outcome" where
  "crush_do_rule fuel e ruleno result_max work a b c =
     (let m = env_map e in
      if (word_of_int ruleno :: u32) \<ge> max_rules m then Ok (work, [])
      else
        bind_outcome (aref (rules m) (unat (word_of_int ruleno :: u32))) (\<lambda>rule.
        case rule of
          None \<Rightarrow> Oops Bad_Access
        | Some rule \<Rightarrow>
            if length (rule_steps rule) < unat (rule_len rule) then Oops Bad_Access
            else
              bind_outcome (rule_steps_loop fuel e result_max (take (unat (rule_len rule)) (rule_steps rule))
                \<lparr>rs_work = work, rs_w = a, rs_o = b, rs_c = c, rs_wsize = 0, rs_result = [],
                 rs_choose_tries = choose_total_tries m + 1, rs_choose_leaf_tries = 0,
                 rs_choose_local_retries = choose_local_tries m,
                 rs_choose_local_fallback_retries = choose_local_fallback_tries m,
                 rs_vary_r = ucast (chooseleaf_vary_r m), rs_stable = ucast (chooseleaf_stable m)\<rparr>) (\<lambda>s.
                Ok (rs_work s, rs_result s))))"

section \<open>Well-formed maps\<close>

text \<open>
  The slots of the map name their buckets, items that are buckets exist, no bucket poses as a
  device, and \<open>rank\<close> decreases from a bucket to the buckets in it.
\<close>

definition wf_slot :: "(int \<Rightarrow> nat) \<Rightarrow> crush_map \<Rightarrow> nat \<Rightarrow> crush_bucket \<Rightarrow> bool" where
  "wf_slot rank m k b \<longleftrightarrow>
     bucket_id b = - 1 - int k \<and> bucket_type b \<noteq> 0 \<and> length (bucket_items b) = unat (bucket_size b) \<and>
     (bucket_size b \<noteq> 0 \<longrightarrow> wf_alg b) \<and>
     (\<forall>i\<in>set (bucket_items b). i < 0 \<longrightarrow>
        - 1 - i < max_buckets m \<and> buckets m ! nat (- 1 - i) \<noteq> None \<and> rank i < rank (bucket_id b))"

definition wf_map :: "(int \<Rightarrow> nat) \<Rightarrow> crush_map \<Rightarrow> bool" where
  "wf_map rank m \<longleftrightarrow>
     nat (max_buckets m) \<le> length (buckets m) \<and>
     (\<forall>k<nat (max_buckets m).
        case buckets m ! k of None \<Rightarrow> True | Some b \<Rightarrow> wf_slot rank m k b)"

definition wf_env :: "(int \<Rightarrow> nat) \<Rightarrow> choose_env \<Rightarrow> bool" where
  "wf_env rank e \<longleftrightarrow>
     wf_map rank (env_map e) \<and> nat (env_weight_max e) \<le> length (env_weight e) \<and>
     (case env_choose_args e of
        None \<Rightarrow> True
      | Some args \<Rightarrow>
          nat (max_buckets (env_map e)) \<le> length args \<and>
          (\<forall>k<nat (max_buckets (env_map e)).
             case buckets (env_map e) ! k of
               None \<Rightarrow> True | Some b \<Rightarrow> wf_choose_arg b (Some (args ! k))))"

definition work_ok :: "crush_map \<Rightarrow> crush_work \<Rightarrow> bool" where
  "work_ok m work \<longleftrightarrow>
     length work = nat (max_buckets m) \<and>
     (\<forall>k<nat (max_buckets m).
        case buckets m ! k of
          None \<Rightarrow> True
        | Some b \<Rightarrow> (case work ! k of None \<Rightarrow> False | Some wb \<Rightarrow> perm_inv b wb))"

definition bucket_of :: "crush_map \<Rightarrow> crush_bucket \<Rightarrow> bool" where
  "bucket_of m b \<longleftrightarrow> (\<exists>k<nat (max_buckets m). buckets m ! k = Some b)"

lemma wf_slotD:
  assumes "wf_map rank m" and "k < nat (max_buckets m)" and "buckets m ! k = Some b"
  shows "wf_slot rank m k b"
  using assms by (auto simp: wf_map_def split: option.splits)

lemma get_bucket_slot:
  assumes "wf_map rank m" and "0 \<le> n" and "n < max_buckets m" and "buckets m ! nat n = Some b"
  shows "get_bucket m n = Ok b" and "bucket_of m b" and "bucket_id b = - 1 - n"
proof -
  have n: "nat n < nat (max_buckets m)" using assms(2,3) by simp
  moreover have "nat (max_buckets m) \<le> length (buckets m)" using assms(1) by (simp add: wf_map_def)
  ultimately have "nat n < length (buckets m)" by linarith
  then show "get_bucket m n = Ok b" using assms(2,4) by (simp add: get_bucket_def)
  show "bucket_of m b" unfolding bucket_of_def using n assms(4) by blast
  show "bucket_id b = - 1 - n" using wf_slotD [OF assms(1) n assms(4)] assms(2) by (simp add: wf_slot_def)
qed

lemma bucket_of_facts:
  assumes "wf_map rank m" and "bucket_of m b"
  obtains k where "bucket_id b = - 1 - int k" "k < nat (max_buckets m)" "buckets m ! k = Some b"
    "bucket_type b \<noteq> 0" "length (bucket_items b) = unat (bucket_size b)" "bucket_size b \<noteq> 0 \<longrightarrow> wf_bucket b"
proof -
  from assms(2) obtain k where k: "k < nat (max_buckets m)" "buckets m ! k = Some b"
    by (auto simp: bucket_of_def)
  with wf_slotD [OF assms(1) k] that [of k] show thesis by (simp add: wf_slot_def wf_bucket_def)
qed

lemma child_bucket:
  assumes "wf_map rank m" and "bucket_of m b" and "i \<in> set (bucket_items b)" and "i < 0"
  obtains c where "get_bucket m (- 1 - i) = Ok c" "bucket_of m c" "bucket_id c = i"
    "- 1 - i < max_buckets m" "rank (bucket_id c) < rank (bucket_id b)" "bucket_type c \<noteq> 0"
proof -
  from assms(2) obtain k where k: "k < nat (max_buckets m)" "buckets m ! k = Some b"
    by (auto simp: bucket_of_def)
  with wf_slotD [OF assms(1) k] assms(3,4)
  obtain c where c: "- 1 - i < max_buckets m" "buckets m ! nat (- 1 - i) = Some c"
    "rank i < rank (bucket_id b)"
    by (auto simp: wf_slot_def)
  have i: "0 \<le> - 1 - i" using assms(4) by simp
  note g = get_bucket_slot [OF assms(1) i c(1,2)]
  have "bucket_type c \<noteq> 0" using bucket_of_facts [OF assms(1) g(2)] by blast
  then show thesis using that [OF g(1,2)] g(3) c by simp
qed

lemma item_type_Ok:
  assumes "wf_map rank (env_map e)" and "bucket_of (env_map e) b" and "i \<in> set (bucket_items b)"
  obtains t where "item_type e i = Ok t" "t = 0 \<longleftrightarrow> 0 \<le> i" 
proof (cases "i < 0")
  case True
  obtain c where "get_bucket (env_map e) (- 1 - i) = Ok c" "bucket_type c \<noteq> 0"
    by (rule child_bucket [OF assms True])
  then show thesis using that [of "uint (bucket_type c)"] True by (simp add: item_type_def uint_0_iff)
next
  case False
  then show thesis using that [of 0] by (simp add: item_type_def)
qed

lemma is_out_Ok:
  assumes "wf_env rank e" and "0 \<le> i"
  shows "\<exists>v. is_out e i = Ok v"
proof (cases "i < env_weight_max e")
  case True
  moreover have "nat (env_weight_max e) \<le> length (env_weight e)" using assms(1) by (simp add: wf_env_def)
  ultimately have "nat i < length (env_weight e)" using assms(2) by linarith
  then show ?thesis using assms(2) by (auto simp: is_out_def)
next
  case False
  then show ?thesis by (auto simp: is_out_def)
qed

section \<open>Choosing keeps the working space in order\<close>

lemma work_slot:
  assumes "wf_map rank m" and "bucket_of m b" and "work_ok m work"
  obtains k wb where "bucket_id b = - 1 - int k" "k < length work" "work ! k = Some wb" "perm_inv b wb"
    "\<forall>wb'. perm_inv b wb' \<longrightarrow> work_ok m (work[k := Some wb'])"
proof -
  obtain k where k: "bucket_id b = - 1 - int k" "k < nat (max_buckets m)" "buckets m ! k = Some b"
    by (rule bucket_of_facts [OF assms(1,2)])
  have "case work ! k of None \<Rightarrow> False | Some wb \<Rightarrow> perm_inv b wb" and len: "k < length work"
    using assms(3) k by (auto simp: work_ok_def)
  then obtain wb where wb: "work ! k = Some wb" "perm_inv b wb" by (cases "work ! k") auto
  have "work_ok m (work[k := Some wb'])" if "perm_inv b wb'" for wb'
    using assms(3) that k by (auto simp: work_ok_def nth_list_update split: option.splits)
  then show thesis using that [of k wb] k wb len by blast
qed

lemma with_work_Ok:
  assumes "wf_map rank m" and "bucket_of m b" and "work_ok m work"
    and "\<And>wb. perm_inv b wb \<Longrightarrow> \<exists>wb' i. f wb = Ok (wb', i) \<and> perm_inv b wb' \<and> P i"
  shows "\<exists>work' i. with_work work b f = Ok (work', i) \<and> work_ok m work' \<and> P i"
proof -
  obtain k wb where k: "bucket_id b = - 1 - int k" "k < length work" "work ! k = Some wb" "perm_inv b wb"
    "\<forall>wb'. perm_inv b wb' \<longrightarrow> work_ok m (work[k := Some wb'])"
    by (rule work_slot [OF assms(1-3)])
  obtain wb' i where "f wb = Ok (wb', i)" "perm_inv b wb'" "P i" using assms(4) [OF k(4)] by blast
  then show ?thesis using k by (simp add: with_work_def)
qed

lemma choose_arg_of_Ok:
  assumes "wf_env rank e" and "bucket_of (env_map e) b"
  obtains arg where "choose_arg_of e b = Ok arg" "wf_choose_arg b arg"
proof -
  have m: "wf_map rank (env_map e)" using assms(1) by (simp add: wf_env_def)
  obtain k where k: "bucket_id b = - 1 - int k" "k < nat (max_buckets (env_map e))"
    "buckets (env_map e) ! k = Some b"
    by (rule bucket_of_facts [OF m assms(2)])
  show thesis
  proof (cases "env_choose_args e")
    case None
    then show thesis using that [of None] by (simp add: choose_arg_of_def wf_choose_arg_def)
  next
    case (Some args)
    with assms(1) k have "wf_choose_arg b (Some (args ! k))" "k < length args"
      by (auto simp: wf_env_def split: option.splits)
    then show thesis using that [of "Some (args ! k)"] Some k by (simp add: choose_arg_of_def)
  qed
qed

lemma choose_in_Ok:
  assumes e: "wf_env rank e" and b: "bucket_of (env_map e) b" and sz: "bucket_size b \<noteq> 0"
    and work: "work_ok (env_map e) work"
  shows "\<exists>work' i. choose_in e work b r position = Ok (work', i) \<and> work_ok (env_map e) work' \<and>
           i \<in> set (bucket_items b)"
proof -
  have m: "wf_map rank (env_map e)" using e by (simp add: wf_env_def)
  obtain arg where arg: "choose_arg_of e b = Ok arg" "wf_choose_arg b arg"
    by (rule choose_arg_of_Ok [OF e b])
  have wf: "wf_bucket b" by (rule bucket_of_facts [OF m b]) (use sz in simp)
  have "\<exists>wb' i. crush_bucket_choose b wb (env_x e) r arg position = Ok (wb', i) \<and> perm_inv b wb' \<and>
      i \<in> set (bucket_items b)" if "perm_inv b wb" for wb
    using dispatch.choose_pick [of arg b wb "env_x e" r position]
      dispatch.pick_item [of arg b wb position "env_x e" r] that wf arg(2)
    by (auto simp: usable_bucket_def)
  from with_work_Ok [OF m b work this] show ?thesis by (simp add: choose_in_def arg(1))
qed

lemma firstn_pick_Ok:
  assumes e: "wf_env rank e" and b: "bucket_of (env_map e) b" and sz: "bucket_size b \<noteq> 0"
    and work: "work_ok (env_map e) work"
  shows "\<exists>work' i. firstn_pick e a work b r outpos flocal = Ok (work', i) \<and>
           work_ok (env_map e) work' \<and> i \<in> set (bucket_items b)"
proof -
  have m: "wf_map rank (env_map e)" using e by (simp add: wf_env_def)
  have len: "length (bucket_items b) = unat (bucket_size b)" by (rule bucket_of_facts [OF m b])
  have "\<exists>wb' i. bucket_perm_choose b wb (env_x e) r = Ok (wb', i) \<and> perm_inv b wb' \<and>
      i \<in> set (bucket_items b)" if "perm_inv b wb" for wb
    using uniform.choose_pick [of b wb "env_x e" r] uniform.pick_item [of b wb "env_x e" r] that len sz
    by (auto simp: bucket_uniform_choose_def)
  from with_work_Ok [OF m b work this] choose_in_Ok [OF assms, of r outpos]
  show ?thesis by (simp add: firstn_pick_def)
qed

section \<open>Depth-first placement\<close>

text \<open>
  What the loops need of the leaf chooser: from a position inside \<open>out2\<close> it returns, keeps the
  entries before the position, and if it advances the position, the entry there is a device
  that is in and not among the entries before it.
\<close>

definition leaf_ok :: "choose_env \<Rightarrow> leaf_chooser \<Rightarrow> bool" where
  "leaf_ok e leaf \<longleftrightarrow>
     (\<forall>work b o2 outpos cnt sub_r.
        work_ok (env_map e) work \<longrightarrow> bucket_of (env_map e) b \<longrightarrow> outpos + nat cnt \<le> length o2 \<longrightarrow> 0 < cnt \<longrightarrow>
        (\<exists>work' o2' pos. leaf work b o2 outpos cnt sub_r = Ok (work', o2', pos) \<and>
           work_ok (env_map e) work' \<and> length o2' = length o2 \<and> take outpos o2' = take outpos o2 \<and>
           (outpos < pos \<longrightarrow> 0 \<le> o2' ! outpos \<and> o2' ! outpos \<notin> set (take outpos o2) \<and>
              is_out e (o2' ! outpos) = Ok False)))"

text \<open>The vector for the leaves, if the call wants them.\<close>

definition out2_ok :: "choose_env \<Rightarrow> firstn_args \<Rightarrow> leaf_chooser \<Rightarrow> nat \<Rightarrow> int \<Rightarrow> int list option \<Rightarrow> bool" where
  "out2_ok e a leaf outpos cnt out2 \<longleftrightarrow>
     (fa_recurse_to_leaf a \<longrightarrow>
        (\<exists>o2. out2 = Some o2 \<and> outpos + nat cnt \<le> length o2) \<and> leaf_ok e leaf \<and> 0 < cnt \<and>
        unat (fa_vary_r a) \<le> 32)"

definition same_prefix :: "nat \<Rightarrow> int list option \<Rightarrow> int list option \<Rightarrow> bool" where
  "same_prefix n o2 o2' \<longleftrightarrow>
     map_option length o2' = map_option length o2 \<and> map_option (take n) o2' = map_option (take n) o2"

lemma same_prefix_refl [simp]: "same_prefix n o2 o2"
  by (simp add: same_prefix_def)

lemma same_prefix_trans: "same_prefix n a b \<Longrightarrow> same_prefix n b c \<Longrightarrow> same_prefix n a c"
  by (simp add: same_prefix_def)

text \<open>The leaf that goes with a chosen item.\<close>

definition leaf_found :: "choose_env \<Rightarrow> firstn_args \<Rightarrow> nat \<Rightarrow> int \<Rightarrow> int list option \<Rightarrow> bool" where
  "leaf_found e a outpos item out2 \<longleftrightarrow>
     (fa_recurse_to_leaf a \<longrightarrow>
        (\<exists>o2. out2 = Some o2 \<and>
           (if item < 0 then 0 \<le> o2 ! outpos \<and> o2 ! outpos \<notin> set (take outpos o2) \<and>
              is_out e (o2 ! outpos) = Ok False
            else o2 ! outpos = item)))"

lemma firstn_leaf_Ok:
  assumes e: "wf_env rank e" and b: "bucket_of (env_map e) b" and i: "item \<in> set (bucket_items b)"
    and work: "work_ok (env_map e) work" and o2: "out2_ok e a leaf outpos cnt out2"
  shows "\<exists>work' out2' reject. firstn_leaf e a leaf work out2 outpos cnt r collide item = Ok (work', out2', reject) \<and>
     work_ok (env_map e) work' \<and> same_prefix outpos out2 out2' \<and>
     (\<not> reject \<and> \<not> collide \<longrightarrow> leaf_found e a outpos item out2')"
proof (cases "\<not> collide \<and> fa_recurse_to_leaf a")
  case False
  then show ?thesis using work by (auto simp: firstn_leaf_def leaf_found_def)
next
  case True
  with o2 obtain v where v: "out2 = Some v" "outpos + nat cnt \<le> length v" "leaf_ok e leaf" "0 < cnt"
    "unat (fa_vary_r a) \<le> 32" by (auto simp: out2_ok_def)
  then have "outpos < length v" by linarith
  show ?thesis
  proof (cases "item < 0")
    case False
    then show ?thesis
      using True v work \<open>outpos < length v\<close>
      by (auto simp: firstn_leaf_def leaf_found_def same_prefix_def)
  next
    case neg: True
    have m: "wf_map rank (env_map e)" using e by (simp add: wf_env_def)
    obtain c where c: "get_bucket (env_map e) (- 1 - item) = Ok c" "bucket_of (env_map e) c"
      by (rule child_bucket [OF m b i neg])
    have "\<exists>sub_r. (if fa_vary_r a = 0 then Ok 0
         else if unat (fa_vary_r a - 1) \<ge> 32 then Oops Bad_Shift
         else Ok (signed_drop_bit (unat (fa_vary_r a - 1)) r)) = Ok sub_r"
    proof (cases "fa_vary_r a = 0")
      case False
      then have "0 < unat (fa_vary_r a)" by (simp add: unat_gt_0)
      then have "unat (fa_vary_r a - 1) = unat (fa_vary_r a) - 1" by (subst unat_sub_no_wrap) simp_all
      then show ?thesis using False v(5) by simp
    qed simp
    then obtain sub_r where sub: "(if fa_vary_r a = 0 then Ok 0
         else if unat (fa_vary_r a - 1) \<ge> 32 then Oops Bad_Shift
         else Ok (signed_drop_bit (unat (fa_vary_r a - 1)) r)) = Ok sub_r" by blast
    from v(3) work c(2) v(2,4)
    obtain work' o2' pos where l: "leaf work c v outpos cnt sub_r = Ok (work', o2', pos)"
      "work_ok (env_map e) work'" "length o2' = length v" "take outpos o2' = take outpos v"
      "outpos < pos \<longrightarrow> 0 \<le> o2' ! outpos \<and> o2' ! outpos \<notin> set (take outpos v) \<and>
         is_out e (o2' ! outpos) = Ok False"
      unfolding leaf_ok_def by blast
    have "firstn_leaf e a leaf work out2 outpos cnt r collide item = Ok (work', Some o2', pos \<le> outpos)"
      using True neg by (simp add: firstn_leaf_def v(1) c(1) l(1) sub del: if_split_asm)
    then show ?thesis
      using l v(1) neg by (auto simp: leaf_found_def same_prefix_def)
  qed
qed

text \<open>A chosen item: of the wanted type, new, a known device or a bucket, not out, with its leaf.\<close>

definition item_ok :: "choose_env \<Rightarrow> firstn_args \<Rightarrow> int list \<Rightarrow> nat \<Rightarrow> int \<Rightarrow> int list option \<Rightarrow> bool" where
  "item_ok e a out outpos item out2 \<longleftrightarrow>
     item_type e item = Ok (fa_type a) \<and> (0 \<le> item \<longleftrightarrow> fa_type a = 0) \<and>
     item \<notin> set (take outpos out) \<and>
     item < max_devices (env_map e) \<and> (0 \<le> item \<longrightarrow> is_out e item = Ok False) \<and>
     leaf_found e a outpos item out2"

text \<open>How the state of the retry loops evolves.\<close>

definition try_ok ::
    "(int \<Rightarrow> nat) \<Rightarrow> choose_env \<Rightarrow> firstn_args \<Rightarrow> int list \<Rightarrow> nat \<Rightarrow> crush_bucket \<Rightarrow> u32 \<Rightarrow> u32 \<Rightarrow> int list option \<Rightarrow>
     attempt \<Rightarrow> bool" where
  "try_ok rank e a out outpos b ftotal flocal out2 t \<longleftrightarrow>
     (case t of
        Skip_Rep \<Rightarrow> True
      | Got item \<Rightarrow> item_ok e a out outpos item out2
      | Retry_Bucket c ft fl \<Rightarrow>
          bucket_of (env_map e) c \<and>
          (rank (bucket_id c) < rank (bucket_id b) \<and> ft = ftotal \<and> fl = flocal \<or>
           c = b \<and> ft = ftotal + 1 \<and> fl = flocal + 1 \<and>
             (fl \<le> fa_local_retries a \<or> fl \<le> bucket_size b + fa_local_fallback_retries a))
      | Retry_Descent ft \<Rightarrow> ft = ftotal + 1 \<and> ft < fa_tries a)"

lemma firstn_reject_ok:
  "bucket_of (env_map e) b \<Longrightarrow>
     try_ok rank e a out outpos b ftotal flocal out2 (firstn_reject a b collide ftotal flocal)"
  by (auto simp: firstn_reject_def try_ok_def Let_def)

lemma firstn_try_Ok:
  assumes e: "wf_env rank e" and b: "bucket_of (env_map e) b" and work: "work_ok (env_map e) work"
    and o2: "out2_ok e a leaf outpos cnt out2" and out: "outpos \<le> length out"
  shows "\<exists>work' out2' t. firstn_try e a leaf work out out2 outpos cnt rep b ftotal flocal = Ok (work', out2', t) \<and>
     work_ok (env_map e) work' \<and> same_prefix outpos out2 out2' \<and>
     try_ok rank e a out outpos b ftotal flocal out2' t"
proof (cases "bucket_size b = 0")
  case True
  then show ?thesis using work firstn_reject_ok [OF b] by (simp add: firstn_try_def)
next
  case sz: False
  have m: "wf_map rank (env_map e)" using e by (simp add: wf_env_def)
  let ?r = "of_nat rep + fa_parent_r a + ftotal"
  obtain work1 item where p: "firstn_pick e a work b ?r outpos flocal = Ok (work1, item)"
    "work_ok (env_map e) work1" "item \<in> set (bucket_items b)"
    using firstn_pick_Ok [OF e b sz work] by blast
  obtain t where t: "item_type e item = Ok t" "t = 0 \<longleftrightarrow> 0 \<le> item"
    by (rule item_type_Ok [OF m b p(3)])
  note step = firstn_try_def [of e a leaf work out out2 outpos cnt rep b ftotal flocal]
  consider (bad) "item \<ge> max_devices (env_map e)"
    | (wrong) "item < max_devices (env_map e)" "t \<noteq> fa_type a"
    | (right) "item < max_devices (env_map e)" "t = fa_type a" by fastforce
  then show ?thesis
  proof cases
    case bad
    then show ?thesis using p sz by (simp add: step try_ok_def)
  next
    case wrong
    show ?thesis
    proof (cases "item \<ge> 0")
      case True
      then show ?thesis using wrong p sz t by (simp add: step try_ok_def)
    next
      case False
      then have neg: "item < 0" by simp
      obtain c where c: "get_bucket (env_map e) (- 1 - item) = Ok c" "bucket_of (env_map e) c"
        "- 1 - item < max_buckets (env_map e)" "rank (bucket_id c) < rank (bucket_id b)"
        by (rule child_bucket [OF m b p(3) neg])
      then show ?thesis using wrong p sz t neg by (simp add: step try_ok_def)
    qed
  next
    case right
    let ?collide = "item \<in> set (take outpos out)"
    obtain work2 out2' reject where l:
      "firstn_leaf e a leaf work1 out2 outpos cnt ?r ?collide item = Ok (work2, out2', reject)"
      "work_ok (env_map e) work2" "same_prefix outpos out2 out2'"
      "\<not> reject \<and> \<not> ?collide \<longrightarrow> leaf_found e a outpos item out2'"
      using firstn_leaf_Ok [OF e b p(3,2) o2] by blast
    have "\<exists>rej. (if \<not> reject \<and> \<not> ?collide \<and> t = 0 then is_out e item else Ok reject) = Ok rej"
      using is_out_Ok [OF e, of item] t(2) by auto
    then obtain rej where rej: "(if \<not> reject \<and> \<not> ?collide \<and> t = 0 then is_out e item else Ok reject) = Ok rej"
      by blast
    have go: "firstn_try e a leaf work out out2 outpos cnt rep b ftotal flocal =
       (if rej \<or> ?collide then Ok (work2, out2', firstn_reject a b ?collide ftotal flocal)
        else Ok (work2, out2', Got item))"
      using p(1) sz t(1) right l(1) rej out by (simp add: step Let_def)
    show ?thesis
    proof (cases "rej \<or> ?collide")
      case True
      then show ?thesis using go l firstn_reject_ok [OF b] by simp
    next
      case False
      with rej have "\<not> reject" "0 \<le> item \<longrightarrow> is_out e item = Ok False"
        using t(2) by (auto split: if_splits)
      then show ?thesis using False go l right t by (simp add: try_ok_def item_ok_def)
    qed
  qed
qed
text \<open>
  Bounds on the retries: \<open>L\<close> bounds the local retries of a descent, \<open>R\<close> the rank of the buckets;
  within them the failure counters do not wrap.
\<close>

definition sane_retries :: "(int \<Rightarrow> nat) \<Rightarrow> nat \<Rightarrow> nat \<Rightarrow> choose_env \<Rightarrow> firstn_args \<Rightarrow> bool" where
  "sane_retries rank L R e a \<longleftrightarrow>
     unat (fa_local_retries a) \<le> L \<and> unat (fa_tries a) + L + 1 < 2 ^ 32 \<and>
     (\<forall>b. bucket_of (env_map e) b \<longrightarrow>
        unat (bucket_size b) + unat (fa_local_fallback_retries a) \<le> L \<and> rank (bucket_id b) \<le> R)"

definition tries_measure :: "(int \<Rightarrow> nat) \<Rightarrow> nat \<Rightarrow> nat \<Rightarrow> nat \<Rightarrow> crush_bucket \<Rightarrow> nat \<Rightarrow> nat \<Rightarrow> nat" where
  "tries_measure rank L R T b ftotal flocal =
     ((T - ftotal) * (L + 2) + (L + 1 - flocal)) * (R + 1) + rank (bucket_id b)"

lemma tries_measure_local:
  assumes "flocal \<le> L"
  shows "tries_measure rank L R T b (Suc ftotal) (Suc flocal) < tries_measure rank L R T b ftotal flocal"
proof -
  have "(T - Suc ftotal) * (L + 2) + (L + 1 - Suc flocal) < (T - ftotal) * (L + 2) + (L + 1 - flocal)"
    using assms by (intro add_le_less_mono mult_le_mono1) simp_all
  then show ?thesis unfolding tries_measure_def by (intro add_strict_right_mono mult_strict_right_mono) simp_all
qed

lemma tries_measure_child:
  assumes "rank (bucket_id c) < rank (bucket_id b)"
  shows "tries_measure rank L R T c ftotal flocal < tries_measure rank L R T b ftotal flocal"
  using assms unfolding tries_measure_def by (rule add_strict_left_mono)

lemma tries_measure_descent:
  assumes "Suc ftotal < T" and "rank (bucket_id bucket) \<le> R"
  shows "tries_measure rank L R T bucket (Suc ftotal) 0 < tries_measure rank L R T b ftotal flocal"
proof -
  have "(T - Suc ftotal) * (L + 2) + (L + 2) \<le> (T - ftotal) * (L + 2)"
  proof -
    have "T - ftotal = Suc (T - Suc ftotal)" using assms(1) by simp
    then show ?thesis by (simp only: mult_Suc)
  qed
  then have "Suc ((T - Suc ftotal) * (L + 2) + (L + 1)) \<le> (T - ftotal) * (L + 2) + (L + 1 - flocal)" by linarith
  then have "Suc ((T - Suc ftotal) * (L + 2) + (L + 1)) * (R + 1) \<le>
      ((T - ftotal) * (L + 2) + (L + 1 - flocal)) * (R + 1)" by (rule mult_le_mono1)
  then show ?thesis using assms(2) unfolding tries_measure_def by simp
qed

lemma out2_ok_same_prefix:
  "out2_ok e a leaf outpos cnt out2 \<Longrightarrow> same_prefix outpos out2 out2' \<Longrightarrow> out2_ok e a leaf outpos cnt out2'"
  by (auto simp: out2_ok_def same_prefix_def)

lemma firstn_tries_Ok:
  assumes e: "wf_env rank e" and bucket: "bucket_of (env_map e) bucket"
    and sane: "sane_retries rank L R e a" and out: "outpos \<le> length out"
    and "tries_measure rank L R (unat (fa_tries a)) b (unat ftotal) (unat flocal) < fuel"
    and "unat flocal \<le> L" and "unat ftotal \<le> unat (fa_tries a) + unat flocal"
    and "bucket_of (env_map e) b" and "work_ok (env_map e) work" and "out2_ok e a leaf outpos cnt out2"
  shows "\<exists>work' out2' got.
     firstn_tries fuel e a leaf work bucket out out2 outpos cnt rep b ftotal flocal = Ok (work', out2', got) \<and>
     work_ok (env_map e) work' \<and> same_prefix outpos out2 out2' \<and>
     (\<forall>item. got = Some item \<longrightarrow> item_ok e a out outpos item out2')"
  using assms(5-)
proof (induction fuel arbitrary: b ftotal flocal work out2)
  case (Suc fuel)
  let ?T = "unat (fa_tries a)"
  have lim: "unat (fa_local_retries a) \<le> L" "?T + L + 1 < 2 ^ 32"
    using sane by (simp_all add: sane_retries_def)
  have fl: "unat (flocal + 1) = Suc (unat flocal)"
    using Suc.prems(2) lim(2) by (subst unat_add_no_wrap) simp_all
  have ft: "unat (ftotal + 1) = Suc (unat ftotal)"
    using Suc.prems(2,3) lim(2) by (subst unat_add_no_wrap) simp_all
  obtain work1 out1 t where t:
    "firstn_try e a leaf work out out2 outpos cnt rep b ftotal flocal = Ok (work1, out1, t)"
    "work_ok (env_map e) work1" "same_prefix outpos out2 out1"
    "try_ok rank e a out outpos b ftotal flocal out1 t"
    using firstn_try_Ok [OF e Suc.prems(4,5,6) out] by blast
  have o1: "out2_ok e a leaf outpos cnt out1"
    using Suc.prems(6) t(3) by (rule out2_ok_same_prefix)
  show ?case
  proof (cases t)
    case Skip_Rep
    then show ?thesis using t by simp
  next
    case (Got item)
    then show ?thesis using t by (simp add: try_ok_def)
  next
    case (Retry_Bucket c ft' fl')
    have c: "bucket_of (env_map e) c" using t(4) Retry_Bucket by (simp add: try_ok_def)
    have less: "tries_measure rank L R ?T c (unat ft') (unat fl') < fuel \<and> unat fl' \<le> L \<and>
        unat ft' \<le> ?T + unat fl'"
    proof (cases "c = b \<and> ft' = ftotal + 1 \<and> fl' = flocal + 1")
      case True
      have sz: "unat (bucket_size b) + unat (fa_local_fallback_retries a) \<le> L"
        using sane Suc.prems(4) by (simp add: sane_retries_def)
      then have "unat (bucket_size b + fa_local_fallback_retries a) \<le> L"
        using lim(2) by (subst unat_add_no_wrap) simp_all
      moreover have "fl' \<le> fa_local_retries a \<or> fl' \<le> bucket_size b + fa_local_fallback_retries a \<or>
          rank (bucket_id c) < rank (bucket_id b)"
        using t(4) Retry_Bucket by (auto simp: try_ok_def)
      ultimately have "unat fl' \<le> L" using True lim(1) by (auto simp: word_le_nat_alt)
      moreover have "tries_measure rank L R ?T c (unat ft') (unat fl') <
          tries_measure rank L R ?T b (unat ftotal) (unat flocal)"
        using True fl ft tries_measure_local [OF Suc.prems(2)] by simp
      ultimately show ?thesis using True fl ft Suc.prems(1,3) by simp
    next
      case False
      then have "rank (bucket_id c) < rank (bucket_id b)" "ft' = ftotal" "fl' = flocal"
        using t(4) Retry_Bucket by (auto simp: try_ok_def)
      then show ?thesis
        using Suc.prems(1-3) tries_measure_child [of rank c b L R ?T "unat ftotal" "unat flocal"] by simp
    qed
    then have l: "tries_measure rank L R ?T c (unat ft') (unat fl') < fuel" "unat fl' \<le> L"
      "unat ft' \<le> ?T + unat fl'" by blast+
    obtain work' out' got where r:
      "firstn_tries fuel e a leaf work1 bucket out out1 outpos cnt rep c ft' fl' = Ok (work', out', got)"
      "work_ok (env_map e) work'" "same_prefix outpos out1 out'"
      "\<forall>item. got = Some item \<longrightarrow> item_ok e a out outpos item out'"
      using Suc.IH [OF l c t(2) o1] by blast
    then show ?thesis using t Retry_Bucket same_prefix_trans [OF t(3) r(3)] by simp
  next
    case (Retry_Descent ft')
    then have f: "ft' = ftotal + 1" "ft' < fa_tries a" using t(4) by (auto simp: try_ok_def)
    then have lt: "Suc (unat ftotal) < ?T" using ft by (simp add: word_less_nat_alt)
    have "rank (bucket_id bucket) \<le> R" using sane bucket by (simp add: sane_retries_def)
    then have l: "tries_measure rank L R ?T bucket (unat ft') (unat (0 :: u32)) < fuel"
        "unat (0 :: u32) \<le> L" "unat ft' \<le> ?T + unat (0 :: u32)"
      using tries_measure_descent [OF lt, of rank bucket R L b "unat flocal"] Suc.prems(1) f ft lt by simp_all
    obtain work' out' got where r:
      "firstn_tries fuel e a leaf work1 bucket out out1 outpos cnt rep bucket ft' 0 = Ok (work', out', got)"
      "work_ok (env_map e) work'" "same_prefix outpos out1 out'"
      "\<forall>item. got = Some item \<longrightarrow> item_ok e a out outpos item out'"
      using Suc.IH [OF l bucket t(2) o1] by blast
    then show ?thesis using t Retry_Descent same_prefix_trans [OF t(3) r(3)] by simp
  qed
qed simp

text \<open>The entries from position \<open>p\<close> up to \<open>n\<close> are chosen items, each new with respect to those before it.\<close>

definition placed :: "choose_env \<Rightarrow> firstn_args \<Rightarrow> nat \<Rightarrow> int list \<Rightarrow> nat \<Rightarrow> int list option \<Rightarrow> bool" where
  "placed e a p out n out2 \<longleftrightarrow> (\<forall>k. p \<le> k \<and> k < n \<longrightarrow> item_ok e a out k (out ! k) out2)"

lemma placed_empty [simp]: "placed e a p out p out2"
  by (auto simp: placed_def)

lemma take_eq_nth: "take n xs = take n ys \<Longrightarrow> k < n \<Longrightarrow> xs ! k = ys ! k"
  by (metis nth_take)

lemma take_eq_take: "take n xs = take n ys \<Longrightarrow> k \<le> n \<Longrightarrow> take k xs = take k ys"
  by (metis min.absorb1 take_take)

lemma leaf_found_stable:
  assumes "same_prefix n out2 out2'" and "k < n" and "leaf_found e a k item out2"
  shows "leaf_found e a k item out2'"
proof (cases "fa_recurse_to_leaf a")
  case True
  with assms(3) obtain o2 where o2: "out2 = Some o2" by (auto simp: leaf_found_def)
  with assms(1) obtain o2' where o2': "out2' = Some o2'" "take n o2' = take n o2"
    by (auto simp: same_prefix_def)
  have "o2' ! k = o2 ! k" "take k o2' = take k o2"
    using take_eq_nth [OF o2'(2) assms(2)] take_eq_take [OF o2'(2)] assms(2) by simp_all
  then show ?thesis using assms(3) o2 o2' True by (simp add: leaf_found_def)
qed (simp add: leaf_found_def)

lemma item_ok_stable:
  assumes "take n out = take n out'" and "same_prefix n out2 out2'" and "k < n"
    and "item_ok e a out k (out ! k) out2"
  shows "item_ok e a out' k (out' ! k) out2'"
  using assms(4) take_eq_nth [OF assms(1,3)] take_eq_take [OF assms(1), of k] assms(3)
    leaf_found_stable [OF assms(2,3)]
  by (simp add: item_ok_def)

lemma same_prefix_le: "same_prefix n a b \<Longrightarrow> m \<le> n \<Longrightarrow> same_prefix m a b"
  by (cases a; cases b) (auto simp: same_prefix_def intro: take_eq_take)

definition leaves_ok :: "choose_env \<Rightarrow> firstn_args \<Rightarrow> leaf_chooser \<Rightarrow> nat \<Rightarrow> int list option \<Rightarrow> bool" where
  "leaves_ok e a leaf n out2 \<longleftrightarrow>
     (fa_recurse_to_leaf a \<longrightarrow>
        (\<exists>o2. out2 = Some o2 \<and> n \<le> length o2) \<and> leaf_ok e leaf \<and> unat (fa_vary_r a) \<le> 32)"

lemma leaves_ok_prefix: "leaves_ok e a leaf n out2 \<Longrightarrow> same_prefix p out2 out2' \<Longrightarrow> leaves_ok e a leaf n out2'"
  by (auto simp: leaves_ok_def same_prefix_def)

lemma firstn_reps_Ok:
  assumes e: "wf_env rank e" and bucket: "bucket_of (env_map e) bucket"
    and sane: "sane_retries rank L R e a"
    and fuel: "tries_measure rank L R (unat (fa_tries a)) bucket 0 0 < fuel"
    and "outpos + nat cnt \<le> length out" and "leaves_ok e a leaf (outpos + nat cnt) out2"
    and "work_ok (env_map e) work"
  shows "\<exists>work' out' out2' pos.
     firstn_reps fuel e a leaf work bucket out out2 outpos cnt rep = Ok (work', out', out2', pos) \<and>
     work_ok (env_map e) work' \<and> outpos \<le> pos \<and> pos \<le> outpos + nat cnt \<and>
     pos \<le> outpos + nat (fa_numrep a - int rep) \<and>
     length out' = length out \<and> take outpos out' = take outpos out \<and> same_prefix outpos out2 out2' \<and>
     placed e a outpos out' pos out2'"
  using assms(5-)
proof (induction "nat (fa_numrep a - int rep)" arbitrary: work out out2 outpos cnt rep)
  case 0
  then show ?case by (subst firstn_reps.simps) simp
next
  case (Suc d)
  show ?case
  proof (cases "cnt > 0")
    case False
    then show ?thesis using Suc.prems by (subst firstn_reps.simps) simp
  next
    case cnt: True
    have rep: "int rep < fa_numrep a" and d: "d = nat (fa_numrep a - int (Suc rep))" using Suc.hyps(2) by simp_all
    have o2: "out2_ok e a leaf outpos cnt out2"
      using Suc.prems(2) cnt by (auto simp: leaves_ok_def out2_ok_def)
    have f: "tries_measure rank L R (unat (fa_tries a)) bucket (unat (0 :: u32)) (unat (0 :: u32)) < fuel"
      using fuel by simp
    obtain work1 out1 got where t:
      "firstn_tries fuel e a leaf work bucket out out2 outpos cnt rep bucket 0 0 = Ok (work1, out1, got)"
      "work_ok (env_map e) work1" "same_prefix outpos out2 out1"
      "\<forall>item. got = Some item \<longrightarrow> item_ok e a out outpos item out1"
      using firstn_tries_Ok [OF e bucket sane _ f _ _ bucket Suc.prems(3) o2, of out rep] Suc.prems(1) by auto
    show ?thesis
    proof (cases got)
      case None
      obtain work' out' out2' pos where r:
        "firstn_reps fuel e a leaf work1 bucket out out1 outpos cnt (Suc rep) = Ok (work', out', out2', pos)"
        "work_ok (env_map e) work'" "outpos \<le> pos" "pos \<le> outpos + nat cnt"
        "pos \<le> outpos + nat (fa_numrep a - int (Suc rep))" "length out' = length out"
        "take outpos out' = take outpos out" "same_prefix outpos out1 out2'" "placed e a outpos out' pos out2'"
        using Suc.hyps(1) [OF d Suc.prems(1) leaves_ok_prefix [OF Suc.prems(2) t(3)] t(2)] by blast
      then show ?thesis
        using rep cnt t(1) None same_prefix_trans [OF t(3) r(8)]
        by (subst firstn_reps.simps) simp
    next
      case (Some item)
      have len: "outpos < length out" using Suc.prems(1) cnt by simp
      let ?out = "out[outpos := item]"
      have pre: "Suc outpos + nat (cnt - 1) \<le> length ?out"
        "leaves_ok e a leaf (Suc outpos + nat (cnt - 1)) out1"
        using Suc.prems(1) leaves_ok_prefix [OF Suc.prems(2) t(3)] cnt
        by (simp_all add: leaves_ok_def nat_diff_distrib)
      obtain work' out' out2' pos where r:
        "firstn_reps fuel e a leaf work1 bucket ?out out1 (Suc outpos) (cnt - 1) (Suc rep) =
           Ok (work', out', out2', pos)"
        "work_ok (env_map e) work'" "Suc outpos \<le> pos" "pos \<le> Suc outpos + nat (cnt - 1)"
        "pos \<le> Suc outpos + nat (fa_numrep a - int (Suc rep))" "length out' = length ?out"
        "take (Suc outpos) out' = take (Suc outpos) ?out" "same_prefix (Suc outpos) out1 out2'"
        "placed e a (Suc outpos) out' pos out2'"
        using Suc.hyps(1) [OF d pre t(2)] by blast
      have here: "item_ok e a ?out outpos (?out ! outpos) out1"
        using t(4) Some len by (simp add: item_ok_def)
      have "item_ok e a out' outpos (out' ! outpos) out2'"
        by (rule item_ok_stable [OF r(7) [symmetric] r(8) _ here]) simp
      then have "placed e a outpos out' pos out2'"
        using r(9) by (auto simp: placed_def Suc_le_eq dest: le_neq_implies_less)
      moreover have "take outpos out' = take outpos out"
        using take_eq_take [OF r(7), of outpos] by simp
      moreover have "same_prefix outpos out2 out2'"
        using same_prefix_trans [OF t(3) same_prefix_le [OF r(8)]] by simp
      ultimately show ?thesis
        using rep cnt t(1) Some len r
        by (subst firstn_reps.simps) (auto simp: nat_diff_distrib)
    qed
  qed
qed
lemma distinct_if_each_new:
  "n \<le> length xs \<Longrightarrow> \<forall>k<n. xs ! k \<notin> set (take k xs) \<Longrightarrow> distinct (take n xs)"
  by (induction n) (simp_all add: take_Suc_conv_app_nth)

text \<open>Fuel that is enough for the retry loops of a call, whatever bucket it starts from.\<close>

definition choose_fuel :: "nat \<Rightarrow> nat \<Rightarrow> nat \<Rightarrow> nat" where
  "choose_fuel T L R = (T * (L + 2) + (L + 1)) * (R + 1) + R + 1"

lemma choose_fuel_enough:
  assumes "rank (bucket_id b) \<le> R" and "t \<le> T"
  shows "tries_measure rank L R t b 0 0 < choose_fuel T L R"
proof -
  have "(t * (L + 2) + (L + 1)) * (R + 1) \<le> (T * (L + 2) + (L + 1)) * (R + 1)"
    using assms(2) by (intro mult_le_mono1 add_le_mono1)
  then show ?thesis using assms(1) by (simp add: tries_measure_def choose_fuel_def)
qed

definition leaf_args :: "firstn_args \<Rightarrow> nat \<Rightarrow> u32 \<Rightarrow> firstn_args" where
  "leaf_args a outpos sub_r =
     \<lparr>fa_numrep = (if fa_stable a \<noteq> 0 then 1 else int outpos + 1), fa_type = 0,
      fa_tries = fa_recurse_tries a, fa_recurse_tries = 0,
      fa_local_retries = fa_local_retries a,
      fa_local_fallback_retries = fa_local_fallback_retries a,
      fa_recurse_to_leaf = False, fa_vary_r = fa_vary_r a, fa_stable = fa_stable a,
      fa_parent_r = sub_r\<rparr>"

lemma firstn_at_Suc:
  "firstn_at (Suc depth) fuel e a work bucket out outpos out_size out2 =
     firstn_reps fuel e a
       (\<lambda>work b o2 outpos cnt sub_r.
          bind_outcome (firstn_at depth fuel e (leaf_args a outpos sub_r) work b o2 outpos cnt None)
            (\<lambda>(work, o2, _, pos). Ok (work, o2, pos)))
       work bucket out out2 outpos out_size (if fa_stable a \<noteq> 0 then 0 else outpos)"
  by (simp add: leaf_args_def)

lemma leaf_call_ok:
  assumes e: "wf_env rank e" and sane: "sane_retries rank L R e a"
    and rec: "unat (fa_recurse_tries a) + L + 1 < 2 ^ 32"
    and fuel: "choose_fuel T L R \<le> fuel" and T: "unat (fa_recurse_tries a) \<le> T"
  shows "leaf_ok e (\<lambda>work b o2 outpos cnt sub_r.
    bind_outcome (firstn_at (Suc depth) fuel e (leaf_args a outpos sub_r) work b o2 outpos cnt None)
      (\<lambda>(work, o2, _, pos). Ok (work, o2, pos)))"
  unfolding leaf_ok_def
proof (intro allI impI)
  fix work b outpos and o2 :: "int list" and cnt :: int and sub_r
  assume work: "work_ok (env_map e) work" and b: "bucket_of (env_map e) b"
    and len: "outpos + nat cnt \<le> length o2" and cnt: "0 < cnt"
  let ?a = "leaf_args a outpos sub_r"
  have s: "sane_retries rank L R e ?a" using sane rec by (simp add: sane_retries_def leaf_args_def)
  have "rank (bucket_id b) \<le> R" using sane b by (simp add: sane_retries_def)
  then have f: "tries_measure rank L R (unat (fa_tries ?a)) b 0 0 < fuel"
    using choose_fuel_enough [of rank b R "unat (fa_recurse_tries a)" T L] T fuel
    by (simp add: leaf_args_def)
  have l: "leaves_ok e ?a leaf n out2" for leaf n out2 by (simp add: leaves_ok_def leaf_args_def)
  obtain work' o2' out2' pos where r:
    "firstn_at (Suc depth) fuel e ?a work b o2 outpos cnt None = Ok (work', o2', out2', pos)"
    "work_ok (env_map e) work'" "length o2' = length o2" "take outpos o2' = take outpos o2"
    "placed e ?a outpos o2' pos out2'"
    unfolding firstn_at_Suc
    using firstn_reps_Ok [OF e b s f len l work] by blast
  have "item_ok e ?a o2' outpos (o2' ! outpos) out2'" if "outpos < pos"
    using r(5) that by (simp add: placed_def)
  then have "outpos < pos \<longrightarrow> 0 \<le> o2' ! outpos \<and> o2' ! outpos \<notin> set (take outpos o2) \<and>
      is_out e (o2' ! outpos) = Ok False"
    using r(4) by (auto simp: item_ok_def leaf_args_def)
  then show "\<exists>work' o2' pos.
      bind_outcome (firstn_at (Suc depth) fuel e ?a work b o2 outpos cnt None)
        (\<lambda>(work, o2, _, pos). Ok (work, o2, pos)) = Ok (work', o2', pos) \<and>
      work_ok (env_map e) work' \<and> length o2' = length o2 \<and> take outpos o2' = take outpos o2 \<and>
      (outpos < pos \<longrightarrow> 0 \<le> o2' ! outpos \<and> o2' ! outpos \<notin> set (take outpos o2) \<and>
         is_out e (o2' ! outpos) = Ok False)"
    using r by simp
qed

lemma crush_choose_firstn_Ok:
  assumes e: "wf_env rank e" and bucket: "bucket_of (env_map e) bucket"
    and work: "work_ok (env_map e) work" and sane: "sane_retries rank L R e a"
    and rec: "unat (fa_recurse_tries a) + L + 1 < 2 ^ 32"
    and fuel: "choose_fuel (max (unat (fa_tries a)) (unat (fa_recurse_tries a))) L R \<le> fuel"
    and len: "outpos + nat out_size \<le> length out"
    and leaf: "fa_recurse_to_leaf a \<longrightarrow>
      (\<exists>o2. out2 = Some o2 \<and> outpos + nat out_size \<le> length o2) \<and> unat (fa_vary_r a) \<le> 32"
  shows "\<exists>work' out' out2' pos.
     crush_choose_firstn fuel e a work bucket out outpos out_size out2 = Ok (work', out', out2', pos) \<and>
     work_ok (env_map e) work' \<and> outpos \<le> pos \<and> pos \<le> outpos + nat out_size \<and>
     pos \<le> outpos + nat (fa_numrep a - (if fa_stable a \<noteq> 0 then 0 else int outpos)) \<and>
     length out' = length out \<and> take outpos out' = take outpos out \<and> same_prefix outpos out2 out2' \<and>
     placed e a outpos out' pos out2'"
proof -
  let ?leaf = "\<lambda>work b o2 outpos cnt sub_r.
    bind_outcome (firstn_at (Suc 0) fuel e (leaf_args a outpos sub_r) work b o2 outpos cnt None)
      (\<lambda>(work, o2, _, pos). Ok (work, o2, pos))"
  have R: "rank (bucket_id bucket) \<le> R" using sane bucket by (simp add: sane_retries_def)
  have f: "tries_measure rank L R (unat (fa_tries a)) bucket 0 0 < fuel"
    using choose_fuel_enough [of rank bucket R "unat (fa_tries a)"
        "max (unat (fa_tries a)) (unat (fa_recurse_tries a))" L] R fuel by simp
  have "leaf_ok e ?leaf" by (rule leaf_call_ok [OF e sane rec fuel]) simp
  then have l: "leaves_ok e a ?leaf (outpos + nat out_size) out2"
    using leaf by (auto simp: leaves_ok_def)
  have two: "(2 :: nat) = Suc (Suc 0)" by simp
  show ?thesis
    unfolding crush_choose_firstn_def two firstn_at_Suc
    using firstn_reps_Ok [OF e bucket sane f len l work, of "if fa_stable a \<noteq> 0 then 0 else outpos"]
    by (cases "fa_stable a = 0") simp_all
qed
section \<open>Breadth-first placement\<close>

text \<open>Only the entries in \<open>[lo, hi)\<close> change.\<close>

definition frame :: "nat \<Rightarrow> nat \<Rightarrow> 'a list \<Rightarrow> 'a list \<Rightarrow> bool" where
  "frame lo hi xs ys \<longleftrightarrow>
     length ys = length xs \<and> (\<forall>k<length xs. k < lo \<or> hi \<le> k \<longrightarrow> ys ! k = xs ! k)"

lemma frame_refl [simp]: "frame lo hi xs xs"
  by (simp add: frame_def)

lemma frame_trans: "frame lo hi xs ys \<Longrightarrow> frame lo hi ys zs \<Longrightarrow> frame lo hi xs zs"
  by (simp add: frame_def)

lemma frame_widen: "frame lo hi xs ys \<Longrightarrow> lo' \<le> lo \<Longrightarrow> hi \<le> hi' \<Longrightarrow> frame lo' hi' xs ys"
  by (auto simp: frame_def)

lemma frame_update [simp]: "lo \<le> k \<Longrightarrow> k < hi \<Longrightarrow> frame lo hi xs (xs[k := v])"
  by (auto simp: frame_def nth_list_update)

definition evolves :: "nat \<Rightarrow> nat \<Rightarrow> indep_state \<Rightarrow> indep_state \<Rightarrow> bool" where
  "evolves lo hi s s' \<longleftrightarrow>
     frame lo hi (is_out1 s) (is_out1 s') \<and> rel_option (frame lo hi) (is_out2 s) (is_out2 s')"

lemma evolves_refl [simp]: "evolves lo hi s s"
  by (cases "is_out2 s") (simp_all add: evolves_def)

lemma evolves_trans: "evolves lo hi s s' \<Longrightarrow> evolves lo hi s' s'' \<Longrightarrow> evolves lo hi s s''"
  by (cases "is_out2 s"; cases "is_out2 s'"; cases "is_out2 s''")
    (auto simp: evolves_def intro: frame_trans)

lemma evolves_widen: "evolves lo hi s s' \<Longrightarrow> lo' \<le> lo \<Longrightarrow> hi \<le> hi' \<Longrightarrow> evolves lo' hi' s s'"
  by (cases "is_out2 s"; cases "is_out2 s'") (auto simp: evolves_def intro: frame_widen)

text \<open>A value of \<open>out\<close>: open, given up, or an item of the wanted type that is not out.\<close>

definition device_in :: "choose_env \<Rightarrow> int \<Rightarrow> bool" where
  "device_in e v \<longleftrightarrow> 0 \<le> v \<and> is_out e v = Ok False"

definition indep_entry :: "choose_env \<Rightarrow> indep_args \<Rightarrow> int \<Rightarrow> bool" where
  "indep_entry e a v \<longleftrightarrow>
     v = CRUSH_ITEM_UNDEF \<or> v = CRUSH_ITEM_NONE \<or>
     item_type e v = Ok (ia_type a) \<and> (0 \<le> v \<longleftrightarrow> ia_type a = 0) \<and> (0 \<le> v \<longrightarrow> is_out e v = Ok False)"

definition leaf_entry :: "choose_env \<Rightarrow> indep_args \<Rightarrow> int \<Rightarrow> int \<Rightarrow> bool" where
  "leaf_entry e a v w \<longleftrightarrow>
     0 \<le> w \<and> (ia_type a \<noteq> 0 \<longrightarrow> (if v < 0 then device_in e w else w \<in> {CRUSH_ITEM_UNDEF, CRUSH_ITEM_NONE}))"

definition indep_inv :: "choose_env \<Rightarrow> indep_args \<Rightarrow> nat \<Rightarrow> nat \<Rightarrow> indep_state \<Rightarrow> bool" where
  "indep_inv e a outpos endpos s \<longleftrightarrow>
     work_ok (env_map e) (is_work s) \<and> endpos \<le> length (is_out1 s) \<and>
     (\<forall>k. outpos \<le> k \<and> k < endpos \<longrightarrow> indep_entry e a (is_out1 s ! k)) \<and>
     (\<forall>j k. outpos \<le> j \<and> j < endpos \<and> outpos \<le> k \<and> k < endpos \<and> j \<noteq> k \<and> is_out1 s ! j = is_out1 s ! k \<longrightarrow>
        is_out1 s ! j \<in> {CRUSH_ITEM_UNDEF, CRUSH_ITEM_NONE}) \<and>
     (ia_recurse_to_leaf a \<longrightarrow>
        (\<exists>o2. is_out2 s = Some o2 \<and> endpos \<le> length o2 \<and>
           (\<forall>k. outpos \<le> k \<and> k < endpos \<longrightarrow> leaf_entry e a (is_out1 s ! k) (o2 ! k))))"

definition indep_leaf_ok :: "choose_env \<Rightarrow> indep_leaf_chooser \<Rightarrow> bool" where
  "indep_leaf_ok e leaf \<longleftrightarrow>
     (\<forall>work b o2 rep r.
        work_ok (env_map e) work \<longrightarrow> bucket_of (env_map e) b \<longrightarrow> rep < length o2 \<longrightarrow>
        (\<exists>work' o2'. leaf work b o2 rep r = Ok (work', o2') \<and> work_ok (env_map e) work' \<and>
           frame rep (Suc rep) o2 o2' \<and> (o2' ! rep = CRUSH_ITEM_NONE \<or> device_in e (o2' ! rep))))"

lemma indep_r_Ok:
  assumes "0 < ia_numrep a" and "ia_numrep a < 2 ^ 32"
  shows "\<exists>r. indep_r a b rep ftotal = Ok r"
proof -
  have "uint (word_of_int (ia_numrep a) :: u32) = ia_numrep a"
    using assms by (simp add: uint_word_of_int)
  then have "(word_of_int (ia_numrep a) :: u32) \<noteq> 0" using assms(1) by auto
  then show ?thesis by (cases "bucket_alg b") (simp_all add: indep_r_def Let_def)
qed

text \<open>One position changes.\<close>

lemma indep_inv_update:
  assumes inv: "indep_inv e a outpos endpos s" and rep: "outpos \<le> rep" "rep < endpos"
    and out: "is_out1 s' = (is_out1 s)[rep := v]" and work: "work_ok (env_map e) (is_work s')"
    and v: "indep_entry e a v"
    and new: "v \<in> {CRUSH_ITEM_UNDEF, CRUSH_ITEM_NONE} \<or> v \<notin> set (drop outpos (take endpos (is_out1 s)))"
    and frame: "rel_option (frame rep (Suc rep)) (is_out2 s) (is_out2 s')"
    and leaf: "\<And>o2. ia_recurse_to_leaf a \<Longrightarrow> is_out2 s' = Some o2 \<Longrightarrow> leaf_entry e a v (o2 ! rep)"
  shows "indep_inv e a outpos endpos s'"
proof -
  have len: "endpos \<le> length (is_out1 s)" using inv by (simp add: indep_inv_def)
  have notin: "is_out1 s ! k \<noteq> v" if "outpos \<le> k" "k < endpos" "v \<notin> {CRUSH_ITEM_UNDEF, CRUSH_ITEM_NONE}" for k
  proof -
    have "is_out1 s ! k = drop outpos (take endpos (is_out1 s)) ! (k - outpos)"
      "k - outpos < length (drop outpos (take endpos (is_out1 s)))"
      using that len by simp_all
    then have "is_out1 s ! k \<in> set (drop outpos (take endpos (is_out1 s)))" by (metis nth_mem)
    then show ?thesis using new that(3) by auto
  qed
  have 1: "indep_entry e a (is_out1 s' ! k)" if "outpos \<le> k" "k < endpos" for k
    using inv that v len rep by (cases "k = rep") (simp_all add: out indep_inv_def)
  have old: "is_out1 s ! j \<in> {CRUSH_ITEM_UNDEF, CRUSH_ITEM_NONE}"
    if "outpos \<le> j" "j < endpos" "outpos \<le> k" "k < endpos" "j \<noteq> k" "is_out1 s ! j = is_out1 s ! k" for j k
    using inv that unfolding indep_inv_def by blast
  have 2: "is_out1 s' ! j \<in> {CRUSH_ITEM_UNDEF, CRUSH_ITEM_NONE}"
    if "outpos \<le> j" "j < endpos" "outpos \<le> k" "k < endpos" "j \<noteq> k" "is_out1 s' ! j = is_out1 s' ! k" for j k
    using that old [OF that(1-5)] notin [of j] notin [of k] len rep
    by (cases "j = rep"; cases "k = rep") (auto simp: out)
  have 3: "\<exists>o2. is_out2 s' = Some o2 \<and> endpos \<le> length o2 \<and>
      (\<forall>k. outpos \<le> k \<and> k < endpos \<longrightarrow> leaf_entry e a (is_out1 s' ! k) (o2 ! k))"
    if rec: "ia_recurse_to_leaf a"
  proof -
    obtain o2 where o2: "is_out2 s = Some o2" "endpos \<le> length o2"
      "\<forall>k. outpos \<le> k \<and> k < endpos \<longrightarrow> leaf_entry e a (is_out1 s ! k) (o2 ! k)"
      using inv rec unfolding indep_inv_def by blast
    with frame obtain o2' where f: "is_out2 s' = Some o2'" "frame rep (Suc rep) o2 o2'"
      by (cases "is_out2 s'") auto
    have "o2' ! k = o2 ! k" if "k < length o2" "k \<noteq> rep" for k
      using f(2) that by (cases "k < rep") (simp_all add: frame_def)
    then have o2': "is_out2 s' = Some o2'" "length o2' = length o2"
      "\<forall>k<length o2. k \<noteq> rep \<longrightarrow> o2' ! k = o2 ! k"
      using f by (auto simp: frame_def)
    have "leaf_entry e a (is_out1 s' ! k) (o2' ! k)" if "outpos \<le> k" "k < endpos" for k
      using that o2 o2' leaf [OF rec o2'(1)] len by (cases "k = rep") (auto simp: out)
    then show ?thesis using o2' o2(2) by auto
  qed
  have len': "endpos \<le> length (is_out1 s')" using len out by simp
  show ?thesis unfolding indep_inv_def using 1 2 3 work len' by blast
qed

lemma indep_give_up_Ok:
  assumes inv: "indep_inv e a outpos endpos s" and rep: "outpos \<le> rep" "rep < endpos"
    and o2: "rel_option (\<lambda>_ o2. rep < length o2) (is_out2 s) (is_out2 s)"
  shows "\<exists>s'. indep_give_up rep s = Ok s' \<and> indep_inv e a outpos endpos s' \<and> evolves rep (Suc rep) s s'"
proof -
  have len: "rep < length (is_out1 s)" using inv rep by (simp add: indep_inv_def)
  obtain s' where s': "indep_give_up rep s = Ok s'" "is_work s' = is_work s"
    "is_out1 s' = (is_out1 s)[rep := CRUSH_ITEM_NONE]"
    "is_out2 s' = map_option (\<lambda>o2. o2[rep := CRUSH_ITEM_NONE]) (is_out2 s)"
    using len o2 by (cases "is_out2 s") (simp_all add: indep_give_up_def set_out_def set_out2_def)
  have fr: "rel_option (frame rep (Suc rep)) (is_out2 s) (is_out2 s')"
    using s'(4) by (cases "is_out2 s") simp_all
  have "indep_inv e a outpos endpos s'"
  proof (rule indep_inv_update [OF inv rep s'(3) _ _ _ fr])
    show "work_ok (env_map e) (is_work s')" using inv s'(2) by (simp add: indep_inv_def)
    show "leaf_entry e a CRUSH_ITEM_NONE (ov ! rep)" if "is_out2 s' = Some ov" for ov
      using that s'(4) o2 by (cases "is_out2 s") (auto simp: leaf_entry_def)
  qed (simp_all add: indep_entry_def)
  moreover have "evolves rep (Suc rep) s s'"
    using s'(3) fr by (simp add: evolves_def)
  ultimately show ?thesis using s'(1) by blast
qed

lemma indep_leaf_Ok:
  assumes m: "wf_map rank (env_map e)" and b: "bucket_of (env_map e) b" and item: "item \<in> set (bucket_items b)"
    and work: "work_ok (env_map e) (is_work s)"
    and leaf: "ia_recurse_to_leaf a \<longrightarrow> indep_leaf_ok e leaf \<and> (\<exists>o2. is_out2 s = Some o2 \<and> rep < length o2)"
  shows "\<exists>s' no_leaf. indep_leaf e a leaf rep r item s = Ok (s', no_leaf) \<and>
     work_ok (env_map e) (is_work s') \<and> is_out1 s' = is_out1 s \<and> is_left s' = is_left s \<and>
     rel_option (frame rep (Suc rep)) (is_out2 s) (is_out2 s') \<and>
     (ia_recurse_to_leaf a \<longrightarrow>
        (\<exists>o2. is_out2 s' = Some o2 \<and>
           (if 0 \<le> item then o2 ! rep = item
            else if no_leaf then o2 ! rep = CRUSH_ITEM_NONE else device_in e (o2 ! rep)))) \<and>
     (no_leaf \<longrightarrow> ia_recurse_to_leaf a \<and> item < 0)"
proof (cases "ia_recurse_to_leaf a")
  case False
  then show ?thesis using work by (cases "is_out2 s") (auto simp: indep_leaf_def)
next
  case True
  with leaf obtain o2 where o2: "indep_leaf_ok e leaf" "is_out2 s = Some o2" "rep < length o2" by auto
  show ?thesis
  proof (cases "item < 0")
    case False
    then show ?thesis using True o2 work by (auto simp: indep_leaf_def)
  next
    case neg: True
    obtain c where c: "get_bucket (env_map e) (- 1 - item) = Ok c" "bucket_of (env_map e) c"
      by (rule child_bucket [OF m b item neg])
    obtain work' o2' where l: "leaf (is_work s) c o2 rep r = Ok (work', o2')" "work_ok (env_map e) work'"
      "frame rep (Suc rep) o2 o2'" "o2' ! rep = CRUSH_ITEM_NONE \<or> device_in e (o2' ! rep)"
      using o2 work c(2) unfolding indep_leaf_ok_def by blast
    then have "rep < length o2'" using o2(3) by (simp add: frame_def)
    then have "indep_leaf e a leaf rep r item s =
        Ok (s\<lparr>is_work := work', is_out2 := Some o2'\<rparr>, o2' ! rep = CRUSH_ITEM_NONE)"
      using True neg o2(2) c(1) l(1) by (simp add: indep_leaf_def)
    then show ?thesis using l True neg o2(2) by auto
  qed
qed

lemma indep_inv_work:
  assumes "indep_inv e a outpos endpos s" and "work_ok (env_map e) w"
  shows "indep_inv e a outpos endpos (s\<lparr>is_work := w\<rparr>)"
proof -
  have eq: "is_work (s\<lparr>is_work := w\<rparr>) = w" "is_out1 (s\<lparr>is_work := w\<rparr>) = is_out1 s"
    "is_out2 (s\<lparr>is_work := w\<rparr>) = is_out2 s" by simp_all
  show ?thesis using assms unfolding indep_inv_def eq by (elim conjE) (intro conjI)
qed

lemma indep_descend_Ok:
  assumes e: "wf_env rank e" and num: "0 < ia_numrep a" "ia_numrep a < 2 ^ 32"
    and rep: "outpos \<le> rep" "rep < endpos" and leaf: "ia_recurse_to_leaf a \<longrightarrow> indep_leaf_ok e leaf"
    and "rank (bucket_id b) < fuel" and "bucket_of (env_map e) b"
    and "indep_inv e a outpos endpos s" and "is_out1 s ! rep = CRUSH_ITEM_UNDEF"
    and "rel_option (\<lambda>_ o2. rep < length o2) (is_out2 s) (is_out2 s)"
  shows "\<exists>s'. indep_descend fuel e a leaf outpos endpos rep ftotal b s = Ok s' \<and>
     indep_inv e a outpos endpos s' \<and> evolves rep (Suc rep) s s'"
  using assms(7-)
proof (induction fuel arbitrary: b s)
  case (Suc fuel)
  note b = Suc.prems(2) and inv = Suc.prems(3) and undef = Suc.prems(4) and o2 = Suc.prems(5)
  have m: "wf_map rank (env_map e)" using e by (simp add: wf_env_def)
  obtain r where r: "indep_r a b rep ftotal = Ok r" using indep_r_Ok [OF num] by blast
  show ?case
  proof (cases "bucket_size b = 0")
    case True
    then show ?thesis using r inv by simp
  next
    case sz: False
    have work: "work_ok (env_map e) (is_work s)" and len: "endpos \<le> length (is_out1 s)"
      using inv by (simp_all add: indep_inv_def)
    obtain work1 item where c: "choose_in e (is_work s) b r outpos = Ok (work1, item)"
      "work_ok (env_map e) work1" "item \<in> set (bucket_items b)"
      using choose_in_Ok [OF e b sz work] by blast
    define s1 where "s1 = s\<lparr>is_work := work1\<rparr>"
    have s1: "indep_inv e a outpos endpos s1" "is_out1 s1 ! rep = CRUSH_ITEM_UNDEF"
      "rel_option (\<lambda>_ o2. rep < length o2) (is_out2 s1) (is_out2 s1)"
      "work_ok (env_map e) (is_work s1)" "is_out1 s1 = is_out1 s" "is_out2 s1 = is_out2 s"
      using indep_inv_work [OF inv c(2)] c(2) undef o2 by (simp_all add: s1_def)
    have ev: "evolves rep (Suc rep) s1 s' \<Longrightarrow> evolves rep (Suc rep) s s'" for s'
      using s1(5,6) by (simp add: evolves_def)
    obtain t where t: "item_type e item = Ok t" "t = 0 \<longleftrightarrow> 0 \<le> item"
      by (rule item_type_Ok [OF m b c(3)])
    note step = r sz c(1) t(1) s1_def [symmetric]
    consider (none) "item \<ge> max_devices (env_map e) \<or> t \<noteq> ia_type a \<and> 0 \<le> item"
      | (down) "item < max_devices (env_map e)" "t \<noteq> ia_type a" "item < 0"
      | (collide) "item < max_devices (env_map e)" "t = ia_type a"
          "item \<in> set (drop outpos (take endpos (is_out1 s1)))"
      | (fresh) "item < max_devices (env_map e)" "t = ia_type a"
          "item \<notin> set (drop outpos (take endpos (is_out1 s1)))" by fastforce
    then show ?thesis
    proof cases
      case none
      then have "indep_descend (Suc fuel) e a leaf outpos endpos rep ftotal b s = indep_give_up rep s1"
        using step by auto
      then show ?thesis using indep_give_up_Ok [OF s1(1) rep s1(3)] ev by auto
    next
      case down
      obtain c' where c': "get_bucket (env_map e) (- 1 - item) = Ok c'" "bucket_of (env_map e) c'"
        "- 1 - item < max_buckets (env_map e)" "rank (bucket_id c') < rank (bucket_id b)"
        by (rule child_bucket [OF m b c(3) down(3)])
      then have "indep_descend (Suc fuel) e a leaf outpos endpos rep ftotal b s =
          indep_descend fuel e a leaf outpos endpos rep ftotal c' s1"
        using step down by simp
      moreover have "rank (bucket_id c') < fuel" using c'(4) Suc.prems(1) by simp
      ultimately show ?thesis using Suc.IH [OF _ c'(2) s1(1,2,3)] ev by auto
    next
      case collide
      then have "indep_descend (Suc fuel) e a leaf outpos endpos rep ftotal b s = Ok s1"
        using step len s1(5) by simp
      then show ?thesis using s1(1) ev by auto
    next
      case fresh
      have "ia_recurse_to_leaf a \<longrightarrow> indep_leaf_ok e leaf \<and> (\<exists>o2. is_out2 s1 = Some o2 \<and> rep < length o2)"
        using leaf s1(1) rep unfolding indep_inv_def by fastforce
      then obtain s2 no_leaf where l: "indep_leaf e a leaf rep r item s1 = Ok (s2, no_leaf)"
        "work_ok (env_map e) (is_work s2)" "is_out1 s2 = is_out1 s1"
        "rel_option (frame rep (Suc rep)) (is_out2 s1) (is_out2 s2)"
        "ia_recurse_to_leaf a \<longrightarrow>
          (\<exists>o2. is_out2 s2 = Some o2 \<and>
             (if 0 \<le> item then o2 ! rep = item
              else if no_leaf then o2 ! rep = CRUSH_ITEM_NONE else device_in e (o2 ! rep)))"
        "no_leaf \<longrightarrow> ia_recurse_to_leaf a \<and> item < 0"
        using indep_leaf_Ok [OF m b c(3) s1(4), of a leaf rep r] by blast
      have rlen: "rep < length (is_out1 s2)" using rep len l(3) s1(5) by simp
      obtain out where out: "(if t = 0 then is_out e item else Ok False) = Ok out"
        using is_out_Ok [OF e, of item] t(2) by (cases "t = 0") auto
      have go: "indep_descend (Suc fuel) e a leaf outpos endpos rep ftotal b s =
          (if no_leaf \<or> out then Ok s2
           else bind_outcome (set_out rep item s2) (\<lambda>s. Ok (s\<lparr>is_left := is_left s - 1\<rparr>)))"
        using step fresh l(1) out len s1(5) by (simp add: Let_def)
      show ?thesis
      proof (cases "no_leaf \<or> out")
        case True
        have "indep_inv e a outpos endpos s2"
        proof (rule indep_inv_update [OF s1(1) rep _ l(2) _ _ l(4), where v = CRUSH_ITEM_UNDEF])
          show "is_out1 s2 = (is_out1 s1)[rep := CRUSH_ITEM_UNDEF]" using l(3) s1(2) by (metis list_update_id)
          show "leaf_entry e a CRUSH_ITEM_UNDEF (ov ! rep)"
            if "ia_recurse_to_leaf a" "is_out2 s2 = Some ov" for ov
            using l(5) that t(2) fresh(2) True out
            by (auto simp: leaf_entry_def device_in_def split: if_splits)
        qed (simp_all add: indep_entry_def)
        moreover have "evolves rep (Suc rep) s1 s2" using l(3,4) by (simp add: evolves_def)
        ultimately show ?thesis using go True ev by auto
      next
        case False
        define s3 where "s3 = s2\<lparr>is_out1 := (is_out1 s2)[rep := item], is_left := is_left s2 - 1\<rparr>"
        have g: "indep_descend (Suc fuel) e a leaf outpos endpos rep ftotal b s = Ok s3"
          using go False rlen by (simp add: set_out_def s3_def)
        have "indep_inv e a outpos endpos s3"
        proof (rule indep_inv_update [OF s1(1) rep, where v = item])
          show "is_out1 s3 = (is_out1 s1)[rep := item]" using l(3) by (simp add: s3_def)
          show "work_ok (env_map e) (is_work s3)" using l(2) by (simp add: s3_def)
          show "indep_entry e a item"
            using t fresh out False by (auto simp: indep_entry_def split: if_splits)
          show "item \<in> {CRUSH_ITEM_UNDEF, CRUSH_ITEM_NONE} \<or> item \<notin> set (drop outpos (take endpos (is_out1 s1)))"
            using fresh by simp
          show "rel_option (frame rep (Suc rep)) (is_out2 s1) (is_out2 s3)" using l(4) by (simp add: s3_def)
          show "leaf_entry e a item (ov ! rep)"
            if "ia_recurse_to_leaf a" "is_out2 s3 = Some ov" for ov
            using that l(5) t(2) fresh(2) False
            by (auto simp: leaf_entry_def device_in_def s3_def split: if_splits)
        qed
        moreover have "evolves rep (Suc rep) s1 s3"
          using l(3,4) by (simp add: evolves_def s3_def)
        ultimately show ?thesis using g ev by auto
      qed
    qed
  qed
qed simp
definition fits :: "nat \<Rightarrow> indep_state \<Rightarrow> bool" where
  "fits n s \<longleftrightarrow> n \<le> length (is_out1 s) \<and> (\<forall>o2. is_out2 s = Some o2 \<longrightarrow> n \<le> length o2)"

lemma fits_evolves: "fits n s \<Longrightarrow> evolves lo hi s s' \<Longrightarrow> fits n s'"
  by (cases "is_out2 s"; cases "is_out2 s'") (auto simp: fits_def evolves_def frame_def)

lemma fits_out2: "fits n s \<Longrightarrow> k < n \<Longrightarrow> rel_option (\<lambda>_ o2. k < length o2) (is_out2 s) (is_out2 s)"
  by (cases "is_out2 s") (auto simp: fits_def)

lemma indep_round_Ok:
  assumes e: "wf_env rank e" and num: "0 < ia_numrep a" "ia_numrep a < 2 ^ 32"
    and leaf: "ia_recurse_to_leaf a \<longrightarrow> indep_leaf_ok e leaf"
    and fuel: "rank (bucket_id bucket) < fuel" and bucket: "bucket_of (env_map e) bucket"
    and "set reps \<subseteq> {outpos..<endpos}" and "indep_inv e a outpos endpos s" and "fits endpos s"
  shows "\<exists>s'. indep_round fuel e a leaf outpos endpos ftotal bucket reps s = Ok s' \<and>
     indep_inv e a outpos endpos s' \<and> evolves outpos endpos s s'"
  using assms(7-)
proof (induction reps arbitrary: s)
  case (Cons rep reps)
  have rep: "outpos \<le> rep" "rep < endpos" using Cons.prems(1) by auto
  have len: "rep < length (is_out1 s)" using rep Cons.prems(3) by (simp add: fits_def)
  obtain s1 where s1: "(if is_out1 s ! rep \<noteq> CRUSH_ITEM_UNDEF then Ok s
      else indep_descend fuel e a leaf outpos endpos rep ftotal bucket s) = Ok s1"
    "indep_inv e a outpos endpos s1" "evolves outpos endpos s s1"
  proof (cases "is_out1 s ! rep = CRUSH_ITEM_UNDEF")
    case True
    obtain s1 where "indep_descend fuel e a leaf outpos endpos rep ftotal bucket s = Ok s1"
      "indep_inv e a outpos endpos s1" "evolves rep (Suc rep) s s1"
      using indep_descend_Ok [OF e num rep leaf fuel bucket Cons.prems(2) True fits_out2 [OF Cons.prems(3) rep(2)]]
      by blast
    then show thesis
      using that [of s1] True rep evolves_widen [of rep "Suc rep" s s1 outpos endpos] by simp
  next
    case False
    then show thesis using that [of s] Cons.prems by simp
  qed
  obtain s' where "indep_round fuel e a leaf outpos endpos ftotal bucket reps s1 = Ok s'"
    "indep_inv e a outpos endpos s'" "evolves outpos endpos s1 s'"
    using Cons.IH [OF _ s1(2) fits_evolves [OF Cons.prems(3) s1(3)]] Cons.prems(1) by auto
  then show ?case using s1 len evolves_trans [OF s1(3)] by simp
qed simp

lemma indep_rounds_Ok:
  assumes e: "wf_env rank e" and num: "0 < ia_numrep a" "ia_numrep a < 2 ^ 32"
    and leaf: "ia_recurse_to_leaf a \<longrightarrow> indep_leaf_ok e leaf"
    and fuel: "rank (bucket_id bucket) < fuel" and bucket: "bucket_of (env_map e) bucket"
    and "indep_inv e a outpos endpos s" and "fits endpos s"
  shows "\<exists>s'. indep_rounds fuel e a leaf outpos endpos ftotal bucket s = Ok s' \<and>
     indep_inv e a outpos endpos s' \<and> evolves outpos endpos s s'"
  using assms(7-)
proof (induction "unat (ia_tries a) - ftotal" arbitrary: ftotal s)
  case 0
  then show ?case by (subst indep_rounds.simps) simp
next
  case (Suc d)
  show ?case
  proof (cases "is_left s > 0")
    case False
    then show ?thesis using Suc.prems by (subst indep_rounds.simps) simp
  next
    case True
    have d: "d = unat (ia_tries a) - Suc ftotal" and lt: "ftotal < unat (ia_tries a)" using Suc.hyps(2) by simp_all
    obtain s1 where s1: "indep_round fuel e a leaf outpos endpos ftotal bucket [outpos..<endpos] s = Ok s1"
      "indep_inv e a outpos endpos s1" "evolves outpos endpos s s1"
      using indep_round_Ok [OF e num leaf fuel bucket _ Suc.prems, of "[outpos..<endpos]" ftotal] by auto
    obtain s' where "indep_rounds fuel e a leaf outpos endpos (Suc ftotal) bucket s1 = Ok s'"
      "indep_inv e a outpos endpos s'" "evolves outpos endpos s1 s'"
      using Suc.hyps(1) [OF d s1(2) fits_evolves [OF Suc.prems(2) s1(3)]] by blast
    then show ?thesis using True lt s1 evolves_trans [OF s1(3)] by (subst indep_rounds.simps) simp
  qed
qed

text \<open>The first and the last loop rewrite the entries of their positions.\<close>

definition rewritten :: "('a \<Rightarrow> 'a) \<Rightarrow> nat list \<Rightarrow> 'a list \<Rightarrow> 'a list \<Rightarrow> bool" where
  "rewritten f reps xs ys \<longleftrightarrow>
     length ys = length xs \<and> (\<forall>k<length xs. ys ! k = (if k \<in> set reps then f (xs ! k) else xs ! k))"

lemma rewritten_Nil [simp]: "rewritten f [] xs xs"
  by (simp add: rewritten_def)

lemma rewritten_Cons:
  assumes "rep \<notin> set reps" and "rep < length xs" and "rewritten f reps (xs[rep := f (xs ! rep)]) ys"
  shows "rewritten f (rep # reps) xs ys"
  using assms by (auto simp: rewritten_def nth_list_update)

lemma rewritten_frame:
  "rewritten f reps xs ys \<Longrightarrow> set reps \<subseteq> {lo..<hi} \<Longrightarrow> frame lo hi xs ys"
  by (auto simp: rewritten_def frame_def)

definition undef_to_none :: "int \<Rightarrow> int" where
  "undef_to_none v = (if v = CRUSH_ITEM_UNDEF then CRUSH_ITEM_NONE else v)"

lemma indep_clear_Ok:
  assumes "distinct reps" and "set reps \<subseteq> {..<n}" and "fits n s"
  shows "\<exists>s'. indep_clear reps s = Ok s' \<and> is_work s' = is_work s \<and>
     rewritten (\<lambda>_. CRUSH_ITEM_UNDEF) reps (is_out1 s) (is_out1 s') \<and>
     rel_option (rewritten (\<lambda>_. CRUSH_ITEM_UNDEF) reps) (is_out2 s) (is_out2 s')"
  using assms
proof (induction reps arbitrary: s)
  case Nil
  then show ?case by (cases "is_out2 s") simp_all
next
  case (Cons rep reps)
  define s1 where "s1 = s\<lparr>is_out1 := (is_out1 s)[rep := CRUSH_ITEM_UNDEF],
    is_out2 := map_option (\<lambda>o2. o2[rep := CRUSH_ITEM_UNDEF]) (is_out2 s)\<rparr>"
  have rep: "rep < n" "rep \<notin> set reps" using Cons.prems by auto
  have fits: "fits n s1" using Cons.prems(3) by (auto simp: fits_def s1_def)
  have step: "indep_clear (rep # reps) s = indep_clear reps s1"
    using rep Cons.prems(3)
    by (cases s, cases "is_out2 s") (simp_all add: set_out_def set_out2_def fits_def s1_def)
  obtain s' where s': "indep_clear reps s1 = Ok s'" "is_work s' = is_work s1"
    "rewritten (\<lambda>_. CRUSH_ITEM_UNDEF) reps (is_out1 s1) (is_out1 s')"
    "rel_option (rewritten (\<lambda>_. CRUSH_ITEM_UNDEF) reps) (is_out2 s1) (is_out2 s')"
    using Cons.IH [OF _ _ fits] Cons.prems by auto
  have "rewritten (\<lambda>_. CRUSH_ITEM_UNDEF) (rep # reps) (is_out1 s) (is_out1 s')"
    using rep Cons.prems(3) s'(3) by (intro rewritten_Cons) (simp_all add: fits_def s1_def)
  moreover have "rel_option (rewritten (\<lambda>_. CRUSH_ITEM_UNDEF) (rep # reps)) (is_out2 s) (is_out2 s')"
    using rep Cons.prems(3) s'(4)
    by (cases "is_out2 s"; cases "is_out2 s'") (auto simp: fits_def s1_def intro!: rewritten_Cons)
  ultimately show ?case using step s'(1,2) by (simp add: s1_def)
qed

lemma indep_finish_Ok:
  assumes "distinct reps" and "set reps \<subseteq> {..<n}" and "fits n s"
  shows "\<exists>s'. indep_finish reps s = Ok s' \<and> is_work s' = is_work s \<and>
     rewritten undef_to_none reps (is_out1 s) (is_out1 s') \<and>
     rel_option (rewritten undef_to_none reps) (is_out2 s) (is_out2 s')"
  using assms
proof (induction reps arbitrary: s)
  case Nil
  then show ?case by (cases "is_out2 s") simp_all
next
  case (Cons rep reps)
  define s1 where "s1 = s\<lparr>is_out1 := (is_out1 s)[rep := undef_to_none (is_out1 s ! rep)],
    is_out2 := map_option (\<lambda>o2. o2[rep := undef_to_none (o2 ! rep)]) (is_out2 s)\<rparr>"
  have rep: "rep < n" "rep \<notin> set reps" using Cons.prems by auto
  have fits: "fits n s1" using Cons.prems(3) by (auto simp: fits_def s1_def)
  have step: "indep_finish (rep # reps) s = indep_finish reps s1"
    using rep Cons.prems(3)
    by (cases s, cases "is_out2 s")
      (auto simp: set_out_def set_out2_def fits_def s1_def undef_to_none_def)
  obtain s' where s': "indep_finish reps s1 = Ok s'" "is_work s' = is_work s1"
    "rewritten undef_to_none reps (is_out1 s1) (is_out1 s')"
    "rel_option (rewritten undef_to_none reps) (is_out2 s1) (is_out2 s')"
    using Cons.IH [OF _ _ fits] Cons.prems by auto
  have "rewritten undef_to_none (rep # reps) (is_out1 s) (is_out1 s')"
    using rep Cons.prems(3) s'(3) by (intro rewritten_Cons) (simp_all add: fits_def s1_def)
  moreover have "rel_option (rewritten undef_to_none (rep # reps)) (is_out2 s) (is_out2 s')"
    using rep Cons.prems(3) s'(4)
    by (cases "is_out2 s"; cases "is_out2 s'") (auto simp: fits_def s1_def intro!: rewritten_Cons)
  ultimately show ?case using step s'(1,2) by (simp add: s1_def)
qed

section \<open>The result of a breadth-first placement\<close>

text \<open>
  The positions hold a placeholder or an item of the wanted type that is not out, no item twice,
  and, when leaves of buckets are wanted, a leaf that is in exactly where a bucket was found.
\<close>

definition indep_result ::
    "choose_env \<Rightarrow> indep_args \<Rightarrow> nat \<Rightarrow> nat \<Rightarrow> int list \<Rightarrow> int list option \<Rightarrow> bool" where
  "indep_result e a lo hi out out2 \<longleftrightarrow>
     (\<forall>k. lo \<le> k \<and> k < hi \<longrightarrow>
        out ! k = CRUSH_ITEM_NONE \<or>
        item_type e (out ! k) = Ok (ia_type a) \<and> (0 \<le> out ! k \<longleftrightarrow> ia_type a = 0) \<and>
          (0 \<le> out ! k \<longrightarrow> is_out e (out ! k) = Ok False)) \<and>
     (\<forall>j k. lo \<le> j \<and> j < hi \<and> lo \<le> k \<and> k < hi \<and> j \<noteq> k \<and> out ! j = out ! k \<longrightarrow> out ! j = CRUSH_ITEM_NONE) \<and>
     (ia_recurse_to_leaf a \<longrightarrow>
        (\<forall>k. lo \<le> k \<and> k < hi \<longrightarrow> 0 \<le> the out2 ! k \<and>
           (ia_type a \<noteq> 0 \<longrightarrow>
              (if out ! k = CRUSH_ITEM_NONE then the out2 ! k = CRUSH_ITEM_NONE else device_in e (the out2 ! k)))))"

lemma device_in_less: "device_in e v \<Longrightarrow> v < env_weight_max e"
  by (auto simp: device_in_def is_out_def split: if_splits)

lemma indep_result_finish:
  assumes inv: "indep_inv e a lo hi s"
    and out: "rewritten undef_to_none [lo..<hi] (is_out1 s) out"
    and out2: "rel_option (rewritten undef_to_none [lo..<hi]) (is_out2 s) out2"
    and max: "env_weight_max e \<le> CRUSH_ITEM_UNDEF"
  shows "indep_result e a lo hi out out2"
proof -
  have len: "hi \<le> length (is_out1 s)" using inv by (simp add: indep_inv_def)
  have out_at: "out ! k = undef_to_none (is_out1 s ! k)" if "lo \<le> k" "k < hi" for k
    using out that len by (simp add: rewritten_def)
  have entry: "indep_entry e a (is_out1 s ! k)" if "lo \<le> k" "k < hi" for k
    using inv that unfolding indep_inv_def by blast
  have 1: "out ! k = CRUSH_ITEM_NONE \<or>
        item_type e (out ! k) = Ok (ia_type a) \<and> (0 \<le> out ! k \<longleftrightarrow> ia_type a = 0) \<and>
          (0 \<le> out ! k \<longrightarrow> is_out e (out ! k) = Ok False)" if "lo \<le> k" "k < hi" for k
    using entry [OF that] out_at [OF that] by (auto simp: indep_entry_def undef_to_none_def)
  have 2: "out ! j = CRUSH_ITEM_NONE"
    if jk: "lo \<le> j" "j < hi" "lo \<le> k" "k < hi" "j \<noteq> k" "out ! j = out ! k" for j k
  proof -
    have "is_out1 s ! j \<in> {CRUSH_ITEM_UNDEF, CRUSH_ITEM_NONE}" if "is_out1 s ! j = is_out1 s ! k"
      using inv jk(1-5) that unfolding indep_inv_def by blast
    then show ?thesis using jk out_at [OF jk(1,2)] out_at [OF jk(3,4)]
      by (auto simp: undef_to_none_def split: if_splits)
  qed
  have 3: "0 \<le> the out2 ! k \<and> (ia_type a \<noteq> 0 \<longrightarrow>
      (if out ! k = CRUSH_ITEM_NONE then the out2 ! k = CRUSH_ITEM_NONE else device_in e (the out2 ! k)))"
    if leaf: "ia_recurse_to_leaf a" and k: "lo \<le> k" "k < hi" for k
  proof -
    obtain o2 where o2: "is_out2 s = Some o2" "hi \<le> length o2" "leaf_entry e a (is_out1 s ! k) (o2 ! k)"
      using inv leaf k unfolding indep_inv_def by blast
    obtain o2' where o2': "out2 = Some o2'" "rewritten undef_to_none [lo..<hi] o2 o2'"
      using out2 o2(1) by (cases out2) auto
    have at: "the out2 ! k = undef_to_none (o2 ! k)" using o2' o2(2) k by (simp add: rewritten_def)
    have nonneg: "0 \<le> the out2 ! k" using at o2(3) by (auto simp: leaf_entry_def undef_to_none_def)
    show ?thesis
    proof (cases "ia_type a \<noteq> 0 \<and> is_out1 s ! k < 0")
      case True
      then have "device_in e (o2 ! k)" "out ! k \<noteq> CRUSH_ITEM_NONE"
        using o2(3) out_at [OF k] by (auto simp: leaf_entry_def undef_to_none_def)
      then show ?thesis using at max nonneg device_in_less [of e "o2 ! k"] by (auto simp: undef_to_none_def)
    next
      case False
      then have "ia_type a \<noteq> 0 \<longrightarrow> out ! k = CRUSH_ITEM_NONE \<and> the out2 ! k = CRUSH_ITEM_NONE"
        using o2(3) at out_at [OF k] entry [OF k]
        by (auto simp: leaf_entry_def undef_to_none_def indep_entry_def)
      then show ?thesis using nonneg by simp
    qed
  qed
  show ?thesis unfolding indep_result_def using 1 2 3 by blast
qed

lemma indep_clear_inv:
  assumes work: "work_ok (env_map e) (is_work s)" and fits: "fits hi s'"
    and eq: "is_work s' = is_work s"
    and out: "rewritten (\<lambda>_. CRUSH_ITEM_UNDEF) [lo..<hi] (is_out1 s) (is_out1 s')"
    and out2: "rel_option (rewritten (\<lambda>_. CRUSH_ITEM_UNDEF) [lo..<hi]) (is_out2 s) (is_out2 s')"
    and leaf: "ia_recurse_to_leaf a \<longrightarrow> is_out2 s \<noteq> None"
  shows "indep_inv e a lo hi s'"
proof -
  have len: "hi \<le> length (is_out1 s')" using fits by (simp add: fits_def)
  have at: "is_out1 s' ! k = CRUSH_ITEM_UNDEF" if "lo \<le> k" "k < hi" for k
    using out that len by (simp add: rewritten_def)
  have at2: "o2 ! k = CRUSH_ITEM_UNDEF" "hi \<le> length o2" if "is_out2 s' = Some o2" "lo \<le> k" "k < hi" for k o2
    using out2 that fits by (cases "is_out2 s"; auto simp: rewritten_def fits_def)+
  have 3: "\<exists>o2. is_out2 s' = Some o2 \<and> hi \<le> length o2 \<and>
      (\<forall>k. lo \<le> k \<and> k < hi \<longrightarrow> leaf_entry e a (is_out1 s' ! k) (o2 ! k))"
    if rec: "ia_recurse_to_leaf a"
  proof -
    obtain o2 where o2: "is_out2 s' = Some o2" using leaf rec out2 by (cases "is_out2 s'") auto
    moreover have "hi \<le> length o2" using fits o2 by (simp add: fits_def)
    ultimately show ?thesis using at at2(1) [OF o2] by (simp add: leaf_entry_def)
  qed
  show ?thesis unfolding indep_inv_def using work eq len 3 at by (simp add: indep_entry_def)
qed

definition indep_leaf_args :: "indep_args \<Rightarrow> u32 \<Rightarrow> indep_args" where
  "indep_leaf_args a r =
     \<lparr>ia_numrep = ia_numrep a, ia_type = 0, ia_tries = ia_recurse_tries a,
      ia_recurse_tries = 0, ia_recurse_to_leaf = False, ia_parent_r = r\<rparr>"

definition indep_leaf_call :: "nat \<Rightarrow> nat \<Rightarrow> choose_env \<Rightarrow> indep_args \<Rightarrow> indep_leaf_chooser" where
  "indep_leaf_call depth fuel e a work b o2 rep r =
     bind_outcome (indep_at depth fuel e (indep_leaf_args a r) work b 1 o2 rep None)
       (\<lambda>(work, o2, _). Ok (work, o2))"

lemma indep_at_Suc:
  "indep_at (Suc depth) fuel e a work bucket nleft out outpos out2 =
     bind_outcome (indep_clear [outpos..<outpos + nat nleft]
         \<lparr>is_work = work, is_out1 = out, is_out2 = out2, is_left = nleft\<rparr>) (\<lambda>s.
     bind_outcome (indep_rounds fuel e a (indep_leaf_call depth fuel e a) outpos (outpos + nat nleft) 0 bucket s) (\<lambda>s.
     bind_outcome (indep_finish [outpos..<outpos + nat nleft] s) (\<lambda>s.
       Ok (is_work s, is_out1 s, is_out2 s))))"
  by (simp add: indep_leaf_call_def [abs_def] indep_leaf_args_def Let_def)

lemma indep_at_Ok:
  assumes e: "wf_env rank e" and max: "env_weight_max e \<le> CRUSH_ITEM_UNDEF"
    and num: "0 < ia_numrep a" "ia_numrep a < 2 ^ 32"
    and fuel: "rank (bucket_id bucket) < fuel" and bucket: "bucket_of (env_map e) bucket"
    and work: "work_ok (env_map e) work" and len: "outpos + nat nleft \<le> length out"
    and len2: "\<forall>o2. out2 = Some o2 \<longrightarrow> outpos + nat nleft \<le> length o2"
    and leaf: "ia_recurse_to_leaf a \<longrightarrow> out2 \<noteq> None \<and> indep_leaf_ok e (indep_leaf_call depth fuel e a)"
  shows "\<exists>work' out' out2'.
     indep_at (Suc depth) fuel e a work bucket nleft out outpos out2 = Ok (work', out', out2') \<and>
     work_ok (env_map e) work' \<and> frame outpos (outpos + nat nleft) out out' \<and>
     rel_option (frame outpos (outpos + nat nleft)) out2 out2' \<and>
     indep_result e a outpos (outpos + nat nleft) out' out2'"
proof -
  let ?s = "\<lparr>is_work = work, is_out1 = out, is_out2 = out2, is_left = nleft\<rparr>"
  let ?hi = "outpos + nat nleft"
  have sub: "set [outpos..<?hi] \<subseteq> {..<?hi}" by auto
  have fits: "fits ?hi ?s" using len len2 by (simp add: fits_def)
  obtain s1 where s1: "indep_clear [outpos..<?hi] ?s = Ok s1" "is_work s1 = work"
    "rewritten (\<lambda>_. CRUSH_ITEM_UNDEF) [outpos..<?hi] out (is_out1 s1)"
    "rel_option (rewritten (\<lambda>_. CRUSH_ITEM_UNDEF) [outpos..<?hi]) out2 (is_out2 s1)"
    using indep_clear_Ok [OF _ sub fits] by auto
  have ev1: "evolves outpos ?hi ?s s1"
    using s1(3,4) by (cases out2; cases "is_out2 s1") (auto simp: evolves_def intro: rewritten_frame)
  note fits1 = fits_evolves [OF fits ev1]
  have inv1: "indep_inv e a outpos ?hi s1"
    by (rule indep_clear_inv [of e ?s]) (use work fits1 s1 leaf in auto)
  obtain s2 where s2: "indep_rounds fuel e a (indep_leaf_call depth fuel e a) outpos ?hi 0 bucket s1 = Ok s2"
    "indep_inv e a outpos ?hi s2" "evolves outpos ?hi s1 s2"
    using indep_rounds_Ok [OF e num _ fuel bucket inv1 fits1] leaf by blast
  note fits2 = fits_evolves [OF fits1 s2(3)]
  obtain s3 where s3: "indep_finish [outpos..<?hi] s2 = Ok s3" "is_work s3 = is_work s2"
    "rewritten undef_to_none [outpos..<?hi] (is_out1 s2) (is_out1 s3)"
    "rel_option (rewritten undef_to_none [outpos..<?hi]) (is_out2 s2) (is_out2 s3)"
    using indep_finish_Ok [OF _ sub fits2] by auto
  have ev3: "evolves outpos ?hi s2 s3"
    using s3(3,4) by (cases "is_out2 s2"; cases "is_out2 s3") (auto simp: evolves_def intro: rewritten_frame)
  have ev: "evolves outpos ?hi ?s s3" by (rule evolves_trans [OF evolves_trans [OF ev1 s2(3)] ev3])
  have "work_ok (env_map e) (is_work s3)" using s2(2) s3(2) by (simp add: indep_inv_def)
  moreover have "indep_result e a outpos ?hi (is_out1 s3) (is_out2 s3)"
    by (rule indep_result_finish [OF s2(2) s3(3,4) max])
  ultimately show ?thesis unfolding indep_at_Suc using s1(1) s2(1) s3(1) ev by (simp add: evolves_def)
qed

lemma indep_leaf_call_ok:
  assumes e: "wf_env rank e" and max: "env_weight_max e \<le> CRUSH_ITEM_UNDEF"
    and num: "0 < ia_numrep a" "ia_numrep a < 2 ^ 32"
    and fuel: "\<forall>b. bucket_of (env_map e) b \<longrightarrow> rank (bucket_id b) < fuel"
  shows "indep_leaf_ok e (indep_leaf_call (Suc depth) fuel e a)"
  unfolding indep_leaf_ok_def
proof (intro allI impI)
  fix work b rep r and o2 :: "int list"
  assume work: "work_ok (env_map e) work" and b: "bucket_of (env_map e) b" and rep: "rep < length o2"
  let ?a = "indep_leaf_args a r"
  obtain work' o2' out2' where r:
    "indep_at (Suc depth) fuel e ?a work b 1 o2 rep None = Ok (work', o2', out2')"
    "work_ok (env_map e) work'" "frame rep (Suc rep) o2 o2'" "indep_result e ?a rep (Suc rep) o2' out2'"
    using indep_at_Ok [OF e max, of ?a b fuel work rep 1 o2 None depth] num fuel b work rep
    by (auto simp: indep_leaf_args_def)
  have "o2' ! rep = CRUSH_ITEM_NONE \<or> device_in e (o2' ! rep)"
    using r(4) by (auto simp: indep_result_def device_in_def indep_leaf_args_def)
  then show "\<exists>work' o2'. indep_leaf_call (Suc depth) fuel e a work b o2 rep r = Ok (work', o2') \<and>
      work_ok (env_map e) work' \<and> frame rep (Suc rep) o2 o2' \<and>
      (o2' ! rep = CRUSH_ITEM_NONE \<or> device_in e (o2' ! rep))"
    using r by (simp add: indep_leaf_call_def)
qed

lemma crush_choose_indep_Ok:
  assumes e: "wf_env rank e" and max: "env_weight_max e \<le> CRUSH_ITEM_UNDEF"
    and num: "0 < ia_numrep a" "ia_numrep a < 2 ^ 32"
    and fuel: "\<forall>b. bucket_of (env_map e) b \<longrightarrow> rank (bucket_id b) < fuel"
    and bucket: "bucket_of (env_map e) bucket"
    and work: "work_ok (env_map e) work" and len: "outpos + nat nleft \<le> length out"
    and len2: "\<forall>o2. out2 = Some o2 \<longrightarrow> outpos + nat nleft \<le> length o2"
    and leaf: "ia_recurse_to_leaf a \<longrightarrow> out2 \<noteq> None"
  shows "\<exists>work' out' out2'.
     crush_choose_indep fuel e a work bucket nleft out outpos out2 = Ok (work', out', out2') \<and>
     work_ok (env_map e) work' \<and> frame outpos (outpos + nat nleft) out out' \<and>
     rel_option (frame outpos (outpos + nat nleft)) out2 out2' \<and>
     indep_result e a outpos (outpos + nat nleft) out' out2'"
proof -
  have two: "(2 :: nat) = Suc (Suc 0)" by simp
  show ?thesis
    unfolding crush_choose_indep_def two
    by (rule indep_at_Ok [OF e max num _ bucket work len len2])
      (use fuel bucket leaf indep_leaf_call_ok [OF e max num fuel] in auto)
qed
section \<open>Rules\<close>

text \<open>
  Bounds within which the counters of the mapper do not wrap: bucket sizes, tunables and rule
  arguments of at most \<open>2 ^ 28\<close>, and ranks of at most \<open>R\<close>.
\<close>

abbreviation (input) tunable_max :: nat where "tunable_max \<equiv> 2 ^ 28"

definition sane_map :: "(int \<Rightarrow> nat) \<Rightarrow> nat \<Rightarrow> crush_map \<Rightarrow> bool" where
  "sane_map rank R m \<longleftrightarrow>
     unat (choose_total_tries m) \<le> tunable_max \<and> unat (choose_local_tries m) \<le> tunable_max \<and>
     unat (choose_local_fallback_tries m) \<le> tunable_max \<and> unat (chooseleaf_vary_r m) \<le> 32 \<and>
     (\<forall>b. bucket_of m b \<longrightarrow> unat (bucket_size b) \<le> tunable_max \<and> rank (bucket_id b) \<le> R)"

definition sane_step :: "crush_rule_step \<Rightarrow> bool" where
  "sane_step step \<longleftrightarrow>
     arg1 step \<le> int tunable_max \<and> (op step = CRUSH_RULE_SET_CHOOSELEAF_VARY_R \<longrightarrow> arg1 step \<le> 32)"

text \<open>An entry of the working vector that looks like a bucket of the map is one.\<close>

definition bucket_ref :: "choose_env \<Rightarrow> int \<Rightarrow> bool" where
  "bucket_ref e v \<longleftrightarrow>
     (v < 0 \<and> - 1 - v < max_buckets (env_map e) \<longrightarrow> buckets (env_map e) ! nat (- 1 - v) \<noteq> None)"

definition rule_inv :: "choose_env \<Rightarrow> nat \<Rightarrow> rule_state \<Rightarrow> bool" where
  "rule_inv e result_max s \<longleftrightarrow>
     work_ok (env_map e) (rs_work s) \<and>
     length (rs_w s) = result_max \<and> length (rs_o s) = result_max \<and> length (rs_c s) = result_max \<and>
     rs_wsize s \<le> result_max \<and> (\<forall>i<rs_wsize s. bucket_ref e (rs_w s ! i)) \<and>
     length (rs_result s) \<le> result_max \<and>
     unat (rs_choose_tries s) \<le> tunable_max + 1 \<and> unat (rs_choose_leaf_tries s) \<le> tunable_max \<and>
     unat (rs_choose_local_retries s) \<le> tunable_max \<and>
     unat (rs_choose_local_fallback_retries s) \<le> tunable_max \<and> unat (rs_vary_r s) \<le> 32"

abbreviation (input) rule_fuel :: "nat \<Rightarrow> nat" where
  "rule_fuel R \<equiv> choose_fuel (tunable_max + 1) (2 * tunable_max) R"

lemma choose_fuel_mono: "t \<le> T \<Longrightarrow> choose_fuel t L R \<le> choose_fuel T L R"
  unfolding choose_fuel_def by (intro add_le_mono mult_le_mono order_refl)

lemma unat_word_of_int_le:
  assumes "0 \<le> a" and "a \<le> int n" and "n < 2 ^ 32"
  shows "unat (word_of_int a :: u32) \<le> n"
proof -
  have "a < 2 ^ 32" using assms by (metis of_nat_less_iff of_nat_numeral of_nat_power le_less_trans)
  then have "uint (word_of_int a :: u32) = a" using assms(1) by (simp add: uint_word_of_int)
  then have "unat (word_of_int a :: u32) = nat a" by (metis unat_eq_nat_uint)
  then show ?thesis using assms(2) by simp
qed

lemma bucket_ref_nonneg [simp]: "0 \<le> v \<Longrightarrow> bucket_ref e v"
  by (simp add: bucket_ref_def)

lemma bucket_ref_item:
  assumes "item_type e v = Ok t"
  shows "bucket_ref e v"
  using assms
  by (auto simp: bucket_ref_def item_type_def get_bucket_def aref_def outcome_simps split: if_splits option.splits)

lemma placed_refs:
  assumes "placed e a 0 out n out2" and "k < n"
  shows "bucket_ref e (out ! k)" and "fa_recurse_to_leaf a \<Longrightarrow> bucket_ref e (the out2 ! k)"
proof -
  have i: "item_ok e a out k (out ! k) out2" using assms by (simp add: placed_def)
  then show r: "bucket_ref e (out ! k)" by (auto simp: item_ok_def intro: bucket_ref_item)
  show "bucket_ref e (the out2 ! k)" if "fa_recurse_to_leaf a"
  proof -
    have "leaf_found e a k (out ! k) out2" using i by (simp add: item_ok_def)
    then have "0 \<le> the out2 ! k \<or> the out2 ! k = out ! k"
      using that by (cases "out ! k < 0") (auto simp: leaf_found_def)
    then show ?thesis using r by auto
  qed
qed

lemma indep_refs:
  assumes "indep_result e a 0 n out out2" and "k < n"
  shows "bucket_ref e (out ! k)" and "ia_recurse_to_leaf a \<Longrightarrow> bucket_ref e (the out2 ! k)"
proof -
  have "\<forall>k. 0 \<le> k \<and> k < n \<longrightarrow> out ! k = CRUSH_ITEM_NONE \<or>
      item_type e (out ! k) = Ok (ia_type a) \<and> (0 \<le> out ! k \<longleftrightarrow> ia_type a = 0) \<and>
        (0 \<le> out ! k \<longrightarrow> is_out e (out ! k) = Ok False)"
    using assms(1) unfolding indep_result_def by (rule conjunct1)
  then have "out ! k = CRUSH_ITEM_NONE \<or> item_type e (out ! k) = Ok (ia_type a)" using assms(2) by auto
  then show "bucket_ref e (out ! k)" by (auto intro: bucket_ref_item)
  have "ia_recurse_to_leaf a \<longrightarrow> (\<forall>k. 0 \<le> k \<and> k < n \<longrightarrow> 0 \<le> the out2 ! k \<and>
      (ia_type a \<noteq> 0 \<longrightarrow>
        (if out ! k = CRUSH_ITEM_NONE then the out2 ! k = CRUSH_ITEM_NONE else device_in e (the out2 ! k))))"
    using assms(1) unfolding indep_result_def by (elim conjE)
  then show "bucket_ref e (the out2 ! k)" if "ia_recurse_to_leaf a" using assms(2) that by simp
qed

text \<open>The entries of \<open>o\<close> (and of \<open>c\<close>, when leaves are wanted) chosen so far.\<close>

definition chosen_refs :: "choose_env \<Rightarrow> bool \<Rightarrow> nat \<Rightarrow> rule_state \<Rightarrow> bool" where
  "chosen_refs e leaf n s \<longleftrightarrow>
     (\<forall>i<n. bucket_ref e (rs_o s ! i) \<and> (leaf \<longrightarrow> bucket_ref e (rs_c s ! i)))"

lemma chosen_refs_extend:
  assumes "chosen_refs e leaf n s" and "n \<le> length (rs_o s)" and "n \<le> length (rs_c s)"
    and "\<And>i. i < k \<Longrightarrow> bucket_ref e (out ! i)" and "\<And>i. i < k \<Longrightarrow> leaf \<Longrightarrow> bucket_ref e (out2 ! i)"
  shows "chosen_refs e leaf (n + k) (s\<lparr>rs_work := w, rs_o := take n (rs_o s) @ out, rs_c := take n (rs_c s) @ out2\<rparr>)"
  using assms by (auto simp: chosen_refs_def nth_append min_def)

text \<open>One element of the working vector.\<close>

lemma rule_choose_one_Ok:
  assumes e: "wf_env rank e" and max: "env_weight_max e \<le> CRUSH_ITEM_UNDEF"
    and sane: "sane_map rank R (env_map e)" and fuel: "rule_fuel R \<le> fuel"
    and rmax: "result_max \<le> tunable_max" and arg: "a1 \<le> int tunable_max"
    and wi: "bucket_ref e wi"
    and inv: "rule_inv e result_max s" and osize: "osize \<le> result_max" and refs: "chosen_refs e leaf osize s"
  shows "\<exists>s' osize'. rule_choose_one fuel e result_max firstn leaf a1 a2 wi (s, osize) = Ok (s', osize') \<and>
     rule_inv e result_max s' \<and> osize' \<le> result_max \<and> chosen_refs e leaf osize' s' \<and>
     rs_w s' = rs_w s \<and> rs_wsize s' = rs_wsize s"
proof -
  let ?numrep = "if a1 \<le> 0 then a1 + int result_max else a1"
  have m: "wf_map rank (env_map e)" using e by (simp add: wf_env_def)
  have len: "length (rs_o s) = result_max" "length (rs_c s) = result_max" "work_ok (env_map e) (rs_work s)"
    using inv by (simp_all add: rule_inv_def)
  note step = rule_choose_one_def
  consider (skip) "?numrep \<le> 0 \<or> - 1 - wi < 0 \<or> - 1 - wi \<ge> max_buckets (env_map e)"
    | (go) "0 < ?numrep" "0 \<le> - 1 - wi" "- 1 - wi < max_buckets (env_map e)" by linarith
  then show ?thesis
  proof cases
    case skip
    then have "rule_choose_one fuel e result_max firstn leaf a1 a2 wi (s, osize) = Ok (s, osize)"
      by (auto simp: step Let_def)
    then show ?thesis using inv osize refs by blast
  next
    case go
    from go wi obtain b where b: "buckets (env_map e) ! nat (- 1 - wi) = Some b" by (auto simp: bucket_ref_def)
    note g = get_bucket_slot [OF m go(2,3) b]
    have num: "?numrep < 2 ^ 32" using rmax arg by auto
    let ?cnt = "int result_max - int osize"
    have cnt: "nat ?cnt = result_max - osize" by simp
    show ?thesis
    proof (cases firstn)
      case True
      let ?a = "rule_firstn_args e s leaf ?numrep a2"
      have tries: "unat (fa_tries ?a) \<le> tunable_max + 1" "unat (fa_recurse_tries ?a) \<le> tunable_max + 1"
        using inv by (auto simp: rule_firstn_args_def rule_inv_def)
      have sr: "sane_retries rank (2 * tunable_max) R e ?a"
        using inv sane tries(1) by (auto simp: sane_retries_def sane_map_def rule_inv_def rule_firstn_args_def)
      have fl: "choose_fuel (max (unat (fa_tries ?a)) (unat (fa_recurse_tries ?a))) (2 * tunable_max) R \<le> fuel"
        using fuel choose_fuel_mono [of "max (unat (fa_tries ?a)) (unat (fa_recurse_tries ?a))" "tunable_max + 1"
            "2 * tunable_max" R] tries by simp
      have rec: "unat (fa_recurse_tries ?a) + 2 * tunable_max + 1 < 2 ^ 32" using tries(2) by simp
      have lim: "0 + nat ?cnt \<le> length (drop osize (rs_o s))" using len cnt by simp
      have lf: "fa_recurse_to_leaf ?a \<longrightarrow> (\<exists>o2. Some (drop osize (rs_c s)) = Some o2 \<and>
          0 + nat ?cnt \<le> length o2) \<and> unat (fa_vary_r ?a) \<le> 32"
        using inv len cnt by (simp add: rule_firstn_args_def rule_inv_def)
      obtain work' out' out2' n where r:
        "crush_choose_firstn fuel e ?a (rs_work s) b (drop osize (rs_o s)) 0 ?cnt (Some (drop osize (rs_c s))) =
           Ok (work', out', out2', n)"
        "work_ok (env_map e) work'" "n \<le> nat ?cnt" "length out' = length (drop osize (rs_o s))"
        "same_prefix 0 (Some (drop osize (rs_c s))) out2'" "placed e ?a 0 out' n out2'"
        using crush_choose_firstn_Ok [OF e g(2) len(3) sr rec fl lim lf] by auto
      obtain o2 where o2: "out2' = Some o2" "length o2 = length (drop osize (rs_c s))"
        using r(5) by (auto simp: same_prefix_def)
      let ?s = "s\<lparr>rs_work := work', rs_o := take osize (rs_o s) @ out', rs_c := take osize (rs_c s) @ o2\<rparr>"
      have "rule_choose_one fuel e result_max firstn leaf a1 a2 wi (s, osize) = Ok (?s, osize + n)"
        using go g(1) True r(1) o2(1) by (simp add: step Let_def)
      moreover have "rule_inv e result_max ?s"
        using inv r(2,4) o2(2) osize len by (simp add: rule_inv_def)
      moreover have "chosen_refs e leaf (osize + n) ?s"
        using refs osize len placed_refs [OF r(6)] o2(1)
        by (intro chosen_refs_extend) (auto simp: rule_firstn_args_def)
      ultimately show ?thesis using r(3) osize cnt by auto
    next
      case False
      let ?a = "rule_indep_args s leaf ?numrep a2"
      let ?n = "if ?numrep < ?cnt then ?numrep else ?cnt"
      have n: "nat ?n \<le> result_max - osize" by auto
      have rk: "\<forall>b. bucket_of (env_map e) b \<longrightarrow> rank (bucket_id b) < fuel"
        using sane fuel by (force simp: sane_map_def choose_fuel_def)
      obtain work' out' out2' where r:
        "crush_choose_indep fuel e ?a (rs_work s) b ?n (drop osize (rs_o s)) 0 (Some (drop osize (rs_c s))) =
           Ok (work', out', out2')"
        "work_ok (env_map e) work'" "frame 0 (0 + nat ?n) (drop osize (rs_o s)) out'"
        "rel_option (frame 0 (0 + nat ?n)) (Some (drop osize (rs_c s))) out2'"
        "indep_result e ?a 0 (0 + nat ?n) out' out2'"
        using crush_choose_indep_Ok [OF e max, of ?a fuel b "rs_work s" 0 ?n "drop osize (rs_o s)"
            "Some (drop osize (rs_c s))"] go(1) num rk g(2) len n
        by (auto simp: rule_indep_args_def)
      obtain o2 where o2: "out2' = Some o2" "length o2 = length (drop osize (rs_c s))"
        using r(4) by (cases out2') (auto simp: frame_def)
      let ?s = "s\<lparr>rs_work := work', rs_o := take osize (rs_o s) @ out', rs_c := take osize (rs_c s) @ o2\<rparr>"
      have "rule_choose_one fuel e result_max firstn leaf a1 a2 wi (s, osize) = Ok (?s, osize + nat ?n)"
        using go g(1) False r(1) o2(1) by (simp add: step Let_def)
      moreover have "rule_inv e result_max ?s"
        using inv r(2,3) o2(2) osize len by (simp add: rule_inv_def frame_def)
      moreover have "chosen_refs e leaf (osize + nat ?n) ?s"
        using refs osize len indep_refs [OF r(5)] o2(1)
        by (intro chosen_refs_extend) (auto simp: rule_indep_args_def)
      moreover have "osize + nat ?n \<le> result_max" using n osize by linarith
      ultimately show ?thesis by auto
    qed
  qed
qed

lemma rule_choose_loop_Ok:
  assumes e: "wf_env rank e" and max: "env_weight_max e \<le> CRUSH_ITEM_UNDEF"
    and sane: "sane_map rank R (env_map e)" and fuel: "rule_fuel R \<le> fuel"
    and rmax: "result_max \<le> tunable_max" and arg: "a1 \<le> int tunable_max"
    and "set is \<subseteq> {..<rs_wsize s}" and "rule_inv e result_max s" and "osize \<le> result_max"
    and "chosen_refs e leaf osize s"
  shows "\<exists>s' osize'. rule_choose_loop fuel e result_max firstn leaf a1 a2 is (s, osize) = Ok (s', osize') \<and>
     rule_inv e result_max s' \<and> osize' \<le> result_max \<and> chosen_refs e leaf osize' s'"
  using assms(7-)
proof (induction "is" arbitrary: s osize)
  case (Cons i "is")
  have i: "i < rs_wsize s" using Cons.prems(1) by simp
  then have wi: "aref (rs_w s) i = Ok (rs_w s ! i)" "bucket_ref e (rs_w s ! i)"
    using Cons.prems(2) by (simp_all add: rule_inv_def)
  obtain s1 n1 where s1: "rule_choose_one fuel e result_max firstn leaf a1 a2 (rs_w s ! i) (s, osize) = Ok (s1, n1)"
    "rule_inv e result_max s1" "n1 \<le> result_max" "chosen_refs e leaf n1 s1" "rs_wsize s1 = rs_wsize s"
    using rule_choose_one_Ok [OF e max sane fuel rmax arg wi(2) Cons.prems(2-4)] by blast
  have sub: "set is \<subseteq> {..<rs_wsize s1}" using Cons.prems(1) s1(5) by simp
  show ?case using Cons.IH [OF sub s1(2-4)] wi(1) s1(1) by simp
qed simp

lemma rule_choose_Ok:
  assumes e: "wf_env rank e" and max: "env_weight_max e \<le> CRUSH_ITEM_UNDEF"
    and sane: "sane_map rank R (env_map e)" and fuel: "rule_fuel R \<le> fuel"
    and rmax: "result_max \<le> tunable_max" and arg: "a1 \<le> int tunable_max"
    and inv: "rule_inv e result_max s"
  shows "\<exists>s'. rule_choose fuel e result_max firstn leaf a1 a2 s = Ok s' \<and> rule_inv e result_max s'"
proof (cases "rs_wsize s = 0")
  case True
  then show ?thesis using inv by (simp add: rule_choose_def)
next
  case False
  have sub: "set [0..<rs_wsize s] \<subseteq> {..<rs_wsize s}" by auto
  obtain s' n where r: "rule_choose_loop fuel e result_max firstn leaf a1 a2 [0..<rs_wsize s] (s, 0) = Ok (s', n)"
    "rule_inv e result_max s'" "n \<le> result_max" "chosen_refs e leaf n s'"
    using rule_choose_loop_Ok [OF e max sane fuel rmax arg sub inv, of 0 leaf firstn a2]
    by (auto simp: chosen_refs_def)
  let ?out = "if leaf then take n (rs_c s') @ drop n (rs_o s') else rs_o s'"
  have "bucket_ref e (?out ! i)" if "i < n" for i
    using that r(2-4) by (auto simp: chosen_refs_def rule_inv_def nth_append)
  then have "rule_inv e result_max (s'\<lparr>rs_w := ?out, rs_o := rs_w s', rs_wsize := n\<rparr>)"
    using r(2,3) by (auto simp: rule_inv_def)
  moreover have "rule_choose fuel e result_max firstn leaf a1 a2 s =
      Ok (s'\<lparr>rs_w := ?out, rs_o := rs_w s', rs_wsize := n\<rparr>)"
    using False r(1) by (simp add: rule_choose_def)
  ultimately show ?thesis by blast
qed

lemma rule_take_Ok:
  assumes "op step = CRUSH_RULE_TAKE" and "wf_map rank (env_map e)" and "0 < result_max"
    and "rule_inv e result_max s"
  shows "\<exists>s'. rule_step fuel e result_max step s = Ok s' \<and> rule_inv e result_max s'"
proof -
  let ?m = "env_map e" and ?a = "arg1 step"
  let ?good = "if ?a \<ge> 0 \<and> ?a < max_devices ?m then Ok True
    else if - 1 - ?a \<ge> 0 \<and> - 1 - ?a < max_buckets ?m then
      bind_outcome (aref (buckets ?m) (nat (- 1 - ?a))) (\<lambda>b. Ok (b \<noteq> None))
    else Ok False"
  have "\<exists>g. ?good = Ok g \<and> (g \<longrightarrow> bucket_ref e ?a)"
  proof (cases "- 1 - ?a \<ge> 0 \<and> - 1 - ?a < max_buckets ?m")
    case True
    then have "nat (- 1 - ?a) < nat (max_buckets ?m)" by simp
    also have "\<dots> \<le> length (buckets ?m)" using assms(2) by (simp add: wf_map_def)
    finally show ?thesis using True by (simp add: bucket_ref_def)
  next
    case False
    then show ?thesis by (auto simp: bucket_ref_def)
  qed
  then obtain g where g: "?good = Ok g" "g \<longrightarrow> bucket_ref e ?a" by blast
  have "rule_step fuel e result_max step s =
      (if g then Ok (s\<lparr>rs_w := (rs_w s)[0 := ?a], rs_wsize := 1\<rparr>) else Ok s)"
    unfolding rule_step_def Let_def using assms(1,3,4) g(1) by (simp add: rule_inv_def)
  then show ?thesis using assms(3,4) g(2) by (auto simp: rule_inv_def)
qed

lemma rule_emit_Ok:
  assumes "op step = CRUSH_RULE_EMIT" and "rule_inv e result_max s"
  shows "\<exists>s'. rule_step fuel e result_max step s = Ok s' \<and> rule_inv e result_max s'"
proof -
  have "length (rs_result s) + min (rs_wsize s) (result_max - length (rs_result s)) \<le> result_max"
    using assms(2) unfolding rule_inv_def by linarith
  then show ?thesis using assms by (simp add: rule_step_def rule_inv_def Let_def)
qed

lemma rule_set_Ok:
  assumes "op step \<notin> {CRUSH_RULE_TAKE, CRUSH_RULE_EMIT, CRUSH_RULE_CHOOSELEAF_FIRSTN,
      CRUSH_RULE_CHOOSE_FIRSTN, CRUSH_RULE_CHOOSELEAF_INDEP, CRUSH_RULE_CHOOSE_INDEP}"
    and "sane_step step" and "rule_inv e result_max s"
  shows "\<exists>s'. rule_step fuel e result_max step s = Ok s' \<and> rule_inv e result_max s'"
proof -
  have w: "unat (word_of_int (arg1 step) :: u32) \<le> tunable_max" if "0 \<le> arg1 step"
    using that assms(2) by (intro unat_word_of_int_le) (simp_all add: sane_step_def)
  have w1: "unat (word_of_int (arg1 step) :: u32) \<le> tunable_max + 1"
    "unat (word_of_int (arg1 step) :: u32) \<le> tunable_max" if "0 < arg1 step"
    using w that by simp_all
  have v: "unat (word_of_int (arg1 step) :: u32) \<le> 32"
    if "0 \<le> arg1 step" "op step = CRUSH_RULE_SET_CHOOSELEAF_VARY_R"
    using that assms(2) by (intro unat_word_of_int_le) (simp_all add: sane_step_def)
  note step = rule_step_def [of fuel e result_max step s, unfolded Let_def]
  note inv = assms(3) [unfolded rule_inv_def]
  show ?thesis
  proof (cases "op step \<in> {CRUSH_RULE_SET_CHOOSE_TRIES, CRUSH_RULE_SET_CHOOSELEAF_TRIES,
      CRUSH_RULE_SET_CHOOSE_LOCAL_TRIES, CRUSH_RULE_SET_CHOOSE_LOCAL_FALLBACK_TRIES,
      CRUSH_RULE_SET_CHOOSELEAF_VARY_R, CRUSH_RULE_SET_CHOOSELEAF_STABLE}")
    case False
    then have "rule_step fuel e result_max step s = Ok s" unfolding step using assms(1) by simp
    then show ?thesis using assms(3) by blast
  next
    case True
    then consider "op step = CRUSH_RULE_SET_CHOOSE_TRIES" | "op step = CRUSH_RULE_SET_CHOOSELEAF_TRIES"
      | "op step = CRUSH_RULE_SET_CHOOSE_LOCAL_TRIES" | "op step = CRUSH_RULE_SET_CHOOSE_LOCAL_FALLBACK_TRIES"
      | "op step = CRUSH_RULE_SET_CHOOSELEAF_VARY_R" | "op step = CRUSH_RULE_SET_CHOOSELEAF_STABLE"
      by blast
    then show ?thesis
      by cases (use w w1 v inv in \<open>simp_all add: step rule_inv_def\<close>)
  qed
qed

lemma rule_step_Ok:
  assumes e: "wf_env rank e" and max: "env_weight_max e \<le> CRUSH_ITEM_UNDEF"
    and sane: "sane_map rank R (env_map e)" and fuel: "rule_fuel R \<le> fuel"
    and rmax: "0 < result_max" "result_max \<le> tunable_max" and step: "sane_step step"
    and inv: "rule_inv e result_max s"
  shows "\<exists>s'. rule_step fuel e result_max step s = Ok s' \<and> rule_inv e result_max s'"
proof -
  have m: "wf_map rank (env_map e)" using e by (simp add: wf_env_def)
  have arg: "arg1 step \<le> int tunable_max" using step by (simp add: sane_step_def)
  show ?thesis
  proof (cases "op step \<in> {CRUSH_RULE_CHOOSELEAF_FIRSTN,
      CRUSH_RULE_CHOOSE_FIRSTN, CRUSH_RULE_CHOOSELEAF_INDEP, CRUSH_RULE_CHOOSE_INDEP}")
    case True
    have "rule_step fuel e result_max step s = rule_choose fuel e result_max
          (op step \<in> {CRUSH_RULE_CHOOSELEAF_FIRSTN, CRUSH_RULE_CHOOSE_FIRSTN})
          (op step \<in> {CRUSH_RULE_CHOOSELEAF_FIRSTN, CRUSH_RULE_CHOOSELEAF_INDEP}) (arg1 step) (arg2 step) s"
    proof -
      from True consider "op step = CRUSH_RULE_CHOOSELEAF_FIRSTN" | "op step = CRUSH_RULE_CHOOSE_FIRSTN"
        | "op step = CRUSH_RULE_CHOOSELEAF_INDEP" | "op step = CRUSH_RULE_CHOOSE_INDEP" by blast
      then show ?thesis by cases (simp_all add: rule_step_def Let_def)
    qed
    then show ?thesis using rule_choose_Ok [OF e max sane fuel rmax(2) arg inv] by simp
  next
    case False
    then show ?thesis
      using rule_take_Ok [OF _ m rmax(1) inv] rule_emit_Ok [OF _ inv] rule_set_Ok [OF _ step inv]
      by (cases "op step = CRUSH_RULE_TAKE"; cases "op step = CRUSH_RULE_EMIT") simp_all
  qed
qed

lemma rule_steps_loop_Ok:
  assumes e: "wf_env rank e" and max: "env_weight_max e \<le> CRUSH_ITEM_UNDEF"
    and sane: "sane_map rank R (env_map e)" and fuel: "rule_fuel R \<le> fuel"
    and rmax: "0 < result_max" "result_max \<le> tunable_max"
    and "list_all sane_step steps" and "rule_inv e result_max s"
  shows "\<exists>s'. rule_steps_loop fuel e result_max steps s = Ok s' \<and> rule_inv e result_max s'"
  using assms(7-)
proof (induction steps arbitrary: s)
  case (Cons step steps)
  obtain s1 where "rule_step fuel e result_max step s = Ok s1" "rule_inv e result_max s1"
    using rule_step_Ok [OF e max sane fuel rmax _ Cons.prems(2)] Cons.prems(1) by auto
  then show ?case using Cons by simp
qed simp
definition wf_rules :: "crush_map \<Rightarrow> bool" where
  "wf_rules m \<longleftrightarrow>
     unat (max_rules m) \<le> length (rules m) \<and>
     list_all (\<lambda>r. case r of None \<Rightarrow> True
       | Some rule \<Rightarrow> unat (rule_len rule) \<le> length (rule_steps rule) \<and> list_all sane_step (rule_steps rule))
       (rules m)"

lemma crush_do_rule_Ok:
  assumes "wf_env rank e" and "sane_map rank R (env_map e)" and "wf_rules (env_map e)"
    and "env_weight_max e \<le> CRUSH_ITEM_UNDEF" and "work_ok (env_map e) work"
    and "0 < result_max" and "result_max \<le> 2 ^ 28"
    and "length a = result_max" and "length b = result_max" and "length c = result_max"
    and "choose_fuel (2 ^ 28 + 1) (2 ^ 29) R \<le> fuel"
    and "unat (word_of_int ruleno :: u32) < unat (max_rules (env_map e)) \<longrightarrow>
      rules (env_map e) ! unat (word_of_int ruleno :: u32) \<noteq> None"
  shows "\<exists>work' res. crush_do_rule fuel e ruleno result_max work a b c = Ok (work', res) \<and>
           length res \<le> result_max \<and> work_ok (env_map e) work'"
proof (cases "(word_of_int ruleno :: u32) \<ge> max_rules (env_map e)")
  case True
  then show ?thesis using assms(5) by (simp add: crush_do_rule_def)
next
  case False
  let ?r = "unat (word_of_int ruleno :: u32)"
  have lt: "?r < unat (max_rules (env_map e))" using False by (simp add: word_le_nat_alt)
  then obtain rule where rule: "rules (env_map e) ! ?r = Some rule" using assms(12) by blast
  have len: "?r < length (rules (env_map e))" using lt assms(3) by (simp add: wf_rules_def)
  then have "Some rule \<in> set (rules (env_map e))" using rule by (metis nth_mem)
  then have r: "unat (rule_len rule) \<le> length (rule_steps rule)" "list_all sane_step (rule_steps rule)"
    using assms(3) by (auto simp: wf_rules_def list_all_iff)
  let ?m = "env_map e"
  let ?s = "\<lparr>rs_work = work, rs_w = a, rs_o = b, rs_c = c, rs_wsize = 0, rs_result = [],
     rs_choose_tries = choose_total_tries ?m + 1, rs_choose_leaf_tries = 0,
     rs_choose_local_retries = choose_local_tries ?m,
     rs_choose_local_fallback_retries = choose_local_fallback_tries ?m,
     rs_vary_r = ucast (chooseleaf_vary_r ?m), rs_stable = ucast (chooseleaf_stable ?m)\<rparr>"
  have "unat (choose_total_tries ?m) \<le> 2 ^ 28" using assms(2) by (simp add: sane_map_def)
  then have "unat (choose_total_tries ?m + 1) \<le> 2 ^ 28 + 1" by (subst unat_add_no_wrap) simp_all
  then have inv: "rule_inv e result_max ?s" using assms by (simp add: rule_inv_def sane_map_def)
  have f: "rule_fuel R \<le> fuel" using assms(11) by simp
  have "list_all sane_step (take (unat (rule_len rule)) (rule_steps rule))"
    using r(2) by (auto simp: list_all_iff dest: in_set_takeD)
  then obtain s' where s': "rule_steps_loop fuel e result_max (take (unat (rule_len rule)) (rule_steps rule)) ?s = Ok s'"
    "rule_inv e result_max s'"
    using rule_steps_loop_Ok [OF assms(1,4,2) f assms(6,7) _ inv] by blast
  then have "crush_do_rule fuel e ruleno result_max work a b c = Ok (rs_work s', rs_result s')"
    using False len rule r(1) by (simp add: crush_do_rule_def Let_def)
  then show ?thesis using s'(2) by (simp add: rule_inv_def)
qed

section \<open>A small cluster\<close>

text \<open>Two hosts of two devices each below a root, and a rule that places replicas on distinct hosts.\<close>

definition sample_bucket :: "int \<Rightarrow> u16 \<Rightarrow> int list \<Rightarrow> crush_bucket" where
  "sample_bucket i type items =
     \<lparr>bucket_id = i, bucket_type = type,
      bucket_alg = CRUSH_BUCKET_STRAW2 (replicate (length items) 0x10000), bucket_hash = 0,
      bucket_weight = of_nat (length items) * 0x10000, bucket_size = of_nat (length items),
      bucket_items = items\<rparr>"

definition sample_map :: crush_map where
  "sample_map =
     \<lparr>buckets = [Some (sample_bucket (- 1) 2 [- 2, - 3]), Some (sample_bucket (- 2) 1 [0, 1]),
        Some (sample_bucket (- 3) 1 [2, 3])],
      rules = [Some \<lparr>rule_len = 3,
        rule_mask = \<lparr>mask_ruleset = 0, mask_type = 1, mask_min_size = 1, mask_max_size = 10\<rparr>,
        rule_steps = [\<lparr>op = CRUSH_RULE_TAKE, arg1 = - 1, arg2 = 0\<rparr>,
          \<lparr>op = CRUSH_RULE_CHOOSELEAF_FIRSTN, arg1 = 0, arg2 = 1\<rparr>,
          \<lparr>op = CRUSH_RULE_EMIT, arg1 = 0, arg2 = 0\<rparr>]\<rparr>],
      max_buckets = 3, max_rules = 1, max_devices = 4, choose_local_tries = 0,
      choose_local_fallback_tries = 0, choose_total_tries = 50, chooseleaf_descend_once = 1,
      chooseleaf_vary_r = 1, chooseleaf_stable = 1, working_size = 0,
      type_names = [1 \<mapsto> ''host'', 2 \<mapsto> ''root''], bucket_names = [- 1 \<mapsto> ''default'', - 2 \<mapsto> ''a'', - 3 \<mapsto> ''b'']\<rparr>"

definition sample_env :: choose_env where
  "sample_env = \<lparr>env_map = sample_map, env_weight = [0x10000, 0x10000, 0, 0x8000], env_weight_max = 4,
     env_x = 17, env_choose_args = None\<rparr>"

definition sample_work :: crush_work where
  "sample_work = replicate 3 (Some \<lparr>perm_x = 0, perm_n = 0, perm = [0, 0]\<rparr>)"

definition sample_rank :: "int \<Rightarrow> nat" where
  "sample_rank i = (if i = - 1 then 1 else 0)"

lemma all_less_3: "(\<forall>k<3. P (k :: nat)) \<longleftrightarrow> P 0 \<and> P 1 \<and> P 2"
  by (auto simp: less_Suc_eq numeral_3_eq_3 numeral_2_eq_2)

lemma sample_wf: "wf_env sample_rank sample_env" "work_ok sample_map sample_work" "wf_rules sample_map"
proof -
  show "wf_env sample_rank sample_env"
    by (simp add: wf_env_def wf_map_def wf_slot_def wf_alg_def sample_env_def sample_map_def
        sample_bucket_def sample_rank_def all_less_3)
  show "work_ok sample_map sample_work"
    by (simp add: work_ok_def perm_inv_def sample_work_def sample_map_def sample_bucket_def all_less_3)
  show "wf_rules sample_map" by (simp add: wf_rules_def sample_map_def sane_step_def)
qed

lemma sample_buckets:
  assumes "bucket_of sample_map b"
  shows "unat (bucket_size b) \<le> 2 \<and> sample_rank (bucket_id b) \<le> 1"
proof -
  have "b \<in> {sample_bucket (- 1) 2 [- 2, - 3], sample_bucket (- 2) 1 [0, 1], sample_bucket (- 3) 1 [2, 3]}"
    using assms by (auto simp: bucket_of_def sample_map_def less_Suc_eq numeral_3_eq_3)
  then show ?thesis by (force simp: sample_bucket_def sample_rank_def)
qed

lemma sample_sane: "sane_map sample_rank 1 sample_map"
proof -
  have "unat (bucket_size b) \<le> tunable_max \<and> sample_rank (bucket_id b) \<le> 1" if "bucket_of sample_map b" for b
    using sample_buckets [OF that] by simp
  then show ?thesis by (simp add: sane_map_def sample_map_def)
qed

definition sample_root :: crush_bucket where
  "sample_root = sample_bucket (- 1) 2 [- 2, - 3]"

lemma sample_root_of: "bucket_of (env_map sample_env) sample_root"
  by (auto simp: bucket_of_def sample_env_def sample_map_def sample_root_def intro!: exI [of _ "0 :: nat"])

section \<open>Properties\<close>

text \<open>
  C15: On a well-formed map, evaluating any rule terminates without a fault: no division by
  zero, no access outside a bucket, a vector or the working space, no \<open>BUG_ON\<close>, and no retry
  loop that outlives \<open>choose_fuel\<close> iterations. It returns at most \<open>result_max\<close> items and
  leaves a working space that the next call can use.
\<close>

theorem crush_do_rule_total:
  assumes "wf_env rank e" and "sane_map rank R (env_map e)" and "wf_rules (env_map e)"
    and "env_weight_max e \<le> CRUSH_ITEM_UNDEF" and "work_ok (env_map e) work"
    and "0 < result_max" and "result_max \<le> 2 ^ 28"
    and "length a = result_max" and "length b = result_max" and "length c = result_max"
    and "choose_fuel (2 ^ 28 + 1) (2 ^ 29) R \<le> fuel"
    and "unat (word_of_int ruleno :: u32) < unat (max_rules (env_map e)) \<longrightarrow>
      rules (env_map e) ! unat (word_of_int ruleno :: u32) \<noteq> None"
  shows "\<exists>work' res. crush_do_rule fuel e ruleno result_max work a b c = Ok (work', res) \<and>
           length res \<le> result_max \<and> work_ok (env_map e) work'"
  using assms by (rule crush_do_rule_Ok)

theorem crush_do_rule_total_witness:
  "\<exists>work' res. crush_do_rule (choose_fuel (2 ^ 28 + 1) (2 ^ 29) 1) sample_env 0 3 sample_work
       [0, 0, 0] [0, 0, 0] [0, 0, 0] = Ok (work', res) \<and> length res \<le> 3"
proof -
  have m: "env_map sample_env = sample_map" by (simp add: sample_env_def)
  have "\<exists>work' res. crush_do_rule (choose_fuel (2 ^ 28 + 1) (2 ^ 29) 1) sample_env 0 3 sample_work
       [0, 0, 0] [0, 0, 0] [0, 0, 0] = Ok (work', res) \<and> length res \<le> 3 \<and> work_ok (env_map sample_env) work'"
    by (rule crush_do_rule_total [OF sample_wf(1), of 1])
      (simp_all add: m sample_wf sample_sane [unfolded One_nat_def], simp_all add: sample_env_def sample_map_def)
  then show ?thesis by blast
qed

text \<open>
  C16: Depth-first placement into an empty vector (the call of a rule) terminates and the items it
  returns are pairwise distinct, of the requested type, and in (not marked out); when leaves are
  requested, so are the leaves: one device for every item, pairwise distinct and in. It
  never returns more than the requested number of replicas or than the vector holds.
\<close>

theorem crush_choose_firstn_places:
  assumes "wf_env rank e" and "bucket_of (env_map e) bucket" and "work_ok (env_map e) work"
    and "sane_retries rank L R e a" and "unat (fa_recurse_tries a) + L + 1 < 2 ^ 32"
    and "choose_fuel (max (unat (fa_tries a)) (unat (fa_recurse_tries a))) L R \<le> fuel"
    and "nat out_size \<le> length out" and "nat out_size \<le> length o2" and "unat (fa_vary_r a) \<le> 32"
  shows "\<exists>work' out' o2' n.
     crush_choose_firstn fuel e a work bucket out 0 out_size (Some o2) = Ok (work', out', Some o2', n) \<and>
     n \<le> nat out_size \<and> n \<le> nat (fa_numrep a) \<and> distinct (take n out') \<and>
     (\<forall>item\<in>set (take n out'). item_type e item = Ok (fa_type a) \<and> (0 \<le> item \<longrightarrow> is_out e item = Ok False)) \<and>
     (fa_recurse_to_leaf a \<longrightarrow> distinct (take n o2') \<and> (\<forall>leaf\<in>set (take n o2'). 0 \<le> leaf \<and> is_out e leaf = Ok False))"
proof -
  obtain work' out' out2' n where r:
    "crush_choose_firstn fuel e a work bucket out 0 out_size (Some o2) = Ok (work', out', out2', n)"
    "n \<le> nat out_size" "n \<le> nat (fa_numrep a)" "length out' = length out" "same_prefix 0 (Some o2) out2'"
    "placed e a 0 out' n out2'"
    using crush_choose_firstn_Ok [OF assms(1-6), of 0 out_size out "Some o2"] assms(7-9)
    by (cases "fa_stable a = 0") auto
  obtain o2' where o2': "out2' = Some o2'" "length o2' = length o2" using r(5) by (auto simp: same_prefix_def)
  have ok: "item_ok e a out' k (out' ! k) (Some o2')" if "k < n" for k
    using r(6) that o2'(1) by (simp add: placed_def)
  have len: "n \<le> length out'" "n \<le> length o2'" using r(2,4) assms(7,8) o2'(2) by simp_all
  have d: "distinct (take n out')"
    using ok len by (intro distinct_if_each_new) (simp_all add: item_ok_def)
  have items: "item_type e item = Ok (fa_type a) \<and> (0 \<le> item \<longrightarrow> is_out e item = Ok False)"
    if "item \<in> set (take n out')" for item
    using that ok len(1) by (auto simp: in_set_conv_nth item_ok_def)
  have leaf: "0 \<le> o2' ! k \<and> is_out e (o2' ! k) = Ok False \<and> o2' ! k \<notin> set (take k o2')"
    if rec: "fa_recurse_to_leaf a" and k: "k < n" for k
  proof (cases "fa_type a = 0")
    case True
    have "o2' ! j = out' ! j \<and> 0 \<le> out' ! j" if "j < n" for j
      using ok [OF that] rec True by (auto simp: item_ok_def leaf_found_def split: if_splits)
    moreover from this have "take k o2' = take k out'"
      using k len by (intro nth_equalityI) simp_all
    ultimately show ?thesis using ok [OF k] k by (simp add: item_ok_def)
  next
    case False
    then show ?thesis using ok [OF k] rec by (auto simp: item_ok_def leaf_found_def split: if_splits)
  qed
  then have "fa_recurse_to_leaf a \<longrightarrow> distinct (take n o2') \<and>
      (\<forall>leaf\<in>set (take n o2'). 0 \<le> leaf \<and> is_out e leaf = Ok False)"
    using len(2) by (auto simp: in_set_conv_nth intro!: distinct_if_each_new)
  then show ?thesis using r(1-3) o2'(1) d items by auto
qed

definition sample_firstn_args :: firstn_args where
  "sample_firstn_args =
     \<lparr>fa_numrep = 3, fa_type = 1, fa_tries = 51, fa_recurse_tries = 1, fa_local_retries = 0,
      fa_local_fallback_retries = 0, fa_recurse_to_leaf = True, fa_vary_r = 1, fa_stable = 1, fa_parent_r = 0\<rparr>"

theorem crush_choose_firstn_places_witness:
  "\<exists>work' out' o2' n.
     crush_choose_firstn (choose_fuel 51 2 1) sample_env sample_firstn_args sample_work sample_root
       [9, 9, 9] 0 3 (Some [9, 9, 9]) = Ok (work', out', Some o2', n) \<and>
     n \<le> 3 \<and> distinct (take n o2') \<and> (\<forall>leaf\<in>set (take n o2'). is_out sample_env leaf = Ok False)"
proof -
  have m: "env_map sample_env = sample_map" by (simp add: sample_env_def)
  have sane: "sane_retries sample_rank 2 1 sample_env sample_firstn_args"
    using sample_buckets by (auto simp: sane_retries_def m sample_firstn_args_def)
  show ?thesis
    using crush_choose_firstn_places [OF sample_wf(1) sample_root_of, of sample_work 2 1 sample_firstn_args
        "choose_fuel 51 2 1" 3 "[9, 9, 9]" "[9, 9, 9]"] sane sample_wf(2)
    by (auto simp: m sample_firstn_args_def)
qed

text \<open>
  C17: Breadth-first placement terminates and fills exactly its positions: each holds either
  the placeholder \<open>CRUSH_ITEM_NONE\<close> or an item of the requested type that is in, no item
  appears at two positions, and when leaves of buckets are requested, a position has a leaf,
  a device that is in, exactly if it has a bucket. Entries outside the positions are untouched.
\<close>

theorem crush_choose_indep_places:
  assumes "wf_env rank e" and "env_weight_max e \<le> CRUSH_ITEM_UNDEF"
    and "0 < ia_numrep a" and "ia_numrep a < 2 ^ 32"
    and "\<forall>b. bucket_of (env_map e) b \<longrightarrow> rank (bucket_id b) < fuel"
    and "bucket_of (env_map e) bucket" and "work_ok (env_map e) work"
    and "outpos + nat nleft \<le> length out" and "outpos + nat nleft \<le> length o2"
  shows "\<exists>work' out' o2'.
     crush_choose_indep fuel e a work bucket nleft out outpos (Some o2) = Ok (work', out', Some o2') \<and>
     frame outpos (outpos + nat nleft) out out' \<and> frame outpos (outpos + nat nleft) o2 o2' \<and>
     (\<forall>k\<in>{outpos..<outpos + nat nleft}. out' ! k = CRUSH_ITEM_NONE \<or>
        item_type e (out' ! k) = Ok (ia_type a) \<and> (0 \<le> out' ! k \<longrightarrow> is_out e (out' ! k) = Ok False)) \<and>
     (\<forall>j\<in>{outpos..<outpos + nat nleft}. \<forall>k\<in>{outpos..<outpos + nat nleft}.
        j \<noteq> k \<and> out' ! j = out' ! k \<longrightarrow> out' ! j = CRUSH_ITEM_NONE) \<and>
     (ia_recurse_to_leaf a \<and> ia_type a \<noteq> 0 \<longrightarrow> (\<forall>k\<in>{outpos..<outpos + nat nleft}.
        if out' ! k = CRUSH_ITEM_NONE then o2' ! k = CRUSH_ITEM_NONE
        else 0 \<le> o2' ! k \<and> is_out e (o2' ! k) = Ok False))"
proof -
  obtain work' out' out2' where r:
    "crush_choose_indep fuel e a work bucket nleft out outpos (Some o2) = Ok (work', out', out2')"
    "frame outpos (outpos + nat nleft) out out'" "rel_option (frame outpos (outpos + nat nleft)) (Some o2) out2'"
    "indep_result e a outpos (outpos + nat nleft) out' out2'"
    using crush_choose_indep_Ok [OF assms(1-8), of "Some o2"] assms(9) by auto
  obtain o2' where o2': "out2' = Some o2'" "frame outpos (outpos + nat nleft) o2 o2'"
    using r(3) by (cases out2') auto
  note res = r(4) [unfolded indep_result_def o2'(1) device_in_def option.sel]
  note entries = res [THEN conjunct1] and new = res [THEN conjunct2, THEN conjunct1]
    and leaves = res [THEN conjunct2, THEN conjunct2]
  let ?I = "{outpos..<outpos + nat nleft}"
  have 1: "out' ! k = CRUSH_ITEM_NONE \<or>
      item_type e (out' ! k) = Ok (ia_type a) \<and> (0 \<le> out' ! k \<longrightarrow> is_out e (out' ! k) = Ok False)"
    if "k \<in> ?I" for k
    using entries [THEN spec, of k] that by auto
  have 2: "out' ! j = CRUSH_ITEM_NONE" if "j \<in> ?I" "k \<in> ?I" "j \<noteq> k \<and> out' ! j = out' ! k" for j k
    using new [THEN spec, THEN spec, of j k] that by simp
  have 3: "if out' ! k = CRUSH_ITEM_NONE then o2' ! k = CRUSH_ITEM_NONE
      else 0 \<le> o2' ! k \<and> is_out e (o2' ! k) = Ok False"
    if "ia_recurse_to_leaf a \<and> ia_type a \<noteq> 0" "k \<in> ?I" for k
    using leaves [THEN mp, THEN spec, of k] that by simp
  show ?thesis using r(1,2) o2' 1 2 3 by blast
qed

definition sample_indep_args :: indep_args where
  "sample_indep_args =
     \<lparr>ia_numrep = 3, ia_type = 1, ia_tries = 51, ia_recurse_tries = 1, ia_recurse_to_leaf = True, ia_parent_r = 0\<rparr>"

theorem crush_choose_indep_places_witness:
  "\<exists>work' out' o2'.
     crush_choose_indep 2 sample_env sample_indep_args sample_work sample_root 3 [9, 9, 9] 0 (Some [9, 9, 9]) =
       Ok (work', out', Some o2') \<and>
     (\<forall>k\<in>{0..<3}. if out' ! k = CRUSH_ITEM_NONE then o2' ! k = CRUSH_ITEM_NONE
        else 0 \<le> o2' ! k \<and> is_out sample_env (o2' ! k) = Ok False)"
proof -
  have m: "env_map sample_env = sample_map" by (simp add: sample_env_def)
  have f: "\<forall>b. bucket_of (env_map sample_env) b \<longrightarrow> sample_rank (bucket_id b) < 2"
    using sample_buckets unfolding m by fastforce
  have w: "work_ok (env_map sample_env) sample_work" using sample_wf(2) by (simp add: m)
  have wm: "env_weight_max sample_env \<le> CRUSH_ITEM_UNDEF" by (simp add: sample_env_def)
  have a: "0 < ia_numrep sample_indep_args" "ia_numrep sample_indep_args < 2 ^ 32"
    "ia_recurse_to_leaf sample_indep_args \<and> ia_type sample_indep_args \<noteq> 0"
    by (simp_all add: sample_indep_args_def)
  have l: "0 + nat 3 \<le> length [9, 9, 9 :: int]" and n: "0 + nat 3 = 3" by simp_all
  from crush_choose_indep_places [OF sample_wf(1) wm a(1,2) f sample_root_of w l l, unfolded n] a(3)
  show ?thesis by blast
qed

text \<open>A map of one list bucket that holds the single item \<open>i\<close>.\<close>

definition single_bucket :: "int \<Rightarrow> crush_bucket" where
  "single_bucket i =
     \<lparr>bucket_id = - 1, bucket_type = 1, bucket_alg = CRUSH_BUCKET_LIST [0x10000] [0x10000], bucket_hash = 0,
      bucket_weight = 0x10000, bucket_size = 1, bucket_items = [i]\<rparr>"

definition single_env :: "int \<Rightarrow> u32 \<Rightarrow> choose_env" where
  "single_env i x =
     \<lparr>env_map = sample_map\<lparr>buckets := [Some (single_bucket i)], max_buckets := 1, max_devices := 1\<rparr>,
      env_weight = [0], env_weight_max = 1, env_x = x, env_choose_args = None\<rparr>"

definition single_work :: crush_work where
  "single_work = [Some \<lparr>perm_x = 0, perm_n = 0, perm = [0]\<rparr>]"

lemma single_choose:
  "choose_in (single_env i x) single_work (single_bucket i) r outpos = Ok (single_work, i)"
proof -
  have c: "bucket_list_choose (single_bucket i) [0x10000] [0x10000] x r = Ok i"
    by (simp add: bucket_list_choose_def single_bucket_def Let_def)
  have b: "bucket_alg (single_bucket i) = CRUSH_BUCKET_LIST [0x10000] [0x10000]"
    "bucket_id (single_bucket i) = - 1" "bucket_size (single_bucket i) \<noteq> 0"
    by (simp_all add: single_bucket_def)
  then show ?thesis
    by (simp add: choose_in_def choose_arg_of_def with_work_def crush_bucket_choose_def c
        single_env_def single_work_def)
qed

text \<open>
  C36: When leaves are requested of a breadth-first placement whose type is already the device
  type, a device that is out can still be returned as a leaf: the leaf is stored before the
  device is tested, and the position keeps it when every try fails. Here the only device has
  weight zero: the position is given up, its leaf is not.
\<close>

theorem crush_choose_indep_out_leaf:
  "crush_choose_indep 2 (single_env 0 x)
     \<lparr>ia_numrep = 1, ia_type = 0, ia_tries = 1, ia_recurse_tries = 1, ia_recurse_to_leaf = True, ia_parent_r = 0\<rparr>
     single_work (single_bucket 0) 1 [9] 0 (Some [9]) = Ok (single_work, [CRUSH_ITEM_NONE], Some [0]) \<and>
   is_out (single_env 0 x) 0 = Ok True"
proof -
  let ?a = "\<lparr>ia_numrep = 1, ia_type = 0, ia_tries = 1, ia_recurse_tries = 1,
     ia_recurse_to_leaf = True, ia_parent_r = 0\<rparr>"
  have out: "is_out (single_env 0 x) 0 = Ok True" by (simp add: is_out_def single_env_def)
  have e: "max_devices (env_map (single_env 0 x)) = 1" "item_type (single_env 0 x) 0 = Ok 0"
    "bucket_size (single_bucket 0) = 1" "indep_r ?a (single_bucket 0) 0 0 = Ok 0"
    by (simp_all add: single_env_def item_type_def single_bucket_def indep_r_def)
  have d: "indep_descend 2 (single_env 0 x) ?a leaf 0 1 0 0 (single_bucket 0)
      \<lparr>is_work = single_work, is_out1 = [CRUSH_ITEM_UNDEF], is_out2 = Some [CRUSH_ITEM_UNDEF], is_left = 1\<rparr> =
    Ok \<lparr>is_work = single_work, is_out1 = [CRUSH_ITEM_UNDEF], is_out2 = Some [0], is_left = 1\<rparr>" for leaf
    by (simp add: numeral_2_eq_2 e out single_choose indep_leaf_def)
  have two: "(2 :: nat) = Suc (Suc 0)" by simp
  show ?thesis
    using out unfolding crush_choose_indep_def two indep_at_Suc
    by (simp add: set_out_def set_out2_def indep_rounds.simps d [unfolded two One_nat_def]
        del: indep_descend.simps)
qed

text \<open>
  A bucket item below all buckets of the map is not caught by the range check of
  \<open>crush_choose_firstn\<close>: the type of the missing bucket is read first.
\<close>

theorem crush_choose_firstn_reads_before_check:
  "crush_choose_firstn (Suc fuel) (single_env (- 5) x) sample_firstn_args single_work (single_bucket (- 5))
     [9] 0 1 (Some [9]) = Oops Bad_Access"
proof -
  have t: "firstn_try (single_env (- 5) x) sample_firstn_args leaf single_work [9] (Some [9]) 0 1 0
      (single_bucket (- 5)) 0 0 = Oops Bad_Access" for leaf
  proof -
    have e: "max_devices (env_map (single_env (- 5) x)) = 1" "item_type (single_env (- 5) x) (- 5) = Oops Bad_Access"
      "bucket_size (single_bucket (- 5)) = 1" "fa_local_fallback_retries sample_firstn_args = 0"
      by (simp_all add: single_env_def item_type_def get_bucket_def aref_def single_bucket_def sample_firstn_args_def)
    then show ?thesis by (simp add: firstn_try_def firstn_pick_def single_choose)
  qed
  have "fa_numrep sample_firstn_args = 3" "fa_stable sample_firstn_args \<noteq> 0" by (simp_all add: sample_firstn_args_def)
  then show ?thesis
    by (simp add: crush_choose_firstn_def numeral_2_eq_2 firstn_reps.simps t)
qed
end
