(* ===== verification/OsdMap.thy ===== *)
theory OsdMap
  imports CrushChoose
begin

text \<open>
  Placement of objects with the OSD map (\<open>libceph/osdmap.c\<close>, \<open>include/linux/ceph/osdmap.h\<close>):
  from an object to its placement group, and from a placement group to the up set and the
  acting set of OSDs.

  The red-black trees of pools and of explicit mappings are maps from their keys. A
  \<open>ceph_osds\<close> is its array of \<open>CEPH_PG_MAX_SIZE\<close> entries with the size and the primary;
  an access outside the array is a fault. The working space of CRUSH and its three scratch
  vectors are passed in and the working space is passed on.
\<close>

unbundle bit_operations_syntax

section \<open>Data\<close>

record ceph_pg =
  pg_pool :: u64
  pg_seed :: u32

record ceph_spg =
  spg_pgid :: ceph_pg
  spg_shard :: int

abbreviation (input) CEPH_SPG_NOSHARD :: int where "CEPH_SPG_NOSHARD \<equiv> - 1"
abbreviation (input) CEPH_PG_MAX_SIZE :: nat where "CEPH_PG_MAX_SIZE \<equiv> 32"
abbreviation (input) CEPH_POOL_TYPE_REP :: u8 where "CEPH_POOL_TYPE_REP \<equiv> 1"
abbreviation (input) CEPH_POOL_TYPE_EC :: u8 where "CEPH_POOL_TYPE_EC \<equiv> 3"
abbreviation (input) CEPH_POOL_FLAG_HASHPSPOOL :: u64 where "CEPH_POOL_FLAG_HASHPSPOOL \<equiv> 1"
abbreviation (input) CEPH_OSD_EXISTS :: u32 where "CEPH_OSD_EXISTS \<equiv> 1"
abbreviation (input) CEPH_OSD_UP :: u32 where "CEPH_OSD_UP \<equiv> 2"
abbreviation (input) CEPH_OSD_MAX_PRIMARY_AFFINITY :: u32 where
  "CEPH_OSD_MAX_PRIMARY_AFFINITY \<equiv> 0x10000"
abbreviation (input) CEPH_OSD_DEFAULT_PRIMARY_AFFINITY :: u32 where
  "CEPH_OSD_DEFAULT_PRIMARY_AFFINITY \<equiv> 0x10000"
abbreviation (input) CEPH_DEFAULT_CHOOSE_ARGS :: int where "CEPH_DEFAULT_CHOOSE_ARGS \<equiv> - 1"

record ceph_pg_pool_info =
  pi_id :: int
  pi_type :: u8
  pi_size :: u8
  pi_min_size :: u8
  pi_crush_ruleset :: u8
  pi_object_hash :: u8
  pi_pg_num :: u32
  pi_pgp_num :: u32
  pi_pg_num_mask :: u32
  pi_pgp_num_mask :: u32
  pi_flags :: u64
  pi_last_force_request_resend :: u32
  pi_read_tier :: int
  pi_write_tier :: int
  pi_was_full :: bool

record ceph_osdmap =
  max_osd :: u32
  osd_state :: "u32 list"
  osd_weight :: "u32 list"
  pg_temp :: "ceph_pg \<rightharpoonup> int list"
  primary_temp :: "ceph_pg \<rightharpoonup> int"
  pg_upmap :: "ceph_pg \<rightharpoonup> int list"
  pg_upmap_items :: "ceph_pg \<rightharpoonup> (int \<times> int) list"
  osd_primary_affinity :: "u32 list option"
  pg_pools :: "int \<rightharpoonup> ceph_pg_pool_info"
  osdmap_crush :: crush_map
  osdmap_choose_args :: "int \<rightharpoonup> crush_choose_arg list"
  osdmap_epoch :: u32
  osdmap_flags :: u32
  osd_addr :: "ceph_entity_addr list"

record ceph_osds =
  os_osds :: "int list"
  os_size :: nat
  os_primary :: int

text \<open>The entries of a set, without the unused part of its array.\<close>

definition osds_of :: "ceph_osds \<Rightarrow> int list" where
  "osds_of s = take (os_size s) (os_osds s)"

definition ceph_osds_init :: "ceph_osds \<Rightarrow> ceph_osds" where
  "ceph_osds_init s = s\<lparr>os_size := 0, os_primary := - 1\<rparr>"

section \<open>Placement groups\<close>

function calc_bits_of :: "u32 \<Rightarrow> nat" where
  "calc_bits_of t = (if t = 0 then 0 else Suc (calc_bits_of (drop_bit 1 t)))"
  by pat_completeness auto
termination
proof (relation "measure unat")
  fix t :: u32
  assume "t \<noteq> 0"
  then have "0 < unat t" by (simp add: unat_gt_0)
  then show "(drop_bit 1 t, t) \<in> measure unat"
    by (simp add: drop_bit_eq_div unat_div)
qed simp

declare calc_bits_of.simps [simp del]

text \<open>\<open>(1 << b) - 1\<close>; a shift by the width or more is not defined in C.\<close>

definition bit_mask :: "nat \<Rightarrow> u32 outcome" where
  "bit_mask b = (if b \<ge> 32 then Oops Bad_Shift else Ok (push_bit b 1 - 1))"

definition calc_pg_masks :: "ceph_pg_pool_info \<Rightarrow> ceph_pg_pool_info outcome" where
  "calc_pg_masks pi =
     bind_outcome (bit_mask (calc_bits_of (pi_pg_num pi - 1))) (\<lambda>m.
     bind_outcome (bit_mask (calc_bits_of (pi_pgp_num pi - 1))) (\<lambda>mp.
       Ok (pi\<lparr>pi_pg_num_mask := m, pi_pgp_num_mask := mp\<rparr>)))"

text \<open>\<open>int\<close> arguments: the comparison is signed and the shift is arithmetic.\<close>

definition ceph_stable_mod :: "u32 \<Rightarrow> u32 \<Rightarrow> u32 \<Rightarrow> u32" where
  "ceph_stable_mod x b bmask =
     (if sint (x AND bmask) < sint b then x AND bmask else x AND signed_drop_bit 1 bmask)"

definition ceph_pg_compare :: "ceph_pg \<Rightarrow> ceph_pg \<Rightarrow> int" where
  "ceph_pg_compare lhs rhs =
     (if pg_pool lhs < pg_pool rhs then - 1
      else if pg_pool lhs > pg_pool rhs then 1
      else if pg_seed lhs < pg_seed rhs then - 1
      else if pg_seed lhs > pg_seed rhs then 1
      else 0)"

definition ceph_spg_compare :: "ceph_spg \<Rightarrow> ceph_spg \<Rightarrow> int" where
  "ceph_spg_compare lhs rhs =
     (let ret = ceph_pg_compare (spg_pgid lhs) (spg_pgid rhs) in
      if ret \<noteq> 0 then ret
      else if spg_shard lhs < spg_shard rhs then - 1
      else if spg_shard lhs > spg_shard rhs then 1
      else 0)"

text \<open>
  The loop over the possible children of a placement group; \<open>n\<close> is its counter. The fuel stands
  for the missing bound of \<open>for (n = 1; ; n++)\<close>.
\<close>

fun pg_split_loop :: "nat \<Rightarrow> u32 \<Rightarrow> u32 \<Rightarrow> u32 \<Rightarrow> nat \<Rightarrow> u32 \<Rightarrow> u32 \<Rightarrow> bool outcome" where
  "pg_split_loop 0 seed old_pg_num new_pg_num old_bits old_mask n = Oops No_Fuel"
| "pg_split_loop (Suc fuel) seed old_pg_num new_pg_num old_bits old_mask n =
     (let s = push_bit (old_bits - 1) n OR seed in
      if s < old_pg_num \<or> s = seed
        then pg_split_loop fuel seed old_pg_num new_pg_num old_bits old_mask (n + 1)
      else if s \<ge> new_pg_num then Ok False
      else if ceph_stable_mod s old_pg_num old_mask = seed then Ok True
      else pg_split_loop fuel seed old_pg_num new_pg_num old_bits old_mask (n + 1))"

definition ceph_pg_is_split :: "nat \<Rightarrow> ceph_pg \<Rightarrow> u32 \<Rightarrow> u32 \<Rightarrow> bool outcome" where
  "ceph_pg_is_split fuel pgid old_pg_num new_pg_num =
     (let old_bits = calc_bits_of old_pg_num in
      bind_outcome (bit_mask old_bits) (\<lambda>old_mask.
        if new_pg_num \<le> old_pg_num then Ok False
        else if old_bits = 0 then Oops Bad_Shift
        else pg_split_loop fuel (pg_seed pgid) old_pg_num new_pg_num old_bits old_mask 1))"

section \<open>Sets of OSDs\<close>

definition osds_only_equal :: "ceph_osds \<Rightarrow> ceph_osds \<Rightarrow> bool" where
  "osds_only_equal lhs rhs \<longleftrightarrow> os_size lhs = os_size rhs \<and> osds_of lhs = osds_of rhs"

definition osds_equal :: "ceph_osds \<Rightarrow> ceph_osds \<Rightarrow> bool" where
  "osds_equal lhs rhs \<longleftrightarrow> osds_only_equal lhs rhs \<and> os_primary lhs = os_primary rhs"

definition osds_valid :: "ceph_osds \<Rightarrow> bool" where
  "osds_valid s \<longleftrightarrow>
     os_size s > 0 \<and> os_primary s \<ge> 0 \<or>
     os_size s = 0 \<and> os_primary s = - 1 \<or>
     os_size s > 0 \<and> os_primary s = - 1 \<and> list_all (\<lambda>osd. osd = CRUSH_ITEM_NONE) (osds_of s)"

definition ceph_osds_copy :: "ceph_osds \<Rightarrow> ceph_osds \<Rightarrow> ceph_osds" where
  "ceph_osds_copy dest src =
     dest\<lparr>os_osds := osds_of src @ drop (os_size src) (os_osds dest), os_size := os_size src,
       os_primary := os_primary src\<rparr>"

definition ceph_is_new_interval ::
    "nat \<Rightarrow> ceph_osds \<Rightarrow> ceph_osds \<Rightarrow> ceph_osds \<Rightarrow> ceph_osds \<Rightarrow> int \<Rightarrow> int \<Rightarrow> int \<Rightarrow> int \<Rightarrow> u32 \<Rightarrow> u32 \<Rightarrow>
     bool \<Rightarrow> bool \<Rightarrow> bool \<Rightarrow> bool \<Rightarrow> ceph_pg \<Rightarrow> bool outcome" where
  "ceph_is_new_interval fuel old_acting new_acting old_up new_up old_size new_size
       old_min_size new_min_size old_pg_num new_pg_num old_sort_bitwise new_sort_bitwise
       old_recovery_deletes new_recovery_deletes pgid =
     (if \<not> osds_equal old_acting new_acting \<or> \<not> osds_equal old_up new_up \<or>
         old_size \<noteq> new_size \<or> old_min_size \<noteq> new_min_size then Ok True
      else bind_outcome (ceph_pg_is_split fuel pgid old_pg_num new_pg_num) (\<lambda>split.
        Ok (split \<or> old_sort_bitwise \<noteq> new_sort_bitwise \<or> old_recovery_deletes \<noteq> new_recovery_deletes)))"

fun pg_rank_loop :: "int \<Rightarrow> nat \<Rightarrow> int list \<Rightarrow> int" where
  "pg_rank_loop osd i [] = - 1"
| "pg_rank_loop osd i (x # xs) = (if x = osd then int i else pg_rank_loop osd (Suc i) xs)"

definition calc_pg_rank :: "int \<Rightarrow> ceph_osds \<Rightarrow> int" where
  "calc_pg_rank osd acting = pg_rank_loop osd 0 (osds_of acting)"

definition primary_changed :: "ceph_osds \<Rightarrow> ceph_osds \<Rightarrow> bool" where
  "primary_changed old_acting new_acting =
     (if os_size old_acting = 0 \<and> os_size new_acting = 0 then False
      else if (os_size old_acting = 0) \<noteq> (os_size new_acting = 0) then True
      else if os_primary old_acting \<noteq> os_primary new_acting then True
      else if calc_pg_rank (os_primary old_acting) old_acting \<noteq> calc_pg_rank (os_primary new_acting) new_acting
        then True
      else False)"

definition ceph_osds_changed :: "ceph_osds \<Rightarrow> ceph_osds \<Rightarrow> bool \<Rightarrow> bool" where
  "ceph_osds_changed old_acting new_acting any_change =
     (if primary_changed old_acting new_acting then True
      else if any_change \<and> \<not> osds_only_equal old_acting new_acting then True
      else False)"

section \<open>Objects to placement groups\<close>

text \<open>An object locator is a pool and, if the object is in a namespace, the bytes of its name.\<close>

definition locator_to_pg_of ::
    "ceph_pg_pool_info \<Rightarrow> u8 list \<Rightarrow> int \<Rightarrow> u8 list option \<Rightarrow> ceph_pg" where
  "locator_to_pg_of pi oid_name oloc_pool oloc_ns =
     (case oloc_ns of
        None \<Rightarrow>
          \<lparr>pg_pool = word_of_int oloc_pool,
           pg_seed = ceph_str_hash (uint (pi_object_hash pi)) oid_name\<rparr>
      | Some ns \<Rightarrow>
          \<lparr>pg_pool = word_of_int oloc_pool,
           pg_seed = ceph_str_hash (uint (pi_object_hash pi)) (ns @ [31] @ oid_name)\<rparr>)"

definition ceph_pg_pool_by_id :: "ceph_osdmap \<Rightarrow> int \<Rightarrow> ceph_pg_pool_info option" where
  "ceph_pg_pool_by_id osdmap poolid = pg_pools osdmap poolid"

definition ceph_pg_pool_flags :: "ceph_osdmap \<Rightarrow> int \<Rightarrow> u64" where
  "ceph_pg_pool_flags osdmap poolid =
     (case ceph_pg_pool_by_id osdmap poolid of Some pi \<Rightarrow> pi_flags pi | None \<Rightarrow> 0)"

definition ceph_object_locator_to_pg ::
    "ceph_osdmap \<Rightarrow> u8 list \<Rightarrow> int \<Rightarrow> u8 list option \<Rightarrow> ceph_pg outcome" where
  "ceph_object_locator_to_pg osdmap oid_name oloc_pool oloc_ns =
     (case ceph_pg_pool_by_id osdmap oloc_pool of
        None \<Rightarrow> Err ENOENT
      | Some pi \<Rightarrow> Ok (locator_to_pg_of pi oid_name oloc_pool oloc_ns))"

definition raw_pg_to_pg :: "ceph_pg_pool_info \<Rightarrow> ceph_pg \<Rightarrow> ceph_pg" where
  "raw_pg_to_pg pi raw_pgid =
     \<lparr>pg_pool = pg_pool raw_pgid,
      pg_seed = ceph_stable_mod (pg_seed raw_pgid) (pi_pg_num pi) (pi_pg_num_mask pi)\<rparr>"

definition raw_pg_to_pps :: "ceph_pg_pool_info \<Rightarrow> ceph_pg \<Rightarrow> u32" where
  "raw_pg_to_pps pi raw_pgid =
     (if pi_flags pi AND CEPH_POOL_FLAG_HASHPSPOOL \<noteq> 0 then
        crush_hash32_2 CRUSH_HASH_RJENKINS1
          (ceph_stable_mod (pg_seed raw_pgid) (pi_pgp_num pi) (pi_pgp_num_mask pi)) (ucast (pg_pool raw_pgid))
      else
        ceph_stable_mod (pg_seed raw_pgid) (pi_pgp_num pi) (pi_pgp_num_mask pi) + ucast (pg_pool raw_pgid))"

section \<open>Placement groups to OSDs\<close>

definition ceph_can_shift_osds :: "ceph_pg_pool_info \<Rightarrow> bool outcome" where
  "ceph_can_shift_osds pool =
     (if pi_type pool = CEPH_POOL_TYPE_REP then Ok True
      else if pi_type pool = CEPH_POOL_TYPE_EC then Ok False
      else Oops Bug_On)"

definition ceph_osd_exists :: "ceph_osdmap \<Rightarrow> int \<Rightarrow> bool outcome" where
  "ceph_osd_exists m osd =
     (if osd \<ge> 0 \<and> osd < uint (max_osd m) then
        bind_outcome (aref (osd_state m) (nat osd)) (\<lambda>st. Ok (st AND CEPH_OSD_EXISTS \<noteq> 0))
      else Ok False)"

definition ceph_osd_is_up :: "ceph_osdmap \<Rightarrow> int \<Rightarrow> bool outcome" where
  "ceph_osd_is_up m osd =
     bind_outcome (ceph_osd_exists m osd) (\<lambda>ex.
       if ex then bind_outcome (aref (osd_state m) (nat osd)) (\<lambda>st. Ok (st AND CEPH_OSD_UP \<noteq> 0))
       else Ok False)"

definition ceph_osd_is_down :: "ceph_osdmap \<Rightarrow> int \<Rightarrow> bool outcome" where
  "ceph_osd_is_down m osd = bind_outcome (ceph_osd_is_up m osd) (\<lambda>up. Ok (\<not> up))"

text \<open>The scratch memory of a CRUSH computation.\<close>

record crush_memory =
  cm_fuel :: nat
  cm_work :: crush_work
  cm_a :: "int list"
  cm_b :: "int list"
  cm_c :: "int list"

definition do_crush ::
    "ceph_osdmap \<Rightarrow> crush_memory \<Rightarrow> int \<Rightarrow> u32 \<Rightarrow> nat \<Rightarrow> int \<Rightarrow> (crush_memory \<times> int list) outcome" where
  "do_crush osdmap cm ruleno x result_max choose_args_index =
     (if result_max > CEPH_PG_MAX_SIZE then Oops Bug_On
      else
        let arg_map = (case osdmap_choose_args osdmap choose_args_index of
              None \<Rightarrow> osdmap_choose_args osdmap CEPH_DEFAULT_CHOOSE_ARGS
            | Some args \<Rightarrow> Some args) in
        bind_outcome
          (crush_do_rule (cm_fuel cm)
             \<lparr>env_map = osdmap_crush osdmap, env_weight = osd_weight osdmap,
              env_weight_max = uint (max_osd osdmap), env_x = x, env_choose_args = arg_map\<rparr>
             ruleno result_max (cm_work cm) (take result_max (cm_a cm)) (take result_max (cm_b cm))
             (take result_max (cm_c cm)))
          (\<lambda>(work, res). Ok (cm\<lparr>cm_work := work\<rparr>, res)))"

text \<open>
  The loops over a set that drop the OSDs for which \<open>gone\<close> holds: shifting the others left, or
  leaving holes. \<open>removed\<close> counts the dropped entries so far.
\<close>

function shift_left :: "(int \<Rightarrow> bool outcome) \<Rightarrow> nat \<Rightarrow> nat \<Rightarrow> nat \<Rightarrow> int list \<Rightarrow> (nat \<times> int list) outcome" where
  "shift_left gone sz i removed osds =
     (if i < sz then
        bind_outcome (aref osds i) (\<lambda>osd.
        bind_outcome (gone osd) (\<lambda>g.
          if g then shift_left gone sz (Suc i) (Suc removed) osds
          else bind_outcome (if removed > 0 then aset osds (i - removed) osd else Ok osds)
            (shift_left gone sz (Suc i) removed)))
      else Ok (removed, osds))"
  by pat_completeness auto
termination
  by (relation "measure (\<lambda>(gone, sz, i, removed, osds). sz - i)") auto

declare shift_left.simps [simp del]

function punch_holes :: "(int \<Rightarrow> bool outcome) \<Rightarrow> nat \<Rightarrow> nat \<Rightarrow> int list \<Rightarrow> int list outcome" where
  "punch_holes gone sz i osds =
     (if i < sz then
        bind_outcome (aref osds i) (\<lambda>osd.
        bind_outcome (gone osd) (\<lambda>g.
        bind_outcome (if g then aset osds i CRUSH_ITEM_NONE else Ok osds) (punch_holes gone sz (Suc i))))
      else Ok osds)"
  by pat_completeness auto
termination
  by (relation "measure (\<lambda>(gone, sz, i, osds). sz - i)") auto

declare punch_holes.simps [simp del]

definition remove_nonexistent_osds ::
    "ceph_osdmap \<Rightarrow> ceph_pg_pool_info \<Rightarrow> ceph_osds \<Rightarrow> ceph_osds outcome" where
  "remove_nonexistent_osds osdmap pi s =
     (let gone = (\<lambda>osd. bind_outcome (ceph_osd_exists osdmap osd) (\<lambda>ex. Ok (\<not> ex))) in
      bind_outcome (ceph_can_shift_osds pi) (\<lambda>shift.
        if shift then
          bind_outcome (shift_left gone (os_size s) 0 0 (os_osds s)) (\<lambda>(removed, osds).
            Ok (s\<lparr>os_osds := osds, os_size := os_size s - removed\<rparr>))
        else
          bind_outcome (punch_holes gone (os_size s) 0 (os_osds s)) (\<lambda>osds. Ok (s\<lparr>os_osds := osds\<rparr>))))"

text \<open>The result is the scratch memory, the raw set and the placement seed.\<close>

definition pg_to_raw_osds ::
    "ceph_osdmap \<Rightarrow> ceph_pg_pool_info \<Rightarrow> crush_memory \<Rightarrow> ceph_pg \<Rightarrow> ceph_osds \<Rightarrow>
     (crush_memory \<times> ceph_osds \<times> u32) outcome" where
  "pg_to_raw_osds osdmap pi cm raw_pgid raw =
     (let pps = raw_pg_to_pps pi raw_pgid;
          raw = ceph_osds_init raw;
          ruleno = crush_find_rule (osdmap_crush osdmap) (uint (pi_crush_ruleset pi)) (uint (pi_type pi))
                     (uint (pi_size pi)) in
      if ruleno < 0 then Ok (cm, raw, pps)
      else if unat (pi_size pi) > length (os_osds raw) then Ok (cm, raw, pps)
      else
        bind_outcome (do_crush osdmap cm ruleno pps (unat (pi_size pi)) (pi_id pi)) (\<lambda>(cm, res).
        if length res > length (os_osds raw) then Oops Bad_Access
        else
          let raw = raw\<lparr>os_osds := res @ drop (length res) (os_osds raw), os_size := length res\<rparr> in
          bind_outcome (remove_nonexistent_osds osdmap pi raw) (\<lambda>raw. Ok (cm, raw, pps))))"

text \<open>
  Whether an OSD named by an explicit mapping is marked out. The comparison with the
  unsigned \<open>max_osd\<close> converts the OSD number to unsigned.
\<close>

definition marked_out :: "ceph_osdmap \<Rightarrow> int \<Rightarrow> bool outcome" where
  "marked_out osdmap osd =
     (if osd \<noteq> CRUSH_ITEM_NONE \<and> osd mod 2 ^ 32 < uint (max_osd osdmap) then
        if osd < 0 then Oops Bad_Access
        else bind_outcome (aref (osd_weight osdmap) (nat osd)) (\<lambda>w. Ok (w = 0))
      else Ok False)"

fun any_marked_out :: "ceph_osdmap \<Rightarrow> int list \<Rightarrow> bool outcome" where
  "any_marked_out osdmap [] = Ok False"
| "any_marked_out osdmap (osd # osds) =
     bind_outcome (marked_out osdmap osd) (\<lambda>m. if m then Ok True else any_marked_out osdmap osds)"

fun store_osds :: "nat \<Rightarrow> int list \<Rightarrow> int list \<Rightarrow> int list outcome" where
  "store_osds i [] arr = Ok arr"
| "store_osds i (osd # osds) arr = bind_outcome (aset arr i osd) (store_osds (Suc i) osds)"

text \<open>The scan of \<open>raw\<close> for one pair: whether \<open>to\<close> appears, and the first position of \<open>from\<close>.\<close>

fun upmap_scan :: "ceph_osdmap \<Rightarrow> int \<Rightarrow> int \<Rightarrow> nat \<Rightarrow> nat option \<Rightarrow> int list \<Rightarrow> (bool \<times> nat option) outcome" where
  "upmap_scan osdmap from to j pos [] = Ok (False, pos)"
| "upmap_scan osdmap from to j pos (osd # osds) =
     (if osd = to then Ok (True, pos)
      else if osd = from \<and> pos = None then
        bind_outcome (marked_out osdmap to) (\<lambda>m.
          upmap_scan osdmap from to (Suc j) (if m then None else Some j) osds)
      else upmap_scan osdmap from to (Suc j) pos osds)"

fun apply_upmap_items :: "ceph_osdmap \<Rightarrow> (int \<times> int) list \<Rightarrow> ceph_osds \<Rightarrow> ceph_osds outcome" where
  "apply_upmap_items osdmap [] raw = Ok raw"
| "apply_upmap_items osdmap ((from, to) # items) raw =
     bind_outcome (upmap_scan osdmap from to 0 None (osds_of raw)) (\<lambda>(exists, pos).
     bind_outcome
       (case pos of
          Some p \<Rightarrow>
            if \<not> exists then bind_outcome (aset (os_osds raw) p to) (\<lambda>osds. Ok (raw\<lparr>os_osds := osds\<rparr>))
            else Ok raw
        | None \<Rightarrow> Ok raw)
       (apply_upmap_items osdmap items))"

definition apply_upmap :: "ceph_osdmap \<Rightarrow> ceph_pg \<Rightarrow> ceph_osds \<Rightarrow> ceph_osds outcome" where
  "apply_upmap osdmap pgid raw =
     bind_outcome
       (case pg_upmap osdmap pgid of
          None \<Rightarrow> Ok (False, raw)
        | Some osds \<Rightarrow>
            bind_outcome (any_marked_out osdmap osds) (\<lambda>rejected.
              if rejected then Ok (True, raw)
              else bind_outcome (store_osds 0 osds (os_osds raw)) (\<lambda>arr.
                Ok (False, raw\<lparr>os_osds := arr, os_size := length osds\<rparr>))))
       (\<lambda>(return, raw).
          if return then Ok raw
          else case pg_upmap_items osdmap pgid of
            None \<Rightarrow> Ok raw
          | Some items \<Rightarrow> apply_upmap_items osdmap items raw)"

text \<open>The downward loop of a set that cannot shift: holes, and the primary is the last one seen.\<close>

fun up_holes :: "ceph_osdmap \<Rightarrow> nat \<Rightarrow> int list \<Rightarrow> int \<Rightarrow> (int list \<times> int) outcome" where
  "up_holes osdmap 0 osds primary = Ok (osds, primary)"
| "up_holes osdmap (Suc i) osds primary =
     bind_outcome (aref osds i) (\<lambda>osd.
     bind_outcome (ceph_osd_is_down osdmap osd) (\<lambda>down.
       if down then bind_outcome (aset osds i CRUSH_ITEM_NONE) (\<lambda>osds. up_holes osdmap i osds primary)
       else up_holes osdmap i osds osd))"

definition raw_to_up_osds :: "ceph_osdmap \<Rightarrow> ceph_pg_pool_info \<Rightarrow> ceph_osds \<Rightarrow> ceph_osds outcome" where
  "raw_to_up_osds osdmap pi s =
     (if os_primary s \<noteq> - 1 then Oops Bug_On
      else bind_outcome (ceph_can_shift_osds pi) (\<lambda>shift.
        if shift then
          bind_outcome (shift_left (ceph_osd_is_down osdmap) (os_size s) 0 0 (os_osds s)) (\<lambda>(removed, osds).
            let s = s\<lparr>os_osds := osds, os_size := os_size s - removed\<rparr> in
            if os_size s > 0 then bind_outcome (aref osds 0) (\<lambda>osd. Ok (s\<lparr>os_primary := osd\<rparr>)) else Ok s)
        else
          bind_outcome (up_holes osdmap (os_size s) (os_osds s) (os_primary s)) (\<lambda>(osds, primary).
            Ok (s\<lparr>os_osds := osds, os_primary := primary\<rparr>))))"

text \<open>Whether an OSD of the set has an affinity other than the default.\<close>

fun any_affinity :: "u32 list \<Rightarrow> int list \<Rightarrow> bool outcome" where
  "any_affinity aff [] = Ok False"
| "any_affinity aff (osd # osds) =
     (if osd \<noteq> CRUSH_ITEM_NONE then
        if osd < 0 then Oops Bad_Access
        else bind_outcome (aref aff (nat osd)) (\<lambda>v.
          if v \<noteq> CEPH_OSD_DEFAULT_PRIMARY_AFFINITY then Ok True else any_affinity aff osds)
      else any_affinity aff osds)"

fun pick_primary :: "u32 list \<Rightarrow> u32 \<Rightarrow> nat \<Rightarrow> nat option \<Rightarrow> int list \<Rightarrow> nat option outcome" where
  "pick_primary aff pps i pos [] = Ok pos"
| "pick_primary aff pps i pos (osd # osds) =
     (if osd = CRUSH_ITEM_NONE then pick_primary aff pps (Suc i) pos osds
      else if osd < 0 then Oops Bad_Access
      else bind_outcome (aref aff (nat osd)) (\<lambda>v.
        if v < CEPH_OSD_MAX_PRIMARY_AFFINITY \<and>
           drop_bit 16 (crush_hash32_2 CRUSH_HASH_RJENKINS1 pps (word_of_int osd)) \<ge> v
        then pick_primary aff pps (Suc i) (if pos = None then Some i else pos) osds
        else Ok (Some i)))"

fun move_right :: "nat \<Rightarrow> int list \<Rightarrow> int list outcome" where
  "move_right 0 osds = Ok osds"
| "move_right (Suc i) osds =
     bind_outcome (aref osds i) (\<lambda>v. bind_outcome (aset osds (Suc i) v) (move_right i))"

definition apply_primary_affinity ::
    "ceph_osdmap \<Rightarrow> ceph_pg_pool_info \<Rightarrow> u32 \<Rightarrow> ceph_osds \<Rightarrow> ceph_osds outcome" where
  "apply_primary_affinity osdmap pi pps up =
     (case osd_primary_affinity osdmap of
        None \<Rightarrow> Ok up
      | Some aff \<Rightarrow>
          bind_outcome (any_affinity aff (osds_of up)) (\<lambda>found.
          if \<not> found then Ok up
          else
            bind_outcome (pick_primary aff pps 0 None (osds_of up)) (\<lambda>pos.
            case pos of
              None \<Rightarrow> Ok up
            | Some p \<Rightarrow>
                bind_outcome (aref (os_osds up) p) (\<lambda>primary.
                let up = up\<lparr>os_primary := primary\<rparr> in
                bind_outcome (ceph_can_shift_osds pi) (\<lambda>shift.
                if shift \<and> p > 0 then
                  bind_outcome (move_right p (os_osds up)) (\<lambda>osds.
                  bind_outcome (aset osds 0 primary) (\<lambda>osds. Ok (up\<lparr>os_osds := osds\<rparr>)))
                else Ok up)))))"

fun temp_osds :: "ceph_osdmap \<Rightarrow> ceph_pg_pool_info \<Rightarrow> int list \<Rightarrow> ceph_osds \<Rightarrow> ceph_osds outcome" where
  "temp_osds osdmap pi [] temp = Ok temp"
| "temp_osds osdmap pi (osd # osds) temp =
     bind_outcome (ceph_osd_is_down osdmap osd) (\<lambda>down.
     bind_outcome (if down then ceph_can_shift_osds pi else Ok False) (\<lambda>skip.
       if skip then temp_osds osdmap pi osds temp
       else bind_outcome (aset (os_osds temp) (os_size temp) (if down then CRUSH_ITEM_NONE else osd)) (\<lambda>arr.
              temp_osds osdmap pi osds (temp\<lparr>os_osds := arr, os_size := Suc (os_size temp)\<rparr>))))"

fun first_osd :: "int list \<Rightarrow> int \<Rightarrow> int" where
  "first_osd [] primary = primary"
| "first_osd (osd # osds) primary = (if osd \<noteq> CRUSH_ITEM_NONE then osd else first_osd osds primary)"

definition get_temp_osds ::
    "ceph_osdmap \<Rightarrow> ceph_pg_pool_info \<Rightarrow> ceph_pg \<Rightarrow> ceph_osds \<Rightarrow> ceph_osds outcome" where
  "get_temp_osds osdmap pi pgid temp =
     (let temp = ceph_osds_init temp in
      bind_outcome
        (case pg_temp osdmap pgid of
           None \<Rightarrow> Ok temp
         | Some osds \<Rightarrow>
             bind_outcome (temp_osds osdmap pi osds temp) (\<lambda>temp.
               Ok (temp\<lparr>os_primary := first_osd (osds_of temp) (os_primary temp)\<rparr>)))
        (\<lambda>temp.
           case primary_temp osdmap pgid of
             None \<Rightarrow> Ok temp
           | Some osd \<Rightarrow> Ok (temp\<lparr>os_primary := osd\<rparr>)))"

text \<open>The result is the scratch memory, the up set and the acting set.\<close>

definition ceph_pg_to_up_acting_osds ::
    "ceph_osdmap \<Rightarrow> ceph_pg_pool_info \<Rightarrow> crush_memory \<Rightarrow> ceph_pg \<Rightarrow> ceph_osds \<Rightarrow> ceph_osds \<Rightarrow>
     (crush_memory \<times> ceph_osds \<times> ceph_osds) outcome" where
  "ceph_pg_to_up_acting_osds osdmap pi cm raw_pgid up acting =
     (let pgid = raw_pg_to_pg pi raw_pgid in
      bind_outcome (pg_to_raw_osds osdmap pi cm raw_pgid up) (\<lambda>(cm, up, pps).
      bind_outcome (apply_upmap osdmap pgid up) (\<lambda>up.
      bind_outcome (raw_to_up_osds osdmap pi up) (\<lambda>up.
      bind_outcome (apply_primary_affinity osdmap pi pps up) (\<lambda>up.
      bind_outcome (get_temp_osds osdmap pi pgid acting) (\<lambda>acting.
        let acting =
          (if os_size acting = 0 then
             acting\<lparr>os_osds := osds_of up @ drop (os_size up) (os_osds acting), os_size := os_size up,
               os_primary := (if os_primary acting = - 1 then os_primary up else os_primary acting)\<rparr>
           else acting)
        in Ok (cm, up, acting)))))))"

definition ceph_pg_to_primary_shard ::
    "ceph_osdmap \<Rightarrow> ceph_pg_pool_info \<Rightarrow> crush_memory \<Rightarrow> ceph_pg \<Rightarrow> ceph_osds \<Rightarrow> ceph_osds \<Rightarrow>
     (crush_memory \<times> ceph_spg option) outcome" where
  "ceph_pg_to_primary_shard osdmap pi cm raw_pgid up acting =
     (let pgid = raw_pg_to_pg pi raw_pgid in
      bind_outcome (ceph_can_shift_osds pi) (\<lambda>shift.
      if shift then Ok (cm, Some \<lparr>spg_pgid = pgid, spg_shard = CEPH_SPG_NOSHARD\<rparr>)
      else
        bind_outcome (ceph_pg_to_up_acting_osds osdmap pi cm pgid up acting) (\<lambda>(cm, up, acting).
        let i = pg_rank_loop (os_primary acting) 0 (osds_of acting) in
        if i < 0 then Ok (cm, None) else Ok (cm, Some \<lparr>spg_pgid = pgid, spg_shard = i\<rparr>))))"

definition ceph_pg_to_acting_primary ::
    "ceph_osdmap \<Rightarrow> crush_memory \<Rightarrow> ceph_pg \<Rightarrow> ceph_osds \<Rightarrow> ceph_osds \<Rightarrow> (crush_memory \<times> int) outcome" where
  "ceph_pg_to_acting_primary osdmap cm raw_pgid up acting =
     (case ceph_pg_pool_by_id osdmap (uint (pg_pool raw_pgid)) of
        None \<Rightarrow> Ok (cm, - 1)
      | Some pi \<Rightarrow>
          bind_outcome (ceph_pg_to_up_acting_osds osdmap pi cm raw_pgid up acting) (\<lambda>(cm, up, acting).
            Ok (cm, os_primary acting)))"

section \<open>Filtering a set of OSDs\<close>

definition decides :: "(int \<Rightarrow> bool outcome) \<Rightarrow> (int \<Rightarrow> bool) \<Rightarrow> bool" where
  "decides gone P \<longleftrightarrow> (\<forall>osd. gone osd = Ok (P osd))"

lemma shift_left_from:
  assumes "decides gone P" and "removed \<le> i" and "i \<le> sz" and "sz \<le> length osds"
  shows "\<exists>removed' osds'. shift_left gone sz i removed osds = Ok (removed', osds') \<and>
     length osds' = length osds \<and> removed' \<le> sz \<and>
     take (sz - removed') osds' = take (i - removed) osds @ filter (\<lambda>osd. \<not> P osd) (drop i (take sz osds))"
  using assms(2-)
proof (induction "sz - i" arbitrary: i removed osds)
  case 0
  then show ?case by (subst shift_left.simps) simp
next
  case (Suc d)
  then have i: "i < sz" "i < length osds" and d: "d = sz - Suc i" by simp_all
  have rest: "drop i (take sz osds) = osds ! i # drop (Suc i) (take sz osds)"
    using i by (metis Cons_nth_drop_Suc length_take min_less_iff_conj nth_take)
  have g: "gone (osds ! i) = Ok (P (osds ! i))" using assms(1) by (simp add: decides_def)
  show ?case
  proof (cases "P (osds ! i)")
    case True
    have "Suc removed \<le> Suc i" "Suc i \<le> sz" "sz \<le> length osds" using Suc.prems i by simp_all
    from Suc.hyps(1) [OF d this] show ?thesis
      using i g True rest by (subst shift_left.simps) simp
  next
    case False
    let ?osds = "if removed > 0 then osds[i - removed := osds ! i] else osds"
    have "removed \<le> Suc i" "Suc i \<le> sz" "sz \<le> length ?osds" using Suc.prems i by simp_all
    from Suc.hyps(1) [OF d this] obtain r o' where r: "shift_left gone sz (Suc i) removed ?osds = Ok (r, o')"
      "length o' = length osds" "r \<le> sz"
      "take (sz - r) o' = take (Suc i - removed) ?osds @ filter (\<lambda>osd. \<not> P osd) (drop (Suc i) (take sz ?osds))"
      by auto
    have "take (Suc i - removed) ?osds = take (i - removed) osds @ [osds ! i]"
      using Suc.prems i by (auto simp: Suc_diff_le take_Suc_conv_app_nth)
    moreover have "drop (Suc i) (take sz ?osds) = drop (Suc i) (take sz osds)"
      using Suc.prems(1) by (auto simp: take_update_swap drop_update_cancel)
    moreover have "shift_left gone sz i removed osds = shift_left gone sz (Suc i) removed ?osds"
      using i g False by (subst shift_left.simps) simp
    ultimately show ?thesis using r rest False by simp
  qed
qed

lemma shift_left_filter:
  assumes "decides gone P" and "sz \<le> length osds"
  shows "\<exists>removed osds'. shift_left gone sz 0 0 osds = Ok (removed, osds') \<and> length osds' = length osds \<and>
     removed \<le> sz \<and> take (sz - removed) osds' = filter (\<lambda>osd. \<not> P osd) (take sz osds)"
  using shift_left_from [OF assms(1), of 0 0 sz osds] assms(2) by simp

lemma punch_holes_from:
  assumes "decides gone P" and "i \<le> sz" and "sz \<le> length osds"
  shows "punch_holes gone sz i osds =
     Ok (take i osds @ map (\<lambda>osd. if P osd then CRUSH_ITEM_NONE else osd) (drop i (take sz osds)) @ drop sz osds)"
  using assms(2-)
proof (induction "sz - i" arbitrary: i osds)
  case 0
  then have "i = sz" by simp
  then show ?case using 0 by (subst punch_holes.simps) simp
next
  case (Suc d)
  then have i: "i < sz" "i < length osds" and d: "d = sz - Suc i" by simp_all
  have rest: "drop i (take sz osds) = osds ! i # drop (Suc i) (take sz osds)"
    using i by (metis Cons_nth_drop_Suc length_take min_less_iff_conj nth_take)
  have g: "gone (osds ! i) = Ok (P (osds ! i))" using assms(1) by (simp add: decides_def)
  let ?osds = "if P (osds ! i) then osds[i := CRUSH_ITEM_NONE] else osds"
  have step: "punch_holes gone sz i osds = punch_holes gone sz (Suc i) ?osds"
    using i g by (subst punch_holes.simps) simp
  have "Suc i \<le> sz" "sz \<le> length ?osds" using Suc.prems i by simp_all
  from Suc.hyps(1) [OF d this] show ?case
    unfolding step rest using i
    by (simp add: take_Suc_conv_app_nth take_update_swap drop_update_cancel list_update_beyond)
qed

lemma punch_holes_map:
  assumes "decides gone P" and "sz \<le> length osds"
  shows "punch_holes gone sz 0 osds =
     Ok (map (\<lambda>osd. if P osd then CRUSH_ITEM_NONE else osd) (take sz osds) @ drop sz osds)"
  using punch_holes_from [OF assms(1), of 0 sz osds] assms(2) by simp

section \<open>Well-formed OSD maps\<close>

definition wf_osdmap :: "ceph_osdmap \<Rightarrow> bool" where
  "wf_osdmap m \<longleftrightarrow>
     length (osd_state m) = unat (max_osd m) \<and> length (osd_weight m) = unat (max_osd m) \<and> length (osd_addr m) = unat (max_osd m) \<and>
     (case osd_primary_affinity m of None \<Rightarrow> True | Some aff \<Rightarrow> length aff = unat (max_osd m)) \<and>
     unat (max_osd m) \<le> 0x7ffffffe"

definition osd_exists :: "ceph_osdmap \<Rightarrow> int \<Rightarrow> bool" where
  "osd_exists m osd \<longleftrightarrow> 0 \<le> osd \<and> osd < uint (max_osd m) \<and> osd_state m ! nat osd AND CEPH_OSD_EXISTS \<noteq> 0"

definition osd_up :: "ceph_osdmap \<Rightarrow> int \<Rightarrow> bool" where
  "osd_up m osd \<longleftrightarrow> osd_exists m osd \<and> osd_state m ! nat osd AND CEPH_OSD_UP \<noteq> 0"

text \<open>OSD numbers are 32-bit integers.\<close>

abbreviation (input) int32 :: "int \<Rightarrow> bool" where
  "int32 i \<equiv> - (2 ^ 31) \<le> i \<and> i < 2 ^ 31"

lemma uint_max_osd:
  assumes "wf_osdmap m"
  shows "uint (max_osd m) = int (length (osd_state m))" and "uint (max_osd m) = int (length (osd_weight m))"
    and "uint (max_osd m) \<le> 0x7ffffffe"
proof -
  have "uint (max_osd m) = int (unat (max_osd m))" by simp
  then show "uint (max_osd m) = int (length (osd_state m))" and "uint (max_osd m) = int (length (osd_weight m))"
    using assms by (simp_all add: wf_osdmap_def)
  show "uint (max_osd m) \<le> 0x7ffffffe"
    using \<open>uint (max_osd m) = int (unat (max_osd m))\<close> assms unfolding wf_osdmap_def by linarith
qed

lemma ceph_osd_exists_Ok:
  assumes "wf_osdmap m"
  shows "ceph_osd_exists m osd = Ok (osd_exists m osd)"
  using uint_max_osd(1) [OF assms] by (auto simp: ceph_osd_exists_def osd_exists_def)

lemma ceph_osd_is_up_Ok:
  assumes "wf_osdmap m"
  shows "ceph_osd_is_up m osd = Ok (osd_up m osd)"
proof -
  have "nat osd < length (osd_state m)" if "osd_exists m osd"
    using that uint_max_osd(1) [OF assms] by (auto simp: osd_exists_def)
  then show ?thesis
    by (simp add: ceph_osd_is_up_def ceph_osd_exists_Ok [OF assms] osd_up_def)
qed

lemma decides_down: "wf_osdmap m \<Longrightarrow> decides (ceph_osd_is_down m) (\<lambda>osd. \<not> osd_up m osd)"
  by (simp add: decides_def ceph_osd_is_down_def ceph_osd_is_up_Ok)

lemma decides_missing:
  "wf_osdmap m \<Longrightarrow>
     decides (\<lambda>osd. bind_outcome (ceph_osd_exists m osd) (\<lambda>ex. Ok (\<not> ex))) (\<lambda>osd. \<not> osd_exists m osd)"
  by (simp add: decides_def ceph_osd_exists_Ok)

lemma NONE_not_up [simp]: "wf_osdmap m \<Longrightarrow> \<not> osd_up m CRUSH_ITEM_NONE"
  using uint_max_osd(3) [of m] by (auto simp: osd_up_def osd_exists_def)

lemma osd_up_nonneg: "osd_up m osd \<Longrightarrow> 0 \<le> osd"
  by (simp add: osd_up_def osd_exists_def)

text \<open>A set whose array has its full length and whose size fits.\<close>

definition wf_osds :: "ceph_osds \<Rightarrow> bool" where
  "wf_osds s \<longleftrightarrow> length (os_osds s) = CEPH_PG_MAX_SIZE \<and> os_size s \<le> CEPH_PG_MAX_SIZE"

definition pool_type_ok :: "ceph_pg_pool_info \<Rightarrow> bool" where
  "pool_type_ok pi \<longleftrightarrow> pi_type pi = CEPH_POOL_TYPE_REP \<or> pi_type pi = CEPH_POOL_TYPE_EC"

definition replicated :: "ceph_pg_pool_info \<Rightarrow> bool" where
  "replicated pi \<longleftrightarrow> pi_type pi = CEPH_POOL_TYPE_REP"

lemma can_shift_Ok: "pool_type_ok pi \<Longrightarrow> ceph_can_shift_osds pi = Ok (replicated pi)"
  by (auto simp: ceph_can_shift_osds_def pool_type_ok_def replicated_def)

section \<open>What each step does to a set\<close>

text \<open>Dropping OSDs: a replicated set closes the gaps, an erasure-coded one keeps the positions.\<close>

definition drop_osds :: "ceph_pg_pool_info \<Rightarrow> (int \<Rightarrow> bool) \<Rightarrow> int list \<Rightarrow> int list" where
  "drop_osds pi P osds =
     (if replicated pi then filter (\<lambda>osd. \<not> P osd) osds
      else map (\<lambda>osd. if P osd then CRUSH_ITEM_NONE else osd) osds)"

lemma remove_nonexistent_osds_Ok:
  assumes m: "wf_osdmap m" and pi: "pool_type_ok pi" and s: "wf_osds s"
  shows "\<exists>s'. remove_nonexistent_osds m pi s = Ok s' \<and> wf_osds s' \<and> os_primary s' = os_primary s \<and>
     osds_of s' = drop_osds pi (\<lambda>osd. \<not> osd_exists m osd) (osds_of s)"
proof (cases "replicated pi")
  case True
  obtain removed osds' where r:
    "shift_left (\<lambda>osd. bind_outcome (ceph_osd_exists m osd) (\<lambda>ex. Ok (\<not> ex))) (os_size s) 0 0 (os_osds s) =
       Ok (removed, osds')" "length osds' = length (os_osds s)" "removed \<le> os_size s"
    "take (os_size s - removed) osds' = filter (\<lambda>osd. \<not> \<not> osd_exists m osd) (take (os_size s) (os_osds s))"
    using shift_left_filter [OF decides_missing [OF m], of "os_size s" "os_osds s"] s by (auto simp: wf_osds_def)
  moreover have "os_size s - removed \<le> 32" using s by (auto simp: wf_osds_def)
  ultimately show ?thesis
    using True s by (simp add: remove_nonexistent_osds_def can_shift_Ok [OF pi] wf_osds_def osds_of_def drop_osds_def)
next
  case False
  then show ?thesis
    using s punch_holes_map [OF decides_missing [OF m], of "os_size s" "os_osds s"]
    by (simp add: remove_nonexistent_osds_def can_shift_Ok [OF pi] wf_osds_def osds_of_def drop_osds_def)
qed

lemma up_holes_Ok:
  assumes m: "wf_osdmap m" and "n \<le> length osds"
  shows "up_holes m n osds primary =
     Ok (map (\<lambda>osd. if osd_up m osd then osd else CRUSH_ITEM_NONE) (take n osds) @ drop n osds,
         first_osd (map (\<lambda>osd. if osd_up m osd then osd else CRUSH_ITEM_NONE) (take n osds)) primary)"
  using assms(2)
proof (induction n arbitrary: osds primary)
  case (Suc n)
  let ?f = "\<lambda>osd. if osd_up m osd then osd else CRUSH_ITEM_NONE"
  have n: "n < length osds" using Suc.prems by simp
  have first: "first_osd (xs @ [v]) p = first_osd xs (if v = CRUSH_ITEM_NONE then p else v)" for xs v p
    by (induction xs) auto
  have down: "ceph_osd_is_down m (osds ! n) = Ok (\<not> osd_up m (osds ! n))"
    by (simp add: ceph_osd_is_down_def ceph_osd_is_up_Ok [OF m])
  have rest: "drop n osds = osds ! n # drop (Suc n) osds" using n by (simp add: Cons_nth_drop_Suc)
  have ne: "osd_up m (osds ! n) \<Longrightarrow> osds ! n \<noteq> CRUSH_ITEM_NONE" using NONE_not_up [OF m] by metis
  show ?case
  proof (cases "osd_up m (osds ! n)")
    case True
    then show ?thesis
      using Suc.IH [of osds "osds ! n"] n down ne
      by (simp add: take_Suc_conv_app_nth first rest)
  next
    case False
    have "drop n (osds[n := CRUSH_ITEM_NONE]) = CRUSH_ITEM_NONE # drop (Suc n) osds"
      using n by (simp add: rest drop_update_swap)
    then show ?thesis
      using Suc.IH [of "osds[n := CRUSH_ITEM_NONE]" primary] n down False
      by (simp add: take_Suc_conv_app_nth first)
  qed
qed simp

text \<open>The up set of a raw set.\<close>

lemma first_osd_filter: "\<forall>x\<in>set xs. x \<noteq> CRUSH_ITEM_NONE \<Longrightarrow> first_osd xs p = (if xs = [] then p else hd xs)"
  by (cases xs) auto

lemma raw_to_up_osds_Ok:
  assumes m: "wf_osdmap m" and pi: "pool_type_ok pi" and s: "wf_osds s" and p: "os_primary s = - 1"
  shows "\<exists>s'. raw_to_up_osds m pi s = Ok s' \<and> wf_osds s' \<and>
     osds_of s' = drop_osds pi (\<lambda>osd. \<not> osd_up m osd) (osds_of s) \<and>
     os_primary s' = first_osd (osds_of s') (- 1)"
proof (cases "replicated pi")
  case True
  obtain removed osds' where r:
    "shift_left (ceph_osd_is_down m) (os_size s) 0 0 (os_osds s) = Ok (removed, osds')"
    "length osds' = length (os_osds s)" "removed \<le> os_size s"
    "take (os_size s - removed) osds' = filter (\<lambda>osd. \<not> \<not> osd_up m osd) (take (os_size s) (os_osds s))"
    using shift_left_filter [OF decides_down [OF m], of "os_size s" "os_osds s"] s by (auto simp: wf_osds_def)
  let ?s = "s\<lparr>os_osds := osds', os_size := os_size s - removed\<rparr>"
  have up: "osds_of ?s = filter (osd_up m) (osds_of s)" using r(4) by (simp add: osds_of_def)
  have wf: "wf_osds ?s" using s r(2) by (auto simp: wf_osds_def)
  have ne: "\<forall>x\<in>set (osds_of ?s). x \<noteq> CRUSH_ITEM_NONE" unfolding up using NONE_not_up [OF m] by auto
  show ?thesis
  proof (cases "os_size ?s > 0")
    case pos: True
    have len: "0 < length osds'" using s r(2) by (simp add: wf_osds_def)
    have "osds_of ?s \<noteq> []" "hd (osds_of ?s) = osds' ! 0"
      using pos len by (auto simp: osds_of_def hd_conv_nth)
    then have "first_osd (osds_of ?s) (- 1) = osds' ! 0" using first_osd_filter [OF ne] by simp
    moreover have "raw_to_up_osds m pi s = Ok (?s\<lparr>os_primary := osds' ! 0\<rparr>)"
      using p True r(1) pos len by (simp add: raw_to_up_osds_def can_shift_Ok [OF pi] Let_def)
    ultimately show ?thesis using wf up True by (simp add: wf_osds_def osds_of_def drop_osds_def)
  next
    case False
    then have "osds_of ?s = []" by (simp add: osds_of_def)
    moreover have "raw_to_up_osds m pi s = Ok ?s"
      using p True r(1) False by (simp add: raw_to_up_osds_def can_shift_Ok [OF pi] Let_def)
    ultimately show ?thesis using wf up True p by (simp add: drop_osds_def)
  qed
next
  case False
  have f: "(\<lambda>osd. if \<not> osd_up m osd then CRUSH_ITEM_NONE else osd) =
      (\<lambda>osd. if osd_up m osd then osd else CRUSH_ITEM_NONE)" by auto
  show ?thesis
    using up_holes_Ok [OF m, of "os_size s" "os_osds s" "- 1"] False s p
    by (simp add: raw_to_up_osds_def can_shift_Ok [OF pi] wf_osds_def osds_of_def drop_osds_def f)
qed

section \<open>Primary affinity\<close>

lemma any_affinity_Ok:
  assumes "\<forall>osd\<in>set osds. osd = CRUSH_ITEM_NONE \<or> 0 \<le> osd \<and> osd < int (length aff)"
  shows "any_affinity aff osds =
     Ok (\<exists>osd\<in>set osds. osd \<noteq> CRUSH_ITEM_NONE \<and> aff ! nat osd \<noteq> CEPH_OSD_DEFAULT_PRIMARY_AFFINITY)"
  using assms
proof (induction osds)
  case (Cons osd osds)
  then show ?case by (cases "osd = CRUSH_ITEM_NONE") auto
qed simp

lemma pick_primary_Ok:
  assumes "\<forall>osd\<in>set osds. osd = CRUSH_ITEM_NONE \<or> 0 \<le> osd \<and> osd < int (length aff)"
  shows "\<exists>pos'. pick_primary aff pps i pos osds = Ok pos' \<and>
     (pos' = pos \<or> (\<exists>k. pos' = Some (i + k) \<and> k < length osds \<and> osds ! k \<noteq> CRUSH_ITEM_NONE))"
  using assms
proof (induction osds arbitrary: i pos)
  case (Cons osd osds)
  let ?hit = "\<lambda>pos'. \<exists>k. pos' = Some (i + k) \<and> k < length (osd # osds) \<and> (osd # osds) ! k \<noteq> CRUSH_ITEM_NONE"
  have IH: "\<exists>pos'. pick_primary aff pps (Suc i) p osds = Ok pos' \<and> (pos' = p \<or> ?hit pos')" for p
  proof -
    obtain pos' where pos': "pick_primary aff pps (Suc i) p osds = Ok pos'"
      "pos' = p \<or> (\<exists>k. pos' = Some (Suc i + k) \<and> k < length osds \<and> osds ! k \<noteq> CRUSH_ITEM_NONE)"
      using Cons.IH [of "Suc i" p] Cons.prems by auto
    have "?hit pos'" if "pos' = Some (Suc i + k)" "k < length osds" "osds ! k \<noteq> CRUSH_ITEM_NONE" for k
      using that by (intro exI [of _ "Suc k"]) simp
    then show ?thesis using pos' by blast
  qed
  show ?case
  proof (cases "osd = CRUSH_ITEM_NONE")
    case True
    then show ?thesis using IH [of pos] by simp
  next
    case False
    then have osd: "\<not> osd < 0" "nat osd < length aff" using Cons.prems by auto
    have hit: "?hit (Some i)" using False by (intro exI [of _ 0]) simp
    show ?thesis
    proof (cases "aff ! nat osd < CEPH_OSD_MAX_PRIMARY_AFFINITY \<and>
           drop_bit 16 (crush_hash32_2 CRUSH_HASH_RJENKINS1 pps (word_of_int osd)) \<ge> aff ! nat osd")
      case rejected: True
      have "pick_primary aff pps i pos (osd # osds) =
          pick_primary aff pps (Suc i) (if pos = None then Some i else pos) osds"
        using False osd rejected by simp
      then show ?thesis using IH [of "if pos = None then Some i else pos"] hit by (cases pos) auto
    next
      case accepted: False
      have "pick_primary aff pps i pos (osd # osds) = Ok (Some i)"
        using False osd accepted by auto
      then show ?thesis using hit by blast
    qed
  qed
qed simp

lemma move_right_Ok:
  "p < length osds \<Longrightarrow> move_right p osds = Ok (osds ! 0 # take p osds @ drop (Suc p) osds)"
proof (induction p arbitrary: osds)
  case 0
  then show ?case by (cases osds) auto
next
  case (Suc p)
  let ?o = "osds[Suc p := osds ! p]"
  have rest: "drop (Suc p) osds = osds ! Suc p # drop (Suc (Suc p)) osds"
    using Suc.prems by (simp only: Cons_nth_drop_Suc)
  have "drop (Suc p) ?o = osds ! p # drop (Suc (Suc p)) osds"
    unfolding drop_update_swap rest by (simp add: drop_update_swap rest)
  moreover have "take p ?o = take p osds" by simp
  moreover have "take (Suc p) osds = take p osds @ [osds ! p]"
    using Suc.prems by (simp add: take_Suc_conv_app_nth)
  ultimately show ?case using Suc.IH [of ?o] Suc.prems by simp
qed

text \<open>The chosen primary goes to the front of a replicated set and stays in place otherwise.\<close>

definition affinity_result :: "ceph_pg_pool_info \<Rightarrow> ceph_osds \<Rightarrow> ceph_osds \<Rightarrow> bool" where
  "affinity_result pi s s' \<longleftrightarrow>
     osds_of s' = osds_of s \<and> os_primary s' = os_primary s \<or>
     os_primary s' \<noteq> CRUSH_ITEM_NONE \<and>
     (\<exists>ys zs. osds_of s = ys @ os_primary s' # zs \<and>
        osds_of s' = (if replicated pi then os_primary s' # ys @ zs else osds_of s))"

lemma apply_primary_affinity_Ok:
  assumes m: "wf_osdmap m" and pi: "pool_type_ok pi" and s: "wf_osds s"
    and up: "\<forall>osd\<in>set (osds_of s). osd = CRUSH_ITEM_NONE \<or> osd_up m osd"
  shows "\<exists>s'. apply_primary_affinity m pi pps s = Ok s' \<and> wf_osds s' \<and> affinity_result pi s s'"
proof (cases "osd_primary_affinity m")
  case None
  then show ?thesis using s by (simp add: apply_primary_affinity_def affinity_result_def)
next
  case (Some aff)
  have "length aff = length (osd_state m)" using m Some by (simp add: wf_osdmap_def)
  then have r: "\<forall>osd\<in>set (osds_of s). osd = CRUSH_ITEM_NONE \<or> 0 \<le> osd \<and> osd < int (length aff)"
    using up uint_max_osd(1) [OF m] by (auto simp: osd_up_def osd_exists_def)
  obtain found where found: "any_affinity aff (osds_of s) = Ok found" using any_affinity_Ok [OF r] by blast
  obtain pos where pos: "pick_primary aff pps 0 None (osds_of s) = Ok pos"
    "pos = None \<or> (\<exists>p. pos = Some p \<and> p < length (osds_of s) \<and> osds_of s ! p \<noteq> CRUSH_ITEM_NONE)"
    using pick_primary_Ok [OF r, of pps 0 None] by auto
  show ?thesis
  proof (cases "found \<and> pos \<noteq> None")
    case False
    then have "apply_primary_affinity m pi pps s = Ok s"
      using Some found pos(1) by (cases pos) (auto simp: apply_primary_affinity_def)
    then show ?thesis using s by (simp add: affinity_result_def)
  next
    case True
    then obtain p where p: "pos = Some p" "p < length (osds_of s)" "osds_of s ! p \<noteq> CRUSH_ITEM_NONE"
      using pos(2) by auto
    let ?v = "osds_of s ! p"
    have sz: "p < os_size s" "p < length (os_osds s)" "os_osds s ! p = ?v"
      using p(2) by (simp_all add: osds_of_def)
    have split: "osds_of s = take p (osds_of s) @ ?v # drop (Suc p) (osds_of s)"
      using p(2) by (rule id_take_nth_drop)
    let ?s = "if replicated pi \<and> p > 0
      then s\<lparr>os_primary := ?v, os_osds := ?v # take p (os_osds s) @ drop (Suc p) (os_osds s)\<rparr>
      else s\<lparr>os_primary := ?v\<rparr>"
    have "apply_primary_affinity m pi pps s = Ok ?s"
      using Some found pos(1) True p(1) sz
      by (simp add: apply_primary_affinity_def can_shift_Ok [OF pi] move_right_Ok Let_def)
    moreover have "wf_osds ?s" using s sz by (simp add: wf_osds_def)
    moreover have "affinity_result pi s ?s"
    proof (cases "replicated pi \<and> p > 0")
      case True
      have "osds_of ?s = ?v # take p (osds_of s) @ drop (Suc p) (osds_of s)"
      proof -
        obtain k where k: "os_size s = Suc k" "p \<le> k" using sz(1) by (cases "os_size s") auto
        have "take k (take p (os_osds s) @ drop (Suc p) (os_osds s)) =
            take p (take (Suc k) (os_osds s)) @ drop (Suc p) (take (Suc k) (os_osds s))"
          using k(2) sz(2) by (simp add: take_drop min_def)
        then show ?thesis using True k(1) by (simp add: osds_of_def)
      qed
      then show ?thesis using True p(3) split by (auto simp: affinity_result_def)
    next
      case False
      then have "osds_of ?s = osds_of s" "os_primary ?s = ?v" by (auto simp: osds_of_def)
      moreover have "replicated pi \<Longrightarrow> take p (osds_of s) = []" using False by simp
      ultimately show ?thesis using p(3) split False unfolding affinity_result_def
        by (intro disjI2 conjI exI [of _ "take p (osds_of s)"] exI [of _ "drop (Suc p) (osds_of s)"]) auto
    qed
    ultimately show ?thesis by blast
  qed
qed

section \<open>Explicit mappings\<close>

definition osd_out :: "ceph_osdmap \<Rightarrow> int \<Rightarrow> bool" where
  "osd_out m osd \<longleftrightarrow> 0 \<le> osd \<and> osd < uint (max_osd m) \<and> osd_weight m ! nat osd = 0"

lemma marked_out_Ok:
  assumes m: "wf_osdmap m" and osd: "int32 osd"
  shows "marked_out m osd = Ok (osd_out m osd)"
proof (cases "osd < 0")
  case True
  have "osd mod 2 ^ 32 = (osd + 2 ^ 32) mod 2 ^ 32" by simp
  also have "\<dots> = osd + 2 ^ 32" using True osd by (intro mod_pos_pos_trivial) auto
  finally have "\<not> osd mod 2 ^ 32 < uint (max_osd m)" using osd uint_max_osd(3) [OF m] by auto
  then show ?thesis using True by (simp add: marked_out_def osd_out_def)
next
  case False
  then have "osd mod 2 ^ 32 = osd" using osd by (intro mod_pos_pos_trivial) auto
  then show ?thesis using False uint_max_osd(2,3) [OF m] by (auto simp: marked_out_def osd_out_def)
qed

lemma any_marked_out_Ok:
  assumes m: "wf_osdmap m" and osds: "\<forall>osd\<in>set osds. int32 osd"
  shows "any_marked_out m osds = Ok (\<exists>osd\<in>set osds. osd_out m osd)"
  using osds by (induction osds) (auto simp: marked_out_Ok [OF m])

lemma store_osds_Ok:
  "i + length osds \<le> length arr \<Longrightarrow>
     store_osds i osds arr = Ok (take i arr @ osds @ drop (i + length osds) arr)"
proof (induction osds arbitrary: i arr)
  case (Cons osd osds)
  then show ?case by (simp add: take_Suc_conv_app_nth)
qed simp

lemma store_osds_overrun:
  "i \<le> length arr \<Longrightarrow> i + length osds > length arr \<Longrightarrow> store_osds i osds arr = Oops Bad_Access"
proof (induction osds arbitrary: i arr)
  case (Cons osd osds)
  then show ?case by (cases "i < length arr") (auto simp: aset_def)
qed simp

lemma upmap_scan_Ok:
  assumes m: "wf_osdmap m" and to: "int32 to" and pos: "pos = None \<or> (\<exists>p<j. pos = Some p)"
  shows "\<exists>pos'. upmap_scan m from to j pos osds = Ok (to \<in> set osds, pos') \<and>
     (pos' = pos \<or> (\<exists>p<j + length osds. pos' = Some p))"
  using pos
proof (induction osds arbitrary: j pos)
  case (Cons osd osds)
  let ?pos = "if osd = from \<and> pos = None then (if osd_out m to then None else Some j) else pos"
  have pos: "?pos = None \<or> (\<exists>p<Suc j. ?pos = Some p)" using Cons.prems by (auto simp: less_Suc_eq)
  obtain pos' where r: "upmap_scan m from to (Suc j) ?pos osds = Ok (to \<in> set osds, pos')"
    "pos' = ?pos \<or> (\<exists>p<Suc j + length osds. pos' = Some p)"
    using Cons.IH [OF pos] by blast
  show ?case
  proof (cases "osd = to")
    case True
    then have "upmap_scan m from to j pos (osd # osds) = Ok (True, pos)" by simp
    then show ?thesis using True by simp
  next
    case False
    then have "upmap_scan m from to j pos (osd # osds) = upmap_scan m from to (Suc j) ?pos osds"
      by (simp add: marked_out_Ok [OF m to])
    moreover have "pos' = pos \<or> (\<exists>p<j + length (osd # osds). pos' = Some p)"
      using r(2) by (auto split: if_splits)
    ultimately show ?thesis using r(1) False by auto
  qed
qed simp

lemma apply_upmap_items_Ok:
  assumes m: "wf_osdmap m" and items: "\<forall>(from, to)\<in>set items. int32 to" and s: "wf_osds s"
  shows "\<exists>s'. apply_upmap_items m items s = Ok s' \<and> wf_osds s' \<and> os_size s' = os_size s \<and>
     os_primary s' = os_primary s"
  using items s
proof (induction items arbitrary: s)
  case (Cons item items)
  obtain src to where item: "item = (src, to)" by (cases item)
  have to: "int32 to" using Cons.prems(1) item by simp
  obtain ex pos where scan: "upmap_scan m src to 0 None (osds_of s) = Ok (ex, pos)"
    "pos = None \<or> (\<exists>p<length (osds_of s). pos = Some p)"
    using upmap_scan_Ok [OF m to, of None 0 src "osds_of s"] by auto
  let ?s = "case pos of None \<Rightarrow> s | Some p \<Rightarrow> if ex then s else s\<lparr>os_osds := (os_osds s)[p := to]\<rparr>"
  have in_range: "p < length (os_osds s)" if "pos = Some p" for p
    using scan(2) that by (auto simp: osds_of_def)
  have "apply_upmap_items m (item # items) s = apply_upmap_items m items ?s"
    using scan(1) in_range by (cases pos) (auto simp: item)
  moreover have "wf_osds ?s" "os_size ?s = os_size s" "os_primary ?s = os_primary s"
    using Cons.prems(2) by (auto simp: wf_osds_def split: option.splits)
  moreover have "\<forall>(from, to)\<in>set items. int32 to" using Cons.prems(1) by simp
  ultimately show ?case using Cons.IH [of ?s] by (metis (no_types, lifting))
qed simp

text \<open>What a decoded map has to respect: explicit mappings fit into a set.\<close>

definition mappings_fit :: "ceph_osdmap \<Rightarrow> ceph_pg \<Rightarrow> bool" where
  "mappings_fit m pgid \<longleftrightarrow>
     (case pg_upmap m pgid of None \<Rightarrow> True
      | Some osds \<Rightarrow> length osds \<le> CEPH_PG_MAX_SIZE \<and> list_all (\<lambda>osd. int32 osd) osds) \<and>
     (case pg_upmap_items m pgid of None \<Rightarrow> True
      | Some items \<Rightarrow> list_all (\<lambda>(from, to). int32 to) items) \<and>
     (case pg_temp m pgid of None \<Rightarrow> True | Some osds \<Rightarrow> length osds \<le> CEPH_PG_MAX_SIZE)"

lemma apply_upmap_Ok:
  assumes m: "wf_osdmap m" and fit: "mappings_fit m pgid" and s: "wf_osds s"
  shows "\<exists>s'. apply_upmap m pgid s = Ok s' \<and> wf_osds s' \<and> os_primary s' = os_primary s"
proof -
  let ?items = "\<lambda>s. case pg_upmap_items m pgid of None \<Rightarrow> Ok s | Some items \<Rightarrow> apply_upmap_items m items s"
  have items: "\<exists>s'. ?items s = Ok s' \<and> wf_osds s' \<and> os_primary s' = os_primary s" if "wf_osds s" for s
  proof (cases "pg_upmap_items m pgid")
    case (Some items)
    then have "\<forall>(from, to)\<in>set items. int32 to" using fit by (simp add: mappings_fit_def list_all_iff)
    from apply_upmap_items_Ok [OF m this that] show ?thesis using Some by auto
  qed (simp add: that)
  show ?thesis
  proof (cases "pg_upmap m pgid")
    case None
    then show ?thesis using items [OF s] by (simp add: apply_upmap_def)
  next
    case (Some osds)
    then have osds: "length osds \<le> 32" "\<forall>osd\<in>set osds. int32 osd"
      using fit by (auto simp: mappings_fit_def list_all_iff)
    let ?s = "s\<lparr>os_osds := osds @ drop (length osds) (os_osds s), os_size := length osds\<rparr>"
    have s': "wf_osds ?s" using s osds(1) by (simp add: wf_osds_def)
    have arr: "store_osds 0 osds (os_osds s) = Ok (osds @ drop (length osds) (os_osds s))"
      using store_osds_Ok [of 0 osds "os_osds s"] s osds(1) by (simp add: wf_osds_def)
    show ?thesis
    proof (cases "\<exists>osd\<in>set osds. osd_out m osd")
      case True
      then show ?thesis using Some s by (simp add: apply_upmap_def any_marked_out_Ok [OF m osds(2)])
    next
      case False
      then have "apply_upmap m pgid s = ?items ?s"
        using Some arr by (simp add: apply_upmap_def any_marked_out_Ok [OF m osds(2)])
      then show ?thesis using items [OF s'] by simp
    qed
  qed
qed

section \<open>Temporary mappings\<close>

text \<open>The entries of a temporary mapping that end up in the set.\<close>

lemma temp_osds_Ok:
  assumes m: "wf_osdmap m" and pi: "pool_type_ok pi" and s: "length (os_osds s) = CEPH_PG_MAX_SIZE"
    and "os_size s + length osds \<le> CEPH_PG_MAX_SIZE"
  shows "\<exists>s'. temp_osds m pi osds s = Ok s' \<and> wf_osds s' \<and> os_primary s' = os_primary s \<and>
     osds_of s' = osds_of s @ drop_osds pi (\<lambda>osd. \<not> osd_up m osd) osds"
  using s assms(4)
proof (induction osds arbitrary: s)
  case Nil
  then show ?case by (simp add: wf_osds_def drop_osds_def)
next
  case (Cons osd osds)
  have down: "ceph_osd_is_down m osd = Ok (\<not> osd_up m osd)"
    by (simp add: ceph_osd_is_down_def ceph_osd_is_up_Ok [OF m])
  show ?case
  proof (cases "\<not> osd_up m osd \<and> replicated pi")
    case True
    then have "temp_osds m pi (osd # osds) s = temp_osds m pi osds s"
      by (simp add: down can_shift_Ok [OF pi])
    then show ?thesis using Cons.IH [of s] Cons.prems True by (simp add: drop_osds_def)
  next
    case False
    let ?v = "if osd_up m osd then osd else CRUSH_ITEM_NONE"
    let ?s = "s\<lparr>os_osds := (os_osds s)[os_size s := ?v], os_size := Suc (os_size s)\<rparr>"
    have "temp_osds m pi (osd # osds) s = temp_osds m pi osds ?s"
      using False Cons.prems by (auto simp: down can_shift_Ok [OF pi])
    moreover have "osds_of ?s = osds_of s @ [?v]"
      using Cons.prems by (simp add: osds_of_def take_Suc_conv_app_nth)
    moreover have "drop_osds pi (\<lambda>osd. \<not> osd_up m osd) (osd # osds) =
        ?v # drop_osds pi (\<lambda>osd. \<not> osd_up m osd) osds"
      using False by (auto simp: drop_osds_def)
    ultimately show ?thesis using Cons.IH [of ?s] Cons.prems by simp
  qed
qed

lemma temp_osds_overrun:
  assumes m: "wf_osdmap m" and pi: "pool_type_ok pi" and "os_size s \<le> length (os_osds s)"
    and "os_size s + length (drop_osds pi (\<lambda>osd. \<not> osd_up m osd) osds) > length (os_osds s)"
  shows "temp_osds m pi osds s = Oops Bad_Access"
  using assms(3-)
proof (induction osds arbitrary: s)
  case Nil
  then show ?case by (auto simp: drop_osds_def split: if_splits)
next
  case (Cons osd osds)
  have down: "ceph_osd_is_down m osd = Ok (\<not> osd_up m osd)"
    by (simp add: ceph_osd_is_down_def ceph_osd_is_up_Ok [OF m])
  show ?case
  proof (cases "\<not> osd_up m osd \<and> replicated pi")
    case True
    then show ?thesis using Cons.IH [of s] Cons.prems by (simp add: down can_shift_Ok [OF pi] drop_osds_def)
  next
    case False
    then show ?thesis
      using Cons.IH [of "s\<lparr>os_osds := (os_osds s)[os_size s := if osd_up m osd then osd else CRUSH_ITEM_NONE],
          os_size := Suc (os_size s)\<rparr>"] Cons.prems
      by (cases "os_size s < length (os_osds s)")
        (auto simp: down can_shift_Ok [OF pi] drop_osds_def aset_def split: if_splits)
  qed
qed

section \<open>The CRUSH step\<close>

lemma find_rule_loop_index:
  "find_rule_loop rs i ruleset type sz = r \<Longrightarrow> 0 \<le> r \<Longrightarrow>
     \<exists>k<length rs. r = int (i + k) \<and> rs ! k \<noteq> None"
proof (induction rs arbitrary: i)
  case (Cons a rs)
  have later: "\<exists>k<length (a # rs). r = int (i + k) \<and> (a # rs) ! k \<noteq> None"
    if next_: "find_rule_loop rs (Suc i) ruleset type sz = r"
  proof -
    obtain k where "k < length rs" "r = int (Suc i + k)" "rs ! k \<noteq> None"
      using Cons.IH [OF next_ Cons.prems(2)] by blast
    then show ?thesis by (intro exI [of _ "Suc k"]) simp
  qed
  show ?case
  proof (cases a)
    case None
    then show ?thesis using Cons.prems(1) later by simp
  next
    case (Some rule)
    show ?thesis
    proof (cases "r = int i")
      case True
      then show ?thesis using Some by (intro exI [of _ 0]) simp
    next
      case False
      then show ?thesis using Cons.prems(1) Some later by (simp split: if_splits)
    qed
  qed
qed simp

lemma crush_find_rule_valid:
  assumes "0 \<le> crush_find_rule m ruleset type sz"
  shows "rules m ! unat (word_of_int (crush_find_rule m ruleset type sz) :: u32) \<noteq> None"
proof -
  let ?r = "crush_find_rule m ruleset type sz"
  obtain k where k: "k < unat (max_rules m)" "?r = int k" "k < length (rules m)" "rules m ! k \<noteq> None"
    using find_rule_loop_index [OF _ assms, of "take (unat (max_rules m)) (rules m)" 0 ruleset type sz]
    by (auto simp: crush_find_rule_def)
  then have "unat (word_of_int ?r :: u32) = k"
    using unat_u32_less [of "max_rules m"] by (simp add: unsigned_of_nat take_bit_nat_eq_self)
  then show ?thesis using k by simp
qed

text \<open>The CRUSH side of an OSD map, and the scratch memory that belongs to it.\<close>

definition crush_env_of :: "ceph_osdmap \<Rightarrow> u32 \<Rightarrow> crush_choose_arg list option \<Rightarrow> choose_env" where
  "crush_env_of m x args =
     \<lparr>env_map = osdmap_crush m, env_weight = osd_weight m, env_weight_max = uint (max_osd m), env_x = x,
      env_choose_args = args\<rparr>"

definition wf_placement :: "(int \<Rightarrow> nat) \<Rightarrow> nat \<Rightarrow> ceph_osdmap \<Rightarrow> bool" where
  "wf_placement rank R m \<longleftrightarrow>
     wf_osdmap m \<and> sane_map rank R (osdmap_crush m) \<and> wf_rules (osdmap_crush m) \<and>
     wf_env rank (crush_env_of m 0 None) \<and>
     (\<forall>idx args. osdmap_choose_args m idx = Some args \<longrightarrow> wf_env rank (crush_env_of m 0 (Some args)))"

definition memory_ok :: "nat \<Rightarrow> ceph_osdmap \<Rightarrow> crush_memory \<Rightarrow> bool" where
  "memory_ok R m cm \<longleftrightarrow>
     work_ok (osdmap_crush m) (cm_work cm) \<and> choose_fuel (2 ^ 28 + 1) (2 ^ 29) R \<le> cm_fuel cm \<and>
     CEPH_PG_MAX_SIZE \<le> length (cm_a cm) \<and> CEPH_PG_MAX_SIZE \<le> length (cm_b cm) \<and>
     CEPH_PG_MAX_SIZE \<le> length (cm_c cm)"

lemma wf_env_any_x: "wf_env rank (crush_env_of m x args) = wf_env rank (crush_env_of m 0 args)"
  by (cases args) (simp_all add: wf_env_def crush_env_of_def)

lemma do_crush_Ok:
  assumes m: "wf_placement rank R m" and cm: "memory_ok R m cm" and n: "0 < n" "n \<le> CEPH_PG_MAX_SIZE"
    and rule: "rules (osdmap_crush m) ! unat (word_of_int ruleno :: u32) \<noteq> None"
  shows "\<exists>cm' res. do_crush m cm ruleno x n idx = Ok (cm', res) \<and> memory_ok R m cm' \<and> length res \<le> n"
proof -
  define args where "args = (case osdmap_choose_args m idx of
      None \<Rightarrow> osdmap_choose_args m CEPH_DEFAULT_CHOOSE_ARGS | Some args \<Rightarrow> Some args)"
  let ?e = "crush_env_of m x args"
  have env: "env_map ?e = osdmap_crush m" "env_weight_max ?e = uint (max_osd m)"
    by (simp_all add: crush_env_of_def)
  have "args = None \<or> (\<exists>i. osdmap_choose_args m i = args \<and> args \<noteq> None)"
    by (cases "osdmap_choose_args m idx"; cases "osdmap_choose_args m (- 1)") (auto simp: args_def)
  then have e: "wf_env rank ?e"
    unfolding wf_env_any_x [of _ _ x] using m by (auto simp: wf_placement_def)
  have wf: "wf_osdmap m" using m by (simp add: wf_placement_def)
  have max: "env_weight_max ?e \<le> CRUSH_ITEM_UNDEF" using uint_max_osd(3) [OF wf] env(2) by simp
  obtain work' res where r: "crush_do_rule (cm_fuel cm) ?e ruleno n (cm_work cm) (take n (cm_a cm))
       (take n (cm_b cm)) (take n (cm_c cm)) = Ok (work', res)" "length res \<le> n"
    "work_ok (env_map ?e) work'"
    using crush_do_rule_Ok [OF e _ _ max, where R = R and ruleno = ruleno and result_max = n
        and work = "cm_work cm" and a = "take n (cm_a cm)" and b = "take n (cm_b cm)"
        and c = "take n (cm_c cm)" and fuel = "cm_fuel cm"] m cm n rule env(1)
    by (auto simp: wf_placement_def memory_ok_def)
  have "do_crush m cm ruleno x n idx = Ok (cm\<lparr>cm_work := work'\<rparr>, res)"
    using n(2) r(1) by (simp add: do_crush_def crush_env_of_def args_def)
  then show ?thesis using r(2,3) cm env(1) by (simp add: memory_ok_def)
qed

lemma pg_to_raw_osds_Ok:
  assumes m: "wf_placement rank R m" and cm: "memory_ok R m cm" and pi: "pool_type_ok pi"
    and sz: "pi_size pi \<noteq> 0" and s: "length (os_osds s) = CEPH_PG_MAX_SIZE"
  shows "\<exists>cm' raw. pg_to_raw_osds m pi cm raw_pgid s = Ok (cm', raw, raw_pg_to_pps pi raw_pgid) \<and>
     memory_ok R m cm' \<and> wf_osds raw \<and> os_primary raw = - 1"
proof -
  let ?r = "crush_find_rule (osdmap_crush m) (uint (pi_crush_ruleset pi)) (uint (pi_type pi)) (uint (pi_size pi))"
  let ?n = "unat (pi_size pi)"
  let ?pps = "raw_pg_to_pps pi raw_pgid"
  have init: "wf_osds (ceph_osds_init s)" "os_primary (ceph_osds_init s) = - 1"
    "length (os_osds (ceph_osds_init s)) = 32"
    using s by (simp_all add: ceph_osds_init_def wf_osds_def)
  show ?thesis
  proof (cases "?r < 0 \<or> ?n > CEPH_PG_MAX_SIZE")
    case True
    then have "pg_to_raw_osds m pi cm raw_pgid s = Ok (cm, ceph_osds_init s, ?pps)"
      using init(3) by (auto simp: pg_to_raw_osds_def Let_def)
    then show ?thesis using cm init by simp
  next
    case False
    have n: "0 < ?n" "?n \<le> 32" using sz False by (simp_all add: unat_gt_0)
    have rule: "rules (osdmap_crush m) ! unat (word_of_int ?r :: u32) \<noteq> None"
      using False by (intro crush_find_rule_valid) simp
    obtain cm' res where c: "do_crush m cm ?r ?pps ?n (pi_id pi) = Ok (cm', res)" "memory_ok R m cm'"
      "length res \<le> ?n"
      using do_crush_Ok [OF m cm n rule] by blast
    let ?raw = "(ceph_osds_init s)\<lparr>os_osds := res @ drop (length res) (os_osds (ceph_osds_init s)),
        os_size := length res\<rparr>"
    have raw: "wf_osds ?raw" "os_primary ?raw = - 1"
      using init n c(3) by (simp_all add: wf_osds_def)
    have wf: "wf_osdmap m" using m by (simp add: wf_placement_def)
    obtain raw' where r: "remove_nonexistent_osds m pi ?raw = Ok raw'" "wf_osds raw'" "os_primary raw' = - 1"
      using remove_nonexistent_osds_Ok [OF wf pi raw(1)] raw(2) by auto
    have "pg_to_raw_osds m pi cm raw_pgid s = Ok (cm', raw', ?pps)"
      using False n c(1,3) init(3) r(1) by (simp add: pg_to_raw_osds_def Let_def)
    then show ?thesis using c(2) r(2,3) by blast
  qed
qed

section \<open>The up set and the acting set\<close>

text \<open>
  A set of live OSDs: every entry is up, or, in an erasure-coded pool, a hole; the primary is an
  entry that is up, or there is none because all entries are holes.
\<close>

definition live_entries :: "ceph_osdmap \<Rightarrow> ceph_pg_pool_info \<Rightarrow> ceph_osds \<Rightarrow> bool" where
  "live_entries m pi s \<longleftrightarrow>
     (\<forall>osd\<in>set (osds_of s). osd_up m osd \<or> \<not> replicated pi \<and> osd = CRUSH_ITEM_NONE)"

definition live_primary :: "ceph_osdmap \<Rightarrow> ceph_osds \<Rightarrow> bool" where
  "live_primary m s \<longleftrightarrow>
     osd_up m (os_primary s) \<and> os_primary s \<in> set (osds_of s) \<or>
     os_primary s = - 1 \<and> (\<forall>osd\<in>set (osds_of s). osd = CRUSH_ITEM_NONE)"

lemma set_drop_osds:
  "set (drop_osds pi P osds) \<subseteq> {osd. osd \<in> set osds \<and> \<not> P osd \<or> \<not> replicated pi \<and> osd = CRUSH_ITEM_NONE}"
  by (auto simp: drop_osds_def)

lemma live_drop:
  "osds_of s = drop_osds pi (\<lambda>osd. \<not> osd_up m osd) osds \<Longrightarrow> live_entries m pi s"
  using set_drop_osds [of pi "\<lambda>osd. \<not> osd_up m osd" osds] by (auto simp: live_entries_def)

lemma first_osd_live:
  "(\<exists>osd\<in>set osds. osd \<noteq> CRUSH_ITEM_NONE \<and> first_osd osds p = osd) \<or>
   (\<forall>osd\<in>set osds. osd = CRUSH_ITEM_NONE) \<and> first_osd osds p = p"
  by (induction osds) auto

lemma live_first:
  assumes "live_entries m pi s" and "os_primary s = first_osd (osds_of s) (- 1)"
  shows "live_primary m s"
  using first_osd_live [of "osds_of s" "- 1"] assms by (auto simp: live_entries_def live_primary_def)

lemma live_affinity:
  assumes s: "live_entries m pi s" "live_primary m s" and r: "affinity_result pi s s'"
  shows "live_entries m pi s'" and "live_primary m s'"
proof -
  have "set (osds_of s') = set (osds_of s)" using r by (auto simp: affinity_result_def split: if_splits)
  then show "live_entries m pi s'" using s(1) by (simp add: live_entries_def)
  show "live_primary m s'"
    using r s unfolding affinity_result_def live_primary_def live_entries_def by auto
qed

lemma live_valid:
  assumes "wf_osds s" and "live_primary m s"
  shows "osds_valid s"
proof -
  have "osds_of s = [] \<longleftrightarrow> os_size s = 0" using assms(1) by (auto simp: osds_of_def wf_osds_def)
  then show ?thesis using assms(2) by (auto simp: live_primary_def osds_valid_def list_all_iff dest: osd_up_nonneg)
qed

text \<open>The temporary mapping alone decides a non-empty acting set.\<close>

lemma get_temp_osds_Ok:
  assumes m: "wf_osdmap m" and pi: "pool_type_ok pi" and fit: "mappings_fit m pgid"
    and s: "length (os_osds s) = CEPH_PG_MAX_SIZE"
  shows "\<exists>t. get_temp_osds m pi pgid s = Ok t \<and> wf_osds t \<and> live_entries m pi t \<and>
     osds_of t = (case pg_temp m pgid of None \<Rightarrow> [] | Some osds \<Rightarrow> drop_osds pi (\<lambda>osd. \<not> osd_up m osd) osds) \<and>
     os_primary t = (case primary_temp m pgid of None \<Rightarrow> first_osd (osds_of t) (- 1) | Some osd \<Rightarrow> osd)"
proof -
  let ?i = "ceph_osds_init s"
  let ?temp = "case pg_temp m pgid of None \<Rightarrow> [] | Some osds \<Rightarrow> osds"
  have i: "length (os_osds ?i) = 32" "os_size ?i = 0" "os_primary ?i = - 1" "osds_of ?i = []"
    using s by (simp_all add: ceph_osds_init_def osds_of_def)
  have "length ?temp \<le> 32" using fit by (simp add: mappings_fit_def split: option.splits)
  then obtain t where t: "temp_osds m pi ?temp ?i = Ok t" "wf_osds t" "os_primary t = - 1"
    "osds_of t = drop_osds pi (\<lambda>osd. \<not> osd_up m osd) ?temp"
    using temp_osds_Ok [OF m pi i(1), of ?temp] i by auto
  have nil: "drop_osds pi P [] = []" for P by (simp add: drop_osds_def)
  let ?t = "t\<lparr>os_primary := (case primary_temp m pgid of None \<Rightarrow> first_osd (osds_of t) (- 1) | Some osd \<Rightarrow> osd)\<rparr>"
  have "get_temp_osds m pi pgid s = Ok ?t"
  proof (cases "pg_temp m pgid")
    case None
    then have "t = ?i" "osds_of t = []" using t(1) i(4) by simp_all
    then show ?thesis using None i(3) by (simp add: get_temp_osds_def Let_def split: option.splits)
  next
    case (Some osds)
    then show ?thesis using t(1,3) by (simp add: get_temp_osds_def Let_def split: option.splits)
  qed
  moreover have "osds_of ?t = osds_of t" by (simp add: osds_of_def)
  moreover have "wf_osds ?t" using t(2) by (simp add: wf_osds_def)
  moreover have "live_entries m pi ?t" using live_drop [of ?t pi m ?temp] t(4) by (simp add: osds_of_def)
  ultimately show ?thesis using t(4) nil by (auto split: option.splits)
qed

section \<open>A small OSD map\<close>

text \<open>The cluster of \<^const>\<open>sample_map\<close> with OSD 1 down, and a mapping that replaces the OSDs of one group.\<close>

definition sample_pool :: ceph_pg_pool_info where
  "sample_pool = \<lparr>pi_id = 1, pi_type = 1, pi_size = 2, pi_min_size = 1, pi_crush_ruleset = 0, pi_object_hash = 2,
     pi_pg_num = 8, pi_pgp_num = 8, pi_pg_num_mask = 7, pi_pgp_num_mask = 7, pi_flags = 1,
     pi_last_force_request_resend = 0, pi_read_tier = - 1, pi_write_tier = - 1, pi_was_full = False\<rparr>"

definition sample_osdmap :: "(ceph_pg \<rightharpoonup> int list) \<Rightarrow> ceph_osdmap" where
  "sample_osdmap temp =
     \<lparr>max_osd = 4, osd_state = [3, 1, 3, 3], osd_weight = [0x10000, 0x10000, 0x10000, 0x8000],
      pg_temp = temp, primary_temp = Map.empty, pg_upmap = Map.empty, pg_upmap_items = Map.empty,
      osd_primary_affinity = Some [0x10000, 0x10000, 0x4000, 0x10000], pg_pools = [1 \<mapsto> sample_pool],
      osdmap_crush = sample_map, osdmap_choose_args = Map.empty, osdmap_epoch = 1, osdmap_flags = 0,
      osd_addr = replicate 4 \<lparr>ea_type = 0, ea_nonce = 0, ea_in_addr = []\<rparr>\<rparr>"

definition empty_osds :: ceph_osds where
  "empty_osds = \<lparr>os_osds = replicate 32 0, os_size = 0, os_primary = - 1\<rparr>"

definition sample_memory :: crush_memory where
  "sample_memory = \<lparr>cm_fuel = choose_fuel (2 ^ 28 + 1) (2 ^ 29) 1, cm_work = sample_work,
     cm_a = replicate 32 0, cm_b = replicate 32 0, cm_c = replicate 32 0\<rparr>"

lemma sample_osdmap_wf:
  "wf_osdmap (sample_osdmap temp)" "wf_placement sample_rank 1 (sample_osdmap temp)"
  "memory_ok 1 (sample_osdmap temp) sample_memory" "pool_type_ok sample_pool" "wf_osds empty_osds"
proof -
  show wf: "wf_osdmap (sample_osdmap temp)" by (simp add: wf_osdmap_def sample_osdmap_def)
  have "wf_env sample_rank (crush_env_of (sample_osdmap temp) 0 None)"
    using sample_wf(1) by (simp add: wf_env_def crush_env_of_def sample_osdmap_def sample_env_def)
  then show "wf_placement sample_rank 1 (sample_osdmap temp)"
    using wf sample_wf(3) sample_sane by (simp add: wf_placement_def) (simp add: sample_osdmap_def)
  show "memory_ok 1 (sample_osdmap temp) sample_memory"
    using sample_wf(2) by (simp add: memory_ok_def sample_osdmap_def sample_memory_def)
  show "pool_type_ok sample_pool" by (simp add: pool_type_ok_def sample_pool_def)
  show "wf_osds empty_osds" by (simp add: wf_osds_def empty_osds_def)
qed

lemma up_acting_Ok:
  assumes m: "wf_placement rank R m" and cm: "memory_ok R m cm" and pi: "pool_type_ok pi" and sz: "pi_size pi \<noteq> 0"
    and fit: "mappings_fit m (raw_pg_to_pg pi raw_pgid)" and s: "wf_osds up" "wf_osds acting"
  shows "\<exists>cm' up' acting'. ceph_pg_to_up_acting_osds m pi cm raw_pgid up acting = Ok (cm', up', acting') \<and>
     memory_ok R m cm' \<and> wf_osds up' \<and> wf_osds acting' \<and>
     live_entries m pi up' \<and> live_primary m up' \<and> osds_valid up' \<and>
     live_entries m pi acting' \<and>
     (let temp = (case pg_temp m (raw_pg_to_pg pi raw_pgid) of None \<Rightarrow> []
                  | Some osds \<Rightarrow> drop_osds pi (\<lambda>osd. \<not> osd_up m osd) osds) in
      osds_of acting' = (if temp = [] then osds_of up' else temp)) \<and>
     (case primary_temp m (raw_pg_to_pg pi raw_pgid) of
        None \<Rightarrow> live_primary m acting' \<and> osds_valid acting'
      | Some osd \<Rightarrow> osd \<noteq> - 1 \<longrightarrow> os_primary acting' = osd)"
proof -
  let ?pgid = "raw_pg_to_pg pi raw_pgid"
  have wf: "wf_osdmap m" using m by (simp add: wf_placement_def)
  obtain cm' raw where raw: "pg_to_raw_osds m pi cm raw_pgid up = Ok (cm', raw, raw_pg_to_pps pi raw_pgid)"
    "memory_ok R m cm'" "wf_osds raw" "os_primary raw = - 1"
    using pg_to_raw_osds_Ok [OF m cm pi sz, of up raw_pgid] s(1) by (auto simp: wf_osds_def)
  obtain raw' where map': "apply_upmap m ?pgid raw = Ok raw'" "wf_osds raw'" "os_primary raw' = - 1"
    using apply_upmap_Ok [OF wf fit raw(3)] raw(4) by auto
  obtain u where u: "raw_to_up_osds m pi raw' = Ok u" "wf_osds u"
    "osds_of u = drop_osds pi (\<lambda>osd. \<not> osd_up m osd) (osds_of raw')" "os_primary u = first_osd (osds_of u) (- 1)"
    using raw_to_up_osds_Ok [OF wf pi map'(2,3)] by blast
  have live_u: "live_entries m pi u" "live_primary m u"
    using live_drop [OF u(3)] live_first [OF _ u(4)] by blast+
  have "\<forall>osd\<in>set (osds_of u). osd = CRUSH_ITEM_NONE \<or> osd_up m osd" using live_u(1) by (auto simp: live_entries_def)
  then obtain up' where up': "apply_primary_affinity m pi (raw_pg_to_pps pi raw_pgid) u = Ok up'" "wf_osds up'"
    "affinity_result pi u up'"
    using apply_primary_affinity_Ok [OF wf pi u(2)] by blast
  have live: "live_entries m pi up'" "live_primary m up'"
    using live_affinity [OF live_u up'(3)] by simp_all
  have len32: "length (os_osds acting) = 32" using s(2) by (simp add: wf_osds_def)
  obtain t where t: "get_temp_osds m pi ?pgid acting = Ok t" "wf_osds t" "live_entries m pi t"
    "osds_of t = (case pg_temp m ?pgid of None \<Rightarrow> [] | Some osds \<Rightarrow> drop_osds pi (\<lambda>osd. \<not> osd_up m osd) osds)"
    "os_primary t = (case primary_temp m ?pgid of None \<Rightarrow> first_osd (osds_of t) (- 1) | Some osd \<Rightarrow> osd)"
    using get_temp_osds_Ok [OF wf pi fit len32] by (elim exE conjE) (rule that)
  have empty: "os_size t = 0 \<longleftrightarrow> osds_of t = []" using t(2) by (auto simp: osds_of_def wf_osds_def)
  define a where "a = (if os_size t = 0 then
       t\<lparr>os_osds := osds_of up' @ drop (os_size up') (os_osds t), os_size := os_size up',
         os_primary := (if os_primary t = - 1 then os_primary up' else os_primary t)\<rparr> else t)"
  have res: "ceph_pg_to_up_acting_osds m pi cm raw_pgid up acting = Ok (cm', up', a)"
    using raw(1) map'(1) u(1) up'(1) t(1) by (simp add: ceph_pg_to_up_acting_osds_def a_def Let_def)
  have len: "length (osds_of up') = os_size up'" "os_size up' \<le> 32" using up'(2) by (simp_all add: osds_of_def wf_osds_def)
  have osds_a: "osds_of a = (if osds_of t = [] then osds_of up' else osds_of t)"
  proof (cases "os_size t = 0")
    case True
    have "osds_of a = take (os_size up') (osds_of up' @ drop (os_size up') (os_osds t))"
      unfolding a_def osds_of_def [of "if _ then _ else _"] using True by simp
    then show ?thesis using True empty len(1) by simp
  next
    case False
    then show ?thesis using empty by (simp add: a_def)
  qed
  have wf_a: "wf_osds a" using t(2) len by (auto simp: a_def wf_osds_def)
  have entries_a: "live_entries m pi a" using live(1) t(3) by (simp add: live_entries_def osds_a)
  have primary_a: "live_primary m a" if none: "primary_temp m ?pgid = None"
  proof (cases "osds_of t = []")
    case True
    then have "os_primary a = os_primary up'" using empty t(5) none by (simp add: a_def)
    then show ?thesis using live(2) True by (simp add: live_primary_def osds_a)
  next
    case False
    then have "a = t" using empty by (simp add: a_def)
    then show ?thesis using live_first [OF t(3)] t(5) none by simp
  qed
  have temp_a: "os_primary a = osd" if "primary_temp m ?pgid = Some osd" "osd \<noteq> - 1" for osd
    using that t(5) by (simp add: a_def)
  show ?thesis
    using res raw(2) up'(2) wf_a live live_valid [OF up'(2) live(2)] entries_a osds_a t(4)
      primary_a live_valid [OF wf_a primary_a] temp_a
    by (auto simp: Let_def split: option.splits)
qed

section \<open>Properties\<close>



text \<open>
  C37: A temporary mapping is copied into the acting set without a bound: when more than
  \<open>CEPH_PG_MAX_SIZE\<close> OSDs of the mapping remain, the copy writes past the array.
\<close>

theorem get_temp_osds_overrun:
  assumes m: "wf_osdmap m" and pi: "pool_type_ok pi" and s: "wf_osds s" and t: "pg_temp m pgid = Some osds"
    and long: "CEPH_PG_MAX_SIZE < length (drop_osds pi (\<lambda>osd. \<not> osd_up m osd) osds)"
  shows "get_temp_osds m pi pgid s = Oops Bad_Access"
proof -
  have "temp_osds m pi osds (ceph_osds_init s) = Oops Bad_Access"
    using temp_osds_overrun [OF m pi, of "ceph_osds_init s" osds] s long
    by (simp add: ceph_osds_init_def wf_osds_def)
  then show ?thesis using t by (simp add: get_temp_osds_def Let_def)
qed

theorem get_temp_osds_overrun_witness:
  "get_temp_osds (sample_osdmap [\<lparr>pg_pool = 1, pg_seed = 5\<rparr> \<mapsto> replicate 33 3]) sample_pool \<lparr>pg_pool = 1, pg_seed = 5\<rparr>
     empty_osds = Oops Bad_Access"
proof (rule get_temp_osds_overrun [OF sample_osdmap_wf(1,4,5)])
  show "pg_temp (sample_osdmap [\<lparr>pg_pool = 1, pg_seed = 5\<rparr> \<mapsto> replicate 33 3]) \<lparr>pg_pool = 1, pg_seed = 5\<rparr> = Some (replicate 33 3)"
    by (simp add: sample_osdmap_def)
  have "osd_up (sample_osdmap [\<lparr>pg_pool = 1, pg_seed = 5\<rparr> \<mapsto> replicate 33 3]) 3"
    by (simp add: osd_up_def osd_exists_def sample_osdmap_def)
  then show "32 < length (drop_osds sample_pool (\<lambda>osd. \<not> osd_up (sample_osdmap [\<lparr>pg_pool = 1, pg_seed = 5\<rparr> \<mapsto> replicate 33 3]) osd)
      (replicate 33 3))"
    by (simp add: drop_osds_def replicated_def sample_pool_def)
qed

end
