(* ===== verification/OsdMapPgs.thy ===== *)
theory OsdMapPgs
  imports OsdMap
begin

text \<open>
  Numbering of placement groups (\<open>libceph/osdmap.c\<close>): the stable modulus that folds hash values
  into the groups of a pool, and the test whether a group splits when a pool grows.
\<close>

unbundle bit_operations_syntax

section \<open>The stable modulus\<close>

lemma calc_bits_of_bounds:
  "unat t < 2 ^ calc_bits_of t" "t \<noteq> 0 \<Longrightarrow> 0 < calc_bits_of t \<and> 2 ^ (calc_bits_of t - 1) \<le> unat t"
proof (induction t rule: calc_bits_of.induct)
  case (1 t)
  let ?h = "drop_bit 1 t"
  have h: "unat ?h = unat t div 2" unfolding unat_drop_bit_eq by (simp add: drop_bit_eq_div)
  { case 1
    show ?case
    proof (cases "t = 0")
      case False
      then have "unat ?h < 2 ^ calc_bits_of ?h" using "1.IH"(1) by simp
      then show ?thesis using False h by (subst calc_bits_of.simps) simp
    qed simp
  next
    case 2
    have step: "calc_bits_of t = Suc (calc_bits_of ?h)" using 2 by (subst calc_bits_of.simps) simp
    show ?case
    proof (cases "?h = 0")
      case True
      then show ?thesis using 2 step by (simp add: calc_bits_of.simps [of 0] Suc_le_eq unat_gt_0)
    next
      case False
      then have "0 < calc_bits_of ?h" "2 ^ (calc_bits_of ?h - 1) \<le> unat ?h" using "1.IH"(2) 2 by simp_all
      moreover from this(1) have "(2 :: nat) ^ calc_bits_of ?h = 2 * 2 ^ (calc_bits_of ?h - 1)"
        by (cases "calc_bits_of ?h") simp_all
      ultimately show ?thesis using h step by simp
    qed
  }
qed

lemma calc_bits_of_le:
  assumes "unat t < 2 ^ k"
  shows "calc_bits_of t \<le> k"
proof (cases "t = 0")
  case True
  then show ?thesis by (simp add: calc_bits_of.simps)
next
  case False
  have "(2 :: nat) ^ (calc_bits_of t - 1) < 2 ^ k"
    using calc_bits_of_bounds(2) [OF False] assms by (meson le_less_trans)
  then have "calc_bits_of t - 1 < k" by (simp only: power_strict_increasing_iff)
  then show ?thesis by simp
qed

text \<open>The modulus on natural numbers, with the number of bits of the mask.\<close>

definition smod :: "nat \<Rightarrow> nat \<Rightarrow> nat \<Rightarrow> nat" where
  "smod k b x = (if x mod 2 ^ k < b then x mod 2 ^ k else x mod 2 ^ (k - 1))"

lemma bit_mask_Ok: "k < 32 \<Longrightarrow> bit_mask k = Ok (mask k)"
  by (simp add: bit_mask_def mask_eq_exp_minus_1 push_bit_eq_mult)

lemma half_mask:
  assumes "k < 32"
  shows "signed_drop_bit 1 (mask k :: u32) = mask (k - 1)"
proof (rule bit_word_eqI)
  fix n
  assume "n < LENGTH(32)"
  then show "bit (signed_drop_bit 1 (mask k :: u32)) n = bit (mask (k - 1) :: u32) n"
    using assms by (auto simp: bit_signed_drop_bit_iff bit_mask_iff)
qed

lemma ceph_stable_mod_nat:
  assumes "k < 32" and "unat b < 2 ^ 31"
  shows "unat (ceph_stable_mod x b (mask k)) = smod k (unat b) (unat x)"
proof -
  have and_mask: "x AND mask j = take_bit j x" for j by (simp add: take_bit_eq_mask)
  have nat: "unat (take_bit j x) = unat x mod 2 ^ j" for j
    unfolding unsigned_take_bit_eq by (simp only: take_bit_eq_mod)
  have pos: "sint y = int (unat y)" if "unat y < 2 ^ 31" for y :: u32
  proof -
    have "int (unat y) < int (2 ^ 31)" using that by (simp only: of_nat_less_iff)
    then have "uint y < 2 ^ 31" by simp
    moreover have "- (2 ^ 31) \<le> uint y" by (rule order_trans [OF _ uint_ge_0]) simp
    ultimately have "signed_take_bit 31 (uint y) = uint y" by (intro signed_take_bit_int_eq_self)
    then show ?thesis unfolding sint_uint by simp
  qed
  have "unat x mod 2 ^ k < 2 ^ k" by simp
  also have "(2 :: nat) ^ k \<le> 2 ^ 31" using assms(1) by (intro power_increasing) simp_all
  finally have small: "unat (take_bit k x) < 2 ^ 31" by (simp add: nat)
  show ?thesis
    unfolding ceph_stable_mod_def half_mask [OF assms(1)] and_mask pos [OF small] pos [OF assms(2)] of_nat_less_iff
    by (simp add: nat smod_def)
qed

text \<open>The bits of a modulus \<open>b\<close> are those of \<open>b - 1\<close>, as \<open>calc_pg_masks\<close> takes them.\<close>

definition bits_for :: "nat \<Rightarrow> nat \<Rightarrow> bool" where
  "bits_for k b \<longleftrightarrow> 0 < b \<and> b \<le> 2 ^ k \<and> (0 < k \<longrightarrow> 2 ^ (k - 1) < b)"

lemma bits_for_calc:
  assumes "b \<noteq> 0"
  shows "bits_for (calc_bits_of (b - 1)) (unat b)"
proof -
  have b: "0 < unat b" using assms by (simp add: unat_gt_0)
  have "unat (b - 1) = unat b - 1" using b by (subst unat_sub_no_wrap) simp_all
  then show ?thesis
    using b calc_bits_of_bounds [of "b - 1"] unfolding bits_for_def
    by (cases "b - 1 = 0") (auto simp: calc_bits_of.simps [of 0] simp del: calc_bits_of.simps)
qed

lemma bits_for_mono:
  assumes "bits_for k b" and "bits_for k' b'" and "b \<le> b'"
  shows "k \<le> k'"
proof (cases "k = 0")
  case False
  then have "(2 :: nat) ^ (k - 1) < 2 ^ k'" using assms unfolding bits_for_def by linarith
  then have "k - 1 < k'" by (simp only: power_strict_increasing_iff)
  then show ?thesis by simp
qed simp

lemma smod_less:
  assumes "bits_for k b"
  shows "smod k b x < b"
proof (cases "x mod 2 ^ k < b")
  case False
  have "0 < k"
  proof (rule ccontr)
    assume "\<not> 0 < k"
    then show False using False assms by (simp add: bits_for_def)
  qed
  have "x mod 2 ^ (k - 1) < 2 ^ (k - 1)" by simp
  also have "\<dots> < b" using \<open>0 < k\<close> assms by (simp add: bits_for_def)
  finally show ?thesis using False by (simp add: smod_def)
qed (simp add: smod_def)

lemma mod_pow_pow: "j \<le> k \<Longrightarrow> x mod 2 ^ k mod 2 ^ j = (x :: nat) mod 2 ^ j"
  by (simp add: mod_mod_cancel le_imp_power_dvd)

lemma smod_mod: "k \<le> j \<Longrightarrow> smod k b (x mod 2 ^ j) = smod k b x"
  by (simp add: smod_def mod_pow_pow)

lemma smod_small:
  assumes "bits_for k b" and "x < b"
  shows "smod k b x = x"
  using assms by (simp add: smod_def bits_for_def)

lemma smod_smod:
  assumes b: "bits_for k b" and b': "bits_for k' b'" and le: "b \<le> b'"
  shows "smod k b (smod k' b' x) = smod k b x"
proof (cases "x mod 2 ^ k' < b'")
  case True
  then show ?thesis using smod_mod [OF bits_for_mono [OF b b' le]] by (simp add: smod_def)
next
  case False
  then have y: "smod k' b' x = x mod 2 ^ (k' - 1)" by (simp add: smod_def)
  show ?thesis
  proof (cases "k = k'")
    case True
    then have same: "smod k b x = x mod 2 ^ (k - 1)" using False le by (simp add: smod_def)
    then show ?thesis using smod_small [OF b smod_less [OF b, of x]] y True by simp
  next
    case False
    then have "k \<le> k' - 1" using bits_for_mono [OF b b' le] by simp
    then show ?thesis using smod_mod y by simp
  qed
qed

text \<open>What \<open>calc_pg_masks\<close> establishes, and the pools it accepts.\<close>

definition wf_pg_nums :: "ceph_pg_pool_info \<Rightarrow> bool" where
  "wf_pg_nums pi \<longleftrightarrow>
     pi_pg_num pi \<noteq> 0 \<and> pi_pgp_num pi \<noteq> 0 \<and> unat (pi_pg_num pi) < 2 ^ 31 \<and> unat (pi_pgp_num pi) < 2 ^ 31 \<and>
     pi_pg_num_mask pi = mask (calc_bits_of (pi_pg_num pi - 1)) \<and>
     pi_pgp_num_mask pi = mask (calc_bits_of (pi_pgp_num pi - 1))"

lemma bits_less_32:
  assumes "b \<noteq> 0" and "unat b < 2 ^ 31"
  shows "calc_bits_of (b - 1) < 32"
proof -
  have "unat (b - 1) = unat b - 1" using assms(1) by (subst unat_sub_no_wrap) (simp_all add: Suc_le_eq unat_gt_0)
  then have "unat (b - 1) < 2 ^ 31" using assms(2) by simp
  then show ?thesis using calc_bits_of_le [of "b - 1" 31] by simp
qed

lemma calc_pg_masks_Ok:
  assumes "pi_pg_num pi \<noteq> 0" "unat (pi_pg_num pi) < 2 ^ 31"
    and "pi_pgp_num pi \<noteq> 0" "unat (pi_pgp_num pi) < 2 ^ 31"
  shows "\<exists>pi'. calc_pg_masks pi = Ok pi' \<and> wf_pg_nums pi' \<and> pi_pg_num pi' = pi_pg_num pi \<and>
     pi_pgp_num pi' = pi_pgp_num pi"
  using assms bits_less_32 [OF assms(1,2)] bits_less_32 [OF assms(3,4)]
  by (simp add: calc_pg_masks_def bit_mask_Ok wf_pg_nums_def)

lemma stable_mod_of:
  assumes "b \<noteq> 0" and "unat b < 2 ^ 31"
  shows "unat (ceph_stable_mod x b (mask (calc_bits_of (b - 1)))) =
     smod (calc_bits_of (b - 1)) (unat b) (unat x)"
  using ceph_stable_mod_nat [OF bits_less_32 [OF assms] assms(2)] .

lemma stable_mod_stable_mod:
  assumes "b \<noteq> 0" "unat b < 2 ^ 31" and "b' \<noteq> 0" "unat b' < 2 ^ 31" and "b \<le> b'"
  shows "ceph_stable_mod (ceph_stable_mod x b' (mask (calc_bits_of (b' - 1)))) b (mask (calc_bits_of (b - 1))) =
     ceph_stable_mod x b (mask (calc_bits_of (b - 1)))"
proof -
  have "unat b \<le> unat b'" using assms(5) by (simp add: word_le_nat_alt)
  from smod_smod [OF bits_for_calc [OF assms(1)] bits_for_calc [OF assms(3)] this] show ?thesis
    unfolding unat_inj_iff [symmetric] stable_mod_of [OF assms(1,2)] stable_mod_of [OF assms(3,4)] .
qed

lemma raw_pg_to_pps_pg:
  assumes "wf_pg_nums pi" and "pi_pgp_num pi \<le> pi_pg_num pi"
  shows "raw_pg_to_pps pi (raw_pg_to_pg pi raw_pgid) = raw_pg_to_pps pi raw_pgid"
  using assms stable_mod_stable_mod [of "pi_pgp_num pi" "pi_pg_num pi" "pg_seed raw_pgid"]
  by (simp add: raw_pg_to_pps_def raw_pg_to_pg_def wf_pg_nums_def)

lemma raw_pg_to_pg_idem:
  assumes "wf_pg_nums pi"
  shows "raw_pg_to_pg pi (raw_pg_to_pg pi raw_pgid) = raw_pg_to_pg pi raw_pgid"
  using assms stable_mod_stable_mod [of "pi_pg_num pi" "pi_pg_num pi" "pg_seed raw_pgid"]
  by (simp add: raw_pg_to_pg_def wf_pg_nums_def)

section \<open>Splitting placement groups\<close>

text \<open>The mask of \<open>ceph_pg_is_split\<close> has the bits of \<open>b\<close> instead of \<open>b - 1\<close>; the modulus is the same.\<close>

lemma smod_wider:
  assumes b: "bits_for k b" and k': "2 ^ (k' - 1) \<le> b" "b < 2 ^ k'"
  shows "smod k' b x = smod k b x"
proof (cases "b = 2 ^ k")
  case True
  have "k < k'" using k'(2) True by simp
  moreover have "k' - 1 \<le> k" using k'(1) True by simp
  ultimately have k: "k' = Suc k" by simp
  have "x mod 2 ^ Suc k < 2 ^ k \<Longrightarrow> x mod 2 ^ Suc k = x mod 2 ^ k"
    using mod_pow_pow [of k "Suc k" x] by simp
  then show ?thesis by (auto simp: smod_def True k)
next
  case False
  then have lt: "b < 2 ^ k" using b by (simp add: bits_for_def)
  have "(2 :: nat) ^ (k' - 1) < 2 ^ k" using k'(1) lt by (rule le_less_trans)
  then have "k' - 1 < k" by (simp only: power_strict_increasing_iff)
  moreover have "k \<le> k'"
  proof (cases "k = 0")
    case False
    then have "2 ^ (k - 1) < b" using b by (simp add: bits_for_def)
    then have "(2 :: nat) ^ (k - 1) < 2 ^ k'" using k'(2) by (rule less_trans)
    then have "k - 1 < k'" by (simp only: power_strict_increasing_iff)
    then show ?thesis by simp
  qed simp
  ultimately have "k = k'" by simp
  then show ?thesis by simp
qed

text \<open>The candidate of the loop at \<open>n\<close>, and how the loop's word expression computes it.\<close>

definition split_cand :: "nat \<Rightarrow> nat \<Rightarrow> nat \<Rightarrow> nat" where
  "split_cand k seed n = (n OR (seed div 2 ^ k)) * 2 ^ k + seed mod 2 ^ k"

lemma unat_split_cand:
  assumes "unat n * 2 ^ k < 2 ^ 32"
  shows "unat (push_bit k n OR seed :: u32) = split_cand k (unat seed) (unat n)"
proof -
  have "unat (push_bit k n) = push_bit k (unat n)"
    unfolding unsigned_push_bit_eq using assms by (simp add: take_bit_nat_eq_self push_bit_eq_mult)
  then have w: "unat (push_bit k n OR seed) = push_bit k (unat n) OR unat seed"
    by (simp add: unsigned_or_eq)
  let ?s = "push_bit k (unat n) OR unat seed"
  have "drop_bit k ?s = unat n OR drop_bit k (unat seed)" 
    by (simp add: drop_bit_or) (simp add: drop_bit_eq_div push_bit_eq_mult)
  moreover have "take_bit k ?s = take_bit k (unat seed)"
    by (simp add: take_bit_or) (simp add: take_bit_eq_mod push_bit_eq_mult)
  moreover have "?s = drop_bit k ?s * 2 ^ k + take_bit k ?s"
    by (simp only: drop_bit_eq_div take_bit_eq_mod div_mult_mod_eq)
  ultimately show ?thesis unfolding w by (simp add: split_cand_def drop_bit_eq_div take_bit_eq_mod)
qed

lemma split_cand_ge: "n * 2 ^ k \<le> split_cand k seed n"
proof -
  have "n \<le> n OR d" for d :: nat
  proof -
    have "int n \<le> int n OR int d" by (rule or_greater_eq) simp
    then show ?thesis by (simp add: or_nat_def)
  qed
  then show ?thesis by (simp add: split_cand_def trans_le_add1)
qed

lemma or_bit_step:
  assumes "d \<le> (1 :: nat)" and "m mod 2 = d \<or> d = 0"
  shows "m OR d = m"
proof (cases "d = 0")
  case False
  then have "d = 1" "odd m" using assms by (auto simp: odd_iff_mod_2_eq_one)
  then show ?thesis by (simp add: or_Suc_0_eq)
qed simp

lemma or_bit_mono:
  assumes "d \<le> (1 :: nat)" and "n \<le> m"
  shows "n OR d \<le> m OR d"
proof (cases "d = 0")
  case False
  then have d: "d = 1" using assms by simp
  then show ?thesis using assms(2) by (simp add: or_Suc_0_eq) presburger
qed (use assms in simp)

lemma split_cand_mono: "seed div 2 ^ k \<le> 1 \<Longrightarrow> n \<le> m \<Longrightarrow> split_cand k seed n \<le> split_cand k seed m"
  using or_bit_mono [of "seed div 2 ^ k" n m] by (simp add: split_cand_def)

text \<open>Every placement group that folds back to \<open>seed\<close> is a candidate.\<close>

lemma split_cand_complete:
  assumes k: "2 ^ k \<le> old" "old < 2 ^ Suc k" and s: "old \<le> s" "smod (Suc k) old s = seed" and seed: "seed < old"
  shows "\<exists>n\<ge>1. s = split_cand k seed n"
proof (intro exI conjI)
  let ?n = "s div 2 ^ k" and ?d = "seed div 2 ^ k"
  have d: "?d \<le> 1" using seed k(2) less_mult_imp_div_less [of seed 2 "2 ^ k"] by simp
  show "1 \<le> ?n" using k(1) s(1) by (simp add: Suc_le_eq div_greater_zero_iff)
  have r: "seed mod 2 ^ k = s mod 2 ^ k \<and> (?n mod 2 = ?d \<or> ?d = 0)"
  proof (cases "s mod 2 ^ Suc k < old")
    case True
    then have e: "seed = s mod 2 ^ Suc k" using s(2) by (simp add: smod_def)
    have "s mod 2 ^ Suc k div 2 ^ k = ?n mod 2" by (simp add: mod_mult2_eq [of s "2 ^ k" 2, simplified mult.commute])
    then show ?thesis unfolding e using mod_pow_pow [of k "Suc k" s] by simp
  next
    case False
    then have e: "seed = s mod 2 ^ k" using s(2) by (simp add: smod_def)
    then show ?thesis by simp
  qed
  then have "?n OR ?d = ?n" using or_bit_step [OF d] by blast
  then show "s = split_cand k seed ?n" using r by (simp only: split_cand_def div_mult_mod_eq)
qed

text \<open>The loop finds a candidate in \<open>[old, new)\<close> that folds back to \<open>seed\<close>, if there is one from \<open>n\<close> on.\<close>

lemma pg_split_loop_Ok:
  fixes seed old new n :: u32
  assumes k: "k < 31" "2 ^ k \<le> unat old" "unat old < 2 ^ Suc k" and new: "unat old < unat new" "unat new \<le> 2 ^ 30"
    and seed: "unat seed < unat old"
    and n: "0 < unat n" "(unat n - 1) * 2 ^ k < unat new" and fuel: "unat new < unat n + fuel"
  shows "pg_split_loop fuel seed old new (Suc k) (mask (Suc k)) n =
     Ok (\<exists>j\<ge>unat n. unat old \<le> split_cand k (unat seed) j \<and> split_cand k (unat seed) j < unat new \<and>
          smod (Suc k) (unat old) (split_cand k (unat seed) j) = unat seed)"
  using n fuel
proof (induction fuel arbitrary: n)
  case 0
  have "unat n - 1 \<le> (unat n - 1) * 2 ^ k" by simp
  then have False using 0 by linarith
  then show ?case ..
next
  case (Suc fuel)
  let ?c = "split_cand k (unat seed)"
  let ?hit = "\<lambda>j. unat old \<le> ?c j \<and> ?c j < unat new \<and> smod (Suc k) (unat old) (?c j) = unat seed"
  have old31: "unat old < 2 ^ 31" using new by simp
  have "unat n * 2 ^ k = (unat n - 1) * 2 ^ k + 2 ^ k" using Suc.prems(1) by (cases "unat n") simp_all
  also have "\<dots> < 2 ^ 30 + 2 ^ 30" using Suc.prems(2) new k(2) by linarith
  finally have nk: "unat n * 2 ^ k < 2 ^ 31" by simp
  let ?s = "push_bit k n OR seed"
  have s: "unat ?s = ?c (unat n)" using nk by (intro unat_split_cand) simp
  have mod: "unat (ceph_stable_mod ?s old (mask (Suc k))) = smod (Suc k) (unat old) (?c (unat n))"
    using k(1) old31 by (simp add: ceph_stable_mod_nat s)
  have d: "unat seed div 2 ^ k \<le> 1"
    using seed k(3) less_mult_imp_div_less [of "unat seed" 2 "2 ^ k"] by simp
  have "unat n \<le> unat n * 2 ^ k" by simp
  then have n31: "unat n < 2 ^ 31" using nk by (rule le_less_trans)
  then have n1: "unat (n + 1) = Suc (unat n)" by (subst unat_add_no_wrap) simp_all
  have IH: "pg_split_loop fuel seed old new (Suc k) (mask (Suc k)) (n + 1) = Ok (\<exists>j\<ge>Suc (unat n). ?hit j)"
    if "?c (unat n) < unat new"
  proof -
    have "unat n * 2 ^ k < unat new" using that split_cand_ge [of "unat n" k "unat seed"] by simp
    then show ?thesis using Suc.IH [of "n + 1"] Suc.prems n1 by simp
  qed
  have from_n: "(\<exists>j\<ge>unat n. ?hit j) \<longleftrightarrow> ?hit (unat n) \<or> (\<exists>j\<ge>Suc (unat n). ?hit j)"
    by (metis Suc_le_eq le_eq_less_or_eq order.refl)
  consider (skip) "?c (unat n) < unat old \<or> ?c (unat n) = unat seed"
    | (stop) "unat old \<le> ?c (unat n)" "unat new \<le> ?c (unat n)"
    | (test) "unat old \<le> ?c (unat n)" "?c (unat n) \<noteq> unat seed" "?c (unat n) < unat new"
    by linarith
  then show ?case
  proof cases
    case skip
    have "?s < old \<or> ?s = seed" using skip s by (metis word_less_nat_alt unat_inj_iff)
    then have step: "pg_split_loop (Suc fuel) seed old new (Suc k) (mask (Suc k)) n =
        pg_split_loop fuel seed old new (Suc k) (mask (Suc k)) (n + 1)"
      by (auto simp: Let_def)
    have lt: "?c (unat n) < unat new" and no: "\<not> ?hit (unat n)" using skip new seed by linarith+
    show ?thesis unfolding step from_n IH [OF lt] using no by (simp only: simp_thms)
  next
    case stop
    have "\<not> ?s < old" "?s \<noteq> seed" "new \<le> ?s"
      using stop s new seed by (metis word_less_nat_alt not_le, metis not_le, metis word_le_nat_alt)
    then have "pg_split_loop (Suc fuel) seed old new (Suc k) (mask (Suc k)) n = Ok False" by (simp add: Let_def)
    moreover have "\<not> ?hit j" if "j \<ge> unat n" for j
      using split_cand_mono [OF d that] stop by simp
    ultimately show ?thesis by auto
  next
    case test
    have g: "\<not> ?s < old" "?s \<noteq> seed" "\<not> new \<le> ?s"
      using test s by (metis word_less_nat_alt not_le, metis, metis word_le_nat_alt not_le)
    have m: "ceph_stable_mod ?s old (mask (Suc k)) = seed \<longleftrightarrow> smod (Suc k) (unat old) (?c (unat n)) = unat seed"
      by (simp only: unat_inj_iff [symmetric] mod)
    show ?thesis
    proof (cases "smod (Suc k) (unat old) (?c (unat n)) = unat seed")
      case True
      then have "pg_split_loop (Suc fuel) seed old new (Suc k) (mask (Suc k)) n = Ok True"
        using g m by (simp add: Let_def)
      then show ?thesis using True test from_n by auto
    next
      case False
      then have step: "pg_split_loop (Suc fuel) seed old new (Suc k) (mask (Suc k)) n =
          pg_split_loop fuel seed old new (Suc k) (mask (Suc k)) (n + 1)"
        using g m by (simp add: Let_def)
      have no: "\<not> ?hit (unat n)" using False by blast
      show ?thesis unfolding step from_n IH [OF test(3)] using no by (simp only: simp_thms)
    qed
  qed
qed

lemma pg_is_split_Ok:
  assumes "old \<noteq> 0" and "pg_seed pgid < old" and "unat old \<le> 2 ^ 30" and "unat new \<le> 2 ^ 30"
    and "unat new \<le> fuel"
  shows "ceph_pg_is_split fuel pgid old new =
     Ok (\<exists>s. old \<le> s \<and> s < new \<and> ceph_stable_mod s old (mask (calc_bits_of (old - 1))) = pg_seed pgid)"
proof -
  obtain k where k: "calc_bits_of old = Suc k" "2 ^ k \<le> unat old" "unat old < 2 ^ Suc k"
    using calc_bits_of_bounds [of old] assms(1) by (cases "calc_bits_of old") auto
  have "Suc k \<le> 31" using calc_bits_of_le [of old 31] assms(3) k(1) by simp
  then have k31: "k < 31" "Suc k < 32" by simp_all
  have old: "unat old < 2 ^ 31" using assms(3) by simp
  have seed: "unat (pg_seed pgid) < unat old" using assms(2) by (simp add: word_less_nat_alt)
  let ?sm = "\<lambda>s. ceph_stable_mod s old (mask (calc_bits_of (old - 1)))"
  let ?c = "split_cand k (unat (pg_seed pgid))"
  have sm: "unat (?sm s) = smod (Suc k) (unat old) (unat s)" for s
    using stable_mod_of [OF assms(1) old] smod_wider [OF bits_for_calc [OF assms(1)], of "Suc k"] k(2,3) by simp
  show ?thesis
  proof (cases "new \<le> old")
    case True
    then have "ceph_pg_is_split fuel pgid old new = Ok False"
      using k(1) k31 by (simp add: ceph_pg_is_split_def bit_mask_Ok)
    then show ?thesis using True by auto
  next
    case False
    then have new: "unat old < unat new" by (simp add: word_le_nat_alt)
    have "ceph_pg_is_split fuel pgid old new =
        pg_split_loop fuel (pg_seed pgid) old new (Suc k) (mask (Suc k)) 1"
      using False k(1) k31 by (simp add: ceph_pg_is_split_def bit_mask_Ok)
    also have "\<dots> = Ok (\<exists>j\<ge>1. unat old \<le> ?c j \<and> ?c j < unat new \<and>
        smod (Suc k) (unat old) (?c j) = unat (pg_seed pgid))"
      using pg_split_loop_Ok [OF k31(1) k(2,3) new assms(4) seed, of 1 fuel] new assms(5) by simp
    also have "(\<exists>j\<ge>1. unat old \<le> ?c j \<and> ?c j < unat new \<and> smod (Suc k) (unat old) (?c j) = unat (pg_seed pgid)) \<longleftrightarrow>
        (\<exists>s. old \<le> s \<and> s < new \<and> ?sm s = pg_seed pgid)" (is "?l \<longleftrightarrow> ?r")
    proof
      assume ?l
      then obtain j where j: "unat old \<le> ?c j" "?c j < unat new"
        "smod (Suc k) (unat old) (?c j) = unat (pg_seed pgid)" by blast
      let ?s = "of_nat (?c j) :: u32"
      have "?c j < 2 ^ 32" using j(2) assms(4) by simp
      then have s: "unat ?s = ?c j" by (simp add: unsigned_of_nat take_bit_nat_eq_self)
      have "old \<le> ?s" "?s < new" "?sm ?s = pg_seed pgid"
        using j s sm [of ?s] by (simp_all only: word_le_nat_alt word_less_nat_alt unat_inj_iff [symmetric])
      then show ?r by blast
    next
      assume ?r
      then obtain s where "old \<le> s" "s < new" and e: "?sm s = pg_seed pgid" by blast
      then have s: "unat old \<le> unat s" "unat s < unat new" by (simp_all add: word_le_nat_alt word_less_nat_alt)
      have f: "smod (Suc k) (unat old) (unat s) = unat (pg_seed pgid)" using sm [of s] e by simp
      from split_cand_complete [OF k(2,3) s(1) f seed] show ?l using s f by metis
    qed
    finally show ?thesis .
  qed
qed

section \<open>Properties\<close>

lemma stable_mod_moves:
  fixes x b b' :: u32
  assumes "b \<noteq> 0" "unat b < 2 ^ 31" and "b' \<noteq> 0" "unat b' < 2 ^ 31" and "b \<le> b'"
  defines "y \<equiv> ceph_stable_mod x b' (mask (calc_bits_of (b' - 1)))"
  shows "y < b'" and "y < b \<Longrightarrow> y = ceph_stable_mod x b (mask (calc_bits_of (b - 1)))"
proof -
  show "y < b'"
    unfolding y_def word_less_nat_alt stable_mod_of [OF assms(3,4)] by (rule smod_less [OF bits_for_calc [OF assms(3)]])
  assume "y < b"
  then have "unat y < unat b" by (simp add: word_less_nat_alt)
  from smod_small [OF bits_for_calc [OF assms(1)] this]
  have "ceph_stable_mod y b (mask (calc_bits_of (b - 1))) = y"
    unfolding unat_inj_iff [symmetric] stable_mod_of [OF assms(1,2)] .
  then show "y = ceph_stable_mod x b (mask (calc_bits_of (b - 1)))"
    using stable_mod_stable_mod [OF assms(1-5), of x] unfolding y_def by simp
qed

text \<open>
  C24: Growing a pool from \<open>pg_num\<close> to a larger number moves no object between groups that both
  exist already: with the masks that \<open>calc_pg_masks\<close> computes, every hash value maps to an existing group, and the
  group of the grown pool is the old one or a new one. The old group can be recovered by folding
  the new one.
\<close>

theorem raw_pg_to_pg_stable:
  assumes "pi_pg_num pi \<noteq> 0" and "pi_pgp_num pi \<noteq> 0" and "unat (pi_pgp_num pi) < 2 ^ 31"
    and "pi_pg_num pi \<le> pg_num'" and "unat pg_num' < 2 ^ 31"
  shows "\<exists>old new. calc_pg_masks pi = Ok old \<and> calc_pg_masks (pi\<lparr>pi_pg_num := pg_num'\<rparr>) = Ok new \<and>
     pg_seed (raw_pg_to_pg old raw) < pi_pg_num pi \<and> pg_seed (raw_pg_to_pg new raw) < pg_num' \<and>
     (pg_seed (raw_pg_to_pg new raw) < pi_pg_num pi \<longrightarrow> raw_pg_to_pg new raw = raw_pg_to_pg old raw) \<and>
     raw_pg_to_pg old (raw_pg_to_pg new raw) = raw_pg_to_pg old raw"
proof -
  have le: "unat (pi_pg_num pi) \<le> unat pg_num'" using assms(4) by (simp add: word_le_nat_alt)
  have old: "unat (pi_pg_num pi) < 2 ^ 31" using le assms(5) by (rule le_less_trans)
  have "pg_num' \<noteq> 0" using le assms(1) by (auto simp: unat_gt_0 unat_eq_zero)
  note new = this assms(5)
  note moves = stable_mod_moves [OF assms(1) old new assms(4), of "pg_seed raw"]
  note self = stable_mod_moves(1) [OF assms(1) old assms(1) old order.refl, of "pg_seed raw"]
  note fold = stable_mod_stable_mod [OF assms(1) old new assms(4), of "pg_seed raw"]
  show ?thesis
    using moves self fold bits_less_32 [OF assms(1) old] bits_less_32 [OF new] bits_less_32 [OF assms(2,3)]
    by (auto simp: calc_pg_masks_def bit_mask_Ok raw_pg_to_pg_def)
qed

theorem raw_pg_to_pg_stable_witness:
  "\<exists>old new. calc_pg_masks sample_pool = Ok old \<and> calc_pg_masks (sample_pool\<lparr>pi_pg_num := 12\<rparr>) = Ok new \<and>
     raw_pg_to_pg old (raw_pg_to_pg new \<lparr>pg_pool = 1, pg_seed = 0xabcdef0b\<rparr>) =
       raw_pg_to_pg old \<lparr>pg_pool = 1, pg_seed = 0xabcdef0b\<rparr>"
proof -
  have a: "pi_pg_num sample_pool \<noteq> 0" "pi_pgp_num sample_pool \<noteq> 0" "unat (pi_pgp_num sample_pool) < 2 ^ 31"
    "pi_pg_num sample_pool \<le> 12" "unat (12 :: u32) < 2 ^ 31"
    by (simp_all add: sample_pool_def word_le_nat_alt)
  from raw_pg_to_pg_stable [OF a, of "\<lparr>pg_pool = 1, pg_seed = 0xabcdef0b\<rparr>"] show ?thesis by blast
qed

text \<open>
  The up set and the acting set of a placement group depend on the folded group only: as long as a
  pool has no more placement positions than groups, computing them from the group (as
  \<open>ceph_pg_to_primary_shard\<close> does) is the same as computing them from the raw hash value.
\<close>

theorem ceph_pg_to_up_acting_osds_folded:
  assumes "wf_pg_nums pi" and "pi_pgp_num pi \<le> pi_pg_num pi"
  shows "ceph_pg_to_up_acting_osds m pi cm (raw_pg_to_pg pi raw) up acting =
     ceph_pg_to_up_acting_osds m pi cm raw up acting"
  unfolding ceph_pg_to_up_acting_osds_def pg_to_raw_osds_def
    raw_pg_to_pps_pg [OF assms] raw_pg_to_pg_idem [OF assms(1)] ..

lemma sample_pool_pg_nums: "wf_pg_nums sample_pool"
proof -
  have "calc_bits_of 7 = 3"
    by (simp add: calc_bits_of.simps [of 7] calc_bits_of.simps [of 3] calc_bits_of.simps [of 1] calc_bits_of.simps [of 0]
        drop_bit_eq_div numeral_3_eq_3)
  then show ?thesis by (simp add: wf_pg_nums_def sample_pool_def mask_eq_exp_minus_1)
qed

theorem ceph_pg_to_up_acting_osds_folded_witness:
  "ceph_pg_to_up_acting_osds (sample_osdmap Map.empty) sample_pool sample_memory
     (raw_pg_to_pg sample_pool \<lparr>pg_pool = 1, pg_seed = 0xabcdef0b\<rparr>) empty_osds empty_osds =
   ceph_pg_to_up_acting_osds (sample_osdmap Map.empty) sample_pool sample_memory
     \<lparr>pg_pool = 1, pg_seed = 0xabcdef0b\<rparr> empty_osds empty_osds"
  by (rule ceph_pg_to_up_acting_osds_folded [OF sample_pool_pg_nums]) (simp add: sample_pool_def)

text \<open>
  C25: The test for a split terminates, with at most \<open>new_pg_num\<close> rounds of a loop that has no
  bound of its own, and is exact: it holds if and only if the pool grows and one of the new groups
  folds back to the group under the old number of groups.
\<close>

theorem ceph_pg_is_split_exact:
  assumes "old \<noteq> 0" and "pg_seed pgid < old" and "unat old \<le> 2 ^ 30" and "unat new \<le> 2 ^ 30"
    and "unat new \<le> fuel"
  shows "ceph_pg_is_split fuel pgid old new =
     Ok (\<exists>s. old \<le> s \<and> s < new \<and> ceph_stable_mod s old (mask (calc_bits_of (old - 1))) = pg_seed pgid)"
  by (rule pg_is_split_Ok [OF assms])

theorem ceph_pg_is_split_exact_witness:
  "ceph_pg_is_split 12 \<lparr>pg_pool = 1, pg_seed = 3\<rparr> 8 12 =
     Ok (\<exists>s. 8 \<le> s \<and> s < 12 \<and> ceph_stable_mod s 8 (mask (calc_bits_of (8 - 1))) = 3)"
proof -
  have a: "(8 :: u32) \<noteq> 0" "pg_seed \<lparr>pg_pool = 1, pg_seed = 3\<rparr> < 8" "unat (8 :: u32) \<le> 2 ^ 30"
    "unat (12 :: u32) \<le> 2 ^ 30" "unat (12 :: u32) \<le> 12" by (simp_all add: word_less_nat_alt)
  from ceph_pg_is_split_exact [OF a] show ?thesis by simp
qed

end
