(* ===== verification/OsdTarget.thy ===== *)
theory OsdTarget
  imports OsdMapPgs "HOL-Library.Char_ord"
begin

text \<open>
  Targets of requests (\<open>libceph/osd_client.c\<close>, \<open>calc_target\<close>, and the location of OSDs in \<open>libceph/osdmap.c\<close>): which placement group and which OSD a request
  goes to under the current map, whether it has to be sent again after a new map, and which replica a read may use.
\<close>

unbundle bit_operations_syntax

section \<open>Locations\<close>

record crush_loc =
  cl_type_name :: string
  cl_name :: string

text \<open>\<open>strcmp\<close> on strings without their terminating zeros; only its sign is specified.\<close>

fun strcmp :: "string \<Rightarrow> string \<Rightarrow> int" where
  "strcmp [] [] = 0"
| "strcmp [] (y # ys) = - 1"
| "strcmp (x # xs) [] = 1"
| "strcmp (x # xs) (y # ys) = (if x < y then - 1 else if x > y then 1 else strcmp xs ys)"

definition crush_loc_compare :: "crush_loc \<Rightarrow> crush_loc \<Rightarrow> int" where
  "crush_loc_compare loc1 loc2 =
     (let ret = strcmp (cl_type_name loc1) (cl_type_name loc2) in
      if ret \<noteq> 0 then ret else strcmp (cl_name loc1) (cl_name loc2))"

text \<open>
  The tree of locations is the list of its nodes in their order. Inserting returns \<open>None\<close> when an equal location is there.
\<close>

fun insert_crush_loc :: "crush_loc \<Rightarrow> crush_loc list \<Rightarrow> crush_loc list option" where
  "insert_crush_loc loc [] = Some [loc]"
| "insert_crush_loc loc (cur # locs) =
     (let cmp = crush_loc_compare loc cur in
      if cmp < 0 then Some (loc # cur # locs)
      else if cmp > 0 then map_option ((#) cur) (insert_crush_loc loc locs)
      else None)"

definition lookup_crush_loc :: "crush_loc list \<Rightarrow> crush_loc \<Rightarrow> bool" where
  "lookup_crush_loc locs loc \<longleftrightarrow> list_ex (\<lambda>cur. crush_loc_compare loc cur = 0) locs"

text \<open>The tokens that \<open>strsep\<close> returns for the separator \<open>|\<close>.\<close>

fun strsep_tokens :: "string \<Rightarrow> string list" where
  "strsep_tokens [] = [[]]"
| "strsep_tokens (c # cs) =
     (if c = CHR ''|'' then [] # strsep_tokens cs
      else case strsep_tokens cs of [] \<Rightarrow> [[c]] | t # ts \<Rightarrow> (c # t) # ts)"

text \<open>The loop of \<open>ceph_parse_crush_location\<close>; the result has the locations that have been inserted, also after an error.\<close>

fun parse_locs :: "(nat \<Rightarrow> bool) \<Rightarrow> string list \<Rightarrow> crush_loc list \<Rightarrow> errno option \<times> crush_loc list" where
  "parse_locs kmalloc_ok [] locs = (None, locs)"
| "parse_locs kmalloc_ok (token # tokens) locs =
     (if CHR '':'' \<notin> set token then (Some EINVAL, locs)
      else
        let type_name = takeWhile (\<lambda>c. c \<noteq> CHR '':'') token;
            name = drop (Suc (length type_name)) token in
        if length type_name = 0 then (Some EINVAL, locs)
        else if length name = 0 then (Some EINVAL, locs)
        else if \<not> kmalloc_ok (length type_name + length name + 2) then (Some ENOMEM, locs)
        else
          case insert_crush_loc \<lparr>cl_type_name = type_name, cl_name = name\<rparr> locs of
            None \<Rightarrow> (Some EEXIST, locs)
          | Some locs \<Rightarrow> parse_locs kmalloc_ok tokens locs)"

definition ceph_parse_crush_location :: "(nat \<Rightarrow> bool) \<Rightarrow> string \<Rightarrow> crush_loc list \<Rightarrow> errno option \<times> crush_loc list" where
  "ceph_parse_crush_location kmalloc_ok crush_location locs = parse_locs kmalloc_ok (strsep_tokens crush_location) locs"

fun ceph_compare_crush_locs :: "crush_loc list \<Rightarrow> crush_loc list \<Rightarrow> int" where
  "ceph_compare_crush_locs [] [] = 0"
| "ceph_compare_crush_locs [] (l # ls) = - 1"
| "ceph_compare_crush_locs (l # ls) [] = 1"
| "ceph_compare_crush_locs (l1 # ls1) (l2 # ls2) =
     (let ret = crush_loc_compare l1 l2 in if ret \<noteq> 0 then ret else ceph_compare_crush_locs ls1 ls2)"

definition is_valid_crush_char :: "char \<Rightarrow> bool" where
  "is_valid_crush_char c \<longleftrightarrow>
     (CHR ''a'' \<le> c \<and> c \<le> CHR ''z'') \<or> (CHR ''A'' \<le> c \<and> c \<le> CHR ''Z'') \<or> (CHR ''0'' \<le> c \<and> c \<le> CHR ''9'') \<or>
     c = CHR ''-'' \<or> c = CHR ''_'' \<or> c = CHR ''.''"

text \<open>The loop tests the first character before it looks for the end: an empty name is not valid.\<close>

definition is_valid_crush_name :: "string \<Rightarrow> bool" where
  "is_valid_crush_name name \<longleftrightarrow> name \<noteq> [] \<and> list_all is_valid_crush_char name"

text \<open>
  The buckets from the index \<open>i\<close> on. The result is the id of the parent (0 if there is none), its type and its location. The name of
  the type is used without a check that there is one.
\<close>

fun item_in :: "nat \<Rightarrow> int list \<Rightarrow> int \<Rightarrow> bool outcome" where
  "item_in 0 items no = Ok False"
| "item_in (Suc n) [] no = Oops Bad_Access"
| "item_in (Suc n) (item # items) no = (if item = no then Ok True else item_in n items no)"

fun parent_loop :: "crush_map \<Rightarrow> int \<Rightarrow> crush_bucket option list \<Rightarrow> (int \<times> u16 \<times> crush_loc) outcome" where
  "parent_loop c no [] = Ok (0, 0, \<lparr>cl_type_name = [], cl_name = []\<rparr>)"
| "parent_loop c no (None # bs) = parent_loop c no bs"
| "parent_loop c no (Some b # bs) =
     (case bucket_names c (bucket_id b) of
        None \<Rightarrow> parent_loop c no bs
      | Some cn \<Rightarrow>
          if \<not> is_valid_crush_name cn then parent_loop c no bs
          else
            bind_outcome (item_in (unat (bucket_size b)) (bucket_items b) no) (\<lambda>found.
            if \<not> found then parent_loop c no bs
            else
              case type_names c (uint (bucket_type b)) of
                None \<Rightarrow> Oops Bad_Access
              | Some type_cn \<Rightarrow> Ok (bucket_id b, bucket_type b, \<lparr>cl_type_name = type_cn, cl_name = cn\<rparr>)))"

definition get_immediate_parent :: "crush_map \<Rightarrow> int \<Rightarrow> (int \<times> u16 \<times> crush_loc) outcome" where
  "get_immediate_parent c no =
     (if length (buckets c) < nat (max_buckets c) then Oops Bad_Access
      else parent_loop c no (take (nat (max_buckets c)) (buckets c)))"

text \<open>The loop climbs the hierarchy without a bound; the fuel stands for the number of its rounds.\<close>

fun ceph_get_crush_locality :: "nat \<Rightarrow> ceph_osdmap \<Rightarrow> int \<Rightarrow> crush_loc list \<Rightarrow> int outcome" where
  "ceph_get_crush_locality 0 osdmap no locs = Oops No_Fuel"
| "ceph_get_crush_locality (Suc fuel) osdmap no locs =
     bind_outcome (get_immediate_parent (osdmap_crush osdmap) no) (\<lambda>(no, type_id, loc).
       if no \<ge> 0 then Ok (- 1)
       else if lookup_crush_loc locs loc then Ok (uint type_id)
       else ceph_get_crush_locality fuel osdmap no locs)"

section \<open>Targets\<close>

record ceph_object_locator =
  oloc_pool :: int
  oloc_pool_ns :: "u8 list option"

record ceph_osd_request_target =
  t_base_oid :: "u8 list"
  t_base_oloc :: ceph_object_locator
  t_target_oid :: "u8 list"
  t_target_oloc :: ceph_object_locator
  t_pgid :: ceph_pg
  t_spgid :: ceph_spg
  t_pg_num :: u32
  t_pg_num_mask :: u32
  t_acting :: ceph_osds
  t_up :: ceph_osds
  t_size :: int
  t_min_size :: int
  t_sort_bitwise :: bool
  t_recovery_deletes :: bool
  t_flags :: u32
  t_used_replica :: bool
  t_paused :: bool
  t_epoch :: u32
  t_last_force_resend :: u32
  t_osd :: int

abbreviation (input) CEPH_HOMELESS_OSD :: int where "CEPH_HOMELESS_OSD \<equiv> - 1"
abbreviation (input) CEPH_OSD_FLAG_RETRY :: u32 where "CEPH_OSD_FLAG_RETRY \<equiv> 0x8"
abbreviation (input) CEPH_OSD_FLAG_READ :: u32 where "CEPH_OSD_FLAG_READ \<equiv> 0x10"
abbreviation (input) CEPH_OSD_FLAG_WRITE :: u32 where "CEPH_OSD_FLAG_WRITE \<equiv> 0x20"
abbreviation (input) CEPH_OSD_FLAG_BALANCE_READS :: u32 where "CEPH_OSD_FLAG_BALANCE_READS \<equiv> 0x100"
abbreviation (input) CEPH_OSD_FLAG_LOCALIZE_READS :: u32 where "CEPH_OSD_FLAG_LOCALIZE_READS \<equiv> 0x2000"
abbreviation (input) CEPH_OSD_FLAG_IGNORE_CACHE :: u32 where "CEPH_OSD_FLAG_IGNORE_CACHE \<equiv> 0x8000"
abbreviation (input) CEPH_OSD_FLAG_IGNORE_OVERLAY :: u32 where "CEPH_OSD_FLAG_IGNORE_OVERLAY \<equiv> 0x20000"
abbreviation (input) CEPH_OSD_FLAG_REDIRECTED :: u32 where "CEPH_OSD_FLAG_REDIRECTED \<equiv> 0x200000"
abbreviation (input) CEPH_OSD_FLAG_KNOWN_REDIR :: u32 where "CEPH_OSD_FLAG_KNOWN_REDIR \<equiv> 0x400000"
abbreviation (input) CEPH_OSD_FLAG_FULL_TRY :: u32 where "CEPH_OSD_FLAG_FULL_TRY \<equiv> 0x800000"
abbreviation (input) CEPH_OSD_FLAG_FULL_FORCE :: u32 where "CEPH_OSD_FLAG_FULL_FORCE \<equiv> 0x1000000"
abbreviation (input) CEPH_OSDMAP_FULL :: u32 where "CEPH_OSDMAP_FULL \<equiv> 0x2"
abbreviation (input) CEPH_OSDMAP_PAUSERD :: u32 where "CEPH_OSDMAP_PAUSERD \<equiv> 0x4"
abbreviation (input) CEPH_OSDMAP_PAUSEWR :: u32 where "CEPH_OSDMAP_PAUSEWR \<equiv> 0x8"
abbreviation (input) CEPH_OSDMAP_SORTBITWISE :: u32 where "CEPH_OSDMAP_SORTBITWISE \<equiv> 0x8000"
abbreviation (input) CEPH_OSDMAP_RECOVERY_DELETES :: u32 where "CEPH_OSDMAP_RECOVERY_DELETES \<equiv> 0x80000"
abbreviation (input) CEPH_POOL_FLAG_FULL :: u64 where "CEPH_POOL_FLAG_FULL \<equiv> 0x2"

text \<open>
  The part of the client that targets depend on: the map, the barrier, the location of the client, and the memory of CRUSH. \<open>osdc_stack\<close> is what the
  uninitialized sets of OSDs on the stack hold, and \<open>osdc_fuel\<close> bounds the two unbounded loops.
\<close>

record osdc_maps =
  osdc_osdmap :: ceph_osdmap
  osdc_epoch_barrier :: u32
  osdc_crush_locs :: "crush_loc list"
  osdc_crush_memory :: crush_memory
  osdc_stack :: ceph_osds
  osdc_fuel :: nat

definition ceph_osdmap_flag :: "'a osdc_maps_scheme \<Rightarrow> u32 \<Rightarrow> bool" where
  "ceph_osdmap_flag osdc flag \<longleftrightarrow> osdmap_flags (osdc_osdmap osdc) AND flag \<noteq> 0"

definition pool_is_full :: "ceph_pg_pool_info \<Rightarrow> bool" where
  "pool_is_full pi \<longleftrightarrow> pi_flags pi AND CEPH_POOL_FLAG_FULL \<noteq> 0"

definition pool_full :: "'a osdc_maps_scheme \<Rightarrow> int \<Rightarrow> bool" where
  "pool_full osdc pool_id =
     (case ceph_pg_pool_by_id (osdc_osdmap osdc) pool_id of None \<Rightarrow> False | Some pi \<Rightarrow> pool_is_full pi)"

definition target_should_be_paused :: "'a osdc_maps_scheme \<Rightarrow> ceph_osd_request_target \<Rightarrow> ceph_pg_pool_info \<Rightarrow> bool" where
  "target_should_be_paused osdc t pi =
     (let pauserd = ceph_osdmap_flag osdc CEPH_OSDMAP_PAUSERD;
          pausewr = ceph_osdmap_flag osdc CEPH_OSDMAP_PAUSEWR \<or> ceph_osdmap_flag osdc CEPH_OSDMAP_FULL \<or> pool_is_full pi in
      (t_flags t AND CEPH_OSD_FLAG_READ \<noteq> 0 \<and> pauserd) \<or>
      (t_flags t AND CEPH_OSD_FLAG_WRITE \<noteq> 0 \<and> pausewr) \<or>
      osdmap_epoch (osdc_osdmap osdc) < osdc_epoch_barrier osdc)"

text \<open>\<open>rnd\<close> is the value of \<open>prandom_u32\<close>.\<close>

definition pick_random_replica :: "u32 \<Rightarrow> ceph_osds \<Rightarrow> nat outcome" where
  "pick_random_replica rnd acting = (if os_size acting = 0 then Oops Div_Zero else Ok (unat rnd mod os_size acting))"

fun closest_loop :: "(int \<Rightarrow> int outcome) \<Rightarrow> nat \<Rightarrow> int list \<Rightarrow> nat \<Rightarrow> int \<Rightarrow> nat outcome" where
  "closest_loop locality i [] best_i best_locality = Ok best_i"
| "closest_loop locality i (osd # osds) best_i best_locality =
     bind_outcome (locality osd) (\<lambda>l.
       if i = 0 \<or> (l \<ge> 0 \<and> best_locality < 0) \<or> (l \<ge> 0 \<and> best_locality \<ge> 0 \<and> l < best_locality)
       then closest_loop locality (Suc i) osds i l
       else closest_loop locality (Suc i) osds best_i best_locality)"

text \<open>The loop looks at the first entry of a set before it tests its size.\<close>

definition pick_closest_replica :: "'a osdc_maps_scheme \<Rightarrow> ceph_osds \<Rightarrow> nat outcome" where
  "pick_closest_replica osdc acting =
     (let n = max 1 (os_size acting) in
      if length (os_osds acting) < n then Oops Bad_Access
      else closest_loop (\<lambda>osd. ceph_get_crush_locality (osdc_fuel osdc) (osdc_osdmap osdc) osd (osdc_crush_locs osdc))
             0 (take n (os_osds acting)) 0 0)"

datatype calc_target_result = CALC_TARGET_NO_ACTION | CALC_TARGET_NEED_RESEND | CALC_TARGET_POOL_DNE

text \<open>The choice of an OSD from the acting set: its position and whether a replica may be used.\<close>

definition choose_osd ::
    "'a osdc_maps_scheme \<Rightarrow> u32 \<Rightarrow> ceph_pg_pool_info \<Rightarrow> ceph_osds \<Rightarrow> ceph_osd_request_target \<Rightarrow> ceph_osd_request_target outcome" where
  "choose_osd osdc rnd pi acting t =
     (if t_flags t AND (CEPH_OSD_FLAG_BALANCE_READS OR CEPH_OSD_FLAG_LOCALIZE_READS) \<noteq> 0 \<and>
         t_flags t AND CEPH_OSD_FLAG_WRITE = 0 \<and> pi_type pi = CEPH_POOL_TYPE_REP \<and> os_size acting > 1 then
        bind_outcome
          (if t_flags t AND CEPH_OSD_FLAG_BALANCE_READS \<noteq> 0 then pick_random_replica rnd acting
           else pick_closest_replica osdc acting) (\<lambda>pos.
        bind_outcome (aref (os_osds acting) pos) (\<lambda>osd.
          Ok (t\<lparr>t_osd := osd, t_used_replica := (pos > 0)\<rparr>)))
      else Ok (t\<lparr>t_osd := os_primary acting, t_used_replica := False\<rparr>))"

text \<open>\<open>if (legacy_change || force_resend || split)\<close>: the new target.\<close>

definition retarget ::
    "'a osdc_maps_scheme \<Rightarrow> u32 \<Rightarrow> ceph_pg_pool_info \<Rightarrow> ceph_pg \<Rightarrow> ceph_osds \<Rightarrow> ceph_osds \<Rightarrow> crush_memory \<Rightarrow> ceph_osd_request_target \<Rightarrow>
     (ceph_osd_request_target \<times> crush_memory) outcome" where
  "retarget osdc rnd pi pgid up acting cm t =
     bind_outcome (ceph_pg_to_primary_shard (osdc_osdmap osdc) pi cm pgid (osdc_stack osdc) (osdc_stack osdc)) (\<lambda>(cm, shard).
     bind_outcome
       (choose_osd osdc rnd pi acting
         (t\<lparr>t_pgid := pgid, t_spgid := (case shard of None \<Rightarrow> t_spgid t | Some spgid \<Rightarrow> spgid),
            t_acting := ceph_osds_copy (t_acting t) acting, t_up := ceph_osds_copy (t_up t) up,
            t_size := uint (pi_size pi), t_min_size := uint (pi_min_size pi), t_pg_num := pi_pg_num pi, t_pg_num_mask := pi_pg_num_mask pi,
            t_sort_bitwise := ceph_osdmap_flag osdc CEPH_OSDMAP_SORTBITWISE,
            t_recovery_deletes := ceph_osdmap_flag osdc CEPH_OSDMAP_RECOVERY_DELETES\<rparr>)) (\<lambda>t. Ok (t, cm)))"

text \<open>From the mapping of the object to the result; \<open>force_resend\<close> is what the pool demands.\<close>

definition calc_target_in_pool ::
    "'a osdc_maps_scheme \<Rightarrow> u32 \<Rightarrow> bool \<Rightarrow> bool \<Rightarrow> ceph_pg_pool_info \<Rightarrow> ceph_osd_request_target \<Rightarrow>
     (calc_target_result \<times> ceph_osd_request_target \<times> crush_memory) outcome" where
  "calc_target_in_pool osdc rnd any_change force_resend pi t =
     (let osdmap = osdc_osdmap osdc;
          sort_bitwise = ceph_osdmap_flag osdc CEPH_OSDMAP_SORTBITWISE;
          recovery_deletes = ceph_osdmap_flag osdc CEPH_OSDMAP_RECOVERY_DELETES;
          pgid = locator_to_pg_of pi (t_target_oid t) (oloc_pool (t_target_oloc t)) (oloc_pool_ns (t_target_oloc t));
          last_pgid = \<lparr>pg_pool = pg_pool pgid, pg_seed = ceph_stable_mod (pg_seed pgid) (t_pg_num t) (t_pg_num_mask t)\<rparr> in
      bind_outcome (ceph_pg_to_up_acting_osds osdmap pi (osdc_crush_memory osdc) pgid (osdc_stack osdc) (osdc_stack osdc)) (\<lambda>(cm, up, acting).
      bind_outcome
        (if any_change then
           ceph_is_new_interval (osdc_fuel osdc) (t_acting t) acting (t_up t) up (t_size t) (uint (pi_size pi))
             (t_min_size t) (uint (pi_min_size pi)) (t_pg_num t) (pi_pg_num pi) (t_sort_bitwise t) sort_bitwise
             (t_recovery_deletes t) recovery_deletes last_pgid
         else Ok False) (\<lambda>new_interval.
        let force_resend = (force_resend \<or> new_interval);
            unpaused = (t_paused t \<and> \<not> target_should_be_paused osdc t pi);
            t = (if unpaused then t\<lparr>t_paused := False\<rparr> else t);
            legacy_change = (ceph_pg_compare (t_pgid t) pgid \<noteq> 0 \<or>
              ceph_osds_changed (t_acting t) acting (t_used_replica t \<or> any_change)) in
        bind_outcome (if t_pg_num t \<noteq> 0 then ceph_pg_is_split (osdc_fuel osdc) last_pgid (t_pg_num t) (pi_pg_num pi) else Ok False) (\<lambda>split.
        bind_outcome
          (if legacy_change \<or> force_resend \<or> split then retarget osdc rnd pi pgid up acting cm t else Ok (t, cm)) (\<lambda>(t, cm).
          Ok (if unpaused \<or> legacy_change \<or> force_resend \<or> split then CALC_TARGET_NEED_RESEND else CALC_TARGET_NO_ACTION, t, cm))))))"

definition calc_target ::
    "'a osdc_maps_scheme \<Rightarrow> u32 \<Rightarrow> ceph_osd_request_target \<Rightarrow> bool \<Rightarrow>
     (calc_target_result \<times> ceph_osd_request_target \<times> crush_memory) outcome" where
  "calc_target osdc rnd t any_change =
     (let osdmap = osdc_osdmap osdc;
          is_read = t_flags t AND CEPH_OSD_FLAG_READ \<noteq> 0;
          is_write = t_flags t AND CEPH_OSD_FLAG_WRITE \<noteq> 0;
          t = t\<lparr>t_epoch := osdmap_epoch osdmap\<rparr> in
      case ceph_pg_pool_by_id osdmap (oloc_pool (t_base_oloc t)) of
        None \<Rightarrow> Ok (CALC_TARGET_POOL_DNE, t\<lparr>t_osd := CEPH_HOMELESS_OSD\<rparr>, osdc_crush_memory osdc)
      | Some pi \<Rightarrow>
          let resend = pi_last_force_request_resend pi;
              now = (osdmap_epoch osdmap = resend);
              force_resend = (now \<and> (t_last_force_resend t < resend \<or> t_last_force_resend t = 0));
              t = (if now \<and> t_last_force_resend t < resend then t\<lparr>t_last_force_resend := resend\<rparr> else t);
              t = t\<lparr>t_target_oid := t_base_oid t, t_target_oloc := t_base_oloc t\<rparr> in
          if t_flags t AND CEPH_OSD_FLAG_IGNORE_OVERLAY = 0 then
            let pool = (if is_read \<and> pi_read_tier pi \<ge> 0 then pi_read_tier pi else oloc_pool (t_target_oloc t));
                pool = (if is_write \<and> pi_write_tier pi \<ge> 0 then pi_write_tier pi else pool);
                t = t\<lparr>t_target_oloc := (t_target_oloc t)\<lparr>oloc_pool := pool\<rparr>\<rparr> in
            case ceph_pg_pool_by_id osdmap pool of
              None \<Rightarrow> Ok (CALC_TARGET_POOL_DNE, t\<lparr>t_osd := CEPH_HOMELESS_OSD\<rparr>, osdc_crush_memory osdc)
            | Some pi \<Rightarrow> calc_target_in_pool osdc rnd any_change force_resend pi t
          else calc_target_in_pool osdc rnd any_change force_resend pi t)"

section \<open>Localities\<close>

text \<open>Every bucket with a name has a type with a name.\<close>

definition names_ok :: "crush_map \<Rightarrow> bool" where
  "names_ok c \<longleftrightarrow> (\<forall>b. bucket_of c b \<and> bucket_names c (bucket_id b) \<noteq> None \<longrightarrow> type_names c (uint (bucket_type b)) \<noteq> None)"

lemma item_in_Ok: "n = length items \<Longrightarrow> item_in n items no = Ok (no \<in> set items)"
  by (induction n items no rule: item_in.induct) auto

text \<open>The buckets that are left to look at: those that are there are well-formed buckets of the map.\<close>

definition slots_ok :: "(int \<Rightarrow> nat) \<Rightarrow> crush_map \<Rightarrow> crush_bucket option list \<Rightarrow> bool" where
  "slots_ok rank c bs \<longleftrightarrow> (\<forall>b. Some b \<in> set bs \<longrightarrow> bucket_of c b \<and> (\<exists>k. wf_slot rank c k b))"

lemma parent_loop_Ok:
  assumes names: "names_ok c" and bs: "slots_ok rank c bs"
  shows "(\<exists>loc. parent_loop c no bs = Ok (0, 0, loc)) \<or>
     (\<exists>b loc. parent_loop c no bs = Ok (bucket_id b, bucket_type b, loc) \<and> bucket_of c b \<and> bucket_id b < 0 \<and> no \<in> set (bucket_items b) \<and>
        (no < 0 \<longrightarrow> rank no < rank (bucket_id b)))"
  using bs
proof (induction bs)
  case (Cons slot bs)
  have rest: "slots_ok rank c bs" using Cons.prems by (simp add: slots_ok_def)
  note IH = Cons.IH [OF rest]
  show ?case
  proof (cases slot)
    case None
    then show ?thesis using IH by simp
  next
    case (Some b)
    then obtain k where b: "bucket_of c b" "wf_slot rank c k b" using Cons.prems by (auto simp: slots_ok_def)
    show ?thesis
    proof (cases "bucket_names c (bucket_id b)")
      case None
      then show ?thesis using IH Some by simp
    next
      case cn: (Some cn)
      have len: "unat (bucket_size b) = length (bucket_items b)" using b(2) by (simp add: wf_slot_def)
      obtain ty where "type_names c (uint (bucket_type b)) = Some ty" using names b(1) cn by (auto simp: names_ok_def)
      then have step: "parent_loop c no (slot # bs) =
         (if no \<in> set (bucket_items b) \<and> is_valid_crush_name cn
          then Ok (bucket_id b, bucket_type b, \<lparr>cl_type_name = ty, cl_name = cn\<rparr>) else parent_loop c no bs)"
        using Some cn item_in_Ok [OF len] by simp
      have neg: "bucket_id b < 0" "no \<in> set (bucket_items b) \<Longrightarrow> no < 0 \<longrightarrow> rank no < rank (bucket_id b)"
        using b(2) by (auto simp: wf_slot_def)
      show ?thesis
      proof (cases "no \<in> set (bucket_items b) \<and> is_valid_crush_name cn")
        case True
        then have "parent_loop c no (slot # bs) = Ok (bucket_id b, bucket_type b, \<lparr>cl_type_name = ty, cl_name = cn\<rparr>)" using step by simp
        then show ?thesis using neg b(1) True by blast
      next
        case False
        have "parent_loop c no (slot # bs) = parent_loop c no bs" unfolding step by (rule if_not_P [OF False])
        then show ?thesis using IH by simp
      qed
    qed
  qed
qed simp

lemma get_immediate_parent_Ok:
  assumes map: "wf_map rank c" and names: "names_ok c"
  shows "(\<exists>loc. get_immediate_parent c no = Ok (0, 0, loc)) \<or>
     (\<exists>b loc. get_immediate_parent c no = Ok (bucket_id b, bucket_type b, loc) \<and> bucket_of c b \<and> bucket_id b < 0 \<and> no \<in> set (bucket_items b) \<and>
        (no < 0 \<longrightarrow> rank no < rank (bucket_id b)))"
proof -
  let ?bs = "take (nat (max_buckets c)) (buckets c)"
  have len: "nat (max_buckets c) \<le> length (buckets c)" using map by (simp add: wf_map_def)
  have "bucket_of c b \<and> (\<exists>k. wf_slot rank c k b)" if b: "Some b \<in> set ?bs" for b
  proof -
    obtain k where k: "k < nat (max_buckets c)" "buckets c ! k = Some b"
      using b len by (auto simp: in_set_conv_nth)
    then show ?thesis using wf_slotD [OF map k] by (auto simp: bucket_of_def)
  qed
  then have "slots_ok rank c ?bs" by (simp add: slots_ok_def)
  from parent_loop_Ok [OF names this, of no] show ?thesis using len by (simp add: get_immediate_parent_def)
qed

text \<open>Climbing ends at a bucket without a parent: no path is longer than the number of levels.\<close>

lemma locality_Ok:
  assumes map: "wf_map rank (osdmap_crush m)" and sane: "sane_map rank R (osdmap_crush m)" and names: "names_ok (osdmap_crush m)"
  shows "(0 \<le> no \<Longrightarrow> R + 1 < fuel) \<Longrightarrow> (no < 0 \<Longrightarrow> R - rank no < fuel) \<Longrightarrow> \<exists>l. ceph_get_crush_locality fuel m no locs = Ok l"
proof (induction fuel arbitrary: no)
  case 0
  then show ?case by (cases "0 \<le> no") simp_all
next
  case (Suc fuel)
  show ?case
  proof (cases rule: disjE [OF get_immediate_parent_Ok [OF map names, of no]])
    case 1
    then show ?thesis by auto
  next
    case 2
    then obtain b loc where b: "get_immediate_parent (osdmap_crush m) no = Ok (bucket_id b, bucket_type b, loc)" "bucket_of (osdmap_crush m) b"
      "bucket_id b < 0" "no < 0 \<longrightarrow> rank no < rank (bucket_id b)" by blast
    have "rank (bucket_id b) \<le> R" using sane b(2) by (simp add: sane_map_def)
    then have "R - rank (bucket_id b) < fuel" using Suc.prems b(4) by (cases "0 \<le> no") (auto simp: not_le)
    then obtain l where "ceph_get_crush_locality fuel m (bucket_id b) locs = Ok l" using Suc.IH [of "bucket_id b"] b(3) by auto
    then show ?thesis using b(1,3) by auto
  qed
qed

section \<open>The closest replica\<close>

text \<open>\<open>closer\<close>: a known locality beats an unknown one, and the smaller one beats the larger.\<close>

definition closer :: "int \<Rightarrow> int \<Rightarrow> bool" where
  "closer l l' \<longleftrightarrow> 0 \<le> l \<and> (l' < 0 \<or> l < l')"

lemma closer_simps: "((l \<ge> 0 \<and> l' < 0) \<or> (l \<ge> 0 \<and> l' \<ge> 0 \<and> l < l')) = closer l l'"
  by (auto simp: closer_def)

lemma closer_trans: "\<not> closer l l' \<Longrightarrow> closer l'' l' \<Longrightarrow> closer l'' l"
  by (auto simp: closer_def)

lemma closest_loop_Ok:
  assumes "\<And>osd. osd \<in> set osds \<Longrightarrow> locality osd = Ok (loc osd)" and "best < i" "i = length pre" "bl = loc (pre ! best)"
    and "\<forall>j<i. \<not> closer (loc (pre ! j)) bl \<and> (j < best \<longrightarrow> closer bl (loc (pre ! j)))"
  shows "\<exists>n. closest_loop locality i osds best bl = Ok n \<and> n < length (pre @ osds) \<and>
     (\<forall>j<length (pre @ osds). \<not> closer (loc ((pre @ osds) ! j)) (loc ((pre @ osds) ! n)) \<and>
        (j < n \<longrightarrow> closer (loc ((pre @ osds) ! n)) (loc ((pre @ osds) ! j))))"
  using assms
proof (induction osds arbitrary: i pre best bl)
  case Nil
  then show ?case by auto
next
  case (Cons osd osds)
  let ?pre = "pre @ [osd]"
  have l: "locality osd = Ok (loc osd)" using Cons.prems(1) by simp
  have i: "0 < i" "Suc i = length ?pre" using Cons.prems(2,3) by auto
  have nth: "?pre ! j = pre ! j" if "j < i" for j using that Cons.prems(3) by (simp add: nth_append)
  have nth_i: "?pre ! i = osd" using Cons.prems(3) by (simp add: nth_append)
  show ?case
  proof (cases "closer (loc osd) bl")
    case True
    have "\<forall>j<Suc i. \<not> closer (loc (?pre ! j)) (loc osd) \<and> (j < i \<longrightarrow> closer (loc osd) (loc (?pre ! j)))"
    proof (intro allI impI)
      fix j
      assume "j < Suc i"
      then consider "j = i" | "j < i" by linarith
      then show "\<not> closer (loc (?pre ! j)) (loc osd) \<and> (j < i \<longrightarrow> closer (loc osd) (loc (?pre ! j)))"
      proof cases
        case 1
        then show ?thesis using nth_i by (simp add: closer_def)
      next
        case 2
        then have "\<not> closer (loc (pre ! j)) bl" using Cons.prems(5) by blast
        from closer_trans [OF this True] show ?thesis using nth [OF 2] by (auto simp: closer_def)
      qed
    qed
    from Cons.IH [OF Cons.prems(1) _ i(2) _ this] have "\<exists>n. closest_loop locality (Suc i) osds i (loc osd) = Ok n \<and> n < length (?pre @ osds) \<and>
       (\<forall>j<length (?pre @ osds). \<not> closer (loc ((?pre @ osds) ! j)) (loc ((?pre @ osds) ! n)) \<and>
          (j < n \<longrightarrow> closer (loc ((?pre @ osds) ! n)) (loc ((?pre @ osds) ! j))))" using nth_i by simp
    then show ?thesis using l i(1) True by (simp add: closer_simps)
  next
    case False
    have "\<forall>j<Suc i. \<not> closer (loc (?pre ! j)) bl \<and> (j < best \<longrightarrow> closer bl (loc (?pre ! j)))"
    proof (intro allI impI)
      fix j
      assume "j < Suc i"
      then consider "j = i" | "j < i" by linarith
      then show "\<not> closer (loc (?pre ! j)) bl \<and> (j < best \<longrightarrow> closer bl (loc (?pre ! j)))"
        by cases (use nth_i False Cons.prems(2,5) nth in auto)
    qed
    from Cons.IH [OF Cons.prems(1) _ i(2) _ this] have "\<exists>n. closest_loop locality (Suc i) osds best bl = Ok n \<and> n < length (?pre @ osds) \<and>
       (\<forall>j<length (?pre @ osds). \<not> closer (loc ((?pre @ osds) ! j)) (loc ((?pre @ osds) ! n)) \<and>
          (j < n \<longrightarrow> closer (loc ((?pre @ osds) ! n)) (loc ((?pre @ osds) ! j))))" using nth Cons.prems(2,4) by simp
    then show ?thesis using l i(1) False by (simp add: closer_simps)
  qed
qed

section \<open>Well-formed clients and targets\<close>

definition pool_ok :: "ceph_pg_pool_info \<Rightarrow> bool" where
  "pool_ok pi \<longleftrightarrow> pool_type_ok pi \<and> pi_size pi \<noteq> 0 \<and> wf_pg_nums pi \<and> unat (pi_pg_num pi) \<le> 2 ^ 30"

definition maps_ok :: "(int \<Rightarrow> nat) \<Rightarrow> nat \<Rightarrow> 'a osdc_maps_scheme \<Rightarrow> bool" where
  "maps_ok rank R osdc \<longleftrightarrow>
     wf_placement rank R (osdc_osdmap osdc) \<and> memory_ok R (osdc_osdmap osdc) (osdc_crush_memory osdc) \<and>
     (\<forall>pool pi. pg_pools (osdc_osdmap osdc) pool = Some pi \<longrightarrow> pool_ok pi) \<and> (\<forall>pgid. mappings_fit (osdc_osdmap osdc) pgid) \<and>
     (\<forall>pgid osd. primary_temp (osdc_osdmap osdc) pgid = Some osd \<longrightarrow> 0 \<le> osd \<and> osd < uint (max_osd (osdc_osdmap osdc))) \<and>
     names_ok (osdmap_crush (osdc_osdmap osdc)) \<and> wf_osds (osdc_stack osdc) \<and> 2 ^ 30 \<le> osdc_fuel osdc \<and> R + 1 < osdc_fuel osdc"

text \<open>The fields that a target has from its last calculation.\<close>

definition target_ok :: "ceph_osd_request_target \<Rightarrow> bool" where
  "target_ok t \<longleftrightarrow>
     (if t_pg_num t = 0 then t_size t = 0
      else unat (t_pg_num t) \<le> 2 ^ 30 \<and> t_pg_num_mask t = mask (calc_bits_of (t_pg_num t - 1)))"

lemma maps_ok_wf_map: "maps_ok rank R osdc \<Longrightarrow> wf_map rank (osdmap_crush (osdc_osdmap osdc))"
  by (auto simp: maps_ok_def wf_placement_def wf_env_def crush_env_of_def)

lemma pick_closest_replica_Ok:
  assumes ok: "maps_ok rank R osdc" and s: "wf_osds acting" "0 < os_size acting" and pos: "\<forall>osd\<in>set (osds_of acting). 0 \<le> osd"
  shows "\<exists>loc n. (\<forall>osd\<in>set (osds_of acting).
        ceph_get_crush_locality (osdc_fuel osdc) (osdc_osdmap osdc) osd (osdc_crush_locs osdc) = Ok (loc osd)) \<and>
     pick_closest_replica osdc acting = Ok n \<and> n < os_size acting \<and>
     (\<forall>j<os_size acting. \<not> closer (loc (os_osds acting ! j)) (loc (os_osds acting ! n)) \<and>
        (j < n \<longrightarrow> closer (loc (os_osds acting ! n)) (loc (os_osds acting ! j))))"
proof -
  let ?get = "\<lambda>osd. ceph_get_crush_locality (osdc_fuel osdc) (osdc_osdmap osdc) osd (osdc_crush_locs osdc)"
  have "\<exists>l. ?get osd = Ok l" if "0 \<le> osd" for osd
    by (rule locality_Ok [OF maps_ok_wf_map [OF ok]]) (use ok that in \<open>auto simp: maps_ok_def wf_placement_def\<close>)
  then have "\<forall>osd. \<exists>l. 0 \<le> osd \<longrightarrow> ?get osd = Ok l" by blast
  from choice [OF this] obtain loc where loc: "\<And>osd. 0 \<le> osd \<Longrightarrow> ?get osd = Ok (loc osd)" by blast
  have len: "length (osds_of acting) = os_size acting" using s(1) by (simp add: osds_of_def wf_osds_def)
  obtain x xs where xs: "osds_of acting = x # xs" using len s(2) by (cases "osds_of acting") auto
  have "?get x = Ok (loc x)" using loc pos xs by simp
  then have first: "closest_loop ?get 0 (osds_of acting) 0 0 = closest_loop ?get 1 xs 0 (loc x)" by (simp add: xs)
  have all: "\<And>osd. osd \<in> set xs \<Longrightarrow> ?get osd = Ok (loc osd)" using loc pos xs by simp
  have "\<exists>n. closest_loop ?get 1 xs 0 (loc x) = Ok n \<and> n < length ([x] @ xs) \<and>
     (\<forall>j<length ([x] @ xs). \<not> closer (loc (([x] @ xs) ! j)) (loc (([x] @ xs) ! n)) \<and>
        (j < n \<longrightarrow> closer (loc (([x] @ xs) ! n)) (loc (([x] @ xs) ! j))))"
    by (rule closest_loop_Ok [OF all]) (simp_all add: closer_def)
  then obtain n where n: "closest_loop ?get 1 xs 0 (loc x) = Ok n" "n < os_size acting"
    "\<forall>j<os_size acting. \<not> closer (loc (osds_of acting ! j)) (loc (osds_of acting ! n)) \<and>
        (j < n \<longrightarrow> closer (loc (osds_of acting ! n)) (loc (osds_of acting ! j)))"
    unfolding len [symmetric] xs by auto
  have nth: "osds_of acting ! j = os_osds acting ! j" if "j < os_size acting" for j using that by (simp add: osds_of_def)
  have m1: "max 1 (os_size acting) = os_size acting" using s(2) by simp
  have "pick_closest_replica osdc acting = Ok n"
    unfolding pick_closest_replica_def Let_def m1 osds_of_def [symmetric] first n(1) using s by (simp add: wf_osds_def)
  then show ?thesis using n(2,3) nth loc pos by (intro exI [of _ loc] exI [of _ n]) auto
qed

section \<open>The calculation of a target\<close>

text \<open>What the steps of \<open>calc_target\<close> keep: the memory of CRUSH and the shape of the target.\<close>

lemma choose_osd_Ok:
  assumes ok: "maps_ok rank R osdc" and s: "wf_osds acting" and live: "live_entries (osdc_osdmap osdc) pi acting"
  shows "\<exists>osd used. choose_osd osdc rnd pi acting t = Ok (t\<lparr>t_osd := osd, t_used_replica := used\<rparr>) \<and>
     (osd = os_primary acting \<and> \<not> used \<or> osd_up (osdc_osdmap osdc) osd \<and> osd \<in> set (osds_of acting))"
proof (cases "t_flags t AND (CEPH_OSD_FLAG_BALANCE_READS OR CEPH_OSD_FLAG_LOCALIZE_READS) \<noteq> 0 \<and>
    t_flags t AND CEPH_OSD_FLAG_WRITE = 0 \<and> pi_type pi = CEPH_POOL_TYPE_REP \<and> os_size acting > 1")
  case False
  then have "choose_osd osdc rnd pi acting t = Ok (t\<lparr>t_osd := os_primary acting, t_used_replica := False\<rparr>)"
    unfolding choose_osd_def by (rule if_not_P)
  then show ?thesis by blast
next
  case True
  have up: "osd_up (osdc_osdmap osdc) osd" if "osd \<in> set (osds_of acting)" for osd
    using live True that by (auto simp: live_entries_def replicated_def)
  have "\<forall>osd\<in>set (osds_of acting). 0 \<le> osd" using up osd_up_nonneg by blast
  then obtain n where n: "pick_closest_replica osdc acting = Ok n" "n < os_size acting"
    using pick_closest_replica_Ok [OF ok s] True by auto
  let ?pick = "if t_flags t AND CEPH_OSD_FLAG_BALANCE_READS \<noteq> 0 then pick_random_replica rnd acting else pick_closest_replica osdc acting"
  have "\<exists>pos. ?pick = Ok pos \<and> pos < os_size acting"
    using n True by (auto simp: pick_random_replica_def)
  then obtain pos where pos: "?pick = Ok pos" "pos < os_size acting" by blast
  have len: "pos < length (os_osds acting)" using pos(2) s by (simp add: wf_osds_def)
  have eq: "choose_osd osdc rnd pi acting t =
      bind_outcome ?pick (\<lambda>pos. bind_outcome (aref (os_osds acting) pos) (\<lambda>osd. Ok (t\<lparr>t_osd := osd, t_used_replica := (pos > 0)\<rparr>)))"
    unfolding choose_osd_def by (rule if_P [OF True])
  have "choose_osd osdc rnd pi acting t = Ok (t\<lparr>t_osd := os_osds acting ! pos, t_used_replica := (pos > 0)\<rparr>)"
    unfolding eq pos(1) using len by simp
  moreover have "os_osds acting ! pos \<in> set (osds_of acting)"
    using pos(2) len by (auto simp: osds_of_def in_set_conv_nth)
  ultimately show ?thesis using up by blast
qed

text \<open>The pools of a map, and the groups that an object may be in.\<close>

lemma maps_okD:
  assumes "maps_ok rank R osdc"
  shows "wf_placement rank R (osdc_osdmap osdc)" "memory_ok R (osdc_osdmap osdc) (osdc_crush_memory osdc)"
    and "pg_pools (osdc_osdmap osdc) pool = Some pi \<Longrightarrow> pool_ok pi" "mappings_fit (osdc_osdmap osdc) pgid"
    and "names_ok (osdmap_crush (osdc_osdmap osdc))" "wf_osds (osdc_stack osdc)" "2 ^ 30 \<le> osdc_fuel osdc" "R + 1 < osdc_fuel osdc"
  using assms by (simp_all add: maps_ok_def)

lemma split_Ok:
  assumes "0 < unat old" "unat old \<le> 2 ^ 30" "unat new \<le> 2 ^ 30" "unat new \<le> fuel" and seed: "pg_seed pgid = ceph_stable_mod x old (mask (calc_bits_of (old - 1)))"
  shows "\<exists>split. ceph_pg_is_split fuel pgid old new = Ok split"
proof -
  have old: "old \<noteq> 0" "unat old < 2 ^ 31" using assms(1,2) by (auto simp: unat_gt_0)
  have "pg_seed pgid < old" using stable_mod_moves(1) [OF old old order.refl, of x] seed by simp
  from pg_is_split_Ok [OF old(1) this assms(2-4)] show ?thesis by blast
qed

lemma new_interval_Ok:
  assumes t: "target_ok t" and pi: "pool_ok pi" and fuel: "2 ^ 30 \<le> fuel"
    and seed: "pg_seed pgid = ceph_stable_mod x (t_pg_num t) (t_pg_num_mask t)"
  shows "\<exists>new. ceph_is_new_interval fuel (t_acting t) acting (t_up t) up (t_size t) (uint (pi_size pi)) (t_min_size t) (uint (pi_min_size pi))
     (t_pg_num t) (pi_pg_num pi) sb sb' rd rd' pgid = Ok new"
proof (cases "t_pg_num t = 0")
  case True
  then have "t_size t \<noteq> uint (pi_size pi)" using t pi by (auto simp: target_ok_def pool_ok_def uint_0_iff)
  then show ?thesis by (intro exI [of _ True]) (simp add: ceph_is_new_interval_def)
next
  case False
  then have "0 < unat (t_pg_num t)" "unat (t_pg_num t) \<le> 2 ^ 30" "t_pg_num_mask t = mask (calc_bits_of (t_pg_num t - 1))"
    using t by (simp_all add: target_ok_def unat_gt_0)
  moreover have "unat (pi_pg_num pi) \<le> 2 ^ 30" using pi by (simp add: pool_ok_def)
  ultimately obtain split where "ceph_pg_is_split fuel pgid (t_pg_num t) (pi_pg_num pi) = Ok split"
    using split_Ok [of "t_pg_num t" "pi_pg_num pi" fuel pgid x] seed fuel by auto
  then show ?thesis by (auto simp: ceph_is_new_interval_def)
qed

lemma primary_shard_Ok:
  assumes ok: "maps_ok rank R osdc" and cm: "memory_ok R (osdc_osdmap osdc) cm" and pi: "pool_ok pi"
  shows "\<exists>cm' shard. ceph_pg_to_primary_shard (osdc_osdmap osdc) pi cm pgid (osdc_stack osdc) (osdc_stack osdc) = Ok (cm', shard) \<and>
     memory_ok R (osdc_osdmap osdc) cm'"
proof -
  have ty: "pool_type_ok pi" "pi_size pi \<noteq> 0" using pi by (simp_all add: pool_ok_def)
  note d = maps_okD [OF ok]
  obtain cm' up acting where "ceph_pg_to_up_acting_osds (osdc_osdmap osdc) pi cm (raw_pg_to_pg pi pgid) (osdc_stack osdc) (osdc_stack osdc) =
      Ok (cm', up, acting)" "memory_ok R (osdc_osdmap osdc) cm'"
    using up_acting_Ok [OF d(1) cm ty d(4) d(6) d(6), of "raw_pg_to_pg pi pgid"] by blast
  then show ?thesis using cm by (simp add: ceph_pg_to_primary_shard_def can_shift_Ok [OF ty(1)] Let_def)
qed

lemma retarget_Ok:
  assumes ok: "maps_ok rank R osdc" and cm: "memory_ok R (osdc_osdmap osdc) cm" and pi: "pool_ok pi"
    and s: "wf_osds acting" and live: "live_entries (osdc_osdmap osdc) pi acting"
  shows "\<exists>t' cm'. retarget osdc rnd pi pgid up acting cm t = Ok (t', cm') \<and> memory_ok R (osdc_osdmap osdc) cm' \<and> target_ok t' \<and>
     t_pgid t' = pgid \<and> t_acting t' = ceph_osds_copy (t_acting t) acting \<and> t_target_oid t' = t_target_oid t \<and> t_paused t' = t_paused t \<and> t_epoch t' = t_epoch t \<and> t_target_oloc t' = t_target_oloc t \<and>
     t_base_oloc t' = t_base_oloc t \<and> t_flags t' = t_flags t \<and> t_base_oid t' = t_base_oid t \<and>
     (t_osd t' = os_primary acting \<or> osd_up (osdc_osdmap osdc) (t_osd t') \<and> t_osd t' \<in> set (osds_of acting))"
proof -
  obtain cm' shard where sh: "ceph_pg_to_primary_shard (osdc_osdmap osdc) pi cm pgid (osdc_stack osdc) (osdc_stack osdc) = Ok (cm', shard)"
    "memory_ok R (osdc_osdmap osdc) cm'" using primary_shard_Ok [OF ok cm pi] by blast
  define t1 where "t1 = t\<lparr>t_pgid := pgid, t_spgid := (case shard of None \<Rightarrow> t_spgid t | Some spgid \<Rightarrow> spgid),
            t_acting := ceph_osds_copy (t_acting t) acting, t_up := ceph_osds_copy (t_up t) up,
            t_size := uint (pi_size pi), t_min_size := uint (pi_min_size pi), t_pg_num := pi_pg_num pi, t_pg_num_mask := pi_pg_num_mask pi,
            t_sort_bitwise := ceph_osdmap_flag osdc CEPH_OSDMAP_SORTBITWISE,
            t_recovery_deletes := ceph_osdmap_flag osdc CEPH_OSDMAP_RECOVERY_DELETES\<rparr>"
  obtain osd used where c: "choose_osd osdc rnd pi acting t1 = Ok (t1\<lparr>t_osd := osd, t_used_replica := used\<rparr>)"
    "osd = os_primary acting \<and> \<not> used \<or> osd_up (osdc_osdmap osdc) osd \<and> osd \<in> set (osds_of acting)"
    using choose_osd_Ok [OF ok s live] by blast
  let ?t = "t1\<lparr>t_osd := osd, t_used_replica := used\<rparr>"
  have "retarget osdc rnd pi pgid up acting cm t = Ok (?t, cm')"
    unfolding retarget_def sh(1) bind_outcome.simps case_prod_conv t1_def [symmetric] c(1) by simp
  moreover have "target_ok ?t" using pi by (simp add: target_ok_def t1_def pool_ok_def wf_pg_nums_def)
  ultimately show ?thesis using sh(2) c(2) by (intro exI [of _ ?t] exI [of _ cm']) (auto simp: t1_def)
qed

text \<open>The OSD of a target: none, one that is up, or the one of a temporary primary, which is at least in the range of the map.\<close>

definition osd_usable :: "'a osdc_maps_scheme \<Rightarrow> int \<Rightarrow> bool" where
  "osd_usable osdc osd \<longleftrightarrow> osd = CEPH_HOMELESS_OSD \<or> osd_up (osdc_osdmap osdc) osd \<or> (\<exists>pgid. primary_temp (osdc_osdmap osdc) pgid = Some osd)"

lemma osd_usable_range:
  assumes "maps_ok rank R osdc" and "osd_usable osdc osd" and "osd \<noteq> CEPH_HOMELESS_OSD"
  shows "0 \<le> osd \<and> nat osd < length (osd_addr (osdc_osdmap osdc))"
proof -
  have "length (osd_addr (osdc_osdmap osdc)) = unat (max_osd (osdc_osdmap osdc))"
    using maps_okD(1) [OF assms(1)] by (simp add: wf_placement_def wf_osdmap_def)
  moreover have r: "0 \<le> osd \<and> osd < uint (max_osd (osdc_osdmap osdc))"
    using assms(2)
  proof -
    consider "osd_up (osdc_osdmap osdc) osd" | pgid where "primary_temp (osdc_osdmap osdc) pgid = Some osd"
      using assms(2,3) by (auto simp: osd_usable_def)
    then show ?thesis by cases (use assms(1) in \<open>auto simp: maps_ok_def osd_up_def osd_exists_def\<close>)
  qed
  moreover have "nat osd < unat (max_osd (osdc_osdmap osdc))" unfolding unat_eq_nat_uint using r by (intro nat_mono_iff [THEN iffD2]) simp_all
  ultimately show ?thesis by simp
qed

text \<open>What a calculation leaves alone.\<close>

definition same_request :: "ceph_osd_request_target \<Rightarrow> ceph_osd_request_target \<Rightarrow> bool" where
  "same_request t t' \<longleftrightarrow> t_base_oid t' = t_base_oid t \<and> t_base_oloc t' = t_base_oloc t \<and> t_flags t' = t_flags t"

lemma up_acting_usable:
  assumes ok: "maps_ok rank R osdc" and pi: "pool_ok pi"
  shows "\<exists>cm' up acting. ceph_pg_to_up_acting_osds (osdc_osdmap osdc) pi (osdc_crush_memory osdc) pgid (osdc_stack osdc) (osdc_stack osdc) =
      Ok (cm', up, acting) \<and> memory_ok R (osdc_osdmap osdc) cm' \<and> wf_osds acting \<and> live_entries (osdc_osdmap osdc) pi acting \<and>
      osd_usable osdc (os_primary acting)"
proof -
  have ty: "pool_type_ok pi" "pi_size pi \<noteq> 0" using pi by (simp_all add: pool_ok_def)
  note d = maps_okD [OF ok]
  let ?pg = "raw_pg_to_pg pi pgid"
  obtain cm' up acting where r: "ceph_pg_to_up_acting_osds (osdc_osdmap osdc) pi (osdc_crush_memory osdc) pgid (osdc_stack osdc) (osdc_stack osdc) =
      Ok (cm', up, acting)" "memory_ok R (osdc_osdmap osdc) cm'" "wf_osds acting" "live_entries (osdc_osdmap osdc) pi acting"
    and pr: "case primary_temp (osdc_osdmap osdc) ?pg of None \<Rightarrow> live_primary (osdc_osdmap osdc) acting \<and> osds_valid acting
      | Some osd \<Rightarrow> osd \<noteq> - 1 \<longrightarrow> os_primary acting = osd"
    using up_acting_Ok [OF d(1) d(2) ty d(4) d(6) d(6), of pgid] by (elim exE conjE) (rule that)
  have "osd \<noteq> - 1" if "primary_temp (osdc_osdmap osdc) ?pg = Some osd" for osd using ok that by (force simp: maps_ok_def)
  then have "osd_usable osdc (os_primary acting)"
    using pr by (auto simp: osd_usable_def live_primary_def split: option.splits)
  then show ?thesis using r by blast
qed

text \<open>
  A target is current: its group is the one of its object under the map, and it was calculated for an acting set with the same primary.
\<close>

definition on_target :: "'a osdc_maps_scheme \<Rightarrow> ceph_osd_request_target \<Rightarrow> bool" where
  "on_target osdc t \<longleftrightarrow> (\<exists>pi cm up acting. pg_pools (osdc_osdmap osdc) (oloc_pool (t_target_oloc t)) = Some pi \<and>
     t_pgid t = locator_to_pg_of pi (t_target_oid t) (oloc_pool (t_target_oloc t)) (oloc_pool_ns (t_target_oloc t)) \<and>
     ceph_pg_to_up_acting_osds (osdc_osdmap osdc) pi (osdc_crush_memory osdc) (t_pgid t) (osdc_stack osdc) (osdc_stack osdc) = Ok (cm, up, acting) \<and>
     \<not> primary_changed (t_acting t) acting)"

lemma ceph_pg_compare_0: "ceph_pg_compare a b = 0 \<longleftrightarrow> a = b"
  by (cases a; cases b) (auto simp: ceph_pg_compare_def)

lemma primary_changed_copy: "wf_osds acting \<Longrightarrow> \<not> primary_changed (ceph_osds_copy dest acting) acting"
  by (simp add: primary_changed_def ceph_osds_copy_def calc_pg_rank_def osds_of_def wf_osds_def)

definition target_step :: "'a osdc_maps_scheme \<Rightarrow> nat \<Rightarrow> ceph_osd_request_target \<Rightarrow> calc_target_result \<times> ceph_osd_request_target \<times> crush_memory \<Rightarrow> bool" where
  "target_step osdc R t r \<longleftrightarrow> (case r of (res, t', cm') \<Rightarrow>
     memory_ok R (osdc_osdmap osdc) cm' \<and> target_ok t' \<and> same_request t t' \<and> t_epoch t' = osdmap_epoch (osdc_osdmap osdc) \<and>
     (t_osd t' = t_osd t \<or> osd_usable osdc (t_osd t')) \<and> (t_paused t' \<longrightarrow> t_paused t) \<and>
     (res \<noteq> CALC_TARGET_POOL_DNE \<longrightarrow> on_target osdc t') \<and>
     (case res of
        CALC_TARGET_POOL_DNE \<Rightarrow> t_osd t' = CEPH_HOMELESS_OSD
      | CALC_TARGET_NO_ACTION \<Rightarrow> t_osd t' = t_osd t \<and> t_pgid t' = t_pgid t \<and> t_spgid t' = t_spgid t \<and> t_paused t' = t_paused t
      | CALC_TARGET_NEED_RESEND \<Rightarrow> True))"

lemma calc_target_in_pool_Ok:
  assumes ok: "maps_ok rank R osdc" and t: "target_ok t" and pi: "pool_ok pi" and ep: "t_epoch t = osdmap_epoch (osdc_osdmap osdc)"
    and pool: "pg_pools (osdc_osdmap osdc) (oloc_pool (t_target_oloc t)) = Some pi"
  shows "\<exists>r. calc_target_in_pool osdc rnd any_change force pi t = Ok r \<and> target_step osdc R t r \<and>
     t_target_oloc (fst (snd r)) = t_target_oloc t \<and> fst r \<noteq> CALC_TARGET_POOL_DNE"
proof -
  define pgid where "pgid = locator_to_pg_of pi (t_target_oid t) (oloc_pool (t_target_oloc t)) (oloc_pool_ns (t_target_oloc t))"
  define last where "last = \<lparr>pg_pool = pg_pool pgid, pg_seed = ceph_stable_mod (pg_seed pgid) (t_pg_num t) (t_pg_num_mask t)\<rparr>"
  obtain cm up acting where ua: "ceph_pg_to_up_acting_osds (osdc_osdmap osdc) pi (osdc_crush_memory osdc) pgid (osdc_stack osdc) (osdc_stack osdc) =
      Ok (cm, up, acting)" "memory_ok R (osdc_osdmap osdc) cm" "wf_osds acting" "live_entries (osdc_osdmap osdc) pi acting"
      "osd_usable osdc (os_primary acting)"
    using up_acting_usable [OF ok pi] by blast
  define ni where "ni = (if any_change then
           ceph_is_new_interval (osdc_fuel osdc) (t_acting t) acting (t_up t) up (t_size t) (uint (pi_size pi))
             (t_min_size t) (uint (pi_min_size pi)) (t_pg_num t) (pi_pg_num pi) (t_sort_bitwise t) (ceph_osdmap_flag osdc CEPH_OSDMAP_SORTBITWISE)
             (t_recovery_deletes t) (ceph_osdmap_flag osdc CEPH_OSDMAP_RECOVERY_DELETES) last
         else Ok False)"
  have seed: "pg_seed last = ceph_stable_mod (pg_seed pgid) (t_pg_num t) (t_pg_num_mask t)" by (simp add: last_def)
  have "\<exists>new. ni = Ok new"
    using new_interval_Ok [OF t pi maps_okD(7) [OF ok] seed] unfolding ni_def by (cases any_change) (simp_all only: if_True if_False, blast)
  then obtain new where new: "ni = Ok new" by blast
  define unp where "unp = (t_paused t \<and> \<not> target_should_be_paused osdc t pi)"
  define t1 where "t1 = (if unp then t\<lparr>t_paused := False\<rparr> else t)"
  define legacy where "legacy = (ceph_pg_compare (t_pgid t1) pgid \<noteq> 0 \<or> ceph_osds_changed (t_acting t1) acting (t_used_replica t1 \<or> any_change))"
  define sp where "sp = (if t_pg_num t1 \<noteq> 0 then ceph_pg_is_split (osdc_fuel osdc) last (t_pg_num t1) (pi_pg_num pi) else Ok False)"
  have pn: "t_pg_num t1 = t_pg_num t" by (simp add: t1_def)
  have "\<exists>split. sp = Ok split"
  proof (cases "t_pg_num t = 0")
    case False
    then have "0 < unat (t_pg_num t)" "unat (t_pg_num t) \<le> 2 ^ 30" "t_pg_num_mask t = mask (calc_bits_of (t_pg_num t - 1))"
      using t by (simp_all add: target_ok_def unat_gt_0)
    moreover have "unat (pi_pg_num pi) \<le> 2 ^ 30" using pi by (simp add: pool_ok_def)
    ultimately show ?thesis
      using split_Ok [of "t_pg_num t" "pi_pg_num pi" "osdc_fuel osdc" last "pg_seed pgid"] maps_okD(7) [OF ok] False pn
      by (auto simp: sp_def last_def)
  qed (auto simp: sp_def pn)
  then obtain split where split: "sp = Ok split" by blast
  have t1: "target_ok t1" "same_request t t1" "t_epoch t1 = t_epoch t" "t_osd t1 = t_osd t" "t_paused t1 \<longrightarrow> t_paused t"
    "t_target_oloc t1 = t_target_oloc t" "\<not> unp \<longrightarrow> t1 = t" "t_target_oid t1 = t_target_oid t"
    using t by (auto simp: t1_def target_ok_def same_request_def split: if_splits)
  let ?go = "legacy \<or> force \<or> new \<or> split"
  have eq: "calc_target_in_pool osdc rnd any_change force pi t =
     bind_outcome (if ?go then retarget osdc rnd pi pgid up acting cm t1 else Ok (t1, cm)) (\<lambda>(t, cm).
       Ok (if unp \<or> ?go then CALC_TARGET_NEED_RESEND else CALC_TARGET_NO_ACTION, t, cm))"
    unfolding calc_target_in_pool_def Let_def pgid_def [symmetric] last_def [symmetric] ua(1) bind_outcome.simps case_prod_conv
      ni_def [symmetric] new unp_def [symmetric] t1_def [symmetric] legacy_def [symmetric] sp_def [symmetric] split
    unfolding disj_assoc by (rule refl)
  show ?thesis
  proof (cases ?go)
    case True
    obtain t2 cm2 where r: "retarget osdc rnd pi pgid up acting cm t1 = Ok (t2, cm2)" "memory_ok R (osdc_osdmap osdc) cm2" "target_ok t2"
      "t_paused t2 = t_paused t1" "t_epoch t2 = t_epoch t1" "t_target_oloc t2 = t_target_oloc t1" "t_base_oloc t2 = t_base_oloc t1"
      "t_flags t2 = t_flags t1" "t_osd t2 = os_primary acting \<or> osd_up (osdc_osdmap osdc) (t_osd t2)" "t_base_oid t2 = t_base_oid t1"
      "t_pgid t2 = pgid" "t_acting t2 = ceph_osds_copy (t_acting t1) acting" "t_target_oid t2 = t_target_oid t1"
      using retarget_Ok [OF ok ua(2) pi ua(3,4), of rnd pgid up t1] by (elim exE conjE) (erule that, auto)
    have us: "osd_usable osdc (t_osd t2)" using r(9) ua(5) by (auto simp: osd_usable_def)
    have "on_target osdc t2"
      unfolding on_target_def r(6,11,12,13) t1(6,8) using pool ua(1) primary_changed_copy [OF ua(3)] pgid_def by blast
    then have "target_step osdc R t (CALC_TARGET_NEED_RESEND, t2, cm2)"
      using us r t1 ep by (simp add: target_step_def same_request_def)
    then show ?thesis using eq r(1,6) t1(6) True by simp
  next
    case False
    have res: "calc_target_in_pool osdc rnd any_change force pi t = Ok (if unp then CALC_TARGET_NEED_RESEND else CALC_TARGET_NO_ACTION, t1, cm)"
      unfolding eq using False by simp
    have "on_target osdc t1"
    proof -
      have "t_pgid t1 = pgid" "\<not> primary_changed (t_acting t1) acting"
        using False by (auto simp: legacy_def ceph_pg_compare_0 ceph_osds_changed_def split: if_splits)
      then show ?thesis unfolding on_target_def t1(6,8) using pool ua(1) pgid_def by metis
    qed
    then have "target_step osdc R t (if unp then CALC_TARGET_NEED_RESEND else CALC_TARGET_NO_ACTION, t1, cm)"
      using t1 ep ua(2) by (auto simp: target_step_def)
    then show ?thesis using t1(6) res by simp
  qed
qed

lemma target_ok_osd [simp]: "target_ok (t\<lparr>t_osd := osd\<rparr>) = target_ok t"
  by (simp add: target_ok_def)

lemma calc_target_Ok:
  assumes ok: "maps_ok rank R osdc" and t: "target_ok t"
  shows "\<exists>r. calc_target osdc rnd t any_change = Ok r \<and> target_step osdc R t r \<and>
     (t_flags t AND CEPH_OSD_FLAG_IGNORE_OVERLAY \<noteq> 0 \<and> pg_pools (osdc_osdmap osdc) (oloc_pool (t_base_oloc t)) \<noteq> None \<longrightarrow>
        fst r \<noteq> CALC_TARGET_POOL_DNE \<and> t_target_oloc (fst (snd r)) = t_base_oloc t)"
proof (cases "pg_pools (osdc_osdmap osdc) (oloc_pool (t_base_oloc t))")
  case None
  then show ?thesis
    using t maps_okD(2) [OF ok]
    by (auto simp: calc_target_def ceph_pg_pool_by_id_def Let_def target_step_def target_ok_def same_request_def osd_usable_def split: if_splits)
next
  case (Some pi)
  have pools: "pool_ok pi'" if "pg_pools (osdc_osdmap osdc) n = Some pi'" for n pi' using that by (rule maps_okD(3) [OF ok])
  define t0 where "t0 = t\<lparr>t_epoch := osdmap_epoch (osdc_osdmap osdc)\<rparr>"
  let ?now = "osdmap_epoch (osdc_osdmap osdc) = pi_last_force_request_resend pi"
  let ?old = "t_last_force_resend t0 < pi_last_force_request_resend pi"
  define force where "force = (?now \<and> (?old \<or> t_last_force_resend t0 = 0))"
  define t1 where "t1 = (if ?now \<and> ?old then t0\<lparr>t_last_force_resend := pi_last_force_request_resend pi\<rparr> else t0)"
  define t2 where "t2 = t1\<lparr>t_target_oid := t_base_oid t1, t_target_oloc := t_base_oloc t1\<rparr>"
  define pool where "pool = (if t_flags t AND CEPH_OSD_FLAG_WRITE \<noteq> 0 \<and> pi_write_tier pi \<ge> 0 then pi_write_tier pi
    else if t_flags t AND CEPH_OSD_FLAG_READ \<noteq> 0 \<and> pi_read_tier pi \<ge> 0 then pi_read_tier pi else oloc_pool (t_target_oloc t2))"
  define t3 where "t3 = t2\<lparr>t_target_oloc := (t_target_oloc t2)\<lparr>oloc_pool := pool\<rparr>\<rparr>"
  have lk: "ceph_pg_pool_by_id (osdc_osdmap osdc) (oloc_pool (t_base_oloc t0)) = Some pi"
    using Some by (simp add: ceph_pg_pool_by_id_def t0_def)
  have fl: "t_flags t2 = t_flags t" by (simp add: t0_def t1_def t2_def)
  have eq: "calc_target osdc rnd t any_change =
     (if t_flags t AND CEPH_OSD_FLAG_IGNORE_OVERLAY = 0 then
        case ceph_pg_pool_by_id (osdc_osdmap osdc) pool of
          None \<Rightarrow> Ok (CALC_TARGET_POOL_DNE, t3\<lparr>t_osd := CEPH_HOMELESS_OSD\<rparr>, osdc_crush_memory osdc)
        | Some pi \<Rightarrow> calc_target_in_pool osdc rnd any_change force pi t3
      else calc_target_in_pool osdc rnd any_change force pi t2)"
    unfolding calc_target_def Let_def t0_def [symmetric] lk option.case force_def [symmetric] t1_def [symmetric] t2_def [symmetric] fl
      pool_def [symmetric] t3_def [symmetric] by (rule refl)
  have oloc2: "t_target_oloc t2 = t_base_oloc t" by (simp add: t2_def t1_def t0_def)
  have oloc3: "oloc_pool (t_target_oloc t3) = pool" by (simp add: t3_def)
  have same: "target_ok x \<and> same_request t x \<and> t_epoch x = osdmap_epoch (osdc_osdmap osdc) \<and> t_osd x = t_osd t \<and>
      t_pgid x = t_pgid t \<and> t_spgid x = t_spgid t \<and> t_paused x = t_paused t" if x: "x \<in> {t2, t3}" for x
  proof -
    have sel: "t_pg_num t1 = t_pg_num t" "t_pg_num_mask t1 = t_pg_num_mask t" "t_size t1 = t_size t" "t_base_oid t1 = t_base_oid t"
      "t_base_oloc t1 = t_base_oloc t" "t_flags t1 = t_flags t" "t_epoch t1 = osdmap_epoch (osdc_osdmap osdc)" "t_osd t1 = t_osd t"
      "t_pgid t1 = t_pgid t" "t_spgid t1 = t_spgid t" "t_paused t1 = t_paused t"
      by (simp_all add: t1_def t0_def)
    have "target_ok x \<longleftrightarrow> target_ok t" using x sel by (auto simp: target_ok_def t2_def t3_def)
    then show ?thesis using x t sel by (auto simp: same_request_def t2_def t3_def)
  qed
  have step: "target_step osdc R t r" if "x \<in> {t2, t3}" "target_step osdc R x r" for x r
    using that(2) same [OF that(1)] by (auto simp: target_step_def same_request_def split: prod.splits calc_target_result.splits)
  show ?thesis
  proof (cases "t_flags t AND CEPH_OSD_FLAG_IGNORE_OVERLAY = 0")
    case False
    then show ?thesis
      using calc_target_in_pool_Ok [OF ok _ pools [OF Some], of t2 rnd any_change force] same [of t2] step [of t2] eq oloc2 Some by auto
  next
    case True
    show ?thesis
    proof (cases "pg_pools (osdc_osdmap osdc) pool")
      case None
      have "target_step osdc R t (CALC_TARGET_POOL_DNE, t3\<lparr>t_osd := CEPH_HOMELESS_OSD\<rparr>, osdc_crush_memory osdc)"
        using same [of t3] maps_okD(2) [OF ok] by (simp add: target_step_def same_request_def osd_usable_def)
      then show ?thesis using eq True None by (simp add: ceph_pg_pool_by_id_def)
    next
      case (Some pi2)
      then show ?thesis
        using calc_target_in_pool_Ok [OF ok _ pools [OF Some], of t3 rnd any_change force] same [of t3] step [of t3] eq True Some oloc3
        by (auto simp: ceph_pg_pool_by_id_def)
    qed
  qed
qed

section \<open>A small client\<close>

definition sample_target :: "int \<Rightarrow> u32 \<Rightarrow> ceph_osd_request_target" where
  "sample_target pool flags =
     \<lparr>t_base_oid = [114, 98, 100], t_base_oloc = \<lparr>oloc_pool = pool, oloc_pool_ns = None\<rparr>,
      t_target_oid = [], t_target_oloc = \<lparr>oloc_pool = - 1, oloc_pool_ns = None\<rparr>,
      t_pgid = \<lparr>pg_pool = 0, pg_seed = 0\<rparr>, t_spgid = \<lparr>spg_pgid = \<lparr>pg_pool = 0, pg_seed = 0\<rparr>, spg_shard = 0\<rparr>,
      t_pg_num = 0, t_pg_num_mask = 0, t_acting = empty_osds, t_up = empty_osds, t_size = 0, t_min_size = 0,
      t_sort_bitwise = False, t_recovery_deletes = False, t_flags = flags, t_used_replica = False, t_paused = False,
      t_epoch = 0, t_last_force_resend = 0, t_osd = CEPH_HOMELESS_OSD\<rparr>"

definition sample_osdc :: osdc_maps where
  "sample_osdc =
     \<lparr>osdc_osdmap = sample_osdmap Map.empty, osdc_epoch_barrier = 0, osdc_crush_locs = [\<lparr>cl_type_name = ''host'', cl_name = ''b''\<rparr>],
      osdc_crush_memory = sample_memory, osdc_stack = empty_osds, osdc_fuel = 2 ^ 30\<rparr>"

lemma sample_names_ok: "names_ok sample_map"
proof -
  have "type_names sample_map (uint (bucket_type b)) \<noteq> None" if "bucket_of sample_map b" for b
  proof -
    have "b \<in> {sample_bucket (- 1) 2 [- 2, - 3], sample_bucket (- 2) 1 [0, 1], sample_bucket (- 3) 1 [2, 3]}"
      using that by (auto simp: bucket_of_def sample_map_def less_Suc_eq numeral_3_eq_3)
    then show ?thesis by (auto simp: sample_map_def sample_bucket_def)
  qed
  then show ?thesis by (simp add: names_ok_def)
qed

lemma sample_parents:
  "get_immediate_parent sample_map 0 = Ok (- 2, 1, \<lparr>cl_type_name = ''host'', cl_name = ''a''\<rparr>)"
  "get_immediate_parent sample_map 2 = Ok (- 3, 1, \<lparr>cl_type_name = ''host'', cl_name = ''b''\<rparr>)"
  "get_immediate_parent sample_map (- 2) = Ok (- 1, 2, \<lparr>cl_type_name = ''root'', cl_name = ''default''\<rparr>)"
  "get_immediate_parent sample_map (- 1) = Ok (0, 0, \<lparr>cl_type_name = [], cl_name = []\<rparr>)"
  by code_simp+

lemma sample_lookups:
  "lookup_crush_loc [\<lparr>cl_type_name = ''host'', cl_name = ''b''\<rparr>] \<lparr>cl_type_name = ''host'', cl_name = ''a''\<rparr> = False"
  "lookup_crush_loc [\<lparr>cl_type_name = ''host'', cl_name = ''b''\<rparr>] \<lparr>cl_type_name = ''host'', cl_name = ''b''\<rparr> = True"
  "lookup_crush_loc [\<lparr>cl_type_name = ''host'', cl_name = ''b''\<rparr>] \<lparr>cl_type_name = ''root'', cl_name = ''default''\<rparr> = False"
  by code_simp+

lemma sample_maps_ok: "maps_ok sample_rank 1 sample_osdc"
proof -
  have "pool_ok sample_pool"
    using sample_pool_pg_nums sample_osdmap_wf(4) by (simp add: pool_ok_def) (simp add: sample_pool_def)
  then have pools: "pool_ok pi" if "pg_pools (sample_osdmap Map.empty) n = Some pi" for n pi
    using that by (simp add: sample_osdmap_def split: if_splits)
  have "mappings_fit (sample_osdmap Map.empty) pgid" "primary_temp (sample_osdmap Map.empty) pgid = None"
    "osdmap_crush (sample_osdmap Map.empty) = sample_map" for pgid
    by (simp_all add: mappings_fit_def sample_osdmap_def)
  then show ?thesis
    using sample_osdmap_wf(2,3) [of Map.empty] sample_osdmap_wf(5) sample_names_ok pools by (auto simp: maps_ok_def sample_osdc_def)
qed

lemma sample_target_ok: "target_ok (sample_target pool flags)"
  by (simp add: target_ok_def sample_target_def)

section \<open>Properties\<close>



text \<open>
  C23: Among the replicas of an acting set, the closest one is chosen: the result is a position of the set, no replica is closer to the
  client (shares a bucket of a lower type with the location of the client) and no earlier one is as close.
\<close>

theorem pick_closest_replica_best:
  assumes "maps_ok rank R osdc" and "wf_osds acting" and "0 < os_size acting" and "\<forall>osd\<in>set (osds_of acting). 0 \<le> osd"
  shows "\<exists>loc n. (\<forall>osd\<in>set (osds_of acting).
        ceph_get_crush_locality (osdc_fuel osdc) (osdc_osdmap osdc) osd (osdc_crush_locs osdc) = Ok (loc osd)) \<and>
     pick_closest_replica osdc acting = Ok n \<and> n < os_size acting \<and>
     (\<forall>j<os_size acting. \<not> closer (loc (os_osds acting ! j)) (loc (os_osds acting ! n)) \<and>
        (j < n \<longrightarrow> closer (loc (os_osds acting ! n)) (loc (os_osds acting ! j))))"
  by (rule pick_closest_replica_Ok [OF assms])

definition sample_acting :: ceph_osds where
  "sample_acting = \<lparr>os_osds = [0, 2] @ replicate 30 0, os_size = 2, os_primary = 0\<rparr>"

theorem pick_closest_replica_best_witness:
  "pick_closest_replica sample_osdc sample_acting = Ok 1"
proof -
  have acting: "wf_osds sample_acting" "0 < os_size sample_acting" "\<forall>osd\<in>set (osds_of sample_acting). 0 \<le> osd"
    "osds_of sample_acting = [0, 2]" "os_size sample_acting = 2" "os_osds sample_acting ! 0 = 0" "os_osds sample_acting ! 1 = 2"
    by (simp_all add: sample_acting_def wf_osds_def osds_of_def)
  obtain loc n where r: "\<forall>osd\<in>set (osds_of sample_acting).
      ceph_get_crush_locality (osdc_fuel sample_osdc) (osdc_osdmap sample_osdc) osd (osdc_crush_locs sample_osdc) = Ok (loc osd)"
    "pick_closest_replica sample_osdc sample_acting = Ok n" "n < os_size sample_acting"
    "\<forall>j<os_size sample_acting. \<not> closer (loc (os_osds sample_acting ! j)) (loc (os_osds sample_acting ! n)) \<and>
       (j < n \<longrightarrow> closer (loc (os_osds sample_acting ! n)) (loc (os_osds sample_acting ! j)))"
    using pick_closest_replica_best [OF sample_maps_ok acting(1,2,3)] by blast
  have fuel: "osdc_fuel sample_osdc = Suc (Suc (Suc (2 ^ 30 - 3)))" by (simp add: sample_osdc_def)
  have osdc: "osdmap_crush (osdc_osdmap sample_osdc) = sample_map"
    "osdc_crush_locs sample_osdc = [\<lparr>cl_type_name = ''host'', cl_name = ''b''\<rparr>]" by (simp_all add: sample_osdc_def sample_osdmap_def)
  have l0: "ceph_get_crush_locality (Suc (Suc (Suc k))) (osdc_osdmap sample_osdc) 0 (osdc_crush_locs sample_osdc) = Ok (- 1)"
    and l2: "ceph_get_crush_locality (Suc (Suc (Suc k))) (osdc_osdmap sample_osdc) 2 (osdc_crush_locs sample_osdc) = Ok 1" for k
    by (simp_all add: osdc sample_parents sample_lookups)
  define g where "g = (\<lambda>osd. ceph_get_crush_locality (osdc_fuel sample_osdc) (osdc_osdmap sample_osdc) osd (osdc_crush_locs sample_osdc))"
  have "g 0 = Ok (- 1)" "g 2 = Ok 1" unfolding g_def fuel by (rule l0, rule l2)
  moreover have "g 0 = Ok (loc 0)" "g 2 = Ok (loc 2)" using r(1) unfolding acting(4) by (simp_all add: g_def)
  ultimately have loc: "loc 0 = - 1" "loc 2 = 1" by simp_all
  have "n \<noteq> 0"
  proof
    assume "n = 0"
    moreover have "1 < os_size sample_acting" by (simp add: acting(5))
    ultimately have "\<not> closer (loc 2) (loc 0)" using spec [OF r(4), of 1] acting(6,7) by simp
    then show False by (simp add: closer_def loc)
  qed
  then have "n = 1" using r(3) acting(5) by simp
  then show ?thesis using r(2) by simp
qed

text \<open>
  C34: A redirect does not take effect: an OSD answers with another pool for the object, the reply handler stores it in the target and
  submits the request again, but the calculation of the target starts from the base pool and overwrites it. The request goes to the
  placement group in the base pool again, whatever pool the redirect named.
\<close>

theorem calc_target_redirect_lost:
  assumes ok: "maps_ok rank R osdc" and t: "target_ok t" and pool: "pg_pools (osdc_osdmap osdc) (oloc_pool (t_base_oloc t)) = Some pi"
    and redir: "t' = t\<lparr>t_target_oloc := (t_target_oloc t)\<lparr>oloc_pool := redirect_pool\<rparr>,
      t_flags := t_flags t OR (CEPH_OSD_FLAG_REDIRECTED OR CEPH_OSD_FLAG_IGNORE_OVERLAY OR CEPH_OSD_FLAG_IGNORE_CACHE)\<rparr>"
  shows "\<exists>res t'' cm'. calc_target osdc rnd t' False = Ok (res, t'', cm') \<and> res \<noteq> CALC_TARGET_POOL_DNE \<and>
     t_target_oloc t'' = t_base_oloc t \<and>
     t_pgid t'' = locator_to_pg_of pi (t_target_oid t'') (oloc_pool (t_base_oloc t)) (oloc_pool_ns (t_base_oloc t))"
proof -
  have "bit (t_flags t' AND CEPH_OSD_FLAG_IGNORE_OVERLAY) 17" by (simp add: redir bit_simps)
  then have fl: "t_flags t' AND CEPH_OSD_FLAG_IGNORE_OVERLAY \<noteq> 0" by auto
  have ok': "target_ok t'" using t by (auto simp: redir target_ok_def split: if_splits)
  have base: "t_base_oloc t' = t_base_oloc t" by (simp add: redir)
  obtain r where r: "calc_target osdc rnd t' False = Ok r" "target_step osdc R t' r"
    "fst r \<noteq> CALC_TARGET_POOL_DNE" "t_target_oloc (fst (snd r)) = t_base_oloc t"
    using calc_target_Ok [OF ok ok', of rnd False] fl base pool by auto
  obtain res t'' cm' where e: "r = (res, t'', cm')" by (cases r)
  have res: "res \<noteq> CALC_TARGET_POOL_DNE" and oloc: "t_target_oloc t'' = t_base_oloc t" using r(3,4) e by simp_all
  have "on_target osdc t''" using r(2) e res by (simp add: target_step_def)
  then have "t_pgid t'' = locator_to_pg_of pi (t_target_oid t'') (oloc_pool (t_base_oloc t)) (oloc_pool_ns (t_base_oloc t))"
    using pool by (auto simp: on_target_def oloc)
  then show ?thesis using r(1) e res oloc by blast
qed

theorem calc_target_redirect_lost_witness:
  "\<exists>res t'' cm'. calc_target sample_osdc 5
       ((sample_target 1 CEPH_OSD_FLAG_READ)\<lparr>t_target_oloc := (t_target_oloc (sample_target 1 CEPH_OSD_FLAG_READ))\<lparr>oloc_pool := 9\<rparr>,
         t_flags := t_flags (sample_target 1 CEPH_OSD_FLAG_READ) OR
           (CEPH_OSD_FLAG_REDIRECTED OR CEPH_OSD_FLAG_IGNORE_OVERLAY OR CEPH_OSD_FLAG_IGNORE_CACHE)\<rparr>) False = Ok (res, t'', cm') \<and>
     t_target_oloc t'' = t_base_oloc (sample_target 1 CEPH_OSD_FLAG_READ)"
proof -
  have "pg_pools (osdc_osdmap sample_osdc) (oloc_pool (t_base_oloc (sample_target 1 CEPH_OSD_FLAG_READ))) = Some sample_pool"
    by (simp add: sample_osdc_def sample_osdmap_def sample_target_def)
  from calc_target_redirect_lost [OF sample_maps_ok sample_target_ok this refl, of 5 9] show ?thesis by blast
qed

text \<open>
  The name of a bucket's type is used without a check: if an OSD is in a bucket that has a name and a type without a name, looking for
  the closest replica dereferences a NULL pointer.
\<close>

theorem ceph_get_crush_locality_null_type:
  assumes map: "wf_map rank (osdmap_crush m)" and k: "k < nat (max_buckets (osdmap_crush m))"
    and b: "buckets (osdmap_crush m) ! k = Some b" "osd \<in> set (bucket_items b)"
    and name: "bucket_names (osdmap_crush m) (bucket_id b) = Some cn" "is_valid_crush_name cn"
    and type: "type_names (osdmap_crush m) (uint (bucket_type b)) = None"
    and first: "\<forall>j<k. \<forall>b'. buckets (osdmap_crush m) ! j = Some b' \<longrightarrow> osd \<notin> set (bucket_items b')"
  shows "ceph_get_crush_locality (Suc fuel) m osd locs = Oops Bad_Access"
proof -
  let ?c = "osdmap_crush m"
  have len: "nat (max_buckets ?c) \<le> length (buckets ?c)" using map by (simp add: wf_map_def)
  have "parent_loop ?c osd bs = Oops Bad_Access"
    if "bs = drop j (take (nat (max_buckets ?c)) (buckets ?c))" "j \<le> k" for j bs
    using that
  proof (induction "k - j" arbitrary: j bs)
    case 0
    then have j: "j = k" by simp
    have "bs = Some b # drop (Suc k) (take (nat (max_buckets ?c)) (buckets ?c))"
      using 0 k len b(1) j by (simp add: Cons_nth_drop_Suc [symmetric])
    moreover have "item_in (unat (bucket_size b)) (bucket_items b) osd = Ok True"
      using item_in_Ok [of "unat (bucket_size b)" "bucket_items b" osd] wf_slotD [OF map k b(1)] b(2) by (simp add: wf_slot_def)
    ultimately show ?case using name type by simp
  next
    case (Suc d)
    then have j: "j < k" by simp
    then have "j < nat (max_buckets ?c)" using k by simp
    then have bs: "bs = buckets ?c ! j # drop (Suc j) (take (nat (max_buckets ?c)) (buckets ?c))"
      using Suc.prems(1) len by (simp add: Cons_nth_drop_Suc [symmetric])
    have IH: "parent_loop ?c osd (drop (Suc j) (take (nat (max_buckets ?c)) (buckets ?c))) = Oops Bad_Access"
      using Suc.hyps(1) [of "Suc j"] Suc.hyps(2) j by simp
    show ?case
    proof (cases "buckets ?c ! j")
      case None
      then show ?thesis using bs IH by simp
    next
      case (Some b')
      have "osd \<notin> set (bucket_items b')" using first j Some by blast
      then have "item_in (unat (bucket_size b')) (bucket_items b') osd = Ok False"
        using item_in_Ok [of "unat (bucket_size b')" "bucket_items b'" osd] wf_slotD [OF map \<open>j < nat _\<close> Some] by (simp add: wf_slot_def)
      then show ?thesis using bs IH Some by (simp split: option.split)
    qed
  qed
  from this [of _ 0] have "parent_loop ?c osd (take (nat (max_buckets ?c)) (buckets ?c)) = Oops Bad_Access" by simp
  then show ?thesis using len by (simp add: get_immediate_parent_def)
qed

theorem ceph_get_crush_locality_null_type_witness:
  "ceph_get_crush_locality 10 ((sample_osdmap Map.empty)\<lparr>osdmap_crush := sample_map\<lparr>type_names := [2 \<mapsto> ''root'']\<rparr>\<rparr>) 1 [] = Oops Bad_Access"
proof -
  let ?m = "(sample_osdmap Map.empty)\<lparr>osdmap_crush := sample_map\<lparr>type_names := [2 \<mapsto> ''root'']\<rparr>\<rparr>"
  have "wf_map sample_rank sample_map" using sample_wf(1) by (simp add: wf_env_def sample_env_def)
  then have map: "wf_map sample_rank (osdmap_crush ?m)" by (simp add: wf_map_def wf_slot_def cong: option.case_cong)
  have "ceph_get_crush_locality (Suc 9) ?m 1 [] = Oops Bad_Access"
    by (rule ceph_get_crush_locality_null_type [OF map, of 1 "sample_bucket (- 2) 1 [0, 1]" 1 "''a''"])
       (auto simp: sample_map_def sample_bucket_def is_valid_crush_name_def is_valid_crush_char_def less_eq_char_def)
  then show ?thesis by simp
qed

end
