(* ===== verification/RbTree.thy ===== *)
theory RbTree
  imports Prelude "HOL-Library.Tree"
begin

text \<open>
  The search trees of \<open>include/linux/ceph/libceph.h\<close>: the functions that the macros \<open>DEFINE_RB_FUNCS\<close> and their variants define for a type, its key
  and a comparison. A tree is a binary tree of its nodes. The colours and the rotations are those of the kernel's \<open>lib/rbtree.c\<close>: what
  it makes of a tree is the parameter \<open>rb_ops\<close>, and \<open>rb_ok\<close> says that it keeps the order of the nodes.
\<close>

section \<open>Operations\<close>

record 'a rb_ops =
  rb_insert_color :: "'a tree \<Rightarrow> 'a tree"
  rb_unlink :: "'a \<Rightarrow> 'a tree \<Rightarrow> 'a tree"

definition RB_CMP3WAY :: "'a::linorder \<Rightarrow> 'a \<Rightarrow> int" where
  "RB_CMP3WAY a b = (if a < b then - 1 else if a > b then 1 else 0)"

text \<open>The descent of \<open>__insert_\<close> and \<open>rb_link_node\<close>; \<open>None\<close> if a node has the same key.\<close>

fun rb_link :: "('k \<Rightarrow> 'k \<Rightarrow> int) \<Rightarrow> ('a \<Rightarrow> 'k) \<Rightarrow> 'a \<Rightarrow> 'a tree \<Rightarrow> 'a tree option" where
  "rb_link cmpexp keyfld t \<langle>\<rangle> = Some \<langle>\<langle>\<rangle>, t, \<langle>\<rangle>\<rangle>"
| "rb_link cmpexp keyfld t \<langle>l, cur, r\<rangle> =
     (let cmp = cmpexp (keyfld t) (keyfld cur) in
      if cmp < 0 then map_option (\<lambda>l. \<langle>l, cur, r\<rangle>) (rb_link cmpexp keyfld t l)
      else if cmp > 0 then map_option (\<lambda>r. \<langle>l, cur, r\<rangle>) (rb_link cmpexp keyfld t r)
      else None)"

definition try_insert_rb :: "'a rb_ops \<Rightarrow> ('k \<Rightarrow> 'k \<Rightarrow> int) \<Rightarrow> ('a \<Rightarrow> 'k) \<Rightarrow> 'a tree \<Rightarrow> 'a \<Rightarrow> 'a tree option" where
  "try_insert_rb ops cmpexp keyfld root t = map_option (rb_insert_color ops) (rb_link cmpexp keyfld t root)"

definition insert_rb :: "'a rb_ops \<Rightarrow> ('k \<Rightarrow> 'k \<Rightarrow> int) \<Rightarrow> ('a \<Rightarrow> 'k) \<Rightarrow> 'a tree \<Rightarrow> 'a \<Rightarrow> 'a tree outcome" where
  "insert_rb ops cmpexp keyfld root t =
     (case try_insert_rb ops cmpexp keyfld root t of None \<Rightarrow> Oops Bug_On | Some root \<Rightarrow> Ok root)"

text \<open>A node that is not linked trips the \<open>BUG_ON\<close>.\<close>

definition erase_rb :: "'a rb_ops \<Rightarrow> 'a tree \<Rightarrow> 'a \<Rightarrow> 'a tree outcome" where
  "erase_rb ops root t = (if t \<in> set_tree root then Ok (rb_unlink ops t root) else Oops Bug_On)"

fun lookup_rb :: "('k \<Rightarrow> 'k \<Rightarrow> int) \<Rightarrow> ('a \<Rightarrow> 'k) \<Rightarrow> 'a tree \<Rightarrow> 'k \<Rightarrow> 'a option" where
  "lookup_rb cmpexp keyfld \<langle>\<rangle> k = None"
| "lookup_rb cmpexp keyfld \<langle>l, cur, r\<rangle> k =
     (let cmp = cmpexp k (keyfld cur) in
      if cmp < 0 then lookup_rb cmpexp keyfld l k
      else if cmp > 0 then lookup_rb cmpexp keyfld r k
      else Some cur)"

section \<open>The kernel's trees\<close>

definition rb_ok :: "'a rb_ops \<Rightarrow> bool" where
  "rb_ok ops \<longleftrightarrow> (\<forall>t. inorder (rb_insert_color ops t) = inorder t) \<and>
     (\<forall>x t. distinct (inorder t) \<longrightarrow> inorder (rb_unlink ops x t) = remove1 x (inorder t))"

lemma rb_ok_color: "rb_ok ops \<Longrightarrow> inorder (rb_insert_color ops t) = inorder t"
  by (simp add: rb_ok_def)

lemma rb_ok_unlink: "rb_ok ops \<Longrightarrow> distinct (inorder t) \<Longrightarrow> inorder (rb_unlink ops x t) = remove1 x (inorder t)"
  by (simp add: rb_ok_def)

text \<open>A tree without rotations: the right subtree of an unlinked node is hung below the last node of its left subtree.\<close>

fun join_plain :: "'a tree \<Rightarrow> 'a tree \<Rightarrow> 'a tree" where
  "join_plain \<langle>\<rangle> r = r"
| "join_plain \<langle>ll, x, lr\<rangle> r = \<langle>ll, x, join_plain lr r\<rangle>"

fun unlink_plain :: "'a \<Rightarrow> 'a tree \<Rightarrow> 'a tree" where
  "unlink_plain x \<langle>\<rangle> = \<langle>\<rangle>"
| "unlink_plain x \<langle>l, y, r\<rangle> =
     (if x = y then join_plain l r else if x \<in> set_tree l then \<langle>unlink_plain x l, y, r\<rangle> else \<langle>l, y, unlink_plain x r\<rangle>)"

definition plain_rb :: "'a rb_ops" where
  "plain_rb = \<lparr>rb_insert_color = (\<lambda>t. t), rb_unlink = unlink_plain\<rparr>"

lemma inorder_join_plain [simp]: "inorder (join_plain l r) = inorder l @ inorder r"
  by (induction l r rule: join_plain.induct) simp_all

lemma inorder_unlink_plain: "distinct (inorder t) \<Longrightarrow> inorder (unlink_plain x t) = remove1 x (inorder t)"
  by (induction x t rule: unlink_plain.induct) (auto simp: remove1_append remove1_idem)

lemma rb_ok_plain: "rb_ok plain_rb"
  by (simp add: rb_ok_def plain_rb_def inorder_unlink_plain)

section \<open>Sorted trees\<close>

lemma RB_CMP3WAY_simps [simp]:
  "RB_CMP3WAY x y = 0 \<longleftrightarrow> x = y" "RB_CMP3WAY x y < 0 \<longleftrightarrow> x < y" "RB_CMP3WAY x y > 0 \<longleftrightarrow> y < x"
  by (auto simp: RB_CMP3WAY_def)

definition rb_sorted :: "('a \<Rightarrow> 'r::linorder) \<Rightarrow> 'a tree \<Rightarrow> bool" where
  "rb_sorted rank t \<longleftrightarrow> sorted_wrt (<) (map rank (inorder t))"

lemma rb_sorted_Leaf [simp]: "rb_sorted rank \<langle>\<rangle>"
  by (simp add: rb_sorted_def)

lemma rb_sorted_Node [simp]:
  "rb_sorted rank \<langle>l, x, r\<rangle> \<longleftrightarrow>
     rb_sorted rank l \<and> rb_sorted rank r \<and> (\<forall>y\<in>set_tree l. rank y < rank x) \<and> (\<forall>y\<in>set_tree r. rank x < rank y)"
  by (auto simp: rb_sorted_def sorted_wrt_append) (meson less_trans)

lemma rb_sorted_distinct: "rb_sorted rank t \<Longrightarrow> distinct (inorder t)"
  unfolding rb_sorted_def
  by (metis (no_types, lifting) distinct_map strict_sorted_iff)

lemma rb_sorted_inj: "rb_sorted rank t \<Longrightarrow> x \<in> set_tree t \<Longrightarrow> y \<in> set_tree t \<Longrightarrow> rank x = rank y \<Longrightarrow> x = y"
  unfolding rb_sorted_def
  by (metis (no_types, lifting) distinct_map inj_onD set_inorder strict_sorted_iff)

lemma rb_sorted_inorder: "inorder t = inorder t' \<Longrightarrow> rb_sorted rank t = rb_sorted rank t'"
  by (simp add: rb_sorted_def)

lemma sorted_wrt_remove1: "sorted_wrt P (map f xs) \<Longrightarrow> sorted_wrt P (map f (remove1 x xs))"
  by (induction xs) (auto dest: notin_set_remove1)

text \<open>The order of the nodes is the order of a rank of their keys, and the comparison is the one of the ranks.\<close>

locale rb_order =
  fixes cmpexp :: "'k \<Rightarrow> 'k \<Rightarrow> int" and keyfld :: "'a \<Rightarrow> 'k" and krank :: "'k \<Rightarrow> 'r::linorder"
  assumes cmpexp_rank: "cmpexp k k' = RB_CMP3WAY (krank k) (krank k')"
begin

abbreviation rank :: "'a \<Rightarrow> 'r" where "rank x \<equiv> krank (keyfld x)"

lemma cmpexp_simps [simp]:
  "cmpexp k k' = 0 \<longleftrightarrow> krank k = krank k'" "cmpexp k k' < 0 \<longleftrightarrow> krank k < krank k'" "cmpexp k k' > 0 \<longleftrightarrow> krank k' < krank k"
  by (simp_all add: cmpexp_rank)

lemma rb_link_None: "rb_sorted rank t \<Longrightarrow> rb_link cmpexp keyfld x t = None \<longleftrightarrow> rank x \<in> rank ` set_tree t"
  by (induction t) (auto simp: Let_def not_less image_iff dest: less_asym)

lemma rb_link_Some:
  "rb_sorted rank t \<Longrightarrow> rb_link cmpexp keyfld x t = Some t' \<Longrightarrow>
     rb_sorted rank t' \<and> set_tree t' = insert x (set_tree t)"
proof (induction t arbitrary: t')
  case Leaf
  then show ?case by auto
next
  case (Node l y r)
  from Node.prems(2) consider
      (left) l' where "rank x < rank y" "rb_link cmpexp keyfld x l = Some l'" "t' = \<langle>l', y, r\<rangle>"
    | (right) r' where "rank y < rank x" "rb_link cmpexp keyfld x r = Some r'" "t' = \<langle>l, y, r'\<rangle>"
    by (auto simp: Let_def split: if_splits)
  then show ?case
  proof cases
    case left
    then show ?thesis using Node.IH(1) [OF _ left(2)] Node.prems(1) by auto
  next
    case right
    then show ?thesis using Node.IH(2) [OF _ right(2)] Node.prems(1) by auto
  qed
qed

lemma insert_Ok:
  assumes "rb_ok ops" and "rb_sorted rank t" and "rank x \<notin> rank ` set_tree t"
  shows "\<exists>t'. insert_rb ops cmpexp keyfld t x = Ok t' \<and> rb_sorted rank t' \<and> set_tree t' = insert x (set_tree t)"
proof -
  obtain t1 where t1: "rb_link cmpexp keyfld x t = Some t1" using assms(2,3) rb_link_None by blast
  let ?t = "rb_insert_color ops t1"
  have io: "inorder ?t = inorder t1" by (rule rb_ok_color [OF assms(1)])
  have "insert_rb ops cmpexp keyfld t x = Ok ?t" by (simp add: insert_rb_def try_insert_rb_def t1)
  moreover have "rb_sorted rank ?t" using rb_link_Some [OF assms(2) t1] rb_sorted_inorder [OF io] by blast
  moreover have "set_tree ?t = insert x (set_tree t)"
    using rb_link_Some [OF assms(2) t1] io by (metis set_inorder)
  ultimately show ?thesis by blast
qed

lemma insert_Bug:
  "rb_sorted rank t \<Longrightarrow> rank x \<in> rank ` set_tree t \<Longrightarrow> insert_rb ops cmpexp keyfld t x = Oops Bug_On"
  using rb_link_None [of t x] by (simp add: insert_rb_def try_insert_rb_def)

lemma lookup_None: "rb_sorted rank t \<Longrightarrow> lookup_rb cmpexp keyfld t k = None \<longleftrightarrow> krank k \<notin> rank ` set_tree t"
  by (induction t) (auto simp: Let_def not_less image_iff dest: less_asym)

lemma lookup_Some:
  assumes "rb_sorted rank t"
  shows "lookup_rb cmpexp keyfld t k = Some x \<longleftrightarrow> x \<in> set_tree t \<and> rank x = krank k"
proof
  assume "lookup_rb cmpexp keyfld t k = Some x"
  then show "x \<in> set_tree t \<and> rank x = krank k"
    by (induction t) (auto simp: Let_def split: if_splits)
next
  assume x: "x \<in> set_tree t \<and> rank x = krank k"
  then obtain y where y: "lookup_rb cmpexp keyfld t k = Some y" using lookup_None [OF assms, of k] by force
  then have "y \<in> set_tree t \<and> rank y = krank k"
    by (induction t) (auto simp: Let_def split: if_splits)
  then show "lookup_rb cmpexp keyfld t k = Some x" using x y rb_sorted_inj [OF assms] by metis
qed

end

lemma erase_Ok:
  assumes "rb_ok ops" and "rb_sorted rank t" and "x \<in> set_tree t"
  shows "\<exists>t'. erase_rb ops t x = Ok t' \<and> rb_sorted rank t' \<and> set_tree t' = set_tree t - {x}"
proof -
  have d: "distinct (inorder t)" by (rule rb_sorted_distinct [OF assms(2)])
  have io: "inorder (rb_unlink ops x t) = remove1 x (inorder t)" by (rule rb_ok_unlink [OF assms(1) d])
  have "set_tree (rb_unlink ops x t) = set_tree t - {x}" using io d by (metis set_inorder set_remove1_eq)
  moreover have "rb_sorted rank (rb_unlink ops x t)" using assms(2) io by (simp add: rb_sorted_def sorted_wrt_remove1)
  ultimately show ?thesis using assms(3) by (simp add: erase_rb_def)
qed

end
