(* ===== verification/OsdBackoff.thy ===== *)
theory OsdBackoff
  imports Codec OsdTarget RbTree "HOL-Library.List_Lexorder" "HOL-Library.Product_Lexorder"
begin

text \<open>
  Backoffs of the OSD client (\<open>libceph/osd_client.c\<close>): object ids with their order and their encoding, the intervals of objects for which an OSD has
  asked the client to hold its requests back, and the messages that install and remove them.
\<close>

unbundle bit_operations_syntax

section \<open>Object ids\<close>

text \<open>\<open>struct ceph_hobject_id\<close>; a name with its length is a list of bytes, and \<open>pool\<close> is signed.\<close>

record ceph_hobject_id =
  hoid_key :: "u8 list"
  hoid_oid :: "u8 list"
  hoid_snapid :: u64
  hoid_hash :: u32
  hoid_is_max :: u8
  hoid_nspace :: "u8 list"
  hoid_pool :: int
  hoid_hash_reverse_bits :: u32

abbreviation (input) CEPH_HEAD_SNAP :: u64 where "CEPH_HEAD_SNAP \<equiv> - 2"

definition ceph_hoid_build_hash_cache :: "ceph_hobject_id \<Rightarrow> ceph_hobject_id" where
  "ceph_hoid_build_hash_cache hoid = hoid\<lparr>hoid_hash_reverse_bits := word_reverse (hoid_hash hoid)\<rparr>"

definition hoid_get_bitwise_key :: "ceph_hobject_id \<Rightarrow> u64" where
  "hoid_get_bitwise_key hoid = (if hoid_is_max hoid \<noteq> 0 then 0x100000000 else ucast (hoid_hash_reverse_bits hoid))"

definition hoid_get_effective_key :: "ceph_hobject_id \<Rightarrow> u8 list" where
  "hoid_get_effective_key hoid = (if length (hoid_key hoid) \<noteq> 0 then hoid_key hoid else hoid_oid hoid)"

text \<open>\<open>memcmp\<close> on areas of the same size; only the sign of its result is specified.\<close>

fun memcmp :: "u8 list \<Rightarrow> u8 list \<Rightarrow> int" where
  "memcmp (x # xs) (y # ys) = (if x < y then - 1 else if x > y then 1 else memcmp xs ys)"
| "memcmp _ _ = 0"

definition compare_names :: "u8 list \<Rightarrow> u8 list \<Rightarrow> int" where
  "compare_names name1 name2 =
     (let n = min (length name1) (length name2);
          ret = memcmp (take n name1) (take n name2) in
      if ret \<noteq> 0 then ret
      else if length name1 < length name2 then - 1
      else if length name1 > length name2 then 1
      else ret)"

definition hoid_compare :: "ceph_hobject_id \<Rightarrow> ceph_hobject_id \<Rightarrow> int" where
  "hoid_compare lhs rhs =
     (if hoid_is_max lhs < hoid_is_max rhs then - 1
      else if hoid_is_max lhs > hoid_is_max rhs then 1
      else if hoid_pool lhs < hoid_pool rhs then - 1
      else if hoid_pool lhs > hoid_pool rhs then 1
      else if hoid_get_bitwise_key lhs < hoid_get_bitwise_key rhs then - 1
      else if hoid_get_bitwise_key lhs > hoid_get_bitwise_key rhs then 1
      else
        let ret = compare_names (hoid_nspace lhs) (hoid_nspace rhs) in
        if ret \<noteq> 0 then ret
        else
          let ret = compare_names (hoid_get_effective_key lhs) (hoid_get_effective_key rhs) in
          if ret \<noteq> 0 then ret
          else
            let ret = compare_names (hoid_oid lhs) (hoid_oid rhs) in
            if ret \<noteq> 0 then ret
            else if hoid_snapid lhs < hoid_snapid rhs then - 1
            else if hoid_snapid lhs > hoid_snapid rhs then 1
            else 0)"

section \<open>Encoding\<close>

definition decode_hoid :: "(nat \<Rightarrow> bool) \<Rightarrow> u8 list \<Rightarrow> nat \<Rightarrow> nat \<Rightarrow> (ceph_hobject_id \<times> nat) outcome" where
  "decode_hoid kmalloc_ok b p end =
     bind_outcome (ceph_start_decoding b p end 4) (\<lambda>(struct_v, struct_len, p).
     if struct_v < 4 then Err EINVAL
     else
       bind_outcome (ceph_extract_encoded_string kmalloc_ok b p end) (\<lambda>(key, p).
       bind_outcome (ceph_extract_encoded_string kmalloc_ok b p end) (\<lambda>(oid, p).
       bind_outcome (ceph_decode_64_safe b p end (Err EINVAL)) (\<lambda>(snapid, p).
       bind_outcome (ceph_decode_32_safe b p end (Err EINVAL)) (\<lambda>(hash, p).
       bind_outcome (ceph_decode_8_safe b p end (Err EINVAL)) (\<lambda>(is_max, p).
       bind_outcome (ceph_extract_encoded_string kmalloc_ok b p end) (\<lambda>(nspace, p).
       bind_outcome (ceph_decode_64_safe b p end (Err EINVAL)) (\<lambda>(pool, p).
         Ok (ceph_hoid_build_hash_cache
               \<lparr>hoid_key = key, hoid_oid = oid, hoid_snapid = snapid, hoid_hash = hash, hoid_is_max = is_max, hoid_nspace = nspace,
                hoid_pool = sint pool, hoid_hash_reverse_bits = 0\<rparr>, p)))))))))"

definition hoid_encoding_size :: "ceph_hobject_id \<Rightarrow> nat" where
  "hoid_encoding_size hoid =
     8 + 4 + 1 + 8 + 4 + length (hoid_key hoid) + 4 + length (hoid_oid hoid) + 4 + length (hoid_nspace hoid)"

definition encode_hoid :: "u8 list \<Rightarrow> nat \<Rightarrow> nat \<Rightarrow> ceph_hobject_id \<Rightarrow> (u8 list \<times> nat) outcome" where
  "encode_hoid b p end hoid =
     bind_outcome (ceph_start_encoding b p 4 3 (of_nat (hoid_encoding_size hoid))) (\<lambda>(b, p).
     bind_outcome (ceph_encode_string b p end (hoid_key hoid)) (\<lambda>(b, p).
     bind_outcome (ceph_encode_string b p end (hoid_oid hoid)) (\<lambda>(b, p).
     bind_outcome (ceph_encode_64 b p (hoid_snapid hoid)) (\<lambda>(b, p).
     bind_outcome (ceph_encode_32 b p (hoid_hash hoid)) (\<lambda>(b, p).
     bind_outcome (ceph_encode_8 b p (hoid_is_max hoid)) (\<lambda>(b, p).
     bind_outcome (ceph_encode_string b p end (hoid_nspace hoid)) (\<lambda>(b, p).
       ceph_encode_64 b p (word_of_int (hoid_pool hoid)))))))))"

definition ceph_decode_pgid :: "u8 list \<Rightarrow> nat \<Rightarrow> nat \<Rightarrow> (ceph_pg \<times> nat) outcome" where
  "ceph_decode_pgid b p end =
     (if \<not> ceph_has_room p end 17 then Err EINVAL
      else
        bind_outcome (ceph_decode_8 b p) (\<lambda>(version, p).
        if version > 1 then Err EINVAL
        else
          bind_outcome (ceph_decode_64 b p) (\<lambda>(pool, p).
          bind_outcome (ceph_decode_32 b p) (\<lambda>(seed, p). Ok (\<lparr>pg_pool = pool, pg_seed = seed\<rparr>, p + 4)))))"

definition encode_pgid :: "u8 list \<Rightarrow> nat \<Rightarrow> ceph_pg \<Rightarrow> (u8 list \<times> nat) outcome" where
  "encode_pgid b p pgid =
     bind_outcome (ceph_encode_8 b p 1) (\<lambda>(b, p).
     bind_outcome (ceph_encode_64 b p (pg_pool pgid)) (\<lambda>(b, p).
     bind_outcome (ceph_encode_32 b p (pg_seed pgid)) (\<lambda>(b, p).
       ceph_encode_32 b p (- 1))))"

definition encode_spgid :: "u8 list \<Rightarrow> nat \<Rightarrow> ceph_spg \<Rightarrow> (u8 list \<times> nat) outcome" where
  "encode_spgid b p spgid =
     bind_outcome (ceph_start_encoding b p 1 1 (17 + 1)) (\<lambda>(b, p).
     bind_outcome (encode_pgid b p (spg_pgid spgid)) (\<lambda>(b, p).
       ceph_encode_8 b p (word_of_int (spg_shard spgid))))"

section \<open>Messages\<close>

record ceph_osd_backoff =
  bo_spgid :: ceph_spg
  bo_id :: u64
  bo_begin :: ceph_hobject_id
  bo_end :: ceph_hobject_id

record MOSDBackoff =
  mb_spgid :: ceph_spg
  mb_map_epoch :: u32
  mb_op :: u8
  mb_id :: u64
  mb_begin :: ceph_hobject_id
  mb_end :: ceph_hobject_id

abbreviation (input) CEPH_OSD_BACKOFF_OP_BLOCK :: u8 where "CEPH_OSD_BACKOFF_OP_BLOCK \<equiv> 1"
abbreviation (input) CEPH_OSD_BACKOFF_OP_ACK_BLOCK :: u8 where "CEPH_OSD_BACKOFF_OP_ACK_BLOCK \<equiv> 2"
abbreviation (input) CEPH_OSD_BACKOFF_OP_UNBLOCK :: u8 where "CEPH_OSD_BACKOFF_OP_UNBLOCK \<equiv> 3"

text \<open>The allocations of the two ids are \<open>begin_ok\<close> and \<open>end_ok\<close>.\<close>

definition decode_MOSDBackoff :: "(nat \<Rightarrow> bool) \<Rightarrow> bool \<Rightarrow> bool \<Rightarrow> u8 list \<Rightarrow> MOSDBackoff outcome" where
  "decode_MOSDBackoff kmalloc_ok begin_ok end_ok b =
     (let end = length b in
      bind_outcome (ceph_start_decoding b 0 end 1) (\<lambda>(struct_v, struct_len, p).
      bind_outcome (ceph_decode_pgid b p end) (\<lambda>(pgid, p).
      bind_outcome (ceph_decode_8_safe b p end (Err EINVAL)) (\<lambda>(shard, p).
      bind_outcome (ceph_decode_32_safe b p end (Err EINVAL)) (\<lambda>(map_epoch, p).
      bind_outcome (ceph_decode_8_safe b p end (Err EINVAL)) (\<lambda>(opc, p).
      bind_outcome (ceph_decode_64_safe b p end (Err EINVAL)) (\<lambda>(bid, p).
      if \<not> begin_ok then Err ENOMEM
      else
        bind_outcome (decode_hoid kmalloc_ok b p end) (\<lambda>(begin_hoid, p).
        if \<not> end_ok then Err ENOMEM
        else
          bind_outcome (decode_hoid kmalloc_ok b p end) (\<lambda>(end_hoid, p).
            Ok \<lparr>mb_spgid = \<lparr>spg_pgid = pgid, spg_shard = sint shard\<rparr>, mb_map_epoch = map_epoch, mb_op = opc, mb_id = bid,
                mb_begin = begin_hoid, mb_end = end_hoid\<rparr>)))))))))"

text \<open>The front of the message; its buffer has exactly the computed size.\<close>

definition create_backoff_message :: "ceph_osd_backoff \<Rightarrow> u32 \<Rightarrow> u8 list outcome" where
  "create_backoff_message backoff map_epoch =
     (let msg_size = (6 + 17 + 1) + (4 + 1 + 8) + (6 + hoid_encoding_size (bo_begin backoff)) + (6 + hoid_encoding_size (bo_end backoff));
          end = msg_size in
      bind_outcome (encode_spgid (replicate msg_size 0) 0 (bo_spgid backoff)) (\<lambda>(b, p).
      bind_outcome (ceph_encode_32 b p map_epoch) (\<lambda>(b, p).
      bind_outcome (ceph_encode_8 b p CEPH_OSD_BACKOFF_OP_ACK_BLOCK) (\<lambda>(b, p).
      bind_outcome (ceph_encode_64 b p (bo_id backoff)) (\<lambda>(b, p).
      bind_outcome (encode_hoid b p end (bo_begin backoff)) (\<lambda>(b, p).
      bind_outcome (encode_hoid b p end (bo_end backoff)) (\<lambda>(b, p).
        if p \<noteq> end then Oops Bug_On else Ok (take p b))))))))"

section \<open>The order of object ids\<close>

text \<open>The reference order: the lexicographic order of the components, with words, integers and byte strings in their own orders.\<close>

definition hoid_order_key :: "ceph_hobject_id \<Rightarrow> u8 \<times> int \<times> u64 \<times> u8 list \<times> u8 list \<times> u8 list \<times> u64" where
  "hoid_order_key hoid = (hoid_is_max hoid, hoid_pool hoid, hoid_get_bitwise_key hoid, hoid_nspace hoid, hoid_get_effective_key hoid,
     hoid_oid hoid, hoid_snapid hoid)"

lemma RB_CMP3WAY_Pair: "RB_CMP3WAY (a, b) (c, d) = (if a < c then - 1 else if a > c then 1 else RB_CMP3WAY b d)"
  by (auto simp: RB_CMP3WAY_def less_prod_def)

lemma compare_names_Cons:
  "compare_names (x # xs) (y # ys) = (if x < y then - 1 else if x > y then 1 else compare_names xs ys)"
  by (simp add: compare_names_def Let_def)

lemma compare_names_3WAY: "compare_names xs ys = RB_CMP3WAY xs ys"
proof (induction xs arbitrary: ys)
  case Nil
  show ?case by (cases ys) (simp_all add: compare_names_def RB_CMP3WAY_def)
next
  case (Cons x xs)
  show ?case
  proof (cases ys)
    case Nil
    then show ?thesis by (simp add: compare_names_def RB_CMP3WAY_def)
  next
    case (Cons y ys')
    have "x # xs < y # ys' \<longleftrightarrow> x < y \<or> x = y \<and> xs < ys'" "y # ys' < x # xs \<longleftrightarrow> y < x \<or> x = y \<and> ys' < xs" by auto
    then show ?thesis using Cons.IH [of ys'] Cons compare_names_Cons [of x xs y ys'] by (auto simp: RB_CMP3WAY_def)
  qed
qed

lemma RB_CMP3WAY_if: "(if RB_CMP3WAY a b \<noteq> 0 then RB_CMP3WAY a b else r) = (if a < b then - 1 else if b < a then 1 else r)"
  by (auto simp: RB_CMP3WAY_def)

lemma hoid_compare_key: "hoid_compare lhs rhs = RB_CMP3WAY (hoid_order_key lhs) (hoid_order_key rhs)"
  unfolding hoid_compare_def hoid_order_key_def compare_names_3WAY RB_CMP3WAY_Pair Let_def RB_CMP3WAY_if
  unfolding RB_CMP3WAY_def by (rule refl)

section \<open>Installed backoffs\<close>

record ceph_spg_mapping =
  sm_spgid :: ceph_spg
  sm_backoffs :: "ceph_osd_backoff tree"

text \<open>The kernel's trees of the two kinds of nodes.\<close>

record rb_code =
  rb_backoff :: "ceph_osd_backoff rb_ops"
  rb_spg :: "ceph_spg_mapping rb_ops"

text \<open>
  The backoffs of a session (\<open>struct ceph_osd\<close>), by placement group and by id, and the messages handed to its connection. A backoff is in two
  trees; it does not change after its insertion, so a copy stands for the shared object.
\<close>

record osd_backoffs =
  o_backoff_mappings :: "ceph_spg_mapping tree"
  o_backoffs_by_id :: "ceph_osd_backoff tree"
  o_acks_sent :: "u8 list list"

abbreviation (input) lookup_spg_mapping :: "ceph_spg_mapping tree \<Rightarrow> ceph_spg \<Rightarrow> ceph_spg_mapping option" where
  "lookup_spg_mapping \<equiv> lookup_rb ceph_spg_compare sm_spgid"
abbreviation (input) insert_spg_mapping :: "rb_code \<Rightarrow> ceph_spg_mapping tree \<Rightarrow> ceph_spg_mapping \<Rightarrow> ceph_spg_mapping tree outcome" where
  "insert_spg_mapping rb \<equiv> insert_rb (rb_spg rb) ceph_spg_compare sm_spgid"
abbreviation (input) erase_spg_mapping :: "rb_code \<Rightarrow> ceph_spg_mapping tree \<Rightarrow> ceph_spg_mapping \<Rightarrow> ceph_spg_mapping tree outcome" where
  "erase_spg_mapping rb \<equiv> erase_rb (rb_spg rb)"
abbreviation (input) insert_backoff :: "rb_code \<Rightarrow> ceph_osd_backoff tree \<Rightarrow> ceph_osd_backoff \<Rightarrow> ceph_osd_backoff tree outcome" where
  "insert_backoff rb \<equiv> insert_rb (rb_backoff rb) hoid_compare bo_begin"
abbreviation (input) erase_backoff :: "rb_code \<Rightarrow> ceph_osd_backoff tree \<Rightarrow> ceph_osd_backoff \<Rightarrow> ceph_osd_backoff tree outcome" where
  "erase_backoff rb \<equiv> erase_rb (rb_backoff rb)"
abbreviation (input) lookup_backoff_by_id :: "ceph_osd_backoff tree \<Rightarrow> u64 \<Rightarrow> ceph_osd_backoff option" where
  "lookup_backoff_by_id \<equiv> lookup_rb RB_CMP3WAY bo_id"
abbreviation (input) insert_backoff_by_id :: "rb_code \<Rightarrow> ceph_osd_backoff tree \<Rightarrow> ceph_osd_backoff \<Rightarrow> ceph_osd_backoff tree outcome" where
  "insert_backoff_by_id rb \<equiv> insert_rb (rb_backoff rb) RB_CMP3WAY bo_id"
abbreviation (input) erase_backoff_by_id :: "rb_code \<Rightarrow> ceph_osd_backoff tree \<Rightarrow> ceph_osd_backoff \<Rightarrow> ceph_osd_backoff tree outcome" where
  "erase_backoff_by_id rb \<equiv> erase_rb (rb_backoff rb)"

fun lookup_containing_backoff :: "ceph_osd_backoff tree \<Rightarrow> ceph_hobject_id \<Rightarrow> ceph_osd_backoff option" where
  "lookup_containing_backoff \<langle>\<rangle> hoid = None"
| "lookup_containing_backoff \<langle>l, cur, r\<rangle> hoid =
     (let cmp = hoid_compare hoid (bo_begin cur) in
      if cmp < 0 then lookup_containing_backoff l hoid
      else if cmp > 0 then
        (if hoid_compare hoid (bo_end cur) < 0 then Some cur else lookup_containing_backoff r hoid)
      else Some cur)"

text \<open>The two loops of \<open>clear_backoffs\<close>; the fuel stands for the number of their rounds.\<close>

fun clear_spg :: "rb_code \<Rightarrow> nat \<Rightarrow> ceph_osd_backoff tree \<Rightarrow> ceph_osd_backoff tree \<Rightarrow> ceph_osd_backoff tree outcome" where
  "clear_spg rb fuel backoffs by_id =
     (case inorder backoffs of
        [] \<Rightarrow> Ok by_id
      | backoff # _ \<Rightarrow>
          (case fuel of
             0 \<Rightarrow> Oops No_Fuel
           | Suc fuel \<Rightarrow>
               bind_outcome (erase_backoff rb backoffs backoff) (\<lambda>backoffs.
               bind_outcome (erase_backoff_by_id rb by_id backoff) (\<lambda>by_id.
                 clear_spg rb fuel backoffs by_id))))"

fun clear_mappings :: "rb_code \<Rightarrow> nat \<Rightarrow> osd_backoffs \<Rightarrow> osd_backoffs outcome" where
  "clear_mappings rb fuel osd =
     (case inorder (o_backoff_mappings osd) of
        [] \<Rightarrow> Ok osd
      | spg # _ \<Rightarrow>
          (case fuel of
             0 \<Rightarrow> Oops No_Fuel
           | Suc fuel \<Rightarrow>
               bind_outcome (clear_spg rb fuel (sm_backoffs spg) (o_backoffs_by_id osd)) (\<lambda>by_id.
               bind_outcome (erase_spg_mapping rb (o_backoff_mappings osd) spg) (\<lambda>mappings.
                 clear_mappings rb fuel (osd\<lparr>o_backoff_mappings := mappings, o_backoffs_by_id := by_id\<rparr>)))))"

declare clear_spg.simps [simp del] clear_mappings.simps [simp del]

definition clear_backoffs :: "rb_code \<Rightarrow> nat \<Rightarrow> osd_backoffs \<Rightarrow> osd_backoffs outcome" where
  "clear_backoffs rb fuel osd = clear_mappings rb fuel osd"

definition hoid_fill_from_target :: "ceph_osd_request_target \<Rightarrow> ceph_hobject_id" where
  "hoid_fill_from_target t =
     ceph_hoid_build_hash_cache
       \<lparr>hoid_key = [], hoid_oid = t_target_oid t, hoid_snapid = CEPH_HEAD_SNAP, hoid_hash = pg_seed (t_pgid t), hoid_is_max = 0,
        hoid_nspace = (case oloc_pool_ns (t_target_oloc t) of Some ns \<Rightarrow> ns | None \<Rightarrow> []),
        hoid_pool = oloc_pool (t_target_oloc t), hoid_hash_reverse_bits = 0\<rparr>"

definition should_plug_request :: "'a osd_backoffs_scheme \<Rightarrow> ceph_osd_request_target \<Rightarrow> bool" where
  "should_plug_request osd t =
     (case lookup_spg_mapping (o_backoff_mappings osd) (t_spgid t) of
        None \<Rightarrow> False
      | Some spg \<Rightarrow> lookup_containing_backoff (sm_backoffs spg) (hoid_fill_from_target t) \<noteq> None)"

definition target_contained_by :: "ceph_osd_request_target \<Rightarrow> ceph_hobject_id \<Rightarrow> ceph_hobject_id \<Rightarrow> bool" where
  "target_contained_by t begin_hoid end_hoid =
     (let hoid = hoid_fill_from_target t; cmp = hoid_compare hoid begin_hoid in
      cmp = 0 \<or> (cmp > 0 \<and> hoid_compare hoid end_hoid < 0))"

text \<open>A write through the pointer to a mapping.\<close>

definition set_spg_backoffs ::
    "ceph_spg_mapping tree \<Rightarrow> ceph_spg_mapping \<Rightarrow> ceph_osd_backoff tree \<Rightarrow> ceph_spg_mapping tree" where
  "set_spg_backoffs mappings spg backoffs = map_tree (\<lambda>s. if s = spg then s\<lparr>sm_backoffs := backoffs\<rparr> else s) mappings"

text \<open>The mapping that a new backoff goes to; \<open>None\<close> if it cannot be allocated.\<close>

definition get_spg_mapping ::
    "rb_code \<Rightarrow> bool \<Rightarrow> osd_backoffs \<Rightarrow> ceph_spg \<Rightarrow> (ceph_spg_mapping \<times> osd_backoffs) option outcome" where
  "get_spg_mapping rb spg_ok osd spgid =
     (case lookup_spg_mapping (o_backoff_mappings osd) spgid of
        Some spg \<Rightarrow> Ok (Some (spg, osd))
      | None \<Rightarrow>
          if \<not> spg_ok then Ok None
          else
            let spg = \<lparr>sm_spgid = spgid, sm_backoffs = \<langle>\<rangle>\<rparr> in
            bind_outcome (insert_spg_mapping rb (o_backoff_mappings osd) spg) (\<lambda>mappings.
              Ok (Some (spg, osd\<lparr>o_backoff_mappings := mappings\<rparr>))))"

text \<open>The three allocations are \<open>spg_ok\<close>, \<open>backoff_ok\<close> and \<open>msg_ok\<close>.\<close>

definition handle_backoff_block ::
    "rb_code \<Rightarrow> bool \<Rightarrow> bool \<Rightarrow> bool \<Rightarrow> osd_backoffs \<Rightarrow> MOSDBackoff \<Rightarrow> osd_backoffs outcome" where
  "handle_backoff_block rb spg_ok backoff_ok msg_ok osd m =
     bind_outcome (get_spg_mapping rb spg_ok osd (mb_spgid m)) (\<lambda>found.
     case found of
       None \<Rightarrow> Ok osd
     | Some (spg, osd) \<Rightarrow>
         if \<not> backoff_ok then Ok osd
         else
           let backoff = \<lparr>bo_spgid = mb_spgid m, bo_id = mb_id m, bo_begin = mb_begin m, bo_end = mb_end m\<rparr> in
           bind_outcome (insert_backoff rb (sm_backoffs spg) backoff) (\<lambda>backoffs.
           bind_outcome (insert_backoff_by_id rb (o_backoffs_by_id osd) backoff) (\<lambda>by_id.
             let osd = osd\<lparr>o_backoff_mappings := set_spg_backoffs (o_backoff_mappings osd) spg backoffs, o_backoffs_by_id := by_id\<rparr> in
             if \<not> msg_ok then Ok osd
             else
               bind_outcome (create_backoff_message backoff (mb_map_epoch m)) (\<lambda>msg.
                 Ok (osd\<lparr>o_acks_sent := o_acks_sent osd @ [msg]\<rparr>)))))"

text \<open>
  The part of \<open>handle_backoff_unblock\<close> that uninstalls the backoff; \<open>None\<close> if there is none with the id. The comparison of the ranges only decides
  about a message in the log.
\<close>

definition uninstall_backoff :: "rb_code \<Rightarrow> osd_backoffs \<Rightarrow> MOSDBackoff \<Rightarrow> osd_backoffs option outcome" where
  "uninstall_backoff rb osd m =
     (case lookup_backoff_by_id (o_backoffs_by_id osd) (mb_id m) of
        None \<Rightarrow> Ok None
      | Some backoff \<Rightarrow>
          (case lookup_spg_mapping (o_backoff_mappings osd) (bo_spgid backoff) of
             None \<Rightarrow> Oops Bug_On
           | Some spg \<Rightarrow>
               bind_outcome (erase_backoff rb (sm_backoffs spg) backoff) (\<lambda>backoffs.
               bind_outcome (erase_backoff_by_id rb (o_backoffs_by_id osd) backoff) (\<lambda>by_id.
               bind_outcome
                 (if backoffs = \<langle>\<rangle> then erase_spg_mapping rb (o_backoff_mappings osd) spg
                  else Ok (set_spg_backoffs (o_backoff_mappings osd) spg backoffs)) (\<lambda>mappings.
                 Ok (Some (osd\<lparr>o_backoff_mappings := mappings, o_backoffs_by_id := by_id\<rparr>)))))))"

section \<open>The search for a backoff\<close>

text \<open>A backoff covers the ids from its begin up to, but without, its end; its begin is covered in any case.\<close>

definition covers :: "ceph_osd_backoff \<Rightarrow> ceph_hobject_id \<Rightarrow> bool" where
  "covers b hoid \<longleftrightarrow> hoid_order_key hoid = hoid_order_key (bo_begin b) \<or>
     (hoid_order_key (bo_begin b) < hoid_order_key hoid \<and> hoid_order_key hoid < hoid_order_key (bo_end b))"

abbreviation begin_rank :: "ceph_osd_backoff \<Rightarrow> u8 \<times> int \<times> u64 \<times> u8 list \<times> u8 list \<times> u8 list \<times> u64" where
  "begin_rank b \<equiv> hoid_order_key (bo_begin b)"

definition spg_key :: "ceph_spg \<Rightarrow> u64 \<times> u32 \<times> int" where
  "spg_key spg = (pg_pool (spg_pgid spg), pg_seed (spg_pgid spg), spg_shard spg)"

lemma spg_key_inj [simp]: "spg_key a = spg_key b \<longleftrightarrow> a = b"
  by (auto simp: spg_key_def)

lemma ceph_spg_compare_key: "ceph_spg_compare a b = RB_CMP3WAY (spg_key a) (spg_key b)"
proof -
  have "ceph_pg_compare x y = RB_CMP3WAY (pg_pool x, pg_seed x) (pg_pool y, pg_seed y)" for x y
    unfolding ceph_pg_compare_def RB_CMP3WAY_Pair by (simp add: RB_CMP3WAY_def)
  then show ?thesis
    unfolding ceph_spg_compare_def spg_key_def Let_def RB_CMP3WAY_if RB_CMP3WAY_Pair
    by (auto simp: RB_CMP3WAY_def less_prod_def)
qed

interpretation rb_mappings: rb_order ceph_spg_compare sm_spgid spg_key
  by unfold_locales (rule ceph_spg_compare_key)

interpretation rb_begins: rb_order hoid_compare bo_begin hoid_order_key
  by unfold_locales (rule hoid_compare_key)

interpretation rb_ids: rb_order RB_CMP3WAY bo_id "\<lambda>k. k"
  by unfold_locales (rule refl)

lemma lookup_containing_covers: "lookup_containing_backoff t hoid = Some b \<Longrightarrow> b \<in> set_tree t \<and> covers b hoid"
  by (induction t) (auto simp: Let_def covers_def split: if_splits)

text \<open>The intervals of two backoffs have no id in common.\<close>

definition disjoint_backoffs :: "ceph_osd_backoff set \<Rightarrow> bool" where
  "disjoint_backoffs B \<longleftrightarrow> (\<forall>b\<in>B. \<forall>c\<in>B. \<forall>hoid. covers b hoid \<and> covers c hoid \<longrightarrow> b = c)"

lemma lookup_containing_complete:
  "rb_sorted begin_rank t \<Longrightarrow> disjoint_backoffs (set_tree t) \<Longrightarrow> b \<in> set_tree t \<Longrightarrow> covers b hoid \<Longrightarrow>
     lookup_containing_backoff t hoid \<noteq> None"
proof (induction t)
  case (Node l x r)
  have ids: "disjoint_backoffs (set_tree l)" "disjoint_backoffs (set_tree r)" using Node.prems(2) by (auto simp: disjoint_backoffs_def)
  have le: "begin_rank b \<le> hoid_order_key hoid" using Node.prems(4) by (auto simp: covers_def)
  consider (here) "b = x" | (left) "b \<in> set_tree l" | (right) "b \<in> set_tree r" using Node.prems(3) by auto
  then show ?case
  proof cases
    case here
    then show ?thesis using Node.prems(4) by (auto simp: covers_def Let_def)
  next
    case left
    then have lt: "begin_rank b < begin_rank x" using Node.prems(1) by auto
    have "hoid_order_key hoid < begin_rank x"
    proof (rule ccontr)
      assume "\<not> hoid_order_key hoid < begin_rank x"
      then have "begin_rank x < hoid_order_key (bo_end b)" if "begin_rank b < hoid_order_key hoid"
        using that Node.prems(4) by (auto simp: covers_def)
      then have "covers b (bo_begin x)" using Node.prems(4) lt \<open>\<not> _\<close> by (auto simp: covers_def)
      then show False using Node.prems(2) left lt by (force simp: disjoint_backoffs_def covers_def)
    qed
    then show ?thesis using Node.IH(1) [OF _ ids(1) left Node.prems(4)] Node.prems(1) by (simp add: Let_def)
  next
    case right
    then have "begin_rank x < begin_rank b" using Node.prems(1) by auto
    then have "begin_rank x < hoid_order_key hoid" using le by (rule less_le_trans)
    then show ?thesis using Node.IH(2) [OF _ ids(2) right Node.prems(4)] Node.prems(1) by (auto simp: Let_def)
  qed
qed simp

lemma lookup_containing_iff:
  assumes "rb_sorted begin_rank t" and "disjoint_backoffs (set_tree t)"
  shows "lookup_containing_backoff t hoid = Some b \<longleftrightarrow> b \<in> set_tree t \<and> covers b hoid"
proof
  assume b: "b \<in> set_tree t \<and> covers b hoid"
  then obtain c where c: "lookup_containing_backoff t hoid = Some c" using lookup_containing_complete [OF assms, of b hoid] by auto
  then have "c = b" using b lookup_containing_covers [OF c] assms(2) unfolding disjoint_backoffs_def by blast
  then show "lookup_containing_backoff t hoid = Some b" using c by simp
qed (rule lookup_containing_covers)

section \<open>The state of a session\<close>

definition installed :: "'a osd_backoffs_scheme \<Rightarrow> ceph_osd_backoff set" where
  "installed osd = set_tree (o_backoffs_by_id osd)"

definition spg_ok :: "ceph_spg_mapping \<Rightarrow> bool" where
  "spg_ok spg \<longleftrightarrow> rb_sorted begin_rank (sm_backoffs spg) \<and> (\<forall>b\<in>set_tree (sm_backoffs spg). bo_spgid b = sm_spgid spg)"

definition backoffs_ok :: "'a osd_backoffs_scheme \<Rightarrow> bool" where
  "backoffs_ok osd \<longleftrightarrow> rb_sorted (\<lambda>s. spg_key (sm_spgid s)) (o_backoff_mappings osd) \<and> (\<forall>spg\<in>set_tree (o_backoff_mappings osd). spg_ok spg) \<and>
     rb_sorted bo_id (o_backoffs_by_id osd) \<and>
     installed osd = (\<Union>spg\<in>set_tree (o_backoff_mappings osd). set_tree (sm_backoffs spg))"

definition rb_code_ok :: "rb_code \<Rightarrow> bool" where
  "rb_code_ok rb \<longleftrightarrow> rb_ok (rb_backoff rb) \<and> rb_ok (rb_spg rb)"

lemma set_spg_backoffs_set:
  "set_tree (set_spg_backoffs ms spg bs) = (\<lambda>s. if s = spg then s\<lparr>sm_backoffs := bs\<rparr> else s) ` set_tree ms"
  by (simp add: set_spg_backoffs_def tree.set_map)

lemma set_spg_backoffs_sorted:
  "rb_sorted (\<lambda>s. spg_key (sm_spgid s)) (set_spg_backoffs ms spg bs) \<longleftrightarrow> rb_sorted (\<lambda>s. spg_key (sm_spgid s)) ms"
proof -
  have "(\<lambda>s. spg_key (sm_spgid s)) \<circ> (\<lambda>s. if s = spg then s\<lparr>sm_backoffs := bs\<rparr> else s) = (\<lambda>s. spg_key (sm_spgid s))"
    by (rule ext) simp
  then show ?thesis by (simp add: rb_sorted_def set_spg_backoffs_def inorder_map)
qed

lemma set_spg_backoffs_Union:
  assumes "spg \<in> set_tree ms"
  shows "(\<Union>s\<in>set_tree (set_spg_backoffs ms spg bs). set_tree (sm_backoffs s)) =
     (\<Union>s\<in>set_tree ms - {spg}. set_tree (sm_backoffs s)) \<union> set_tree bs"
  using assms by (auto simp: set_spg_backoffs_set split: if_splits)

text \<open>The backoffs of a mapping are those of its placement group.\<close>

lemma backoffs_of_spg:
  assumes "backoffs_ok osd" and "spg \<in> set_tree (o_backoff_mappings osd)"
  shows "set_tree (sm_backoffs spg) = {b \<in> installed osd. bo_spgid b = sm_spgid spg}"
proof -
  have uniq: "s = spg" if "s \<in> set_tree (o_backoff_mappings osd)" "sm_spgid s = sm_spgid spg" for s
    using that assms rb_sorted_inj [of "\<lambda>s. spg_key (sm_spgid s)" "o_backoff_mappings osd" s spg] by (simp add: backoffs_ok_def)
  have own: "bo_spgid b = sm_spgid s" if "s \<in> set_tree (o_backoff_mappings osd)" "b \<in> set_tree (sm_backoffs s)" for s b
    using assms(1) that by (simp add: backoffs_ok_def spg_ok_def)
  have inst: "installed osd = (\<Union>s\<in>set_tree (o_backoff_mappings osd). set_tree (sm_backoffs s))"
    using assms(1) by (simp add: backoffs_ok_def)
  show ?thesis
  proof (intro set_eqI iffI)
    fix x
    assume "x \<in> {b \<in> installed osd. bo_spgid b = sm_spgid spg}"
    then obtain s where s: "s \<in> set_tree (o_backoff_mappings osd)" "x \<in> set_tree (sm_backoffs s)" "sm_spgid s = sm_spgid spg"
      unfolding inst using own by auto
    have "s = spg" by (rule uniq [OF s(1,3)])
    then show "x \<in> set_tree (sm_backoffs spg)" using s(2) by simp
  next
    fix x
    assume "x \<in> set_tree (sm_backoffs spg)"
    then show "x \<in> {b \<in> installed osd. bo_spgid b = sm_spgid spg}" unfolding inst using own assms(2) by auto
  qed
qed

lemma should_plug_iff:
  assumes ok: "backoffs_ok osd" and dis: "\<And>spgid. disjoint_backoffs {b \<in> installed osd. bo_spgid b = spgid}"
  shows "should_plug_request osd t \<longleftrightarrow> (\<exists>b\<in>installed osd. bo_spgid b = t_spgid t \<and> covers b (hoid_fill_from_target t))"
proof (cases "lookup_rb ceph_spg_compare sm_spgid (o_backoff_mappings osd) (t_spgid t)")
  case None
  have "t_spgid t \<notin> sm_spgid ` set_tree (o_backoff_mappings osd)"
    using rb_mappings.lookup_None [of "o_backoff_mappings osd" "t_spgid t"] None ok by (auto simp: backoffs_ok_def)
  moreover have "t_spgid t \<in> sm_spgid ` set_tree (o_backoff_mappings osd)" if "b \<in> installed osd" "bo_spgid b = t_spgid t" for b
    using that ok by (auto simp: backoffs_ok_def spg_ok_def) (metis imageI)
  ultimately show ?thesis using None by (auto simp: should_plug_request_def)
next
  case (Some spg)
  have spg: "spg \<in> set_tree (o_backoff_mappings osd)" "sm_spgid spg = t_spgid t"
    using rb_mappings.lookup_Some [of "o_backoff_mappings osd" "t_spgid t" spg] Some ok by (auto simp: backoffs_ok_def)
  note set = backoffs_of_spg [OF ok spg(1), unfolded spg(2)]
  have s: "rb_sorted begin_rank (sm_backoffs spg)" using ok spg(1) by (simp add: backoffs_ok_def spg_ok_def)
  have "(lookup_containing_backoff (sm_backoffs spg) h \<noteq> None) = (\<exists>b\<in>set_tree (sm_backoffs spg). covers b h)" for h
    using lookup_containing_iff [OF s, of h] dis [of "t_spgid t"] set by auto
  then show ?thesis using Some set by (auto simp: should_plug_request_def)
qed

section \<open>The formats of ids and messages\<close>

definition hoid_bytes :: "ceph_hobject_id \<Rightarrow> u8 list" where
  "hoid_bytes hoid = header_bytes 4 3 (of_nat (hoid_encoding_size hoid)) @ string_bytes (hoid_key hoid) @ string_bytes (hoid_oid hoid) @
     put_le 8 (hoid_snapid hoid) @ put_le 4 (hoid_hash hoid) @ [hoid_is_max hoid] @ string_bytes (hoid_nspace hoid) @
     put_le 8 (word_of_int (hoid_pool hoid) :: u64)"

lemma length_hoid_bytes [simp]: "length (hoid_bytes hoid) = 6 + hoid_encoding_size hoid"
  by (simp add: hoid_bytes_def hoid_encoding_size_def)

text \<open>Ids as they come from the wire: sizes that fit their fields, a pool number of 64 bits, and the cached reversal of the hash.\<close>

definition hoid_ok :: "ceph_hobject_id \<Rightarrow> bool" where
  "hoid_ok hoid \<longleftrightarrow> hoid_encoding_size hoid < 2 ^ 32 \<and> - (2 ^ 63) \<le> hoid_pool hoid \<and> hoid_pool hoid < 2 ^ 63 \<and>
     hoid_hash_reverse_bits hoid = word_reverse (hoid_hash hoid)"

lemma writes_hoid: "writes end (\<lambda>b p. encode_hoid b p end hoid) (hoid_bytes hoid)"
  unfolding encode_hoid_def hoid_bytes_def
  by (intro writes_bind writes_header writes_string fmt8.put_writes fmt32.put_writes fmt64.put_writes TrueI)

lemma sint_word_of_int64: "- (2 ^ 63) \<le> i \<Longrightarrow> i < 2 ^ 63 \<Longrightarrow> sint (word_of_int i :: u64) = i"
  by (simp add: signed_of_int signed_take_bit_int_eq_self)

lemma reads_hoid:
  assumes "hoid_ok hoid"
  shows "reads end (\<lambda>b p. decode_hoid (\<lambda>_. True) b p end) (hoid_bytes hoid) hoid"
  unfolding reads_def
proof (intro allI impI, elim conjE)
  fix b p
  assume h: "holds_at b p (hoid_bytes hoid)" and room: "p + length (hoid_bytes hoid) \<le> end"
  let ?n = "of_nat (hoid_encoding_size hoid) :: u32"
  define body where "body = string_bytes (hoid_key hoid) @ string_bytes (hoid_oid hoid) @
     put_le 8 (hoid_snapid hoid) @ put_le 4 (hoid_hash hoid) @ [hoid_is_max hoid] @ string_bytes (hoid_nspace hoid) @
     put_le 8 (word_of_int (hoid_pool hoid) :: u64) @ []"
  have hb: "holds_at b p (header_bytes 4 3 ?n)" "holds_at b (p + 6) body"
    using h by (simp_all add: hoid_bytes_def body_def holds_append)
  have sz: "length body = hoid_encoding_size hoid" by (simp add: body_def hoid_encoding_size_def)
  have small: "length (hoid_key hoid) < 2 ^ 32" "length (hoid_oid hoid) < 2 ^ 32" "length (hoid_nspace hoid) < 2 ^ 32"
    using assms by (simp_all add: hoid_ok_def hoid_encoding_size_def)
  have n: "unat ?n = hoid_encoding_size hoid"
    using assms unfolding unsigned_of_nat by (simp add: hoid_ok_def take_bit_nat_eq_self)
  have st: "ceph_start_decoding b p end 4 = Ok (4, ?n, p + 6)" using room n by (intro reads_header [OF hb(1)]) simp_all
  have val: "ceph_hoid_build_hash_cache
     \<lparr>hoid_key = hoid_key hoid, hoid_oid = hoid_oid hoid, hoid_snapid = hoid_snapid hoid, hoid_hash = hoid_hash hoid,
      hoid_is_max = hoid_is_max hoid, hoid_nspace = hoid_nspace hoid, hoid_pool = sint (word_of_int (hoid_pool hoid) :: u64),
      hoid_hash_reverse_bits = 0\<rparr> = hoid"
    using assms by (simp add: ceph_hoid_build_hash_cache_def hoid_ok_def sint_word_of_int64)
  have "reads end (\<lambda>b p.
       bind_outcome (ceph_extract_encoded_string (\<lambda>_. True) b p end) (\<lambda>(key, p).
       bind_outcome (ceph_extract_encoded_string (\<lambda>_. True) b p end) (\<lambda>(oid, p).
       bind_outcome (ceph_decode_64_safe b p end (Err EINVAL)) (\<lambda>(snapid, p).
       bind_outcome (ceph_decode_32_safe b p end (Err EINVAL)) (\<lambda>(hash, p).
       bind_outcome (ceph_decode_8_safe b p end (Err EINVAL)) (\<lambda>(is_max, p).
       bind_outcome (ceph_extract_encoded_string (\<lambda>_. True) b p end) (\<lambda>(nspace, p).
       bind_outcome (ceph_decode_64_safe b p end (Err EINVAL)) (\<lambda>(pool, p).
         Ok (ceph_hoid_build_hash_cache
               \<lparr>hoid_key = key, hoid_oid = oid, hoid_snapid = snapid, hoid_hash = hash, hoid_is_max = is_max, hoid_nspace = nspace,
                hoid_pool = sint pool, hoid_hash_reverse_bits = 0\<rparr>, p)))))))))
     body (ceph_hoid_build_hash_cache
     \<lparr>hoid_key = hoid_key hoid, hoid_oid = hoid_oid hoid, hoid_snapid = hoid_snapid hoid, hoid_hash = hoid_hash hoid,
      hoid_is_max = hoid_is_max hoid, hoid_nspace = hoid_nspace hoid, hoid_pool = sint (word_of_int (hoid_pool hoid) :: u64),
      hoid_hash_reverse_bits = 0\<rparr>)"
    unfolding body_def
    by (rule reads_bind fmtstr.get_reads small fmt8.get_reads fmt32.get_reads fmt64.get_reads reads_return TrueI)+
  from readsD [OF this hb(2)] have "decode_hoid (\<lambda>_. True) b p end = Ok (hoid, p + 6 + hoid_encoding_size hoid)"
    using room st sz val by (simp add: decode_hoid_def)
  then show "decode_hoid (\<lambda>_. True) b p end = Ok (hoid, p + length (hoid_bytes hoid))" by (simp add: ac_simps)
qed

interpretation fmthoid: wire_format "\<lambda>end b p. encode_hoid b p end" "\<lambda>end b p. decode_hoid (\<lambda>_. True) b p end" hoid_bytes hoid_ok
  by unfold_locales (simp_all add: writes_hoid reads_hoid)

definition pgid_bytes :: "ceph_pg \<Rightarrow> u8 list" where
  "pgid_bytes pgid = [1] @ put_le 8 (pg_pool pgid) @ put_le 4 (pg_seed pgid) @ put_le 4 (- 1 :: u32)"

lemma length_pgid_bytes [simp]: "length (pgid_bytes pgid) = 17"
  by (simp add: pgid_bytes_def)

lemma writes_pgid: "writes end (\<lambda>b p. encode_pgid b p pgid) (pgid_bytes pgid)"
  unfolding encode_pgid_def pgid_bytes_def
  by (intro writes_bind fmt8.put_writes fmt32.put_writes fmt64.put_writes TrueI)

lemma reads_pgid: "reads end (\<lambda>b p. ceph_decode_pgid b p end) (pgid_bytes pgid) pgid"
  unfolding reads_def
proof (intro allI impI, elim conjE)
  fix b p
  assume h: "holds_at b p (pgid_bytes pgid)" and room: "p + length (pgid_bytes pgid) \<le> end"
  have hs: "holds_at b p [1]" "holds_at b (Suc p) (put_le 8 (pg_pool pgid))" "holds_at b (p + 9) (put_le 4 (pg_seed pgid))"
    using h unfolding pgid_bytes_def holds_append by (simp_all add: ac_simps)
  show "ceph_decode_pgid b p end = Ok (pgid, p + length (pgid_bytes pgid))"
    using holds_decode(4) [OF hs(1)] holds_decode(1) [OF hs(2)] holds_decode(2) [OF hs(3)] room
    by (auto simp: ceph_decode_pgid_def ceph_has_room_def ac_simps)
qed

interpretation fmtpgid: wire_format "\<lambda>end. encode_pgid" "\<lambda>end b p. ceph_decode_pgid b p end" pgid_bytes "\<lambda>pgid. True"
  by unfold_locales (simp_all add: writes_pgid reads_pgid)

definition spgid_bytes :: "ceph_spg \<Rightarrow> u8 list" where
  "spgid_bytes spgid = header_bytes 1 1 (17 + 1) @ pgid_bytes (spg_pgid spgid) @ [word_of_int (spg_shard spgid)]"

lemma writes_spgid: "writes end (\<lambda>b p. encode_spgid b p spgid) (spgid_bytes spgid)"
  unfolding encode_spgid_def spgid_bytes_def
  by (intro writes_bind writes_header writes_pgid fmt8.put_writes TrueI)

definition backoff_message_bytes :: "ceph_osd_backoff \<Rightarrow> u32 \<Rightarrow> u8 list" where
  "backoff_message_bytes backoff map_epoch = spgid_bytes (bo_spgid backoff) @ put_le 4 map_epoch @ [CEPH_OSD_BACKOFF_OP_ACK_BLOCK] @
     put_le 8 (bo_id backoff) @ hoid_bytes (bo_begin backoff) @ hoid_bytes (bo_end backoff)"

lemma written_all: "length bs = length b \<Longrightarrow> written b 0 bs = bs"
  by (simp add: written_def)

lemma create_backoff_message_Ok: "create_backoff_message backoff map_epoch = Ok (backoff_message_bytes backoff map_epoch)"
proof -
  let ?bs = "backoff_message_bytes backoff map_epoch"
  let ?n = "(6 + 17 + 1) + (4 + 1 + 8) + (6 + hoid_encoding_size (bo_begin backoff)) + (6 + hoid_encoding_size (bo_end backoff))"
  define put where "put = (\<lambda>b p. bind_outcome (encode_spgid b p (bo_spgid backoff)) (\<lambda>(b, p).
      bind_outcome (ceph_encode_32 b p map_epoch) (\<lambda>(b, p).
      bind_outcome (ceph_encode_8 b p CEPH_OSD_BACKOFF_OP_ACK_BLOCK) (\<lambda>(b, p).
      bind_outcome (ceph_encode_64 b p (bo_id backoff)) (\<lambda>(b, p).
      bind_outcome (encode_hoid b p ?n (bo_begin backoff)) (\<lambda>(b, p).
        encode_hoid b p ?n (bo_end backoff)))))))"
  have len: "length ?bs = ?n" by (simp add: backoff_message_bytes_def spgid_bytes_def)
  have "writes ?n put ?bs"
    unfolding put_def backoff_message_bytes_def
    by (intro writes_bind writes_spgid writes_hoid fmt8.put_writes fmt32.put_writes fmt64.put_writes TrueI)
  from writesD [OF this, of 0 "replicate ?n 0"] have "put (replicate ?n 0) 0 = Ok (?bs, ?n)"
    using len by (simp add: written_all)
  moreover have "create_backoff_message backoff map_epoch =
      bind_outcome (put (replicate ?n 0) 0) (\<lambda>(b, p). if p \<noteq> ?n then Oops Bug_On else Ok (take p b))"
    unfolding create_backoff_message_def Let_def put_def
    by (simp only: bind_outcome_assoc case_prod_unfold)
  ultimately show ?thesis using len by simp
qed

lemma decode_backoff_message:
  assumes hoids: "hoid_ok (bo_begin backoff)" "hoid_ok (bo_end backoff)"
    and shard: "- 128 \<le> spg_shard (bo_spgid backoff)" "spg_shard (bo_spgid backoff) < 128"
  shows "decode_MOSDBackoff (\<lambda>_. True) True True (backoff_message_bytes backoff map_epoch) =
     Ok \<lparr>mb_spgid = bo_spgid backoff, mb_map_epoch = map_epoch, mb_op = CEPH_OSD_BACKOFF_OP_ACK_BLOCK, mb_id = bo_id backoff,
         mb_begin = bo_begin backoff, mb_end = bo_end backoff\<rparr>"
proof -
  let ?n = "hoid_encoding_size (bo_begin backoff)"
  define b where "b = backoff_message_bytes backoff map_epoch"
  let ?sh = "word_of_int (spg_shard (bo_spgid backoff)) :: u8"
  define e where "e = length b"
  have e: "e = 43 + ?n + 6 + hoid_encoding_size (bo_end backoff)"
    by (simp add: e_def b_def backoff_message_bytes_def spgid_bytes_def)
  have "holds_at b 0 (header_bytes 1 1 (17 + 1) @ pgid_bytes (spg_pgid (bo_spgid backoff)) @ [?sh] @ put_le 4 map_epoch @
      [CEPH_OSD_BACKOFF_OP_ACK_BLOCK] @ put_le 8 (bo_id backoff) @ hoid_bytes (bo_begin backoff) @ hoid_bytes (bo_end backoff))"
    by (simp add: b_def holds_at_def backoff_message_bytes_def spgid_bytes_def)
  then have h: "holds_at b 0 (header_bytes 1 1 (17 + 1))" "holds_at b 6 (pgid_bytes (spg_pgid (bo_spgid backoff)))"
    "holds_at b 23 [?sh]" "holds_at b 24 (put_le 4 map_epoch)" "holds_at b 28 [CEPH_OSD_BACKOFF_OP_ACK_BLOCK]"
    "holds_at b 29 (put_le 8 (bo_id backoff))" "holds_at b 37 (hoid_bytes (bo_begin backoff))" "holds_at b (43 + ?n) (hoid_bytes (bo_end backoff))"
    unfolding holds_append by simp_all
  have sh: "sint ?sh = spg_shard (bo_spgid backoff)" using shard by (simp add: signed_of_int signed_take_bit_int_eq_self)
  note d = reads_header [OF h(1), of e 1] readsD [OF reads_pgid h(2), of e] readsD [OF fmt8.get_reads [OF TrueI] h(3), of e]
    readsD [OF fmt32.get_reads [OF TrueI] h(4), of e] readsD [OF fmt8.get_reads [OF TrueI] h(5), of e]
    readsD [OF fmt64.get_reads [OF TrueI] h(6), of e] readsD [OF reads_hoid [OF hoids(1)] h(7), of e]
    readsD [OF reads_hoid [OF hoids(2)] h(8), of e]
  show ?thesis
    unfolding decode_MOSDBackoff_def Let_def b_def [symmetric] e_def [symmetric]
    using d e sh by simp
qed

section \<open>Blocking and unblocking\<close>

lemma backoffs_okD:
  assumes "backoffs_ok osd"
  shows "rb_sorted (\<lambda>s. spg_key (sm_spgid s)) (o_backoff_mappings osd)" "spg \<in> set_tree (o_backoff_mappings osd) \<Longrightarrow> spg_ok spg"
    and "rb_sorted bo_id (o_backoffs_by_id osd)"
    and "installed osd = (\<Union>spg\<in>set_tree (o_backoff_mappings osd). set_tree (sm_backoffs spg))"
  using assms by (simp_all add: backoffs_ok_def)

lemma get_spg_mapping_cases:
  assumes rb: "rb_code_ok rb" and ok: "backoffs_ok osd"
  obtains (none) "\<not> a" "get_spg_mapping rb a osd spgid = Ok None"
  | (some) spg osd' where "get_spg_mapping rb a osd spgid = Ok (Some (spg, osd'))" "spg \<in> set_tree (o_backoff_mappings osd')"
      "sm_spgid spg = spgid" "backoffs_ok osd'" "o_backoffs_by_id osd' = o_backoffs_by_id osd" "o_acks_sent osd' = o_acks_sent osd"
proof (cases "lookup_rb ceph_spg_compare sm_spgid (o_backoff_mappings osd) spgid")
  case (Some spg)
  have "spg \<in> set_tree (o_backoff_mappings osd)" "sm_spgid spg = spgid"
    using rb_mappings.lookup_Some [OF backoffs_okD(1) [OF ok], of spgid spg] Some by simp_all
  moreover have "get_spg_mapping rb a osd spgid = Ok (Some (spg, osd))" using Some by (simp add: get_spg_mapping_def)
  ultimately show ?thesis using ok by (intro that(2)) simp_all
next
  case None
  let ?spg = "\<lparr>sm_spgid = spgid, sm_backoffs = \<langle>\<rangle>\<rparr>"
  show ?thesis
  proof (cases a)
    case False
    then show ?thesis using None by (intro that(1)) (simp_all add: get_spg_mapping_def)
  next
    case True
    have "spg_key (sm_spgid ?spg) \<notin> (\<lambda>s. spg_key (sm_spgid s)) ` set_tree (o_backoff_mappings osd)"
      using rb_mappings.lookup_None [OF backoffs_okD(1) [OF ok], of spgid] None by simp
    then obtain ms where ms: "insert_rb (rb_spg rb) ceph_spg_compare sm_spgid (o_backoff_mappings osd) ?spg = Ok ms"
      "rb_sorted (\<lambda>s. spg_key (sm_spgid s)) ms" "set_tree ms = insert ?spg (set_tree (o_backoff_mappings osd))"
      using rb_mappings.insert_Ok [of "rb_spg rb" "o_backoff_mappings osd" ?spg] rb backoffs_okD(1) [OF ok] by (auto simp: rb_code_ok_def)
    let ?osd = "osd\<lparr>o_backoff_mappings := ms\<rparr>"
    have "spg_ok ?spg" by (simp add: spg_ok_def)
    then have "backoffs_ok ?osd"
      using ok ms by (auto simp: backoffs_ok_def installed_def)
    moreover have "get_spg_mapping rb a osd spgid = Ok (Some (?spg, ?osd))"
      using None True ms(1) by (simp add: get_spg_mapping_def)
    ultimately show ?thesis using ms(3) by (intro that(2) [of ?spg ?osd]) simp_all
  qed
qed

text \<open>Adding a backoff to its mapping and to the ids.\<close>

lemma add_backoff_ok:
  assumes ok: "backoffs_ok osd" and spg: "spg \<in> set_tree (o_backoff_mappings osd)" "bo_spgid b = sm_spgid spg"
    and bs: "rb_sorted begin_rank bs" "set_tree bs = insert b (set_tree (sm_backoffs spg))"
    and ids: "rb_sorted bo_id ids" "set_tree ids = insert b (installed osd)"
  shows "backoffs_ok (osd\<lparr>o_backoff_mappings := set_spg_backoffs (o_backoff_mappings osd) spg bs, o_backoffs_by_id := ids\<rparr>)"
proof -
  let ?ms = "set_spg_backoffs (o_backoff_mappings osd) spg bs"
  have "spg_ok s" if "s \<in> set_tree ?ms" for s
    using that backoffs_okD(2) [OF ok] spg bs by (auto simp: set_spg_backoffs_set spg_ok_def split: if_splits)
  moreover have "insert b (installed osd) = (\<Union>s\<in>set_tree ?ms. set_tree (sm_backoffs s))"
    unfolding set_spg_backoffs_Union [OF spg(1)] backoffs_okD(4) [OF ok] bs(2) using spg(1) by blast
  ultimately show ?thesis
    using backoffs_okD(1) [OF ok] ids by (simp add: backoffs_ok_def installed_def set_spg_backoffs_sorted)
qed

definition msg_backoff :: "MOSDBackoff \<Rightarrow> ceph_osd_backoff" where
  "msg_backoff m = \<lparr>bo_spgid = mb_spgid m, bo_id = mb_id m, bo_begin = mb_begin m, bo_end = mb_end m\<rparr>"

lemma msg_backoff_sel [simp]:
  "bo_spgid (msg_backoff m) = mb_spgid m" "bo_id (msg_backoff m) = mb_id m" "bo_begin (msg_backoff m) = mb_begin m"
  "bo_end (msg_backoff m) = mb_end m"
  by (simp_all add: msg_backoff_def)

text \<open>A backoff with the same id, or one of the same placement group with the same begin, is installed.\<close>

definition duplicate :: "'a osd_backoffs_scheme \<Rightarrow> ceph_osd_backoff \<Rightarrow> bool" where
  "duplicate osd b \<longleftrightarrow> (\<exists>c\<in>installed osd. bo_id c = bo_id b \<or> bo_spgid c = bo_spgid b \<and> begin_rank c = begin_rank b)"

lemma block_alloc_fails:
  assumes rb: "rb_code_ok rb" and ok: "backoffs_ok osd" and a: "\<not> a1 \<or> \<not> a2"
  shows "(\<exists>osd'. handle_backoff_block rb a1 a2 a3 osd m = Ok osd' \<and> backoffs_ok osd' \<and> installed osd' = installed osd) \<or>
     \<not> a1 \<and> a2 \<and> handle_backoff_block rb a1 a2 a3 osd m = handle_backoff_block rb True a2 a3 osd m"
proof (cases rule: get_spg_mapping_cases [OF rb ok, of a1 "mb_spgid m"])
  case 1
  then show ?thesis using ok by (simp add: handle_backoff_block_def)
next
  case (2 spg osd')
  show ?thesis
  proof (cases a2)
    case False
    then show ?thesis using 2 by (simp add: handle_backoff_block_def installed_def)
  next
    case True
    then have "\<not> a1" using a by simp
    then have "get_spg_mapping rb True osd (mb_spgid m) = get_spg_mapping rb a1 osd (mb_spgid m)"
      using 2(1) by (auto simp: get_spg_mapping_def split: option.splits)
    then show ?thesis using True \<open>\<not> a1\<close> by (simp add: handle_backoff_block_def)
  qed
qed

lemma block_installs:
  assumes rb: "rb_code_ok rb" and ok: "backoffs_ok osd" and fresh: "\<not> duplicate osd (msg_backoff m)"
  shows "\<exists>osd'. handle_backoff_block rb True True a3 osd m = Ok osd' \<and> backoffs_ok osd' \<and>
     installed osd' = insert (msg_backoff m) (installed osd) \<and>
     o_acks_sent osd' = o_acks_sent osd @ (if a3 then [backoff_message_bytes (msg_backoff m) (mb_map_epoch m)] else [])"
proof (cases rule: get_spg_mapping_cases [OF rb ok, of True "mb_spgid m"])
  case (2 spg osd1)
  let ?b = "msg_backoff m"
  have inst: "installed osd1 = installed osd" using 2(5) by (simp add: installed_def)
  have spg: "rb_sorted begin_rank (sm_backoffs spg)" "set_tree (sm_backoffs spg) = {b \<in> installed osd. bo_spgid b = mb_spgid m}"
    using backoffs_okD(2) [OF 2(4,2)] backoffs_of_spg [OF 2(4,2)] 2(3) inst by (simp_all add: spg_ok_def)
  have "begin_rank ?b \<notin> begin_rank ` set_tree (sm_backoffs spg)" using fresh by (auto simp: duplicate_def spg(2))
  then obtain bs where bs: "insert_rb (rb_backoff rb) hoid_compare bo_begin (sm_backoffs spg) ?b = Ok bs"
    "rb_sorted begin_rank bs" "set_tree bs = insert ?b (set_tree (sm_backoffs spg))"
    using rb_begins.insert_Ok [of "rb_backoff rb", OF _ spg(1), of ?b] rb by (auto simp: rb_code_ok_def)
  have "bo_id ?b \<notin> bo_id ` set_tree (o_backoffs_by_id osd)" using fresh by (auto simp: duplicate_def installed_def)
  then obtain ids where ids: "insert_rb (rb_backoff rb) RB_CMP3WAY bo_id (o_backoffs_by_id osd) ?b = Ok ids"
    "rb_sorted bo_id ids" "set_tree ids = insert ?b (installed osd)"
    using rb_ids.insert_Ok [of "rb_backoff rb", OF _ backoffs_okD(3) [OF ok], of ?b] rb by (auto simp: rb_code_ok_def installed_def)
  let ?osd = "osd1\<lparr>o_backoff_mappings := set_spg_backoffs (o_backoff_mappings osd1) spg bs, o_backoffs_by_id := ids\<rparr>"
  have ok1: "backoffs_ok ?osd" by (rule add_backoff_ok [OF 2(4,2)]) (use 2(3) bs ids inst in simp_all)
  have "backoffs_ok (?osd\<lparr>o_acks_sent := x\<rparr>)" for x using ok1 by (simp add: backoffs_ok_def installed_def)
  then show ?thesis
    using 2(1,5,6) bs(1) ids(1,3) ok1 by (simp add: handle_backoff_block_def Let_def msg_backoff_def [symmetric] create_backoff_message_Ok installed_def)
qed simp

lemma block_duplicate:
  assumes rb: "rb_code_ok rb" and ok: "backoffs_ok osd" and dup: "duplicate osd (msg_backoff m)"
  shows "handle_backoff_block rb True True a3 osd m = Oops Bug_On"
proof (cases rule: get_spg_mapping_cases [OF rb ok, of True "mb_spgid m"])
  case (2 spg osd1)
  let ?b = "msg_backoff m"
  have inst: "installed osd1 = installed osd" using 2(5) by (simp add: installed_def)
  have spg: "rb_sorted begin_rank (sm_backoffs spg)" "set_tree (sm_backoffs spg) = {b \<in> installed osd. bo_spgid b = mb_spgid m}"
    using backoffs_okD(2) [OF 2(4,2)] backoffs_of_spg [OF 2(4,2)] 2(3) inst by (simp_all add: spg_ok_def)
  have eq: "handle_backoff_block rb True True a3 osd m =
     bind_outcome (insert_rb (rb_backoff rb) hoid_compare bo_begin (sm_backoffs spg) ?b) (\<lambda>bs.
     bind_outcome (insert_rb (rb_backoff rb) RB_CMP3WAY bo_id (o_backoffs_by_id osd) ?b) (\<lambda>ids.
       let osd = osd1\<lparr>o_backoff_mappings := set_spg_backoffs (o_backoff_mappings osd1) spg bs, o_backoffs_by_id := ids\<rparr> in
       if \<not> a3 then Ok osd
       else bind_outcome (create_backoff_message ?b (mb_map_epoch m)) (\<lambda>msg. Ok (osd\<lparr>o_acks_sent := o_acks_sent osd @ [msg]\<rparr>))))"
    using 2(1,5) by (simp add: handle_backoff_block_def msg_backoff_def [symmetric] Let_def)
  show ?thesis
  proof (cases "begin_rank ?b \<in> begin_rank ` set_tree (sm_backoffs spg)")
    case True
    then show ?thesis using rb_begins.insert_Bug [OF spg(1)] eq by simp
  next
    case False
    then obtain bs where bs: "insert_rb (rb_backoff rb) hoid_compare bo_begin (sm_backoffs spg) ?b = Ok bs"
      using rb_begins.insert_Ok [of "rb_backoff rb", OF _ spg(1), of ?b] rb by (auto simp: rb_code_ok_def)
    have "bo_id ?b \<in> bo_id ` set_tree (o_backoffs_by_id osd)"
    proof -
      obtain c where c: "c \<in> installed osd" "bo_id c = bo_id ?b \<or> bo_spgid c = bo_spgid ?b \<and> begin_rank c = begin_rank ?b"
        using dup by (auto simp: duplicate_def)
      then have "bo_id c = bo_id ?b" using False by (auto simp: spg(2) image_iff)
      then show ?thesis using c(1) by (metis imageI installed_def)
    qed
    then show ?thesis using rb_ids.insert_Bug [OF backoffs_okD(3) [OF ok]] eq bs by simp
  qed
qed simp

lemma uninstall_unknown:
  assumes "backoffs_ok osd" and "mb_id m \<notin> bo_id ` installed osd"
  shows "uninstall_backoff rb osd m = Ok None"
  using rb_ids.lookup_None [OF backoffs_okD(3) [OF assms(1)], of "mb_id m"] assms(2)
  by (simp add: uninstall_backoff_def installed_def)

lemma installed_spg:
  assumes ok: "backoffs_ok osd" and b: "b \<in> installed osd"
  obtains spg where "lookup_rb ceph_spg_compare sm_spgid (o_backoff_mappings osd) (bo_spgid b) = Some spg"
    "spg \<in> set_tree (o_backoff_mappings osd)" "sm_spgid spg = bo_spgid b" "b \<in> set_tree (sm_backoffs spg)"
proof -
  obtain spg where spg: "spg \<in> set_tree (o_backoff_mappings osd)" "b \<in> set_tree (sm_backoffs spg)"
    using b unfolding backoffs_okD(4) [OF ok] by blast
  moreover have "sm_spgid spg = bo_spgid b" using backoffs_okD(2) [OF ok spg(1)] spg(2) by (simp add: spg_ok_def)
  ultimately show ?thesis using rb_mappings.lookup_Some [OF backoffs_okD(1) [OF ok], of "bo_spgid b" spg] by (intro that) simp_all
qed

text \<open>Taking a backoff out of its mapping, or the mapping out if it was the last one.\<close>

lemma remove_backoff_ok:
  assumes ok: "backoffs_ok osd" and spg: "spg \<in> set_tree (o_backoff_mappings osd)" and b: "b \<in> set_tree (sm_backoffs spg)"
    and bs: "rb_sorted begin_rank bs" "set_tree bs = set_tree (sm_backoffs spg) - {b}"
    and ids: "rb_sorted bo_id ids" "set_tree ids = installed osd - {b}"
    and ms: "rb_sorted (\<lambda>s. spg_key (sm_spgid s)) ms"
      "ms = set_spg_backoffs (o_backoff_mappings osd) spg bs \<or> bs = \<langle>\<rangle> \<and> set_tree ms = set_tree (o_backoff_mappings osd) - {spg}"
  shows "backoffs_ok (osd\<lparr>o_backoff_mappings := ms, o_backoffs_by_id := ids\<rparr>)"
proof -
  let ?rest = "\<Union>s\<in>set_tree (o_backoff_mappings osd) - {spg}. set_tree (sm_backoffs s)"
  have "b \<notin> set_tree (sm_backoffs s)" if "s \<in> set_tree (o_backoff_mappings osd)" "s \<noteq> spg" for s
  proof
    assume "b \<in> set_tree (sm_backoffs s)"
    then have "sm_spgid s = sm_spgid spg" using b backoffs_okD(2) [OF ok spg] backoffs_okD(2) [OF ok that(1)] by (metis spg_ok_def)
    then show False using rb_sorted_inj [OF backoffs_okD(1) [OF ok] that(1) spg] that(2) by simp
  qed
  then have "installed osd - {b} = ?rest \<union> set_tree bs"
    unfolding backoffs_okD(4) [OF ok] bs(2) using spg by blast
  moreover have "(\<Union>s\<in>set_tree ms. set_tree (sm_backoffs s)) = ?rest \<union> set_tree bs"
    using ms(2)
  proof
    assume "ms = set_spg_backoffs (o_backoff_mappings osd) spg bs"
    then show ?thesis by (simp add: set_spg_backoffs_Union [OF spg])
  qed simp
  moreover have "spg_ok s" if "s \<in> set_tree ms" for s
    using ms(2)
  proof
    assume "ms = set_spg_backoffs (o_backoff_mappings osd) spg bs"
    then show ?thesis using that backoffs_okD(2) [OF ok] spg bs by (auto simp: set_spg_backoffs_set spg_ok_def split: if_splits)
  qed (use that backoffs_okD(2) [OF ok] in simp)
  ultimately show ?thesis using ids ms(1) by (simp add: backoffs_ok_def installed_def)
qed

lemma uninstall_installed:
  assumes rb: "rb_code_ok rb" and ok: "backoffs_ok osd" and b: "b \<in> installed osd" "bo_id b = mb_id m"
  shows "\<exists>osd'. uninstall_backoff rb osd m = Ok (Some osd') \<and> backoffs_ok osd' \<and> installed osd' = installed osd - {b} \<and>
     o_acks_sent osd' = o_acks_sent osd"
proof -
  have l: "lookup_rb RB_CMP3WAY bo_id (o_backoffs_by_id osd) (mb_id m) = Some b"
    using rb_ids.lookup_Some [OF backoffs_okD(3) [OF ok], of "mb_id m" b] b by (simp add: installed_def)
  obtain spg where spg: "lookup_rb ceph_spg_compare sm_spgid (o_backoff_mappings osd) (bo_spgid b) = Some spg"
    "spg \<in> set_tree (o_backoff_mappings osd)" "b \<in> set_tree (sm_backoffs spg)"
    using installed_spg [OF ok b(1)] by blast
  have s: "rb_sorted begin_rank (sm_backoffs spg)" using backoffs_okD(2) [OF ok spg(2)] by (simp add: spg_ok_def)
  obtain bs where bs: "erase_rb (rb_backoff rb) (sm_backoffs spg) b = Ok bs" "rb_sorted begin_rank bs"
    "set_tree bs = set_tree (sm_backoffs spg) - {b}"
    using erase_Ok [of "rb_backoff rb", OF _ s spg(3)] rb by (auto simp: rb_code_ok_def)
  obtain ids where ids: "erase_rb (rb_backoff rb) (o_backoffs_by_id osd) b = Ok ids" "rb_sorted bo_id ids" "set_tree ids = installed osd - {b}"
    using erase_Ok [of "rb_backoff rb", OF _ backoffs_okD(3) [OF ok], of b] rb b(1) by (auto simp: rb_code_ok_def installed_def)
  obtain ms where ms: "(if bs = \<langle>\<rangle> then erase_rb (rb_spg rb) (o_backoff_mappings osd) spg
       else Ok (set_spg_backoffs (o_backoff_mappings osd) spg bs)) = Ok ms"
    "rb_sorted (\<lambda>s. spg_key (sm_spgid s)) ms"
    "ms = set_spg_backoffs (o_backoff_mappings osd) spg bs \<or> bs = \<langle>\<rangle> \<and> set_tree ms = set_tree (o_backoff_mappings osd) - {spg}"
    using erase_Ok [of "rb_spg rb", OF _ backoffs_okD(1) [OF ok] spg(2)] rb backoffs_okD(1) [OF ok]
    by (cases "bs = \<langle>\<rangle>") (auto simp: rb_code_ok_def set_spg_backoffs_sorted)
  let ?osd = "osd\<lparr>o_backoff_mappings := ms, o_backoffs_by_id := ids\<rparr>"
  have "backoffs_ok ?osd" by (rule remove_backoff_ok [OF ok spg(2,3) bs(2,3) ids(2,3) ms(2,3)])
  moreover have "uninstall_backoff rb osd m = Ok (Some ?osd)"
    unfolding uninstall_backoff_def l option.case spg(1) bs(1) bind_outcome.simps ids(1) ms(1) by (rule refl)
  ultimately show ?thesis using ids(3) by (simp add: installed_def)
qed

section \<open>Clearing\<close>

lemma inorder_Cons_set: "inorder t = x # xs \<Longrightarrow> x \<in> set_tree t"
  by (metis list.set_intros(1) set_inorder)

lemma clear_spg_Ok:
  assumes rb: "rb_code_ok rb"
  shows "rb_sorted begin_rank bs \<Longrightarrow> rb_sorted bo_id ids \<Longrightarrow> set_tree bs \<subseteq> set_tree ids \<Longrightarrow> size bs \<le> fuel \<Longrightarrow>
     \<exists>ids'. clear_spg rb fuel bs ids = Ok ids' \<and> rb_sorted bo_id ids' \<and> set_tree ids' = set_tree ids - set_tree bs"
proof (induction fuel arbitrary: bs ids)
  case 0
  then have "bs = \<langle>\<rangle>" by simp
  then show ?case using 0 by (simp add: clear_spg.simps [of rb 0])
next
  case (Suc fuel)
  show ?case
  proof (cases "inorder bs")
    case Nil
    then show ?thesis using Suc.prems by (simp add: clear_spg.simps [of rb "Suc fuel"])
  next
    case (Cons b xs)
    have b: "b \<in> set_tree bs" by (rule inorder_Cons_set [OF Cons])
    obtain bs' where bs': "erase_rb (rb_backoff rb) bs b = Ok bs'" "rb_sorted begin_rank bs'" "set_tree bs' = set_tree bs - {b}"
      using erase_Ok [of "rb_backoff rb", OF _ Suc.prems(1) b] rb by (auto simp: rb_code_ok_def)
    obtain ids' where ids': "erase_rb (rb_backoff rb) ids b = Ok ids'" "rb_sorted bo_id ids'" "set_tree ids' = set_tree ids - {b}"
      using erase_Ok [of "rb_backoff rb", OF _ Suc.prems(2), of b] rb b Suc.prems(3) by (auto simp: rb_code_ok_def)
    have card: "card (set_tree t) = size t" if "rb_sorted begin_rank t" for t
      using distinct_card [OF rb_sorted_distinct [OF that]] by simp
    have "size bs' \<le> fuel"
      using card [OF Suc.prems(1)] card [OF bs'(2)] bs'(3) b Suc.prems(4) by simp
    then obtain r where "clear_spg rb fuel bs' ids' = Ok r" "rb_sorted bo_id r" "set_tree r = set_tree ids' - set_tree bs'"
      using Suc.IH [OF bs'(2) ids'(2)] Suc.prems(3) bs'(3) ids'(3) by blast
    then show ?thesis
      using Cons bs'(1,3) ids'(1,3) b by (intro exI [of _ r]) (auto simp: clear_spg.simps [of rb "Suc fuel"])
  qed
qed

text \<open>The rounds that clearing needs: one for each mapping, and those of the mapping with the most backoffs.\<close>

definition clear_rounds :: "'a osd_backoffs_scheme \<Rightarrow> nat" where
  "clear_rounds osd = size (o_backoff_mappings osd) + size (o_backoffs_by_id osd)"

lemma clear_mappings_Ok:
  assumes rb: "rb_code_ok rb"
  shows "backoffs_ok osd \<Longrightarrow> clear_rounds osd \<le> fuel \<Longrightarrow>
     \<exists>osd'. clear_mappings rb fuel osd = Ok osd' \<and> o_backoff_mappings osd' = \<langle>\<rangle> \<and> o_backoffs_by_id osd' = \<langle>\<rangle> \<and>
       o_acks_sent osd' = o_acks_sent osd"
proof (induction fuel arbitrary: osd)
  case 0
  then have "o_backoff_mappings osd = \<langle>\<rangle>" "o_backoffs_by_id osd = \<langle>\<rangle>" by (simp_all add: clear_rounds_def)
  then show ?case by (simp add: clear_mappings.simps [of rb 0])
next
  case (Suc fuel)
  note ok = Suc.prems(1)
  show ?case
  proof (cases "inorder (o_backoff_mappings osd)")
    case Nil
    then have "o_backoff_mappings osd = \<langle>\<rangle>" by (cases "o_backoff_mappings osd") simp_all
    moreover have "set_tree (o_backoffs_by_id osd) = {}" using backoffs_okD(4) [OF ok] calculation by (simp add: installed_def)
    ultimately show ?thesis by (auto simp: clear_mappings.simps [of rb "Suc fuel"])
  next
    case (Cons spg xs)
    have spg: "spg \<in> set_tree (o_backoff_mappings osd)" by (rule inorder_Cons_set [OF Cons])
    have s: "rb_sorted begin_rank (sm_backoffs spg)" using backoffs_okD(2) [OF ok spg] by (simp add: spg_ok_def)
    have sub: "set_tree (sm_backoffs spg) \<subseteq> set_tree (o_backoffs_by_id osd)"
      using backoffs_okD(4) [OF ok] spg by (auto simp: installed_def)
    have card: "card (set_tree t) = size t" if "rb_sorted f t" for t and f :: "'b \<Rightarrow> 'c::linorder"
      using distinct_card [OF rb_sorted_distinct [OF that]] by simp
    have szb: "size (sm_backoffs spg) \<le> size (o_backoffs_by_id osd)"
      using card [OF s] card [OF backoffs_okD(3) [OF ok]] card_mono [OF _ sub] by simp
    have szm: "0 < size (o_backoff_mappings osd)" using spg by (cases "o_backoff_mappings osd") auto
    have "size (sm_backoffs spg) \<le> fuel" using szb szm Suc.prems(2) by (simp add: clear_rounds_def)
    then obtain ids where ids: "clear_spg rb fuel (sm_backoffs spg) (o_backoffs_by_id osd) = Ok ids" "rb_sorted bo_id ids"
      "set_tree ids = installed osd - set_tree (sm_backoffs spg)"
      using clear_spg_Ok [OF rb s backoffs_okD(3) [OF ok] sub] by (auto simp: installed_def)
    obtain ms where ms: "erase_rb (rb_spg rb) (o_backoff_mappings osd) spg = Ok ms" "rb_sorted (\<lambda>s. spg_key (sm_spgid s)) ms"
      "set_tree ms = set_tree (o_backoff_mappings osd) - {spg}"
      using erase_Ok [of "rb_spg rb", OF _ backoffs_okD(1) [OF ok] spg] rb by (auto simp: rb_code_ok_def)
    let ?osd = "osd\<lparr>o_backoff_mappings := ms, o_backoffs_by_id := ids\<rparr>"
    have other: "set_tree (sm_backoffs s) \<inter> set_tree (sm_backoffs spg) = {}" if "s \<in> set_tree ms" for s
      using that backoffs_of_spg [OF ok, of s] backoffs_of_spg [OF ok spg] rb_sorted_inj [OF backoffs_okD(1) [OF ok], of s spg] spg ms(3) by auto
    have "installed ?osd = (\<Union>s\<in>set_tree ms. set_tree (sm_backoffs s))"
      using other spg ms(3) by (auto simp: installed_def [of ?osd] ids(3) backoffs_okD(4) [OF ok])
    then have "backoffs_ok ?osd" using ms ids backoffs_okD(2) [OF ok] by (simp add: backoffs_ok_def)
    moreover have "clear_rounds ?osd \<le> fuel"
    proof -
      have "size ms < size (o_backoff_mappings osd)"
        using card [OF ms(2)] card [OF backoffs_okD(1) [OF ok]] ms(3) spg szm by simp
      moreover have "size ids \<le> size (o_backoffs_by_id osd)"
        using card [OF ids(2)] card [OF backoffs_okD(3) [OF ok]] ids(3) card_mono [of "installed osd" "set_tree ids"] by (auto simp: installed_def)
      ultimately show ?thesis using Suc.prems(2) by (simp add: clear_rounds_def)
    qed
    ultimately show ?thesis
      using Suc.IH [of ?osd] Cons ids(1) ms(1) by (simp add: clear_mappings.simps [of rb "Suc fuel"])
  qed
qed

section \<open>A small session\<close>

definition sample_hoid :: "u8 \<Rightarrow> ceph_hobject_id" where
  "sample_hoid n = ceph_hoid_build_hash_cache
     \<lparr>hoid_key = [], hoid_oid = [n], hoid_snapid = CEPH_HEAD_SNAP, hoid_hash = 0, hoid_is_max = 0, hoid_nspace = [], hoid_pool = 1,
      hoid_hash_reverse_bits = 0\<rparr>"

definition sample_spg :: ceph_spg where
  "sample_spg = \<lparr>spg_pgid = \<lparr>pg_pool = 0, pg_seed = 0\<rparr>, spg_shard = 0\<rparr>"

definition sample_backoff :: "u64 \<Rightarrow> u8 \<Rightarrow> u8 \<Rightarrow> ceph_osd_backoff" where
  "sample_backoff bid b e = \<lparr>bo_spgid = sample_spg, bo_id = bid, bo_begin = sample_hoid b, bo_end = sample_hoid e\<rparr>"

definition sample_session :: osd_backoffs where
  "sample_session =
     \<lparr>o_backoff_mappings = \<langle>\<langle>\<rangle>, \<lparr>sm_spgid = sample_spg, sm_backoffs = \<langle>\<langle>\<rangle>, sample_backoff 7 10 20, \<langle>\<rangle>\<rangle>\<rparr>, \<langle>\<rangle>\<rangle>,
      o_backoffs_by_id = \<langle>\<langle>\<rangle>, sample_backoff 7 10 20, \<langle>\<rangle>\<rangle>, o_acks_sent = []\<rparr>"

definition sample_block :: MOSDBackoff where
  "sample_block = \<lparr>mb_spgid = sample_spg, mb_map_epoch = 3, mb_op = CEPH_OSD_BACKOFF_OP_BLOCK, mb_id = 8,
     mb_begin = sample_hoid 30, mb_end = sample_hoid 40\<rparr>"

definition sample_rb :: rb_code where
  "sample_rb = \<lparr>rb_backoff = plain_rb, rb_spg = plain_rb\<rparr>"

lemma sample_rb_ok: "rb_code_ok sample_rb"
  by (simp add: rb_code_ok_def sample_rb_def rb_ok_plain)

lemma sample_session_ok: "backoffs_ok sample_session" "installed sample_session = {sample_backoff 7 10 20}"
  by (simp_all add: backoffs_ok_def spg_ok_def installed_def sample_session_def sample_backoff_def)

section \<open>Properties\<close>

text \<open>
  The comparison of object ids is a linear order: for any two ids, its result is the one of the lexicographic order of the
  maximum flag, the pool, the reversed hash, the namespace, the effective key, the name and the snapshot, with byte strings in their
  own lexicographic order.
\<close>

theorem hoid_compare_order: "hoid_compare lhs rhs = RB_CMP3WAY (hoid_order_key lhs) (hoid_order_key rhs)"
  by (rule hoid_compare_key)



text \<open>
  C22: A message that blocks a range installs its backoff: the trees by placement group and by id stay consistent and sorted, the
  installed backoffs are the old ones and the new one, and the acknowledgement is sent. But an OSD that sends an id again, or the
  same begin of a range in the same placement group, stops the machine: the insertion ends in a \<open>BUG\<close>.
\<close>

theorem handle_backoff_block_installs:
  assumes "rb_code_ok rb" and "backoffs_ok osd"
  shows "if duplicate osd (msg_backoff m) then handle_backoff_block rb True True True osd m = Oops Bug_On
     else \<exists>osd'. handle_backoff_block rb True True True osd m = Ok osd' \<and> backoffs_ok osd' \<and>
       installed osd' = insert (msg_backoff m) (installed osd) \<and>
       o_acks_sent osd' = o_acks_sent osd @ [backoff_message_bytes (msg_backoff m) (mb_map_epoch m)]"
  using block_installs [OF assms, of m True] block_duplicate [OF assms, of m True] by simp

theorem handle_backoff_block_installs_witness:
  "(\<exists>osd'. handle_backoff_block sample_rb True True True sample_session sample_block = Ok osd' \<and>
      installed osd' = {sample_backoff 7 10 20, sample_backoff 8 30 40}) \<and>
   handle_backoff_block sample_rb True True True sample_session (sample_block\<lparr>mb_id := 7\<rparr>) = Oops Bug_On"
proof -
  have "\<not> duplicate sample_session (msg_backoff sample_block)" "duplicate sample_session (msg_backoff (sample_block\<lparr>mb_id := 7\<rparr>))"
    by (simp_all add: duplicate_def sample_session_ok(2) msg_backoff_def sample_block_def sample_backoff_def sample_hoid_def
        hoid_order_key_def ceph_hoid_build_hash_cache_def hoid_get_effective_key_def)
  moreover have "msg_backoff sample_block = sample_backoff 8 30 40" by (simp add: msg_backoff_def sample_block_def sample_backoff_def)
  ultimately show ?thesis
    using handle_backoff_block_installs [OF sample_rb_ok sample_session_ok(1), of sample_block]
      handle_backoff_block_installs [OF sample_rb_ok sample_session_ok(1), of "sample_block\<lparr>mb_id := 7\<rparr>"] sample_session_ok(2)
    by (auto simp: insert_commute)
qed

text \<open>
  Clearing the backoffs of a session ends, without a \<open>BUG_ON\<close> in any of the removals, and leaves both trees empty; it takes at
  most as many rounds as there are mappings and backoffs.
\<close>

theorem clear_backoffs_empties:
  assumes "rb_code_ok rb" and "backoffs_ok osd" and "size (o_backoff_mappings osd) + size (o_backoffs_by_id osd) \<le> fuel"
  shows "\<exists>osd'. clear_backoffs rb fuel osd = Ok osd' \<and> o_backoff_mappings osd' = \<langle>\<rangle> \<and> o_backoffs_by_id osd' = \<langle>\<rangle> \<and>
     o_acks_sent osd' = o_acks_sent osd"
  using clear_mappings_Ok [OF assms(1,2), of fuel] assms(3) by (simp add: clear_backoffs_def clear_rounds_def)

theorem clear_backoffs_empties_witness:
  "\<exists>osd'. clear_backoffs sample_rb 2 sample_session = Ok osd' \<and> o_backoff_mappings osd' = \<langle>\<rangle> \<and> o_backoffs_by_id osd' = \<langle>\<rangle>"
proof -
  have "size (o_backoff_mappings sample_session) + size (o_backoffs_by_id sample_session) \<le> 2" by (simp add: sample_session_def)
  from clear_backoffs_empties [OF sample_rb_ok sample_session_ok(1) this] show ?thesis by blast
qed

text \<open>
  The acknowledgement of a backoff fills its buffer exactly, and the decoder of backoff messages reads back from it the placement
  group, the epoch, the id and both ends of the range. This holds for ids whose encoding fits the 32-bit length of a block.
\<close>

theorem backoff_message_roundtrip:
  assumes "hoid_ok (bo_begin backoff)" and "hoid_ok (bo_end backoff)"
    and "- 128 \<le> spg_shard (bo_spgid backoff)" and "spg_shard (bo_spgid backoff) < 128"
  shows "\<exists>msg. create_backoff_message backoff map_epoch = Ok msg \<and>
     decode_MOSDBackoff (\<lambda>_. True) True True msg =
       Ok \<lparr>mb_spgid = bo_spgid backoff, mb_map_epoch = map_epoch, mb_op = CEPH_OSD_BACKOFF_OP_ACK_BLOCK, mb_id = bo_id backoff,
           mb_begin = bo_begin backoff, mb_end = bo_end backoff\<rparr>"
  using create_backoff_message_Ok decode_backoff_message [OF assms] by blast

theorem backoff_message_roundtrip_witness:
  "\<exists>msg. create_backoff_message (sample_backoff 7 10 20) 3 = Ok msg \<and>
     decode_MOSDBackoff (\<lambda>_. True) True True msg =
       Ok \<lparr>mb_spgid = sample_spg, mb_map_epoch = 3, mb_op = CEPH_OSD_BACKOFF_OP_ACK_BLOCK, mb_id = 7,
           mb_begin = sample_hoid 10, mb_end = sample_hoid 20\<rparr>"
proof -
  have h: "hoid_ok (sample_hoid n)" for n by (simp add: hoid_ok_def sample_hoid_def ceph_hoid_build_hash_cache_def hoid_encoding_size_def)
  have b: "hoid_ok (bo_begin (sample_backoff 7 10 20))" "hoid_ok (bo_end (sample_backoff 7 10 20))"
    "- 128 \<le> spg_shard (bo_spgid (sample_backoff 7 10 20))" "spg_shard (bo_spgid (sample_backoff 7 10 20)) < 128"
    using h by (simp_all add: sample_backoff_def sample_spg_def)
  from backoff_message_roundtrip [OF b, of 3] show ?thesis by (simp add: sample_backoff_def)
qed

end
