(* ===== verification/OsdClient.thy ===== *)
theory OsdClient
  imports OsdBackoff
begin

text \<open>
  The OSD client (\<open>libceph/osd_client.c\<close>): sessions with OSDs, the requests linked to them, and what happens to requests when they are
  submitted, when the map changes, when a connection breaks, when a reply or a backoff arrives and when they are aborted or time out.

  The model is the client without linger requests (watches). Requests are objects in a store, and the trees hold their addresses; a tree whose
  shape no code looks at is the list of its nodes in their order. Sessions are named by the number of their OSD. What the client hands to
  the messenger, to the monitor client and to the work queue is recorded in a log.
\<close>

unbundle bit_operations_syntax

section \<open>Data\<close>

record osd_op_result =
  op_rval :: u32
  op_outdata_len :: u32

record ceph_osd_request =
  r_tid :: u64
  r_osd :: "int option"
  r_t :: ceph_osd_request_target
  r_sent :: int
  r_ops :: "osd_op_result list"
  r_result :: u32
  r_version :: u64
  r_stamp :: u64
  r_start_stamp :: u64
  r_attempts :: int
  r_map_dne_bound :: u32

record ceph_osd =
  o_osd :: int
  o_incarnation :: int
  o_con_peer_addr :: ceph_entity_addr
  o_con_opened :: bool
  o_requests :: "nat list"
  o_backoffs :: osd_backoffs
  lru_ttl :: u64

text \<open>
  \<open>Op_Sent\<close> has the number of the OSD and the request as it is when its message is built. Results are the negative errno values of the code.
\<close>

datatype osdc_event =
    Op_Sent int nat ceph_osd_request
  | Op_Completed nat u32
  | Op_Cancelled nat
  | Con_Open int ceph_entity_addr
  | Con_Close int
  | Con_Keepalive int
  | Sub_Renew u32 bool
  | Get_Version u64

text \<open>The subscription of the monitor client to OSD maps (\<open>subs[CEPH_SUB_OSDMAP]\<close>).\<close>

record mon_sub =
  sub_want :: bool
  sub_start :: u64
  sub_onetime :: bool
  sub_have :: u32

record ceph_osd_client = osdc_maps +
  osdc_reqs :: "nat \<Rightarrow> ceph_osd_request"
  osds :: "ceph_osd list"
  homeless_osd :: ceph_osd
  osd_lru :: "int list"
  last_tid :: u64
  map_checks :: "nat list"
  num_requests :: int
  num_homeless :: int
  abort_err :: u32
  opt_abort_on_full :: bool
  opt_osd_idle_ttl :: u64
  opt_osd_keepalive_timeout :: u64
  opt_osd_request_timeout :: u64
  osdc_jiffies :: u64
  osdc_random :: "nat \<Rightarrow> u32"
  osdc_draws :: nat
  osdc_rb :: rb_code
  osdc_sub :: mon_sub
  osdc_log :: "osdc_event list"

abbreviation (input) neg_errno :: "nat \<Rightarrow> u32" where "neg_errno n \<equiv> - of_nat n"
abbreviation (input) ENOENT_ERR :: u32 where "ENOENT_ERR \<equiv> - 2"
abbreviation (input) EIO_ERR :: u32 where "EIO_ERR \<equiv> - 5"
abbreviation (input) EAGAIN_ERR :: u32 where "EAGAIN_ERR \<equiv> - 11"
abbreviation (input) ENOSPC_ERR :: u32 where "ENOSPC_ERR \<equiv> - 28"
abbreviation (input) ETIMEDOUT_ERR :: u32 where "ETIMEDOUT_ERR \<equiv> - 110"

definition log_event :: "osdc_event \<Rightarrow> ceph_osd_client \<Rightarrow> ceph_osd_client" where
  "log_event e osdc = osdc\<lparr>osdc_log := osdc_log osdc @ [e]\<rparr>"

definition upd_req :: "nat \<Rightarrow> (ceph_osd_request \<Rightarrow> ceph_osd_request) \<Rightarrow> ceph_osd_client \<Rightarrow> ceph_osd_client" where
  "upd_req req f osdc = osdc\<lparr>osdc_reqs := (osdc_reqs osdc)(req := f (osdc_reqs osdc req))\<rparr>"

definition find_osd :: "ceph_osd_client \<Rightarrow> int \<Rightarrow> ceph_osd option" where
  "find_osd osdc onum = (if onum = CEPH_HOMELESS_OSD then Some (homeless_osd osdc) else find (\<lambda>osd. o_osd osd = onum) (osds osdc))"

definition upd_osd :: "int \<Rightarrow> (ceph_osd \<Rightarrow> ceph_osd) \<Rightarrow> ceph_osd_client \<Rightarrow> ceph_osd_client" where
  "upd_osd onum f osdc =
     (if onum = CEPH_HOMELESS_OSD then osdc\<lparr>homeless_osd := f (homeless_osd osdc)\<rparr>
      else osdc\<lparr>osds := map (\<lambda>osd. if o_osd osd = onum then f osd else osd) (osds osdc)\<rparr>)"

text \<open>The use of a session that is gone is a fault.\<close>

definition get_osd :: "ceph_osd_client \<Rightarrow> int \<Rightarrow> ceph_osd outcome" where
  "get_osd osdc onum = (case find_osd osdc onum of None \<Rightarrow> Oops Bad_Access | Some osd \<Rightarrow> Ok osd)"

text \<open>\<open>insert_request\<close> and \<open>erase_request\<close> on a tree ordered by the request ids.\<close>

fun insert_request :: "(nat \<Rightarrow> u64) \<Rightarrow> nat list \<Rightarrow> nat \<Rightarrow> nat list outcome" where
  "insert_request tid [] req = Ok [req]"
| "insert_request tid (cur # reqs) req =
     (if tid req < tid cur then Ok (req # cur # reqs)
      else if tid req > tid cur then bind_outcome (insert_request tid reqs req) (\<lambda>reqs. Ok (cur # reqs))
      else Oops Bug_On)"

definition erase_request :: "nat list \<Rightarrow> nat \<Rightarrow> nat list outcome" where
  "erase_request reqs req = (if req \<in> set reqs then Ok (remove1 req reqs) else Oops Bug_On)"

definition tid_of :: "ceph_osd_client \<Rightarrow> nat \<Rightarrow> u64" where
  "tid_of osdc req = r_tid (osdc_reqs osdc req)"

text \<open>A loop over a snapshot of a tree, whose body only takes out the node it is at.\<close>

fun for_each :: "('a \<Rightarrow> 's \<Rightarrow> 's outcome) \<Rightarrow> 'a list \<Rightarrow> 's \<Rightarrow> 's outcome" where
  "for_each f [] s = Ok s"
| "for_each f (x # xs) s = bind_outcome (f x s) (for_each f xs)"

section \<open>Sessions\<close>

definition move_osd_to_lru :: "int \<Rightarrow> ceph_osd_client \<Rightarrow> ceph_osd_client outcome" where
  "move_osd_to_lru onum osdc =
     (if onum \<in> set (osd_lru osdc) then Oops Bug_On
      else Ok (upd_osd onum (\<lambda>osd. osd\<lparr>lru_ttl := osdc_jiffies osdc + opt_osd_idle_ttl osdc\<rparr>) (osdc\<lparr>osd_lru := osd_lru osdc @ [onum]\<rparr>)))"

definition maybe_move_osd_to_lru :: "int \<Rightarrow> ceph_osd_client \<Rightarrow> ceph_osd_client outcome" where
  "maybe_move_osd_to_lru onum osdc =
     bind_outcome (get_osd osdc onum) (\<lambda>osd. if o_requests osd = [] then move_osd_to_lru onum osdc else Ok osdc)"

definition remove_osd_from_lru :: "int \<Rightarrow> ceph_osd_client \<Rightarrow> ceph_osd_client" where
  "remove_osd_from_lru onum osdc = osdc\<lparr>osd_lru := removeAll onum (osd_lru osdc)\<rparr>"

definition link_request :: "int \<Rightarrow> nat \<Rightarrow> ceph_osd_client \<Rightarrow> ceph_osd_client outcome" where
  "link_request onum req osdc =
     (let osdc = (if onum \<noteq> CEPH_HOMELESS_OSD then remove_osd_from_lru onum osdc else osdc\<lparr>num_homeless := num_homeless osdc + 1\<rparr>) in
      bind_outcome (get_osd osdc onum) (\<lambda>osd.
      bind_outcome (insert_request (tid_of osdc) (o_requests osd) req) (\<lambda>reqs.
        Ok (upd_req req (\<lambda>r. r\<lparr>r_osd := Some onum\<rparr>) (upd_osd onum (\<lambda>osd. osd\<lparr>o_requests := reqs\<rparr>) osdc)))))"

definition unlink_request :: "int \<Rightarrow> nat \<Rightarrow> ceph_osd_client \<Rightarrow> ceph_osd_client outcome" where
  "unlink_request onum req osdc =
     bind_outcome (get_osd osdc onum) (\<lambda>osd.
     bind_outcome (erase_request (o_requests osd) req) (\<lambda>reqs.
       let osdc = upd_osd onum (\<lambda>osd. osd\<lparr>o_requests := reqs\<rparr>) (upd_req req (\<lambda>r. r\<lparr>r_osd := None\<rparr>) osdc) in
       if onum \<noteq> CEPH_HOMELESS_OSD then maybe_move_osd_to_lru onum osdc else Ok (osdc\<lparr>num_homeless := num_homeless osdc - 1\<rparr>)))"

definition osd_reqs :: "ceph_osd_client \<Rightarrow> int \<Rightarrow> nat list outcome" where
  "osd_reqs osdc onum = bind_outcome (get_osd osdc onum) (\<lambda>osd. Ok (o_requests osd))"

definition close_osd :: "int \<Rightarrow> ceph_osd_client \<Rightarrow> ceph_osd_client outcome" where
  "close_osd onum osdc =
     bind_outcome (osd_reqs osdc onum) (\<lambda>reqs.
     bind_outcome
       (for_each (\<lambda>req osdc. bind_outcome (unlink_request onum req osdc) (link_request CEPH_HOMELESS_OSD req)) reqs (log_event (Con_Close onum) osdc)) (\<lambda>osdc.
     bind_outcome (get_osd osdc onum) (\<lambda>osd.
     bind_outcome (clear_backoffs (osdc_rb osdc) (osdc_fuel osdc) (o_backoffs osd)) (\<lambda>backoffs.
       Ok ((remove_osd_from_lru onum osdc)\<lparr>osds := filter (\<lambda>osd. o_osd osd \<noteq> onum) (osds osdc)\<rparr>)))))"

text \<open>The connection to an address of the map; reading the address outside the map is a fault.\<close>

definition osd_addr_of :: "ceph_osd_client \<Rightarrow> int \<Rightarrow> ceph_entity_addr outcome" where
  "osd_addr_of osdc onum = (if onum < 0 then Oops Bad_Access else aref (osd_addr (osdc_osdmap osdc)) (nat onum))"

definition create_osd :: "int \<Rightarrow> ceph_entity_addr \<Rightarrow> ceph_osd" where
  "create_osd onum addr =
     \<lparr>o_osd = onum, o_incarnation = 1, o_con_peer_addr = addr, o_con_opened = False, o_requests = [],
      o_backoffs = \<lparr>o_backoff_mappings = \<langle>\<rangle>, o_backoffs_by_id = \<langle>\<rangle>, o_acks_sent = []\<rparr>, lru_ttl = 0\<rparr>"

text \<open>The result of \<open>reopen_osd\<close> is whether the requests have to be sent again.\<close>

definition reopen_osd :: "int \<Rightarrow> ceph_osd_client \<Rightarrow> (bool \<times> ceph_osd_client) outcome" where
  "reopen_osd onum osdc =
     bind_outcome (get_osd osdc onum) (\<lambda>osd.
     if o_requests osd = [] then bind_outcome (close_osd onum osdc) (\<lambda>osdc. Ok (False, osdc))
     else
       bind_outcome (osd_addr_of osdc onum) (\<lambda>addr.
       if addr = o_con_peer_addr osd \<and> \<not> o_con_opened osd then
         Ok (False, foldl (\<lambda>osdc req. upd_req req (\<lambda>r. r\<lparr>r_stamp := osdc_jiffies osdc\<rparr>) osdc) osdc (o_requests osd))
       else
         Ok (True, log_event (Con_Open onum addr) (log_event (Con_Close onum)
           (upd_osd onum (\<lambda>osd. osd\<lparr>o_con_peer_addr := addr, o_con_opened := False, o_incarnation := o_incarnation osd + 1\<rparr>) osdc)))))"

fun insert_osd :: "ceph_osd list \<Rightarrow> ceph_osd \<Rightarrow> ceph_osd list outcome" where
  "insert_osd [] osd = Ok [osd]"
| "insert_osd (cur # xs) osd =
     (if o_osd osd < o_osd cur then Ok (osd # cur # xs)
      else if o_osd osd > o_osd cur then bind_outcome (insert_osd xs osd) (\<lambda>xs. Ok (cur # xs))
      else Oops Bug_On)"

definition lookup_create_osd :: "int \<Rightarrow> bool \<Rightarrow> ceph_osd_client \<Rightarrow> ceph_osd_client outcome" where
  "lookup_create_osd onum wrlocked osdc =
     (case find_osd osdc onum of
        Some osd \<Rightarrow> Ok osdc
      | None \<Rightarrow>
          if \<not> wrlocked then Err EAGAIN
          else
            bind_outcome (osd_addr_of osdc onum) (\<lambda>addr.
            bind_outcome (insert_osd (osds osdc) (create_osd onum addr)) (\<lambda>os.
              Ok (log_event (Con_Open onum addr) (osdc\<lparr>osds := os\<rparr>)))))"

section \<open>Sending\<close>

definition send_request :: "nat \<Rightarrow> ceph_osd_client \<Rightarrow> ceph_osd_client outcome" where
  "send_request req osdc =
     (case r_osd (osdc_reqs osdc req) of
        None \<Rightarrow> Oops Bad_Access
      | Some onum \<Rightarrow>
          bind_outcome (get_osd osdc onum) (\<lambda>osd.
          if should_plug_request (o_backoffs osd) (r_t (osdc_reqs osdc req)) then Ok osdc
          else
            let r = osdc_reqs osdc req;
                flags = t_flags (r_t r) OR CEPH_OSD_FLAG_KNOWN_REDIR;
                flags = (if r_attempts r \<noteq> 0 then flags OR CEPH_OSD_FLAG_RETRY else flags);
                r = r\<lparr>r_t := (r_t r)\<lparr>t_flags := flags, t_paused := False\<rparr>, r_stamp := osdc_jiffies osdc,
                      r_attempts := r_attempts r + 1, r_sent := o_incarnation osd\<rparr> in
            Ok (log_event (Op_Sent onum req r) (upd_req req (\<lambda>_. r) osdc))))"

text \<open>\<open>__ceph_monc_want_map\<close> and \<open>__ceph_monc_got_map\<close> of the monitor client.\<close>

definition ceph_monc_want_map :: "u32 \<Rightarrow> bool \<Rightarrow> mon_sub \<Rightarrow> bool \<times> mon_sub" where
  "ceph_monc_want_map epoch continuous sub =
     (if sub_want sub \<and> sub_start sub = ucast epoch \<and> sub_onetime sub = (\<not> continuous) then (False, sub)
      else (True, sub\<lparr>sub_start := ucast epoch, sub_onetime := \<not> continuous, sub_want := True\<rparr>))"

definition ceph_monc_got_map :: "u32 \<Rightarrow> mon_sub \<Rightarrow> mon_sub" where
  "ceph_monc_got_map epoch sub =
     (let sub = (if sub_want sub then
                   (if sub_onetime sub then sub\<lparr>sub_want := False\<rparr> else sub\<lparr>sub_start := ucast (epoch + 1)\<rparr>) else sub) in
      sub\<lparr>sub_have := epoch\<rparr>)"

definition maybe_request_map :: "ceph_osd_client \<Rightarrow> ceph_osd_client" where
  "maybe_request_map osdc =
     (let continuous = (ceph_osdmap_flag osdc CEPH_OSDMAP_FULL \<or> ceph_osdmap_flag osdc CEPH_OSDMAP_PAUSERD \<or>
            ceph_osdmap_flag osdc CEPH_OSDMAP_PAUSEWR);
          epoch = osdmap_epoch (osdc_osdmap osdc) + 1;
          (renew, sub) = ceph_monc_want_map epoch continuous (osdc_sub osdc);
          osdc = osdc\<lparr>osdc_sub := sub\<rparr> in
      if renew then log_event (Sub_Renew epoch continuous) osdc else osdc)"

text \<open>\<open>calc_target\<close> on a request: the target is updated in place, CRUSH uses the memory of the client and each call may draw a random number.\<close>

definition calc_req_target :: "nat \<Rightarrow> ceph_osd_client \<Rightarrow> (calc_target_result \<times> ceph_osd_client) outcome" where
  "calc_req_target req osdc =
     bind_outcome (calc_target osdc (osdc_random osdc (osdc_draws osdc)) (r_t (osdc_reqs osdc req)) False) (\<lambda>(res, t, cm).
       Ok (res, upd_req req (\<lambda>r. r\<lparr>r_t := t\<rparr>) (osdc\<lparr>osdc_crush_memory := cm, osdc_draws := Suc (osdc_draws osdc)\<rparr>)))"

section \<open>Completion\<close>

definition finish_request :: "nat \<Rightarrow> ceph_osd_client \<Rightarrow> ceph_osd_client outcome" where
  "finish_request req osdc =
     bind_outcome
       (case r_osd (osdc_reqs osdc req) of None \<Rightarrow> Ok osdc | Some onum \<Rightarrow> unlink_request onum req osdc) (\<lambda>osdc.
       Ok (osdc\<lparr>num_requests := num_requests osdc - 1\<rparr>))"

text \<open>The callback runs later, on a work queue or after the locks are dropped.\<close>

definition complete_request :: "nat \<Rightarrow> u32 \<Rightarrow> ceph_osd_client \<Rightarrow> ceph_osd_client outcome" where
  "complete_request req err osdc =
     bind_outcome (finish_request req (upd_req req (\<lambda>r. r\<lparr>r_result := err\<rparr>) osdc)) (\<lambda>osdc.
       Ok (log_event (Op_Completed req err) osdc))"

text \<open>\<open>map_checks\<close> is ordered by the request ids; \<open>lookup_request_mc\<close> finds the request with an id.\<close>

definition lookup_request_mc :: "ceph_osd_client \<Rightarrow> u64 \<Rightarrow> nat option" where
  "lookup_request_mc osdc tid = find (\<lambda>req. tid_of osdc req = tid) (map_checks osdc)"

definition cancel_map_check :: "nat \<Rightarrow> ceph_osd_client \<Rightarrow> ceph_osd_client outcome" where
  "cancel_map_check req osdc =
     (case lookup_request_mc osdc (tid_of osdc req) of
        None \<Rightarrow> Ok osdc
      | Some _ \<Rightarrow> bind_outcome (erase_request (map_checks osdc) req) (\<lambda>mc. Ok (osdc\<lparr>map_checks := mc\<rparr>)))"

definition cancel_request :: "nat \<Rightarrow> ceph_osd_client \<Rightarrow> ceph_osd_client outcome" where
  "cancel_request req osdc =
     bind_outcome (cancel_map_check req osdc) (\<lambda>osdc.
     bind_outcome (finish_request req osdc) (\<lambda>osdc. Ok (log_event (Op_Cancelled req) osdc)))"

definition ceph_osdc_cancel_request :: "nat \<Rightarrow> ceph_osd_client \<Rightarrow> ceph_osd_client outcome" where
  "ceph_osdc_cancel_request req osdc = (if r_osd (osdc_reqs osdc req) \<noteq> None then cancel_request req osdc else Ok osdc)"

definition abort_request :: "u32 \<Rightarrow> nat \<Rightarrow> ceph_osd_client \<Rightarrow> ceph_osd_client outcome" where
  "abort_request err req osdc = bind_outcome (cancel_map_check req osdc) (complete_request req err)"

text \<open>The requests in the order of \<open>for_each_request\<close>: those of the sessions, then the homeless ones.\<close>

definition all_requests :: "ceph_osd_client \<Rightarrow> nat list" where
  "all_requests osdc = concat (map o_requests (osds osdc)) @ o_requests (homeless_osd osdc)"

definition ceph_osdc_abort_requests :: "u32 \<Rightarrow> ceph_osd_client \<Rightarrow> ceph_osd_client outcome" where
  "ceph_osdc_abort_requests err osdc =
     bind_outcome (for_each (abort_request err) (all_requests osdc) osdc) (\<lambda>osdc. Ok (osdc\<lparr>abort_err := err\<rparr>))"

definition ceph_osdc_clear_abort_err :: "ceph_osd_client \<Rightarrow> ceph_osd_client" where
  "ceph_osdc_clear_abort_err osdc = osdc\<lparr>abort_err := 0\<rparr>"

definition update_epoch_barrier :: "u32 \<Rightarrow> ceph_osd_client \<Rightarrow> ceph_osd_client" where
  "update_epoch_barrier eb osdc =
     (if eb > osdc_epoch_barrier osdc then
        let osdc = osdc\<lparr>osdc_epoch_barrier := eb\<rparr> in
        if eb > osdmap_epoch (osdc_osdmap osdc) then maybe_request_map osdc else osdc
      else osdc)"

text \<open>The state of the loop has the flag \<open>victims\<close>.\<close>

definition abort_on_full_fn :: "nat \<Rightarrow> bool \<times> ceph_osd_client \<Rightarrow> (bool \<times> ceph_osd_client) outcome" where
  "abort_on_full_fn req = (\<lambda>(victims, osdc).
     let t = r_t (osdc_reqs osdc req) in
     if t_flags t AND CEPH_OSD_FLAG_WRITE \<noteq> 0 \<and>
        (ceph_osdmap_flag osdc CEPH_OSDMAP_FULL \<or> pool_full osdc (oloc_pool (t_base_oloc t))) then
       let osdc = (if \<not> victims then update_epoch_barrier (osdmap_epoch (osdc_osdmap osdc)) osdc else osdc) in
       bind_outcome (abort_request ENOSPC_ERR req osdc) (\<lambda>osdc. Ok (True, osdc))
     else Ok (victims, osdc))"

text \<open>\<open>pools\<close> lists the pools of the map in the order of their numbers.\<close>

definition have_pool_full :: "int list \<Rightarrow> ceph_osd_client \<Rightarrow> bool" where
  "have_pool_full pools osdc \<longleftrightarrow> list_ex (pool_full osdc) pools"

definition ceph_osdc_abort_on_full :: "int list \<Rightarrow> ceph_osd_client \<Rightarrow> ceph_osd_client outcome" where
  "ceph_osdc_abort_on_full pools osdc =
     (if opt_abort_on_full osdc \<and> (ceph_osdmap_flag osdc CEPH_OSDMAP_FULL \<or> have_pool_full pools osdc) then
        bind_outcome (for_each abort_on_full_fn (all_requests osdc) (False, osdc)) (\<lambda>(victims, osdc). Ok osdc)
      else Ok osdc)"

section \<open>Pools that do not exist\<close>

definition send_map_check :: "nat \<Rightarrow> ceph_osd_client \<Rightarrow> ceph_osd_client outcome" where
  "send_map_check req osdc =
     (case lookup_request_mc osdc (tid_of osdc req) of
        Some _ \<Rightarrow> Ok osdc
      | None \<Rightarrow>
          bind_outcome (insert_request (tid_of osdc) (map_checks osdc) req) (\<lambda>mc.
            Ok (log_event (Get_Version (tid_of osdc req)) (osdc\<lparr>map_checks := mc\<rparr>))))"

definition check_pool_dne :: "nat \<Rightarrow> ceph_osd_client \<Rightarrow> ceph_osd_client outcome" where
  "check_pool_dne req osdc =
     (let epoch = osdmap_epoch (osdc_osdmap osdc);
          osdc = (if r_attempts (osdc_reqs osdc req) \<noteq> 0 then upd_req req (\<lambda>r. r\<lparr>r_map_dne_bound := epoch\<rparr>) osdc else osdc);
          bound = r_map_dne_bound (osdc_reqs osdc req) in
      if bound \<noteq> 0 then (if epoch \<ge> bound then complete_request req ENOENT_ERR osdc else Ok osdc)
      else send_map_check req osdc)"

definition map_check_cb :: "u64 \<Rightarrow> u64 \<Rightarrow> ceph_osd_client \<Rightarrow> ceph_osd_client outcome" where
  "map_check_cb tid newest osdc =
     (case lookup_request_mc osdc tid of
        None \<Rightarrow> Ok osdc
      | Some req \<Rightarrow>
          let osdc = (if r_map_dne_bound (osdc_reqs osdc req) = 0 then upd_req req (\<lambda>r. r\<lparr>r_map_dne_bound := ucast newest\<rparr>) osdc else osdc) in
          bind_outcome (erase_request (map_checks osdc) req) (\<lambda>mc.
            check_pool_dne req (osdc\<lparr>map_checks := mc\<rparr>)))"

section \<open>Submission\<close>

abbreviation (input) CEPH_OSD_FLAG_ONDISK :: u32 where "CEPH_OSD_FLAG_ONDISK \<equiv> 4"

text \<open>
  What is decided about a request before it is linked: the error it fails with (0 if none), whether it is paused, whether a newer map is
  asked for and whether it is sent.
\<close>

definition submit_decision :: "ceph_osd_client \<Rightarrow> ceph_osd_request_target \<Rightarrow> u32 \<times> bool \<times> bool \<times> bool" where
  "submit_decision osdc t =
     (if abort_err osdc \<noteq> 0 then (abort_err osdc, False, False, False)
      else if osdmap_epoch (osdc_osdmap osdc) < osdc_epoch_barrier osdc then (0, True, True, False)
      else if t_flags t AND CEPH_OSD_FLAG_WRITE \<noteq> 0 \<and> ceph_osdmap_flag osdc CEPH_OSDMAP_PAUSEWR then (0, True, True, False)
      else if t_flags t AND CEPH_OSD_FLAG_READ \<noteq> 0 \<and> ceph_osdmap_flag osdc CEPH_OSDMAP_PAUSERD then (0, True, True, False)
      else if t_flags t AND CEPH_OSD_FLAG_WRITE \<noteq> 0 \<and>
              t_flags t AND (CEPH_OSD_FLAG_FULL_TRY OR CEPH_OSD_FLAG_FULL_FORCE) = 0 \<and>
              (ceph_osdmap_flag osdc CEPH_OSDMAP_FULL \<or> pool_full osdc (oloc_pool (t_base_oloc t))) then
        (if opt_abort_on_full osdc then (ENOSPC_ERR, False, False, False) else (0, True, True, False))
      else if t_osd t \<noteq> CEPH_HOMELESS_OSD then (0, False, False, True)
      else (0, False, True, False))"

text \<open>From the session that has been found on; \<open>ct_res\<close> is the result of \<open>calc_target\<close>.\<close>

definition submit_linked :: "nat \<Rightarrow> calc_target_result \<Rightarrow> ceph_osd_client \<Rightarrow> ceph_osd_client outcome" where
  "submit_linked req ct_res osdc =
     (let t = r_t (osdc_reqs osdc req);
          (err, paused, want_map, need_send) = submit_decision osdc t;
          osdc = (if paused then upd_req req (\<lambda>r. r\<lparr>r_t := (r_t r)\<lparr>t_paused := True\<rparr>\<rparr>) osdc else osdc);
          osdc = (if want_map then maybe_request_map osdc else osdc);
          tid = last_tid osdc + 1;
          osdc = upd_req req (\<lambda>r. r\<lparr>r_tid := tid\<rparr>) (osdc\<lparr>last_tid := tid\<rparr>) in
      bind_outcome (link_request (t_osd t) req osdc) (\<lambda>osdc.
      bind_outcome
        (if need_send then send_request req osdc else if err \<noteq> 0 then complete_request req err osdc else Ok osdc) (\<lambda>osdc.
        if err = 0 \<and> ct_res = CALC_TARGET_POOL_DNE then send_map_check req osdc else Ok osdc)))"

text \<open>One round of \<open>__submit_request\<close> from \<open>again\<close>; the result says whether the lock has to be promoted first.\<close>

definition submit_round :: "nat \<Rightarrow> bool \<Rightarrow> ceph_osd_client \<Rightarrow> (bool \<times> ceph_osd_client) outcome" where
  "submit_round req wrlocked osdc =
     bind_outcome (calc_req_target req osdc) (\<lambda>(ct_res, osdc).
     if ct_res = CALC_TARGET_POOL_DNE \<and> \<not> wrlocked then Ok (True, osdc)
     else
       case lookup_create_osd (t_osd (r_t (osdc_reqs osdc req))) wrlocked osdc of
         Err e \<Rightarrow> Ok (True, osdc)
       | Oops f \<Rightarrow> Oops f
       | Ok osdc \<Rightarrow> bind_outcome (submit_linked req ct_res osdc) (\<lambda>osdc. Ok (False, osdc)))"

text \<open>The second round has the lock for writing, so it is the last one. Nothing comes between the two rounds.\<close>

definition submit_request_locked :: "nat \<Rightarrow> bool \<Rightarrow> ceph_osd_client \<Rightarrow> ceph_osd_client outcome" where
  "submit_request_locked req wrlocked osdc =
     bind_outcome (submit_round req wrlocked osdc) (\<lambda>(promote, osdc).
       if promote then bind_outcome (submit_round req True osdc) (\<lambda>(promote, osdc). Ok osdc) else Ok osdc)"

definition account_request :: "nat \<Rightarrow> ceph_osd_client \<Rightarrow> ceph_osd_client" where
  "account_request req osdc =
     upd_req req (\<lambda>r. r\<lparr>r_t := (r_t r)\<lparr>t_flags := t_flags (r_t r) OR CEPH_OSD_FLAG_ONDISK\<rparr>, r_start_stamp := osdc_jiffies osdc\<rparr>)
       (osdc\<lparr>num_requests := num_requests osdc + 1\<rparr>)"

definition submit_request :: "nat \<Rightarrow> bool \<Rightarrow> ceph_osd_client \<Rightarrow> ceph_osd_client outcome" where
  "submit_request req wrlocked osdc = submit_request_locked req wrlocked (account_request req osdc)"

definition ceph_osdc_start_request :: "nat \<Rightarrow> ceph_osd_client \<Rightarrow> ceph_osd_client outcome" where
  "ceph_osdc_start_request req osdc = submit_request req False osdc"

section \<open>Maps\<close>

definition set_pool_was_full :: "ceph_osdmap \<Rightarrow> ceph_osdmap" where
  "set_pool_was_full m = m\<lparr>pg_pools := (\<lambda>pool. map_option (\<lambda>pi. pi\<lparr>pi_was_full := pool_is_full pi\<rparr>) (pg_pools m pool))\<rparr>"

definition pool_cleared_full :: "ceph_osd_client \<Rightarrow> int \<Rightarrow> bool" where
  "pool_cleared_full osdc pool_id =
     (case ceph_pg_pool_by_id (osdc_osdmap osdc) pool_id of None \<Rightarrow> False | Some pi \<Rightarrow> pi_was_full pi \<and> \<not> pool_is_full pi)"

text \<open>The body of the loop of \<open>scan_requests\<close> over requests; \<open>need_resend\<close> is the tree of requests that go to another session.\<close>

definition scan_request ::
    "int \<Rightarrow> bool \<Rightarrow> bool \<Rightarrow> bool \<Rightarrow> nat \<Rightarrow> nat list \<times> ceph_osd_client \<Rightarrow> (nat list \<times> ceph_osd_client) outcome" where
  "scan_request onum force_resend cleared_full check_pool_cleared_full req = (\<lambda>(need_resend, osdc).
     bind_outcome (calc_req_target req osdc) (\<lambda>(ct_res, osdc).
     let t = r_t (osdc_reqs osdc req);
         force_resend_writes = (cleared_full \<or> check_pool_cleared_full \<and> pool_cleared_full osdc (oloc_pool (t_base_oloc t))) in
     if ct_res = CALC_TARGET_NO_ACTION \<and> \<not> force_resend \<and> (t_flags t AND CEPH_OSD_FLAG_WRITE = 0 \<or> \<not> force_resend_writes) then
       Ok (need_resend, osdc)
     else if ct_res = CALC_TARGET_POOL_DNE then bind_outcome (check_pool_dne req osdc) (\<lambda>osdc. Ok (need_resend, osdc))
     else
       bind_outcome (cancel_map_check req osdc) (\<lambda>osdc.
       bind_outcome (unlink_request onum req osdc) (\<lambda>osdc.
       bind_outcome (insert_request (tid_of osdc) need_resend req) (\<lambda>need_resend. Ok (need_resend, osdc))))))"

definition scan_requests ::
    "int \<Rightarrow> bool \<Rightarrow> bool \<Rightarrow> bool \<Rightarrow> nat list \<times> ceph_osd_client \<Rightarrow> (nat list \<times> ceph_osd_client) outcome" where
  "scan_requests onum force_resend cleared_full check_pool_cleared_full = (\<lambda>(need_resend, osdc).
     bind_outcome (osd_reqs osdc onum) (\<lambda>reqs.
       for_each (scan_request onum force_resend cleared_full check_pool_cleared_full) reqs (need_resend, osdc)))"

text \<open>
  What the decoders of maps return: an error (the incremental one may have changed the map by then), the map changed in place, or a
  new map. The workspaces of CRUSH belong to the map.
\<close>

datatype map_decoded =
    Map_Bad ceph_osdmap crush_memory
  | Map_Changed ceph_osdmap crush_memory
  | Map_New ceph_osdmap crush_memory

definition keep_was_full :: "ceph_osdmap \<Rightarrow> ceph_osdmap \<Rightarrow> ceph_osdmap" where
  "keep_was_full old new =
     new\<lparr>pg_pools := (\<lambda>pool. map_option (\<lambda>pi. case pg_pools old pool of Some old_pi \<Rightarrow> pi\<lparr>pi_was_full := pi_was_full old_pi\<rparr> | None \<Rightarrow> pi)
       (pg_pools new pool))\<rparr>"

text \<open>The body of the loop over the sessions; the address is compared only if the OSD is up.\<close>

definition scan_osd :: "bool \<Rightarrow> bool \<Rightarrow> int \<Rightarrow> nat list \<times> ceph_osd_client \<Rightarrow> (nat list \<times> ceph_osd_client) outcome" where
  "scan_osd skipped_map was_full onum s =
     bind_outcome (scan_requests onum skipped_map was_full True s) (\<lambda>(need_resend, osdc).
     bind_outcome (get_osd osdc onum) (\<lambda>osd.
     bind_outcome (ceph_osd_is_up (osdc_osdmap osdc) onum) (\<lambda>up.
     bind_outcome (if up then bind_outcome (osd_addr_of osdc onum) (\<lambda>addr. Ok (addr \<noteq> o_con_peer_addr osd)) else Ok True) (\<lambda>gone.
       if gone then bind_outcome (close_osd onum osdc) (\<lambda>osdc. Ok (need_resend, osdc)) else Ok (need_resend, osdc)))))"

text \<open>From the new map on.\<close>

definition scan_all :: "bool \<Rightarrow> bool \<Rightarrow> nat list \<times> ceph_osd_client \<Rightarrow> (nat list \<times> ceph_osd_client) outcome" where
  "scan_all skipped_map was_full s =
     bind_outcome (scan_requests CEPH_HOMELESS_OSD skipped_map was_full True s) (\<lambda>s.
       for_each (scan_osd skipped_map was_full) (map o_osd (osds (snd s))) s)"

definition install_map :: "bool \<Rightarrow> bool \<Rightarrow> ceph_osdmap \<Rightarrow> crush_memory \<Rightarrow> nat list \<times> ceph_osd_client \<Rightarrow> (bool \<times> nat list \<times> ceph_osd_client) outcome" where
  "install_map skipped_map was_full m cm = (\<lambda>(need_resend, osdc).
     let osdc = osdc\<lparr>osdc_osdmap := m, osdc_crush_memory := cm\<rparr> in
     bind_outcome (scan_all skipped_map (was_full \<and> \<not> ceph_osdmap_flag osdc CEPH_OSDMAP_FULL) (need_resend, osdc)) (\<lambda>s. Ok (True, s)))"

text \<open>
  The parts of \<open>ceph_osdc_handle_map\<close> that look into the message: the file system id, and the decoders of incremental and full maps on the
  bytes of a map. The decoder of a full map fails with \<open>None\<close>, and then the old one is kept.
\<close>

record map_codec =
  check_fsid :: "u8 list \<Rightarrow> bool"
  apply_incremental :: "u8 list \<Rightarrow> ceph_osdmap \<Rightarrow> crush_memory \<Rightarrow> map_decoded"
  decode_full :: "u8 list \<Rightarrow> (ceph_osdmap \<times> crush_memory) option"
  pool_ids :: "ceph_osdmap \<Rightarrow> int list"

definition decode_map :: "map_codec \<Rightarrow> bool \<Rightarrow> u8 list \<Rightarrow> ceph_osdmap \<Rightarrow> crush_memory \<Rightarrow> map_decoded" where
  "decode_map codec incremental bs old cm =
     (if incremental then apply_incremental codec bs old cm
      else case decode_full codec bs of None \<Rightarrow> Map_Bad old cm | Some (m, cm) \<Rightarrow> Map_New m cm)"

text \<open>The result is whether the map could be decoded.\<close>

definition handle_one_map ::
    "map_codec \<Rightarrow> bool \<Rightarrow> u8 list \<Rightarrow> nat list \<times> ceph_osd_client \<Rightarrow> (bool \<times> nat list \<times> ceph_osd_client) outcome" where
  "handle_one_map codec incremental bs = (\<lambda>(need_resend, osdc).
     let was_full = ceph_osdmap_flag osdc CEPH_OSDMAP_FULL;
         old = set_pool_was_full (osdc_osdmap osdc) in
     case decode_map codec incremental bs old (osdc_crush_memory osdc) of
       Map_Bad m cm \<Rightarrow> Ok (False, need_resend, osdc\<lparr>osdc_osdmap := m, osdc_crush_memory := cm\<rparr>)
     | Map_Changed m cm \<Rightarrow> install_map False was_full m cm (need_resend, osdc)
     | Map_New new cm \<Rightarrow>
         install_map (osdmap_epoch old \<noteq> 0 \<and> osdmap_epoch old + 1 < osdmap_epoch new) was_full (keep_was_full old new) cm (need_resend, osdc))"

definition kick_recalc :: "nat \<Rightarrow> nat list \<times> ceph_osd_client \<Rightarrow> (nat list \<times> ceph_osd_client) outcome" where
  "kick_recalc req = (\<lambda>(need_resend, osdc).
     if t_epoch (r_t (osdc_reqs osdc req)) < osdmap_epoch (osdc_osdmap osdc) then
       bind_outcome (calc_req_target req osdc) (\<lambda>(ct_res, osdc).
       if ct_res = CALC_TARGET_POOL_DNE then
         bind_outcome (erase_request need_resend req) (\<lambda>need_resend.
         bind_outcome (check_pool_dne req osdc) (\<lambda>osdc. Ok (need_resend, osdc)))
       else Ok (need_resend, osdc))
     else Ok (need_resend, osdc))"

definition kick_send :: "nat \<Rightarrow> ceph_osd_client \<Rightarrow> ceph_osd_client outcome" where
  "kick_send req osdc =
     (let onum = t_osd (r_t (osdc_reqs osdc req)) in
      bind_outcome (lookup_create_osd onum True osdc) (\<lambda>osdc.
      bind_outcome (link_request onum req osdc) (\<lambda>osdc.
      if onum \<noteq> CEPH_HOMELESS_OSD \<and> \<not> t_paused (r_t (osdc_reqs osdc req)) then send_request req osdc else Ok osdc)))"

definition kick_requests :: "nat list \<Rightarrow> ceph_osd_client \<Rightarrow> ceph_osd_client outcome" where
  "kick_requests need_resend osdc =
     bind_outcome (for_each kick_recalc need_resend (need_resend, osdc)) (\<lambda>(need_resend, osdc).
       for_each kick_send need_resend osdc)"

text \<open>A round of the loops over maps: the state has the position and whether the message is still good.\<close>

type_synonym map_state = "bool \<times> nat list \<times> ceph_osd_client"

fun inc_maps :: "map_codec \<Rightarrow> u8 list \<Rightarrow> nat \<Rightarrow> nat \<Rightarrow> bool \<Rightarrow> nat list \<times> ceph_osd_client \<Rightarrow> (nat \<times> bool \<times> map_state) outcome" where
  "inc_maps codec b 0 p handled s = Ok (p, handled, True, s)"
| "inc_maps codec b (Suc nr_maps) p handled s =
     (if \<not> ceph_has_room p (length b) 8 then Ok (p, handled, False, s)
      else
        bind_outcome (ceph_decode_32 b p) (\<lambda>(epoch, p).
        bind_outcome (ceph_decode_32 b p) (\<lambda>(maplen, p).
        if \<not> ceph_has_room p (length b) (unat maplen) then Ok (p, handled, False, s)
        else
          let have = osdmap_epoch (osdc_osdmap (snd s)) in
          if have \<noteq> 0 \<and> have + 1 = epoch then
            bind_outcome (get_bytes b p (unat maplen)) (\<lambda>bs.
            bind_outcome (handle_one_map codec True bs s) (\<lambda>(good, s).
              if good then inc_maps codec b nr_maps (p + unat maplen) True s else Ok (p, handled, False, s)))
          else inc_maps codec b nr_maps (p + unat maplen) handled s)))"

fun full_maps :: "map_codec \<Rightarrow> u8 list \<Rightarrow> nat \<Rightarrow> nat \<Rightarrow> nat list \<times> ceph_osd_client \<Rightarrow> map_state outcome" where
  "full_maps codec b 0 p s = Ok (True, s)"
| "full_maps codec b (Suc nr_maps) p s =
     (if \<not> ceph_has_room p (length b) 8 then Ok (False, s)
      else
        bind_outcome (ceph_decode_32 b p) (\<lambda>(epoch, p).
        bind_outcome (ceph_decode_32 b p) (\<lambda>(maplen, p).
        if \<not> ceph_has_room p (length b) (unat maplen) then Ok (False, s)
        else if nr_maps > 0 \<or> osdmap_epoch (osdc_osdmap (snd s)) \<ge> epoch then full_maps codec b nr_maps (p + unat maplen) s
        else
          bind_outcome (get_bytes b p (unat maplen)) (\<lambda>bs.
          bind_outcome (handle_one_map codec False bs s) (\<lambda>(good, s).
            if good then full_maps codec b nr_maps (p + unat maplen) s else Ok (False, s))))))"

definition paused_flags :: "map_codec \<Rightarrow> ceph_osd_client \<Rightarrow> bool" where
  "paused_flags codec osdc \<longleftrightarrow> ceph_osdmap_flag osdc CEPH_OSDMAP_PAUSERD \<or> ceph_osdmap_flag osdc CEPH_OSDMAP_PAUSEWR \<or>
     ceph_osdmap_flag osdc CEPH_OSDMAP_FULL \<or> have_pool_full (pool_ids codec (osdc_osdmap osdc)) osdc"

text \<open>The maps of a message, up to the label \<open>done\<close> or \<open>bad\<close>.\<close>

definition message_maps :: "map_codec \<Rightarrow> u8 list \<Rightarrow> ceph_osd_client \<Rightarrow> map_state outcome" where
  "message_maps codec b osdc =
     (if \<not> ceph_has_room 0 (length b) 16 then Ok (False, [], osdc)
      else
        bind_outcome (get_bytes b 0 16) (\<lambda>fsid.
        if \<not> check_fsid codec fsid then Ok (False, [], osdc)
        else if \<not> ceph_has_room 16 (length b) 4 then Ok (False, [], osdc)
        else
          bind_outcome (ceph_decode_32 b 16) (\<lambda>(nr_maps, p).
          bind_outcome (inc_maps codec b (unat nr_maps) p False ([], osdc)) (\<lambda>(p, handled, good, s).
          if \<not> good \<or> handled then Ok (good, s)
          else if \<not> ceph_has_room p (length b) 4 then Ok (False, s)
          else
            bind_outcome (ceph_decode_32 b p) (\<lambda>(nr_maps, p). full_maps codec b (unat nr_maps) p s)))))"

definition ceph_osdc_handle_map :: "map_codec \<Rightarrow> u8 list \<Rightarrow> ceph_osd_client \<Rightarrow> ceph_osd_client outcome" where
  "ceph_osdc_handle_map codec b osdc =
     (let was_paused = paused_flags codec osdc in
      bind_outcome (message_maps codec b osdc) (\<lambda>(good, need_resend, osdc).
      if \<not> good then Ok osdc
      else
        let osdc = (if was_paused \<or> paused_flags codec osdc \<or> osdmap_epoch (osdc_osdmap osdc) < osdc_epoch_barrier osdc
                    then maybe_request_map osdc else osdc) in
        bind_outcome (kick_requests need_resend osdc) (\<lambda>osdc.
        bind_outcome (ceph_osdc_abort_on_full (pool_ids codec (osdc_osdmap osdc)) osdc) (\<lambda>osdc.
          Ok (osdc\<lparr>osdc_sub := ceph_monc_got_map (osdmap_epoch (osdc_osdmap osdc)) (osdc_sub osdc)\<rparr>)))))"

section \<open>Connections and backoffs\<close>

definition kick_osd_requests :: "int \<Rightarrow> ceph_osd_client \<Rightarrow> ceph_osd_client outcome" where
  "kick_osd_requests onum osdc =
     bind_outcome (get_osd osdc onum) (\<lambda>osd.
     bind_outcome (clear_backoffs (osdc_rb osdc) (osdc_fuel osdc) (o_backoffs osd)) (\<lambda>backoffs.
       for_each (\<lambda>req osdc. if \<not> t_paused (r_t (osdc_reqs osdc req)) then send_request req osdc else Ok osdc)
         (o_requests osd) (upd_osd onum (\<lambda>osd. osd\<lparr>o_backoffs := backoffs\<rparr>) osdc)))"

definition osd_registered :: "ceph_osd_client \<Rightarrow> int \<Rightarrow> bool" where
  "osd_registered osdc onum \<longleftrightarrow> onum \<in> o_osd ` set (osds osdc)"

definition osd_fault :: "int \<Rightarrow> ceph_osd_client \<Rightarrow> ceph_osd_client outcome" where
  "osd_fault onum osdc =
     (if \<not> osd_registered osdc onum then Ok osdc
      else
        bind_outcome (reopen_osd onum osdc) (\<lambda>(reopened, osdc).
        bind_outcome (if reopened then kick_osd_requests onum osdc else Ok osdc) (\<lambda>osdc.
          Ok (maybe_request_map osdc))))"

definition handle_backoff_unblock :: "int \<Rightarrow> MOSDBackoff \<Rightarrow> ceph_osd_client \<Rightarrow> ceph_osd_client outcome" where
  "handle_backoff_unblock onum m osdc =
     bind_outcome (get_osd osdc onum) (\<lambda>osd.
     bind_outcome (uninstall_backoff (osdc_rb osdc) (o_backoffs osd) m) (\<lambda>res.
     case res of
       None \<Rightarrow> Ok osdc
     | Some backoffs \<Rightarrow>
         for_each (\<lambda>req osdc.
             let t = r_t (osdc_reqs osdc req) in
             if ceph_spg_compare (t_spgid t) (mb_spgid m) = 0 \<and> target_contained_by t (mb_begin m) (mb_end m)
             then send_request req osdc else Ok osdc)
           (o_requests osd) (upd_osd onum (\<lambda>osd. osd\<lparr>o_backoffs := backoffs\<rparr>) osdc)))"

text \<open>The allocations of the decoder and of the three objects of \<open>handle_backoff_block\<close>.\<close>

record backoff_allocs =
  ba_string :: "nat \<Rightarrow> bool"
  ba_begin :: bool
  ba_end :: bool
  ba_spg :: bool
  ba_backoff :: bool
  ba_msg :: bool

definition handle_backoff :: "backoff_allocs \<Rightarrow> int \<Rightarrow> u8 list \<Rightarrow> ceph_osd_client \<Rightarrow> ceph_osd_client outcome" where
  "handle_backoff a onum b osdc =
     (if \<not> osd_registered osdc onum then Ok osdc
      else
        case decode_MOSDBackoff (ba_string a) (ba_begin a) (ba_end a) b of
          Oops f \<Rightarrow> Oops f
        | Err e \<Rightarrow> Ok osdc
        | Ok m \<Rightarrow>
            if mb_op m = CEPH_OSD_BACKOFF_OP_BLOCK then
              bind_outcome (get_osd osdc onum) (\<lambda>osd.
              bind_outcome (handle_backoff_block (osdc_rb osdc) (ba_spg a) (ba_backoff a) (ba_msg a) (o_backoffs osd) m) (\<lambda>backoffs.
                Ok (upd_osd onum (\<lambda>osd. osd\<lparr>o_backoffs := backoffs\<rparr>) osdc)))
            else if mb_op m = CEPH_OSD_BACKOFF_OP_UNBLOCK then handle_backoff_unblock onum m osdc
            else Ok osdc)"

section \<open>Timeouts\<close>

definition time_before :: "u64 \<Rightarrow> u64 \<Rightarrow> bool" where
  "time_before a b \<longleftrightarrow> sint (a - b) < 0"

text \<open>The state of the loop over the requests of a session has the flag \<open>found\<close>.\<close>

definition timeout_request :: "u64 \<Rightarrow> u64 \<Rightarrow> nat \<Rightarrow> bool \<times> ceph_osd_client \<Rightarrow> (bool \<times> ceph_osd_client) outcome" where
  "timeout_request cutoff expiry_cutoff req = (\<lambda>(found, osdc).
     let r = osdc_reqs osdc req; found = (found \<or> time_before (r_stamp r) cutoff) in
     if opt_osd_request_timeout osdc \<noteq> 0 \<and> time_before (r_start_stamp r) expiry_cutoff then
       bind_outcome (abort_request ETIMEDOUT_ERR req osdc) (\<lambda>osdc. Ok (found, osdc))
     else Ok (found, osdc))"

definition timeout_osd :: "u64 \<Rightarrow> u64 \<Rightarrow> int \<Rightarrow> int list \<times> ceph_osd_client \<Rightarrow> (int list \<times> ceph_osd_client) outcome" where
  "timeout_osd cutoff expiry_cutoff onum = (\<lambda>(slow, osdc).
     bind_outcome (osd_reqs osdc onum) (\<lambda>reqs.
     bind_outcome (for_each (timeout_request cutoff expiry_cutoff) reqs (False, osdc)) (\<lambda>(found, osdc).
       Ok (if found then slow @ [onum] else slow, osdc))))"

definition handle_timeout :: "ceph_osd_client \<Rightarrow> ceph_osd_client outcome" where
  "handle_timeout osdc =
     (let cutoff = osdc_jiffies osdc - opt_osd_keepalive_timeout osdc;
          expiry_cutoff = osdc_jiffies osdc - opt_osd_request_timeout osdc in
      bind_outcome (for_each (timeout_osd cutoff expiry_cutoff) (map o_osd (osds osdc)) ([], osdc)) (\<lambda>(slow, osdc).
      bind_outcome
        (if opt_osd_request_timeout osdc \<noteq> 0 then
           for_each (\<lambda>req osdc. if time_before (r_start_stamp (osdc_reqs osdc req)) expiry_cutoff
               then abort_request ETIMEDOUT_ERR req osdc else Ok osdc)
             (o_requests (homeless_osd osdc)) osdc
         else Ok osdc) (\<lambda>osdc.
        let osdc = (if num_homeless osdc \<noteq> 0 \<or> slow \<noteq> [] then maybe_request_map osdc else osdc) in
        Ok (foldl (\<lambda>osdc onum. log_event (Con_Keepalive onum) osdc) osdc slow))))"

text \<open>The loop over the idle sessions stops at the first one whose time has not come.\<close>

fun close_idle :: "int list \<Rightarrow> ceph_osd_client \<Rightarrow> ceph_osd_client outcome" where
  "close_idle [] osdc = Ok osdc"
| "close_idle (onum # lru) osdc =
     bind_outcome (get_osd osdc onum) (\<lambda>osd.
       if time_before (osdc_jiffies osdc) (lru_ttl osd) then Ok osdc else bind_outcome (close_osd onum osdc) (close_idle lru))"

definition handle_osds_timeout :: "ceph_osd_client \<Rightarrow> ceph_osd_client outcome" where
  "handle_osds_timeout osdc = close_idle (osd_lru osdc) osdc"

section \<open>Replies\<close>

text \<open>
  \<open>ceph_oloc_decode\<close>: after the check for the length of the block its fields are read without a check. \<open>pool_ns\<close> is the namespace of the
  request; the result is the pool and the position behind the block.
\<close>

definition ceph_oloc_decode :: "u8 list option \<Rightarrow> u8 list \<Rightarrow> nat \<Rightarrow> (int \<times> nat) outcome" where
  "ceph_oloc_decode pool_ns b p =
     (if \<not> ceph_has_room p (length b) 6 then Err EINVAL
      else
        bind_outcome (ceph_decode_8 b p) (\<lambda>(struct_v, p).
        bind_outcome (ceph_decode_8 b p) (\<lambda>(struct_cv, p).
        if struct_v < 3 then Err EINVAL
        else if struct_cv > 6 then Err EINVAL
        else
          bind_outcome (ceph_decode_32 b p) (\<lambda>(len, p).
          if \<not> ceph_has_room p (length b) (unat len) then Err EINVAL
          else
            let struct_end = p + unat len in
            bind_outcome (ceph_decode_64 b p) (\<lambda>(pool, p).
            bind_outcome (ceph_decode_32 b (p + 4)) (\<lambda>(keylen, p).
            if keylen > 0 then Err EINVAL
            else
              bind_outcome
                (if struct_v \<ge> 5 then
                   bind_outcome (ceph_decode_32 b p) (\<lambda>(len, p).
                   if len > 0 then
                     (if \<not> ceph_has_room p (length b) (unat len) then Err EINVAL
                      else bind_outcome (get_bytes b p (unat len)) (\<lambda>ns.
                        if pool_ns \<noteq> Some ns then Err EINVAL else Ok (p + unat len)))
                   else if pool_ns \<noteq> None then Err EINVAL else Ok p)
                 else Ok p) (\<lambda>p.
              bind_outcome
                (if struct_v \<ge> 6 then
                   bind_outcome (ceph_decode_64 b p) (\<lambda>(hash, p). if hash \<noteq> - 1 then Err EINVAL else Ok p)
                 else Ok p) (\<lambda>p.
                Ok (sint pool, struct_end)))))))))"

definition ceph_redirect_decode :: "u8 list option \<Rightarrow> u8 list \<Rightarrow> nat \<Rightarrow> (int \<times> nat) outcome" where
  "ceph_redirect_decode pool_ns b p =
     (if \<not> ceph_has_room p (length b) 6 then Err EINVAL
      else
        bind_outcome (ceph_decode_8 b p) (\<lambda>(struct_v, p).
        bind_outcome (ceph_decode_8 b p) (\<lambda>(struct_cv, p).
        if struct_cv > 1 then Err EINVAL
        else
          bind_outcome (ceph_decode_32 b p) (\<lambda>(len, p).
          if \<not> ceph_has_room p (length b) (unat len) then Err EINVAL
          else
            let struct_end = p + unat len in
            bind_outcome (ceph_oloc_decode pool_ns b p) (\<lambda>(pool, p).
            bind_outcome (ceph_decode_32 b p) (\<lambda>(len, p).
              if len > 0 then Err EINVAL else Ok (pool, struct_end)))))))"

record MOSDOpReply =
  rep_pgid :: ceph_pg
  rep_flags :: u64
  rep_result :: u32
  rep_epoch :: u32
  rep_ops :: "osd_op_result list"
  rep_retry_attempt :: u32
  rep_user_version :: u64
  rep_redirect_pool :: int

text \<open>The lengths of the operations (38 bytes each, the length is the last field), then their return values.\<close>

fun reply_lens :: "u8 list \<Rightarrow> nat \<Rightarrow> nat \<Rightarrow> (u32 list \<times> nat) outcome" where
  "reply_lens b 0 p = Ok ([], p)"
| "reply_lens b (Suc n) p =
     bind_outcome (ceph_decode_32 b (p + 34)) (\<lambda>(len, q).
     bind_outcome (reply_lens b n (p + 38)) (\<lambda>(lens, p). Ok (len # lens, p)))"

fun reply_rvals :: "u8 list \<Rightarrow> nat \<Rightarrow> nat \<Rightarrow> (u32 list \<times> nat) outcome" where
  "reply_rvals b 0 p = Ok ([], p)"
| "reply_rvals b (Suc n) p =
     bind_outcome (ceph_decode_32_safe b p (length b) (Err EINVAL)) (\<lambda>(rval, p).
     bind_outcome (reply_rvals b n p) (\<lambda>(rvals, p). Ok (rval # rvals, p)))"

text \<open>The versions and the redirect; \<open>bad_version\<close> is the one that old replies have.\<close>

definition reply_tail :: "u8 list option \<Rightarrow> u16 \<Rightarrow> u64 \<Rightarrow> u8 list \<Rightarrow> nat \<Rightarrow> (u64 \<times> int) outcome" where
  "reply_tail pool_ns version bad_version b p =
     (let end = length b in
      bind_outcome
        (if version \<ge> 5 then
           (if \<not> ceph_has_room p end 12 then Err EINVAL else ceph_decode_64_safe b (p + 12) end (Err EINVAL))
         else Ok (bad_version, p)) (\<lambda>(user_version, p).
      bind_outcome
        (if version \<ge> 6 then (if version \<ge> 7 then ceph_decode_8_safe b p end (Err EINVAL) else Ok (1, p)) else Ok (0, p)) (\<lambda>(decode_redir, p).
      bind_outcome
        (if decode_redir \<noteq> 0 then ceph_redirect_decode pool_ns b p else Ok (- 1, p)) (\<lambda>(pool, p). Ok (user_version, pool)))))"

definition decode_MOSDOpReply :: "u8 list option \<Rightarrow> u16 \<Rightarrow> u8 list \<Rightarrow> MOSDOpReply outcome" where
  "decode_MOSDOpReply pool_ns version b =
     (let end = length b in
      bind_outcome (ceph_decode_32_safe b 0 end (Err EINVAL)) (\<lambda>(len, p).
      if \<not> ceph_has_room p end (unat len) then Err EINVAL
      else
        bind_outcome (ceph_decode_pgid b (p + unat len) end) (\<lambda>(pgid, p).
        bind_outcome (ceph_decode_64_safe b p end (Err EINVAL)) (\<lambda>(flags, p).
        bind_outcome (ceph_decode_32_safe b p end (Err EINVAL)) (\<lambda>(result, p).
        if \<not> ceph_has_room p end 12 then Err EINVAL
        else
          bind_outcome (ceph_decode_64 b p) (\<lambda>(bad_version, _).
          bind_outcome (ceph_decode_32_safe b (p + 12) end (Err EINVAL)) (\<lambda>(epoch, p).
          bind_outcome (ceph_decode_32_safe b p end (Err EINVAL)) (\<lambda>(num_ops, p).
          if unat num_ops > 16 then Err EINVAL
          else if \<not> ceph_has_room p end (unat num_ops * 38) then Err EINVAL
          else
            bind_outcome (reply_lens b (unat num_ops) p) (\<lambda>(lens, p).
            bind_outcome (ceph_decode_32_safe b p end (Err EINVAL)) (\<lambda>(retry_attempt, p).
            bind_outcome (reply_rvals b (unat num_ops) p) (\<lambda>(rvals, p).
            bind_outcome (reply_tail pool_ns version bad_version b p) (\<lambda>(user_version, pool).
              Ok \<lparr>rep_pgid = pgid, rep_flags = flags, rep_result = result, rep_epoch = epoch,
                  rep_ops = map2 (\<lambda>rval len. \<lparr>op_rval = rval, op_outdata_len = len\<rparr>) rvals lens,
                  rep_retry_attempt = retry_attempt, rep_user_version = user_version, rep_redirect_pool = pool\<rparr>))))))))))))"

definition handle_reply :: "int \<Rightarrow> u64 \<Rightarrow> u16 \<Rightarrow> u32 \<Rightarrow> u8 list \<Rightarrow> ceph_osd_client \<Rightarrow> ceph_osd_client outcome" where
  "handle_reply onum tid version msg_data_len b osdc =
     (if \<not> osd_registered osdc onum then Ok osdc
      else
        bind_outcome (osd_reqs osdc onum) (\<lambda>reqs.
        case find (\<lambda>req. tid_of osdc req = tid) reqs of
          None \<Rightarrow> Ok osdc
        | Some req \<Rightarrow>
            let r = osdc_reqs osdc req in
            (case decode_MOSDOpReply (oloc_pool_ns (t_target_oloc (r_t r))) version b of
               Oops f \<Rightarrow> Oops f
             | Err e \<Rightarrow> complete_request req EIO_ERR osdc
             | Ok m \<Rightarrow>
                 if sint (rep_retry_attempt m) \<ge> 0 \<and> sint (rep_retry_attempt m) \<noteq> r_attempts r - 1 then Ok osdc
                 else if rep_redirect_pool m \<noteq> - 1 then
                   bind_outcome (unlink_request onum req osdc) (\<lambda>osdc.
                     submit_request_locked req False
                       (upd_req req (\<lambda>r. r\<lparr>r_t := (r_t r)\<lparr>t_target_oloc := (t_target_oloc (r_t r))\<lparr>oloc_pool := rep_redirect_pool m\<rparr>,
                            t_flags := t_flags (r_t r) OR
                              (CEPH_OSD_FLAG_REDIRECTED OR CEPH_OSD_FLAG_IGNORE_OVERLAY OR CEPH_OSD_FLAG_IGNORE_CACHE)\<rparr>, r_tid := 0\<rparr>) osdc))
                 else if rep_result m = EAGAIN_ERR then
                   bind_outcome (unlink_request onum req osdc) (\<lambda>osdc.
                     submit_request_locked req False
                       (upd_req req (\<lambda>r. r\<lparr>r_t := (r_t r)\<lparr>t_pgid := \<lparr>pg_pool = 0, pg_seed = 0\<rparr>,
                            t_flags := t_flags (r_t r) AND NOT (CEPH_OSD_FLAG_BALANCE_READS OR CEPH_OSD_FLAG_LOCALIZE_READS)\<rparr>, r_tid := 0\<rparr>) osdc))
                 else if length (rep_ops m) \<noteq> length (r_ops r) then complete_request req EIO_ERR osdc
                 else
                   let osdc = upd_req req (\<lambda>r. r\<lparr>r_ops := rep_ops m\<rparr>) osdc;
                       data_len = sum_list (map op_outdata_len (rep_ops m)) in
                   if data_len \<noteq> msg_data_len then complete_request req EIO_ERR osdc
                   else
                     let result = (if rep_result m \<noteq> 0 then rep_result m else data_len) in
                     bind_outcome (finish_request req (upd_req req (\<lambda>r. r\<lparr>r_version := rep_user_version m, r_result := result\<rparr>) osdc)) (\<lambda>osdc.
                       Ok (log_event (Op_Completed req result) osdc)))))"

end
