(* ===== verification/OsdLinks.thy ===== *)
theory OsdLinks
  imports OsdClient
begin

text \<open>
  The invariant of the OSD client: which requests are linked to which sessions. Every operation that links, unlinks, completes or sends a request,
  calculates its target, checks whether its pool exists, or opens or closes a session returns and keeps the invariant. The predicate
  \<open>ok_with\<close> states both at once, and its rules follow the structure of the code.
\<close>

unbundle bit_operations_syntax

section \<open>Outcomes that succeed\<close>

text \<open>\<open>ok_with m Q\<close>: the code returns, and the result satisfies \<open>Q\<close>.\<close>

definition ok_with :: "'a outcome \<Rightarrow> ('a \<Rightarrow> bool) \<Rightarrow> bool" where
  "ok_with m Q \<longleftrightarrow> (\<exists>v. m = Ok v \<and> Q v)"

lemma ok_with_Ok [simp]: "ok_with (Ok v) Q = Q v"
  by (simp add: ok_with_def)

lemma ok_with_bind: "ok_with m P \<Longrightarrow> (\<And>v. P v \<Longrightarrow> ok_with (f v) Q) \<Longrightarrow> ok_with (bind_outcome m f) Q"
  by (auto simp: ok_with_def)

lemma ok_with_mono: "ok_with m P \<Longrightarrow> (\<And>v. P v \<Longrightarrow> Q v) \<Longrightarrow> ok_with m Q"
  by (auto simp: ok_with_def)

lemma ok_with_for_each:
  "P xs s \<Longrightarrow> (\<And>x xs s. P (x # xs) s \<Longrightarrow> ok_with (f x s) (P xs)) \<Longrightarrow> ok_with (for_each f xs s) (P [])"
  by (induction xs arbitrary: s) (auto intro!: ok_with_bind)

section \<open>The state of a client\<close>

definition linked :: "ceph_osd_client \<Rightarrow> nat set" where
  "linked osdc = {req. r_osd (osdc_reqs osdc req) \<noteq> None}"

definition completed :: "ceph_osd_client \<Rightarrow> nat list" where
  "completed osdc = concat (map (\<lambda>e. case e of Op_Completed req err \<Rightarrow> [req] | _ \<Rightarrow> []) (osdc_log osdc))"

text \<open>The number of a session that the map has an address for, or of the homeless session.\<close>

definition osd_slot :: "ceph_osd_client \<Rightarrow> int \<Rightarrow> bool" where
  "osd_slot osdc onum \<longleftrightarrow> onum = CEPH_HOMELESS_OSD \<or> 0 \<le> onum \<and> nat onum < length (osd_addr (osdc_osdmap osdc))"

definition session_ok :: "ceph_osd_client \<Rightarrow> int \<Rightarrow> ceph_osd \<Rightarrow> bool" where
  "session_ok osdc onum osd \<longleftrightarrow> o_osd osd = onum \<and> sorted_wrt (\<lambda>a b. tid_of osdc a < tid_of osdc b) (o_requests osd) \<and>
     (\<forall>req\<in>set (o_requests osd). r_osd (osdc_reqs osdc req) = Some onum) \<and>
     backoffs_ok (o_backoffs osd) \<and> clear_rounds (o_backoffs osd) \<le> osdc_fuel osdc"

definition maps_good :: "ceph_osd_client \<Rightarrow> bool" where
  "maps_good osdc \<longleftrightarrow> (\<exists>rank R. maps_ok rank R osdc)"

definition request_ok :: "ceph_osd_client \<Rightarrow> nat \<Rightarrow> bool" where
  "request_ok osdc req \<longleftrightarrow> tid_of osdc req \<le> last_tid osdc \<and> target_ok (r_t (osdc_reqs osdc req)) \<and> osd_slot osdc (t_osd (r_t (osdc_reqs osdc req)))"

text \<open>
  The invariant. \<open>U\<close> is the set of the requests in flight: their ids differ, every session has its requests in the order of their ids
  and every linked request is in the session it points to; idle sessions, and only they, may be on the list of idle ones.
\<close>

definition client_ok :: "nat set \<Rightarrow> ceph_osd_client \<Rightarrow> bool" where
  "client_ok U osdc \<longleftrightarrow> maps_good osdc \<and> rb_code_ok (osdc_rb osdc) \<and>
     inj_on (tid_of osdc) U \<and> (\<forall>req\<in>U. request_ok osdc req) \<and> linked osdc \<subseteq> U \<and> set (map_checks osdc) \<subseteq> U \<and>
     sorted_wrt (\<lambda>a b. tid_of osdc a < tid_of osdc b) (map_checks osdc) \<and>
     distinct (map o_osd (osds osdc)) \<and> (\<forall>osd\<in>set (osds osdc). 0 \<le> o_osd osd) \<and>
     (\<forall>onum osd. find_osd osdc onum = Some osd \<longrightarrow> session_ok osdc onum osd) \<and>
     (\<forall>req onum. r_osd (osdc_reqs osdc req) = Some onum \<longrightarrow> (\<exists>osd. find_osd osdc onum = Some osd \<and> req \<in> set (o_requests osd))) \<and>
     distinct (osd_lru osdc) \<and> (\<forall>onum\<in>set (osd_lru osdc). 0 \<le> onum \<and> (\<exists>osd. find_osd osdc onum = Some osd \<and> o_requests osd = []))"

lemma client_okD:
  assumes "client_ok U osdc"
  shows "maps_good osdc" "rb_code_ok (osdc_rb osdc)" "inj_on (tid_of osdc) U" "req \<in> U \<Longrightarrow> request_ok osdc req" "linked osdc \<subseteq> U"
    and "set (map_checks osdc) \<subseteq> U" "sorted_wrt (\<lambda>a b. tid_of osdc a < tid_of osdc b) (map_checks osdc)"
    and "distinct (map o_osd (osds osdc))" "osd \<in> set (osds osdc) \<Longrightarrow> 0 \<le> o_osd osd" "find_osd osdc onum = Some osd \<Longrightarrow> session_ok osdc onum osd"
    and "r_osd (osdc_reqs osdc req) = Some onum \<Longrightarrow> \<exists>osd. find_osd osdc onum = Some osd \<and> req \<in> set (o_requests osd)"
    and "distinct (osd_lru osdc)" "onum \<in> set (osd_lru osdc) \<Longrightarrow> 0 \<le> onum \<and> (\<exists>osd. find_osd osdc onum = Some osd \<and> o_requests osd = [])"
  using assms by (simp_all add: client_ok_def)

text \<open>What an operation on the sessions leaves alone.\<close>

definition same_view :: "ceph_osd_client \<Rightarrow> ceph_osd_client \<Rightarrow> bool" where
  "same_view osdc osdc' \<longleftrightarrow> osdc_osdmap osdc' = osdc_osdmap osdc \<and> completed osdc' = completed osdc \<and>
     osdc_stack osdc' = osdc_stack osdc \<and> osdc_fuel osdc' = osdc_fuel osdc"

lemma same_view_refl [simp]: "same_view osdc osdc"
  by (simp add: same_view_def)

lemma same_view_trans: "same_view a b \<Longrightarrow> same_view b c \<Longrightarrow> same_view a c"
  by (simp add: same_view_def)

section \<open>Lookups\<close>

lemma find_osd_upd:
  assumes "\<And>osd. o_osd (f osd) = o_osd osd"
  shows "find_osd (upd_osd onum f osdc) n = (if n = onum then map_option f (find_osd osdc n) else find_osd osdc n)"
proof -
  have "find (\<lambda>osd. o_osd osd = n) (map (\<lambda>osd. if o_osd osd = onum then f osd else osd) xs) =
      (if n = onum then map_option f (find (\<lambda>osd. o_osd osd = n) xs) else find (\<lambda>osd. o_osd osd = n) xs)" for xs
    by (induction xs) (auto simp: assms)
  from this [of "osds osdc"] show ?thesis by (cases "n = onum"; cases "onum = CEPH_HOMELESS_OSD") (simp_all add: find_osd_def upd_osd_def)
qed

lemma upd_osd_sel [simp]:
  "osdc_reqs (upd_osd onum f osdc) = osdc_reqs osdc" "osd_lru (upd_osd onum f osdc) = osd_lru osdc" "last_tid (upd_osd onum f osdc) = last_tid osdc"
  "map_checks (upd_osd onum f osdc) = map_checks osdc" "osdc_osdmap (upd_osd onum f osdc) = osdc_osdmap osdc" "osdc_log (upd_osd onum f osdc) = osdc_log osdc"
  "osdc_rb (upd_osd onum f osdc) = osdc_rb osdc" "osdc_stack (upd_osd onum f osdc) = osdc_stack osdc" "osdc_fuel (upd_osd onum f osdc) = osdc_fuel osdc"
  "osdc_crush_memory (upd_osd onum f osdc) = osdc_crush_memory osdc"
  by (simp_all add: upd_osd_def)

lemma upd_osd_nums [simp]:
  assumes "\<And>osd. o_osd (f osd) = o_osd osd"
  shows "map o_osd (osds (upd_osd onum f osdc)) = map o_osd (osds osdc)"
  by (simp add: upd_osd_def assms)

lemma upd_req_sel [simp]:
  "osds (upd_req req f osdc) = osds osdc" "homeless_osd (upd_req req f osdc) = homeless_osd osdc" "osd_lru (upd_req req f osdc) = osd_lru osdc"
  "last_tid (upd_req req f osdc) = last_tid osdc" "map_checks (upd_req req f osdc) = map_checks osdc" "osdc_osdmap (upd_req req f osdc) = osdc_osdmap osdc"
  "osdc_log (upd_req req f osdc) = osdc_log osdc" "osdc_rb (upd_req req f osdc) = osdc_rb osdc" "osdc_stack (upd_req req f osdc) = osdc_stack osdc"
  "osdc_fuel (upd_req req f osdc) = osdc_fuel osdc" "osdc_crush_memory (upd_req req f osdc) = osdc_crush_memory osdc"
  "osdc_reqs (upd_req req f osdc) = (osdc_reqs osdc)(req := f (osdc_reqs osdc req))"
  by (simp_all add: upd_req_def)

lemma find_osd_cong: "osds a = osds b \<Longrightarrow> homeless_osd a = homeless_osd b \<Longrightarrow> find_osd a onum = find_osd b onum"
  by (simp add: find_osd_def)

lemma find_osd_upd_req [simp]: "find_osd (upd_req req f osdc) onum = find_osd osdc onum"
  by (rule find_osd_cong) simp_all

lemma maps_good_cong:
  "osdc_osdmap b = osdc_osdmap a \<Longrightarrow> osdc_crush_memory b = osdc_crush_memory a \<Longrightarrow> osdc_stack b = osdc_stack a \<Longrightarrow> osdc_fuel b = osdc_fuel a \<Longrightarrow>
     maps_good b = maps_good a"
  by (simp add: maps_good_def maps_ok_def)

lemma osd_num:
  assumes "client_ok U osdc" and "find_osd osdc onum = Some osd"
  shows "o_osd osd = onum"
  using client_okD(10) [OF assms] by (simp add: session_ok_def)

lemma find_osd_mem:
  assumes "client_ok U osdc" and "osd \<in> set (osds osdc)"
  shows "find_osd osdc (o_osd osd) = Some osd"
proof -
  have "find (\<lambda>s. o_osd s = o_osd osd) xs = Some osd" if "osd \<in> set xs" "distinct (map o_osd xs)" for xs
    using that by (induction xs) (auto simp: image_iff)
  then show ?thesis using assms client_okD(8,9) [OF assms(1)] assms(2) by (force simp: find_osd_def)
qed

section \<open>Trees of requests\<close>

lemma insert_request_Ok:
  "sorted_wrt (\<lambda>a b. tid a < tid b) reqs \<Longrightarrow> tid req \<notin> tid ` set reqs \<Longrightarrow>
     ok_with (insert_request tid reqs req) (\<lambda>reqs'. sorted_wrt (\<lambda>a b. tid a < tid b) reqs' \<and> set reqs' = insert req (set reqs))"
proof (induction tid reqs req rule: insert_request.induct)
  case (2 tid cur reqs req)
  show ?case
  proof (cases "tid req < tid cur")
    case True
    then show ?thesis using 2(2) by (auto dest: less_trans)
  next
    case False
    then have gt: "tid cur < tid req" using 2(3) by (auto simp: not_less order_le_less)
    have "ok_with (insert_request tid reqs req) (\<lambda>reqs'. sorted_wrt (\<lambda>a b. tid a < tid b) reqs' \<and> set reqs' = insert req (set reqs))"
      using 2(1) [OF False gt] 2(2,3) by simp
    then have "ok_with (bind_outcome (insert_request tid reqs req) (\<lambda>reqs. Ok (cur # reqs)))
        (\<lambda>reqs'. sorted_wrt (\<lambda>a b. tid a < tid b) reqs' \<and> set reqs' = insert req (set (cur # reqs)))"
      by (rule ok_with_bind) (use 2(2) gt in auto)
    then show ?thesis using False gt by simp
  qed
qed simp

lemma erase_request_Ok:
  assumes "req \<in> set reqs" and "sorted_wrt (\<lambda>a b. (tid a :: u64) < tid b) reqs"
  shows "ok_with (erase_request reqs req) (\<lambda>reqs'. reqs' = remove1 req reqs \<and> sorted_wrt (\<lambda>a b. tid a < tid b) reqs' \<and> set reqs' = set reqs - {req})"
proof -
  have "distinct xs" if "sorted_wrt (\<lambda>a b. tid a < tid b) xs" for xs using that by (induction xs) auto
  moreover have "sorted_wrt P (remove1 req xs)" if "sorted_wrt P xs" for P xs
    using that by (induction xs) (auto dest: notin_set_remove1)
  ultimately show ?thesis using assms by (simp add: erase_request_def)
qed

lemma sorted_tid_cong: "\<forall>r\<in>set xs. tid' r = tid r \<Longrightarrow> sorted_wrt (\<lambda>a b. (tid' a :: u64) < tid' b) xs = sorted_wrt (\<lambda>a b. tid a < tid b) xs"
  by (induction xs) auto

section \<open>Updates of one request\<close>

text \<open>A change of a request that keeps its id, its session, its target and so the invariant.\<close>

lemma upd_req_ok:
  assumes ok: "client_ok U osdc" and same: "r_tid (f (osdc_reqs osdc req)) = r_tid (osdc_reqs osdc req)" "r_osd (f (osdc_reqs osdc req)) = r_osd (osdc_reqs osdc req)"
    and t: "req \<in> U \<Longrightarrow> target_ok (r_t (f (osdc_reqs osdc req))) \<and> osd_slot osdc (t_osd (r_t (f (osdc_reqs osdc req))))"
  shows "client_ok U (upd_req req f osdc)" and "linked (upd_req req f osdc) = linked osdc" and "completed (upd_req req f osdc) = completed osdc"
proof -
  let ?o = "upd_req req f osdc"
  have tid: "tid_of ?o = tid_of osdc" using same(1) by (auto simp: tid_of_def fun_eq_iff)
  have osd: "r_osd (osdc_reqs ?o r) = r_osd (osdc_reqs osdc r)" for r using same(2) by simp
  show "linked ?o = linked osdc" by (simp only: linked_def osd)
  then have "linked ?o = linked osdc" .
  moreover have "request_ok ?o r" if "r \<in> U" for r
    using client_okD(4) [OF ok that] t that by (auto simp: request_ok_def tid osd_slot_def)
  moreover have "session_ok ?o onum s = session_ok osdc onum s" for onum s
    unfolding session_ok_def tid osd by simp
  moreover have "maps_good ?o = maps_good osdc" by (rule maps_good_cong) simp_all
  ultimately show "client_ok U ?o"
    using ok unfolding client_ok_def tid osd find_osd_upd_req upd_req_sel(1-11) by auto
  show "completed ?o = completed osdc" by (simp add: completed_def)
qed

text \<open>A change of the fields that the invariant does not mention.\<close>

lemma client_ok_cong:
  assumes "osdc_reqs b = osdc_reqs a" "osds b = osds a" "homeless_osd b = homeless_osd a" "osd_lru b = osd_lru a" "last_tid b = last_tid a"
    "map_checks b = map_checks a" "osdc_osdmap b = osdc_osdmap a" "osdc_rb b = osdc_rb a" "osdc_stack b = osdc_stack a"
    "osdc_fuel b = osdc_fuel a" "osdc_crush_memory b = osdc_crush_memory a"
  shows "client_ok U b = client_ok U a" and "linked b = linked a"
proof -
  have tid: "tid_of b = tid_of a" using assms(1) by (simp add: tid_of_def fun_eq_iff)
  have f: "find_osd b n = find_osd a n" for n by (rule find_osd_cong) (use assms in simp_all)
  have m: "maps_good b = maps_good a" by (rule maps_good_cong) (use assms in simp_all)
  have r: "request_ok b = request_ok a" using assms by (auto simp: request_ok_def tid osd_slot_def fun_eq_iff)
  have s: "session_ok b = session_ok a" using assms by (auto simp: session_ok_def tid fun_eq_iff)
  show l: "linked b = linked a" using assms by (simp add: linked_def)
  show "client_ok U b = client_ok U a" unfolding client_ok_def tid f m r s l using assms by simp
qed

lemma log_event_sel [simp]:
  "osdc_reqs (log_event e osdc) = osdc_reqs osdc" "osds (log_event e osdc) = osds osdc" "homeless_osd (log_event e osdc) = homeless_osd osdc"
  "osd_lru (log_event e osdc) = osd_lru osdc" "last_tid (log_event e osdc) = last_tid osdc" "map_checks (log_event e osdc) = map_checks osdc"
  "osdc_osdmap (log_event e osdc) = osdc_osdmap osdc" "osdc_rb (log_event e osdc) = osdc_rb osdc" "osdc_stack (log_event e osdc) = osdc_stack osdc"
  "osdc_fuel (log_event e osdc) = osdc_fuel osdc" "osdc_crush_memory (log_event e osdc) = osdc_crush_memory osdc"
  by (simp_all add: log_event_def)

lemma client_ok_log [simp]: "client_ok U (log_event e osdc) = client_ok U osdc" "linked (log_event e osdc) = linked osdc"
  by (rule client_ok_cong; simp)+

lemma completed_log [simp]:
  "completed (log_event e osdc) = completed osdc @ (case e of Op_Completed req err \<Rightarrow> [req] | _ \<Rightarrow> [])"
  by (cases e) (simp_all add: completed_def log_event_def)

section \<open>Linking and unlinking\<close>

text \<open>What the sessions look like after the requests of one of them and the session of one request have changed.\<close>

definition moved :: "nat \<Rightarrow> int option \<Rightarrow> ceph_osd_client \<Rightarrow> ceph_osd_client \<Rightarrow> bool" where
  "moved req to osdc osdc' \<longleftrightarrow> same_view osdc osdc' \<and> map_checks osdc' = map_checks osdc \<and> last_tid osdc' = last_tid osdc \<and>
     osdc_reqs osdc' = (osdc_reqs osdc)(req := (osdc_reqs osdc req)\<lparr>r_osd := to\<rparr>) \<and> map o_osd (osds osdc') = map o_osd (osds osdc)"

lemma moved_tid: "moved req to osdc osdc' \<Longrightarrow> tid_of osdc' = tid_of osdc"
  by (auto simp: moved_def tid_of_def fun_eq_iff)

lemma moved_linked:
  "moved req to osdc osdc' \<Longrightarrow> linked osdc' = (if to = None then linked osdc - {req} else insert req (linked osdc))"
  by (auto simp: moved_def linked_def)

lemma moved_find:
  assumes "moved req to osdc osdc'"
  shows "find_osd osdc' onum = None \<longleftrightarrow> find_osd osdc onum = None"
proof -
  have f: "find (\<lambda>osd. o_osd osd = onum) xs = None \<longleftrightarrow> onum \<notin> set (map o_osd xs)" for xs by (auto simp: find_None_iff)
  have m: "set (map o_osd (osds osdc')) = set (map o_osd (osds osdc))" using assms by (simp only: moved_def)
  show ?thesis
  proof (cases "onum = CEPH_HOMELESS_OSD")
    case False
    then show ?thesis using f [of "osds osdc"] f [of "osds osdc'"] m by (simp add: find_osd_def)
  qed (simp add: find_osd_def)
qed

text \<open>The invariant for a session whose requests are replaced; the list of idle sessions is treated separately.\<close>

lemma session_upd:
  assumes ok: "client_ok U osdc" and find: "find_osd osdc onum = Some osd"
    and reqs: "sorted_wrt (\<lambda>a b. tid_of osdc a < tid_of osdc b) reqs"
      "set reqs = (if to = None then set (o_requests osd) - {req} else insert req (set (o_requests osd)))"
    and to: "to = None \<and> r_osd (osdc_reqs osdc req) = Some onum \<or> to = Some onum \<and> r_osd (osdc_reqs osdc req) = None \<and> req \<in> U"
    and lru: "distinct lru" "\<And>n. n \<in> set lru \<Longrightarrow> n \<noteq> onum \<Longrightarrow> n \<in> set (osd_lru osdc)" "onum \<in> set lru \<Longrightarrow> 0 \<le> onum \<and> reqs = []"
    and ttl: "\<And>s. o_osd (f s) = o_osd s \<and> o_requests (f s) = reqs \<and> o_backoffs (f s) = o_backoffs s"
  shows "client_ok U ((upd_osd onum f (upd_req req (\<lambda>r. r\<lparr>r_osd := to\<rparr>) osdc))\<lparr>osd_lru := lru\<rparr>)"
    (is "client_ok U ?o")
proof -
  have tid: "tid_of ?o = tid_of osdc" by (auto simp: tid_of_def fun_eq_iff)
  have fo: "find_osd ?o n = (if n = onum then Some (f osd) else find_osd osdc n)" for n
  proof -
    have "find_osd ?o n = find_osd (upd_osd onum f (upd_req req (\<lambda>r. r\<lparr>r_osd := to\<rparr>) osdc)) n" by (rule find_osd_cong) simp_all
    then show ?thesis using find_osd_upd [of f onum "upd_req req (\<lambda>r. r\<lparr>r_osd := to\<rparr>) osdc" n] ttl find by simp
  qed
  have other: "req \<notin> set (o_requests s)" if "find_osd osdc n = Some s" "n \<noteq> onum" for n s
    using client_okD(10) [OF ok that(1)] to that(2) by (auto simp: session_ok_def)
  have req_in: "to = None \<Longrightarrow> req \<in> set (o_requests osd)" using client_okD(11) [OF ok, of req onum] to find by auto
  have rosd: "r_osd (osdc_reqs ?o r) = (if r = req then to else r_osd (osdc_reqs osdc r))" for r by simp
  have "session_ok ?o n s" if s: "find_osd ?o n = Some s" for n s
  proof (cases "n = onum")
    case True
    have old: "session_ok osdc onum osd" by (rule client_okD(10) [OF ok find])
    have "\<forall>r\<in>set reqs. r_osd (osdc_reqs ?o r) = Some onum"
      using old reqs(2) to by (auto simp: session_ok_def split: if_splits)
    moreover have "s = f osd" using s True by (simp add: fo)
    ultimately show ?thesis using old reqs(1) ttl [of osd] True unfolding session_ok_def tid by simp
  next
    case False
    then have find_n: "find_osd osdc n = Some s" using s by (simp add: fo)
    from client_okD(10) [OF ok this] other [OF this False] show ?thesis unfolding session_ok_def tid by auto
  qed
  moreover have "\<exists>s. find_osd ?o n = Some s \<and> r \<in> set (o_requests s)" if r: "r_osd (osdc_reqs ?o r) = Some n" for r n
  proof (cases "r = req")
    case True
    then have "to = Some n" using r rosd by simp
    then have "n = onum" "req \<in> set reqs" using to reqs(2) by auto
    then show ?thesis using fo True ttl by simp
  next
    case False
    then have "r_osd (osdc_reqs osdc r) = Some n" using r rosd [of r] by simp
    then obtain s where s: "find_osd osdc n = Some s" "r \<in> set (o_requests s)" using client_okD(11) [OF ok] by blast
    show ?thesis
    proof (cases "n = onum")
      case True
      then have "r \<in> set reqs" using s find False reqs(2) by auto
      then show ?thesis using fo True ttl by simp
    qed (use s fo in auto)
  qed
  moreover have "0 \<le> n \<and> (\<exists>s. find_osd ?o n = Some s \<and> o_requests s = [])" if n: "n \<in> set lru" for n
    using n lru(2,3) client_okD(13) [OF ok, of n] fo ttl by (cases "n = onum") auto
  moreover have "maps_good ?o" using client_okD(1) [OF ok] maps_good_cong [of ?o osdc] by simp
  moreover have "request_ok ?o r" if "r \<in> U" for r
    using client_okD(4) [OF ok that] by (auto simp: request_ok_def tid osd_slot_def)
  moreover have "linked ?o \<subseteq> U" using client_okD(5) [OF ok] to by (auto simp: linked_def)
  moreover have "map o_osd (osds ?o) = map o_osd (osds osdc)" using upd_osd_nums [of f onum "upd_req req (\<lambda>r. r\<lparr>r_osd := to\<rparr>) osdc"] ttl by simp
  moreover from this have "\<forall>s\<in>set (osds ?o). 0 \<le> o_osd s"
    using client_okD(9) [OF ok] by (metis (no_types, lifting) image_iff list.set_map)
  ultimately show ?thesis
    unfolding client_ok_def tid using client_okD(2,3,6,7,8) [OF ok] lru(1) by simp
qed

lemma moved_upd:
  assumes "\<And>s. o_osd (f s) = o_osd s"
  shows "moved req to osdc ((upd_osd onum f (upd_req req (\<lambda>r. r\<lparr>r_osd := to\<rparr>) osdc))\<lparr>osd_lru := lru\<rparr>)"
  using upd_osd_nums [of f onum "upd_req req (\<lambda>r. r\<lparr>r_osd := to\<rparr>) osdc", OF assms]
  by (simp add: moved_def same_view_def completed_def)

text \<open>The counter of homeless requests is not part of the invariant.\<close>

lemma homeless_count [simp]:
  "client_ok U (osdc\<lparr>num_homeless := n\<rparr>) = client_ok U osdc" "client_ok U (osdc\<lparr>num_requests := n\<rparr>) = client_ok U osdc"
  by (rule client_ok_cong(1); simp)+

lemma moved_count [simp]:
  "moved req to osdc (osdc'\<lparr>num_homeless := n\<rparr>) = moved req to osdc osdc'" "moved req to (osdc\<lparr>num_homeless := n\<rparr>) osdc' = moved req to osdc osdc'"
  "moved req to osdc (osdc'\<lparr>num_requests := n\<rparr>) = moved req to osdc osdc'"
  by (simp_all add: moved_def same_view_def completed_def)

lemma unlink_request_Ok:
  assumes ok: "client_ok U osdc" and req: "r_osd (osdc_reqs osdc req) = Some onum"
  shows "ok_with (unlink_request onum req osdc) (\<lambda>osdc'. client_ok U osdc' \<and> moved req None osdc osdc')"
proof -
  obtain osd where osd: "find_osd osdc onum = Some osd" "req \<in> set (o_requests osd)" using client_okD(11) [OF ok req] by blast
  have s: "session_ok osdc onum osd" by (rule client_okD(10) [OF ok osd(1)])
  let ?reqs = "remove1 req (o_requests osd)"
  have er: "erase_request (o_requests osd) req = Ok ?reqs" "sorted_wrt (\<lambda>a b. tid_of osdc a < tid_of osdc b) ?reqs"
    "set ?reqs = set (o_requests osd) - {req}"
    using erase_request_Ok [OF osd(2), of "tid_of osdc"] s by (auto simp: ok_with_def session_ok_def)
  have notlru: "onum \<notin> set (osd_lru osdc)" using client_okD(13) [OF ok] osd by fastforce
  let ?f = "\<lambda>osd. osd\<lparr>o_requests := ?reqs\<rparr>" and ?g = "\<lambda>r. r\<lparr>r_osd := None\<rparr>"
  let ?o = "upd_osd onum ?f (upd_req req ?g osdc)"
  have lruid: "?o = ?o\<lparr>osd_lru := osd_lru osdc\<rparr>" by simp
  have ok1: "client_ok U ?o" and mv1: "moved req None osdc ?o"
    using session_upd [OF ok osd(1) er(2), where to = None and req = req and lru = "osd_lru osdc" and f = ?f] er(3) req client_okD(12) [OF ok] notlru
      moved_upd [where f = ?f and req = req and to = None and osdc = osdc and onum = onum and lru = "osd_lru osdc"] lruid by simp_all
  have find: "find_osd ?o onum = Some (?f osd)" using find_osd_upd [of ?f onum "upd_req req ?g osdc" onum] osd(1) by simp
  show ?thesis
  proof (cases "onum = CEPH_HOMELESS_OSD \<or> ?reqs \<noteq> []")
    case True
    then show ?thesis
      using osd(1) er(1) ok1 mv1 find by (auto simp: unlink_request_def get_osd_def Let_def maybe_move_osd_to_lru_def)
  next
    case False
    let ?h = "\<lambda>osd. osd\<lparr>o_requests := ?reqs, lru_ttl := osdc_jiffies ?o + opt_osd_idle_ttl ?o\<rparr>"
    have pos: "0 \<le> onum" 
    proof -
      have "osd \<in> set (osds osdc)" using osd(1) False by (auto simp: find_osd_def find_Some_iff)
      then show ?thesis using client_okD(9) [OF ok] s by (auto simp: session_ok_def)
    qed
    let ?o2 = "(upd_osd onum ?h (upd_req req ?g osdc))\<lparr>osd_lru := osd_lru osdc @ [onum]\<rparr>"
    have "client_ok U ?o2" "moved req None osdc ?o2"
      using session_upd [OF ok osd(1) er(2), where to = None and req = req and lru = "osd_lru osdc @ [onum]" and f = ?h] er(3) req client_okD(12) [OF ok] notlru pos False
        moved_upd [where f = ?h and req = req and to = None and osdc = osdc and onum = onum and lru = "osd_lru osdc @ [onum]"] by simp_all
    moreover have "upd_osd onum (\<lambda>osd. osd\<lparr>lru_ttl := osdc_jiffies ?o + opt_osd_idle_ttl ?o\<rparr>) (?o\<lparr>osd_lru := osd_lru ?o @ [onum]\<rparr>) = ?o2"
      using False by (simp add: upd_osd_def upd_req_def comp_def)
    ultimately show ?thesis
      using osd(1) er(1) find notlru False by (simp add: unlink_request_def get_osd_def Let_def maybe_move_osd_to_lru_def move_osd_to_lru_def)
  qed
qed

lemma link_request_Ok:
  assumes ok: "client_ok U osdc" and req: "r_osd (osdc_reqs osdc req) = None" "req \<in> U" and find: "find_osd osdc onum \<noteq> None"
  shows "ok_with (link_request onum req osdc) (\<lambda>osdc'. client_ok U osdc' \<and> moved req (Some onum) osdc osdc')"
proof -
  obtain osd where osd: "find_osd osdc onum = Some osd" using find by blast
  have s: "session_ok osdc onum osd" by (rule client_okD(10) [OF ok osd])
  have sub: "set (o_requests osd) \<subseteq> U" using s client_okD(5) [OF ok] by (auto simp: session_ok_def linked_def)
  have "req \<notin> set (o_requests osd)" using s req(1) by (auto simp: session_ok_def)
  then have "tid_of osdc req \<notin> tid_of osdc ` set (o_requests osd)"
    using client_okD(3) [OF ok] sub req(2) by (auto dest: inj_onD)
  then obtain reqs where reqs: "insert_request (tid_of osdc) (o_requests osd) req = Ok reqs"
    "sorted_wrt (\<lambda>a b. tid_of osdc a < tid_of osdc b) reqs" "set reqs = insert req (set (o_requests osd))"
    using insert_request_Ok [of "tid_of osdc" "o_requests osd" req] s by (auto simp: ok_with_def session_ok_def)
  let ?f = "\<lambda>osd. osd\<lparr>o_requests := reqs\<rparr>" and ?g = "\<lambda>r. r\<lparr>r_osd := Some onum\<rparr>"
  let ?lru = "if onum \<noteq> CEPH_HOMELESS_OSD then removeAll onum (osd_lru osdc) else osd_lru osdc"
  let ?o = "(upd_osd onum ?f (upd_req req ?g osdc))\<lparr>osd_lru := ?lru\<rparr>"
  have no_h: "CEPH_HOMELESS_OSD \<notin> set (osd_lru osdc)" using client_okD(13) [OF ok, of CEPH_HOMELESS_OSD] by auto
  have lru: "distinct ?lru" "\<And>n. n \<in> set ?lru \<Longrightarrow> n \<noteq> onum \<Longrightarrow> n \<in> set (osd_lru osdc)" "onum \<in> set ?lru \<Longrightarrow> 0 \<le> onum \<and> reqs = []"
    using client_okD(12) [OF ok] no_h by (auto simp: distinct_removeAll split: if_splits)
  have to: "Some onum = None \<and> r_osd (osdc_reqs osdc req) = Some onum \<or> Some onum = Some onum \<and> r_osd (osdc_reqs osdc req) = None \<and> req \<in> U"
    using req by blast
  have set: "set reqs = (if Some onum = None then set (o_requests osd) - {req} else insert req (set (o_requests osd)))" using reqs(3) by simp
  have "client_ok U ?o" "moved req (Some onum) osdc ?o"
    using session_upd [OF ok osd reqs(2) set to lru, where f = ?f]
      moved_upd [where f = ?f and req = req and to = "Some onum" and osdc = osdc and onum = onum and lru = ?lru] by simp_all
  moreover have "link_request onum req osdc = Ok (if onum \<noteq> CEPH_HOMELESS_OSD then ?o else ?o\<lparr>num_homeless := num_homeless osdc + 1\<rparr>)"
  proof (cases "onum = CEPH_HOMELESS_OSD")
    case True
    have "find_osd (osdc\<lparr>num_homeless := num_homeless osdc + 1\<rparr>) onum = find_osd osdc onum" by (rule find_osd_cong) simp_all
    moreover have "tid_of (osdc\<lparr>num_homeless := num_homeless osdc + 1\<rparr>) = tid_of osdc" by (simp add: tid_of_def fun_eq_iff)
    ultimately show ?thesis
      using True reqs(1) osd by (simp add: link_request_def Let_def get_osd_def upd_osd_def upd_req_def)
  next
    case False
    have "find_osd (remove_osd_from_lru onum osdc) onum = find_osd osdc onum" by (rule find_osd_cong) (simp_all add: remove_osd_from_lru_def)
    moreover have "tid_of (remove_osd_from_lru onum osdc) = tid_of osdc" by (simp add: tid_of_def fun_eq_iff remove_osd_from_lru_def)
    ultimately show ?thesis
      using False reqs(1) osd by (simp add: link_request_def Let_def get_osd_def upd_osd_def upd_req_def) (simp add: remove_osd_from_lru_def)
  qed
  ultimately show ?thesis by (cases "onum = CEPH_HOMELESS_OSD") simp_all
qed

section \<open>Completion\<close>

text \<open>
  \<open>step U osdc osdc'\<close>: the invariant still holds and the map is the same. The sets of linked and the list of completed requests are
  stated apart.
\<close>

definition step :: "nat set \<Rightarrow> ceph_osd_client \<Rightarrow> ceph_osd_client \<Rightarrow> bool" where
  "step U osdc osdc' \<longleftrightarrow> client_ok U osdc' \<and> osdc_osdmap osdc' = osdc_osdmap osdc \<and> osdc_stack osdc' = osdc_stack osdc \<and>
     osdc_fuel osdc' = osdc_fuel osdc \<and> tid_of osdc' = tid_of osdc"

lemma step_trans: "step U a b \<Longrightarrow> step U b c \<Longrightarrow> step U a c"
  by (simp add: step_def)

lemma step_refl: "client_ok U osdc \<Longrightarrow> step U osdc osdc"
  by (simp add: step_def)

lemma step_ok: "step U a b \<Longrightarrow> client_ok U b"
  by (simp add: step_def)

lemma moved_step: "client_ok U osdc' \<Longrightarrow> moved req to osdc osdc' \<Longrightarrow> step U osdc osdc'"
  using moved_tid by (auto simp: step_def moved_def same_view_def)

lemma moved_completed: "moved req to osdc osdc' \<Longrightarrow> completed osdc' = completed osdc"
  by (simp add: moved_def same_view_def)

lemma upd_req_step:
  assumes "client_ok U osdc" and "r_tid (f (osdc_reqs osdc req)) = r_tid (osdc_reqs osdc req)" "r_osd (f (osdc_reqs osdc req)) = r_osd (osdc_reqs osdc req)"
    and "req \<in> U \<Longrightarrow> target_ok (r_t (f (osdc_reqs osdc req))) \<and> osd_slot osdc (t_osd (r_t (f (osdc_reqs osdc req))))"
  shows "step U osdc (upd_req req f osdc)"
proof -
  have "client_ok U (upd_req req f osdc)" by (rule upd_req_ok(1)) (use assms in simp_all)
  moreover have "tid_of (upd_req req f osdc) = tid_of osdc" using assms(2) by (auto simp: tid_of_def fun_eq_iff)
  ultimately show ?thesis by (simp add: step_def)
qed

text \<open>A change of a request besides its id, its session and its target.\<close>

lemma upd_req_step':
  assumes "client_ok U osdc" and "r_tid (f (osdc_reqs osdc req)) = r_tid (osdc_reqs osdc req)" "r_osd (f (osdc_reqs osdc req)) = r_osd (osdc_reqs osdc req)"
    and "r_t (f (osdc_reqs osdc req)) = r_t (osdc_reqs osdc req)"
  shows "step U osdc (upd_req req f osdc)" "linked (upd_req req f osdc) = linked osdc" "completed (upd_req req f osdc) = completed osdc"
proof -
  have t: "target_ok (r_t (f (osdc_reqs osdc req))) \<and> osd_slot osdc (t_osd (r_t (f (osdc_reqs osdc req))))" if "req \<in> U"
    using client_okD(4) [OF assms(1) that] assms(4) by (simp add: request_ok_def)
  show "step U osdc (upd_req req f osdc)" by (rule upd_req_step) (use assms t in simp_all)
  show "linked (upd_req req f osdc) = linked osdc" by (rule upd_req_ok(2)) (use assms t in simp_all)
  show "completed (upd_req req f osdc) = completed osdc" by (rule upd_req_ok(3)) (use assms t in simp_all)
qed

lemma tid_of_log [simp]: "tid_of (log_event e osdc) = tid_of osdc"
  by (simp add: tid_of_def fun_eq_iff)

definition done_with :: "nat set \<Rightarrow> nat \<Rightarrow> u32 \<Rightarrow> ceph_osd_client \<Rightarrow> ceph_osd_client \<Rightarrow> bool" where
  "done_with U req err osdc osdc' \<longleftrightarrow> step U osdc osdc' \<and> linked osdc' = linked osdc - {req} \<and> completed osdc' = completed osdc @ [req] \<and>
     map_checks osdc' = map_checks osdc \<and> (\<forall>r. r_t (osdc_reqs osdc' r) = r_t (osdc_reqs osdc r)) \<and>
     (\<forall>r. r_attempts (osdc_reqs osdc' r) = r_attempts (osdc_reqs osdc r)) \<and>
     (\<forall>r. r_result (osdc_reqs osdc' r) = (if r = req then err else r_result (osdc_reqs osdc r))) \<and>
     (\<forall>r. r \<noteq> req \<longrightarrow> r_osd (osdc_reqs osdc' r) = r_osd (osdc_reqs osdc r)) \<and>
     (\<forall>onum. find_osd osdc' onum = None \<longleftrightarrow> find_osd osdc onum = None) \<and> map o_osd (osds osdc') = map o_osd (osds osdc)"

lemma finish_request_Ok:
  assumes ok: "client_ok U osdc"
  shows "ok_with (finish_request req osdc) (\<lambda>osdc'. client_ok U osdc' \<and> (moved req None osdc osdc' \<or> r_osd (osdc_reqs osdc req) = None \<and>
     osdc' = osdc\<lparr>num_requests := num_requests osdc - 1\<rparr>))"
proof (cases "r_osd (osdc_reqs osdc req)")
  case None
  then show ?thesis using ok by (simp add: finish_request_def)
next
  case (Some onum)
  show ?thesis
    unfolding finish_request_def Some option.case
    by (rule ok_with_bind [OF unlink_request_Ok [OF ok Some]]) simp
qed

lemma complete_request_Ok:
  assumes ok: "client_ok U osdc"
  shows "ok_with (complete_request req err osdc) (done_with U req err osdc)"
proof -
  let ?o = "upd_req req (\<lambda>r. r\<lparr>r_result := err\<rparr>) osdc"
  have o: "step U osdc ?o" "linked ?o = linked osdc" "completed ?o = completed osdc" using upd_req_step' [OF ok] by simp_all
  have "done_with U req err osdc (log_event (Op_Completed req err) osdc')"
    if fin: "client_ok U osdc'" "moved req None ?o osdc' \<or> r_osd (osdc_reqs ?o req) = None \<and> osdc' = ?o\<lparr>num_requests := num_requests ?o - 1\<rparr>" for osdc'
    using fin(2)
  proof
    assume mv: "moved req None ?o osdc'"
    have nums: "map o_osd (osds osdc') = map o_osd (osds osdc)" using mv by (simp add: moved_def)
    have "step U osdc (log_event (Op_Completed req err) osdc')"
      using step_trans [OF o(1) moved_step [OF fin(1) mv]] by (auto simp: step_def tid_of_def)
    moreover have "find_osd (log_event (Op_Completed req err) osdc') onum = None \<longleftrightarrow> find_osd osdc onum = None" for onum
      using moved_find [OF mv, of onum] find_osd_cong [of "log_event (Op_Completed req err) osdc'" osdc' onum] by simp
    ultimately show ?thesis
      using moved_linked [OF mv] moved_completed [OF mv] o(2,3) mv nums by (simp add: done_with_def moved_def)
  next
    assume none: "r_osd (osdc_reqs ?o req) = None \<and> osdc' = ?o\<lparr>num_requests := num_requests ?o - 1\<rparr>"
    have "step U osdc (log_event (Op_Completed req err) osdc')"
      using o(1) none fin(1) by (auto simp: step_def tid_of_def fun_eq_iff)
    moreover have "find_osd (log_event (Op_Completed req err) osdc') onum = find_osd osdc onum" for onum
      by (rule find_osd_cong) (use none in simp_all)
    moreover have "linked osdc' = linked osdc" "completed osdc' = completed osdc" using none o(2,3) by (simp_all add: linked_def completed_def)
    moreover have "req \<notin> linked osdc" using none by (simp add: linked_def)
    ultimately show ?thesis using none by (simp add: done_with_def)
  qed
  then show ?thesis
    unfolding complete_request_def by (intro ok_with_bind [OF finish_request_Ok [OF step_ok [OF o(1)]]]) simp
qed

section \<open>Map checks\<close>

lemma lookup_request_mc_eq:
  assumes ok: "client_ok U osdc" and req: "req \<in> U"
  shows "lookup_request_mc osdc (tid_of osdc req) = (if req \<in> set (map_checks osdc) then Some req else None)"
proof (cases "lookup_request_mc osdc (tid_of osdc req)")
  case None
  then show ?thesis by (auto simp: lookup_request_mc_def find_None_iff)
next
  case (Some r)
  then have r: "r \<in> set (map_checks osdc)" "tid_of osdc r = tid_of osdc req" by (auto simp: lookup_request_mc_def find_Some_iff)
  then have "r = req" using client_okD(3,6) [OF ok] req by (auto dest: inj_onD)
  then show ?thesis using Some r by simp
qed

text \<open>Taking a request out of the map checks, or putting it in.\<close>

lemma map_checks_upd:
  assumes ok: "client_ok U osdc" and mc: "set mc \<subseteq> U" "sorted_wrt (\<lambda>a b. tid_of osdc a < tid_of osdc b) mc"
  shows "client_ok U (osdc\<lparr>map_checks := mc\<rparr>)" "linked (osdc\<lparr>map_checks := mc\<rparr>) = linked osdc"
    "completed (osdc\<lparr>map_checks := mc\<rparr>) = completed osdc" "tid_of (osdc\<lparr>map_checks := mc\<rparr>) = tid_of osdc"
    "find_osd (osdc\<lparr>map_checks := mc\<rparr>) onum = find_osd osdc onum"
proof -
  let ?o = "osdc\<lparr>map_checks := mc\<rparr>"
  show l: "linked ?o = linked osdc" and "completed ?o = completed osdc" by (simp_all add: linked_def completed_def)
  show tid: "tid_of ?o = tid_of osdc" by (simp add: tid_of_def fun_eq_iff)
  have f: "find_osd ?o n = find_osd osdc n" for n by (rule find_osd_cong) simp_all
  show "find_osd ?o onum = find_osd osdc onum" by (rule f)
  have m: "maps_good ?o = maps_good osdc" by (rule maps_good_cong) simp_all
  have r: "request_ok ?o = request_ok osdc" by (auto simp: request_ok_def tid osd_slot_def fun_eq_iff)
  have s: "session_ok ?o = session_ok osdc" by (auto simp: session_ok_def tid fun_eq_iff)
  show "client_ok U ?o" using ok mc unfolding client_ok_def tid f m r s l by simp
qed

definition same_requests :: "nat set \<Rightarrow> ceph_osd_client \<Rightarrow> ceph_osd_client \<Rightarrow> bool" where
  "same_requests U osdc osdc' \<longleftrightarrow> step U osdc osdc' \<and> linked osdc' = linked osdc \<and> completed osdc' = completed osdc \<and>
     (\<forall>r. r_osd (osdc_reqs osdc' r) = r_osd (osdc_reqs osdc r)) \<and>
     (\<forall>onum. find_osd osdc' onum = None \<longleftrightarrow> find_osd osdc onum = None) \<and> map o_osd (osds osdc') = map o_osd (osds osdc)"

lemma same_requests_refl: "client_ok U osdc \<Longrightarrow> same_requests U osdc osdc"
  by (simp add: same_requests_def step_refl)

lemma same_requests_trans: "same_requests U a b \<Longrightarrow> same_requests U b c \<Longrightarrow> same_requests U a c"
  by (auto simp: same_requests_def step_def)

lemma cancel_map_check_Ok:
  assumes ok: "client_ok U osdc" and req: "req \<in> U"
  shows "ok_with (cancel_map_check req osdc) (\<lambda>osdc'. same_requests U osdc osdc' \<and> osdc_reqs osdc' = osdc_reqs osdc \<and>
     set (map_checks osdc') = set (map_checks osdc) - {req})"
proof (cases "req \<in> set (map_checks osdc)")
  case False
  then show ?thesis using same_requests_refl [OF ok] lookup_request_mc_eq [OF ok req] by (simp add: cancel_map_check_def)
next
  case True
  let ?mc = "remove1 req (map_checks osdc)"
  have mc: "erase_request (map_checks osdc) req = Ok ?mc" "sorted_wrt (\<lambda>a b. tid_of osdc a < tid_of osdc b) ?mc"
    "set ?mc = set (map_checks osdc) - {req}"
    using erase_request_Ok [OF True client_okD(7) [OF ok]] by (auto simp: ok_with_def)
  have "set ?mc \<subseteq> U" using mc(3) client_okD(6) [OF ok] by blast
  from map_checks_upd [OF ok this mc(2)] have "same_requests U osdc (osdc\<lparr>map_checks := ?mc\<rparr>)"
    by (simp add: same_requests_def step_def)
  then show ?thesis using True mc(1,3) lookup_request_mc_eq [OF ok req] by (simp add: cancel_map_check_def)
qed

lemma send_map_check_Ok:
  assumes ok: "client_ok U osdc" and req: "req \<in> U"
  shows "ok_with (send_map_check req osdc) (\<lambda>osdc'. same_requests U osdc osdc' \<and> osdc_reqs osdc' = osdc_reqs osdc \<and>
     set (map_checks osdc') = insert req (set (map_checks osdc)))"
proof (cases "req \<in> set (map_checks osdc)")
  case True
  then show ?thesis using same_requests_refl [OF ok] lookup_request_mc_eq [OF ok req] by (auto simp: send_map_check_def)
next
  case False
  have "tid_of osdc req \<notin> tid_of osdc ` set (map_checks osdc)"
    using False client_okD(3,6) [OF ok] req by (auto dest: inj_onD)
  then obtain mc where mc: "insert_request (tid_of osdc) (map_checks osdc) req = Ok mc"
    "sorted_wrt (\<lambda>a b. tid_of osdc a < tid_of osdc b) mc" "set mc = insert req (set (map_checks osdc))"
    using insert_request_Ok [of "tid_of osdc" "map_checks osdc" req] client_okD(7) [OF ok] by (auto simp: ok_with_def)
  have "set mc \<subseteq> U" using client_okD(6) [OF ok] req by (simp add: mc(3))
  note u = map_checks_upd [OF ok this mc(2)]
  let ?o = "log_event (Get_Version (tid_of osdc req)) (osdc\<lparr>map_checks := mc\<rparr>)"
  have "find_osd ?o n = find_osd osdc n" for n by (rule find_osd_cong) simp_all
  moreover have "tid_of ?o = tid_of osdc" by (simp add: tid_of_def fun_eq_iff)
  ultimately have "same_requests U osdc ?o" using u by (simp add: same_requests_def step_def)
  then show ?thesis using False mc(1,3) lookup_request_mc_eq [OF ok req] by (simp add: send_map_check_def)
qed

text \<open>
  A request of a pool that does not exist is completed, or a map check is under way for it, or it waits for a newer map.
\<close>

lemma check_pool_dne_Ok:
  assumes ok: "client_ok U osdc" and req: "req \<in> U"
  shows "ok_with (check_pool_dne req osdc) (\<lambda>osdc'. step U osdc osdc' \<and>
     (\<forall>onum. find_osd osdc' onum = None \<longleftrightarrow> find_osd osdc onum = None) \<and> map o_osd (osds osdc') = map o_osd (osds osdc) \<and>
     (\<forall>r. r \<noteq> req \<longrightarrow> r_osd (osdc_reqs osdc' r) = r_osd (osdc_reqs osdc r)) \<and> (\<forall>r. r_t (osdc_reqs osdc' r) = r_t (osdc_reqs osdc r)) \<and>
     (\<forall>r. r_attempts (osdc_reqs osdc' r) = r_attempts (osdc_reqs osdc r)) \<and> set (map_checks osdc) \<subseteq> set (map_checks osdc') \<and>
     (linked osdc' = linked osdc - {req} \<and> completed osdc' = completed osdc @ [req] \<or>
      linked osdc' = linked osdc \<and> completed osdc' = completed osdc \<and> r_osd (osdc_reqs osdc' req) = r_osd (osdc_reqs osdc req) \<and>
        (r_attempts (osdc_reqs osdc req) = 0 \<or> osdmap_epoch (osdc_osdmap osdc) = 0) \<and>
        (req \<in> set (map_checks osdc') \<or> osdmap_epoch (osdc_osdmap osdc') < r_map_dne_bound (osdc_reqs osdc' req))))"
proof -
  let ?ep = "osdmap_epoch (osdc_osdmap osdc)"
  define o1 where "o1 = (if r_attempts (osdc_reqs osdc req) \<noteq> 0 then upd_req req (\<lambda>r. r\<lparr>r_map_dne_bound := ?ep\<rparr>) osdc else osdc)"
  have s1: "step U osdc o1" "linked o1 = linked osdc" "completed o1 = completed osdc" "map_checks o1 = map_checks osdc"
    "osds o1 = osds osdc" "homeless_osd o1 = homeless_osd osdc" "\<And>r. r_osd (osdc_reqs o1 r) = r_osd (osdc_reqs osdc r)"
    "\<And>r. r_t (osdc_reqs o1 r) = r_t (osdc_reqs osdc r)" "\<And>r. r_attempts (osdc_reqs o1 r) = r_attempts (osdc_reqs osdc r)" "osdc_osdmap o1 = osdc_osdmap osdc"
    using upd_req_step' [OF ok, of "\<lambda>r. r\<lparr>r_map_dne_bound := ?ep\<rparr>" req] step_refl [OF ok] by (simp_all add: o1_def)
  have f1: "find_osd o1 n = find_osd osdc n" for n by (rule find_osd_cong) (use s1 in simp_all)
  have eq: "check_pool_dne req osdc = (let bound = r_map_dne_bound (osdc_reqs o1 req) in
      if bound \<noteq> 0 then (if ?ep \<ge> bound then complete_request req ENOENT_ERR o1 else Ok o1) else send_map_check req o1)"
    by (simp add: check_pool_dne_def o1_def Let_def)
  have never: "r_attempts (osdc_reqs osdc req) = 0 \<or> ?ep = 0" if "\<not> (r_map_dne_bound (osdc_reqs o1 req) \<noteq> 0 \<and> ?ep \<ge> r_map_dne_bound (osdc_reqs o1 req))"
    using that by (cases "r_attempts (osdc_reqs osdc req) = 0") (simp_all add: o1_def)
  note ok1 = step_ok [OF s1(1)]
  consider (complete) "r_map_dne_bound (osdc_reqs o1 req) \<noteq> 0" "?ep \<ge> r_map_dne_bound (osdc_reqs o1 req)"
    | (wait) "r_map_dne_bound (osdc_reqs o1 req) \<noteq> 0" "\<not> ?ep \<ge> r_map_dne_bound (osdc_reqs o1 req)"
    | (check) "r_map_dne_bound (osdc_reqs o1 req) = 0" by blast
  then show ?thesis
  proof cases
    case complete
    then have "check_pool_dne req osdc = complete_request req ENOENT_ERR o1" by (simp add: eq)
    then show ?thesis
      using s1 f1 step_trans [OF s1(1)] by (auto intro!: ok_with_mono [OF complete_request_Ok [OF ok1]] simp: done_with_def)
  next
    case wait
    then have "check_pool_dne req osdc = Ok o1" by (simp add: eq)
    moreover have "osdmap_epoch (osdc_osdmap o1) < r_map_dne_bound (osdc_reqs o1 req)" using wait(2) s1(10) by (simp add: not_le)
    ultimately show ?thesis using s1 f1 never wait by simp
  next
    case check
    then have "check_pool_dne req osdc = send_map_check req o1" by (simp add: eq)
    then show ?thesis
      using s1 f1 step_trans [OF s1(1)] never check by (auto intro!: ok_with_mono [OF send_map_check_Ok [OF ok1 req]] simp: same_requests_def)
  qed
qed

section \<open>Targets and messages\<close>

lemma find_osd_None: "find_osd osdc onum = None \<longleftrightarrow> onum \<noteq> CEPH_HOMELESS_OSD \<and> onum \<notin> set (map o_osd (osds osdc))"
  by (auto simp: find_osd_def find_None_iff)

text \<open>The settings of the client.\<close>

definition same_opts :: "ceph_osd_client \<Rightarrow> ceph_osd_client \<Rightarrow> bool" where
  "same_opts osdc osdc' \<longleftrightarrow> abort_err osdc' = abort_err osdc \<and> opt_abort_on_full osdc' = opt_abort_on_full osdc \<and>
     osdc_epoch_barrier osdc' = osdc_epoch_barrier osdc"

text \<open>\<open>same_but U osdc osdc'\<close>: besides the targets and the bookkeeping of sends, the requests are as before.\<close>

definition same_but :: "nat set \<Rightarrow> ceph_osd_client \<Rightarrow> ceph_osd_client \<Rightarrow> bool" where
  "same_but U osdc osdc' \<longleftrightarrow> same_requests U osdc osdc' \<and> map_checks osdc' = map_checks osdc \<and> last_tid osdc' = last_tid osdc \<and>
     same_opts osdc osdc'"

definition same_attempts :: "ceph_osd_client \<Rightarrow> ceph_osd_client \<Rightarrow> bool" where
  "same_attempts osdc osdc' \<longleftrightarrow> (\<forall>r. r_attempts (osdc_reqs osdc' r) = r_attempts (osdc_reqs osdc r))"

lemma same_but_ok: "same_but U osdc osdc' \<Longrightarrow> client_ok U osdc'"
  by (simp add: same_but_def same_requests_def step_def)

lemma crush_memory_upd:
  assumes ok: "client_ok U osdc" and maps: "maps_good (osdc\<lparr>osdc_crush_memory := cm\<rparr>)"
  shows "client_ok U (osdc\<lparr>osdc_crush_memory := cm, osdc_draws := n\<rparr>)" "linked (osdc\<lparr>osdc_crush_memory := cm, osdc_draws := n\<rparr>) = linked osdc"
    "tid_of (osdc\<lparr>osdc_crush_memory := cm, osdc_draws := n\<rparr>) = tid_of osdc"
proof -
  let ?o = "osdc\<lparr>osdc_crush_memory := cm, osdc_draws := n\<rparr>"
  show tid: "tid_of ?o = tid_of osdc" by (simp add: tid_of_def fun_eq_iff)
  show l: "linked ?o = linked osdc" by (simp add: linked_def)
  have f: "find_osd ?o m = find_osd osdc m" for m by (rule find_osd_cong) simp_all
  have m: "maps_good ?o" using maps by (simp add: maps_good_def maps_ok_def)
  have r: "request_ok ?o = request_ok osdc" by (auto simp: request_ok_def tid osd_slot_def fun_eq_iff)
  have s: "session_ok ?o = session_ok osdc" by (auto simp: session_ok_def tid fun_eq_iff)
  show "client_ok U ?o" using ok m unfolding client_ok_def tid f r s l by simp
qed

lemma calc_any_target_Ok:
  assumes ok: "client_ok U osdc" and rok: "target_ok (r_t (osdc_reqs osdc req))" "osd_slot osdc (t_osd (r_t (osdc_reqs osdc req)))"
  shows "ok_with (calc_req_target req osdc) (\<lambda>(res, osdc'). same_but U osdc osdc' \<and> same_attempts osdc osdc' \<and>
     (\<forall>r. r_map_dne_bound (osdc_reqs osdc' r) = r_map_dne_bound (osdc_reqs osdc r)) \<and>
     (\<forall>r. r \<noteq> req \<longrightarrow> osdc_reqs osdc' r = osdc_reqs osdc r) \<and>
     target_ok (r_t (osdc_reqs osdc' req)) \<and> osd_slot osdc' (t_osd (r_t (osdc_reqs osdc' req))) \<and>
     (res = CALC_TARGET_POOL_DNE \<longrightarrow> t_osd (r_t (osdc_reqs osdc' req)) = CEPH_HOMELESS_OSD) \<and>
     (res \<noteq> CALC_TARGET_POOL_DNE \<longrightarrow> on_target osdc (r_t (osdc_reqs osdc' req))))"
proof -
  obtain rank R where maps: "maps_ok rank R osdc" using client_okD(1) [OF ok] by (auto simp: maps_good_def)
  let ?t = "r_t (osdc_reqs osdc req)"
  obtain r where "calc_target osdc (osdc_random osdc (osdc_draws osdc)) ?t False = Ok r" "target_step osdc R ?t r"
    using calc_target_Ok [OF maps, of ?t "osdc_random osdc (osdc_draws osdc)" False] rok by blast
  moreover obtain res t cm where e: "r = (res, t, cm)" by (cases r)
  ultimately have calc: "calc_target osdc (osdc_random osdc (osdc_draws osdc)) ?t False = Ok (res, t, cm)" "target_step osdc R ?t (res, t, cm)" by simp_all
  have t: "target_ok t" "memory_ok R (osdc_osdmap osdc) cm" "t_osd t = t_osd ?t \<or> osd_usable osdc (t_osd t)"
    "res = CALC_TARGET_POOL_DNE \<longrightarrow> t_osd t = CEPH_HOMELESS_OSD" "res \<noteq> CALC_TARGET_POOL_DNE \<longrightarrow> on_target osdc t"
    using calc(2) by (cases res; simp add: target_step_def)+
  have slot: "osd_slot osdc (t_osd t)"
    using t(3) rok osd_usable_range [OF maps, of "t_osd t"] by (auto simp: osd_slot_def)
  have "maps_good (osdc\<lparr>osdc_crush_memory := cm\<rparr>)" using maps t(2) by (auto simp: maps_good_def maps_ok_def)
  note c = crush_memory_upd [OF ok this, of "Suc (osdc_draws osdc)"]
  define o1 where "o1 = osdc\<lparr>osdc_crush_memory := cm, osdc_draws := Suc (osdc_draws osdc)\<rparr>"
  have sel: "osdc_reqs o1 = osdc_reqs osdc" "osds o1 = osds osdc" "osdc_osdmap o1 = osdc_osdmap osdc" "osdc_stack o1 = osdc_stack osdc"
    "osdc_fuel o1 = osdc_fuel osdc" "map_checks o1 = map_checks osdc" "last_tid o1 = last_tid osdc" "same_opts osdc o1"
    "osdc_log o1 = osdc_log osdc" by (simp_all add: o1_def same_opts_def)
  let ?o = "upd_req req (\<lambda>r. r\<lparr>r_t := t\<rparr>) o1"
  have "step U o1 ?o" by (rule upd_req_step) (use c t(1) slot in \<open>simp_all add: o1_def osd_slot_def\<close>)
  moreover have "linked ?o = linked osdc" by (auto simp: linked_def sel)
  moreover have "completed ?o = completed osdc" by (simp add: completed_def sel)
  ultimately have "same_requests U osdc ?o" using c(3) by (simp add: same_requests_def step_def sel find_osd_None o1_def [symmetric])
  moreover have "same_opts osdc ?o" using sel by (simp add: upd_req_def same_opts_def)
  ultimately have "same_but U osdc ?o" by (simp add: same_but_def sel)
  then show ?thesis
    unfolding calc_req_target_def calc(1) using t(1,4,5) slot by (simp add: o1_def [symmetric] same_attempts_def sel osd_slot_def)
qed

lemma calc_req_target_Ok:
  assumes ok: "client_ok U osdc" and req: "req \<in> U"
  shows "ok_with (calc_req_target req osdc) (\<lambda>(res, osdc'). same_but U osdc osdc' \<and> same_attempts osdc osdc')"
  by (rule ok_with_mono [OF calc_any_target_Ok [OF ok]]) (use client_okD(4) [OF ok req] in \<open>auto simp: request_ok_def\<close>)

lemma send_request_Ok:
  assumes ok: "client_ok U osdc" and req: "req \<in> linked osdc"
  shows "ok_with (send_request req osdc) (\<lambda>osdc'. same_but U osdc osdc' \<and> (\<forall>r. r \<noteq> req \<longrightarrow> osdc_reqs osdc' r = osdc_reqs osdc r))"
proof -
  obtain onum where onum: "r_osd (osdc_reqs osdc req) = Some onum" using req by (auto simp: linked_def)
  obtain osd where osd: "find_osd osdc onum = Some osd" using client_okD(11) [OF ok onum] by blast
  show ?thesis
  proof (cases "should_plug_request (o_backoffs osd) (r_t (osdc_reqs osdc req))")
    case True
    then show ?thesis using onum osd same_requests_refl [OF ok] by (simp add: send_request_def get_osd_def same_but_def same_opts_def)
  next
    case False
    obtain r where r: "send_request req osdc = Ok (log_event (Op_Sent onum req r) (upd_req req (\<lambda>_. r) osdc))"
      "r_tid r = r_tid (osdc_reqs osdc req)" "r_osd r = r_osd (osdc_reqs osdc req)" "t_osd (r_t r) = t_osd (r_t (osdc_reqs osdc req))"
      "target_ok (r_t r) = target_ok (r_t (osdc_reqs osdc req))"
      using False onum osd by (simp add: send_request_def get_osd_def Let_def target_ok_def)
    let ?o = "upd_req req (\<lambda>_. r) osdc"
    have t: "target_ok (r_t r) \<and> osd_slot osdc (t_osd (r_t r))" if "req \<in> U"
      using client_okD(4) [OF ok that] r(4,5) by (simp add: request_ok_def)
    have "step U osdc ?o" by (rule upd_req_step) (use ok t r in simp_all)
    moreover have "linked ?o = linked osdc" using r(3) by (auto simp: linked_def)
    moreover have "completed ?o = completed osdc" by (simp add: completed_def)
    ultimately have "same_but U osdc (log_event (Op_Sent onum req r) ?o)"
      using r(3) by (auto simp: same_but_def same_requests_def step_def find_osd_None) (simp_all add: log_event_def upd_req_def same_opts_def)
    then show ?thesis using r(1) by simp
  qed
qed

section \<open>New sessions\<close>

lemma insert_osd_Ok:
  "o_osd osd \<notin> o_osd ` set xs \<Longrightarrow> distinct (map o_osd xs) \<Longrightarrow>
     ok_with (insert_osd xs osd) (\<lambda>os. set os = insert osd (set xs) \<and> distinct (map o_osd os))"
proof (induction xs osd rule: insert_osd.induct)
  case (2 cur xs osd)
  show ?case
  proof (cases "o_osd osd < o_osd cur")
    case False
    then have gt: "o_osd cur < o_osd osd" using 2(2) by auto
    have "ok_with (bind_outcome (insert_osd xs osd) (\<lambda>xs. Ok (cur # xs)))
        (\<lambda>os. set os = insert osd (set (cur # xs)) \<and> distinct (map o_osd os))"
      by (rule ok_with_bind [OF 2(1) [OF False gt]]) (use 2(2,3) gt in auto)
    then show ?thesis using False gt by simp
  qed (use 2 in auto)
qed simp

lemma create_osd_session: "session_ok osdc onum (create_osd onum addr)"
  by (simp add: session_ok_def create_osd_def backoffs_ok_def installed_def clear_rounds_def rb_sorted_def)

lemma lookup_create_osd_Ok:
  assumes ok: "client_ok U osdc" and slot: "osd_slot osdc onum"
  shows "ok_with (lookup_create_osd onum True osdc) (\<lambda>osdc'. client_ok U osdc' \<and> find_osd osdc' onum \<noteq> None \<and> osdc_reqs osdc' = osdc_reqs osdc \<and>
     completed osdc' = completed osdc \<and> map_checks osdc' = map_checks osdc \<and> osdc_osdmap osdc' = osdc_osdmap osdc \<and> last_tid osdc' = last_tid osdc \<and>
     osdc_stack osdc' = osdc_stack osdc \<and> osdc_fuel osdc' = osdc_fuel osdc \<and> same_opts osdc osdc')"
proof (cases "find_osd osdc onum")
  case (Some osd)
  then show ?thesis using ok by (simp add: lookup_create_osd_def same_opts_def)
next
  case None
  then have n: "onum \<noteq> CEPH_HOMELESS_OSD" "onum \<notin> o_osd ` set (osds osdc)" by (simp_all add: find_osd_None)
  then have r: "0 \<le> onum" "nat onum < length (osd_addr (osdc_osdmap osdc))" using slot by (simp_all add: osd_slot_def)
  let ?addr = "osd_addr (osdc_osdmap osdc) ! nat onum"
  have addr: "osd_addr_of osdc onum = Ok ?addr" using r by (simp add: osd_addr_of_def aref_def)
  obtain os where os: "insert_osd (osds osdc) (create_osd onum ?addr) = Ok os" "set os = insert (create_osd onum ?addr) (set (osds osdc))"
    "distinct (map o_osd os)"
    using insert_osd_Ok [of "create_osd onum ?addr" "osds osdc"] n client_okD(8) [OF ok] by (auto simp: ok_with_def create_osd_def)
  let ?o = "osdc\<lparr>osds := os\<rparr>"
  have uniq: "find (\<lambda>s. o_osd s = k) xs = Some s \<longleftrightarrow> s \<in> set xs \<and> o_osd s = k" if "distinct (map o_osd xs)" for k s xs
    using that by (induction xs) (auto simp: image_iff)
  have f: "find_osd ?o k = Some s \<longleftrightarrow> find_osd osdc k = Some s \<or> k = onum \<and> s = create_osd onum ?addr" for k s
    using uniq [OF os(3), of k s] uniq [OF client_okD(8) [OF ok], of k s] os(2) n(1)
    by (auto simp: find_osd_def create_osd_def)
  have tid: "tid_of ?o = tid_of osdc" by (simp add: tid_of_def fun_eq_iff)
  have l: "linked ?o = linked osdc" by (simp add: linked_def)
  have m: "maps_good ?o = maps_good osdc" by (rule maps_good_cong) simp_all
  have rq: "request_ok ?o = request_ok osdc" by (auto simp: request_ok_def tid osd_slot_def fun_eq_iff)
  have s: "session_ok ?o = session_ok osdc" by (auto simp: session_ok_def tid fun_eq_iff)
  have pos: "\<forall>s\<in>set (osds ?o). 0 \<le> o_osd s" using os(2) r(1) client_okD(9) [OF ok] by (auto simp: create_osd_def)
  have sess: "\<forall>k s. find_osd ?o k = Some s \<longrightarrow> session_ok ?o k s" using client_okD(10) [OF ok] create_osd_session unfolding f s by blast
  have mem: "\<exists>s. find_osd ?o k = Some s \<and> q \<in> set (o_requests s)" if "r_osd (osdc_reqs ?o q) = Some k" for q k
    using client_okD(11) [OF ok, of q k] that unfolding f by auto
  have lru: "0 \<le> k \<and> (\<exists>s. find_osd ?o k = Some s \<and> o_requests s = [])" if "k \<in> set (osd_lru ?o)" for k
    using client_okD(13) [OF ok, of k] that unfolding f by auto
  have "client_ok U ?o"
    unfolding client_ok_def tid l m rq using client_okD(1-3,5-7,12) [OF ok] client_okD(4) [OF ok] os(3) pos sess mem lru by simp
  moreover have "find_osd ?o onum \<noteq> None" using f [of onum] by auto
  then have "find_osd (log_event (Con_Open onum ?addr) ?o) onum \<noteq> None"
    using find_osd_cong [of "log_event (Con_Open onum ?addr) ?o" ?o onum] by simp
  moreover have "same_opts osdc (log_event (Con_Open onum ?addr) ?o)" by (simp add: log_event_def same_opts_def)
  ultimately show ?thesis
    by (simp add: lookup_create_osd_def None addr os(1) completed_def del: log_event_sel) (simp add: log_event_def)
qed

section \<open>Closing a session\<close>

text \<open>The requests of \<open>osdc\<close> and \<open>osdc'\<close> differ at most in the session they are linked to.\<close>

definition same_besides_osd :: "ceph_osd_client \<Rightarrow> ceph_osd_client \<Rightarrow> bool" where
  "same_besides_osd osdc osdc' \<longleftrightarrow> same_view osdc osdc' \<and> map_checks osdc' = map_checks osdc \<and> last_tid osdc' = last_tid osdc \<and>
     (\<forall>r. (osdc_reqs osdc' r)\<lparr>r_osd := None\<rparr> = (osdc_reqs osdc r)\<lparr>r_osd := None\<rparr>)"

lemma same_besides_osd_refl [simp]: "same_besides_osd osdc osdc"
  by (simp add: same_besides_osd_def)

lemma same_besides_osd_trans: "same_besides_osd a b \<Longrightarrow> same_besides_osd b c \<Longrightarrow> same_besides_osd a c"
  by (simp add: same_besides_osd_def same_view_def)

lemma moved_besides_osd: "moved req to a b \<Longrightarrow> same_besides_osd a b"
  by (auto simp: moved_def same_besides_osd_def)

lemma same_besides_osdD:
  assumes "same_besides_osd a b"
  shows "r_t (osdc_reqs b r) = r_t (osdc_reqs a r)" "r_attempts (osdc_reqs b r) = r_attempts (osdc_reqs a r)"
    "r_map_dne_bound (osdc_reqs b r) = r_map_dne_bound (osdc_reqs a r)" "tid_of b = tid_of a"
proof -
  have e: "(osdc_reqs b r)\<lparr>r_osd := None\<rparr> = (osdc_reqs a r)\<lparr>r_osd := None\<rparr>" for r using assms by (simp add: same_besides_osd_def)
  show "r_t (osdc_reqs b r) = r_t (osdc_reqs a r)" using arg_cong [OF e [of r], of r_t] by simp
  show "r_attempts (osdc_reqs b r) = r_attempts (osdc_reqs a r)" using arg_cong [OF e [of r], of r_attempts] by simp
  show "r_map_dne_bound (osdc_reqs b r) = r_map_dne_bound (osdc_reqs a r)" using arg_cong [OF e [of r], of r_map_dne_bound] by simp
  have "r_tid (osdc_reqs b r) = r_tid (osdc_reqs a r)" for r using arg_cong [OF e [of r], of r_tid] by simp
  then show "tid_of b = tid_of a" by (simp add: tid_of_def fun_eq_iff)
qed

text \<open>A session without requests can be taken out.\<close>

lemma remove_session:
  assumes ok: "client_ok U osdc" and find: "find_osd osdc onum = Some osd" "o_requests osd = []" and onum: "onum \<noteq> CEPH_HOMELESS_OSD"
  shows "client_ok U ((remove_osd_from_lru onum osdc)\<lparr>osds := filter (\<lambda>osd. o_osd osd \<noteq> onum) (osds osdc)\<rparr>)" (is "client_ok U ?o")
proof -
  have sel: "osdc_reqs ?o = osdc_reqs osdc" "osds ?o = filter (\<lambda>osd. o_osd osd \<noteq> onum) (osds osdc)" "homeless_osd ?o = homeless_osd osdc"
    "osd_lru ?o = removeAll onum (osd_lru osdc)" "map_checks ?o = map_checks osdc" "osdc_rb ?o = osdc_rb osdc"
    by (simp_all add: remove_osd_from_lru_def)
  have tid: "tid_of ?o = tid_of osdc" by (simp add: tid_of_def fun_eq_iff sel)
  have l: "linked ?o = linked osdc" by (simp add: linked_def sel)
  have m: "maps_good ?o = maps_good osdc" by (rule maps_good_cong) (simp_all add: remove_osd_from_lru_def)
  have rest: "last_tid ?o = last_tid osdc" "osdc_osdmap ?o = osdc_osdmap osdc" "osdc_fuel ?o = osdc_fuel osdc" by (simp_all add: remove_osd_from_lru_def)
  have rq: "request_ok ?o = request_ok osdc" by (rule ext) (simp only: request_ok_def tid osd_slot_def sel rest)
  have s: "session_ok ?o = session_ok osdc" by (intro ext) (simp only: session_ok_def tid sel rest)
  have fd: "find (\<lambda>s. o_osd s = k) (filter (\<lambda>s. o_osd s \<noteq> onum) xs) = (if k = onum then None else find (\<lambda>s. o_osd s = k) xs)" for k xs
    by (induction xs) auto
  have f: "find_osd ?o k = (if k = onum then None else find_osd osdc k)" for k
    using onum fd [of k "osds osdc"] by (auto simp: find_osd_def sel)
  have mem: "\<exists>s. find_osd ?o k = Some s \<and> q \<in> set (o_requests s)" if "r_osd (osdc_reqs ?o q) = Some k" for q k
    using client_okD(11) [OF ok, of q k] that find unfolding f sel by (cases "k = onum") auto
  have lru: "0 \<le> k \<and> (\<exists>s. find_osd ?o k = Some s \<and> o_requests s = [])" if "k \<in> set (osd_lru ?o)" for k
    using client_okD(13) [OF ok, of k] that unfolding f sel by auto
  have sess: "\<forall>k s. find_osd ?o k = Some s \<longrightarrow> session_ok ?o k s" using client_okD(10) [OF ok] unfolding f s by simp
  have nums: "distinct (map o_osd (osds ?o))" "\<forall>s\<in>set (osds ?o). 0 \<le> o_osd s"
    using client_okD(8,9) [OF ok] by (simp_all add: sel distinct_map_filter)
  show ?thesis
    unfolding client_ok_def tid l m rq using client_okD(1-3,5-7,12) [OF ok] client_okD(4) [OF ok] nums sess mem lru
    by (simp add: sel distinct_removeAll)
qed

text \<open>The loop over the requests of the session that is closed.\<close>

lemma rehome_request_Ok:
  assumes ok: "client_ok U osdc" and req: "r_osd (osdc_reqs osdc req) = Some onum" and onum: "onum \<noteq> CEPH_HOMELESS_OSD"
  shows "ok_with (bind_outcome (unlink_request onum req osdc) (link_request CEPH_HOMELESS_OSD req)) (\<lambda>osdc'. client_ok U osdc' \<and>
     same_besides_osd osdc osdc' \<and> map o_osd (osds osdc') = map o_osd (osds osdc) \<and>
     (\<forall>r. r_osd (osdc_reqs osdc' r) = (if r = req then Some CEPH_HOMELESS_OSD else r_osd (osdc_reqs osdc r))))"
proof (rule ok_with_bind [OF unlink_request_Ok [OF ok req]])
  fix o1 assume o1: "client_ok U o1 \<and> moved req None osdc o1"
  have none: "r_osd (osdc_reqs o1 req) = None" using o1 by (simp add: moved_def)
  have "req \<in> U" using client_okD(5) [OF ok] req by (auto simp: linked_def)
  moreover have "find_osd o1 CEPH_HOMELESS_OSD \<noteq> None" by (simp add: find_osd_def)
  ultimately have "ok_with (link_request CEPH_HOMELESS_OSD req o1) (\<lambda>o2. client_ok U o2 \<and> moved req (Some CEPH_HOMELESS_OSD) o1 o2)"
    using o1 none by (intro link_request_Ok) simp_all
  then show "ok_with (link_request CEPH_HOMELESS_OSD req o1) (\<lambda>osdc'. client_ok U osdc' \<and>
     same_besides_osd osdc osdc' \<and> map o_osd (osds osdc') = map o_osd (osds osdc) \<and>
     (\<forall>r. r_osd (osdc_reqs osdc' r) = (if r = req then Some CEPH_HOMELESS_OSD else r_osd (osdc_reqs osdc r))))"
  proof (rule ok_with_mono)
    fix o2 assume o2: "client_ok U o2 \<and> moved req (Some CEPH_HOMELESS_OSD) o1 o2"
    have "same_besides_osd osdc o2" using moved_besides_osd same_besides_osd_trans o1 o2 by blast
    then show "client_ok U o2 \<and> same_besides_osd osdc o2 \<and> map o_osd (osds o2) = map o_osd (osds osdc) \<and>
       (\<forall>r. r_osd (osdc_reqs o2 r) = (if r = req then Some CEPH_HOMELESS_OSD else r_osd (osdc_reqs osdc r)))"
      using o1 o2 by (simp add: moved_def)
  qed
qed

lemma rehome_all_Ok:
  assumes ok: "client_ok U osdc" and onum: "onum \<noteq> CEPH_HOMELESS_OSD"
    and reqs: "\<And>r. r \<in> set reqs \<longleftrightarrow> r_osd (osdc_reqs osdc r) = Some onum" "distinct reqs"
  shows "ok_with (for_each (\<lambda>req osdc. bind_outcome (unlink_request onum req osdc) (link_request CEPH_HOMELESS_OSD req)) reqs osdc) (\<lambda>osdc'.
     client_ok U osdc' \<and> same_besides_osd osdc osdc' \<and> map o_osd (osds osdc') = map o_osd (osds osdc) \<and>
     (\<forall>r. r_osd (osdc_reqs osdc' r) = (if r_osd (osdc_reqs osdc r) = Some onum then Some CEPH_HOMELESS_OSD else r_osd (osdc_reqs osdc r))))"
proof -
  define P where "P xs o1 \<longleftrightarrow> client_ok U o1 \<and> same_besides_osd osdc o1 \<and> map o_osd (osds o1) = map o_osd (osds osdc) \<and> distinct xs \<and>
     (\<forall>r\<in>set xs. r_osd (osdc_reqs osdc r) = Some onum) \<and>
     (\<forall>r. r_osd (osdc_reqs o1 r) = (if r_osd (osdc_reqs osdc r) = Some onum \<and> r \<notin> set xs then Some CEPH_HOMELESS_OSD else r_osd (osdc_reqs osdc r)))"
    for xs o1
  have "P reqs osdc" using ok reqs by (auto simp: P_def)
  moreover have "ok_with (bind_outcome (unlink_request onum x s) (link_request CEPH_HOMELESS_OSD x)) (P xs)" if P: "P (x # xs) s" for x xs s
  proof (rule ok_with_mono [OF rehome_request_Ok [OF _ _ onum]])
    show "client_ok U s" "r_osd (osdc_reqs s x) = Some onum" using P by (simp_all add: P_def)
    fix v assume v: "client_ok U v \<and> same_besides_osd s v \<and> map o_osd (osds v) = map o_osd (osds s) \<and>
       (\<forall>r. r_osd (osdc_reqs v r) = (if r = x then Some CEPH_HOMELESS_OSD else r_osd (osdc_reqs s r)))"
    have "same_besides_osd osdc v" using P v same_besides_osd_trans by (auto simp: P_def)
    then show "P xs v" using P v by (auto simp: P_def)
  qed
  ultimately have "ok_with (for_each (\<lambda>req osdc. bind_outcome (unlink_request onum req osdc) (link_request CEPH_HOMELESS_OSD req)) reqs osdc) (P [])"
    by (rule ok_with_for_each)
  then show ?thesis by (rule ok_with_mono) (simp add: P_def)
qed

lemma session_requests:
  assumes ok: "client_ok U osdc" and find: "find_osd osdc onum = Some osd"
  shows "r \<in> set (o_requests osd) \<longleftrightarrow> r_osd (osdc_reqs osdc r) = Some onum" "distinct (o_requests osd)"
proof -
  have s: "session_ok osdc onum osd" by (rule client_okD(10) [OF ok find])
  show "r \<in> set (o_requests osd) \<longleftrightarrow> r_osd (osdc_reqs osdc r) = Some onum"
    using s client_okD(11) [OF ok, of r onum] find by (auto simp: session_ok_def)
  have "distinct xs" if "sorted_wrt (\<lambda>a b. tid_of osdc a < tid_of osdc b) xs" for xs using that by (induction xs) auto
  then show "distinct (o_requests osd)" using s by (simp add: session_ok_def)
qed

lemma close_osd_Ok:
  assumes ok: "client_ok U osdc" and onum: "onum \<in> set (map o_osd (osds osdc))"
  shows "ok_with (close_osd onum osdc) (\<lambda>osdc'. client_ok U osdc' \<and> same_besides_osd osdc osdc' \<and> linked osdc' = linked osdc \<and>
     map o_osd (osds osdc') = filter (\<lambda>n. n \<noteq> onum) (map o_osd (osds osdc)))"
proof -
  have pos: "0 \<le> onum" using onum client_okD(9) [OF ok] by auto
  then have H: "onum \<noteq> CEPH_HOMELESS_OSD" by auto
  obtain osd where find: "find_osd osdc onum = Some osd" using onum find_osd_None [of osdc onum] by fastforce
  let ?o0 = "log_event (Con_Close onum) osdc"
  have ok0: "client_ok U ?o0" using ok by simp
  have f0: "find_osd ?o0 k = find_osd osdc k" for k by (rule find_osd_cong) simp_all
  have b0: "same_besides_osd osdc ?o0" by (simp add: same_besides_osd_def same_view_def)
  have rest: "ok_with (bind_outcome (get_osd o1 onum) (\<lambda>osd.
       bind_outcome (clear_backoffs (osdc_rb o1) (osdc_fuel o1) (o_backoffs osd)) (\<lambda>backoffs.
         Ok ((remove_osd_from_lru onum o1)\<lparr>osds := filter (\<lambda>osd. o_osd osd \<noteq> onum) (osds o1)\<rparr>))))
      (\<lambda>osdc'. client_ok U osdc' \<and> same_besides_osd osdc osdc' \<and> linked osdc' = linked osdc \<and>
        map o_osd (osds osdc') = filter (\<lambda>n. n \<noteq> onum) (map o_osd (osds osdc)))"
    if o1: "client_ok U o1" "same_besides_osd ?o0 o1" "map o_osd (osds o1) = map o_osd (osds ?o0)"
      "\<forall>r. r_osd (osdc_reqs o1 r) = (if r_osd (osdc_reqs ?o0 r) = Some onum then Some CEPH_HOMELESS_OSD else r_osd (osdc_reqs ?o0 r))" for o1
  proof -
    obtain s where s: "find_osd o1 onum = Some s" using onum find_osd_None [of o1 onum] o1(3) by fastforce
    have "r_osd (osdc_reqs o1 r) \<noteq> Some onum" for r using o1(4) H by simp
    then have e: "o_requests s = []" using session_requests(1) [OF o1(1) s] by (metis list.set_intros(1) neq_Nil_conv)
    have "session_ok o1 onum s" by (rule client_okD(10) [OF o1(1) s])
    then obtain bo where bo: "clear_backoffs (osdc_rb o1) (osdc_fuel o1) (o_backoffs s) = Ok bo"
      using clear_mappings_Ok [OF client_okD(2) [OF o1(1)], of "o_backoffs s" "osdc_fuel o1"] by (auto simp: session_ok_def clear_backoffs_def)
    let ?o = "(remove_osd_from_lru onum o1)\<lparr>osds := filter (\<lambda>osd. o_osd osd \<noteq> onum) (osds o1)\<rparr>"
    have "client_ok U ?o" by (rule remove_session [OF o1(1) s e H])
    moreover have "same_besides_osd o1 ?o" by (simp add: same_besides_osd_def same_view_def completed_def remove_osd_from_lru_def)
    then have "same_besides_osd osdc ?o" using b0 o1(2) same_besides_osd_trans by blast
    moreover have "linked ?o = linked osdc" using o1(4) by (auto simp: linked_def remove_osd_from_lru_def)
    moreover have "map o_osd (osds ?o) = filter (\<lambda>n. n \<noteq> onum) (map o_osd (osds o1))" by (simp add: filter_map comp_def)
    ultimately show ?thesis using s bo o1(3) by (simp add: get_osd_def)
  qed
  have "ok_with (osd_reqs osdc onum) (\<lambda>reqs. reqs = o_requests osd)" using find by (simp add: osd_reqs_def get_osd_def)
  then show ?thesis
    unfolding close_osd_def
  proof (rule ok_with_bind)
    fix reqs assume "reqs = o_requests osd"
    then have r: "\<And>r. r \<in> set reqs \<longleftrightarrow> r_osd (osdc_reqs ?o0 r) = Some onum" "distinct reqs"
      using session_requests [OF ok find] by simp_all
    show "ok_with (bind_outcome (for_each (\<lambda>req osdc. bind_outcome (unlink_request onum req osdc) (link_request CEPH_HOMELESS_OSD req)) reqs ?o0) (\<lambda>osdc.
       bind_outcome (get_osd osdc onum) (\<lambda>osd. bind_outcome (clear_backoffs (osdc_rb osdc) (osdc_fuel osdc) (o_backoffs osd)) (\<lambda>backoffs.
         Ok ((remove_osd_from_lru onum osdc)\<lparr>osds := filter (\<lambda>osd. o_osd osd \<noteq> onum) (osds osdc)\<rparr>)))))
      (\<lambda>osdc'. client_ok U osdc' \<and> same_besides_osd osdc osdc' \<and> linked osdc' = linked osdc \<and>
        map o_osd (osds osdc') = filter (\<lambda>n. n \<noteq> onum) (map o_osd (osds osdc)))"
      by (rule ok_with_bind [OF rehome_all_Ok [OF ok0 H r]], elim conjE) (rule rest)
  qed
qed

end
