(* ===== verification/OsdScan.thy ===== *)
theory OsdScan
  imports OsdLinks
begin

text \<open>
  Messages with OSD maps, and aborts. The relation \<open>ledger\<close> follows requests while they are between sessions; \<open>books\<close> is its outcome: the requests that
  are still open, those that were completed and those that were lost.
\<close>

unbundle bit_operations_syntax

section \<open>The ledger of requests\<close>

text \<open>A list of requests that are between sessions.\<close>

definition resend_ok :: "nat set \<Rightarrow> ceph_osd_client \<Rightarrow> nat list \<Rightarrow> bool" where
  "resend_ok U osdc nr \<longleftrightarrow> sorted_wrt (\<lambda>a b. tid_of osdc a < tid_of osdc b) nr \<and> set nr \<subseteq> U \<and> set nr \<inter> linked osdc = {}"

text \<open>
  \<open>ledger U (nr, osdc) (nr', osdc')\<close>: from the first state to the second no request is lost or finished twice: those that were linked
  or between sessions are so still, or have been completed once.
\<close>

definition ledger :: "nat set \<Rightarrow> nat list \<times> ceph_osd_client \<Rightarrow> nat list \<times> ceph_osd_client \<Rightarrow> bool" where
  "ledger U = (\<lambda>(nr, osdc) (nr', osdc'). client_ok U osdc' \<and> resend_ok U osdc' nr' \<and> tid_of osdc' = tid_of osdc \<and> same_attempts osdc osdc' \<and>
     osdc_stack osdc' = osdc_stack osdc \<and> osdc_fuel osdc' = osdc_fuel osdc \<and>
     (\<exists>dn. completed osdc' = completed osdc @ dn \<and> distinct dn \<and> set dn \<inter> (linked osdc' \<union> set nr') = {} \<and>
       linked osdc' \<union> set nr' \<union> set dn = linked osdc \<union> set nr))"

lemma ledger_refl: "client_ok U osdc \<Longrightarrow> resend_ok U osdc nr \<Longrightarrow> ledger U (nr, osdc) (nr, osdc)"
  by (simp add: ledger_def same_attempts_def)

lemma ledger_ok: "ledger U s (nr, osdc) \<Longrightarrow> client_ok U osdc \<and> resend_ok U osdc nr"
  by (cases s) (simp add: ledger_def)

lemma ledger_trans:
  assumes "ledger U a b" and "ledger U b c"
  shows "ledger U a c"
proof -
  obtain n1 o1 n2 o2 n3 o3 where e: "a = (n1, o1)" "b = (n2, o2)" "c = (n3, o3)" by (cases a; cases b; cases c) auto
  obtain d1 where d1: "completed o2 = completed o1 @ d1" "distinct d1" "set d1 \<inter> (linked o2 \<union> set n2) = {}"
    "linked o2 \<union> set n2 \<union> set d1 = linked o1 \<union> set n1" using assms(1) by (auto simp: ledger_def e)
  obtain d2 where d2: "completed o3 = completed o2 @ d2" "distinct d2" "set d2 \<inter> (linked o3 \<union> set n3) = {}"
    "linked o3 \<union> set n3 \<union> set d2 = linked o2 \<union> set n2" using assms(2) by (auto simp: ledger_def e)
  have "distinct (d1 @ d2)" using d1 d2 by auto
  moreover have "set (d1 @ d2) \<inter> (linked o3 \<union> set n3) = {}" using d1(3) d2(3,4) by auto
  moreover have "linked o3 \<union> set n3 \<union> set (d1 @ d2) = linked o1 \<union> set n1" using d1(4) d2(4) by auto
  ultimately show ?thesis using assms d1(1) d2(1) by (auto simp: ledger_def e same_attempts_def intro!: exI [of _ "d1 @ d2"])
qed

lemma same_but_ledger:
  assumes s: "same_but U osdc osdc'" and a: "same_attempts osdc osdc'" and nr: "resend_ok U osdc nr"
  shows "ledger U (nr, osdc) (nr, osdc')"
proof -
  have l: "linked osdc' = linked osdc" "tid_of osdc' = tid_of osdc" "completed osdc' = completed osdc" "client_ok U osdc'"
    "osdc_stack osdc' = osdc_stack osdc" "osdc_fuel osdc' = osdc_fuel osdc"
    using s by (simp_all add: same_but_def same_requests_def step_def)
  have "resend_ok U osdc' nr" using nr by (simp add: resend_ok_def l)
  then show ?thesis using a l nr by (auto simp: ledger_def resend_ok_def)
qed

section \<open>Scanning the requests of a session\<close>

text \<open>The step of the loop leaves the other requests where they are.\<close>

definition others_stay :: "nat \<Rightarrow> ceph_osd_client \<Rightarrow> ceph_osd_client \<Rightarrow> bool" where
  "others_stay req osdc osdc' \<longleftrightarrow> (\<forall>r. r \<noteq> req \<longrightarrow> r_osd (osdc_reqs osdc' r) = r_osd (osdc_reqs osdc r)) \<and>
     map o_osd (osds osdc') = map o_osd (osds osdc) \<and> osdc_osdmap osdc' = osdc_osdmap osdc"

lemma others_stay_trans: "others_stay req a b \<Longrightarrow> others_stay req b c \<Longrightarrow> others_stay req a c"
  by (simp add: others_stay_def)

lemma same_requests_stay: "same_requests U a b \<Longrightarrow> others_stay req a b"
  by (simp add: others_stay_def same_requests_def step_def)

lemma check_pool_dne_ledger:
  assumes ok: "client_ok U osdc" and nr: "resend_ok U osdc nr" and req: "req \<in> linked osdc"
  shows "ok_with (check_pool_dne req osdc) (\<lambda>osdc'. ledger U (nr, osdc) (nr, osdc') \<and> others_stay req osdc osdc')"
proof (rule ok_with_mono [OF check_pool_dne_Ok [OF ok]])
  show U: "req \<in> U" using req client_okD(5) [OF ok] by blast
  fix o1 assume o1: "step U osdc o1 \<and>
     (\<forall>onum. find_osd o1 onum = None \<longleftrightarrow> find_osd osdc onum = None) \<and> map o_osd (osds o1) = map o_osd (osds osdc) \<and>
     (\<forall>r. r \<noteq> req \<longrightarrow> r_osd (osdc_reqs o1 r) = r_osd (osdc_reqs osdc r)) \<and> (\<forall>r. r_t (osdc_reqs o1 r) = r_t (osdc_reqs osdc r)) \<and>
     (\<forall>r. r_attempts (osdc_reqs o1 r) = r_attempts (osdc_reqs osdc r)) \<and> set (map_checks osdc) \<subseteq> set (map_checks o1) \<and>
     (linked o1 = linked osdc - {req} \<and> completed o1 = completed osdc @ [req] \<or>
      linked o1 = linked osdc \<and> completed o1 = completed osdc \<and> r_osd (osdc_reqs o1 req) = r_osd (osdc_reqs osdc req) \<and>
        (r_attempts (osdc_reqs osdc req) = 0 \<or> osdmap_epoch (osdc_osdmap osdc) = 0) \<and>
        (req \<in> set (map_checks o1) \<or> osdmap_epoch (osdc_osdmap o1) < r_map_dne_bound (osdc_reqs o1 req)))"
  have st: "step U osdc o1" "same_attempts osdc o1" using o1 by (simp_all add: same_attempts_def)
  have res: "resend_ok U o1 nr" if "linked o1 \<subseteq> linked osdc" using that nr st(1) by (auto simp: resend_ok_def step_def)
  have "\<exists>dn. completed o1 = completed osdc @ dn \<and> distinct dn \<and> set dn \<inter> (linked o1 \<union> set nr) = {} \<and>
     linked o1 \<union> set nr \<union> set dn = linked osdc \<union> set nr \<and> linked o1 \<subseteq> linked osdc"
  proof (cases "linked o1 = linked osdc")
    case True
    then have "completed o1 = completed osdc" using o1 req by auto
    then show ?thesis using True by simp
  next
    case False
    then have "linked o1 = linked osdc - {req}" "completed o1 = completed osdc @ [req]" using o1 by auto
    then show ?thesis using req nr by (auto simp: resend_ok_def intro!: exI [of _ "[req]"])
  qed
  then show "ledger U (nr, osdc) (nr, o1) \<and> others_stay req osdc o1"
    using st o1 res by (auto simp: ledger_def step_def others_stay_def)
qed

lemma move_request_ledger:
  assumes ok: "client_ok U osdc" and nr: "resend_ok U osdc nr" and req: "r_osd (osdc_reqs osdc req) = Some onum"
  shows "ok_with (bind_outcome (cancel_map_check req osdc) (\<lambda>osdc. bind_outcome (unlink_request onum req osdc) (\<lambda>osdc.
       bind_outcome (insert_request (tid_of osdc) nr req) (\<lambda>nr. Ok (nr, osdc)))))
     (\<lambda>s'. ledger U (nr, osdc) s' \<and> others_stay req osdc (snd s'))"
proof -
  have U: "req \<in> U" "req \<in> linked osdc" using req client_okD(5) [OF ok] by (auto simp: linked_def)
  show ?thesis
  proof (rule ok_with_bind [OF cancel_map_check_Ok [OF ok U(1)]])
    fix o1 assume o1: "same_requests U osdc o1 \<and> osdc_reqs o1 = osdc_reqs osdc \<and> set (map_checks o1) = set (map_checks osdc) - {req}"
    have ok1: "client_ok U o1" and req1: "r_osd (osdc_reqs o1 req) = Some onum" using o1 req by (simp_all add: same_requests_def step_def)
    show "ok_with (bind_outcome (unlink_request onum req o1) (\<lambda>osdc. bind_outcome (insert_request (tid_of osdc) nr req) (\<lambda>nr. Ok (nr, osdc))))
       (\<lambda>s'. ledger U (nr, osdc) s' \<and> others_stay req osdc (snd s'))"
    proof (rule ok_with_bind [OF unlink_request_Ok [OF ok1 req1]])
      fix o2 assume o2: "client_ok U o2 \<and> moved req None o1 o2"
      have tid: "tid_of o2 = tid_of osdc" using o1 o2 moved_tid [of req None o1 o2] by (simp add: same_requests_def step_def)
      have l2: "linked o2 = linked osdc - {req}" using o1 o2 moved_linked [of req None o1 o2] by (simp add: same_requests_def)
      have srt: "sorted_wrt (\<lambda>a b. tid_of o2 a < tid_of o2 b) nr" using nr by (simp add: resend_ok_def tid)
      have "tid_of o2 req \<notin> tid_of o2 ` set nr"
        using nr U client_okD(3) [OF ok] by (auto simp: resend_ok_def tid dest: inj_onD)
      from insert_request_Ok [OF srt this]
      show "ok_with (bind_outcome (insert_request (tid_of o2) nr req) (\<lambda>nr. Ok (nr, o2))) (\<lambda>s'. ledger U (nr, osdc) s' \<and> others_stay req osdc (snd s'))"
      proof (rule ok_with_bind)
        fix nr' assume nr': "sorted_wrt (\<lambda>a b. tid_of o2 a < tid_of o2 b) nr' \<and> set nr' = insert req (set nr)"
        have "resend_ok U o2 nr'" using nr nr' U(1) l2 by (auto simp: resend_ok_def)
        moreover have "same_attempts osdc o2" using o1 o2 by (simp add: same_attempts_def moved_def)
        moreover have "others_stay req osdc o2" using o1 o2 by (simp add: others_stay_def moved_def same_requests_def step_def same_view_def)
        moreover have "completed o2 = completed osdc" using o1 o2 moved_completed [of req None o1 o2] by (simp add: same_requests_def)
        moreover have "osdc_stack o2 = osdc_stack osdc" "osdc_fuel o2 = osdc_fuel osdc"
          using o1 o2 by (simp_all add: moved_def same_view_def same_requests_def step_def)
        ultimately show "ok_with (Ok (nr', o2)) (\<lambda>s'. ledger U (nr, osdc) s' \<and> others_stay req osdc (snd s'))"
          using o2 tid l2 nr' U(2) by (auto simp: ledger_def)
      qed
    qed
  qed
qed

lemma scan_request_ledger:
  assumes ok: "client_ok U osdc" and nr: "resend_ok U osdc nr" and req: "r_osd (osdc_reqs osdc req) = Some onum"
  shows "ok_with (scan_request onum a b c req (nr, osdc)) (\<lambda>s'. ledger U (nr, osdc) s' \<and> others_stay req osdc (snd s'))"
proof -
  have U: "req \<in> U" using req client_okD(5) [OF ok] by (auto simp: linked_def)
  show ?thesis
    unfolding scan_request_def prod.case
  proof (rule ok_with_bind [OF calc_req_target_Ok [OF ok U]], clarify)
    fix res o1
    assume sb: "same_but U osdc o1" and at: "same_attempts osdc o1"
    have ok1: "client_ok U o1" by (rule same_but_ok [OF sb])
    have l1: "ledger U (nr, osdc) (nr, o1)" by (rule same_but_ledger [OF sb at nr])
    have st: "others_stay req osdc o1" using sb same_requests_stay by (auto simp: same_but_def)
    have req1: "r_osd (osdc_reqs o1 req) = Some onum" using sb req by (simp add: same_but_def same_requests_def)
    then have in1: "req \<in> linked o1" by (simp add: linked_def)
    have nr1: "resend_ok U o1 nr" using ledger_ok [OF l1] by blast
    have dne: "ok_with (bind_outcome (check_pool_dne req o1) (\<lambda>osdc. Ok (nr, osdc))) (\<lambda>s'. ledger U (nr, osdc) s' \<and> others_stay req osdc (snd s'))"
      by (rule ok_with_bind [OF check_pool_dne_ledger [OF ok1 nr1 in1]]) (use l1 st in \<open>auto intro: ledger_trans others_stay_trans\<close>)
    have mv: "ok_with (bind_outcome (cancel_map_check req o1) (\<lambda>osdc. bind_outcome (unlink_request onum req osdc) (\<lambda>osdc.
       bind_outcome (insert_request (tid_of osdc) nr req) (\<lambda>nr. Ok (nr, osdc))))) (\<lambda>s'. ledger U (nr, osdc) s' \<and> others_stay req osdc (snd s'))"
      by (rule ok_with_mono [OF move_request_ledger [OF ok1 nr1 req1]]) (use l1 st in \<open>auto intro: ledger_trans others_stay_trans\<close>)
    show "ok_with (let t = r_t (osdc_reqs o1 req); force_resend_writes = b \<or> c \<and> pool_cleared_full o1 (oloc_pool (t_base_oloc t)) in
        if res = CALC_TARGET_NO_ACTION \<and> \<not> a \<and> (t_flags t AND CEPH_OSD_FLAG_WRITE = 0 \<or> \<not> force_resend_writes) then Ok (nr, o1)
        else if res = CALC_TARGET_POOL_DNE then bind_outcome (check_pool_dne req o1) (\<lambda>osdc. Ok (nr, osdc))
        else bind_outcome (cancel_map_check req o1) (\<lambda>osdc. bind_outcome (unlink_request onum req osdc) (\<lambda>osdc.
          bind_outcome (insert_request (tid_of osdc) nr req) (\<lambda>nr. Ok (nr, osdc)))))
       (\<lambda>s'. ledger U (nr, osdc) s' \<and> others_stay req osdc (snd s'))"
      unfolding Let_def using dne mv l1 st by simp
  qed
qed

lemma scan_requests_ledger:
  assumes ok: "client_ok U osdc" and nr: "resend_ok U osdc nr" and find: "find_osd osdc onum \<noteq> None"
  shows "ok_with (scan_requests onum a b c (nr, osdc)) (\<lambda>s'. ledger U (nr, osdc) s' \<and> map o_osd (osds (snd s')) = map o_osd (osds osdc) \<and>
     osdc_osdmap (snd s') = osdc_osdmap osdc)"
proof -
  obtain osd where osd: "find_osd osdc onum = Some osd" using find by blast
  define P where "P xs s \<longleftrightarrow> ledger U (nr, osdc) s \<and> map o_osd (osds (snd s)) = map o_osd (osds osdc) \<and> osdc_osdmap (snd s) = osdc_osdmap osdc \<and>
     distinct xs \<and> (\<forall>r\<in>set xs. r_osd (osdc_reqs (snd s) r) = Some onum)" for xs :: "nat list" and s
  have "P (o_requests osd) (nr, osdc)"
    using ledger_refl [OF ok nr] session_requests [OF ok osd] by (simp add: P_def)
  moreover have "ok_with (scan_request onum a b c x s) (P xs)" if P: "P (x # xs) s" for x xs s
  proof -
    obtain n1 o1 where s: "s = (n1, o1)" by (cases s)
    have l: "ledger U (nr, osdc) (n1, o1)" and x: "r_osd (osdc_reqs o1 x) = Some onum" using P by (simp_all add: P_def s)
    have "ok_with (scan_request onum a b c x (n1, o1)) (\<lambda>s'. ledger U (n1, o1) s' \<and> others_stay x o1 (snd s'))"
      using scan_request_ledger ledger_ok [OF l] x by blast
    then have "ok_with (scan_request onum a b c x s) (\<lambda>s'. ledger U (n1, o1) s' \<and> others_stay x o1 (snd s'))" by (simp add: s)
    then show ?thesis
    proof (rule ok_with_mono)
      fix v assume v: "ledger U (n1, o1) v \<and> others_stay x o1 (snd v)"
      have "\<forall>r\<in>set xs. r_osd (osdc_reqs (snd v) r) = Some onum"
      proof
        fix r assume r: "r \<in> set xs"
        then have "r \<noteq> x" using P by (auto simp: P_def)
        then show "r_osd (osdc_reqs (snd v) r) = Some onum" using v r P by (simp add: P_def s others_stay_def)
      qed
      then show "P xs v" using v P ledger_trans [OF l] by (simp add: P_def s others_stay_def)
    qed
  qed
  ultimately have "ok_with (for_each (scan_request onum a b c) (o_requests osd) (nr, osdc)) (P [])" by (rule ok_with_for_each)
  then have "ok_with (scan_requests onum a b c (nr, osdc)) (P [])" using osd by (simp add: scan_requests_def osd_reqs_def get_osd_def)
  then show ?thesis by (rule ok_with_mono) (simp add: P_def)
qed

section \<open>Scanning all sessions\<close>

lemma same_besides_ledger:
  assumes s: "same_besides_osd osdc osdc'" and ok: "client_ok U osdc'" and l: "linked osdc' = linked osdc" and nr: "resend_ok U osdc nr"
  shows "ledger U (nr, osdc) (nr, osdc')" "osdc_osdmap osdc' = osdc_osdmap osdc"
proof -
  have "same_attempts osdc osdc'" by (simp add: same_attempts_def same_besides_osdD(2) [OF s])
  moreover have "resend_ok U osdc' nr" using nr by (simp add: resend_ok_def l same_besides_osdD(4) [OF s])
  moreover have "completed osdc' = completed osdc" "osdc_stack osdc' = osdc_stack osdc" "osdc_fuel osdc' = osdc_fuel osdc"
    using s by (simp_all add: same_besides_osd_def same_view_def)
  ultimately show "ledger U (nr, osdc) (nr, osdc')"
    using ok nr by (auto simp: ledger_def l same_besides_osdD(4) [OF s] resend_ok_def)
  show "osdc_osdmap osdc' = osdc_osdmap osdc" using s by (simp add: same_besides_osd_def same_view_def)
qed

lemma client_wf_osdmap:
  assumes "client_ok U osdc"
  shows "wf_osdmap (osdc_osdmap osdc)"
  using client_okD(1) [OF assms] by (auto simp: maps_good_def maps_ok_def wf_placement_def)

lemma scan_osd_ledger:
  assumes ok: "client_ok U osdc" and nr: "resend_ok U osdc nr" and onum: "onum \<in> set (map o_osd (osds osdc))"
  shows "ok_with (scan_osd a b onum (nr, osdc)) (\<lambda>s'. ledger U (nr, osdc) s' \<and> osdc_osdmap (snd s') = osdc_osdmap osdc \<and>
     set (map o_osd (osds osdc)) - {onum} \<subseteq> set (map o_osd (osds (snd s'))))"
    (is "ok_with _ ?Q")
proof -
  have "find_osd osdc onum \<noteq> None" using onum by (simp add: find_osd_None)
  from scan_requests_ledger [OF ok nr this] show ?thesis
    unfolding scan_osd_def
  proof (rule ok_with_bind, clarify)
    fix n1 o1
    assume l1: "ledger U (nr, osdc) (n1, o1)" and nums: "map o_osd (osds (snd (n1, o1))) = map o_osd (osds osdc)"
      and m1: "osdc_osdmap (snd (n1, o1)) = osdc_osdmap osdc"
    have ok1: "client_ok U o1" and nr1: "resend_ok U o1 n1" using ledger_ok [OF l1] by simp_all
    have in1: "onum \<in> set (map o_osd (osds o1))" using onum nums by (simp only: snd_conv)
    obtain osd where osd: "find_osd o1 onum = Some osd" using in1 find_osd_None [of o1 onum] by fastforce
    have up: "ceph_osd_is_up (osdc_osdmap o1) onum = Ok (osd_up (osdc_osdmap o1) onum)" by (rule ceph_osd_is_up_Ok [OF client_wf_osdmap [OF ok1]])
    have gone: "\<exists>g. (if osd_up (osdc_osdmap o1) onum then bind_outcome (osd_addr_of o1 onum) (\<lambda>addr. Ok (addr \<noteq> o_con_peer_addr osd)) else Ok True) = Ok g"
    proof (cases "osd_up (osdc_osdmap o1) onum")
      case True
      obtain rank R where maps: "maps_ok rank R o1" using client_okD(1) [OF ok1] by (auto simp: maps_good_def)
      have "onum \<noteq> CEPH_HOMELESS_OSD" using True by (auto simp: osd_up_def osd_exists_def)
      then have "0 \<le> onum \<and> nat onum < length (osd_addr (osdc_osdmap o1))" using osd_usable_range [OF maps, of onum] True by (simp add: osd_usable_def)
      then show ?thesis using True by (simp add: osd_addr_of_def aref_def)
    qed auto
    have stay: "?Q (n1, o1)" using l1 m1 nums by auto
    have close: "ok_with (bind_outcome (close_osd onum o1) (\<lambda>osdc. Ok (n1, osdc))) ?Q"
    proof (rule ok_with_bind [OF close_osd_Ok [OF ok1 in1]], elim conjE)
      fix o2 assume o2: "client_ok U o2" "same_besides_osd o1 o2" "linked o2 = linked o1"
        "map o_osd (osds o2) = filter (\<lambda>n. n \<noteq> onum) (map o_osd (osds o1))"
      note s = same_besides_ledger [OF o2(2,1,3) nr1]
      have "set (map o_osd (osds o2)) = set (map o_osd (osds osdc)) - {onum}" unfolding o2(4) using nums by auto
      then show "ok_with (Ok (n1, o2)) ?Q" using ledger_trans [OF l1 s(1)] s(2) m1 by simp
    qed
    show "ok_with (bind_outcome (get_osd o1 onum) (\<lambda>osd. bind_outcome (ceph_osd_is_up (osdc_osdmap o1) onum) (\<lambda>up.
        bind_outcome (if up then bind_outcome (osd_addr_of o1 onum) (\<lambda>addr. Ok (addr \<noteq> o_con_peer_addr osd)) else Ok True) (\<lambda>gone.
          if gone then bind_outcome (close_osd onum o1) (\<lambda>osdc. Ok (n1, osdc)) else Ok (n1, o1))))) ?Q"
    proof (rule ok_with_bind [of _ "\<lambda>s. s = osd"])
      show "ok_with (get_osd o1 onum) (\<lambda>s. s = osd)" using osd by (simp add: get_osd_def)
      fix s assume s: "s = osd"
      obtain g where g: "(if osd_up (osdc_osdmap o1) onum then bind_outcome (osd_addr_of o1 onum) (\<lambda>addr. Ok (addr \<noteq> o_con_peer_addr osd)) else Ok True) = Ok g"
        using gone by blast
      show "ok_with (bind_outcome (ceph_osd_is_up (osdc_osdmap o1) onum) (\<lambda>up.
        bind_outcome (if up then bind_outcome (osd_addr_of o1 onum) (\<lambda>addr. Ok (addr \<noteq> o_con_peer_addr s)) else Ok True) (\<lambda>gone.
          if gone then bind_outcome (close_osd onum o1) (\<lambda>osdc. Ok (n1, osdc)) else Ok (n1, o1)))) ?Q"
        unfolding s up bind_outcome.simps g using close stay by (cases g) (simp_all only: ok_with_Ok if_True if_False)
    qed
  qed
qed

lemma scan_all_ledger:
  assumes ok: "client_ok U osdc" and nr: "resend_ok U osdc nr"
  shows "ok_with (scan_all a b (nr, osdc)) (\<lambda>s'. ledger U (nr, osdc) s' \<and> osdc_osdmap (snd s') = osdc_osdmap osdc)"
proof -
  have "find_osd osdc CEPH_HOMELESS_OSD \<noteq> None" by (simp add: find_osd_def)
  from scan_requests_ledger [OF ok nr this] show ?thesis
    unfolding scan_all_def
  proof (rule ok_with_bind)
    fix s0 assume s0: "ledger U (nr, osdc) s0 \<and> map o_osd (osds (snd s0)) = map o_osd (osds osdc) \<and> osdc_osdmap (snd s0) = osdc_osdmap osdc"
    define P where "P xs s \<longleftrightarrow> ledger U (nr, osdc) s \<and> osdc_osdmap (snd s) = osdc_osdmap osdc \<and> distinct xs \<and> set xs \<subseteq> set (map o_osd (osds (snd s)))" for xs s
    have "client_ok U (snd s0)" using s0 ledger_ok [of U "(nr, osdc)" "fst s0" "snd s0"] by simp
    from client_okD(8) [OF this] have "P (map o_osd (osds (snd s0))) s0" using s0 by (simp add: P_def)
    moreover have "ok_with (scan_osd a b x s) (P xs)" if P: "P (x # xs) s" for x xs s
    proof -
      obtain n1 o1 where s: "s = (n1, o1)" by (cases s)
      have l: "ledger U (nr, osdc) (n1, o1)" and x: "x \<in> set (map o_osd (osds o1))" using P by (simp_all add: P_def s)
      have "ok_with (scan_osd a b x (n1, o1)) (\<lambda>s'. ledger U (n1, o1) s' \<and> osdc_osdmap (snd s') = osdc_osdmap o1 \<and>
         set (map o_osd (osds o1)) - {x} \<subseteq> set (map o_osd (osds (snd s'))))"
        using scan_osd_ledger [OF _ _ x] ledger_ok [OF l] by blast
      then have "ok_with (scan_osd a b x s) (\<lambda>s'. ledger U (n1, o1) s' \<and> osdc_osdmap (snd s') = osdc_osdmap o1 \<and>
         set (map o_osd (osds o1)) - {x} \<subseteq> set (map o_osd (osds (snd s'))))" by (simp add: s)
      then show ?thesis
        by (rule ok_with_mono) (use P ledger_trans [OF l] in \<open>auto simp: P_def s\<close>)
    qed
    ultimately have "ok_with (for_each (scan_osd a b) (map o_osd (osds (snd s0))) s0) (P [])" by (rule ok_with_for_each)
    then show "ok_with (for_each (scan_osd a b) (map o_osd (osds (snd s0))) s0) (\<lambda>s'. ledger U (nr, osdc) s' \<and> osdc_osdmap (snd s') = osdc_osdmap osdc)"
      by (rule ok_with_mono) (simp add: P_def)
  qed
qed

section \<open>Maps\<close>

text \<open>A map and the memory for CRUSH that suit the client.\<close>

definition map_fits :: "ceph_osd_client \<Rightarrow> ceph_osdmap \<Rightarrow> crush_memory \<Rightarrow> bool" where
  "map_fits osdc m cm \<longleftrightarrow> maps_good (osdc\<lparr>osdc_osdmap := m, osdc_crush_memory := cm\<rparr>)"

lemma map_fits_cong: "osdc_stack a = osdc_stack b \<Longrightarrow> osdc_fuel a = osdc_fuel b \<Longrightarrow> map_fits a = map_fits b"
  by (intro ext) (simp add: map_fits_def maps_good_def maps_ok_def)

lemma map_fits_self: "client_ok U osdc \<Longrightarrow> map_fits osdc (osdc_osdmap osdc) (osdc_crush_memory osdc)"
  using client_okD(1) by (simp add: map_fits_def)

text \<open>Whether pools were full is of no importance for the placement.\<close>

lemma map_fits_pools:
  assumes "map_fits osdc m cm" and "\<And>pool pi. ps pool = Some pi \<Longrightarrow> \<exists>pi' w. pg_pools m pool = Some pi' \<and> pi = pi'\<lparr>pi_was_full := w\<rparr>"
  shows "map_fits osdc (m\<lparr>pg_pools := ps\<rparr>) cm"
proof -
  have pool: "pool_ok (pi\<lparr>pi_was_full := w\<rparr>) = pool_ok pi" for pi w by (simp add: pool_ok_def pool_type_ok_def wf_pg_nums_def)
  obtain rank R where ok: "maps_ok rank R (osdc\<lparr>osdc_osdmap := m, osdc_crush_memory := cm\<rparr>)" using assms(1) by (auto simp: map_fits_def maps_good_def)
  have w: "wf_placement rank R (m\<lparr>pg_pools := ps\<rparr>) = wf_placement rank R m" "memory_ok R (m\<lparr>pg_pools := ps\<rparr>) cm = memory_ok R m cm"
    "mappings_fit (m\<lparr>pg_pools := ps\<rparr>) pgid = mappings_fit m pgid" for pgid
    by (simp_all add: wf_placement_def wf_osdmap_def crush_env_of_def memory_ok_def mappings_fit_def split: option.split)
  have "pool_ok pi" if ps: "ps pool = Some pi" for pool pi
  proof -
    obtain pi' w where "pg_pools m pool = Some pi'" "pi = pi'\<lparr>pi_was_full := w\<rparr>" using assms(2) [OF ps] by blast
    then show ?thesis using ok pool by (simp add: maps_ok_def)
  qed
  then have "maps_ok rank R (osdc\<lparr>osdc_osdmap := m\<lparr>pg_pools := ps\<rparr>, osdc_crush_memory := cm\<rparr>)"
    using ok by (simp add: maps_ok_def w)
  then show ?thesis by (auto simp: map_fits_def maps_good_def)
qed

lemma map_fits_was_full: "map_fits osdc m cm \<Longrightarrow> map_fits osdc (set_pool_was_full m) cm" "map_fits osdc m cm \<Longrightarrow> map_fits osdc (keep_was_full old m) cm"
proof -
  have same: "pi = pi\<lparr>pi_was_full := pi_was_full pi\<rparr>" for pi :: ceph_pg_pool_info by simp
  show "map_fits osdc m cm \<Longrightarrow> map_fits osdc (set_pool_was_full m) cm"
    unfolding set_pool_was_full_def by (rule map_fits_pools) auto
  show "map_fits osdc (keep_was_full old m) cm" if "map_fits osdc m cm"
    unfolding keep_was_full_def by (rule map_fits_pools [OF that]) (auto split: option.splits intro: same)
qed

text \<open>
  What the client relies on from the decoders of maps: they make maps that suit it and do not take away OSD numbers.
\<close>

definition codec_ok :: "ceph_osd_client \<Rightarrow> map_codec \<Rightarrow> bool" where
  "codec_ok osdc codec \<longleftrightarrow>
     (\<forall>bs old cm. map_fits osdc old cm \<longrightarrow> (case apply_incremental codec bs old cm of
        Map_Bad m cm' \<Rightarrow> True
      | Map_Changed m cm' \<Rightarrow> map_fits osdc m cm' \<and> length (osd_addr old) \<le> length (osd_addr m)
      | Map_New m cm' \<Rightarrow> map_fits osdc m cm' \<and> length (osd_addr old) \<le> length (osd_addr m))) \<and>
     (\<forall>bs m cm. decode_full codec bs = Some (m, cm) \<longrightarrow> map_fits osdc m cm \<and> length (osd_addr (osdc_osdmap osdc)) \<le> length (osd_addr m))"

lemma map_upd:
  assumes ok: "client_ok U osdc" and fit: "map_fits osdc m cm" and len: "length (osd_addr (osdc_osdmap osdc)) \<le> length (osd_addr m)"
  shows "client_ok U (osdc\<lparr>osdc_osdmap := m, osdc_crush_memory := cm\<rparr>)" (is "client_ok U ?o")
proof -
  have tid: "tid_of ?o = tid_of osdc" by (simp add: tid_of_def fun_eq_iff)
  have l: "linked ?o = linked osdc" by (simp add: linked_def)
  have f: "find_osd ?o k = find_osd osdc k" for k by (rule find_osd_cong) simp_all
  have s: "session_ok ?o = session_ok osdc" by (auto simp: session_ok_def tid fun_eq_iff)
  have r: "request_ok ?o r" if "r \<in> U" for r
    using client_okD(4) [OF ok that] len by (auto simp: request_ok_def tid osd_slot_def)
  show ?thesis
    using ok fit r unfolding client_ok_def tid f s l by (simp add: map_fits_def)
qed

lemma install_map_ledger:
  assumes ok: "client_ok U osdc" and nr: "resend_ok U osdc nr" and fit: "map_fits osdc m cm" and len: "length (osd_addr (osdc_osdmap osdc)) \<le> length (osd_addr m)"
  shows "ok_with (install_map a b m cm (nr, osdc)) (\<lambda>(good, s'). good \<and> ledger U (nr, osdc) s' \<and> osdc_osdmap (snd s') = m)"
proof -
  let ?o = "osdc\<lparr>osdc_osdmap := m, osdc_crush_memory := cm\<rparr>"
  have oko: "client_ok U ?o" by (rule map_upd [OF ok fit len])
  have sel: "linked ?o = linked osdc" "tid_of ?o = tid_of osdc" "completed ?o = completed osdc"
    by (simp_all add: linked_def tid_of_def completed_def fun_eq_iff)
  then have nro: "resend_ok U ?o nr" using nr by (simp add: resend_ok_def)
  then have lo: "ledger U (nr, osdc) (nr, ?o)" using oko nr sel by (auto simp: ledger_def same_attempts_def resend_ok_def)
  show ?thesis
    unfolding install_map_def prod.case Let_def
    by (rule ok_with_bind [OF scan_all_ledger [OF oko nro]]) (use ledger_trans [OF lo] in simp)
qed

lemma handle_one_map_ledger:
  assumes ok: "client_ok U osdc" and nr: "resend_ok U osdc nr" and codec: "codec_ok osdc0 codec"
    and osdc0: "osdc_stack osdc = osdc_stack osdc0" "osdc_fuel osdc = osdc_fuel osdc0" "\<not> inc \<Longrightarrow> osdc_osdmap osdc = osdc_osdmap osdc0"
  shows "ok_with (handle_one_map codec inc bs (nr, osdc)) (\<lambda>(good, s').
     if good then ledger U (nr, osdc) s' else \<exists>m cm. s' = (nr, osdc\<lparr>osdc_osdmap := m, osdc_crush_memory := cm\<rparr>))"
proof -
  have fc: "map_fits osdc = map_fits osdc0" by (rule map_fits_cong) (use osdc0 in simp_all)
  let ?old = "set_pool_was_full (osdc_osdmap osdc)"
  have old: "map_fits osdc ?old (osdc_crush_memory osdc)" "length (osd_addr ?old) = length (osd_addr (osdc_osdmap osdc))"
    using map_fits_was_full(1) [OF map_fits_self [OF ok]] by (simp_all add: set_pool_was_full_def)
  have keep: "length (osd_addr (keep_was_full ?old m)) = length (osd_addr m)" for m by (simp add: keep_was_full_def)
  have dec: "case decode_map codec inc bs ?old (osdc_crush_memory osdc) of
       Map_Bad m cm' \<Rightarrow> True
     | Map_Changed m cm' \<Rightarrow> map_fits osdc m cm' \<and> length (osd_addr (osdc_osdmap osdc)) \<le> length (osd_addr m)
     | Map_New m cm' \<Rightarrow> map_fits osdc m cm' \<and> length (osd_addr (osdc_osdmap osdc)) \<le> length (osd_addr m)"
  proof (cases inc)
    case True
    have "map_fits osdc0 ?old (osdc_crush_memory osdc)" using old(1) by (simp add: fc)
    with codec have "case apply_incremental codec bs ?old (osdc_crush_memory osdc) of
        Map_Bad m cm' \<Rightarrow> True
      | Map_Changed m cm' \<Rightarrow> map_fits osdc0 m cm' \<and> length (osd_addr ?old) \<le> length (osd_addr m)
      | Map_New m cm' \<Rightarrow> map_fits osdc0 m cm' \<and> length (osd_addr ?old) \<le> length (osd_addr m)"
      unfolding codec_ok_def by blast
    then show ?thesis using True unfolding decode_map_def fc old(2) by simp
  next
    case False
    then show ?thesis using codec osdc0(3) unfolding codec_ok_def fc by (auto simp: decode_map_def split: option.splits)
  qed
  note inst = install_map_ledger [OF ok nr]
  show ?thesis
  proof (cases "decode_map codec inc bs ?old (osdc_crush_memory osdc)")
    case (Map_Bad m cm)
    then show ?thesis by (auto simp: handle_one_map_def Let_def)
  next
    case (Map_Changed m cm)
    then have "map_fits osdc m cm" "length (osd_addr (osdc_osdmap osdc)) \<le> length (osd_addr m)" using dec by simp_all
    from inst [OF this] show ?thesis
      unfolding handle_one_map_def prod.case Let_def Map_Changed map_decoded.case by (rule ok_with_mono) auto
  next
    case (Map_New m cm)
    then have "map_fits osdc (keep_was_full ?old m) cm" "length (osd_addr (osdc_osdmap osdc)) \<le> length (osd_addr (keep_was_full ?old m))"
      using dec map_fits_was_full(2) keep by simp_all
    from inst [OF this] show ?thesis
      unfolding handle_one_map_def prod.case Let_def Map_New map_decoded.case by (rule ok_with_mono) auto
  qed
qed

section \<open>The maps of a message\<close>

text \<open>The state at the label \<open>bad\<close>: the maps before the bad one have been handled, and the map may have been changed in part.\<close>

definition stopped :: "nat set \<Rightarrow> nat list \<times> ceph_osd_client \<Rightarrow> nat list \<times> ceph_osd_client \<Rightarrow> bool" where
  "stopped U s0 s \<longleftrightarrow> (\<exists>nr o1 m cm. ledger U s0 (nr, o1) \<and> s = (nr, o1\<lparr>osdc_osdmap := m, osdc_crush_memory := cm\<rparr>))"

definition maps_result :: "nat set \<Rightarrow> nat list \<times> ceph_osd_client \<Rightarrow> map_state \<Rightarrow> bool" where
  "maps_result U s0 = (\<lambda>(good, s). if good then ledger U s0 s else stopped U s0 s)"

lemma ledger_stopped: "ledger U s0 s \<Longrightarrow> stopped U s0 s"
  unfolding stopped_def
  by (cases s) (auto intro!: exI [of _ "osdc_osdmap (snd s)"] exI [of _ "osdc_crush_memory (snd s)"] exI [of _ "fst s"] exI [of _ "snd s"])

lemma decode_room:
  assumes "ceph_has_room p (length b) n"
  shows "4 \<le> n \<Longrightarrow> ceph_decode_32 b p = Ok (get_le (take 4 (drop p b)), p + 4)"
    and "8 \<le> n \<Longrightarrow> ceph_decode_32 b (p + 4) = Ok (get_le (take 4 (drop (p + 4) b)), p + 4 + 4)"
    and "get_bytes b p n = Ok (take n (drop p b))"
  using assms by (auto simp: ceph_has_room_def ceph_decode_32_def get_bytes_def)

lemma handle_one_map_result:
  assumes l: "ledger U (nr0, osdc0) s" and codec: "codec_ok osdc0 codec" and inc: "\<not> inc \<Longrightarrow> osdc_osdmap (snd s) = osdc_osdmap osdc0"
  shows "ok_with (handle_one_map codec inc bs s) (maps_result U (nr0, osdc0))"
proof -
  obtain nr o1 where s: "s = (nr, o1)" by (cases s)
  have ok: "client_ok U o1" "resend_ok U o1 nr" "osdc_stack o1 = osdc_stack osdc0" "osdc_fuel o1 = osdc_fuel osdc0"
    using l by (simp_all add: ledger_def s)
  show ?thesis
    unfolding s
  proof (rule ok_with_mono [OF handle_one_map_ledger [OF ok(1,2) codec ok(3,4)]], use inc in \<open>simp add: s\<close>, clarify)
    fix good n2 o2
    assume "if good then ledger U (nr, o1) (n2, o2) else \<exists>m cm. (n2, o2) = (nr, o1\<lparr>osdc_osdmap := m, osdc_crush_memory := cm\<rparr>)"
    then show "maps_result U (nr0, osdc0) (good, n2, o2)"
      using ledger_trans [OF l] l by (auto simp: maps_result_def stopped_def s split: if_splits)
  qed
qed

lemma inc_maps_result:
  assumes codec: "codec_ok osdc0 codec"
  shows "ledger U (nr0, osdc0) s \<Longrightarrow> ok_with (inc_maps codec b n p h s) (\<lambda>(p', h', good, s').
     maps_result U (nr0, osdc0) (good, s') \<and> (good \<and> \<not> h' \<longrightarrow> \<not> h \<and> s' = s))"
proof (induction n arbitrary: p h s)
  case 0
  then show ?case by (simp add: maps_result_def)
next
  case (Suc n)
  have bad: "maps_result U (nr0, osdc0) (False, s)" using ledger_stopped [OF Suc.prems] by (simp add: maps_result_def)
  show ?case
  proof (cases "ceph_has_room p (length b) 8")
    case False
    then show ?thesis using bad by simp
  next
    case True
    define epoch :: u32 where "epoch = get_le (take 4 (drop p b))"
    define maplen :: u32 where "maplen = get_le (take 4 (drop (p + 4) b))"
    have d: "ceph_decode_32 b p = Ok (epoch, p + 4)" "ceph_decode_32 b (p + 4) = Ok (maplen, p + 8)"
      using decode_room(1,2) [OF True] by (simp_all add: epoch_def maplen_def)
    let ?have = "osdmap_epoch (osdc_osdmap (snd s))"
    show ?thesis
    proof (cases "ceph_has_room (p + 8) (length b) (unat maplen)")
      case False
      then show ?thesis using bad True d by simp
    next
      case room: True
      show ?thesis
      proof (cases "?have \<noteq> 0 \<and> ?have + 1 = epoch")
        case False
        then have "inc_maps codec b (Suc n) p h s = inc_maps codec b n (p + 8 + unat maplen) h s" using True room d by (auto simp: Let_def)
        then show ?thesis using Suc.IH [OF Suc.prems] by simp
      next
        case take: True
        let ?bs = "take (unat maplen) (drop (p + 8) b)"
        have eq: "inc_maps codec b (Suc n) p h s = bind_outcome (handle_one_map codec True ?bs s) (\<lambda>(good, s).
            if good then inc_maps codec b n (p + 8 + unat maplen) True s else Ok (p + 8, h, False, s))"
          using True room d take decode_room(3) [OF room] by (simp add: Let_def)
        show ?thesis
          unfolding eq
        proof (rule ok_with_bind [OF handle_one_map_result [OF Suc.prems codec]], simp, clarify)
          fix good n2 o2 assume r: "maps_result U (nr0, osdc0) (good, n2, o2)"
          show "ok_with (if good then inc_maps codec b n (p + 8 + unat maplen) True (n2, o2) else Ok (p + 8, h, False, n2, o2)) (\<lambda>(p', h', good, s').
             maps_result U (nr0, osdc0) (good, s') \<and> (good \<and> \<not> h' \<longrightarrow> \<not> h \<and> s' = s))"
          proof (cases good)
            case True
            then have "ledger U (nr0, osdc0) (n2, o2)" using r by (simp add: maps_result_def)
            from Suc.IH [OF this, of "p + 8 + unat maplen" True] show ?thesis
              using True by (auto intro: ok_with_mono)
          qed (use r in simp)
        qed
      qed
    qed
  qed
qed

lemma full_maps_result:
  assumes codec: "codec_ok osdc0 codec" and l: "ledger U (nr0, osdc0) s" and same: "osdc_osdmap (snd s) = osdc_osdmap osdc0"
  shows "ok_with (full_maps codec b n p s) (maps_result U (nr0, osdc0))"
proof (induction n arbitrary: p)
  case 0
  then show ?case using l by (simp add: maps_result_def)
next
  case (Suc n)
  have bad: "maps_result U (nr0, osdc0) (False, s)" using ledger_stopped [OF l] by (simp add: maps_result_def)
  show ?case
  proof (cases "ceph_has_room p (length b) 8")
    case False
    then show ?thesis using bad by simp
  next
    case True
    define epoch :: u32 where "epoch = get_le (take 4 (drop p b))"
    define maplen :: u32 where "maplen = get_le (take 4 (drop (p + 4) b))"
    have d: "ceph_decode_32 b p = Ok (epoch, p + 4)" "ceph_decode_32 b (p + 4) = Ok (maplen, p + 8)"
      using decode_room(1,2) [OF True] by (simp_all add: epoch_def maplen_def)
    show ?thesis
    proof (cases "ceph_has_room (p + 8) (length b) (unat maplen)")
      case False
      then show ?thesis using bad True d by simp
    next
      case room: True
      show ?thesis
      proof (cases "n > 0 \<or> osdmap_epoch (osdc_osdmap (snd s)) \<ge> epoch")
        case skip: True
        then have "full_maps codec b (Suc n) p s = full_maps codec b n (p + 8 + unat maplen) s" using True room d by auto
        then show ?thesis using Suc.IH by simp
      next
        case False
        then have n: "n = 0" "\<not> epoch \<le> osdmap_epoch (osdc_osdmap (snd s))" by simp_all
        let ?bs = "take (unat maplen) (drop (p + 8) b)"
        have "full_maps codec b (Suc n) p s = bind_outcome (handle_one_map codec False ?bs s) (\<lambda>(good, s).
            if good then full_maps codec b n (p + 8 + unat maplen) s else Ok (False, s))"
          using True room d decode_room(3) [OF room] n(2) unfolding n(1) by simp
        moreover have "ok_with (bind_outcome (handle_one_map codec False ?bs s) (\<lambda>(good, s).
            if good then full_maps codec b n (p + 8 + unat maplen) s else Ok (False, s))) (maps_result U (nr0, osdc0))"
          by (rule ok_with_bind [OF handle_one_map_result [OF l codec same]]) (use False in \<open>auto simp: maps_result_def split: if_splits\<close>)
        ultimately show ?thesis by simp
      qed
    qed
  qed
qed

lemma message_maps_result:
  assumes codec: "codec_ok osdc codec" and ok: "client_ok U osdc"
  shows "ok_with (message_maps codec b osdc) (maps_result U ([], osdc))"
proof -
  have l: "ledger U ([], osdc) ([], osdc)" by (rule ledger_refl [OF ok]) (simp add: resend_ok_def)
  have bad: "maps_result U ([], osdc) (False, [], osdc)" using ledger_stopped [OF l] by (simp add: maps_result_def)
  show ?thesis
  proof (cases "ceph_has_room 0 (length b) 16 \<and> check_fsid codec (take 16 b) \<and> ceph_has_room 16 (length b) 4")
    case False
    then show ?thesis
      using bad decode_room(3) [of 0 b 16] by (auto simp: message_maps_def)
  next
    case True
    obtain nr_maps where nr: "ceph_decode_32 b 16 = Ok (nr_maps, 20)" using decode_room(1) [of 16 b 4] True by simp
    have eq: "message_maps codec b osdc = bind_outcome (inc_maps codec b (unat nr_maps) 20 False ([], osdc)) (\<lambda>(p, handled, good, s).
        if \<not> good \<or> handled then Ok (good, s) else if \<not> ceph_has_room p (length b) 4 then Ok (False, s)
        else bind_outcome (ceph_decode_32 b p) (\<lambda>(nr_maps, p). full_maps codec b (unat nr_maps) p s))"
      using True nr decode_room(3) [of 0 b 16] by (simp add: message_maps_def)
    show ?thesis
      unfolding eq
    proof (rule ok_with_bind [OF inc_maps_result [OF codec l]], clarify)
      fix p handled good n2 o2
      assume r: "maps_result U ([], osdc) (good, n2, o2)" and same: "good \<and> \<not> handled \<longrightarrow> \<not> False \<and> (n2, o2) = ([], osdc)"
      show "ok_with (if \<not> good \<or> handled then Ok (good, n2, o2) else if \<not> ceph_has_room p (length b) 4 then Ok (False, n2, o2)
          else bind_outcome (ceph_decode_32 b p) (\<lambda>(nr_maps, p). full_maps codec b (unat nr_maps) p (n2, o2))) (maps_result U ([], osdc))"
      proof (cases "\<not> good \<or> handled \<or> \<not> ceph_has_room p (length b) 4")
        case True
        then show ?thesis using r same bad by auto
      next
        case False
        then show ?thesis using decode_room(1) [of p b 4] full_maps_result [OF codec l] same by simp
      qed
    qed
  qed
qed

section \<open>Open, completed and lost requests\<close>

text \<open>Of the open requests \<open>L\<close>, \<open>L'\<close> are still open, some have been completed once and \<open>lost\<close> are neither.\<close>

definition books :: "nat set \<Rightarrow> nat list \<Rightarrow> nat set \<Rightarrow> nat list \<Rightarrow> nat set \<Rightarrow> bool" where
  "books L C L' C' lost \<longleftrightarrow> (\<exists>dn. C' = C @ dn \<and> distinct dn \<and> L' \<union> set dn \<union> lost = L \<and> set dn \<inter> L' = {} \<and> lost \<inter> (L' \<union> set dn) = {})"

lemma books_refl [simp]: "books L C L C {}"
  by (simp add: books_def)

lemma books_trans: "books L C L1 C1 l1 \<Longrightarrow> books L1 C1 L2 C2 l2 \<Longrightarrow> books L C L2 C2 (l1 \<union> l2)"
  unfolding books_def
proof (elim exE conjE)
  fix d1 d2
  assume "C1 = C @ d1" "distinct d1" "L1 \<union> set d1 \<union> l1 = L" "set d1 \<inter> L1 = {}" "l1 \<inter> (L1 \<union> set d1) = {}"
    and "C2 = C1 @ d2" "distinct d2" "L2 \<union> set d2 \<union> l2 = L1" "set d2 \<inter> L2 = {}" "l2 \<inter> (L2 \<union> set d2) = {}"
  then show "\<exists>dn. C2 = C @ dn \<and> distinct dn \<and> L2 \<union> set dn \<union> (l1 \<union> l2) = L \<and> set dn \<inter> L2 = {} \<and> (l1 \<union> l2) \<inter> (L2 \<union> set dn) = {}"
    by (intro exI [of _ "d1 @ d2"]) auto
qed

lemma books_trans0: "books L C L1 C1 {} \<Longrightarrow> books L1 C1 L2 C2 l2 \<Longrightarrow> books L C L2 C2 l2"
  using books_trans [of L C L1 C1 "{}" L2 C2 l2] by simp

lemma books_complete: "req \<in> L \<Longrightarrow> books L C (L - {req}) (C @ [req]) {}"
  by (auto simp: books_def intro!: exI [of _ "[req]"])

lemma books_lose: "req \<in> L \<Longrightarrow> books L C (L - {req}) C {req}"
  by (auto simp: books_def)

lemma ledger_books: "ledger U (nr, osdc) (nr', osdc') \<Longrightarrow> books (linked osdc \<union> set nr) (completed osdc) (linked osdc' \<union> set nr') (completed osdc') {}"
  by (auto simp: ledger_def books_def)

section \<open>Kicking the requests\<close>

definition recalc_ok :: "nat set \<Rightarrow> nat list \<Rightarrow> ceph_osd_client \<Rightarrow> nat list \<times> ceph_osd_client \<Rightarrow> bool" where
  "recalc_ok U nr osdc = (\<lambda>(nr', osdc'). client_ok U osdc' \<and> resend_ok U osdc' nr' \<and> osdc_osdmap osdc' = osdc_osdmap osdc \<and> same_attempts osdc osdc' \<and>
     (\<exists>lost. books (linked osdc \<union> set nr) (completed osdc) (linked osdc' \<union> set nr') (completed osdc') lost \<and>
       (\<forall>r\<in>lost. r_attempts (osdc_reqs osdc r) = 0 \<or> osdmap_epoch (osdc_osdmap osdc) = 0)))"

lemma recalc_ok_trans:
  assumes "recalc_ok U nr osdc (n1, o1)" and "recalc_ok U n1 o1 (n2, o2)"
  shows "recalc_ok U nr osdc (n2, o2)"
proof -
  obtain l1 where l1: "books (linked osdc \<union> set nr) (completed osdc) (linked o1 \<union> set n1) (completed o1) l1"
    "\<forall>r\<in>l1. r_attempts (osdc_reqs osdc r) = 0 \<or> osdmap_epoch (osdc_osdmap osdc) = 0" using assms(1) by (auto simp: recalc_ok_def)
  obtain l2 where l2: "books (linked o1 \<union> set n1) (completed o1) (linked o2 \<union> set n2) (completed o2) l2"
    "\<forall>r\<in>l2. r_attempts (osdc_reqs o1 r) = 0 \<or> osdmap_epoch (osdc_osdmap o1) = 0" using assms(2) by (auto simp: recalc_ok_def)
  have "\<forall>r\<in>l1 \<union> l2. r_attempts (osdc_reqs osdc r) = 0 \<or> osdmap_epoch (osdc_osdmap osdc) = 0"
    using l1(2) l2(2) assms(1) by (auto simp: recalc_ok_def same_attempts_def)
  then show ?thesis using assms books_trans [OF l1(1) l2(1)] by (auto simp: recalc_ok_def same_attempts_def)
qed

lemma same_but_recalc:
  assumes "same_but U osdc osdc'" and "same_attempts osdc osdc'" and "resend_ok U osdc nr"
  shows "recalc_ok U nr osdc (nr, osdc')"
proof -
  have "osdc_osdmap osdc' = osdc_osdmap osdc" using assms(1) by (simp add: same_but_def same_requests_def step_def)
  then show ?thesis
    using ledger_books [OF same_but_ledger [OF assms]] same_but_ledger [OF assms] by (auto simp: recalc_ok_def ledger_def)
qed

text \<open>A request between sessions whose pool is gone.\<close>

lemma drop_request_Ok:
  assumes ok: "client_ok U osdc" and nr: "resend_ok U osdc nr" and req: "req \<in> set nr"
  shows "ok_with (bind_outcome (erase_request nr req) (\<lambda>nr. bind_outcome (check_pool_dne req osdc) (\<lambda>osdc. Ok (nr, osdc)))) (\<lambda>(nr', osdc').
     recalc_ok U nr osdc (nr', osdc') \<and> set nr' = set nr - {req})"
proof -
  have U: "req \<in> U" "req \<notin> linked osdc" using req nr by (auto simp: resend_ok_def)
  have srt: "sorted_wrt (\<lambda>a b. tid_of osdc a < tid_of osdc b) nr" using nr by (simp add: resend_ok_def)
  show ?thesis
  proof (rule ok_with_bind [OF erase_request_Ok [OF req srt]], rule ok_with_bind [OF check_pool_dne_Ok [OF ok U(1)]], elim conjE)
    fix n1 o1
    assume n1: "sorted_wrt (\<lambda>a b. tid_of osdc a < tid_of osdc b) n1" "set n1 = set nr - {req}"
      and st: "step U osdc o1" and att: "\<forall>r. r_attempts (osdc_reqs o1 r) = r_attempts (osdc_reqs osdc r)"
      and alt: "linked o1 = linked osdc - {req} \<and> completed o1 = completed osdc @ [req] \<or>
       linked o1 = linked osdc \<and> completed o1 = completed osdc \<and> r_osd (osdc_reqs o1 req) = r_osd (osdc_reqs osdc req) \<and>
        (r_attempts (osdc_reqs osdc req) = 0 \<or> osdmap_epoch (osdc_osdmap osdc) = 0) \<and>
        (req \<in> set (map_checks o1) \<or> osdmap_epoch (osdc_osdmap o1) < r_map_dne_bound (osdc_reqs o1 req))"
    have l: "linked o1 = linked osdc" using alt U(2) by auto
    have L: "linked o1 \<union> set n1 = linked osdc \<union> set nr - {req}" using l n1(2) U(2) by auto
    have "req \<in> linked osdc \<union> set nr" using req by simp
    then have "\<exists>lost. books (linked osdc \<union> set nr) (completed osdc) (linked o1 \<union> set n1) (completed o1) lost \<and>
        (\<forall>r\<in>lost. r_attempts (osdc_reqs osdc r) = 0 \<or> osdmap_epoch (osdc_osdmap osdc) = 0)"
      using alt books_complete [of req "linked osdc \<union> set nr" "completed osdc"] books_lose [of req "linked osdc \<union> set nr" "completed osdc"]
      unfolding L by auto
    moreover have "resend_ok U o1 n1" using nr n1 l st by (auto simp: resend_ok_def step_def)
    ultimately have "recalc_ok U nr osdc (n1, o1)" using st att by (simp add: recalc_ok_def step_def same_attempts_def)
    then show "ok_with (Ok (n1, o1)) (\<lambda>(nr', osdc'). recalc_ok U nr osdc (nr', osdc') \<and> set nr' = set nr - {req})" using n1 by simp
  qed
qed

lemma kick_recalc_Ok:
  assumes ok: "client_ok U osdc" and nr: "resend_ok U osdc nr" and req: "req \<in> set nr"
  shows "ok_with (kick_recalc req (nr, osdc)) (\<lambda>(nr', osdc'). recalc_ok U nr osdc (nr', osdc') \<and> set nr - {req} \<subseteq> set nr')"
proof (cases "t_epoch (r_t (osdc_reqs osdc req)) < osdmap_epoch (osdc_osdmap osdc)")
  case False
  have "same_but U osdc osdc" "same_attempts osdc osdc" using same_requests_refl [OF ok] by (simp_all add: same_but_def same_attempts_def same_opts_def)
  then show ?thesis using False same_but_recalc [OF _ _ nr] by (auto simp: kick_recalc_def)
next
  case True
  have U: "req \<in> U" using req nr by (auto simp: resend_ok_def)
  show ?thesis
    unfolding kick_recalc_def prod.case if_P [OF True]
  proof (rule ok_with_bind [OF calc_req_target_Ok [OF ok U]], clarify)
    fix res o1
    assume sb: "same_but U osdc o1" and at: "same_attempts osdc o1"
    have r1: "recalc_ok U nr osdc (nr, o1)" by (rule same_but_recalc [OF sb at nr])
    then have ok1: "client_ok U o1" "resend_ok U o1 nr" by (simp_all add: recalc_ok_def)
    show "ok_with (if res = CALC_TARGET_POOL_DNE then bind_outcome (erase_request nr req) (\<lambda>nr. bind_outcome (check_pool_dne req o1) (\<lambda>osdc. Ok (nr, osdc)))
        else Ok (nr, o1)) (\<lambda>(nr', osdc'). recalc_ok U nr osdc (nr', osdc') \<and> set nr - {req} \<subseteq> set nr')"
    proof (cases "res = CALC_TARGET_POOL_DNE")
      case True
      show ?thesis unfolding if_P [OF True]
        by (rule ok_with_mono [OF drop_request_Ok [OF ok1 req]]) (use recalc_ok_trans [OF r1] in auto)
    qed (use r1 in auto)
  qed
qed

lemma kick_recalc_all_Ok:
  assumes ok: "client_ok U osdc" and nr: "resend_ok U osdc nr"
  shows "ok_with (for_each kick_recalc nr (nr, osdc)) (recalc_ok U nr osdc)"
proof -
  define P where "P xs s \<longleftrightarrow> recalc_ok U nr osdc s \<and> distinct xs \<and> set xs \<subseteq> set (fst s)" for xs s
  have "distinct xs" if "sorted_wrt (\<lambda>a b. tid_of osdc a < tid_of osdc b) xs" for xs using that by (induction xs) auto
  moreover have "same_but U osdc osdc" "same_attempts osdc osdc" using same_requests_refl [OF ok] by (simp_all add: same_but_def same_attempts_def same_opts_def)
  ultimately have "P nr (nr, osdc)" using same_but_recalc [OF _ _ nr] nr by (simp add: P_def resend_ok_def)
  moreover have "ok_with (kick_recalc x s) (P xs)" if P: "P (x # xs) s" for x xs s
  proof -
    obtain n1 o1 where s: "s = (n1, o1)" by (cases s)
    have r: "recalc_ok U nr osdc (n1, o1)" and x: "x \<in> set n1" "x \<notin> set xs" "distinct xs" "set xs \<subseteq> set n1" using P by (simp_all add: P_def s)
    have ok1: "client_ok U o1" "resend_ok U o1 n1" using r by (simp_all add: recalc_ok_def)
    show ?thesis
      unfolding s by (rule ok_with_mono [OF kick_recalc_Ok [OF ok1 x(1)]]) (use recalc_ok_trans [OF r] x in \<open>auto simp: P_def\<close>)
  qed
  ultimately have "ok_with (for_each kick_recalc nr (nr, osdc)) (P [])" by (rule ok_with_for_each)
  then show ?thesis by (rule ok_with_mono) (simp add: P_def)
qed

lemma kick_send_Ok:
  assumes ok: "client_ok U osdc" and req: "req \<in> U" "req \<notin> linked osdc"
  shows "ok_with (kick_send req osdc) (\<lambda>osdc'. client_ok U osdc' \<and> linked osdc' = insert req (linked osdc) \<and> completed osdc' = completed osdc \<and>
     osdc_osdmap osdc' = osdc_osdmap osdc)" (is "ok_with _ ?Q")
proof -
  let ?onum = "t_osd (r_t (osdc_reqs osdc req))"
  have slot: "osd_slot osdc ?onum" using client_okD(4) [OF ok req(1)] by (simp add: request_ok_def)
  show ?thesis
    unfolding kick_send_def Let_def
  proof (rule ok_with_bind [OF lookup_create_osd_Ok [OF ok slot]], elim conjE)
    fix o1
    assume o1: "client_ok U o1" "find_osd o1 ?onum \<noteq> None" "osdc_reqs o1 = osdc_reqs osdc" "completed o1 = completed osdc" "osdc_osdmap o1 = osdc_osdmap osdc"
    have none: "r_osd (osdc_reqs o1 req) = None" using req(2) o1(3) by (simp add: linked_def)
    show "ok_with (bind_outcome (link_request ?onum req o1) (\<lambda>osdc.
        if ?onum \<noteq> CEPH_HOMELESS_OSD \<and> \<not> t_paused (r_t (osdc_reqs osdc req)) then send_request req osdc else Ok osdc)) ?Q"
    proof (rule ok_with_bind [OF link_request_Ok [OF o1(1) none req(1) o1(2)]], elim conjE)
      fix o2 assume o2: "client_ok U o2" and mv: "moved req (Some ?onum) o1 o2"
      have l: "linked o2 = insert req (linked osdc)" using moved_linked [OF mv] o1(3) by (simp add: linked_def)
      have c: "completed o2 = completed osdc" "osdc_osdmap o2 = osdc_osdmap osdc" using mv o1 by (simp_all add: moved_def same_view_def)
      have "req \<in> linked o2" using l by simp
      then have "ok_with (send_request req o2) ?Q"
        using ok_with_mono [OF send_request_Ok [OF o2]] l c by (simp add: same_but_def same_requests_def step_def)
      then show "ok_with (if ?onum \<noteq> CEPH_HOMELESS_OSD \<and> \<not> t_paused (r_t (osdc_reqs o2 req)) then send_request req o2 else Ok o2) ?Q"
        using o2 l c by simp
    qed
  qed
qed

lemma kick_requests_Ok:
  assumes ok: "client_ok U osdc" and nr: "resend_ok U osdc nr"
  shows "ok_with (kick_requests nr osdc) (\<lambda>osdc'. client_ok U osdc' \<and> osdc_osdmap osdc' = osdc_osdmap osdc \<and>
     (\<exists>lost. books (linked osdc \<union> set nr) (completed osdc) (linked osdc') (completed osdc') lost \<and>
       (\<forall>r\<in>lost. r_attempts (osdc_reqs osdc r) = 0 \<or> osdmap_epoch (osdc_osdmap osdc) = 0)))"
  unfolding kick_requests_def
proof (rule ok_with_bind [OF kick_recalc_all_Ok [OF ok nr]], clarify)
  fix n1 o1 assume r: "recalc_ok U nr osdc (n1, o1)"
  define P where "P xs o2 \<longleftrightarrow> client_ok U o2 \<and> osdc_osdmap o2 = osdc_osdmap osdc \<and> completed o2 = completed o1 \<and> distinct xs \<and>
     set xs \<subseteq> U - linked o2 \<and> linked o2 \<union> set xs = linked o1 \<union> set n1" for xs o2
  have "distinct xs" if "sorted_wrt (\<lambda>a b. tid_of o1 a < tid_of o1 b) xs" for xs using that by (induction xs) auto
  then have "P n1 o1" using r by (auto simp: P_def recalc_ok_def resend_ok_def)
  moreover have "ok_with (kick_send x s) (P xs)" if P: "P (x # xs) s" for x xs s
  proof -
    have x: "client_ok U s" "x \<in> U" "x \<notin> linked s" using P by (simp_all add: P_def)
    show ?thesis by (rule ok_with_mono [OF kick_send_Ok [OF x]]) (use P in \<open>auto simp: P_def\<close>)
  qed
  ultimately have "ok_with (for_each kick_send n1 o1) (P [])" by (rule ok_with_for_each)
  then show "ok_with (for_each kick_send n1 o1) (\<lambda>osdc'. client_ok U osdc' \<and> osdc_osdmap osdc' = osdc_osdmap osdc \<and>
     (\<exists>lost. books (linked osdc \<union> set nr) (completed osdc) (linked osdc') (completed osdc') lost \<and>
       (\<forall>r\<in>lost. r_attempts (osdc_reqs osdc r) = 0 \<or> osdmap_epoch (osdc_osdmap osdc) = 0)))"
    by (rule ok_with_mono) (use r in \<open>simp add: P_def recalc_ok_def\<close>)
qed

section \<open>Aborting requests\<close>

lemma all_requests_eq:
  assumes ok: "client_ok U osdc"
  shows "set (all_requests osdc) = linked osdc" "distinct (all_requests osdc)"
proof -
  have sess: "r \<in> set (o_requests s) \<longleftrightarrow> r_osd (osdc_reqs osdc r) = Some (o_osd s)" "distinct (o_requests s)" if "s \<in> set (osds osdc)" for r s
    using session_requests [OF ok find_osd_mem [OF ok that]] by auto
  have find: "find_osd osdc CEPH_HOMELESS_OSD = Some (homeless_osd osdc)" by (simp add: find_osd_def)
  note home = session_requests [OF ok find]
  have pos: "0 \<le> o_osd s" if "s \<in> set (osds osdc)" for s using that by (rule client_okD(9) [OF ok])
  show "set (all_requests osdc) = linked osdc"
  proof
    show "set (all_requests osdc) \<subseteq> linked osdc" using sess(1) home(1) by (auto simp: all_requests_def linked_def)
    show "linked osdc \<subseteq> set (all_requests osdc)"
    proof
      fix r assume "r \<in> linked osdc"
      then obtain n s where s: "find_osd osdc n = Some s" "r \<in> set (o_requests s)" using client_okD(11) [OF ok, of r] by (auto simp: linked_def)
      then have "s = homeless_osd osdc \<or> s \<in> set (osds osdc)" by (auto simp: find_osd_def find_Some_iff split: if_splits)
      then show "r \<in> set (all_requests osdc)" using s(2) by (auto simp: all_requests_def)
    qed
  qed
  have "distinct (concat (map o_requests xs))" if "set xs \<subseteq> set (osds osdc)" "distinct (map o_osd xs)" for xs
    using that
  proof (induction xs)
    case (Cons s xs)
    have "r_osd (osdc_reqs osdc r) \<noteq> Some (o_osd s)" if "r \<in> set (o_requests s')" "s' \<in> set xs" for r s'
      using sess(1) [of s' r] that Cons.prems by auto
    then show ?case using Cons sess [of s] by auto
  qed simp
  from this [of "osds osdc"] have "distinct (concat (map o_requests (osds osdc)))" using client_okD(8) [OF ok] by simp
  moreover have "r \<notin> set (o_requests (homeless_osd osdc))" if r: "r \<in> set (o_requests s)" "s \<in> set (osds osdc)" for r s
    using sess(1) [OF r(2), of r] r(1) home(1) [of r] pos [OF r(2)] by auto
  ultimately show "distinct (all_requests osdc)" using home(2) by (auto simp: all_requests_def)
qed

lemma abort_request_Ok:
  assumes ok: "client_ok U osdc" and req: "req \<in> linked osdc"
  shows "ok_with (abort_request err req osdc) (\<lambda>osdc'. client_ok U osdc' \<and> osdc_osdmap osdc' = osdc_osdmap osdc \<and>
     linked osdc' = linked osdc - {req} \<and> completed osdc' = completed osdc @ [req] \<and> set (map_checks osdc') = set (map_checks osdc) - {req} \<and>
     (\<forall>r. r_result (osdc_reqs osdc' r) = (if r = req then err else r_result (osdc_reqs osdc r))))" (is "ok_with _ ?Q")
proof -
  have U: "req \<in> U" using req client_okD(5) [OF ok] by blast
  show ?thesis
    unfolding abort_request_def
  proof (rule ok_with_bind [OF cancel_map_check_Ok [OF ok U]], elim conjE)
    fix o1 assume o1: "same_requests U osdc o1" "osdc_reqs o1 = osdc_reqs osdc" "set (map_checks o1) = set (map_checks osdc) - {req}"
    then have ok1: "client_ok U o1" by (simp add: same_requests_def step_def)
    show "ok_with (complete_request req err o1) ?Q"
      by (rule ok_with_mono [OF complete_request_Ok [OF ok1]]) (use o1 in \<open>simp add: done_with_def same_requests_def step_def\<close>)
  qed
qed

text \<open>Asking for a map changes nothing that the invariant mentions.\<close>

lemma maybe_request_map_sel [simp]:
  "osdc_reqs (maybe_request_map osdc) = osdc_reqs osdc" "osds (maybe_request_map osdc) = osds osdc" "homeless_osd (maybe_request_map osdc) = homeless_osd osdc"
  "osd_lru (maybe_request_map osdc) = osd_lru osdc" "last_tid (maybe_request_map osdc) = last_tid osdc" "map_checks (maybe_request_map osdc) = map_checks osdc"
  "osdc_osdmap (maybe_request_map osdc) = osdc_osdmap osdc" "osdc_rb (maybe_request_map osdc) = osdc_rb osdc" "osdc_stack (maybe_request_map osdc) = osdc_stack osdc"
  "osdc_fuel (maybe_request_map osdc) = osdc_fuel osdc" "osdc_crush_memory (maybe_request_map osdc) = osdc_crush_memory osdc"
  "completed (maybe_request_map osdc) = completed osdc" "abort_err (maybe_request_map osdc) = abort_err osdc"
  by (simp_all add: maybe_request_map_def Let_def case_prod_beta log_event_def completed_def)

lemma maybe_request_map_ok [simp]: "client_ok U (maybe_request_map osdc) = client_ok U osdc" "linked (maybe_request_map osdc) = linked osdc"
  by (rule client_ok_cong; simp)+

lemma tid_of_cong: "osdc_reqs a = osdc_reqs b \<Longrightarrow> tid_of a = tid_of b"
  by (simp add: tid_of_def fun_eq_iff)

lemma epoch_barrier_ok [simp]:
  "client_ok U (update_epoch_barrier eb osdc) = client_ok U osdc" "linked (update_epoch_barrier eb osdc) = linked osdc"
  "completed (update_epoch_barrier eb osdc) = completed osdc" "osdc_osdmap (update_epoch_barrier eb osdc) = osdc_osdmap osdc"
proof -
  have c: "client_ok U (osdc\<lparr>osdc_epoch_barrier := eb\<rparr>) = client_ok U osdc" "linked (osdc\<lparr>osdc_epoch_barrier := eb\<rparr>) = linked osdc"
    "completed (osdc\<lparr>osdc_epoch_barrier := eb\<rparr>) = completed osdc"
    by (rule client_ok_cong; simp)+ (simp add: completed_def)
  show "client_ok U (update_epoch_barrier eb osdc) = client_ok U osdc" "linked (update_epoch_barrier eb osdc) = linked osdc"
    "completed (update_epoch_barrier eb osdc) = completed osdc" "osdc_osdmap (update_epoch_barrier eb osdc) = osdc_osdmap osdc"
    using c by (simp_all add: update_epoch_barrier_def Let_def)
qed

lemma abort_on_full_fn_Ok:
  assumes ok: "client_ok U osdc" and req: "req \<in> linked osdc"
  shows "ok_with (abort_on_full_fn req (victims, osdc)) (\<lambda>(victims, osdc'). client_ok U osdc' \<and> osdc_osdmap osdc' = osdc_osdmap osdc \<and>
     linked osdc - {req} \<subseteq> linked osdc' \<and> books (linked osdc) (completed osdc) (linked osdc') (completed osdc') {})"
proof -
  let ?o = "if \<not> victims then update_epoch_barrier (osdmap_epoch (osdc_osdmap osdc)) osdc else osdc"
  have o: "client_ok U ?o" "linked ?o = linked osdc" "completed ?o = completed osdc" "osdc_osdmap ?o = osdc_osdmap osdc" using ok by simp_all
  have "req \<in> linked ?o" using req o(2) by simp
  note ab = abort_request_Ok [OF o(1) this, of ENOSPC_ERR, unfolded o(2-4)]
  have "ok_with (bind_outcome (abort_request ENOSPC_ERR req ?o) (\<lambda>osdc. Ok (True, osdc))) (\<lambda>(victims, osdc'). client_ok U osdc' \<and>
     osdc_osdmap osdc' = osdc_osdmap osdc \<and> linked osdc - {req} \<subseteq> linked osdc' \<and> books (linked osdc) (completed osdc) (linked osdc') (completed osdc') {})"
    by (rule ok_with_bind [OF ab]) (use books_complete [OF req] in simp)
  then show ?thesis using ok by (auto simp: abort_on_full_fn_def Let_def)
qed

lemma abort_on_full_Ok:
  assumes ok: "client_ok U osdc"
  shows "ok_with (ceph_osdc_abort_on_full pools osdc) (\<lambda>osdc'. client_ok U osdc' \<and> osdc_osdmap osdc' = osdc_osdmap osdc \<and>
     books (linked osdc) (completed osdc) (linked osdc') (completed osdc') {})"
proof (cases "opt_abort_on_full osdc \<and> (ceph_osdmap_flag osdc CEPH_OSDMAP_FULL \<or> have_pool_full pools osdc)")
  case False
  then show ?thesis using ok by (auto simp: ceph_osdc_abort_on_full_def)
next
  case True
  define P where "P xs s \<longleftrightarrow> client_ok U (snd s) \<and> osdc_osdmap (snd s) = osdc_osdmap osdc \<and> distinct xs \<and> set xs \<subseteq> linked (snd s) \<and>
     books (linked osdc) (completed osdc) (linked (snd s)) (completed (snd s)) {}" for xs and s :: "bool \<times> ceph_osd_client"
  have "P (all_requests osdc) (False, osdc)" using ok all_requests_eq [OF ok] by (simp add: P_def)
  moreover have "ok_with (abort_on_full_fn x s) (P xs)" if P: "P (x # xs) s" for x xs s
  proof -
    obtain v o1 where s: "s = (v, o1)" by (cases s)
    have x: "client_ok U o1" "x \<in> linked o1" "x \<notin> set xs" "set xs \<subseteq> linked o1" using P by (simp_all add: P_def s)
    show ?thesis
      unfolding s by (rule ok_with_mono [OF abort_on_full_fn_Ok [OF x(1,2)]]) (use P x in \<open>auto simp: P_def s intro: books_trans0\<close>)
  qed
  ultimately have "ok_with (for_each abort_on_full_fn (all_requests osdc) (False, osdc)) (P [])" by (rule ok_with_for_each)
  then have "ok_with (bind_outcome (for_each abort_on_full_fn (all_requests osdc) (False, osdc)) (\<lambda>(victims, osdc). Ok osdc))
     (\<lambda>osdc'. client_ok U osdc' \<and> osdc_osdmap osdc' = osdc_osdmap osdc \<and> books (linked osdc) (completed osdc) (linked osdc') (completed osdc') {})"
    by (rule ok_with_bind) (auto simp: P_def)
  then show ?thesis unfolding ceph_osdc_abort_on_full_def if_P [OF True] .
qed

lemma abort_requests_Ok:
  assumes ok: "client_ok U osdc"
  shows "ok_with (ceph_osdc_abort_requests err osdc) (\<lambda>osdc'. client_ok U osdc' \<and> linked osdc' = {} \<and> completed osdc' = completed osdc @ all_requests osdc \<and>
     set (map_checks osdc') = set (map_checks osdc) - linked osdc \<and> abort_err osdc' = err \<and> (\<forall>r\<in>linked osdc. r_result (osdc_reqs osdc' r) = err))"
proof -
  define P where "P xs s \<longleftrightarrow> client_ok U s \<and> distinct xs \<and> set xs = linked s \<and> (\<exists>ys. all_requests osdc = ys @ xs \<and> completed s = completed osdc @ ys \<and>
     set (map_checks s) = set (map_checks osdc) - set ys \<and> (\<forall>r\<in>set ys. r_result (osdc_reqs s r) = err))" for xs s
  have "P (all_requests osdc) osdc" using ok all_requests_eq [OF ok] by (simp add: P_def)
  moreover have "ok_with (abort_request err x s) (P xs)" if P: "P (x # xs) s" for x xs s
  proof -
    have x: "client_ok U s" "x \<in> linked s" "x \<notin> set xs" "linked s = insert x (set xs)" using P by (auto simp: P_def)
    obtain ys where ys: "all_requests osdc = ys @ x # xs" "completed s = completed osdc @ ys" "set (map_checks s) = set (map_checks osdc) - set ys"
      "\<forall>r\<in>set ys. r_result (osdc_reqs s r) = err" using P by (auto simp: P_def)
    show ?thesis
    proof (rule ok_with_mono [OF abort_request_Ok [OF x(1,2)]], elim conjE)
      fix v assume v: "client_ok U v" "linked v = linked s - {x}" "completed v = completed s @ [x]" "set (map_checks v) = set (map_checks s) - {x}"
        "\<forall>r. r_result (osdc_reqs v r) = (if r = x then err else r_result (osdc_reqs s r))"
      have "all_requests osdc = (ys @ [x]) @ xs \<and> completed v = completed osdc @ (ys @ [x]) \<and>
         set (map_checks v) = set (map_checks osdc) - set (ys @ [x]) \<and> (\<forall>r\<in>set (ys @ [x]). r_result (osdc_reqs v r) = err)"
        using ys v by auto
      then show "P xs v" unfolding P_def using v(1,2) x P by (intro conjI exI [of _ "ys @ [x]"]) (auto simp: P_def)
    qed
  qed
  ultimately have "ok_with (for_each (abort_request err) (all_requests osdc) osdc) (P [])" by (rule ok_with_for_each)
  then show ?thesis
    unfolding ceph_osdc_abort_requests_def
  proof (rule ok_with_bind)
    fix v assume v: "P [] v"
    let ?v = "v\<lparr>abort_err := err\<rparr>"
    have c: "client_ok U ?v = client_ok U v" "linked ?v = linked v" "completed ?v = completed v"
      by (rule client_ok_cong; simp)+ (simp add: completed_def)
    show "ok_with (Ok ?v) (\<lambda>osdc'. client_ok U osdc' \<and> linked osdc' = {} \<and> completed osdc' = completed osdc @ all_requests osdc \<and>
       set (map_checks osdc') = set (map_checks osdc) - linked osdc \<and> abort_err osdc' = err \<and> (\<forall>r\<in>linked osdc. r_result (osdc_reqs osdc' r) = err))"
      using v all_requests_eq(1) [OF ok] by (auto simp: P_def c)
  qed
qed

section \<open>A message with maps\<close>

lemma handle_map_Ok:
  assumes ok: "client_ok U osdc" and codec: "codec_ok osdc codec"
  shows "\<exists>good nr o1 osdc' lost. message_maps codec b osdc = Ok (good, nr, o1) \<and> ceph_osdc_handle_map codec b osdc = Ok osdc' \<and>
     books (linked osdc) (completed osdc) (linked osdc') (completed osdc') lost \<and>
     (if good then client_ok U osdc' \<and> (\<forall>req\<in>lost. r_attempts (osdc_reqs osdc req) = 0 \<or> osdmap_epoch (osdc_osdmap osdc') = 0) else lost = set nr)"
proof -
  obtain good nr o1 where m: "message_maps codec b osdc = Ok (good, nr, o1)" "maps_result U ([], osdc) (good, nr, o1)"
    using message_maps_result [OF codec ok, of b] by (auto simp: ok_with_def)
  show ?thesis
  proof (cases good)
    case False
    then obtain o2 map cm where o2: "ledger U ([], osdc) (nr, o2)" "o1 = o2\<lparr>osdc_osdmap := map, osdc_crush_memory := cm\<rparr>"
      using m(2) by (auto simp: maps_result_def stopped_def)
    have same: "linked o1 = linked o2" "completed o1 = completed o2" by (simp_all add: o2(2) linked_def completed_def)
    have "set nr \<inter> linked o2 = {}" using ledger_ok [OF o2(1)] by (simp add: resend_ok_def)
    then have "books (linked osdc) (completed osdc) (linked o1) (completed o1) (set nr)"
      using o2(1) unfolding same by (auto simp: ledger_def books_def)
    moreover have "ceph_osdc_handle_map codec b osdc = Ok o1" using m(1) False by (simp add: ceph_osdc_handle_map_def)
    ultimately show ?thesis using m(1) False by auto
  next
    case True
    then have l: "ledger U ([], osdc) (nr, o1)" using m(2) by (simp add: maps_result_def)
    let ?was = "paused_flags codec osdc"
    define o2 where "o2 = (if ?was \<or> paused_flags codec o1 \<or> osdmap_epoch (osdc_osdmap o1) < osdc_epoch_barrier o1 then maybe_request_map o1 else o1)"
    have ok2: "client_ok U o2" "resend_ok U o2 nr" "linked o2 = linked o1" "completed o2 = completed o1" "same_attempts osdc o2"
      using ledger_ok [OF l] l tid_of_cong [of "maybe_request_map o1" o1] by (auto simp: o2_def resend_ok_def ledger_def same_attempts_def)
    have eq: "ceph_osdc_handle_map codec b osdc = bind_outcome (kick_requests nr o2) (\<lambda>osdc.
        bind_outcome (ceph_osdc_abort_on_full (pool_ids codec (osdc_osdmap osdc)) osdc) (\<lambda>osdc.
          Ok (osdc\<lparr>osdc_sub := ceph_monc_got_map (osdmap_epoch (osdc_osdmap osdc)) (osdc_sub osdc)\<rparr>)))"
      using m(1) True by (simp add: ceph_osdc_handle_map_def Let_def o2_def)
    let ?Q = "\<lambda>osdc'. client_ok U osdc' \<and> (\<exists>lost. books (linked osdc) (completed osdc) (linked osdc') (completed osdc') lost \<and>
       (\<forall>req\<in>lost. r_attempts (osdc_reqs osdc req) = 0 \<or> osdmap_epoch (osdc_osdmap osdc') = 0))"
    have "ok_with (ceph_osdc_handle_map codec b osdc) ?Q"
      unfolding eq
    proof (rule ok_with_bind [OF kick_requests_Ok [OF ok2(1,2)]], elim conjE exE)
      fix o3 lost
      assume o3: "client_ok U o3" "osdc_osdmap o3 = osdc_osdmap o2"
        and b3: "books (linked o2 \<union> set nr) (completed o2) (linked o3) (completed o3) lost"
        and lost: "\<forall>r\<in>lost. r_attempts (osdc_reqs o2 r) = 0 \<or> osdmap_epoch (osdc_osdmap o2) = 0"
      have b: "books (linked osdc) (completed osdc) (linked o3) (completed o3) lost"
        using books_trans0 [OF ledger_books [OF l]] b3 ok2(3,4) by simp
      show "ok_with (bind_outcome (ceph_osdc_abort_on_full (pool_ids codec (osdc_osdmap o3)) o3) (\<lambda>osdc.
          Ok (osdc\<lparr>osdc_sub := ceph_monc_got_map (osdmap_epoch (osdc_osdmap osdc)) (osdc_sub osdc)\<rparr>))) ?Q"
      proof (rule ok_with_bind [OF abort_on_full_Ok [OF o3(1)]], elim conjE)
        fix o4 assume o4: "client_ok U o4" "osdc_osdmap o4 = osdc_osdmap o3" "books (linked o3) (completed o3) (linked o4) (completed o4) {}"
        have c: "client_ok U (o4\<lparr>osdc_sub := x\<rparr>) = client_ok U o4" "linked (o4\<lparr>osdc_sub := x\<rparr>) = linked o4" "completed (o4\<lparr>osdc_sub := x\<rparr>) = completed o4" for x
          by (rule client_ok_cong; simp)+ (simp add: completed_def)
        have "books (linked osdc) (completed osdc) (linked o4) (completed o4) lost" using books_trans [OF b o4(3)] by simp
        moreover have "\<forall>req\<in>lost. r_attempts (osdc_reqs osdc req) = 0 \<or> osdmap_epoch (osdc_osdmap o4) = 0"
          using lost ok2(5) o3(2) o4(2) by (simp add: same_attempts_def)
        ultimately show "ok_with (Ok (o4\<lparr>osdc_sub := ceph_monc_got_map (osdmap_epoch (osdc_osdmap o4)) (osdc_sub o4)\<rparr>)) ?Q"
          using o4(1) c by auto
      qed
    qed
    then show ?thesis using m(1) True by (auto simp: ok_with_def)
  qed
qed

end
