(* ===== verification/OsdRequests.thy ===== *)
theory OsdRequests
  imports OsdScan
begin

text \<open>
  The life of requests: submission, replies, connections that break, backoffs that are lifted, and the runs of a client, in which
  all of these are interleaved. The properties of the OSD client are at the end.
\<close>

unbundle bit_operations_syntax

section \<open>Requests that are not in flight\<close>

text \<open>A request outside of \<open>U\<close> may change in any way as long as it is linked nowhere.\<close>

lemma upd_req_outside:
  assumes ok: "client_ok U osdc" and req: "req \<notin> U" "r_osd (f (osdc_reqs osdc req)) = None"
  shows "client_ok U (upd_req req f osdc)" "linked (upd_req req f osdc) = linked osdc" "completed (upd_req req f osdc) = completed osdc"
proof -
  let ?o = "upd_req req f osdc"
  have none: "r_osd (osdc_reqs osdc req) = None" using req(1) client_okD(5) [OF ok] by (auto simp: linked_def)
  have osd: "r_osd (osdc_reqs ?o r) = r_osd (osdc_reqs osdc r)" for r using req(2) none by simp
  have tid: "tid_of ?o r = tid_of osdc r" if "r \<in> U" for r using that req(1) by (auto simp: tid_of_def)
  show l: "linked ?o = linked osdc" by (simp only: linked_def osd)
  show "completed ?o = completed osdc" by (simp add: completed_def)
  have srt: "sorted_wrt (\<lambda>a b. tid_of ?o a < tid_of ?o b) xs = sorted_wrt (\<lambda>a b. tid_of osdc a < tid_of osdc b) xs" if "set xs \<subseteq> U" for xs
    by (rule sorted_tid_cong) (use that tid in auto)
  have "session_ok ?o k s" if s: "find_osd osdc k = Some s" for k s
  proof -
    have so: "session_ok osdc k s" by (rule client_okD(10) [OF ok s])
    have "set (o_requests s) \<subseteq> U" using so client_okD(5) [OF ok] by (auto simp: session_ok_def linked_def)
    then show ?thesis using so srt [of "o_requests s"] unfolding session_ok_def osd by simp
  qed
  moreover have "request_ok ?o r" if "r \<in> U" for r
    using client_okD(4) [OF ok that] that req(1) tid [OF that] by (auto simp: request_ok_def osd_slot_def)
  moreover have "inj_on (tid_of ?o) U" using client_okD(3) [OF ok] tid by (simp cong: inj_on_cong)
  moreover have "maps_good ?o = maps_good osdc" by (rule maps_good_cong) simp_all
  moreover have "\<exists>s. find_osd ?o k = Some s \<and> r \<in> set (o_requests s)" if "r_osd (osdc_reqs ?o r) = Some k" for r k
    using client_okD(11) [OF ok, of r k] that unfolding osd by simp
  ultimately show "client_ok U ?o"
    unfolding client_ok_def l using client_okD(1,2,5-8,12) [OF ok] client_okD(9) [OF ok] client_okD(13) [OF ok] srt [OF client_okD(6) [OF ok]] by simp
qed

lemma forget_request:
  assumes ok: "client_ok U osdc" and req: "req \<notin> linked osdc" "req \<notin> set (map_checks osdc)"
  shows "client_ok (U - {req}) osdc"
  using ok req unfolding client_ok_def by (auto intro: inj_on_diff)

text \<open>The next id is new unless the counter wraps around.\<close>

lemma new_tid:
  assumes ok: "client_ok U osdc" and req: "req \<notin> U" "r_osd (osdc_reqs osdc req) = None"
    and t: "target_ok (r_t (osdc_reqs osdc req))" "osd_slot osdc (t_osd (r_t (osdc_reqs osdc req)))" and wrap: "last_tid osdc \<noteq> - 1"
  shows "client_ok (insert req U) (upd_req req (\<lambda>r. r\<lparr>r_tid := last_tid osdc + 1\<rparr>) (osdc\<lparr>last_tid := last_tid osdc + 1\<rparr>))" (is "client_ok _ ?o")
proof -
  let ?o1 = "upd_req req (\<lambda>r. r\<lparr>r_tid := last_tid osdc + 1\<rparr>) osdc"
  have ok1: "client_ok U ?o1" and l1: "linked ?o1 = linked osdc"
    using upd_req_outside [OF ok req(1), of "\<lambda>r. r\<lparr>r_tid := last_tid osdc + 1\<rparr>"] req(2) by simp_all
  have "last_tid osdc + 1 \<noteq> 0" using wrap by (simp add: add_eq_0_iff2)
  then have lt: "last_tid osdc < last_tid osdc + 1" 
    by (metis add.commute unatSuc less_add_one Suc_eq_plus1 word_less_nat_alt)
  have o: "?o = ?o1\<lparr>last_tid := last_tid osdc + 1\<rparr>" by (simp add: upd_req_def)
  have tid: "tid_of ?o = tid_of ?o1" by (rule tid_of_cong) (simp add: upd_req_def)
  have new: "tid_of ?o1 req = last_tid osdc + 1" by (simp add: tid_of_def)
  have old: "tid_of ?o1 r \<le> last_tid osdc" if "r \<in> U" for r
    using client_okD(4) [OF ok that] that req(1) by (auto simp: tid_of_def request_ok_def)
  have f: "find_osd ?o k = find_osd ?o1 k" for k unfolding o by (rule find_osd_cong) simp_all
  have s: "session_ok ?o = session_ok ?o1" unfolding o by (intro ext) (simp add: session_ok_def o tid [unfolded o])
  have m: "maps_good ?o = maps_good ?o1" unfolding o by (rule maps_good_cong) simp_all
  have l: "linked ?o = linked ?o1" by (simp add: o linked_def)
  have inj: "inj_on (tid_of ?o) (insert req U)"
    unfolding tid using client_okD(3) [OF ok1] new old lt req(1) by (force simp: inj_on_insert)
  have r: "request_ok ?o r" if "r \<in> insert req U" for r
  proof (cases "r = req")
    case True
    then show ?thesis using t new by (simp add: request_ok_def tid osd_slot_def)
  next
    case False
    then have "r \<in> U" using that by simp
    from client_okD(4) [OF ok1 this] old [OF this] lt show ?thesis by (auto simp: request_ok_def tid osd_slot_def)
  qed
  have sel: "osds ?o = osds ?o1" "osd_lru ?o = osd_lru ?o1" "map_checks ?o = map_checks ?o1" "osdc_rb ?o = osdc_rb ?o1" "osdc_reqs ?o = osdc_reqs ?o1"
    by (simp_all add: o)
  show ?thesis
    using ok1 inj r unfolding client_ok_def f s m l sel tid by (auto simp: subset_insertI2)
qed

section \<open>Submission\<close>

text \<open>
  What is true of a request that has been submitted: it has a new id, and it is linked to a session or it has been completed with
  an error.
\<close>

definition submitted :: "nat set \<Rightarrow> nat \<Rightarrow> ceph_osd_client \<Rightarrow> ceph_osd_client \<Rightarrow> bool" where
  "submitted U req osdc osdc' \<longleftrightarrow> client_ok (insert req U) osdc' \<and> tid_of osdc' req = last_tid osdc + 1 \<and> osdc_osdmap osdc' = osdc_osdmap osdc \<and>
     (if req \<in> linked osdc' then linked osdc' = insert req (linked osdc) \<and> completed osdc' = completed osdc
      else linked osdc' = linked osdc \<and> completed osdc' = completed osdc @ [req] \<and> r_result (osdc_reqs osdc' req) \<noteq> 0) \<and>
     (abort_err osdc \<noteq> 0 \<longrightarrow> req \<notin> linked osdc' \<and> r_result (osdc_reqs osdc' req) = abort_err osdc) \<and>
     (abort_err osdc = 0 \<and> \<not> opt_abort_on_full osdc \<longrightarrow> req \<in> linked osdc') \<and>
     (abort_err osdc = 0 \<and> osdmap_epoch (osdc_osdmap osdc) < osdc_epoch_barrier osdc \<longrightarrow>
        req \<in> linked osdc' \<and> t_paused (r_t (osdc_reqs osdc' req)) \<and> r_attempts (osdc_reqs osdc' req) = r_attempts (osdc_reqs osdc req))"

lemma submit_decision_cases:
  assumes "submit_decision osdc t = (err, paused, want_map, need_send)"
  shows "abort_err osdc \<noteq> 0 \<Longrightarrow> err = abort_err osdc" "abort_err osdc = 0 \<Longrightarrow> err \<noteq> 0 \<Longrightarrow> opt_abort_on_full osdc"
    "err \<noteq> 0 \<Longrightarrow> \<not> need_send" "paused \<Longrightarrow> err = 0 \<and> \<not> need_send"
    "abort_err osdc = 0 \<Longrightarrow> osdmap_epoch (osdc_osdmap osdc) < osdc_epoch_barrier osdc \<Longrightarrow> paused"
  using assms by (auto simp: submit_decision_def split: if_splits)

lemma target_ok_cong: "t_pg_num t' = t_pg_num t \<Longrightarrow> t_size t' = t_size t \<Longrightarrow> t_pg_num_mask t' = t_pg_num_mask t \<Longrightarrow> target_ok t' = target_ok t"
  by (simp add: target_ok_def)

text \<open>From the link on: the request is linked to \<open>onum\<close> in \<open>o1\<close>.\<close>

lemma submit_tail_Ok:
  assumes ok: "client_ok V o1" and req: "req \<in> V" "req \<in> linked o1" and err: "err \<noteq> 0 \<Longrightarrow> \<not> need_send"
  shows "ok_with (bind_outcome (if need_send then send_request req o1 else if err \<noteq> 0 then complete_request req err o1 else Ok o1) (\<lambda>osdc.
       if err = 0 \<and> ct_res = CALC_TARGET_POOL_DNE then send_map_check req osdc else Ok osdc))
     (\<lambda>osdc'. client_ok V osdc' \<and> tid_of osdc' = tid_of o1 \<and> osdc_osdmap osdc' = osdc_osdmap o1 \<and>
       (if err = 0 then linked osdc' = linked o1 \<and> completed osdc' = completed o1 \<and> (\<not> need_send \<longrightarrow> osdc_reqs osdc' = osdc_reqs o1)
        else linked osdc' = linked o1 - {req} \<and> completed osdc' = completed o1 @ [req] \<and> r_result (osdc_reqs osdc' req) = err))"
    (is "ok_with _ ?Q")
proof (cases "err = 0")
  case False
  then have "ok_with (complete_request req err o1) ?Q"
    by (intro ok_with_mono [OF complete_request_Ok [OF ok]]) (simp add: done_with_def step_def)
  then show ?thesis using False err by simp
next
  case True
  have "ok_with (if need_send then send_request req o1 else Ok o1) (\<lambda>o2. same_requests V o1 o2 \<and> (\<not> need_send \<longrightarrow> osdc_reqs o2 = osdc_reqs o1))"
    using ok_with_mono [OF send_request_Ok [OF ok req(2)]] same_requests_refl [OF ok] by (simp add: same_but_def)
  then have "ok_with (bind_outcome (if need_send then send_request req o1 else Ok o1) (\<lambda>osdc.
       if ct_res = CALC_TARGET_POOL_DNE then send_map_check req osdc else Ok osdc)) (\<lambda>o2. same_requests V o1 o2 \<and> (\<not> need_send \<longrightarrow> osdc_reqs o2 = osdc_reqs o1))"
  proof (rule ok_with_bind)
    fix o2 assume o2: "same_requests V o1 o2 \<and> (\<not> need_send \<longrightarrow> osdc_reqs o2 = osdc_reqs o1)"
    have ok2: "client_ok V o2" using o2 by (simp add: same_requests_def step_def)
    have "ok_with (send_map_check req o2) (\<lambda>o3. same_requests V o1 o3 \<and> (\<not> need_send \<longrightarrow> osdc_reqs o3 = osdc_reqs o1))"
      by (rule ok_with_mono [OF send_map_check_Ok [OF ok2 req(1)]]) (use o2 in \<open>auto intro: same_requests_trans\<close>)
    then show "ok_with (if ct_res = CALC_TARGET_POOL_DNE then send_map_check req o2 else Ok o2)
       (\<lambda>o2. same_requests V o1 o2 \<and> (\<not> need_send \<longrightarrow> osdc_reqs o2 = osdc_reqs o1))" using o2 by simp
  qed
  then have "ok_with (bind_outcome (if need_send then send_request req o1 else Ok o1) (\<lambda>osdc.
       if ct_res = CALC_TARGET_POOL_DNE then send_map_check req osdc else Ok osdc)) ?Q"
    by (rule ok_with_mono) (use True in \<open>auto simp: same_requests_def step_def\<close>)
  moreover have "(if need_send then send_request req o1 else if err \<noteq> 0 then complete_request req err o1 else Ok o1) =
      (if need_send then send_request req o1 else Ok o1)" "(err = 0 \<and> ct_res = CALC_TARGET_POOL_DNE) = (ct_res = CALC_TARGET_POOL_DNE)"
    using True by simp_all
  ultimately show ?thesis by (simp only:)
qed

lemma submit_linked_Ok:
  assumes ok: "client_ok U osdc" and req: "req \<notin> U" "r_osd (osdc_reqs osdc req) = None"
    and t: "target_ok (r_t (osdc_reqs osdc req))" "osd_slot osdc (t_osd (r_t (osdc_reqs osdc req)))" and wrap: "last_tid osdc \<noteq> - 1"
    and find: "find_osd osdc (t_osd (r_t (osdc_reqs osdc req))) \<noteq> None"
  shows "ok_with (submit_linked req ct_res osdc) (submitted U req osdc)"
proof -
  let ?t = "r_t (osdc_reqs osdc req)"
  obtain err paused want_map need_send where d: "submit_decision osdc ?t = (err, paused, want_map, need_send)" by (cases "submit_decision osdc ?t")
  note dc = submit_decision_cases [OF d]
  let ?pause = "\<lambda>r. r\<lparr>r_t := (r_t r)\<lparr>t_paused := True\<rparr>\<rparr>"
  define o1 where "o1 = (if paused then upd_req req ?pause osdc else osdc)"
  define o2 where "o2 = (if want_map then maybe_request_map o1 else o1)"
  define o3 where "o3 = upd_req req (\<lambda>r. r\<lparr>r_tid := last_tid o2 + 1\<rparr>) (o2\<lparr>last_tid := last_tid o2 + 1\<rparr>)"
  have o1: "client_ok U o1" "linked o1 = linked osdc" "completed o1 = completed osdc" "osdc_osdmap o1 = osdc_osdmap osdc" "last_tid o1 = last_tid osdc"
    "osds o1 = osds osdc" "homeless_osd o1 = homeless_osd osdc"
    using upd_req_outside [OF ok req(1), of ?pause] req(2) ok by (simp_all add: o1_def)
  have r1: "r_osd (osdc_reqs o1 req) = None" "t_osd (r_t (osdc_reqs o1 req)) = t_osd ?t" "target_ok (r_t (osdc_reqs o1 req))"
    "r_attempts (osdc_reqs o1 req) = r_attempts (osdc_reqs osdc req)" "paused \<Longrightarrow> t_paused (r_t (osdc_reqs o1 req))"
    using req(2) target_ok_cong [of "r_t (osdc_reqs o1 req)" ?t] t(1) by (simp_all add: o1_def)
  have o2: "client_ok U o2" "linked o2 = linked osdc" "completed o2 = completed osdc" "osdc_osdmap o2 = osdc_osdmap osdc" "last_tid o2 = last_tid osdc"
    "osds o2 = osds osdc" "homeless_osd o2 = homeless_osd osdc" "osdc_reqs o2 = osdc_reqs o1"
    using o1 by (simp_all add: o2_def)
  have slot: "osd_slot o2 (t_osd (r_t (osdc_reqs o2 req)))" using t(2) o2(4,8) r1(2) by (simp add: osd_slot_def)
  have ok3: "client_ok (insert req U) o3"
    unfolding o3_def by (rule new_tid [OF o2(1) req(1)]) (use o2 r1 slot wrap in simp_all)
  have "linked o3 = linked o2" "completed o3 = completed o2" by (auto simp: o3_def linked_def completed_def)
  then have o3: "linked o3 = linked osdc" "completed o3 = completed osdc" "osdc_osdmap o3 = osdc_osdmap osdc" "r_osd (osdc_reqs o3 req) = None"
    "tid_of o3 req = last_tid osdc + 1" "r_attempts (osdc_reqs o3 req) = r_attempts (osdc_reqs osdc req)" "paused \<Longrightarrow> t_paused (r_t (osdc_reqs o3 req))"
    using o2 r1 by (simp_all add: o3_def tid_of_def)
  have "find_osd o3 k = find_osd osdc k" for k by (rule find_osd_cong) (simp_all add: o3_def o2)
  then have find3: "find_osd o3 (t_osd ?t) \<noteq> None" using find by simp
  have eq: "submit_linked req ct_res osdc = bind_outcome (link_request (t_osd ?t) req o3) (\<lambda>osdc.
      bind_outcome (if need_send then send_request req osdc else if err \<noteq> 0 then complete_request req err osdc else Ok osdc) (\<lambda>osdc.
        if err = 0 \<and> ct_res = CALC_TARGET_POOL_DNE then send_map_check req osdc else Ok osdc))"
    unfolding submit_linked_def Let_def d prod.case o1_def [symmetric] o2_def [symmetric] o3_def [symmetric] by (rule refl)
  show ?thesis
    unfolding eq
  proof (rule ok_with_bind [OF link_request_Ok [OF ok3 o3(4) insertI1 find3]], elim conjE)
    fix o4 assume o4: "client_ok (insert req U) o4" and mv: "moved req (Some (t_osd ?t)) o3 o4"
    have l4: "linked o4 = insert req (linked osdc)" "completed o4 = completed osdc" "osdc_osdmap o4 = osdc_osdmap osdc" "tid_of o4 req = last_tid osdc + 1"
      "r_attempts (osdc_reqs o4 req) = r_attempts (osdc_reqs osdc req)" "paused \<Longrightarrow> t_paused (r_t (osdc_reqs o4 req))"
      using moved_linked [OF mv] moved_tid [OF mv] mv o3 by (simp_all add: moved_def same_view_def)
    have in4: "req \<in> linked o4" using l4(1) by simp
    have new: "req \<notin> linked osdc" using req(2) by (simp add: linked_def)
    show "ok_with (bind_outcome (if need_send then send_request req o4 else if err \<noteq> 0 then complete_request req err o4 else Ok o4) (\<lambda>osdc.
        if err = 0 \<and> ct_res = CALC_TARGET_POOL_DNE then send_map_check req osdc else Ok osdc)) (submitted U req osdc)"
    proof (rule ok_with_mono [OF submit_tail_Ok [OF o4 insertI1 in4 dc(3)]], assumption, elim conjE)
      fix o5
      assume o5: "client_ok (insert req U) o5" "tid_of o5 = tid_of o4" "osdc_osdmap o5 = osdc_osdmap o4"
        and alt: "if err = 0 then linked o5 = linked o4 \<and> completed o5 = completed o4 \<and> (\<not> need_send \<longrightarrow> osdc_reqs o5 = osdc_reqs o4)
          else linked o5 = linked o4 - {req} \<and> completed o5 = completed o4 @ [req] \<and> r_result (osdc_reqs o5 req) = err"
      show "submitted U req osdc o5"
      proof (cases "err = 0")
        case True
        then have a: "linked o5 = insert req (linked osdc)" "completed o5 = completed osdc" "\<not> need_send \<longrightarrow> osdc_reqs o5 = osdc_reqs o4" using alt l4 by simp_all
        have "abort_err osdc = 0" using dc(1) True by auto
        then show ?thesis using a o5 l4 dc(4,5) by (auto simp: submitted_def)
      next
        case False
        then have a: "linked o5 = linked osdc" "completed o5 = completed osdc @ [req]" "r_result (osdc_reqs o5 req) = err" using alt l4 new by auto
        then show ?thesis using o5 l4 dc(1,2,4,5) False new by (auto simp: submitted_def)
      qed
    qed
  qed
qed

text \<open>A request that can be submitted, in a client with the settings, the map and the other requests of \<open>osdc\<close>.\<close>

definition submittable :: "nat set \<Rightarrow> nat \<Rightarrow> ceph_osd_client \<Rightarrow> ceph_osd_client \<Rightarrow> bool" where
  "submittable U req osdc o1 \<longleftrightarrow> client_ok U o1 \<and> r_osd (osdc_reqs o1 req) = None \<and> target_ok (r_t (osdc_reqs o1 req)) \<and>
     osd_slot o1 (t_osd (r_t (osdc_reqs o1 req))) \<and> last_tid o1 = last_tid osdc \<and> same_opts osdc o1 \<and> osdc_osdmap o1 = osdc_osdmap osdc \<and>
     linked o1 = linked osdc \<and> completed o1 = completed osdc \<and> r_attempts (osdc_reqs o1 req) = r_attempts (osdc_reqs osdc req)"

lemma submittable_trans: "submittable U req a b \<Longrightarrow> submittable U req b c \<Longrightarrow> submittable U req a c"
  by (simp add: submittable_def same_opts_def)

lemma submittable_submitted:
  assumes p: "submittable U req osdc o1" and s: "submitted U req o1 o2"
  shows "submitted U req osdc o2"
proof -
  have e: "last_tid o1 = last_tid osdc" "osdc_osdmap o1 = osdc_osdmap osdc" "linked o1 = linked osdc" "completed o1 = completed osdc"
    "abort_err o1 = abort_err osdc" "opt_abort_on_full o1 = opt_abort_on_full osdc" "osdc_epoch_barrier o1 = osdc_epoch_barrier osdc"
    "r_attempts (osdc_reqs o1 req) = r_attempts (osdc_reqs osdc req)"
    using p by (simp_all add: submittable_def same_opts_def)
  show ?thesis using s unfolding submitted_def e .
qed

lemma submit_round_Ok:
  assumes p: "submittable U req osdc osdc" and req: "req \<notin> U" and wrap: "last_tid osdc \<noteq> - 1"
  shows "ok_with (submit_round req wrlocked osdc) (\<lambda>(promote, osdc'). if promote then \<not> wrlocked \<and> submittable U req osdc osdc' else submitted U req osdc osdc')"
    (is "ok_with _ ?Q")
proof -
  have ok: "client_ok U osdc" "target_ok (r_t (osdc_reqs osdc req))" "osd_slot osdc (t_osd (r_t (osdc_reqs osdc req)))" "r_osd (osdc_reqs osdc req) = None"
    using p by (simp_all add: submittable_def)
  show ?thesis
    unfolding submit_round_def
  proof (rule ok_with_bind [OF calc_any_target_Ok [OF ok(1-3)]], clarify)
    fix res o1
    assume sb: "same_but U osdc o1" and at: "same_attempts osdc o1"
      and t: "target_ok (r_t (osdc_reqs o1 req))" "osd_slot o1 (t_osd (r_t (osdc_reqs o1 req)))"
    let ?onum = "t_osd (r_t (osdc_reqs o1 req))"
    have ok1: "client_ok U o1" by (rule same_but_ok [OF sb])
    have p1: "submittable U req osdc o1"
      using sb at t ok1 ok(4) by (simp add: submittable_def same_but_def same_requests_def step_def same_attempts_def)
    have go: "ok_with (bind_outcome (submit_linked req res o2) (\<lambda>osdc. Ok (False, osdc))) ?Q" if p2: "submittable U req osdc o2" "osdc_reqs o2 = osdc_reqs o1" "find_osd o2 ?onum \<noteq> None" for o2
    proof -
      have a: "client_ok U o2" "r_osd (osdc_reqs o2 req) = None" "target_ok (r_t (osdc_reqs o2 req))" "osd_slot o2 (t_osd (r_t (osdc_reqs o2 req)))"
        "last_tid o2 \<noteq> - 1" "find_osd o2 (t_osd (r_t (osdc_reqs o2 req))) \<noteq> None"
        using p2 wrap by (simp_all add: submittable_def)
      show ?thesis by (rule ok_with_bind [OF submit_linked_Ok [OF a(1) req a(2-6)]]) (use submittable_submitted [OF p2(1)] in simp)
    qed
    show "ok_with (if res = CALC_TARGET_POOL_DNE \<and> \<not> wrlocked then Ok (True, o1)
        else case lookup_create_osd ?onum wrlocked o1 of Ok osdc \<Rightarrow> bind_outcome (submit_linked req res osdc) (\<lambda>osdc. Ok (False, osdc))
          | Err e \<Rightarrow> Ok (True, o1) | Oops f \<Rightarrow> Oops f) ?Q"
    proof (cases "res = CALC_TARGET_POOL_DNE \<and> \<not> wrlocked")
      case True
      then show ?thesis using p1 by simp
    next
      case False
      show ?thesis
      proof (cases "find_osd o1 ?onum = None \<and> \<not> wrlocked")
        case True
        then have "lookup_create_osd ?onum wrlocked o1 = Err EAGAIN" by (simp add: lookup_create_osd_def)
        then show ?thesis using False True p1 by simp
      next
        case look: False
        have "lookup_create_osd ?onum wrlocked o1 = lookup_create_osd ?onum True o1"
          using look by (cases "find_osd o1 ?onum") (simp_all add: lookup_create_osd_def)
        moreover obtain o2 where o2: "lookup_create_osd ?onum True o1 = Ok o2" "client_ok U o2" "find_osd o2 ?onum \<noteq> None" "osdc_reqs o2 = osdc_reqs o1"
          "completed o2 = completed o1" "osdc_osdmap o2 = osdc_osdmap o1" "last_tid o2 = last_tid o1" "same_opts o1 o2"
          using lookup_create_osd_Ok [OF ok1 t(2)] unfolding ok_with_def by blast
        moreover have "submittable U req osdc o2"
        proof -
          have "linked o2 = linked o1" "osd_slot o2 ?onum" using o2(4,6) t(2) by (simp_all add: linked_def osd_slot_def)
          then show ?thesis using p1 o2 by (simp add: submittable_def same_opts_def)
        qed
        ultimately show ?thesis unfolding if_not_P [OF False] using go [of o2] by simp
      qed
    qed
  qed
qed

lemma submit_request_locked_Ok:
  assumes p: "submittable U req osdc osdc" and req: "req \<notin> U" and wrap: "last_tid osdc \<noteq> - 1"
  shows "ok_with (submit_request_locked req wrlocked osdc) (submitted U req osdc)"
  unfolding submit_request_locked_def
proof (rule ok_with_bind [OF submit_round_Ok [OF assms]], clarify)
  fix promote o1 assume o1: "if promote then \<not> wrlocked \<and> submittable U req osdc o1 else submitted U req osdc o1"
  show "ok_with (if promote then bind_outcome (submit_round req True o1) (\<lambda>(promote, osdc). Ok osdc) else Ok o1) (submitted U req osdc)"
  proof (cases promote)
    case True
    then have p1: "submittable U req osdc o1" using o1 by simp
    then have "submittable U req o1 o1" "last_tid o1 \<noteq> - 1" using wrap by (simp_all add: submittable_def same_opts_def)
    then have "ok_with (bind_outcome (submit_round req True o1) (\<lambda>(promote, osdc). Ok osdc)) (submitted U req osdc)"
      by (intro ok_with_bind [OF submit_round_Ok [OF _ req]]) (use submittable_submitted [OF p1] in \<open>auto split: if_splits\<close>)
    then show ?thesis using True by simp
  qed (use o1 in simp)
qed

lemma start_request_Ok:
  assumes ok: "client_ok U osdc" and req: "req \<notin> U" and t: "target_ok (r_t (osdc_reqs osdc req))" "osd_slot osdc (t_osd (r_t (osdc_reqs osdc req)))"
    and wrap: "last_tid osdc \<noteq> - 1"
  shows "ok_with (ceph_osdc_start_request req osdc) (submitted U req osdc)"
proof -
  have none: "r_osd (osdc_reqs osdc req) = None" using req client_okD(5) [OF ok] by (auto simp: linked_def)
  let ?n = "osdc\<lparr>num_requests := num_requests osdc + 1\<rparr>"
  have okn: "client_ok U ?n" using ok by simp
  let ?f = "\<lambda>r. r\<lparr>r_t := (r_t r)\<lparr>t_flags := t_flags (r_t r) OR CEPH_OSD_FLAG_ONDISK\<rparr>, r_start_stamp := osdc_jiffies osdc\<rparr>"
  have "r_osd (?f (osdc_reqs ?n req)) = None" using none by simp
  then have u: "client_ok U (upd_req req ?f ?n)" "linked (upd_req req ?f ?n) = linked ?n" "completed (upd_req req ?f ?n) = completed ?n"
    using upd_req_outside [OF okn req, of ?f] by simp_all
  have acc: "account_request req osdc = upd_req req ?f ?n" by (simp add: account_request_def)
  have "target_ok (r_t (osdc_reqs (upd_req req ?f ?n) req))"
    using t(1) target_ok_cong [of "r_t (osdc_reqs (upd_req req ?f ?n) req)" "r_t (osdc_reqs osdc req)"] by simp
  moreover have "linked ?n = linked osdc" "completed ?n = completed osdc" by (simp_all add: linked_def completed_def)
  moreover have "same_opts osdc (upd_req req ?f ?n)" "same_opts (upd_req req ?f ?n) (upd_req req ?f ?n)" by (simp_all add: same_opts_def upd_req_def)
  ultimately have p: "submittable U req osdc (account_request req osdc)" "submittable U req (account_request req osdc) (account_request req osdc)"
    using u none t(2) unfolding acc by (simp_all add: submittable_def osd_slot_def)
  have "last_tid (account_request req osdc) \<noteq> - 1" using wrap by (simp add: acc)
  from ok_with_mono [OF submit_request_locked_Ok [OF p(2) req this] submittable_submitted [OF p(1)]]
  show ?thesis by (simp add: ceph_osdc_start_request_def submit_request_def)
qed

section \<open>Replies\<close>

text \<open>A linked request that is sent again under a new id.\<close>

lemma resubmit_Ok:
  assumes ok: "client_ok U osdc" and req: "r_osd (osdc_reqs osdc req) = Some onum" "req \<notin> set (map_checks osdc)" and wrap: "last_tid osdc \<noteq> - 1"
    and f: "\<And>r. r_osd (f r) = r_osd r" "\<And>r. t_osd (r_t (f r)) = t_osd (r_t r)" "\<And>r. target_ok (r_t (f r)) = target_ok (r_t r)"
  shows "ok_with (bind_outcome (unlink_request onum req osdc) (\<lambda>osdc. submit_request_locked req False (upd_req req f osdc)))
     (\<lambda>osdc'. client_ok U osdc' \<and> books (linked osdc) (completed osdc) (linked osdc') (completed osdc') {} \<and> linked osdc - {req} \<subseteq> linked osdc')"
    (is "ok_with _ ?Q")
proof (rule ok_with_bind [OF unlink_request_Ok [OF ok req(1)]], elim conjE)
  have U: "req \<in> U" "req \<in> linked osdc" using req client_okD(5) [OF ok] by (auto simp: linked_def)
  then have rok: "request_ok osdc req" using client_okD(4) [OF ok] by blast
  fix o1 assume o1: "client_ok U o1" and mv: "moved req None osdc o1"
  have l1: "linked o1 = linked osdc - {req}" "completed o1 = completed osdc" "map_checks o1 = map_checks osdc" "last_tid o1 = last_tid osdc"
    "osdc_osdmap o1 = osdc_osdmap osdc" "r_osd (osdc_reqs o1 req) = None" "r_t (osdc_reqs o1 req) = r_t (osdc_reqs osdc req)"
    using moved_linked [OF mv] moved_completed [OF mv] mv by (simp_all add: moved_def same_view_def)
  have "client_ok (U - {req}) o1" by (rule forget_request [OF o1]) (use l1 req(2) in simp_all)
  note u = upd_req_outside [OF this, of req f]
  let ?o = "upd_req req f o1"
  have p: "submittable (U - {req}) req ?o ?o"
    using u l1 f rok by (simp add: submittable_def same_opts_def request_ok_def osd_slot_def)
  have ins: "insert req (U - {req}) = U" using U(1) by blast
  show "ok_with (submit_request_locked req False ?o) ?Q"
  proof (rule ok_with_mono [OF submit_request_locked_Ok [OF p]])
    show "req \<notin> U - {req}" by simp
    show "last_tid ?o \<noteq> - 1" using l1 wrap by simp
    fix o2 assume "submitted (U - {req}) req ?o o2"
    then have o2: "client_ok U o2" "if req \<in> linked o2 then linked o2 = insert req (linked ?o) \<and> completed o2 = completed ?o
        else linked o2 = linked ?o \<and> completed o2 = completed ?o @ [req]"
      unfolding submitted_def ins by (simp_all split: if_splits)
    have lo: "linked ?o = linked osdc - {req}" "completed ?o = completed osdc" using u l1 f by simp_all
    show "?Q o2"
    proof (cases "req \<in> linked o2")
      case True
      then have "linked o2 = linked osdc" "completed o2 = completed osdc" using o2(2) lo U(2) by auto
      then show ?thesis using o2(1) by auto
    next
      case False
      then have "linked o2 = linked osdc - {req}" "completed o2 = completed osdc @ [req]" using o2(2) lo by simp_all
      then show ?thesis using o2(1) books_complete [OF U(2)] by simp
    qed
  qed
qed

text \<open>What a handler may do to the open requests when it deals with \<open>req\<close> only.\<close>

definition dealt_with :: "nat set \<Rightarrow> nat \<Rightarrow> ceph_osd_client \<Rightarrow> ceph_osd_client \<Rightarrow> bool" where
  "dealt_with U req osdc osdc' \<longleftrightarrow> client_ok U osdc' \<and> books (linked osdc) (completed osdc) (linked osdc') (completed osdc') {} \<and> linked osdc - {req} \<subseteq> linked osdc'"

lemma complete_dealt_with:
  assumes ok: "client_ok U osdc" and req: "req \<in> linked osdc"
  shows "ok_with (complete_request req err osdc) (dealt_with U req osdc)"
  by (rule ok_with_mono [OF complete_request_Ok [OF ok]])
    (use books_complete [OF req] in \<open>simp add: done_with_def dealt_with_def step_def\<close>)

lemma upd_req_dealt_with:
  assumes ok: "client_ok U osdc" and f: "r_tid (f (osdc_reqs osdc req)) = r_tid (osdc_reqs osdc req)" "r_osd (f (osdc_reqs osdc req)) = r_osd (osdc_reqs osdc req)"
      "r_t (f (osdc_reqs osdc req)) = r_t (osdc_reqs osdc req)"
    and d: "dealt_with U req (upd_req req f osdc) osdc'"
  shows "dealt_with U req osdc osdc'"
proof -
  have "linked (upd_req req f osdc) = linked osdc" "completed (upd_req req f osdc) = completed osdc"
    using upd_req_step'(2,3) [where f = f and req = req, OF ok] f by simp_all
  then show ?thesis using d by (simp add: dealt_with_def)
qed

lemma handle_reply_req_Ok:
  assumes ok: "client_ok U osdc" and req: "r_osd (osdc_reqs osdc req) = Some onum" "req \<notin> set (map_checks osdc)" and wrap: "last_tid osdc \<noteq> - 1"
    and reg: "osd_registered osdc onum" and find: "find_osd osdc onum = Some osd" "find (\<lambda>r. tid_of osdc r = tid) (o_requests osd) = Some req"
    and dec: "\<And>f. decode_MOSDOpReply (oloc_pool_ns (t_target_oloc (r_t (osdc_reqs osdc req)))) version b \<noteq> Oops f"
  shows "ok_with (handle_reply onum tid version len b osdc) (dealt_with U req osdc)"
proof -
  have l: "req \<in> linked osdc" using req by (simp add: linked_def)
  note fail = complete_dealt_with [OF ok l, of EIO_ERR]
  let ?r = "osdc_reqs osdc req"
  let ?d = "decode_MOSDOpReply (oloc_pool_ns (t_target_oloc (r_t ?r))) version b"
  let ?redir = "\<lambda>pool r. r\<lparr>r_t := (r_t r)\<lparr>t_target_oloc := (t_target_oloc (r_t r))\<lparr>oloc_pool := pool\<rparr>,
      t_flags := t_flags (r_t r) OR (CEPH_OSD_FLAG_REDIRECTED OR CEPH_OSD_FLAG_IGNORE_OVERLAY OR CEPH_OSD_FLAG_IGNORE_CACHE)\<rparr>, r_tid := 0\<rparr>"
  let ?again = "\<lambda>r. r\<lparr>r_t := (r_t r)\<lparr>t_pgid := \<lparr>pg_pool = 0, pg_seed = 0\<rparr>,
      t_flags := t_flags (r_t r) AND NOT (CEPH_OSD_FLAG_BALANCE_READS OR CEPH_OSD_FLAG_LOCALIZE_READS)\<rparr>, r_tid := 0\<rparr>"
  have eq: "handle_reply onum tid version len b osdc = (case ?d of Oops f \<Rightarrow> Oops f | Err e \<Rightarrow> complete_request req EIO_ERR osdc
     | Ok m \<Rightarrow>
         if sint (rep_retry_attempt m) \<ge> 0 \<and> sint (rep_retry_attempt m) \<noteq> r_attempts ?r - 1 then Ok osdc
         else if rep_redirect_pool m \<noteq> - 1 then
           bind_outcome (unlink_request onum req osdc) (\<lambda>osdc. submit_request_locked req False (upd_req req (?redir (rep_redirect_pool m)) osdc))
         else if rep_result m = EAGAIN_ERR then
           bind_outcome (unlink_request onum req osdc) (\<lambda>osdc. submit_request_locked req False (upd_req req ?again osdc))
         else if length (rep_ops m) \<noteq> length (r_ops ?r) then complete_request req EIO_ERR osdc
         else if sum_list (map op_outdata_len (rep_ops m)) \<noteq> len then complete_request req EIO_ERR (upd_req req (\<lambda>r. r\<lparr>r_ops := rep_ops m\<rparr>) osdc)
         else complete_request req (if rep_result m \<noteq> 0 then rep_result m else sum_list (map op_outdata_len (rep_ops m)))
           (upd_req req (\<lambda>r. r\<lparr>r_version := rep_user_version m\<rparr>) (upd_req req (\<lambda>r. r\<lparr>r_ops := rep_ops m\<rparr>) osdc)))"
    using reg find by (simp add: handle_reply_def osd_reqs_def get_osd_def Let_def complete_request_def upd_req_def cong: outcome.case_cong if_cong)
  show ?thesis
  proof (cases ?d)
    case (Err e)
    then show ?thesis unfolding eq using fail by simp
  next
    case (Oops f)
    then show ?thesis using dec by simp
  next
    case (Ok m)
    let ?o1 = "upd_req req (\<lambda>r. r\<lparr>r_ops := rep_ops m\<rparr>) osdc"
    let ?o2 = "upd_req req (\<lambda>r. r\<lparr>r_version := rep_user_version m\<rparr>) ?o1"
    have s1: "step U osdc ?o1" "linked ?o1 = linked osdc"
      using upd_req_step' [where f = "\<lambda>r. r\<lparr>r_ops := rep_ops m\<rparr>" and req = req, OF ok] by simp_all
    have s2: "client_ok U ?o2" "linked ?o2 = linked ?o1"
      using upd_req_step' [where f = "\<lambda>r. r\<lparr>r_version := rep_user_version m\<rparr>" and req = req, OF step_ok [OF s1(1)]] step_ok by auto
    have c1: "ok_with (complete_request req err ?o1) (dealt_with U req osdc)" for err
      by (rule ok_with_mono [OF complete_dealt_with [OF step_ok [OF s1(1)]]])
        (use s1 l upd_req_dealt_with [where f = "\<lambda>r. r\<lparr>r_ops := rep_ops m\<rparr>", OF ok] in simp_all)
    have c2: "ok_with (complete_request req err ?o2) (dealt_with U req osdc)" for err
      by (rule ok_with_mono [OF complete_dealt_with [OF s2(1)]])
        (use s1 s2 l upd_req_dealt_with [where f = "\<lambda>r. r\<lparr>r_ops := rep_ops m\<rparr>", OF ok]
          upd_req_dealt_with [where f = "\<lambda>r. r\<lparr>r_version := rep_user_version m\<rparr>" and osdc = ?o1, OF step_ok [OF s1(1)]] in simp_all)
    have tok: "target_ok (r_t (?redir pool r)) = target_ok (r_t r)" "target_ok (r_t (?again r)) = target_ok (r_t r)" for pool r
      by (rule target_ok_cong; simp)+
    have re: "ok_with (bind_outcome (unlink_request onum req osdc) (\<lambda>osdc. submit_request_locked req False (upd_req req (?redir pool) osdc))) (dealt_with U req osdc)" for pool
      unfolding dealt_with_def by (rule resubmit_Ok [OF ok req wrap]) (use tok in simp_all)
    have ag: "ok_with (bind_outcome (unlink_request onum req osdc) (\<lambda>osdc. submit_request_locked req False (upd_req req ?again osdc))) (dealt_with U req osdc)"
      unfolding dealt_with_def by (rule resubmit_Ok [OF ok req wrap]) (use tok in simp_all)
    have same: "dealt_with U req osdc osdc" using ok by (auto simp: dealt_with_def)
    show ?thesis
      unfolding eq Ok outcome.case using fail c1 c2 re ag same by (simp only: ok_with_Ok simp_thms split: if_split)
  qed
qed

lemma handle_reply_Ok:
  assumes ok: "client_ok U osdc" and wrap: "last_tid osdc \<noteq> - 1"
    and good: "\<And>req. r_osd (osdc_reqs osdc req) = Some onum \<Longrightarrow> tid_of osdc req = tid \<Longrightarrow> req \<notin> set (map_checks osdc) \<and>
      (\<forall>f. decode_MOSDOpReply (oloc_pool_ns (t_target_oloc (r_t (osdc_reqs osdc req)))) version b \<noteq> Oops f)"
  shows "ok_with (handle_reply onum tid version len b osdc) (\<lambda>osdc'. client_ok U osdc' \<and>
     books (linked osdc) (completed osdc) (linked osdc') (completed osdc') {} \<and>
     (\<forall>r\<in>linked osdc - linked osdc'. r_osd (osdc_reqs osdc r) = Some onum \<and> tid_of osdc r = tid))"
proof (cases "osd_registered osdc onum")
  case False
  then show ?thesis using ok by (simp add: handle_reply_def)
next
  case True
  then have "onum \<in> set (map o_osd (osds osdc))" by (simp add: osd_registered_def)
  then obtain osd where osd: "find_osd osdc onum = Some osd" using find_osd_None [of osdc onum] by fastforce
  show ?thesis
  proof (cases "find (\<lambda>r. tid_of osdc r = tid) (o_requests osd)")
    case None
    then show ?thesis using True osd ok by (simp add: handle_reply_def osd_reqs_def get_osd_def)
  next
    case (Some req)
    then have req: "req \<in> set (o_requests osd)" "tid_of osdc req = tid" by (auto simp: find_Some_iff)
    then have r: "r_osd (osdc_reqs osdc req) = Some onum" using session_requests(1) [OF ok osd] by simp
    note g = good [OF r req(2)]
    show ?thesis
      by (rule ok_with_mono [OF handle_reply_req_Ok [OF ok r _ wrap True osd Some]]) (use g r req(2) in \<open>auto simp: dealt_with_def\<close>)
  qed
qed

section \<open>Requests that are sent again\<close>

text \<open>The requests that have been sent, with the sessions, in their order.\<close>

definition sends :: "ceph_osd_client \<Rightarrow> (int \<times> nat) list" where
  "sends osdc = concat (map (\<lambda>e. case e of Op_Sent onum req r \<Rightarrow> [(onum, req)] | _ \<Rightarrow> []) (osdc_log osdc))"

lemma sends_log [simp]: "sends (log_event e osdc) = sends osdc @ (case e of Op_Sent onum req r \<Rightarrow> [(onum, req)] | _ \<Rightarrow> [])"
  by (cases e) (simp_all add: sends_def log_event_def)

lemma sends_upd [simp]: "sends (upd_req req f osdc) = sends osdc" "sends (upd_osd onum g osdc) = sends osdc"
  by (simp_all add: sends_def)

lemma completed_upd [simp]: "completed (upd_req req f osdc) = completed osdc" "completed (upd_osd onum g osdc) = completed osdc"
  by (simp_all add: completed_def)

definition same_but_sends :: "ceph_osd_client \<Rightarrow> ceph_osd_client \<Rightarrow> bool" where
  "same_but_sends osdc osdc' \<longleftrightarrow> (\<forall>r. r_osd (osdc_reqs osdc' r) = r_osd (osdc_reqs osdc r)) \<and> completed osdc' = completed osdc \<and>
     osds osdc' = osds osdc \<and> homeless_osd osdc' = homeless_osd osdc"

lemma send_request_effect:
  assumes req: "r_osd (osdc_reqs osdc req) = Some onum" and osd: "find_osd osdc onum = Some osd"
  shows "ok_with (send_request req osdc) (\<lambda>osdc'. same_but_sends osdc osdc' \<and> (\<forall>r. r \<noteq> req \<longrightarrow> osdc_reqs osdc' r = osdc_reqs osdc r) \<and>
     sends osdc' = sends osdc @ (if should_plug_request (o_backoffs osd) (r_t (osdc_reqs osdc req)) then [] else [(onum, req)]))"
  using assms by (simp add: send_request_def get_osd_def Let_def same_but_sends_def)

lemma resend_loop:
  assumes reqs: "\<forall>r\<in>set reqs. r_osd (osdc_reqs osdc r) = Some onum" "distinct reqs" and osd: "find_osd osdc onum = Some osd"
  shows "ok_with (for_each (\<lambda>req osdc. if sel (r_t (osdc_reqs osdc req)) then send_request req osdc else Ok osdc) reqs osdc) (\<lambda>osdc'. same_but_sends osdc osdc' \<and>
     sends osdc' = sends osdc @ map (Pair onum) (filter (\<lambda>r. sel (r_t (osdc_reqs osdc r)) \<and> \<not> should_plug_request (o_backoffs osd) (r_t (osdc_reqs osdc r))) reqs))"
  using assms
proof (induction reqs arbitrary: osdc)
  case Nil
  then show ?case by (simp add: same_but_sends_def)
next
  case (Cons req reqs)
  let ?sel = "\<lambda>osdc r. sel (r_t (osdc_reqs osdc r)) \<and> \<not> should_plug_request (o_backoffs osd) (r_t (osdc_reqs osdc r))"
  have step: "ok_with (if sel (r_t (osdc_reqs osdc req)) then send_request req osdc else Ok osdc) (\<lambda>o1. same_but_sends osdc o1 \<and>
     (\<forall>r. r \<noteq> req \<longrightarrow> osdc_reqs o1 r = osdc_reqs osdc r) \<and> sends o1 = sends osdc @ (if ?sel osdc req then [(onum, req)] else []))"
    using ok_with_mono [OF send_request_effect [OF _ Cons.prems(3), of req]] Cons.prems(1) by (simp add: same_but_sends_def)
  show ?case
    unfolding for_each.simps
  proof (rule ok_with_bind [OF step], elim conjE)
    fix o1
    assume o1: "same_but_sends osdc o1" "\<forall>r. r \<noteq> req \<longrightarrow> osdc_reqs o1 r = osdc_reqs osdc r"
      "sends o1 = sends osdc @ (if ?sel osdc req then [(onum, req)] else [])"
    have osd1: "find_osd o1 onum = Some osd" using Cons.prems(3) o1(1) find_osd_cong [of o1 osdc onum] by (simp add: same_but_sends_def)
    have r1: "\<forall>r\<in>set reqs. r_osd (osdc_reqs o1 r) = Some onum" "distinct reqs" using Cons.prems(1,2) o1(1) by (simp_all add: same_but_sends_def)
    have "filter (?sel o1) reqs = filter (?sel osdc) reqs" using Cons.prems(2) o1(2) by (intro filter_cong) auto
    with Cons.IH [OF r1 osd1] have "ok_with (for_each (\<lambda>req osdc. if sel (r_t (osdc_reqs osdc req)) then send_request req osdc else Ok osdc) reqs o1)
        (\<lambda>osdc'. same_but_sends o1 osdc' \<and> sends osdc' = sends o1 @ map (Pair onum) (filter (?sel osdc) reqs))" by simp
    then show "ok_with (for_each (\<lambda>req osdc. if sel (r_t (osdc_reqs osdc req)) then send_request req osdc else Ok osdc) reqs o1) (\<lambda>osdc'.
        same_but_sends osdc osdc' \<and> sends osdc' = sends osdc @ map (Pair onum) (filter (?sel osdc) (req # reqs)))"
      by (rule ok_with_mono) (use o1 in \<open>auto simp: same_but_sends_def\<close>)
  qed
qed

lemma same_but_sends_linked: "same_but_sends osdc osdc' \<Longrightarrow> linked osdc' = linked osdc"
  by (simp add: same_but_sends_def linked_def)

text \<open>A backoff that is lifted.\<close>

lemma unblock_Ok:
  assumes ok: "client_ok U osdc" and osd: "find_osd osdc onum = Some osd" and b: "b \<in> installed (o_backoffs osd)" "bo_id b = mb_id m"
  shows "\<exists>backoffs. uninstall_backoff (osdc_rb osdc) (o_backoffs osd) m = Ok (Some backoffs) \<and> installed backoffs = installed (o_backoffs osd) - {b} \<and>
     ok_with (handle_backoff_unblock onum m osdc) (\<lambda>osdc'. linked osdc' = linked osdc \<and> completed osdc' = completed osdc \<and>
       sends osdc' = sends osdc @ map (Pair onum) (filter (\<lambda>r. t_spgid (r_t (osdc_reqs osdc r)) = mb_spgid m \<and>
         target_contained_by (r_t (osdc_reqs osdc r)) (mb_begin m) (mb_end m) \<and> \<not> should_plug_request backoffs (r_t (osdc_reqs osdc r))) (o_requests osd)))"
proof -
  have s: "session_ok osdc onum osd" by (rule client_okD(10) [OF ok osd])
  obtain bs where bs: "uninstall_backoff (osdc_rb osdc) (o_backoffs osd) m = Ok (Some bs)" "installed bs = installed (o_backoffs osd) - {b}"
    using uninstall_installed [OF client_okD(2) [OF ok], of "o_backoffs osd" b m] s b by (auto simp: session_ok_def)
  let ?f = "\<lambda>osd. osd\<lparr>o_backoffs := bs\<rparr>"
  let ?o = "upd_osd onum ?f osdc"
  let ?sel = "\<lambda>t. ceph_spg_compare (t_spgid t) (mb_spgid m) = 0 \<and> target_contained_by t (mb_begin m) (mb_end m)"
  have osd': "find_osd ?o onum = Some (?f osd)" using find_osd_upd [of ?f onum osdc onum] osd by simp
  have r: "\<forall>r\<in>set (o_requests osd). r_osd (osdc_reqs ?o r) = Some onum" "distinct (o_requests osd)"
    using session_requests [OF ok osd] by simp_all
  have cmp: "ceph_spg_compare a c = 0 \<longleftrightarrow> a = c" for a c
    using ceph_spg_compare_key [of a c] by simp
  have lk: "linked ?o = linked osdc" "completed ?o = completed osdc" by (simp_all add: linked_def completed_def)
  have "ok_with (for_each (\<lambda>req osdc. if ?sel (r_t (osdc_reqs osdc req)) then send_request req osdc else Ok osdc) (o_requests osd) ?o) (\<lambda>osdc'.
       linked osdc' = linked osdc \<and> completed osdc' = completed osdc \<and>
       sends osdc' = sends osdc @ map (Pair onum) (filter (\<lambda>r. t_spgid (r_t (osdc_reqs osdc r)) = mb_spgid m \<and>
         target_contained_by (r_t (osdc_reqs osdc r)) (mb_begin m) (mb_end m) \<and> \<not> should_plug_request bs (r_t (osdc_reqs osdc r))) (o_requests osd)))"
  proof (rule ok_with_mono [OF resend_loop [OF r osd']], elim conjE)
    fix v
    assume v: "same_but_sends ?o v" "sends v = sends ?o @ map (Pair onum) (filter (\<lambda>r. ?sel (r_t (osdc_reqs ?o r)) \<and>
      \<not> should_plug_request (o_backoffs (?f osd)) (r_t (osdc_reqs ?o r))) (o_requests osd))"
    have "completed v = completed osdc" using v(1) lk by (simp add: same_but_sends_def)
    then show "linked v = linked osdc \<and> completed v = completed osdc \<and>
       sends v = sends osdc @ map (Pair onum) (filter (\<lambda>r. t_spgid (r_t (osdc_reqs osdc r)) = mb_spgid m \<and>
         target_contained_by (r_t (osdc_reqs osdc r)) (mb_begin m) (mb_end m) \<and> \<not> should_plug_request bs (r_t (osdc_reqs osdc r))) (o_requests osd))"
      using v(2) same_but_sends_linked [OF v(1)] lk by (simp add: cmp conj_assoc)
  qed
  then show ?thesis using bs osd by (intro exI [of _ bs]) (simp add: handle_backoff_unblock_def get_osd_def Let_def)
qed

section \<open>Connections that break\<close>

text \<open>A change of a session besides its number and its requests.\<close>

lemma session_same_requests:
  assumes ok: "client_ok U osdc" and osd: "find_osd osdc onum = Some osd"
    and f: "\<And>s. o_osd (f s) = o_osd s" "\<And>s. o_requests (f s) = o_requests s"
    and b: "backoffs_ok (o_backoffs (f osd))" "clear_rounds (o_backoffs (f osd)) \<le> osdc_fuel osdc"
  shows "client_ok U (upd_osd onum f osdc)" (is "client_ok U ?o")
proof -
  have tid: "tid_of ?o = tid_of osdc" by (rule tid_of_cong) simp
  have l: "linked ?o = linked osdc" by (simp add: linked_def)
  have m: "maps_good ?o = maps_good osdc" by (rule maps_good_cong) simp_all
  have rq: "request_ok ?o = request_ok osdc" by (rule ext) (simp add: request_ok_def tid osd_slot_def)
  have fo: "find_osd ?o k = (if k = onum then Some (f osd) else find_osd osdc k)" for k
    using find_osd_upd [of f onum osdc k] f(1) osd by simp
  have s: "session_ok ?o k s" if "find_osd ?o k = Some s" for k s
  proof (cases "k = onum")
    case True
    then show ?thesis
      using that client_okD(10) [OF ok osd] f [of osd] b unfolding fo session_ok_def tid by auto
  next
    case False
    then show ?thesis using that client_okD(10) [OF ok, of k s] unfolding fo session_ok_def tid by simp
  qed
  have mem: "\<exists>s. find_osd ?o k = Some s \<and> r \<in> set (o_requests s)" if "r_osd (osdc_reqs ?o r) = Some k" for r k
    using client_okD(11) [OF ok, of r k] that osd f unfolding fo by (cases "k = onum") auto
  have lru: "0 \<le> k \<and> (\<exists>s. find_osd ?o k = Some s \<and> o_requests s = [])" if "k \<in> set (osd_lru ?o)" for k
    using client_okD(13) [OF ok, of k] that osd f unfolding fo by (cases "k = onum") auto
  have nums: "map o_osd (osds ?o) = map o_osd (osds osdc)" using upd_osd_nums [of f onum osdc] f(1) by simp
  then have pos: "\<forall>s\<in>set (osds ?o). 0 \<le> o_osd s" using client_okD(9) [OF ok] by (metis (no_types, lifting) image_iff list.set_map)
  show ?thesis
    unfolding client_ok_def tid l m rq nums using client_okD(1-3,5-8,12) [OF ok] client_okD(4) [OF ok] pos s mem lru by simp
qed

lemma resend_loop_ok:
  assumes ok: "client_ok U osdc" and reqs: "set reqs \<subseteq> linked osdc"
  shows "ok_with (for_each (\<lambda>req osdc. if sel (r_t (osdc_reqs osdc req)) then send_request req osdc else Ok osdc) reqs osdc)
     (\<lambda>osdc'. same_but U osdc osdc')"
proof -
  define P where "P xs s \<longleftrightarrow> same_but U osdc s \<and> set xs \<subseteq> linked osdc" for xs :: "nat list" and s
  have "P reqs osdc" using same_requests_refl [OF ok] reqs by (simp add: P_def same_but_def same_opts_def)
  moreover have "ok_with (if sel (r_t (osdc_reqs s x)) then send_request x s else Ok s) (P xs)" if P: "P (x # xs) s" for x xs s
  proof -
    have s: "client_ok U s" "x \<in> linked s" using P same_but_ok by (auto simp: P_def same_but_def same_requests_def)
    have tr: "same_but U osdc v" if "same_but U s v" for v
      using that P same_requests_trans by (auto simp: P_def same_but_def same_opts_def)
    have "ok_with (send_request x s) (P xs)" by (rule ok_with_mono [OF send_request_Ok [OF s]]) (use P tr in \<open>auto simp: P_def\<close>)
    then show ?thesis using P by (simp add: P_def)
  qed
  ultimately have "ok_with (for_each (\<lambda>req osdc. if sel (r_t (osdc_reqs osdc req)) then send_request req osdc else Ok osdc) reqs osdc) (P [])"
    by (rule ok_with_for_each)
  then show ?thesis by (rule ok_with_mono) (simp add: P_def)
qed

lemma osd_fault_Ok:
  assumes ok: "client_ok U osdc" and reg: "osd_registered osdc onum" and osd: "find_osd osdc onum = Some osd" and reqs: "o_requests osd \<noteq> []"
    and addr: "nat onum < length (osd_addr (osdc_osdmap osdc))" "osd_addr (osdc_osdmap osdc) ! nat onum \<noteq> o_con_peer_addr osd \<or> o_con_opened osd"
  shows "ok_with (osd_fault onum osdc) (\<lambda>osdc'. client_ok U osdc' \<and> linked osdc' = linked osdc \<and> completed osdc' = completed osdc \<and>
     sends osdc' = sends osdc @ map (Pair onum) (filter (\<lambda>r. \<not> t_paused (r_t (osdc_reqs osdc r))) (o_requests osd)))"
    (is "ok_with _ ?Q")
proof -
  let ?addr = "osd_addr (osdc_osdmap osdc) ! nat onum"
  have pos: "0 \<le> onum" using reg client_okD(9) [OF ok] by (auto simp: osd_registered_def)
  have ad: "osd_addr_of osdc onum = Ok ?addr" using pos addr(1) by (simp add: osd_addr_of_def aref_def)
  let ?f = "\<lambda>osd. osd\<lparr>o_con_peer_addr := ?addr, o_con_opened := False, o_incarnation := o_incarnation osd + 1\<rparr>"
  define o1 where "o1 = log_event (Con_Open onum ?addr) (log_event (Con_Close onum) (upd_osd onum ?f osdc))"
  have re: "reopen_osd onum osdc = Ok (True, o1)" using osd reqs ad addr(2) by (auto simp: reopen_osd_def get_osd_def o1_def)
  have s: "session_ok osdc onum osd" by (rule client_okD(10) [OF ok osd])
  have ok1: "client_ok U o1"
    using session_same_requests [OF ok osd, of ?f] s by (simp add: o1_def session_ok_def)
  have sel1: "osdc_reqs o1 = osdc_reqs osdc" "completed o1 = completed osdc" "sends o1 = sends osdc" "osdc_fuel o1 = osdc_fuel osdc" by (simp_all add: o1_def)
  have osd1: "find_osd o1 onum = Some (?f osd)"
    using find_osd_upd [of ?f onum osdc onum] osd find_osd_cong [of o1 "upd_osd onum ?f osdc" onum] by (simp add: o1_def)
  obtain bs where bs: "clear_backoffs (osdc_rb o1) (osdc_fuel o1) (o_backoffs osd) = Ok bs" "o_backoff_mappings bs = \<langle>\<rangle>" "o_backoffs_by_id bs = \<langle>\<rangle>"
    using clear_mappings_Ok [OF client_okD(2) [OF ok1], of "o_backoffs osd" "osdc_fuel o1"] s sel1(4) by (auto simp: session_ok_def clear_backoffs_def)
  let ?g = "\<lambda>osd. osd\<lparr>o_backoffs := bs\<rparr>"
  let ?o2 = "upd_osd onum ?g o1"
  have ok2: "client_ok U ?o2"
    by (rule session_same_requests [OF ok1 osd1]) (simp_all add: bs backoffs_ok_def installed_def clear_rounds_def rb_sorted_def)
  have osd2: "find_osd ?o2 onum = Some (?g (?f osd))" using find_osd_upd [of ?g onum o1 onum] osd1 by simp
  have plug: "\<not> should_plug_request (o_backoffs (?g (?f osd))) t" for t by (simp add: should_plug_request_def bs)
  have r: "\<forall>r\<in>set (o_requests osd). r_osd (osdc_reqs ?o2 r) = Some onum" "distinct (o_requests osd)"
    using session_requests [OF ok osd] by (simp_all add: sel1)
  have l2: "linked ?o2 = linked osdc" by (simp add: linked_def sel1)
  have sub: "set (o_requests osd) \<subseteq> linked ?o2" using r(1) by (auto simp: linked_def)
  let ?loop = "for_each (\<lambda>req osdc. if \<not> t_paused (r_t (osdc_reqs osdc req)) then send_request req osdc else Ok osdc) (o_requests osd) ?o2"
  obtain o3 where o3: "?loop = Ok o3" "same_but_sends ?o2 o3"
      "sends o3 = sends ?o2 @ map (Pair onum) (filter (\<lambda>r. \<not> t_paused (r_t (osdc_reqs ?o2 r)) \<and> \<not> should_plug_request (o_backoffs (?g (?f osd))) (r_t (osdc_reqs ?o2 r))) (o_requests osd))"
    using resend_loop [OF r osd2, of "\<lambda>t. \<not> t_paused t"] unfolding ok_with_def by blast
  have "client_ok U o3" using resend_loop_ok [OF ok2 sub, of "\<lambda>t. \<not> t_paused t"] o3(1) same_but_ok by (simp add: ok_with_def)
  moreover have "linked o3 = linked osdc" "completed o3 = completed osdc"
    using same_but_sends_linked [OF o3(2)] l2 o3(2) sel1 by (simp_all add: same_but_sends_def)
  moreover have "sends o3 = sends osdc @ map (Pair onum) (filter (\<lambda>r. \<not> t_paused (r_t (osdc_reqs osdc r))) (o_requests osd))"
    using o3(3) plug by (simp add: sel1)
  moreover have "sends (maybe_request_map o3) = sends o3"
    by (simp add: maybe_request_map_def Let_def case_prod_beta log_event_def sends_def)
  ultimately have "?Q (maybe_request_map o3)" by simp
  moreover have "kick_osd_requests onum o1 = Ok o3" using osd1 bs(1) o3(1) by (simp add: kick_osd_requests_def get_osd_def)
  ultimately show ?thesis using reg re by (simp add: osd_fault_def)
qed

section \<open>Idle sessions\<close>

lemma close_idle_Ok:
  "client_ok U osdc \<Longrightarrow> distinct lru \<Longrightarrow> set lru \<subseteq> set (map o_osd (osds osdc)) \<Longrightarrow>
     ok_with (close_idle lru osdc) (\<lambda>osdc'. client_ok U osdc' \<and> linked osdc' = linked osdc \<and> completed osdc' = completed osdc)"
proof (induction lru arbitrary: osdc)
  case (Cons onum lru)
  then have on: "onum \<in> set (map o_osd (osds osdc))" by simp
  then obtain osd where osd: "find_osd osdc onum = Some osd" using find_osd_None [of osdc onum] by fastforce
  have "ok_with (bind_outcome (close_osd onum osdc) (close_idle lru)) (\<lambda>osdc'. client_ok U osdc' \<and> linked osdc' = linked osdc \<and> completed osdc' = completed osdc)"
  proof (rule ok_with_bind [OF close_osd_Ok [OF Cons.prems(1) on]], elim conjE)
    fix o1 assume o1: "client_ok U o1" "same_besides_osd osdc o1" "linked o1 = linked osdc" "map o_osd (osds o1) = filter (\<lambda>n. n \<noteq> onum) (map o_osd (osds osdc))"
    have "set (map o_osd (osds o1)) = set (map o_osd (osds osdc)) - {onum}" unfolding o1(4) by auto
    then have "set lru \<subseteq> set (map o_osd (osds o1))" using Cons.prems(2,3) by auto
    moreover have "completed o1 = completed osdc" using o1(2) by (simp add: same_besides_osd_def same_view_def)
    ultimately show "ok_with (close_idle lru o1) (\<lambda>osdc'. client_ok U osdc' \<and> linked osdc' = linked osdc \<and> completed osdc' = completed osdc)"
      using Cons.IH [OF o1(1)] Cons.prems(2) o1(3) by simp
  qed
  then show ?case using osd Cons.prems(1) by (simp add: get_osd_def)
qed simp

text \<open>Sessions without requests are closed after a while; no request is affected.\<close>

lemma osds_timeout_Ok:
  assumes "client_ok U osdc"
  shows "ok_with (handle_osds_timeout osdc) (\<lambda>osdc'. client_ok U osdc' \<and> linked osdc' = linked osdc \<and> completed osdc' = completed osdc)"
proof -
  have "set (osd_lru osdc) \<subseteq> set (map o_osd (osds osdc))"
  proof
    fix n assume "n \<in> set (osd_lru osdc)"
    then have "0 \<le> n" "find_osd osdc n \<noteq> None" using client_okD(13) [OF assms] by auto
    then show "n \<in> set (map o_osd (osds osdc))" by (auto simp: find_osd_None)
  qed
  then show ?thesis using close_idle_Ok [OF assms client_okD(12) [OF assms]] by (simp add: handle_osds_timeout_def)
qed

section \<open>Lost requests\<close>

lemma map_check_cb_Ok:
  assumes ok: "client_ok U osdc" and req: "req \<in> set (map_checks osdc)" "req \<notin> linked osdc"
    and bound: "r_attempts (osdc_reqs osdc req) = 0" "r_map_dne_bound (osdc_reqs osdc req) = 0" "osdmap_epoch (osdc_osdmap osdc) < ucast newest"
  shows "\<exists>osdc'. map_check_cb (tid_of osdc req) newest osdc = Ok osdc' \<and> client_ok U osdc' \<and> linked osdc' = linked osdc \<and>
     completed osdc' = completed osdc \<and> set (map_checks osdc') = set (map_checks osdc) - {req}"
proof -
  have U: "req \<in> U" using req(1) client_okD(6) [OF ok] by blast
  let ?f = "\<lambda>r. r\<lparr>r_map_dne_bound := ucast newest\<rparr>"
  let ?o = "upd_req req ?f osdc"
  have s: "step U osdc ?o" "linked ?o = linked osdc" "completed ?o = completed osdc"
    using upd_req_step' [where f = ?f and req = req, OF ok] by simp_all
  note ok1 = step_ok [OF s(1)]
  have in1: "req \<in> set (map_checks ?o)" using req(1) by simp
  let ?mc = "remove1 req (map_checks osdc)"
  have mc: "erase_request (map_checks ?o) req = Ok ?mc" "sorted_wrt (\<lambda>a b. tid_of ?o a < tid_of ?o b) ?mc" "set ?mc = set (map_checks osdc) - {req}"
    using erase_request_Ok [OF in1 client_okD(7) [OF ok1]] by (auto simp: ok_with_def)
  have "set ?mc \<subseteq> U" using mc(3) client_okD(6) [OF ok] by blast
  note u = map_checks_upd [OF ok1 this mc(2)]
  let ?o2 = "?o\<lparr>map_checks := ?mc\<rparr>"
  have "ucast newest \<noteq> (0 :: u32)" "\<not> (ucast newest :: u32) \<le> osdmap_epoch (osdc_osdmap osdc)" using bound(3) by auto
  then have "check_pool_dne req ?o2 = Ok ?o2" using bound(1) by (simp add: check_pool_dne_def)
  moreover have "lookup_request_mc osdc (tid_of osdc req) = Some req" using lookup_request_mc_eq [OF ok U] req(1) by simp
  ultimately have "map_check_cb (tid_of osdc req) newest osdc = Ok ?o2" using bound(2) mc(1) by (simp add: map_check_cb_def)
  then show ?thesis using u s mc(3) by simp
qed

section \<open>A client\<close>

definition sample_request :: "int option \<Rightarrow> u64 \<Rightarrow> int \<Rightarrow> ceph_osd_request" where
  "sample_request osd tid attempts =
     \<lparr>r_tid = tid, r_osd = osd, r_t = sample_target 1 CEPH_OSD_FLAG_READ, r_sent = 0, r_ops = [], r_result = 0, r_version = 0, r_stamp = 0,
      r_start_stamp = 0, r_attempts = attempts, r_map_dne_bound = 0\<rparr>"

definition sample_addr :: ceph_entity_addr where
  "sample_addr = \<lparr>ea_type = 1, ea_nonce = 5, ea_in_addr = []\<rparr>"

text \<open>Request 0 has been sent to OSD 2; request 1 is not linked; \<open>mc\<close> are the map checks.\<close>

definition sample_client :: "nat list \<Rightarrow> ceph_osd_client" where
  "sample_client mc =
     \<lparr>osdc_osdmap = osdc_osdmap sample_osdc, osdc_epoch_barrier = 0, osdc_crush_locs = osdc_crush_locs sample_osdc,
      osdc_crush_memory = osdc_crush_memory sample_osdc, osdc_stack = osdc_stack sample_osdc, osdc_fuel = osdc_fuel sample_osdc,
      osdc_reqs = (\<lambda>_. sample_request None 2 0)(0 := sample_request (Some 2) 1 1),
      osds = [(create_osd 2 sample_addr)\<lparr>o_requests := [0], o_backoffs := sample_session\<rparr>], homeless_osd = create_osd CEPH_HOMELESS_OSD sample_addr,
      osd_lru = [], last_tid = 2, map_checks = mc, num_requests = 1, num_homeless = 0, abort_err = 0, opt_abort_on_full = False,
      opt_osd_idle_ttl = 60, opt_osd_keepalive_timeout = 5, opt_osd_request_timeout = 0, osdc_jiffies = 100, osdc_random = (\<lambda>_. 7),
      osdc_draws = 0, osdc_rb = sample_rb, osdc_sub = \<lparr>sub_want = False, sub_start = 0, sub_onetime = False, sub_have = 1\<rparr>, osdc_log = []\<rparr>"

lemma sample_client_find:
  "find_osd (sample_client mc) onum = (if onum = CEPH_HOMELESS_OSD then Some (create_osd CEPH_HOMELESS_OSD sample_addr)
     else if onum = 2 then Some ((create_osd 2 sample_addr)\<lparr>o_requests := [0], o_backoffs := sample_session\<rparr>) else None)"
  by (auto simp: find_osd_def sample_client_def create_osd_def)

lemma sample_client_linked: "linked (sample_client mc) = {0}" "completed (sample_client mc) = []"
  by (auto simp: linked_def completed_def sample_client_def sample_request_def)

lemma sample_client_maps: "maps_good (sample_client mc)"
proof -
  have "maps_ok sample_rank 1 (sample_client mc)" using sample_maps_ok by (simp add: maps_ok_def sample_client_def)
  then show ?thesis by (auto simp: maps_good_def)
qed

lemma sample_client_ok:
  assumes "mc = [] \<or> mc = [1]"
  shows "client_ok (insert 0 (set mc)) (sample_client mc)"
proof -
  have slot: "osd_slot (sample_client mc) CEPH_HOMELESS_OSD" by (simp add: osd_slot_def)
  have t: "t_osd (sample_target 1 CEPH_OSD_FLAG_READ) = CEPH_HOMELESS_OSD" by (simp add: sample_target_def)
  have req: "request_ok (sample_client mc) r" if "r \<le> 1" for r
    using that slot t sample_target_ok [of 1 CEPH_OSD_FLAG_READ] by (auto simp: request_ok_def tid_of_def sample_client_def sample_request_def le_Suc_eq)
  have inj: "inj_on (tid_of (sample_client mc)) (insert 0 (set mc))"
    using assms by (auto simp: tid_of_def sample_client_def sample_request_def)
  have fuel: "clear_rounds sample_session \<le> osdc_fuel (sample_client mc)" by (simp add: clear_rounds_def sample_session_def sample_client_def sample_osdc_def)
  have s2: "session_ok (sample_client mc) 2 ((create_osd 2 sample_addr)\<lparr>o_requests := [0], o_backoffs := sample_session\<rparr>)"
    using fuel sample_session_ok(1) by (simp add: session_ok_def create_osd_def) (simp add: sample_client_def sample_request_def)
  have sess: "session_ok (sample_client mc) onum osd" if "find_osd (sample_client mc) onum = Some osd" for onum osd
    using that s2 create_osd_session [of "sample_client mc" CEPH_HOMELESS_OSD sample_addr] by (auto simp: sample_client_find split: if_splits)
  have mem: "\<exists>osd. find_osd (sample_client mc) onum = Some osd \<and> r \<in> set (o_requests osd)" if "r_osd (osdc_reqs (sample_client mc) r) = Some onum" for r onum
  proof -
    have "r = 0 \<and> onum = 2" using that by (auto simp: sample_client_def sample_request_def split: if_splits)
    then show ?thesis by (simp add: sample_client_find)
  qed
  have sel: "osds (sample_client mc) = [(create_osd 2 sample_addr)\<lparr>o_requests := [0], o_backoffs := sample_session\<rparr>]" "osd_lru (sample_client mc) = []"
    "map_checks (sample_client mc) = mc" "osdc_rb (sample_client mc) = sample_rb" by (simp_all add: sample_client_def)
  have "set mc \<subseteq> insert 0 (set mc)" "sorted_wrt (\<lambda>a b. tid_of (sample_client mc) a < tid_of (sample_client mc) b) mc" "\<forall>r\<in>insert 0 (set mc). r \<le> 1"
    using assms by auto
  then show ?thesis
    unfolding client_ok_def using sample_client_maps sample_rb_ok req inj sess mem sel by (simp add: sample_client_linked create_osd_def)
qed

definition sample_codec :: map_codec where
  "sample_codec = \<lparr>check_fsid = (\<lambda>fsid. True), apply_incremental = (\<lambda>bs m cm. if bs = [] then Map_Bad m cm else Map_Changed (m\<lparr>osdmap_epoch := osdmap_epoch m + 1\<rparr>) cm),
     decode_full = (\<lambda>bs. None), pool_ids = (\<lambda>m. [1])\<rparr>"

lemma map_fits_epoch: "map_fits osdc m cm \<Longrightarrow> map_fits osdc (m\<lparr>osdmap_epoch := e\<rparr>) cm"
proof -
  assume "map_fits osdc m cm"
  then obtain rank R where ok: "maps_ok rank R (osdc\<lparr>osdc_osdmap := m, osdc_crush_memory := cm\<rparr>)" by (auto simp: map_fits_def maps_good_def)
  have w: "wf_placement rank R (m\<lparr>osdmap_epoch := e\<rparr>) = wf_placement rank R m" "memory_ok R (m\<lparr>osdmap_epoch := e\<rparr>) cm = memory_ok R m cm"
    "mappings_fit (m\<lparr>osdmap_epoch := e\<rparr>) pgid = mappings_fit m pgid" for pgid
    by (simp_all add: wf_placement_def wf_osdmap_def crush_env_of_def memory_ok_def mappings_fit_def split: option.split)
  have "maps_ok rank R (osdc\<lparr>osdc_osdmap := m\<lparr>osdmap_epoch := e\<rparr>, osdc_crush_memory := cm\<rparr>)" using ok by (simp add: maps_ok_def w)
  then show ?thesis by (auto simp: map_fits_def maps_good_def)
qed

lemma sample_codec_ok: "codec_ok osdc sample_codec"
  by (auto simp: codec_ok_def sample_codec_def map_fits_epoch)

section \<open>Properties\<close>

text \<open>A message with one incremental map.\<close>

definition sample_map_message :: "u8 list" where
  "sample_map_message = replicate 16 0 @ put_le 4 (1 :: u32) @ put_le 4 (2 :: u32) @ put_le 4 (1 :: u32) @ [9]"





text \<open>
  C9: A reply of an OSD concerns at most the request that is linked to its session under the id of the reply: that one is completed
  once, or it is linked again under a new id (after a redirect, or to be tried at the primary), or nothing happens because the reply is
  one to an earlier attempt. No request is lost, none is completed twice, and the client stays consistent. A damaged reply
  completes the request with an error. The reply must not make its decoder read past its end.
\<close>

theorem handle_reply_accounts:
  assumes "client_ok U osdc" and "last_tid osdc \<noteq> - 1"
    and "\<forall>req. r_osd (osdc_reqs osdc req) = Some onum \<and> tid_of osdc req = tid \<longrightarrow> req \<notin> set (map_checks osdc) \<and>
      (\<forall>f. decode_MOSDOpReply (oloc_pool_ns (t_target_oloc (r_t (osdc_reqs osdc req)))) version b \<noteq> Oops f)"
  shows "\<exists>osdc' dn. handle_reply onum tid version len b osdc = Ok osdc' \<and> client_ok U osdc' \<and> completed osdc' = completed osdc @ dn \<and> distinct dn \<and>
     linked osdc' \<union> set dn = linked osdc \<and> set dn \<inter> linked osdc' = {} \<and>
     (\<forall>req\<in>set dn. r_osd (osdc_reqs osdc req) = Some onum \<and> tid_of osdc req = tid)"
proof -
  obtain osdc' dn where r: "handle_reply onum tid version len b osdc = Ok osdc'" "client_ok U osdc'" "completed osdc' = completed osdc @ dn" "distinct dn"
    "linked osdc' \<union> set dn = linked osdc" "set dn \<inter> linked osdc' = {}"
    "\<forall>r\<in>linked osdc - linked osdc'. r_osd (osdc_reqs osdc r) = Some onum \<and> tid_of osdc r = tid"
    using handle_reply_Ok [OF assms(1,2), of onum tid version b len] assms(3) by (auto simp: ok_with_def books_def)
  moreover have "set dn \<subseteq> linked osdc - linked osdc'" using r(5,6) by blast
  ultimately show ?thesis by blast
qed

theorem handle_reply_accounts_witness:
  "\<exists>osdc' dn. handle_reply 2 1 8 0 [0, 0] (sample_client []) = Ok osdc' \<and> client_ok {0} osdc' \<and> linked osdc' \<union> set dn = {0} \<and> distinct dn"
proof -
  have ok: "client_ok {0} (sample_client [])" using sample_client_ok [of "[]"] by simp
  have tid: "last_tid (sample_client []) \<noteq> - 1" and mc: "map_checks (sample_client []) = []" by (simp_all add: sample_client_def)
  have dec: "decode_MOSDOpReply ns 8 [0, 0] = Err EINVAL" for ns
    by (simp add: decode_MOSDOpReply_def ceph_decode_32_safe_def ceph_decode_need_def ceph_has_room_def)
  have "\<forall>req. r_osd (osdc_reqs (sample_client []) req) = Some 2 \<and> tid_of (sample_client []) req = 1 \<longrightarrow> req \<notin> set (map_checks (sample_client [])) \<and>
      (\<forall>f. decode_MOSDOpReply (oloc_pool_ns (t_target_oloc (r_t (osdc_reqs (sample_client []) req)))) 8 [0, 0] \<noteq> Oops f)"
    by (simp add: dec mc)
  from handle_reply_accounts [OF ok tid this, of 0] show ?thesis unfolding sample_client_linked by (elim exE conjE) (intro exI conjI)
qed

text \<open>
  C20: Aborting all requests completes every request that is linked to a session, whether it waits for the map, for an OSD or for a reply,
  exactly once and with the given error, session by session in the order of the ids. Afterwards no request is linked, the map checks of the
  aborted requests are cancelled, and requests that are submitted later fail with the same error.
\<close>

theorem ceph_osdc_abort_requests_all:
  assumes "client_ok U osdc"
  shows "\<exists>osdc'. ceph_osdc_abort_requests err osdc = Ok osdc' \<and> client_ok U osdc' \<and> linked osdc' = {} \<and>
     completed osdc' = completed osdc @ all_requests osdc \<and> distinct (all_requests osdc) \<and> set (all_requests osdc) = linked osdc \<and>
     set (map_checks osdc') = set (map_checks osdc) - linked osdc \<and> abort_err osdc' = err \<and> (\<forall>r\<in>linked osdc. r_result (osdc_reqs osdc' r) = err)"
  using abort_requests_Ok [OF assms, of err] all_requests_eq [OF assms] unfolding ok_with_def by blast

theorem ceph_osdc_abort_requests_all_witness:
  "\<exists>osdc'. ceph_osdc_abort_requests EIO_ERR (sample_client []) = Ok osdc' \<and> linked osdc' = {} \<and> completed osdc' = [0] \<and> r_result (osdc_reqs osdc' 0) = EIO_ERR"
proof -
  have ok: "client_ok {0} (sample_client [])" using sample_client_ok [of "[]"] by simp
  have "all_requests (sample_client []) = [0]" by (simp add: all_requests_def sample_client_def create_osd_def)
  then show ?thesis using ceph_osdc_abort_requests_all [OF ok, of EIO_ERR] by (auto simp: sample_client_linked)
qed



text \<open>
  C33: A request can be lost when its pool does not exist. A request that was never sent and that loses its place while the map changes waits
  only in the tree of map checks. If the monitors then answer that there is a newer map than the client has, the request is taken
  out of that tree to wait for the map, but it is in no session that the handling of that map looks at: it is not completed, it is
  linked nowhere and nothing refers to it any more.
\<close>

theorem map_check_cb_loses_request:
  assumes "client_ok U osdc" and "req \<in> set (map_checks osdc)" and "req \<notin> linked osdc" and "r_attempts (osdc_reqs osdc req) = 0"
    and "r_map_dne_bound (osdc_reqs osdc req) = 0" and "osdmap_epoch (osdc_osdmap osdc) < ucast newest"
  shows "\<exists>osdc'. map_check_cb (tid_of osdc req) newest osdc = Ok osdc' \<and> req \<notin> set (map_checks osdc') \<and> req \<notin> set (all_requests osdc') \<and>
     completed osdc' = completed osdc"
proof -
  obtain osdc' where r: "map_check_cb (tid_of osdc req) newest osdc = Ok osdc'" "client_ok U osdc'" "linked osdc' = linked osdc"
    "completed osdc' = completed osdc" "set (map_checks osdc') = set (map_checks osdc) - {req}"
    using map_check_cb_Ok [OF assms] by blast
  then show ?thesis using all_requests_eq(1) [OF r(2)] assms(3) by auto
qed

theorem map_check_cb_loses_request_witness:
  "\<exists>osdc'. map_check_cb 2 7 (sample_client [1]) = Ok osdc' \<and> 1 \<notin> set (map_checks osdc') \<and> 1 \<notin> set (all_requests osdc') \<and> completed osdc' = []"
proof -
  have ok: "client_ok {0, 1} (sample_client [1])" using sample_client_ok [of "[1]"] by simp
  have f: "tid_of (sample_client [1]) 1 = 2" "1 \<in> set (map_checks (sample_client [1]))" "r_attempts (osdc_reqs (sample_client [1]) 1) = 0"
    "r_map_dne_bound (osdc_reqs (sample_client [1]) 1) = 0" "osdmap_epoch (osdc_osdmap (sample_client [1])) < ucast (7 :: u64)"
    by (simp_all add: tid_of_def sample_client_def sample_request_def sample_osdc_def sample_osdmap_def)
  have l: "1 \<notin> linked (sample_client [1])" by (simp add: sample_client_linked)
  from map_check_cb_loses_request [OF ok f(2) l f(3-5)] show ?thesis unfolding f(1) sample_client_linked by blast
qed

text \<open>
  C35: The decoder of the object locator in a redirect checks that the block is inside of the message, but not that the block is long
  enough for the fields it reads: a block with fewer than 8 bytes at the end of the message is read past its end.
\<close>

theorem ceph_oloc_decode_overread:
  assumes "3 \<le> struct_v" and "struct_cv \<le> 6" and "length body < 8"
  shows "ceph_oloc_decode pool_ns ([struct_v, struct_cv] @ put_le 4 (of_nat (length body) :: u32) @ body) 0 = Oops Bad_Access"
proof -
  let ?b = "[struct_v, struct_cv] @ put_le 4 (of_nat (length body) :: u32) @ body"
  have "ceph_decode_32 ?b 2 = Ok (of_nat (length body), 6)" using decode_put(2) [of "[struct_v, struct_cv]" 2 "of_nat (length body)" body] by simp
  moreover have "unat (of_nat (length body) :: u32) = length body" using assms(3) by (intro unat_len32) simp
  ultimately show ?thesis
    using assms by (simp add: ceph_oloc_decode_def ceph_has_room_def ceph_decode_8_def ceph_decode_64_def get_bytes_def not_less [symmetric] Let_def numeral_2_eq_2)
qed

theorem ceph_oloc_decode_overread_witness: "ceph_oloc_decode None ([3, 1] @ put_le 4 (0 :: u32)) 0 = Oops Bad_Access"
  using ceph_oloc_decode_overread [of 3 1 "[]" None] by simp

text \<open>
  When an OSD lifts a backoff, the requests in its range that no other backoff holds back are sent, in the order of their ids; requests that
  are paused are among them.
\<close>

theorem handle_backoff_unblock_resends:
  assumes "client_ok U osdc" and "find_osd osdc onum = Some osd" and "b \<in> installed (o_backoffs osd)" and "bo_id b = mb_id m"
  shows "\<exists>backoffs osdc'. uninstall_backoff (osdc_rb osdc) (o_backoffs osd) m = Ok (Some backoffs) \<and> installed backoffs = installed (o_backoffs osd) - {b} \<and>
     handle_backoff_unblock onum m osdc = Ok osdc' \<and> linked osdc' = linked osdc \<and> completed osdc' = completed osdc \<and>
     sends osdc' = sends osdc @ map (Pair onum) (filter (\<lambda>r. t_spgid (r_t (osdc_reqs osdc r)) = mb_spgid m \<and>
       target_contained_by (r_t (osdc_reqs osdc r)) (mb_begin m) (mb_end m) \<and> \<not> should_plug_request backoffs (r_t (osdc_reqs osdc r))) (o_requests osd))"
  using unblock_Ok [OF assms] unfolding ok_with_def by blast

section \<open>Runs of a client\<close>

lemma cancel_request_Ok:
  assumes ok: "client_ok U osdc" and req: "req \<in> U"
  shows "ok_with (ceph_osdc_cancel_request req osdc) (\<lambda>osdc'. client_ok U osdc' \<and> linked osdc' = linked osdc - {req} \<and> completed osdc' = completed osdc)"
proof (cases "r_osd (osdc_reqs osdc req)")
  case None
  then have "linked osdc - {req} = linked osdc" by (auto simp: linked_def)
  then show ?thesis using None ok by (simp add: ceph_osdc_cancel_request_def)
next
  case (Some onum)
  have "ok_with (cancel_request req osdc) (\<lambda>osdc'. client_ok U osdc' \<and> linked osdc' = linked osdc - {req} \<and> completed osdc' = completed osdc)"
    unfolding cancel_request_def
  proof (rule ok_with_bind [OF cancel_map_check_Ok [OF ok req]], elim conjE)
    fix o1 assume o1: "same_requests U osdc o1" "osdc_reqs o1 = osdc_reqs osdc"
    then have ok1: "client_ok U o1" by (simp add: same_requests_def step_def)
    show "ok_with (bind_outcome (finish_request req o1) (\<lambda>osdc. Ok (log_event (Op_Cancelled req) osdc)))
       (\<lambda>osdc'. client_ok U osdc' \<and> linked osdc' = linked osdc - {req} \<and> completed osdc' = completed osdc)"
    proof (rule ok_with_bind [OF finish_request_Ok [OF ok1]], elim conjE)
      fix o2 assume o2: "client_ok U o2"
        "moved req None o1 o2 \<or> r_osd (osdc_reqs o1 req) = None \<and> o2 = o1\<lparr>num_requests := num_requests o1 - 1\<rparr>"
      then have mv: "moved req None o1 o2" using Some o1(2) by simp
      have "linked o2 = linked osdc - {req}" "completed o2 = completed osdc"
        using moved_linked [OF mv] moved_completed [OF mv] o1(1) by (simp_all add: same_requests_def)
      then show "ok_with (Ok (log_event (Op_Cancelled req) o2)) (\<lambda>osdc'. client_ok U osdc' \<and> linked osdc' = linked osdc - {req} \<and> completed osdc' = completed osdc)"
        using o2(1) by simp
    qed
  qed
  then show ?thesis using Some by (simp add: ceph_osdc_cancel_request_def)
qed

text \<open>
  The runs of a client from \<open>osdc0\<close>, in any interleaving of its entry points; \<open>U\<close> are the requests that have been submitted. The conditions are
  those of the accounting theorems: requests are new, ids have not wrapped around, replies do not overrun their decoder, maps can be decoded
  and a broken connection belongs to an OSD of the map.
\<close>

inductive osdc_run :: "ceph_osd_client \<Rightarrow> nat set \<Rightarrow> ceph_osd_client \<Rightarrow> bool" for osdc0 where
  init: "osdc_run osdc0 {} osdc0"
| submit: "osdc_run osdc0 U osdc \<Longrightarrow> req \<notin> U \<Longrightarrow> target_ok (r_t (osdc_reqs osdc req)) \<Longrightarrow> osd_slot osdc (t_osd (r_t (osdc_reqs osdc req))) \<Longrightarrow>
    last_tid osdc \<noteq> - 1 \<Longrightarrow> ceph_osdc_start_request req osdc = Ok osdc' \<Longrightarrow> osdc_run osdc0 (insert req U) osdc'"
| reply: "osdc_run osdc0 U osdc \<Longrightarrow> last_tid osdc \<noteq> - 1 \<Longrightarrow>
    \<forall>req. r_osd (osdc_reqs osdc req) = Some onum \<and> tid_of osdc req = tid \<longrightarrow> req \<notin> set (map_checks osdc) \<and>
      (\<forall>f. decode_MOSDOpReply (oloc_pool_ns (t_target_oloc (r_t (osdc_reqs osdc req)))) version b \<noteq> Oops f) \<Longrightarrow>
    handle_reply onum tid version len b osdc = Ok osdc' \<Longrightarrow> osdc_run osdc0 U osdc'"
| maps: "osdc_run osdc0 U osdc \<Longrightarrow> codec_ok osdc codec \<Longrightarrow> message_maps codec b osdc = Ok (True, need_resend, osdc1) \<Longrightarrow>
    ceph_osdc_handle_map codec b osdc = Ok osdc' \<Longrightarrow> osdc_run osdc0 U osdc'"
| fault: "osdc_run osdc0 U osdc \<Longrightarrow> osd_registered osdc onum \<Longrightarrow> find_osd osdc onum = Some osd \<Longrightarrow> o_requests osd \<noteq> [] \<Longrightarrow>
    nat onum < length (osd_addr (osdc_osdmap osdc)) \<Longrightarrow> osd_addr (osdc_osdmap osdc) ! nat onum \<noteq> o_con_peer_addr osd \<or> o_con_opened osd \<Longrightarrow>
    osd_fault onum osdc = Ok osdc' \<Longrightarrow> osdc_run osdc0 U osdc'"
| idle: "osdc_run osdc0 U osdc \<Longrightarrow> handle_osds_timeout osdc = Ok osdc' \<Longrightarrow> osdc_run osdc0 U osdc'"
| cancel: "osdc_run osdc0 U osdc \<Longrightarrow> req \<in> U \<Longrightarrow> ceph_osdc_cancel_request req osdc = Ok osdc' \<Longrightarrow> osdc_run osdc0 U osdc'"
| abort: "osdc_run osdc0 U osdc \<Longrightarrow> ceph_osdc_abort_requests err osdc = Ok osdc' \<Longrightarrow> osdc_run osdc0 U osdc'"

definition completes_once :: "nat set \<Rightarrow> ceph_osd_client \<Rightarrow> bool" where
  "completes_once U osdc \<longleftrightarrow> client_ok U osdc \<and> distinct (completed osdc) \<and> set (completed osdc) \<inter> linked osdc = {} \<and> set (completed osdc) \<subseteq> U"

lemma completes_once_books:
  assumes "completes_once U osdc" and "client_ok U osdc'" and "books (linked osdc) (completed osdc) (linked osdc') (completed osdc') lost"
  shows "completes_once U osdc'"
proof -
  obtain dn where dn: "completed osdc' = completed osdc @ dn" "distinct dn" "linked osdc' \<union> set dn \<union> lost = linked osdc" "set dn \<inter> linked osdc' = {}"
    using assms(3) by (auto simp: books_def)
  then have "set dn \<subseteq> linked osdc" "linked osdc' \<subseteq> linked osdc" by auto
  then show ?thesis using assms(1,2) dn client_okD(5) [of U osdc] by (auto simp: completes_once_def)
qed

lemma completes_once_cong:
  "completes_once U osdc \<Longrightarrow> client_ok U osdc' \<Longrightarrow> linked osdc' \<subseteq> linked osdc \<Longrightarrow> completed osdc' = completed osdc \<Longrightarrow> completes_once U osdc'"
  by (auto simp: completes_once_def)

lemma completes_once_submitted:
  assumes "completes_once U osdc" and "submitted U req osdc osdc'" and "req \<notin> U"
  shows "completes_once (insert req U) osdc'"
proof -
  have "req \<notin> linked osdc" using assms(1,3) client_okD(5) by (auto simp: completes_once_def)
  moreover have "client_ok (insert req U) osdc'" "if req \<in> linked osdc' then linked osdc' = insert req (linked osdc) \<and> completed osdc' = completed osdc
      else linked osdc' = linked osdc \<and> completed osdc' = completed osdc @ [req]"
    using assms(2) unfolding submitted_def by (simp_all split: if_splits)
  ultimately show ?thesis using assms(1,3) by (auto simp: completes_once_def split: if_splits)
qed

lemma osdc_run_completes_once:
  assumes "osdc_run osdc0 U osdc" and "completes_once {} osdc0"
  shows "completes_once U osdc"
  using assms
proof induction
  case (submit U osdc req osdc')
  have "client_ok U osdc" using submit by (simp add: completes_once_def)
  from start_request_Ok [OF this submit(2-5)] submit(6) have "submitted U req osdc osdc'" by (simp add: ok_with_def)
  then show ?case using completes_once_submitted submit by blast
next
  case (reply U osdc onum tid version b len osdc')
  have "client_ok U osdc" using reply by (simp add: completes_once_def)
  from handle_reply_Ok [OF this reply(2), of onum tid version b len] reply(3,4)
  have "client_ok U osdc'" "books (linked osdc) (completed osdc) (linked osdc') (completed osdc') {}" by (auto simp: ok_with_def)
  then show ?case using completes_once_books reply by blast
next
  case (maps U osdc codec b need_resend osdc1 osdc')
  have "client_ok U osdc" using maps by (simp add: completes_once_def)
  from handle_map_Ok [OF this maps(2), of b] maps(3,4)
  obtain lost where "client_ok U osdc'" "books (linked osdc) (completed osdc) (linked osdc') (completed osdc') lost" by auto
  then show ?case using completes_once_books maps by blast
next
  case (fault U osdc onum osd osdc')
  have "client_ok U osdc" using fault by (simp add: completes_once_def)
  from osd_fault_Ok [OF this fault(2-6)] fault(7)
  have "client_ok U osdc'" "linked osdc' = linked osdc" "completed osdc' = completed osdc" by (simp_all add: ok_with_def)
  then show ?case using completes_once_cong [of U osdc osdc'] fault by simp
next
  case (idle U osdc osdc')
  have ok: "client_ok U osdc" using idle by (simp add: completes_once_def)
  from osds_timeout_Ok [OF this] idle(2)
  have "client_ok U osdc'" "linked osdc' = linked osdc" "completed osdc' = completed osdc" by (simp_all add: ok_with_def)
  then show ?case using completes_once_cong [of U osdc osdc'] idle by simp
next
  case (cancel U osdc req osdc')
  have "client_ok U osdc" using cancel by (simp add: completes_once_def)
  from cancel_request_Ok [OF this cancel(2)] cancel(3)
  have "client_ok U osdc'" "linked osdc' = linked osdc - {req}" "completed osdc' = completed osdc" by (simp_all add: ok_with_def)
  then show ?case using completes_once_cong [of U osdc osdc'] cancel by auto
next
  case (abort U osdc err osdc')
  have ok: "client_ok U osdc" using abort by (simp add: completes_once_def)
  from abort_requests_Ok [OF this, of err] abort(2)
  have r: "client_ok U osdc'" "linked osdc' = {}" "completed osdc' = completed osdc @ all_requests osdc" by (simp_all add: ok_with_def)
  have "books (linked osdc) (completed osdc) (linked osdc') (completed osdc') {}"
    using r all_requests_eq [OF ok] by (auto simp: books_def)
  then show ?case using completes_once_books abort r(1) by blast
qed


text \<open>A client without requests.\<close>

definition fresh_client :: ceph_osd_client where
  "fresh_client = (sample_client [])\<lparr>osdc_reqs := (\<lambda>_. sample_request None 2 0), osds := []\<rparr>"

lemma fresh_client_ok: "client_ok {} fresh_client" "completed fresh_client = []"
proof -
  have find: "find_osd fresh_client onum = (if onum = CEPH_HOMELESS_OSD then Some (create_osd CEPH_HOMELESS_OSD sample_addr) else None)" for onum
    by (simp add: find_osd_def fresh_client_def sample_client_def)
  have sel: "linked fresh_client = {}" "map_checks fresh_client = []" "osds fresh_client = []" "osd_lru fresh_client = []" "osdc_rb fresh_client = sample_rb"
    "\<And>r. r_osd (osdc_reqs fresh_client r) = None"
    by (simp_all add: linked_def fresh_client_def sample_client_def sample_request_def)
  have "maps_good fresh_client" using sample_client_maps [of "[]"] maps_good_cong [of fresh_client "sample_client []"] by (simp add: fresh_client_def)
  then show "client_ok {} fresh_client"
    using sample_rb_ok create_osd_session [of fresh_client CEPH_HOMELESS_OSD sample_addr] by (simp add: client_ok_def sel find)
  show "completed fresh_client = []" by (simp add: completed_def fresh_client_def sample_client_def)
qed


end
