(* ===== verification/RbdDevice.thy ===== *)
theory RbdDevice
  imports Striper Codec
begin

text \<open>
  The RADOS block device (\<open>rbd/rbd.c\<close>), first part: the device, image requests and object requests
  as records, the object map, the extents of an object in the parent image, and the preparation
  of an object request for each operation.

  Pointers between a device, its image requests and their object requests become arguments. The
  calls into the allocator and into libceph that can fail take their results from the list
  \<open>w_rets\<close>, one entry for each call (0 for success, otherwise a negative errno; the calls succeed
  when the list is used up). What a function hands to libceph or to the parent image is recorded
  in \<open>w_log\<close>, and the ranges of the data buffer it zeroes in \<open>w_zeroed\<close>. \<open>rbd_assert\<close> is active in this
  driver: a failed assertion is the fault \<open>Bug_On\<close>.
\<close>

unbundle bit_operations_syntax

section \<open>Data\<close>

abbreviation (input) RBD_FEATURE_EXCLUSIVE_LOCK :: u64 where "RBD_FEATURE_EXCLUSIVE_LOCK \<equiv> 4"
abbreviation (input) RBD_FEATURE_OBJECT_MAP :: u64 where "RBD_FEATURE_OBJECT_MAP \<equiv> 8"
abbreviation (input) RBD_FEATURE_FAST_DIFF :: u64 where "RBD_FEATURE_FAST_DIFF \<equiv> 16"
abbreviation (input) RBD_FLAG_OBJECT_MAP_INVALID :: u64 where "RBD_FLAG_OBJECT_MAP_INVALID \<equiv> 1"
abbreviation (input) CEPH_NOSNAP :: u64 where "CEPH_NOSNAP \<equiv> - 2"
abbreviation (input) OBJECT_NONEXISTENT :: u8 where "OBJECT_NONEXISTENT \<equiv> 0"
abbreviation (input) OBJECT_EXISTS :: u8 where "OBJECT_EXISTS \<equiv> 1"
abbreviation (input) OBJECT_PENDING :: u8 where "OBJECT_PENDING \<equiv> 2"
abbreviation (input) OBJECT_EXISTS_CLEAN :: u8 where "OBJECT_EXISTS_CLEAN \<equiv> 3"
abbreviation (input) RET_ENOENT :: int where "RET_ENOENT \<equiv> - 2"
abbreviation (input) RET_ENOMEM :: int where "RET_ENOMEM \<equiv> - 12"
abbreviation (input) RET_EROFS :: int where "RET_EROFS \<equiv> - 30"

datatype obj_request_type = OBJ_REQUEST_NODATA | OBJ_REQUEST_BIO | OBJ_REQUEST_BVECS | OBJ_REQUEST_OWN_BVECS

datatype obj_operation_type = OBJ_OP_READ | OBJ_OP_WRITE | OBJ_OP_DISCARD | OBJ_OP_ZEROOUT

datatype obj_flag =
    RBD_OBJ_FLAG_DELETION | RBD_OBJ_FLAG_COPYUP_ENABLED | RBD_OBJ_FLAG_COPYUP_ZEROS
  | RBD_OBJ_FLAG_MAY_EXIST | RBD_OBJ_FLAG_NOOP_FOR_NONEXISTENT

datatype rbd_obj_read_state = RBD_OBJ_READ_START | RBD_OBJ_READ_OBJECT | RBD_OBJ_READ_PARENT

text \<open>The states whose C name starts with two underscores are those with \<open>_PENDING\<close> at the end.\<close>

datatype rbd_obj_write_state =
    RBD_OBJ_WRITE_START | RBD_OBJ_WRITE_PRE_OBJECT_MAP | RBD_OBJ_WRITE_OBJECT
  | RBD_OBJ_WRITE_COPYUP_PENDING | RBD_OBJ_WRITE_COPYUP | RBD_OBJ_WRITE_POST_OBJECT_MAP

datatype rbd_obj_copyup_state =
    RBD_OBJ_COPYUP_START | RBD_OBJ_COPYUP_READ_PARENT
  | RBD_OBJ_COPYUP_OBJECT_MAPS_PENDING | RBD_OBJ_COPYUP_OBJECT_MAPS
  | RBD_OBJ_COPYUP_WRITE_OBJECT_PENDING | RBD_OBJ_COPYUP_WRITE_OBJECT

datatype rbd_img_state =
    RBD_IMG_START | RBD_IMG_EXCLUSIVE_LOCK | RBD_IMG_OBJECT_REQUESTS_PENDING | RBD_IMG_OBJECT_REQUESTS

datatype rbd_lock_state = RBD_LOCK_STATE_UNLOCKED | RBD_LOCK_STATE_LOCKED | RBD_LOCK_STATE_RELEASING

record pending_result =
  pr_result :: int
  num_pending :: nat

text \<open>A page of copyup data.\<close>

record bio_vec =
  bv_len :: u32
  bv_data :: "u8 list"

record rbd_obj_request =
  obj_ex :: ceph_object_extent
  obj_flags :: "obj_flag set"
  read_state :: rbd_obj_read_state
  write_state :: rbd_obj_write_state
  img_extents :: "ceph_file_extent list"
  bvec_bytes :: u64
  bvec_count :: u32
  bvec_idx :: u32
  copyup_state :: rbd_obj_copyup_state
  copyup_bvecs :: "bio_vec list option"
  obj_pending :: pending_result

record rbd_img_request =
  img_op_type :: obj_operation_type
  img_data_type :: obj_request_type
  img_child :: bool
  img_state :: rbd_img_state
  img_snaps :: "u64 list"
  img_pending :: pending_result

record rbd_device =
  dev_features :: u64
  dev_readonly :: bool
  dev_snap_id :: u64
  dev_layout :: ceph_file_layout
  dev_alloc_size :: u32
  dev_lock_on_read :: bool
  dev_exclusive :: bool
  dev_lock_state :: rbd_lock_state
  object_map :: "u8 list"
  object_map_size :: u64
  object_map_flags :: u64
  parent_overlap :: u64

text \<open>What is handed out: requests to the OSDs with their operations, updates of object maps, reads of the parent image.\<close>

datatype osd_op =
    CEPH_OSD_OP_READ u64 u64 | CEPH_OSD_OP_STAT | RBD_COPYUP u32 | CEPH_OSD_OP_SETALLOCHINT
  | CEPH_OSD_OP_WRITE u64 u64 | CEPH_OSD_OP_WRITEFULL u64 u64
  | CEPH_OSD_OP_TRUNCATE u64 u64 | CEPH_OSD_OP_ZERO u64 u64 | CEPH_OSD_OP_CREATE | CEPH_OSD_OP_DELETE

datatype submission =
    Osd_request "u64 list option" nat "osd_op list"
  | Map_update u64 nat "u8 list"
  | Parent_read "ceph_file_extent list"

record world =
  w_rets :: "int list"
  w_log :: "submission list"
  w_zeroed :: "(u32 \<times> u32) list"

definition call :: "world \<Rightarrow> int \<times> world" where
  "call w = (case w_rets w of [] \<Rightarrow> (0, w) | r # rs \<Rightarrow> (r, w\<lparr>w_rets := rs\<rparr>))"

definition submit :: "submission \<Rightarrow> world \<Rightarrow> world" where
  "submit s w = w\<lparr>w_log := w_log w @ [s]\<rparr>"

definition neg_errno :: "errno \<Rightarrow> int" where
  "neg_errno e = (case e of EPERM \<Rightarrow> - 1 | ENOENT \<Rightarrow> - 2 | EIO \<Rightarrow> - 5 | ENXIO \<Rightarrow> - 6 | E2BIG \<Rightarrow> - 7 | EAGAIN \<Rightarrow> - 11
     | ENOMEM \<Rightarrow> - 12 | EEXIST \<Rightarrow> - 17 | EINVAL \<Rightarrow> - 22 | EROFS \<Rightarrow> - 30 | ERANGE \<Rightarrow> - 34 | ENODATA \<Rightarrow> - 61
     | EBADMSG \<Rightarrow> - 74 | EOPNOTSUPP \<Rightarrow> - 95 | EBLOCKLISTED \<Rightarrow> - 108 | ETIMEDOUT \<Rightarrow> - 110)"

definition rbd_assert :: "bool \<Rightarrow> 'a outcome \<Rightarrow> 'a outcome" where
  "rbd_assert c k = (if c then k else Oops Bug_On)"

section \<open>Requests\<close>

text \<open>Returns whether nothing else is pending, and the result.\<close>

definition pending_result_dec :: "pending_result \<Rightarrow> int \<Rightarrow> (bool \<times> int \<times> pending_result) outcome" where
  "pending_result_dec pending result =
     rbd_assert (num_pending pending > 0)
       (let pending = (if result \<noteq> 0 \<and> pr_result pending = 0 then pending\<lparr>pr_result := result\<rparr> else pending);
            pending = pending\<lparr>num_pending := num_pending pending - 1\<rparr> in
        if num_pending pending \<noteq> 0 then Ok (False, result, pending)
        else Ok (True, pr_result pending, pending))"

definition rbd_is_ro :: "rbd_device \<Rightarrow> bool" where
  "rbd_is_ro dev = dev_readonly dev"

definition rbd_is_snap :: "rbd_device \<Rightarrow> bool" where
  "rbd_is_snap dev \<longleftrightarrow> dev_snap_id dev \<noteq> CEPH_NOSNAP"

definition rbd_is_lock_owner :: "rbd_device \<Rightarrow> bool" where
  "rbd_is_lock_owner dev \<longleftrightarrow>
     dev_lock_state dev = RBD_LOCK_STATE_LOCKED \<or> dev_lock_state dev = RBD_LOCK_STATE_RELEASING"

definition rbd_obj_is_entire :: "rbd_device \<Rightarrow> rbd_obj_request \<Rightarrow> bool" where
  "rbd_obj_is_entire dev obj \<longleftrightarrow>
     oe_off (obj_ex obj) = 0 \<and> oe_len (obj_ex obj) = ucast (object_size (dev_layout dev))"

definition rbd_obj_is_tail :: "rbd_device \<Rightarrow> rbd_obj_request \<Rightarrow> bool" where
  "rbd_obj_is_tail dev obj \<longleftrightarrow>
     oe_off (obj_ex obj) + oe_len (obj_ex obj) = ucast (object_size (dev_layout dev))"

definition rbd_obj_copyup_enabled :: "rbd_device \<Rightarrow> rbd_img_request \<Rightarrow> rbd_obj_request \<Rightarrow> bool" where
  "rbd_obj_copyup_enabled dev img obj =
     (if img_extents obj = [] \<or> rbd_obj_is_entire dev obj \<and> img_snaps img = [] then False else True)"

definition rbd_obj_img_extents_bytes :: "rbd_obj_request \<Rightarrow> u64" where
  "rbd_obj_img_extents_bytes obj = ceph_file_extents_bytes (img_extents obj)"

definition rbd_img_is_write :: "rbd_img_request \<Rightarrow> bool" where
  "rbd_img_is_write img =
     (case img_op_type img of
        OBJ_OP_READ \<Rightarrow> False | OBJ_OP_WRITE \<Rightarrow> True | OBJ_OP_DISCARD \<Rightarrow> True | OBJ_OP_ZEROOUT \<Rightarrow> True)"

text \<open>The result that \<open>rbd_osd_req_callback\<close> passes on.\<close>

definition rbd_osd_req_result :: "rbd_img_request \<Rightarrow> int \<Rightarrow> int" where
  "rbd_osd_req_result img r_result = (if r_result > 0 \<and> rbd_img_is_write img then 0 else r_result)"

section \<open>The object map\<close>

definition rbd_object_map_index :: "rbd_device \<Rightarrow> u64 \<Rightarrow> (u64 \<times> nat) outcome" where
  "rbd_object_map_index dev objno =
     rbd_assert (objno < object_map_size dev)
       (bind_outcome (div_u64_rem objno 4) (\<lambda>(index, off). Ok (index, unat ((4 - off - 1) * 2))))"

text \<open>\<open>__rbd_object_map_get\<close> and \<open>__rbd_object_map_set\<close>: two bits for each object, the first one in the high bits.\<close>

definition rbd_object_map_get :: "rbd_device \<Rightarrow> u64 \<Rightarrow> u8 outcome" where
  "rbd_object_map_get dev objno =
     bind_outcome (rbd_object_map_index dev objno) (\<lambda>(index, shift).
     bind_outcome (aref (object_map dev) (unat index)) (\<lambda>b. Ok (drop_bit shift b AND 3)))"

definition rbd_object_map_set :: "rbd_device \<Rightarrow> u64 \<Rightarrow> u8 \<Rightarrow> rbd_device outcome" where
  "rbd_object_map_set dev objno val =
     rbd_assert (val AND NOT 3 = 0)
       (bind_outcome (rbd_object_map_index dev objno) (\<lambda>(index, shift).
        bind_outcome (aref (object_map dev) (unat index)) (\<lambda>b.
        bind_outcome (aset (object_map dev) (unat index) (b AND NOT (push_bit shift 3) OR push_bit shift val)) (\<lambda>m.
          Ok (dev\<lparr>object_map := m\<rparr>)))))"

definition use_object_map :: "rbd_device \<Rightarrow> bool" where
  "use_object_map dev =
     (if \<not> rbd_is_snap dev \<and> rbd_is_ro dev then False
      else dev_features dev AND RBD_FEATURE_OBJECT_MAP \<noteq> 0 \<and>
        object_map_flags dev AND RBD_FLAG_OBJECT_MAP_INVALID = 0)"

definition rbd_object_map_may_exist :: "rbd_device \<Rightarrow> u64 \<Rightarrow> bool outcome" where
  "rbd_object_map_may_exist dev objno =
     (if \<not> use_object_map dev then Ok True
      else bind_outcome (rbd_object_map_get dev objno) (\<lambda>state. Ok (state \<noteq> OBJECT_NONEXISTENT)))"

definition update_needed :: "rbd_device \<Rightarrow> u64 \<Rightarrow> u8 \<Rightarrow> bool outcome" where
  "update_needed dev objno new_state =
     bind_outcome (rbd_object_map_get dev objno) (\<lambda>state.
       Ok (\<not> (state = new_state \<or>
              new_state = OBJECT_PENDING \<and> state = OBJECT_NONEXISTENT \<or>
              new_state = OBJECT_NONEXISTENT \<and> state \<noteq> OBJECT_PENDING)))"

text \<open>The request data of an update, and its preparation (two calls that can fail).\<close>

definition object_map_update_data :: "u64 \<Rightarrow> u8 \<Rightarrow> u8 option \<Rightarrow> u8 list" where
  "object_map_update_data objno new_state current_state =
     put_le 8 objno @ put_le 8 (objno + 1) @ [new_state] @
     (case current_state of Some c \<Rightarrow> [1] @ [c] | None \<Rightarrow> [0])"

definition rbd_cls_object_map_update :: "u64 \<Rightarrow> u8 \<Rightarrow> u8 option \<Rightarrow> world \<Rightarrow> int \<times> u8 list \<times> world" where
  "rbd_cls_object_map_update objno new_state current_state w =
     (let (ret, w) = call w in
      if ret \<noteq> 0 then (ret, [], w)
      else let (ret, w) = call w in
        if ret \<noteq> 0 then (ret, [], w)
        else (0, object_map_update_data objno new_state current_state, w))"

text \<open>0: the update is sent; 1: it isn't needed; negative: an error.\<close>

definition rbd_object_map_update ::
    "rbd_device \<Rightarrow> rbd_obj_request \<Rightarrow> u64 \<Rightarrow> u8 \<Rightarrow> u8 option \<Rightarrow> world \<Rightarrow> (int \<times> world) outcome" where
  "rbd_object_map_update dev obj snap_id new_state current_state w =
     bind_outcome
       (if snap_id = CEPH_NOSNAP then update_needed dev (oe_objno (obj_ex obj)) new_state else Ok True)
       (\<lambda>needed.
         if \<not> needed then Ok (1, w)
         else
           let (ret, w) = call w in
           if ret \<noteq> 0 then Ok (RET_ENOMEM, w)
           else
             let (ret, w) = (if snap_id = CEPH_NOSNAP then call w else (0, w)) in
             if ret \<noteq> 0 then Ok (ret, w)
             else
               let (ret, data, w) = rbd_cls_object_map_update (oe_objno (obj_ex obj)) new_state current_state w in
               if ret \<noteq> 0 then Ok (ret, w)
               else
                 let (ret, w) = call w in
                 if ret \<noteq> 0 then Ok (ret, w)
                 else Ok (0, submit (Map_update snap_id (if snap_id = CEPH_NOSNAP then 2 else 1) data) w))"

definition rbd_object_map_update_finish ::
    "rbd_device \<Rightarrow> rbd_obj_request \<Rightarrow> int \<Rightarrow> nat \<Rightarrow> u8 list \<Rightarrow> (int \<times> rbd_device) outcome" where
  "rbd_object_map_update_finish dev obj r_result num_ops data =
     (if r_result \<noteq> 0 then Ok (r_result, dev)
      else if num_ops = 1 then Ok (0, dev)
      else rbd_assert (num_ops = 2)
        (bind_outcome (ceph_decode_64 data 0) (\<lambda>(objno, p).
         rbd_assert (objno = oe_objno (obj_ex obj))
         (bind_outcome (ceph_decode_64 data p) (\<lambda>(next_objno, p).
          rbd_assert (next_objno = objno + 1)
          (bind_outcome (ceph_decode_8 data p) (\<lambda>(new_state, p).
           bind_outcome (ceph_decode_8 data p) (\<lambda>(has_current_state, p).
           bind_outcome
             (if has_current_state \<noteq> 0
              then bind_outcome (ceph_decode_8 data p) (\<lambda>(current_state, p). Ok (Some current_state))
              else Ok None) (\<lambda>current_state.
           bind_outcome (rbd_object_map_get dev objno) (\<lambda>state.
             if current_state = None \<or> current_state = Some state \<or>
                current_state = Some OBJECT_EXISTS \<and> state = OBJECT_EXISTS_CLEAN
             then bind_outcome (rbd_object_map_set dev objno new_state) (\<lambda>dev. Ok (0, dev))
             else Ok (0, dev)))))))))))"

section \<open>Extents in the parent image\<close>

fun prune_count :: "ceph_file_extent list \<Rightarrow> u64 \<Rightarrow> nat \<Rightarrow> nat" where
  "prune_count fes overlap 0 = 0"
| "prune_count fes overlap (Suc cnt) =
     (if fe_off (fes ! cnt) \<ge> overlap then prune_count fes overlap cnt else Suc cnt)"

definition prune_extents :: "ceph_file_extent list \<Rightarrow> u64 \<Rightarrow> ceph_file_extent list" where
  "prune_extents fes overlap =
     (let cnt = prune_count fes overlap (length fes); fes = take cnt fes in
      if cnt > 0 then
        let ex = last fes in
        if fe_off ex + fe_len ex > overlap
        then butlast fes @ [ex\<lparr>fe_len := overlap - fe_off ex\<rparr>]
        else fes
      else fes)"

definition rbd_obj_calc_img_extents ::
    "rbd_device \<Rightarrow> rbd_obj_request \<Rightarrow> bool \<Rightarrow> world \<Rightarrow> (int \<times> rbd_obj_request \<times> world) outcome" where
  "rbd_obj_calc_img_extents dev obj entire w =
     (if parent_overlap dev = 0 then Ok (0, obj, w)
      else
        let (ret, w) = call w; ex = obj_ex obj in
        case ceph_extent_to_file (\<lambda>_. ret = 0) (dev_layout dev) (oe_objno ex)
               (if entire then 0 else oe_off ex)
               (if entire then ucast (object_size (dev_layout dev)) else oe_len ex) of
          Ok fes \<Rightarrow> Ok (0, obj\<lparr>img_extents := prune_extents fes (parent_overlap dev)\<rparr>, w)
        | Err e \<Rightarrow> Ok (neg_errno e, obj, w)
        | Oops f \<Rightarrow> Oops f)"

section \<open>Preparing object requests\<close>

definition rbd_osd_setup_data :: "rbd_img_request \<Rightarrow> rbd_obj_request \<Rightarrow> 'a outcome \<Rightarrow> 'a outcome" where
  "rbd_osd_setup_data img obj k =
     (case img_data_type img of
        OBJ_REQUEST_BIO \<Rightarrow> k
      | OBJ_REQUEST_NODATA \<Rightarrow> Oops Bug_On
      | _ \<Rightarrow> rbd_assert (bvec_bytes obj = oe_len (obj_ex obj) \<and> bvec_idx obj = bvec_count obj) k)"

definition rbd_obj_init_read :: "rbd_obj_request \<Rightarrow> rbd_obj_request" where
  "rbd_obj_init_read obj = obj\<lparr>read_state := RBD_OBJ_READ_START\<rparr>"

definition rbd_osd_setup_write_only_ops ::
    "rbd_device \<Rightarrow> rbd_img_request \<Rightarrow> rbd_obj_request \<Rightarrow> osd_op list outcome" where
  "rbd_osd_setup_write_only_ops dev img obj =
     (let ex = obj_ex obj;
          hint = (if \<not> use_object_map dev \<or> RBD_OBJ_FLAG_MAY_EXIST \<notin> obj_flags obj
                  then [CEPH_OSD_OP_SETALLOCHINT] else []);
          write = (if rbd_obj_is_entire dev obj then CEPH_OSD_OP_WRITEFULL (oe_off ex) (oe_len ex)
                   else CEPH_OSD_OP_WRITE (oe_off ex) (oe_len ex)) in
      rbd_osd_setup_data img obj (Ok (hint @ [write])))"

definition rbd_obj_init_write ::
    "rbd_device \<Rightarrow> rbd_img_request \<Rightarrow> rbd_obj_request \<Rightarrow> world \<Rightarrow> (int \<times> rbd_obj_request \<times> world) outcome" where
  "rbd_obj_init_write dev img obj w =
     bind_outcome (rbd_obj_calc_img_extents dev obj True w) (\<lambda>(ret, obj, w).
       if ret \<noteq> 0 then Ok (ret, obj, w)
       else
         let obj = (if rbd_obj_copyup_enabled dev img obj
                    then obj\<lparr>obj_flags := insert RBD_OBJ_FLAG_COPYUP_ENABLED (obj_flags obj)\<rparr> else obj) in
         Ok (0, obj\<lparr>write_state := RBD_OBJ_WRITE_START\<rparr>, w))"

definition truncate_or_zero_op :: "rbd_device \<Rightarrow> rbd_obj_request \<Rightarrow> osd_op" where
  "truncate_or_zero_op dev obj =
     (let ex = obj_ex obj in
      if rbd_obj_is_tail dev obj then CEPH_OSD_OP_TRUNCATE (oe_off ex) (oe_len ex)
      else CEPH_OSD_OP_ZERO (oe_off ex) (oe_len ex))"

definition rbd_osd_setup_discard_ops :: "rbd_device \<Rightarrow> rbd_obj_request \<Rightarrow> osd_op list outcome" where
  "rbd_osd_setup_discard_ops dev obj =
     (if rbd_obj_is_entire dev obj \<and> img_extents obj = [] then
        rbd_assert (RBD_OBJ_FLAG_DELETION \<in> obj_flags obj) (Ok [CEPH_OSD_OP_DELETE])
      else Ok [truncate_or_zero_op dev obj])"

text \<open>The kernel's rounding macros for a power of two.\<close>

definition round_up :: "u64 \<Rightarrow> u32 \<Rightarrow> u64" where
  "round_up x y = (x - 1 OR ucast (y - 1)) + 1"

definition round_down :: "u64 \<Rightarrow> u32 \<Rightarrow> u64" where
  "round_down x y = x AND NOT (ucast (y - 1))"

text \<open>1: the discard is too small and the object request is dropped.\<close>

definition rbd_obj_init_discard ::
    "rbd_device \<Rightarrow> rbd_obj_request \<Rightarrow> world \<Rightarrow> (int \<times> rbd_obj_request \<times> world) outcome" where
  "rbd_obj_init_discard dev obj w =
     (let ex = obj_ex obj;
          align = dev_alloc_size dev \<noteq> object_size (dev_layout dev) \<or> \<not> rbd_obj_is_tail dev obj;
          off = round_up (oe_off ex) (dev_alloc_size dev);
          next_off = round_down (oe_off ex + oe_len ex) (dev_alloc_size dev) in
      if align \<and> off \<ge> next_off then Ok (1, obj, w)
      else
        let obj = (if align then obj\<lparr>obj_ex := ex\<lparr>oe_off := off, oe_len := next_off - off\<rparr>\<rparr> else obj) in
        bind_outcome (rbd_obj_calc_img_extents dev obj True w) (\<lambda>(ret, obj, w).
          if ret \<noteq> 0 then Ok (ret, obj, w)
          else
            let obj = obj\<lparr>obj_flags := insert RBD_OBJ_FLAG_NOOP_FOR_NONEXISTENT (obj_flags obj)\<rparr>;
                obj = (if rbd_obj_is_entire dev obj \<and> img_extents obj = []
                       then obj\<lparr>obj_flags := insert RBD_OBJ_FLAG_DELETION (obj_flags obj)\<rparr> else obj) in
            Ok (0, obj\<lparr>write_state := RBD_OBJ_WRITE_START\<rparr>, w)))"

definition rbd_osd_setup_zeroout_ops :: "rbd_device \<Rightarrow> rbd_obj_request \<Rightarrow> osd_op list outcome" where
  "rbd_osd_setup_zeroout_ops dev obj =
     (let ex = obj_ex obj in
      if rbd_obj_is_entire dev obj then
        if img_extents obj \<noteq> [] then
          Ok ((if RBD_OBJ_FLAG_COPYUP_ENABLED \<notin> obj_flags obj then [CEPH_OSD_OP_CREATE] else []) @
              [CEPH_OSD_OP_TRUNCATE (oe_off ex) (oe_len ex)])
        else rbd_assert (RBD_OBJ_FLAG_DELETION \<in> obj_flags obj) (Ok [CEPH_OSD_OP_DELETE])
      else Ok [truncate_or_zero_op dev obj])"

definition rbd_obj_init_zeroout ::
    "rbd_device \<Rightarrow> rbd_img_request \<Rightarrow> rbd_obj_request \<Rightarrow> world \<Rightarrow> (int \<times> rbd_obj_request \<times> world) outcome" where
  "rbd_obj_init_zeroout dev img obj w =
     bind_outcome (rbd_obj_calc_img_extents dev obj True w) (\<lambda>(ret, obj, w).
       if ret \<noteq> 0 then Ok (ret, obj, w)
       else
         let obj = (if rbd_obj_copyup_enabled dev img obj
                    then obj\<lparr>obj_flags := insert RBD_OBJ_FLAG_COPYUP_ENABLED (obj_flags obj)\<rparr> else obj);
             obj = (if img_extents obj = [] then
                      let obj = obj\<lparr>obj_flags := insert RBD_OBJ_FLAG_NOOP_FOR_NONEXISTENT (obj_flags obj)\<rparr> in
                      if rbd_obj_is_entire dev obj
                      then obj\<lparr>obj_flags := insert RBD_OBJ_FLAG_DELETION (obj_flags obj)\<rparr> else obj
                    else obj) in
         Ok (0, obj\<lparr>write_state := RBD_OBJ_WRITE_START\<rparr>, w))"

definition count_write_ops :: "rbd_device \<Rightarrow> rbd_img_request \<Rightarrow> rbd_obj_request \<Rightarrow> nat outcome" where
  "count_write_ops dev img obj =
     (case img_op_type img of
        OBJ_OP_WRITE \<Rightarrow> Ok (if \<not> use_object_map dev \<or> RBD_OBJ_FLAG_MAY_EXIST \<notin> obj_flags obj then 2 else 1)
      | OBJ_OP_DISCARD \<Rightarrow> Ok 1
      | OBJ_OP_ZEROOUT \<Rightarrow>
          Ok (if rbd_obj_is_entire dev obj \<and> img_extents obj \<noteq> [] \<and> RBD_OBJ_FLAG_COPYUP_ENABLED \<notin> obj_flags obj
              then 2 else 1)
      | OBJ_OP_READ \<Rightarrow> Oops Bug_On)"

definition rbd_osd_setup_write_ops ::
    "rbd_device \<Rightarrow> rbd_img_request \<Rightarrow> rbd_obj_request \<Rightarrow> osd_op list outcome" where
  "rbd_osd_setup_write_ops dev img obj =
     (case img_op_type img of
        OBJ_OP_WRITE \<Rightarrow> rbd_osd_setup_write_only_ops dev img obj
      | OBJ_OP_DISCARD \<Rightarrow> rbd_osd_setup_discard_ops dev obj
      | OBJ_OP_ZEROOUT \<Rightarrow> rbd_osd_setup_zeroout_ops dev obj
      | OBJ_OP_READ \<Rightarrow> Oops Bug_On)"

text \<open>One object request of \<open>__rbd_img_fill_request\<close>, then the loop, which drops the requests with nothing to do.\<close>

definition rbd_obj_init ::
    "rbd_device \<Rightarrow> rbd_img_request \<Rightarrow> rbd_obj_request \<Rightarrow> world \<Rightarrow> (int \<times> rbd_obj_request \<times> world) outcome" where
  "rbd_obj_init dev img obj w =
     (case img_op_type img of
        OBJ_OP_READ \<Rightarrow> Ok (0, rbd_obj_init_read obj, w)
      | OBJ_OP_WRITE \<Rightarrow> rbd_obj_init_write dev img obj w
      | OBJ_OP_DISCARD \<Rightarrow> rbd_obj_init_discard dev obj w
      | OBJ_OP_ZEROOUT \<Rightarrow> rbd_obj_init_zeroout dev img obj w)"

fun img_fill_loop ::
    "rbd_device \<Rightarrow> rbd_img_request \<Rightarrow> rbd_obj_request list \<Rightarrow> world \<Rightarrow> (int \<times> rbd_obj_request list \<times> world) outcome" where
  "img_fill_loop dev img [] w = Ok (0, [], w)"
| "img_fill_loop dev img (obj # objs) w =
     bind_outcome (rbd_obj_init dev img obj w) (\<lambda>(ret, obj, w).
       if ret < 0 then Ok (ret, obj # objs, w)
       else
         bind_outcome (img_fill_loop dev img objs w) (\<lambda>(ret', objs, w).
           Ok (ret', (if ret > 0 then objs else obj # objs), w)))"

definition rbd_img_fill_requests ::
    "rbd_device \<Rightarrow> rbd_img_request \<Rightarrow> rbd_obj_request list \<Rightarrow> world \<Rightarrow>
     (int \<times> rbd_img_request \<times> rbd_obj_request list \<times> world) outcome" where
  "rbd_img_fill_requests dev img objs w =
     bind_outcome (img_fill_loop dev img objs w) (\<lambda>(ret, objs, w).
       if ret \<noteq> 0 then Ok (ret, img, objs, w) else Ok (0, img\<lparr>img_state := RBD_IMG_START\<rparr>, objs, w))"

section \<open>Arrays of states\<close>

text \<open>
  The interface of an array with bounded values: \<open>within\<close> says which indices it has and \<open>fits\<close> which values;
  reading and writing inside the bounds succeeds, and a write changes one entry.
\<close>

locale state_array =
  fixes within :: "'m \<Rightarrow> 'k \<Rightarrow> bool" and fits :: "'v \<Rightarrow> bool"
    and get :: "'m \<Rightarrow> 'k \<Rightarrow> 'v outcome" and put :: "'m \<Rightarrow> 'k \<Rightarrow> 'v \<Rightarrow> 'm outcome"
  assumes get_Ok: "within m k \<Longrightarrow> \<exists>v. get m k = Ok v \<and> fits v"
    and put_Ok: "within m k \<Longrightarrow> fits v \<Longrightarrow> \<exists>m'. put m k v = Ok m'"
    and within_put: "put m k v = Ok m' \<Longrightarrow> within m' k' = within m k'"
    and get_put: "put m k v = Ok m' \<Longrightarrow> within m k \<Longrightarrow> within m k' \<Longrightarrow> get m' k' = (if k' = k then Ok v else get m k')"
begin

text \<open>The abstract array: a function from the indices to the values.\<close>

definition view :: "'m \<Rightarrow> 'k \<Rightarrow> 'v option" where
  "view m k = (if within m k then (case get m k of Ok v \<Rightarrow> Some v | _ \<Rightarrow> None) else None)"

lemma view_Some: "within m k \<Longrightarrow> \<exists>v. view m k = Some v \<and> get m k = Ok v \<and> fits v"
  using get_Ok [of m k] by (auto simp: view_def)

lemma view_put:
  assumes "within m k" and "put m k v = Ok m'"
  shows "view m' = (view m)(k \<mapsto> v)"
proof
  fix k'
  show "view m' k' = ((view m)(k \<mapsto> v)) k'"
    using within_put [OF assms(2), of k'] within_put [OF assms(2), of k] get_put [OF assms(2,1), of k'] assms(1)
    by (auto simp: view_def)
qed

end

section \<open>The object map as an array\<close>

definition map_within :: "rbd_device \<Rightarrow> u64 \<Rightarrow> bool" where
  "map_within dev objno \<longleftrightarrow> objno < object_map_size dev \<and> unat (object_map_size dev) \<le> 4 * length (object_map dev)"

definition two_bits :: "u8 \<Rightarrow> bool" where
  "two_bits v \<longleftrightarrow> v AND NOT 3 = 0"

lemma three: "(3 :: u8) = mask 2"
  by (simp add: mask_eq_exp_minus_1)

lemmas bit_packed = bit_and_iff bit_or_iff bit_not_iff bit_drop_bit_eq bit_push_bit_iff bit_mask_iff

lemma two_bits_iff: "two_bits v \<longleftrightarrow> (\<forall>i. bit v i \<longrightarrow> i < 2)"
proof
  assume z: "two_bits v"
  show "\<forall>i. bit v i \<longrightarrow> i < 2"
  proof (intro allI impI)
    fix i
    assume b: "bit v i"
    then have "i < 8" using bit_imp_le_length by fastforce
    moreover have "\<not> bit (v AND NOT (mask 2)) i" using z by (simp add: two_bits_def three)
    ultimately show "i < 2" using b by (auto simp: bit_packed)
  qed
next
  assume a: "\<forall>i. bit v i \<longrightarrow> i < 2"
  show "two_bits v"
    unfolding two_bits_def three by (rule bit_word_eqI) (use a in \<open>auto simp: bit_packed\<close>)
qed

lemma two_bits_get: "two_bits (drop_bit s b AND 3)"
  unfolding three by (auto simp: two_bits_iff bit_packed)

lemma packed_same:
  assumes "two_bits v" and "s \<le> 6"
  shows "drop_bit s (b AND NOT (push_bit s 3) OR push_bit s v) AND 3 = v"
  unfolding three
proof (rule bit_word_eqI)
  fix i
  assume "i < LENGTH(8)"
  then show "bit (drop_bit s (b AND NOT (push_bit s (mask 2)) OR push_bit s v) AND mask 2) i = bit v i"
    using assms by (auto simp: two_bits_iff bit_packed)
qed

lemma packed_other:
  assumes "two_bits v" and "s \<le> 6" "s' \<le> 6" "even s" "even s'" "s \<noteq> s'"
  shows "drop_bit s' (b AND NOT (push_bit s 3) OR push_bit s v) AND 3 = drop_bit s' b AND 3"
  unfolding three
proof (rule bit_word_eqI)
  fix i
  assume i: "i < LENGTH(8)"
  have apart: "i < 2 \<Longrightarrow> \<not> (s \<le> s' + i \<and> s' + i - s < 2)"
    using assms by (auto elim!: evenE)
  show "bit (drop_bit s' (b AND NOT (push_bit s (mask 2)) OR push_bit s v) AND mask 2) i = bit (drop_bit s' b AND mask 2) i"
    using i assms apart by (auto simp: two_bits_iff bit_packed)
qed

text \<open>The position of an object in the map.\<close>

definition map_byte :: "u64 \<Rightarrow> nat" where "map_byte objno = unat objno div 4"
definition map_shift :: "u64 \<Rightarrow> nat" where "map_shift objno = (3 - unat objno mod 4) * 2"

lemma map_shift_bounds: "map_shift objno \<le> 6" "even (map_shift objno)"
  by (auto simp: map_shift_def)

lemma map_position_inj: "map_byte i = map_byte j \<Longrightarrow> map_shift i = map_shift j \<Longrightarrow> i = j"
proof -
  assume a: "map_byte i = map_byte j" "map_shift i = map_shift j"
  have "unat i mod 4 < 4" "unat j mod 4 < 4" by simp_all
  then have "unat i mod 4 = unat j mod 4" using a(2) unfolding map_shift_def by linarith
  then have "unat i = unat j" using a(1) unfolding map_byte_def by (metis div_mult_mod_eq)
  then show "i = j" by (simp add: unat_inj_iff)
qed

lemma object_map_index:
  assumes "objno < object_map_size dev"
  shows "rbd_object_map_index dev objno = Ok (word_of_nat (map_byte objno), map_shift objno)"
proof -
  have m: "unat (objno mod 4) = unat objno mod 4" by (simp add: unat_mod)
  then have "unat (objno mod 4) < 4" by simp
  then have off: "unat (ucast (objno mod 4) :: u32) = unat objno mod 4" using m by (subst unat_ucast_64_32) simp_all
  have "unat ((4 - ucast (objno mod 4) - 1) * 2 :: u32) = map_shift objno"
  proof -
    have "unat (4 - ucast (objno mod 4) :: u32) = 4 - unat objno mod 4" using off by (subst unat_sub_no_wrap) simp_all
    moreover have "1 \<le> 4 - unat objno mod 4" by (simp add: Suc_le_eq)
    ultimately have "unat (4 - ucast (objno mod 4) - 1 :: u32) = 3 - unat objno mod 4" by (subst unat_sub_no_wrap) simp_all
    then show ?thesis by (subst unat_mult_no_wrap) (simp_all add: map_shift_def)
  qed
  moreover have "objno div 4 = word_of_nat (map_byte objno)"
  proof -
    have "word_of_nat (map_byte objno) = (word_of_nat (unat (objno div 4)) :: u64)" by (simp add: unat_div map_byte_def)
    then show ?thesis by simp
  qed
  ultimately show ?thesis using assms by (simp add: rbd_object_map_index_def rbd_assert_def div_u64_rem_def)
qed

lemma map_within_byte:
  assumes "map_within dev objno"
  shows "map_byte objno < length (object_map dev)" and "unat (word_of_nat (map_byte objno) :: u64) = map_byte objno"
proof -
  have "unat objno < 4 * length (object_map dev)"
    using assms unfolding map_within_def word_less_nat_alt by linarith
  then show "map_byte objno < length (object_map dev)" by (simp add: map_byte_def less_mult_imp_div_less mult.commute)
  have "map_byte objno = unat (objno div 4)" by (simp add: unat_div map_byte_def)
  moreover have "unat (word_of_nat (unat (objno div 4)) :: u64) = unat (objno div 4)" by simp
  ultimately show "unat (word_of_nat (map_byte objno) :: u64) = map_byte objno" by simp
qed

lemma rbd_object_map_get_value:
  assumes "map_within dev objno"
  shows "rbd_object_map_get dev objno = Ok (drop_bit (map_shift objno) (object_map dev ! map_byte objno) AND 3)"
  using assms object_map_index [of objno dev] map_within_byte [OF assms]
  by (simp add: rbd_object_map_get_def map_within_def)

lemma rbd_object_map_set_value:
  assumes "map_within dev objno" and "two_bits v"
  shows "rbd_object_map_set dev objno v =
     Ok (dev\<lparr>object_map := (object_map dev)[map_byte objno :=
       object_map dev ! map_byte objno AND NOT (push_bit (map_shift objno) 3) OR push_bit (map_shift objno) v]\<rparr>)"
  using assms object_map_index [of objno dev] map_within_byte [OF assms(1)]
  by (simp add: rbd_object_map_set_def map_within_def two_bits_def rbd_assert_def)

lemma rbd_object_map_set_elim:
  assumes "rbd_object_map_set dev objno v = Ok dev'"
  shows "\<exists>m. dev' = dev\<lparr>object_map := m\<rparr> \<and> length m = length (object_map dev) \<and> two_bits v"
  using assms by (auto simp: rbd_object_map_set_def rbd_assert_def two_bits_def outcome_simps split: if_splits prod.splits)

interpretation omap: state_array map_within two_bits rbd_object_map_get rbd_object_map_set
proof
  fix dev objno v dev' objno'
  show "map_within dev objno \<Longrightarrow> \<exists>v. rbd_object_map_get dev objno = Ok v \<and> two_bits v"
    using two_bits_get by (simp add: rbd_object_map_get_value)
  show "map_within dev objno \<Longrightarrow> two_bits v \<Longrightarrow> \<exists>dev'. rbd_object_map_set dev objno v = Ok dev'"
    by (simp add: rbd_object_map_set_value)
  assume set: "rbd_object_map_set dev objno v = Ok dev'"
  then obtain m where m: "dev' = dev\<lparr>object_map := m\<rparr>" "length m = length (object_map dev)" "two_bits v"
    using rbd_object_map_set_elim by blast
  show w: "map_within dev' objno' = map_within dev objno'" using m by (simp add: map_within_def)
  assume within: "map_within dev objno" "map_within dev objno'"
  let ?b = "object_map dev ! map_byte objno"
  let ?n = "?b AND NOT (push_bit (map_shift objno) 3) OR push_bit (map_shift objno) v"
  have dev': "dev' = dev\<lparr>object_map := (object_map dev)[map_byte objno := ?n]\<rparr>"
    using rbd_object_map_set_value [OF within(1) m(3)] set by simp
  have g: "rbd_object_map_get dev' objno' =
      Ok (drop_bit (map_shift objno') ((object_map dev)[map_byte objno := ?n] ! map_byte objno') AND 3)"
    using rbd_object_map_get_value [of dev' objno'] w within(2) dev' by simp
  show "rbd_object_map_get dev' objno' = (if objno' = objno then Ok v else rbd_object_map_get dev objno')"
  proof (cases "map_byte objno' = map_byte objno")
    case True
    have "objno' \<noteq> objno \<Longrightarrow> map_shift objno \<noteq> map_shift objno'" using map_position_inj True by metis
    then show ?thesis
      using g True map_within_byte(1) [OF within(1)] packed_same [OF m(3) map_shift_bounds(1), of objno ?b]
        packed_other [OF m(3) map_shift_bounds(1) map_shift_bounds(1) map_shift_bounds(2) map_shift_bounds(2), of objno objno' ?b]
        rbd_object_map_get_value [OF within(2)]
      by auto
  next
    case False
    then show ?thesis using g rbd_object_map_get_value [OF within(2)] by auto
  qed
qed

section \<open>Updates of the object map\<close>

lemma update_data_decode:
  "ceph_decode_64 (object_map_update_data objno new cur) 0 = Ok (objno, 8)"
  "ceph_decode_64 (object_map_update_data objno new cur) 8 = Ok (objno + 1, 16)"
  "ceph_decode_8 (object_map_update_data objno new cur) 16 = Ok (new, 17)"
  "ceph_decode_8 (object_map_update_data objno new cur) 17 = Ok (if cur = None then 0 else 1, 18)"
  "cur = Some c \<Longrightarrow> ceph_decode_8 (object_map_update_data objno new cur) 18 = Ok (c, 19)"
proof -
  let ?d = "object_map_update_data objno new cur"
  show "ceph_decode_64 ?d 0 = Ok (objno, 8)"
    using decode_put(1) [of "[]" 0 objno] by (simp add: object_map_update_data_def)
  show "ceph_decode_64 ?d 8 = Ok (objno + 1, 16)"
    using decode_put(1) [of "put_le 8 objno" 8 "objno + 1"] by (simp add: object_map_update_data_def)
  show "ceph_decode_8 ?d 16 = Ok (new, 17)"
    using decode_put(4) [of "put_le 8 objno @ put_le 8 (objno + 1)" 16 new] by (simp add: object_map_update_data_def)
  show "ceph_decode_8 ?d 17 = Ok (if cur = None then 0 else 1, 18)"
    using decode_put(4) [of "put_le 8 objno @ put_le 8 (objno + 1) @ [new]" 17]
    by (cases cur) (simp_all add: object_map_update_data_def)
  show "cur = Some c \<Longrightarrow> ceph_decode_8 ?d 18 = Ok (c, 19)"
    using decode_put(4) [of "put_le 8 objno @ put_le 8 (objno + 1) @ [new, 1]" 18 c "[]"]
    by (simp add: object_map_update_data_def)
qed

text \<open>A finished update of the map of the image changes the entry of the object if the expected state allows it.\<close>

lemma rbd_object_map_update_finish_Ok:
  assumes "map_within dev (oe_objno (obj_ex obj))" and "two_bits new"
  shows "\<exists>dev' state. rbd_object_map_update_finish dev obj 0 2 (object_map_update_data (oe_objno (obj_ex obj)) new cur) = Ok (0, dev') \<and>
     omap.view dev (oe_objno (obj_ex obj)) = Some state \<and> (\<exists>m. dev' = dev\<lparr>object_map := m\<rparr> \<and> length m = length (object_map dev)) \<and>
     omap.view dev' =
       (if cur = None \<or> cur = Some state \<or> cur = Some OBJECT_EXISTS \<and> state = OBJECT_EXISTS_CLEAN
        then (omap.view dev)(oe_objno (obj_ex obj) \<mapsto> new) else omap.view dev)"
proof -
  let ?o = "oe_objno (obj_ex obj)"
  obtain state where state: "omap.view dev ?o = Some state" "rbd_object_map_get dev ?o = Ok state"
    using omap.view_Some [OF assms(1)] by blast
  obtain dev' where set: "rbd_object_map_set dev ?o new = Ok dev'" using omap.put_Ok [OF assms] by blast
  let ?allowed = "cur = None \<or> cur = Some state \<or> cur = Some 1 \<and> state = 3"
  have fin: "rbd_object_map_update_finish dev obj 0 2 (object_map_update_data ?o new cur) =
      Ok (0, if ?allowed then dev' else dev)"
    using update_data_decode [where objno = ?o and new = new and cur = cur] state(2) set
    by (cases cur) (auto simp: rbd_object_map_update_finish_def rbd_assert_def)
  show ?thesis
  proof (cases ?allowed)
    case True
    then show ?thesis
      using fin state(1) omap.view_put [OF assms(1) set] rbd_object_map_set_elim [OF set] by auto
  next
    case False
    have "\<exists>m. dev = dev\<lparr>object_map := m\<rparr> \<and> length m = length (object_map dev)"
      by (intro exI [of _ "object_map dev"]) simp
    then show ?thesis using False fin state(1) by (intro exI [of _ dev]) auto
  qed
qed

section \<open>Pruning extents\<close>

text \<open>The bytes of a list of file extents, in order.\<close>

definition fes_bytes :: "ceph_file_extent list \<Rightarrow> nat list" where
  "fes_bytes fes = concat (map fe_range fes)"

definition good_extents :: "ceph_file_extent list \<Rightarrow> bool" where
  "good_extents fes \<longleftrightarrow>
     sorted_wrt (<) (fes_bytes fes) \<and>
     (\<forall>fe\<in>set fes. fe_len fe \<noteq> 0 \<and> unat (fe_off fe) + unat (fe_len fe) < 2 ^ 64)"

lemma fe_range_nonempty: "fe_len fe \<noteq> 0 \<Longrightarrow> unat (fe_off fe) \<in> set (fe_range fe)"
  by (simp add: fe_range_def unat_gt_0)

lemma good_extents_snoc:
  assumes "good_extents (fes @ [fe])"
  shows "good_extents fes" and "fe_len fe \<noteq> 0" and "unat (fe_off fe) + unat (fe_len fe) < 2 ^ 64"
    and "\<forall>b\<in>set (fes_bytes fes). b < unat (fe_off fe)"
proof -
  show "good_extents fes" and nz: "fe_len fe \<noteq> 0" and "unat (fe_off fe) + unat (fe_len fe) < 2 ^ 64"
    using assms by (auto simp: good_extents_def fes_bytes_def sorted_wrt_append)
  show "\<forall>b\<in>set (fes_bytes fes). b < unat (fe_off fe)"
    using assms fe_range_nonempty [OF nz] by (auto simp: good_extents_def fes_bytes_def sorted_wrt_append)
qed

lemma filter_upt_less: "filter (\<lambda>b. b < n) [i..<j] = [i..<min n j]"
proof (cases "n \<le> j")
  case True
  show ?thesis
  proof (cases "i \<le> n")
    case le: True
    have "[i..<j] = [i..<n] @ [n..<j]" using upt_append_split [OF le True] .
    then show ?thesis using True by (simp add: filter_False)
  next
    case False
    then show ?thesis using True by (simp add: filter_False)
  qed
next
  case False
  then show ?thesis by (simp add: min_def filter_True)
qed

lemma prune_count_snoc:
  "n \<le> length fes \<Longrightarrow> prune_count (fes @ gs) overlap n = prune_count fes overlap n"
  by (induction n) (auto simp: nth_append)

lemma prune_snoc:
  "prune_extents (fes @ [fe]) overlap =
     (if fe_off fe \<ge> overlap then prune_extents fes overlap
      else if fe_off fe + fe_len fe > overlap then fes @ [fe\<lparr>fe_len := overlap - fe_off fe\<rparr>]
      else fes @ [fe])"
proof -
  have le: "prune_count fes overlap n \<le> n" for n by (induction n) auto
  show ?thesis
    using le [of "length fes"] by (auto simp: prune_extents_def prune_count_snoc Let_def)
qed

lemma prune_Nil [simp]: "prune_extents [] overlap = []"
  by (simp add: prune_extents_def)

text \<open>Pruning keeps exactly the bytes below the overlap, and the extents stay as they should be.\<close>

lemma prune_extents_bytes:
  "good_extents fes \<Longrightarrow>
     fes_bytes (prune_extents fes overlap) = filter (\<lambda>b. b < unat overlap) (fes_bytes fes) \<and>
     good_extents (prune_extents fes overlap)"
proof (induction fes rule: rev_induct)
  case Nil
  then show ?case by (simp add: fes_bytes_def)
next
  case (snoc fe fes)
  note good = good_extents_snoc [OF snoc.prems]
  let ?o = "unat overlap" and ?a = "unat (fe_off fe)" and ?l = "unat (fe_len fe)"
  have app: "fes_bytes (fes @ [g]) = fes_bytes fes @ fe_range g" for g by (simp add: fes_bytes_def)
  have keep: "filter (\<lambda>b. b < ?o) (fes_bytes fes) = fes_bytes fes" if "?a < ?o"
    using good(4) that by (intro filter_True) auto
  have rng: "filter (\<lambda>b. b < ?o) (fe_range fe) = [?a..<min ?o (?a + ?l)]" by (simp add: fe_range_def filter_upt_less)
  have sum: "unat (fe_off fe + fe_len fe) = ?a + ?l" using good(3) by (intro unat_add_no_wrap) simp
  consider "?o \<le> ?a" | "?a < ?o" "?o < ?a + ?l" | "?a < ?o" "?a + ?l \<le> ?o" by linarith
  then show ?case
  proof cases
    case 1
    then have "prune_extents (fes @ [fe]) overlap = prune_extents fes overlap"
      by (simp add: prune_snoc word_le_nat_alt)
    moreover have "[?a..<min ?o (?a + ?l)] = []" using 1 by simp
    ultimately show ?thesis using snoc.IH [OF good(1)] rng by (simp add: app)
  next
    case 2
    let ?g = "fe\<lparr>fe_len := overlap - fe_off fe\<rparr>"
    have p: "prune_extents (fes @ [fe]) overlap = fes @ [?g]"
      using 2 sum by (simp add: prune_snoc word_le_nat_alt word_less_nat_alt)
    have len: "unat (overlap - fe_off fe) = ?o - ?a" using 2 by (subst unat_sub_no_wrap) simp_all
    have g: "fe_range ?g = [?a..<?o]" using 2 by (simp add: fe_range_def len)
    have bytes: "fes_bytes (fes @ [?g]) = filter (\<lambda>b. b < ?o) (fes_bytes (fes @ [fe]))"
      using 2 keep rng g by (simp add: app)
    have "sorted_wrt (<) (fes_bytes (fes @ [?g]))"
      unfolding bytes using snoc.prems by (simp add: good_extents_def sorted_wrt_filter)
    moreover have "overlap - fe_off fe \<noteq> 0" using len 2 by (metis diff_is_0_eq not_less unat_0)
    moreover have "?a + unat (overlap - fe_off fe) < 2 ^ 64" using len 2 unat_u64_less [of overlap] by simp
    ultimately show ?thesis using p bytes good(1) by (auto simp: good_extents_def)
  next
    case 3
    then have p: "prune_extents (fes @ [fe]) overlap = fes @ [fe]"
      using sum by (simp add: prune_snoc word_le_nat_alt word_less_nat_alt)
    have "[?a..<min ?o (?a + ?l)] = fe_range fe" using 3 by (simp add: fe_range_def)
    then show ?thesis using p snoc.prems keep [OF 3(1)] rng by (simp add: app)
  qed
qed

lemma fes_bytes_Nil_iff: "good_extents fes \<Longrightarrow> fes_bytes fes = [] \<longleftrightarrow> fes = []"
  using fe_range_nonempty by (cases fes) (force simp: good_extents_def fes_bytes_def)+

lemma prune_prune_nonempty:
  assumes "good_extents fes" and "prune_extents fes overlap \<noteq> []"
  shows "prune_extents (prune_extents fes overlap) overlap \<noteq> []"
proof -
  note p = prune_extents_bytes [OF assms(1), of overlap]
  have "fes_bytes (prune_extents (prune_extents fes overlap) overlap) = fes_bytes (prune_extents fes overlap)"
    using p prune_extents_bytes [of "prune_extents fes overlap" overlap] by simp
  then show ?thesis
    using p assms(2) fes_bytes_Nil_iff by (metis prune_extents_bytes)
qed

lemma prune_extents_zero: "good_extents fes \<Longrightarrow> prune_extents fes 0 = []"
  using prune_extents_bytes [of fes 0] fes_bytes_Nil_iff [of "prune_extents fes 0"] by simp

text \<open>The number of bytes, which the code adds up modulo \<open>2 ^ 64\<close>.\<close>

lemma length_fes_bytes: "length (fes_bytes fes) = sum_list (map (\<lambda>fe. unat (fe_len fe)) fes)"
  by (induction fes) (simp_all add: fes_bytes_def fe_range_def)

lemma unat_file_extents_bytes:
  assumes "length (fes_bytes fes) < 2 ^ 64"
  shows "unat (ceph_file_extents_bytes fes) = length (fes_bytes fes)"
proof -
  have "unat a + sum_list (map (\<lambda>fe. unat (fe_len fe)) fes) < 2 ^ 64 \<Longrightarrow>
      unat (foldl (\<lambda>bytes fe. bytes + fe_len fe) a fes) = unat a + sum_list (map (\<lambda>fe. unat (fe_len fe)) fes)" for a :: u64
  proof (induction fes arbitrary: a)
    case (Cons fe fes)
    then have "unat (a + fe_len fe) = unat a + unat (fe_len fe)" by (intro unat_add_no_wrap) simp
    then show ?case using Cons by simp
  qed simp
  from this [of 0] show ?thesis using assms by (simp add: ceph_file_extents_bytes_def length_fes_bytes)
qed

section \<open>Extents of an object\<close>

text \<open>A layout that fits 64-bit file offsets, and a range inside an object.\<close>

definition range_ok :: "ceph_file_layout \<Rightarrow> u64 \<Rightarrow> nat \<Rightarrow> nat \<Rightarrow> bool" where
  "range_ok l objno off len \<longleftrightarrow>
     valid_layout l \<and> off + len \<le> stripes_per_obj l * unat (stripe_unit l) \<and>
     file_byte l (unat objno, off + len - 1) < 2 ^ 64 - 1"

lemma extents_of_range:
  assumes "range_ok l objno (unat off) (unat len)"
  shows "\<exists>fes. ceph_extent_to_file (\<lambda>_. True) l objno off len = Ok fes \<and> good_extents fes \<and>
     fes_bytes fes = map (\<lambda>j. file_byte l (unat objno, j)) [unat off..<unat off + unat len]"
proof -
  have v: "valid_layout l" using assms by (simp add: range_ok_def)
  obtain fes where fes: "ceph_extent_to_file (\<lambda>_. True) l objno off len = Ok fes"
    and bytes: "fes_bytes fes = map (\<lambda>j. file_byte l (unat objno, j)) [unat off..<unat off + unat len]"
    using ceph_extent_to_file_Ok [of l "\<lambda>_. True" off len objno] assms by (auto simp: range_ok_def fes_bytes_def)
  have "sorted_wrt (<) (fes_bytes fes)"
    unfolding bytes sorted_wrt_map using file_byte_strict_mono [OF v]
    by (intro sorted_wrt_mono_rel [OF _ sorted_wrt_upt]) simp
  moreover have nz: "\<forall>fe\<in>set fes. fe_len fe \<noteq> 0" using ceph_extent_to_file_nonempty [OF fes] .
  moreover have "unat (fe_off fe) + unat (fe_len fe) < 2 ^ 64" if "fe \<in> set fes" for fe
  proof -
    have pos: "0 < unat (fe_len fe)" using nz that by (simp add: unat_gt_0)
    then have "unat (fe_off fe) + unat (fe_len fe) - 1 \<in> set (fe_range fe)" by (auto simp: fe_range_def)
    then have "unat (fe_off fe) + unat (fe_len fe) - 1 \<in> set (fes_bytes fes)" using that by (auto simp: fes_bytes_def)
    then obtain j where j: "j < unat off + unat len" "unat (fe_off fe) + unat (fe_len fe) - 1 = file_byte l (unat objno, j)"
      unfolding bytes by auto
    have "file_byte l (unat objno, j) \<le> file_byte l (unat objno, unat off + unat len - 1)"
      using j(1) by (intro file_byte_mono [OF v]) simp
    also have "\<dots> < 2 ^ 64 - 1" using assms by (simp add: range_ok_def)
    finally show ?thesis using j(2) pos by linarith
  qed
  ultimately show ?thesis using fes bytes by (auto simp: good_extents_def)
qed

end
