(* ===== verification/RbdRequest.thy ===== *)
theory RbdRequest
  imports RbdDevice
begin

text \<open>
  The state machines of object requests (\<open>rbd/rbd.c\<close>, \<open>rbd_obj_advance_read\<close>, \<open>rbd_obj_advance_copyup\<close>,
  \<open>rbd_obj_advance_write\<close> and \<open>__rbd_obj_handle_request\<close>). Each case of the \<open>switch\<close> statements is one
  definition; \<open>goto again\<close> and \<open>fallthrough\<close> are calls of the definition of the next case, and the
  definitions of the machines dispatch on the state. A machine returns whether the object request
  is done, its result, the object request and what it handed out.
\<close>

unbundle bit_operations_syntax

section \<open>OSD requests\<close>

text \<open>\<open>__rbd_obj_add_osd_request\<close>: the allocation and the formatting of the object name can fail.\<close>

definition rbd_obj_add_osd_request :: "world \<Rightarrow> int \<times> world" where
  "rbd_obj_add_osd_request w =
     (let (ret, w) = call w in if ret \<noteq> 0 then (RET_ENOMEM, w) else call w)"

text \<open>Setting up more operations than a request has room for is a \<open>BUG_ON\<close> in libceph.\<close>

definition osd_submit ::
    "u64 list option \<Rightarrow> nat \<Rightarrow> osd_op list \<Rightarrow> world \<Rightarrow> (int \<times> world) outcome" where
  "osd_submit snapc num_ops ops w =
     (if length ops > num_ops then Oops Bug_On
      else
        let (ret, w) = call w in
        if ret \<noteq> 0 then Ok (ret, w) else Ok (0, submit (Osd_request snapc num_ops ops) w))"

definition rbd_obj_zero_range :: "rbd_img_request \<Rightarrow> u32 \<Rightarrow> u32 \<Rightarrow> world \<Rightarrow> world outcome" where
  "rbd_obj_zero_range img off bytes w =
     (if img_data_type img = OBJ_REQUEST_NODATA then Oops Bug_On
      else Ok (w\<lparr>w_zeroed := w_zeroed w @ [(off, bytes)]\<rparr>))"

definition rbd_obj_may_exist :: "rbd_device \<Rightarrow> rbd_obj_request \<Rightarrow> (bool \<times> rbd_obj_request) outcome" where
  "rbd_obj_may_exist dev obj =
     bind_outcome (rbd_object_map_may_exist dev (oe_objno (obj_ex obj))) (\<lambda>may.
       if may then Ok (True, obj\<lparr>obj_flags := insert RBD_OBJ_FLAG_MAY_EXIST (obj_flags obj)\<rparr>)
       else Ok (False, obj))"

definition rbd_obj_read_object :: "rbd_img_request \<Rightarrow> rbd_obj_request \<Rightarrow> world \<Rightarrow> (int \<times> world) outcome" where
  "rbd_obj_read_object img obj w =
     (let (ret, w) = rbd_obj_add_osd_request w in
      if ret \<noteq> 0 then Ok (ret, w)
      else rbd_osd_setup_data img obj
        (osd_submit None 1 [CEPH_OSD_OP_READ (oe_off (obj_ex obj)) (oe_len (obj_ex obj))] w))"

text \<open>The child image request is allocated and filled, and runs on a work queue.\<close>

definition rbd_obj_read_from_parent :: "rbd_img_request \<Rightarrow> rbd_obj_request \<Rightarrow> world \<Rightarrow> (int \<times> world) outcome" where
  "rbd_obj_read_from_parent img obj w =
     (let (ret, w) = call w in
      if ret \<noteq> 0 then Ok (RET_ENOMEM, w)
      else if \<not> rbd_img_is_write img \<and> img_data_type img = OBJ_REQUEST_NODATA then Oops Bug_On
      else
        let (ret, w) = call w in
        if ret \<noteq> 0 then Ok (ret, w) else Ok (0, submit (Parent_read (img_extents obj)) w))"

section \<open>Reading\<close>

definition read_parent_done ::
    "rbd_img_request \<Rightarrow> rbd_obj_request \<Rightarrow> int \<Rightarrow> world \<Rightarrow> (bool \<times> int \<times> rbd_obj_request \<times> world) outcome" where
  "read_parent_done img obj result w =
     (if result = 0 then
        let obj_overlap = ucast (rbd_obj_img_extents_bytes obj) :: u32 in
        if ucast obj_overlap < oe_len (obj_ex obj) then
          bind_outcome (rbd_obj_zero_range img obj_overlap (ucast (oe_len (obj_ex obj) - ucast obj_overlap)) w) (\<lambda>w.
            Ok (True, result, obj, w))
        else Ok (True, result, obj, w)
      else Ok (True, result, obj, w))"

text \<open>The comparison of the result with the length is one of unsigned 64-bit numbers.\<close>

definition read_fill ::
    "rbd_img_request \<Rightarrow> rbd_obj_request \<Rightarrow> int \<Rightarrow> world \<Rightarrow> (bool \<times> int \<times> rbd_obj_request \<times> world) outcome" where
  "read_fill img obj result w =
     (let len = oe_len (obj_ex obj) in
      if result = RET_ENOENT then
        bind_outcome (rbd_obj_zero_range img 0 (ucast len) w) (\<lambda>w. Ok (True, 0, obj, w))
      else if result \<ge> 0 then
        if word_of_int result < len then
          bind_outcome (rbd_obj_zero_range img (word_of_int result) (ucast (len - word_of_int result)) w) (\<lambda>w.
            Ok (True, 0, obj, w))
        else rbd_assert (word_of_int result = len) (Ok (True, 0, obj, w))
      else Ok (True, result, obj, w))"

definition read_object_done ::
    "rbd_device \<Rightarrow> rbd_img_request \<Rightarrow> rbd_obj_request \<Rightarrow> int \<Rightarrow> world \<Rightarrow>
     (bool \<times> int \<times> rbd_obj_request \<times> world) outcome" where
  "read_object_done dev img obj result w =
     (if result = RET_ENOENT \<and> parent_overlap dev \<noteq> 0 then
        bind_outcome (rbd_obj_calc_img_extents dev obj False w) (\<lambda>(ret, obj, w).
          if ret \<noteq> 0 then Ok (True, ret, obj, w)
          else if img_extents obj \<noteq> [] then
            bind_outcome (rbd_obj_read_from_parent img obj w) (\<lambda>(ret, w).
              if ret \<noteq> 0 then Ok (True, ret, obj, w)
              else Ok (False, result, obj\<lparr>read_state := RBD_OBJ_READ_PARENT\<rparr>, w))
          else read_fill img obj result w)
      else read_fill img obj result w)"

definition read_start ::
    "rbd_device \<Rightarrow> rbd_img_request \<Rightarrow> rbd_obj_request \<Rightarrow> int \<Rightarrow> world \<Rightarrow>
     (bool \<times> int \<times> rbd_obj_request \<times> world) outcome" where
  "read_start dev img obj result w =
     rbd_assert (result = 0)
       (bind_outcome (rbd_obj_may_exist dev obj) (\<lambda>(may, obj).
        if \<not> may then read_object_done dev img (obj\<lparr>read_state := RBD_OBJ_READ_OBJECT\<rparr>) RET_ENOENT w
        else
          bind_outcome (rbd_obj_read_object img obj w) (\<lambda>(ret, w).
            if ret \<noteq> 0 then Ok (True, ret, obj, w)
            else Ok (False, result, obj\<lparr>read_state := RBD_OBJ_READ_OBJECT\<rparr>, w))))"

definition rbd_obj_advance_read ::
    "rbd_device \<Rightarrow> rbd_img_request \<Rightarrow> rbd_obj_request \<Rightarrow> int \<Rightarrow> world \<Rightarrow>
     (bool \<times> int \<times> rbd_obj_request \<times> world) outcome" where
  "rbd_obj_advance_read dev img obj result w =
     (case read_state obj of
        RBD_OBJ_READ_START \<Rightarrow> read_start dev img obj result w
      | RBD_OBJ_READ_OBJECT \<Rightarrow> read_object_done dev img obj result w
      | RBD_OBJ_READ_PARENT \<Rightarrow> read_parent_done img obj result w)"

section \<open>Writing\<close>

definition rbd_obj_write_is_noop :: "rbd_device \<Rightarrow> rbd_obj_request \<Rightarrow> (bool \<times> rbd_obj_request) outcome" where
  "rbd_obj_write_is_noop dev obj =
     bind_outcome (rbd_object_map_may_exist dev (oe_objno (obj_ex obj))) (\<lambda>may.
       let obj = (if may then obj\<lparr>obj_flags := insert RBD_OBJ_FLAG_MAY_EXIST (obj_flags obj)\<rparr> else obj) in
       Ok (RBD_OBJ_FLAG_MAY_EXIST \<notin> obj_flags obj \<and> RBD_OBJ_FLAG_NOOP_FOR_NONEXISTENT \<in> obj_flags obj, obj))"

definition rbd_obj_write_pre_object_map ::
    "rbd_device \<Rightarrow> rbd_obj_request \<Rightarrow> world \<Rightarrow> (int \<times> world) outcome" where
  "rbd_obj_write_pre_object_map dev obj w =
     (if dev_features dev AND RBD_FEATURE_OBJECT_MAP = 0 then Ok (1, w)
      else rbd_object_map_update dev obj CEPH_NOSNAP
        (if RBD_OBJ_FLAG_DELETION \<in> obj_flags obj then OBJECT_PENDING else OBJECT_EXISTS) None w)"

definition rbd_obj_write_object ::
    "rbd_device \<Rightarrow> rbd_img_request \<Rightarrow> rbd_obj_request \<Rightarrow> world \<Rightarrow> (int \<times> world) outcome" where
  "rbd_obj_write_object dev img obj w =
     bind_outcome (count_write_ops dev img obj) (\<lambda>num_ops.
       let guard = RBD_OBJ_FLAG_COPYUP_ENABLED \<in> obj_flags obj;
           num_ops = (if guard then num_ops + 1 else num_ops);
           (ret, w) = rbd_obj_add_osd_request w in
       if ret \<noteq> 0 then Ok (ret, w)
       else
         let (ret, w) = (if guard then call w else (0, w)) in
         if ret \<noteq> 0 then Ok (ret, w)
         else
           bind_outcome (rbd_osd_setup_write_ops dev img obj) (\<lambda>ops.
             osd_submit (Some (img_snaps img)) num_ops ((if guard then [CEPH_OSD_OP_STAT] else []) @ ops) w))"

definition is_zero_bvecs :: "bio_vec list \<Rightarrow> u32 \<Rightarrow> bool" where
  "is_zero_bvecs bvecs bytes = list_all (\<lambda>b. b = 0) (take (unat bytes) (concat (map bv_data bvecs)))"

abbreviation (input) MODS_ONLY :: u32 where "MODS_ONLY \<equiv> - 1"

definition rbd_obj_copyup_empty_snapc :: "u32 \<Rightarrow> world \<Rightarrow> (int \<times> world) outcome" where
  "rbd_obj_copyup_empty_snapc bytes w =
     rbd_assert (bytes > 0 \<and> bytes \<noteq> MODS_ONLY)
       (let (ret, w) = rbd_obj_add_osd_request w in
        if ret \<noteq> 0 then Ok (ret, w)
        else
          let (ret, w) = call w in
          if ret \<noteq> 0 then Ok (ret, w) else osd_submit (Some []) 1 [RBD_COPYUP bytes] w)"

definition rbd_obj_copyup_current_snapc ::
    "rbd_device \<Rightarrow> rbd_img_request \<Rightarrow> rbd_obj_request \<Rightarrow> u32 \<Rightarrow> world \<Rightarrow> (int \<times> world) outcome" where
  "rbd_obj_copyup_current_snapc dev img obj bytes w =
     bind_outcome (count_write_ops dev img obj) (\<lambda>num_ops.
       let copyup = bytes \<noteq> MODS_ONLY;
           num_ops = (if copyup then num_ops + 1 else num_ops);
           (ret, w) = rbd_obj_add_osd_request w in
       if ret \<noteq> 0 then Ok (ret, w)
       else
         let (ret, w) = (if copyup then call w else (0, w)) in
         if ret \<noteq> 0 then Ok (ret, w)
         else
           bind_outcome (rbd_osd_setup_write_ops dev img obj) (\<lambda>ops.
             osd_submit (Some (img_snaps img)) num_ops ((if copyup then [RBD_COPYUP bytes] else []) @ ops) w))"

text \<open>The pages of the copyup data; \<open>n\<close> counts down from the number of pages.\<close>

fun copyup_bvecs_loop :: "nat \<Rightarrow> u64 \<Rightarrow> bio_vec list \<Rightarrow> world \<Rightarrow> (int \<times> u64 \<times> bio_vec list \<times> world)" where
  "copyup_bvecs_loop 0 obj_overlap bvecs w = (0, obj_overlap, bvecs, w)"
| "copyup_bvecs_loop (Suc n) obj_overlap bvecs w =
     (let len = ucast (min obj_overlap 4096) :: u32;
          (ret, w) = call w in
      if ret \<noteq> 0 then (RET_ENOMEM, obj_overlap, bvecs, w)
      else copyup_bvecs_loop n (obj_overlap - ucast len)
             (bvecs @ [\<lparr>bv_len = len, bv_data = replicate (unat len) 0\<rparr>]) w)"

definition setup_copyup_bvecs ::
    "rbd_obj_request \<Rightarrow> u64 \<Rightarrow> world \<Rightarrow> (int \<times> rbd_obj_request \<times> world) outcome" where
  "setup_copyup_bvecs obj obj_overlap w =
     rbd_assert (copyup_bvecs obj = None)
       (let count = unat (drop_bit 12 (obj_overlap + 4095)); (ret, w) = call w in
        if ret \<noteq> 0 then Ok (RET_ENOMEM, obj, w)
        else
          let (ret, left, bvecs, w) = copyup_bvecs_loop count obj_overlap [] w;
              obj = obj\<lparr>copyup_bvecs := Some bvecs\<rparr> in
          if ret \<noteq> 0 then Ok (ret, obj, w)
          else rbd_assert (left = 0) (Ok (0, obj, w)))"

definition rbd_obj_copyup_read_parent ::
    "rbd_device \<Rightarrow> rbd_img_request \<Rightarrow> rbd_obj_request \<Rightarrow> world \<Rightarrow> (int \<times> rbd_obj_request \<times> world) outcome" where
  "rbd_obj_copyup_read_parent dev img obj w =
     rbd_assert (img_extents obj \<noteq> [])
       (let obj = obj\<lparr>img_extents := prune_extents (img_extents obj) (parent_overlap dev)\<rparr> in
        if img_extents obj = [] then
          bind_outcome (rbd_obj_copyup_current_snapc dev img obj MODS_ONLY w) (\<lambda>(ret, w). Ok (ret, obj, w))
        else
          bind_outcome (setup_copyup_bvecs obj (rbd_obj_img_extents_bytes obj) w) (\<lambda>(ret, obj, w).
            if ret \<noteq> 0 then Ok (ret, obj, w)
            else bind_outcome (rbd_obj_read_from_parent img obj w) (\<lambda>(ret, w). Ok (ret, obj, w))))"

text \<open>The updates of the object maps of the snapshots, in order; \<open>i\<close> is the loop counter.\<close>

fun copyup_maps_loop ::
    "rbd_device \<Rightarrow> rbd_img_request \<Rightarrow> nat \<Rightarrow> u64 list \<Rightarrow> rbd_obj_request \<Rightarrow> world \<Rightarrow>
     (rbd_obj_request \<times> world) outcome" where
  "copyup_maps_loop dev img i [] obj w = Ok (obj, w)"
| "copyup_maps_loop dev img i (snap # snaps) obj w =
     (let new_state =
        (if dev_features dev AND RBD_FEATURE_FAST_DIFF \<noteq> 0 \<and> i + 1 < length (img_snaps img)
         then OBJECT_EXISTS_CLEAN else OBJECT_EXISTS) in
      bind_outcome (rbd_object_map_update dev obj snap new_state None w) (\<lambda>(ret, w).
        if ret < 0 then Ok (obj\<lparr>obj_pending := (obj_pending obj)\<lparr>pr_result := ret\<rparr>\<rparr>, w)
        else rbd_assert (ret = 0)
          (copyup_maps_loop dev img (Suc i) snaps
             (obj\<lparr>obj_pending := (obj_pending obj)\<lparr>num_pending := Suc (num_pending (obj_pending obj))\<rparr>\<rparr>) w)))"

definition rbd_obj_copyup_object_maps ::
    "rbd_device \<Rightarrow> rbd_img_request \<Rightarrow> rbd_obj_request \<Rightarrow> world \<Rightarrow> (rbd_obj_request \<times> world) outcome" where
  "rbd_obj_copyup_object_maps dev img obj w =
     rbd_assert (pr_result (obj_pending obj) = 0 \<and> num_pending (obj_pending obj) = 0)
       (if dev_features dev AND RBD_FEATURE_OBJECT_MAP = 0 then Ok (obj, w)
        else if RBD_OBJ_FLAG_COPYUP_ZEROS \<in> obj_flags obj then Ok (obj, w)
        else copyup_maps_loop dev img 0 (img_snaps img) obj w)"

definition rbd_obj_copyup_write_object ::
    "rbd_device \<Rightarrow> rbd_img_request \<Rightarrow> rbd_obj_request \<Rightarrow> world \<Rightarrow> (rbd_obj_request \<times> world) outcome" where
  "rbd_obj_copyup_write_object dev img obj w =
     (let fail = (\<lambda>obj ret. obj\<lparr>obj_pending := (obj_pending obj)\<lparr>pr_result := ret\<rparr>\<rparr>);
          inc = (\<lambda>obj. obj\<lparr>obj_pending := (obj_pending obj)\<lparr>num_pending := Suc (num_pending (obj_pending obj))\<rparr>\<rparr>);
          bytes = (if RBD_OBJ_FLAG_COPYUP_ZEROS \<in> obj_flags obj then 0
                   else ucast (rbd_obj_img_extents_bytes obj) :: u32) in
      rbd_assert (pr_result (obj_pending obj) = 0 \<and> num_pending (obj_pending obj) = 0)
        (bind_outcome
          (if img_snaps img \<noteq> [] \<and> bytes > 0 then
             bind_outcome (rbd_obj_copyup_empty_snapc bytes w) (\<lambda>(ret, w).
               if ret \<noteq> 0 then Ok (True, fail obj ret, bytes, w) else Ok (False, inc obj, MODS_ONLY, w))
           else Ok (False, obj, bytes, w))
          (\<lambda>(return, obj, bytes, w).
             if return then Ok (obj, w)
             else
               bind_outcome (rbd_obj_copyup_current_snapc dev img obj bytes w) (\<lambda>(ret, w).
                 if ret \<noteq> 0 then Ok (fail obj ret, w) else Ok (inc obj, w)))))"

definition copyup_object_maps_done ::
    "rbd_device \<Rightarrow> rbd_img_request \<Rightarrow> rbd_obj_request \<Rightarrow> int \<Rightarrow> world \<Rightarrow>
     (bool \<times> int \<times> rbd_obj_request \<times> world) outcome" where
  "copyup_object_maps_done dev img obj result w =
     (if result \<noteq> 0 then Ok (True, result, obj, w)
      else
        bind_outcome (rbd_obj_copyup_write_object dev img obj w) (\<lambda>(obj, w).
          if num_pending (obj_pending obj) = 0
          then Ok (True, pr_result (obj_pending obj), obj\<lparr>copyup_state := RBD_OBJ_COPYUP_WRITE_OBJECT\<rparr>, w)
          else Ok (False, result, obj\<lparr>copyup_state := RBD_OBJ_COPYUP_WRITE_OBJECT_PENDING\<rparr>, w)))"

definition copyup_read_done ::
    "rbd_device \<Rightarrow> rbd_img_request \<Rightarrow> rbd_obj_request \<Rightarrow> int \<Rightarrow> world \<Rightarrow>
     (bool \<times> int \<times> rbd_obj_request \<times> world) outcome" where
  "copyup_read_done dev img obj result w =
     (if result \<noteq> 0 then Ok (True, result, obj, w)
      else
        case copyup_bvecs obj of
          None \<Rightarrow> Oops Bad_Access
        | Some bvecs \<Rightarrow>
            let obj = (if is_zero_bvecs bvecs (ucast (rbd_obj_img_extents_bytes obj))
                       then obj\<lparr>obj_flags := insert RBD_OBJ_FLAG_COPYUP_ZEROS (obj_flags obj)\<rparr> else obj) in
            bind_outcome (rbd_obj_copyup_object_maps dev img obj w) (\<lambda>(obj, w).
              if num_pending (obj_pending obj) = 0
              then copyup_object_maps_done dev img (obj\<lparr>copyup_state := RBD_OBJ_COPYUP_OBJECT_MAPS\<rparr>)
                     (pr_result (obj_pending obj)) w
              else Ok (False, result, obj\<lparr>copyup_state := RBD_OBJ_COPYUP_OBJECT_MAPS_PENDING\<rparr>, w)))"

definition copyup_start ::
    "rbd_device \<Rightarrow> rbd_img_request \<Rightarrow> rbd_obj_request \<Rightarrow> int \<Rightarrow> world \<Rightarrow>
     (bool \<times> int \<times> rbd_obj_request \<times> world) outcome" where
  "copyup_start dev img obj result w =
     rbd_assert (result = 0)
       (bind_outcome (rbd_obj_copyup_read_parent dev img obj w) (\<lambda>(ret, obj, w).
          if ret \<noteq> 0 then Ok (True, ret, obj, w)
          else if img_extents obj \<noteq> [] then Ok (False, result, obj\<lparr>copyup_state := RBD_OBJ_COPYUP_READ_PARENT\<rparr>, w)
          else Ok (False, result, obj\<lparr>copyup_state := RBD_OBJ_COPYUP_WRITE_OBJECT\<rparr>, w)))"

text \<open>The common part of the two states that wait for several requests.\<close>

definition obj_pending_dec ::
    "rbd_obj_request \<Rightarrow> int \<Rightarrow> (rbd_obj_request \<Rightarrow> int \<Rightarrow> (bool \<times> int \<times> rbd_obj_request \<times> world) outcome) \<Rightarrow> world \<Rightarrow>
     (bool \<times> int \<times> rbd_obj_request \<times> world) outcome" where
  "obj_pending_dec obj result k w =
     bind_outcome (pending_result_dec (obj_pending obj) result) (\<lambda>(last, result, pending).
       let obj = obj\<lparr>obj_pending := pending\<rparr> in
       if \<not> last then Ok (False, result, obj, w) else k obj result)"

definition rbd_obj_advance_copyup ::
    "rbd_device \<Rightarrow> rbd_img_request \<Rightarrow> rbd_obj_request \<Rightarrow> int \<Rightarrow> world \<Rightarrow>
     (bool \<times> int \<times> rbd_obj_request \<times> world) outcome" where
  "rbd_obj_advance_copyup dev img obj result w =
     (case copyup_state obj of
        RBD_OBJ_COPYUP_START \<Rightarrow> copyup_start dev img obj result w
      | RBD_OBJ_COPYUP_READ_PARENT \<Rightarrow> copyup_read_done dev img obj result w
      | RBD_OBJ_COPYUP_OBJECT_MAPS_PENDING \<Rightarrow>
          obj_pending_dec obj result (\<lambda>obj result. copyup_object_maps_done dev img obj result w) w
      | RBD_OBJ_COPYUP_OBJECT_MAPS \<Rightarrow> copyup_object_maps_done dev img obj result w
      | RBD_OBJ_COPYUP_WRITE_OBJECT_PENDING \<Rightarrow>
          obj_pending_dec obj result (\<lambda>obj result. Ok (True, result, obj, w)) w
      | RBD_OBJ_COPYUP_WRITE_OBJECT \<Rightarrow> Ok (True, result, obj, w))"

definition rbd_obj_write_post_object_map ::
    "rbd_device \<Rightarrow> rbd_obj_request \<Rightarrow> world \<Rightarrow> (int \<times> world) outcome" where
  "rbd_obj_write_post_object_map dev obj w =
     (if dev_features dev AND RBD_FEATURE_OBJECT_MAP = 0 then Ok (1, w)
      else if RBD_OBJ_FLAG_DELETION \<notin> obj_flags obj then Ok (1, w)
      else rbd_object_map_update dev obj CEPH_NOSNAP OBJECT_NONEXISTENT (Some OBJECT_PENDING) w)"

definition write_post_done ::
    "rbd_obj_request \<Rightarrow> int \<Rightarrow> world \<Rightarrow> (bool \<times> int \<times> rbd_obj_request \<times> world) outcome" where
  "write_post_done obj result w = Ok (True, result, obj, w)"

definition write_copyup_done ::
    "rbd_device \<Rightarrow> rbd_obj_request \<Rightarrow> int \<Rightarrow> world \<Rightarrow> (bool \<times> int \<times> rbd_obj_request \<times> world) outcome" where
  "write_copyup_done dev obj result w =
     (if result \<noteq> 0 then Ok (True, result, obj, w)
      else
        bind_outcome (rbd_obj_write_post_object_map dev obj w) (\<lambda>(ret, w).
          if ret < 0 then Ok (True, ret, obj, w)
          else
            let obj = obj\<lparr>write_state := RBD_OBJ_WRITE_POST_OBJECT_MAP\<rparr> in
            if ret > 0 then write_post_done obj result w else Ok (False, result, obj, w)))"

definition write_copyup_pending ::
    "rbd_device \<Rightarrow> rbd_img_request \<Rightarrow> rbd_obj_request \<Rightarrow> int \<Rightarrow> world \<Rightarrow>
     (bool \<times> int \<times> rbd_obj_request \<times> world) outcome" where
  "write_copyup_pending dev img obj result w =
     bind_outcome (rbd_obj_advance_copyup dev img obj result w) (\<lambda>(done, result, obj, w).
       if \<not> done then Ok (False, result, obj, w) else write_copyup_done dev obj result w)"

definition write_object_done ::
    "rbd_device \<Rightarrow> rbd_img_request \<Rightarrow> rbd_obj_request \<Rightarrow> int \<Rightarrow> world \<Rightarrow>
     (bool \<times> int \<times> rbd_obj_request \<times> world) outcome" where
  "write_object_done dev img obj result w =
     (if result = RET_ENOENT \<and> RBD_OBJ_FLAG_COPYUP_ENABLED \<in> obj_flags obj then
        write_copyup_pending dev img
          (obj\<lparr>copyup_state := RBD_OBJ_COPYUP_START, write_state := RBD_OBJ_WRITE_COPYUP_PENDING\<rparr>) 0 w
      else
        let result = (if result = RET_ENOENT \<and> RBD_OBJ_FLAG_DELETION \<in> obj_flags obj then 0 else result) in
        if result \<noteq> 0 then Ok (True, result, obj, w)
        else write_copyup_done dev (obj\<lparr>write_state := RBD_OBJ_WRITE_COPYUP\<rparr>) result w)"

definition write_pre_done ::
    "rbd_device \<Rightarrow> rbd_img_request \<Rightarrow> rbd_obj_request \<Rightarrow> int \<Rightarrow> world \<Rightarrow>
     (bool \<times> int \<times> rbd_obj_request \<times> world) outcome" where
  "write_pre_done dev img obj result w =
     (if result \<noteq> 0 then Ok (True, result, obj, w)
      else
        bind_outcome (rbd_obj_write_object dev img obj w) (\<lambda>(ret, w).
          if ret \<noteq> 0 then Ok (True, ret, obj, w)
          else Ok (False, result, obj\<lparr>write_state := RBD_OBJ_WRITE_OBJECT\<rparr>, w)))"

definition write_start ::
    "rbd_device \<Rightarrow> rbd_img_request \<Rightarrow> rbd_obj_request \<Rightarrow> int \<Rightarrow> world \<Rightarrow>
     (bool \<times> int \<times> rbd_obj_request \<times> world) outcome" where
  "write_start dev img obj result w =
     rbd_assert (result = 0)
       (bind_outcome (rbd_obj_write_is_noop dev obj) (\<lambda>(noop, obj).
        if noop then Ok (True, result, obj, w)
        else
          bind_outcome (rbd_obj_write_pre_object_map dev obj w) (\<lambda>(ret, w).
            if ret < 0 then Ok (True, ret, obj, w)
            else
              let obj = obj\<lparr>write_state := RBD_OBJ_WRITE_PRE_OBJECT_MAP\<rparr> in
              if ret > 0 then write_pre_done dev img obj result w else Ok (False, result, obj, w))))"

definition rbd_obj_advance_write ::
    "rbd_device \<Rightarrow> rbd_img_request \<Rightarrow> rbd_obj_request \<Rightarrow> int \<Rightarrow> world \<Rightarrow>
     (bool \<times> int \<times> rbd_obj_request \<times> world) outcome" where
  "rbd_obj_advance_write dev img obj result w =
     (case write_state obj of
        RBD_OBJ_WRITE_START \<Rightarrow> write_start dev img obj result w
      | RBD_OBJ_WRITE_PRE_OBJECT_MAP \<Rightarrow> write_pre_done dev img obj result w
      | RBD_OBJ_WRITE_OBJECT \<Rightarrow> write_object_done dev img obj result w
      | RBD_OBJ_WRITE_COPYUP_PENDING \<Rightarrow> write_copyup_pending dev img obj result w
      | RBD_OBJ_WRITE_COPYUP \<Rightarrow> write_copyup_done dev obj result w
      | RBD_OBJ_WRITE_POST_OBJECT_MAP \<Rightarrow> write_post_done obj result w)"

text \<open>\<open>__rbd_obj_handle_request\<close>.\<close>

definition rbd_obj_handle_request ::
    "rbd_device \<Rightarrow> rbd_img_request \<Rightarrow> rbd_obj_request \<Rightarrow> int \<Rightarrow> world \<Rightarrow>
     (bool \<times> int \<times> rbd_obj_request \<times> world) outcome" where
  "rbd_obj_handle_request dev img obj result w =
     bind_outcome
       (if \<not> rbd_img_is_write img then rbd_obj_advance_read dev img obj result w
        else rbd_obj_advance_write dev img obj result w) (\<lambda>(done, result, obj, w).
       if done \<and> result \<noteq> 0 then rbd_assert (result < 0) (Ok (done, result, obj, w))
       else Ok (done, result, obj, w))"

end
