(* ===== verification/RbdProgress.thy ===== *)
theory RbdProgress
  imports RbdRequest
begin

text \<open>
  Progress of object requests: every handler of \<open>RbdRequest\<close>, run in a state that an object request can
  be in, returns without a fault, and either completes the object request with nothing in flight or
  leaves it waiting for at least one request in a later phase. The phases and the measure are defined here; the step relation and
  the theorems about complete runs are at the end.
\<close>

unbundle bit_operations_syntax

section \<open>What the helpers hand out\<close>

definition world_ok :: "world \<Rightarrow> bool" where
  "world_ok w \<longleftrightarrow> (\<forall>r\<in>set (w_rets w). r \<le> 0)"

definition quietly :: "world \<Rightarrow> world \<Rightarrow> bool" where
  "quietly w w' \<longleftrightarrow> world_ok w' \<and> w_log w' = w_log w"

text \<open>A fallible call: an error and nothing handed out, or exactly one request that satisfies \<open>P\<close>.\<close>

definition issued :: "(submission \<Rightarrow> bool) \<Rightarrow> int \<Rightarrow> world \<Rightarrow> world \<Rightarrow> bool" where
  "issued P ret w w' \<longleftrightarrow>
     world_ok w' \<and>
     (ret < 0 \<and> w_log w' = w_log w \<or> ret = 0 \<and> (\<exists>sub. P sub \<and> w_log w' = w_log w @ [sub]))"

lemma quietly_trans: "quietly w w' \<Longrightarrow> quietly w' w'' \<Longrightarrow> quietly w w''"
  by (simp add: quietly_def)

lemma quietly_issued: "quietly w w' \<Longrightarrow> issued P ret w' w'' \<Longrightarrow> issued P ret w w''"
  by (simp add: quietly_def issued_def)

lemma quietly_failed: "quietly w w' \<Longrightarrow> ret < 0 \<Longrightarrow> issued P ret w w'"
  by (simp add: quietly_def issued_def)

lemma issued_mono: "issued P ret w w' \<Longrightarrow> (\<And>sub. P sub \<Longrightarrow> Q sub) \<Longrightarrow> issued Q ret w w'"
  by (auto simp: issued_def)

lemma call_quiet:
  assumes "world_ok w" and "call w = (r, w')"
  shows "r \<le> 0 \<and> quietly w w'"
proof (cases "w_rets w")
  case Nil
  then show ?thesis using assms by (auto simp: call_def quietly_def)
next
  case (Cons a rs)
  then show ?thesis using assms by (auto simp: call_def quietly_def world_ok_def)
qed

lemma quietly_ok: "quietly w w' \<Longrightarrow> world_ok w'"
  by (simp add: quietly_def)

lemma add_osd_request_quiet:
  assumes "world_ok w" and "rbd_obj_add_osd_request w = (r, w')"
  shows "r \<le> 0 \<and> quietly w w'"
proof -
  obtain r1 w1 where c: "call w = (r1, w1)" by (cases "call w")
  note q1 = call_quiet [OF assms(1) c]
  show ?thesis
  proof (cases "r1 = 0")
    case True
    then have "call w1 = (r, w')" using assms(2) c by (simp add: rbd_obj_add_osd_request_def)
    then show ?thesis using call_quiet [OF quietly_ok [of w w1]] q1 quietly_trans by blast
  next
    case False
    then show ?thesis using assms(2) c q1 by (auto simp: rbd_obj_add_osd_request_def)
  qed
qed

lemma osd_submit_issued:
  assumes "world_ok w" and "length ops \<le> n"
  shows "\<exists>ret w'. osd_submit snapc n ops w = Ok (ret, w') \<and> issued (\<lambda>sub. sub = Osd_request snapc n ops) ret w w'"
proof -
  obtain r w1 where c: "call w = (r, w1)" by (cases "call w")
  note q = call_quiet [OF assms(1) c]
  show ?thesis
    using assms(2) c q by (cases "r = 0") (auto simp: osd_submit_def submit_def issued_def quietly_def world_ok_def)
qed

text \<open>One more fallible call in front, whose error code is returned or replaced by a fixed one.\<close>

lemma call_then:
  assumes w: "world_ok w" and neg: "\<And>r. r < 0 \<Longrightarrow> e r < 0"
    and k: "\<And>w'. quietly w w' \<Longrightarrow> \<exists>ret w''. k w' = Ok (ret, w'') \<and> issued P ret w' w''"
  shows "\<exists>ret w'. (let (r, w') = call w in if r \<noteq> 0 then Ok (e r, w') else k w') = Ok (ret, w') \<and> issued P ret w w'"
proof -
  obtain r w1 where c: "call w = (r, w1)" by (cases "call w")
  note q = call_quiet [OF w c]
  show ?thesis
  proof (cases "r = 0")
    case True
    obtain ret w'' where "k w1 = Ok (ret, w'')" "issued P ret w1 w''" using k q by blast
    then show ?thesis using c True q quietly_issued by auto
  next
    case False
    then show ?thesis using c q neg [of r] quietly_failed by auto
  qed
qed

lemma add_then:
  assumes w: "world_ok w"
    and k: "\<And>w'. quietly w w' \<Longrightarrow> \<exists>ret w''. k w' = Ok (ret, w'') \<and> issued P ret w' w''"
  shows "\<exists>ret w'. (let (r, w') = rbd_obj_add_osd_request w in if r \<noteq> 0 then Ok (r, w') else k w') = Ok (ret, w') \<and>
     issued P ret w w'"
proof -
  obtain r w1 where c: "rbd_obj_add_osd_request w = (r, w1)" by (cases "rbd_obj_add_osd_request w")
  note q = add_osd_request_quiet [OF w c]
  show ?thesis
  proof (cases "r = 0")
    case True
    obtain ret w'' where "k w1 = Ok (ret, w'')" "issued P ret w1 w''" using k q by blast
    then show ?thesis using c True q quietly_issued by auto
  next
    case False
    then show ?thesis using c q quietly_failed by auto
  qed
qed

lemma maybe_call_then:
  assumes w: "world_ok w"
    and k: "\<And>w'. quietly w w' \<Longrightarrow> \<exists>ret w''. k w' = Ok (ret, w'') \<and> issued P ret w' w''"
  shows "\<exists>ret w'. (let (r, w') = (if c then call w else (0, w)) in if r \<noteq> 0 then Ok (r, w') else k w') = Ok (ret, w') \<and>
     issued P ret w w'"
proof (cases c)
  case True
  then show ?thesis using call_then [OF w _ k, of "\<lambda>r. r"] by simp
next
  case False
  have "quietly w w" using w by (simp add: quietly_def)
  then show ?thesis using False k by simp
qed

section \<open>Well-prepared object requests\<close>

definition data_ready :: "rbd_img_request \<Rightarrow> rbd_obj_request \<Rightarrow> bool" where
  "data_ready img obj \<longleftrightarrow>
     img_data_type img \<noteq> OBJ_REQUEST_NODATA \<and>
     (img_data_type img \<noteq> OBJ_REQUEST_BIO \<longrightarrow> bvec_bytes obj = oe_len (obj_ex obj) \<and> bvec_idx obj = bvec_count obj)"

definition has_object_map :: "rbd_device \<Rightarrow> bool" where
  "has_object_map dev \<longleftrightarrow> dev_features dev AND RBD_FEATURE_OBJECT_MAP \<noteq> 0"

definition max_extent_bytes :: nat where "max_extent_bytes = 2 ^ 31"

definition prepared :: "rbd_device \<Rightarrow> rbd_img_request \<Rightarrow> rbd_obj_request \<Rightarrow> bool" where
  "prepared dev img obj \<longleftrightarrow>
     (has_object_map dev \<longrightarrow> map_within dev (oe_objno (obj_ex obj))) \<and>
     CEPH_NOSNAP \<notin> set (img_snaps img) \<and>
     range_ok (dev_layout dev) (oe_objno (obj_ex obj)) (unat (oe_off (obj_ex obj))) (unat (oe_len (obj_ex obj))) \<and>
     unat (oe_len (obj_ex obj)) \<le> max_extent_bytes \<and>
     good_extents (img_extents obj) \<and> length (fes_bytes (img_extents obj)) \<le> max_extent_bytes \<and>
     (case img_op_type img of
        OBJ_OP_READ \<Rightarrow> data_ready img obj
      | OBJ_OP_WRITE \<Rightarrow> data_ready img obj
      | OBJ_OP_DISCARD \<Rightarrow>
          RBD_OBJ_FLAG_COPYUP_ENABLED \<notin> obj_flags obj \<and>
          (rbd_obj_is_entire dev obj \<and> img_extents obj = [] \<longrightarrow> RBD_OBJ_FLAG_DELETION \<in> obj_flags obj)
      | OBJ_OP_ZEROOUT \<Rightarrow>
          rbd_obj_is_entire dev obj \<longrightarrow>
            prune_extents (img_extents obj) (parent_overlap dev) \<noteq> [] \<or>
            img_extents obj = [] \<and> RBD_OBJ_FLAG_DELETION \<in> obj_flags obj)"

lemma write_ops_Ok:
  assumes "prepared dev img obj" and "rbd_img_is_write img"
  shows "\<exists>ops. rbd_osd_setup_write_ops dev img obj = Ok ops \<and> count_write_ops dev img obj = Ok (length ops)"
proof (cases "img_op_type img")
  case OBJ_OP_WRITE
  then have "data_ready img obj" using assms(1) by (simp add: prepared_def)
  then show ?thesis
    using OBJ_OP_WRITE
    by (auto simp: rbd_osd_setup_write_ops_def count_write_ops_def rbd_osd_setup_write_only_ops_def
        rbd_osd_setup_data_def data_ready_def rbd_assert_def Let_def split: obj_request_type.splits)
next
  case OBJ_OP_DISCARD
  then show ?thesis
    using assms(1) by (auto simp: prepared_def rbd_osd_setup_write_ops_def count_write_ops_def
        rbd_osd_setup_discard_ops_def rbd_assert_def)
next
  case OBJ_OP_ZEROOUT
  then have "rbd_obj_is_entire dev obj \<Longrightarrow> img_extents obj = [] \<Longrightarrow> RBD_OBJ_FLAG_DELETION \<in> obj_flags obj"
    using assms(1) by (auto simp: prepared_def)
  then show ?thesis
    using OBJ_OP_ZEROOUT
    by (auto simp: rbd_osd_setup_write_ops_def count_write_ops_def rbd_osd_setup_zeroout_ops_def rbd_assert_def Let_def)
qed (use assms(2) in \<open>simp add: rbd_img_is_write_def\<close>)

definition is_osd :: "submission \<Rightarrow> bool" where
  "is_osd sub \<longleftrightarrow> (\<exists>snapc n ops. sub = Osd_request snapc n ops \<and> length ops = n)"

lemma osd_submit_is_osd:
  assumes "world_ok w" and "length ops = n"
  shows "\<exists>ret w'. osd_submit snapc n ops w = Ok (ret, w') \<and> issued is_osd ret w w'"
proof -
  obtain ret w' where "osd_submit snapc n ops w = Ok (ret, w')" "issued (\<lambda>sub. sub = Osd_request snapc n ops) ret w w'"
    using osd_submit_issued [OF assms(1), of ops n snapc] assms(2) by auto
  then show ?thesis using issued_mono [of _ ret w w' is_osd] assms(2) by (auto simp: is_osd_def)
qed

text \<open>The shape shared by the writes: allocate, prepare the operation in front if there is one, submit.\<close>

lemma guarded_submit_issued:
  assumes w: "world_ok w" and ops: "length ops = n"
  shows "\<exists>ret w'. (let (r, w') = rbd_obj_add_osd_request w in if r \<noteq> 0 then Ok (r, w')
       else let (r, w') = (if g then call w' else (0, w')) in if r \<noteq> 0 then Ok (r, w')
         else osd_submit snapc (if g then n + 1 else n) ((if g then [op] else []) @ ops) w') = Ok (ret, w') \<and>
     issued is_osd ret w w'"
proof (rule add_then [OF w])
  fix w1
  assume w1: "quietly w w1"
  have "length ((if g then [op] else []) @ ops) = (if g then n + 1 else n)" using ops by simp
  from osd_submit_is_osd [OF quietly_ok this]
  show "\<exists>ret w''. (let (r, w') = (if g then call w1 else (0, w1)) in if r \<noteq> 0 then Ok (r, w')
      else osd_submit snapc (if g then n + 1 else n) ((if g then [op] else []) @ ops) w') = Ok (ret, w'') \<and>
     issued is_osd ret w1 w''"
    by (intro maybe_call_then [OF quietly_ok [OF w1]])
qed

lemma rbd_obj_write_object_issued:
  assumes p: "prepared dev img obj" "rbd_img_is_write img" and w: "world_ok w"
  shows "\<exists>ret w'. rbd_obj_write_object dev img obj w = Ok (ret, w') \<and> issued is_osd ret w w'"
proof -
  obtain ops where ops: "rbd_osd_setup_write_ops dev img obj = Ok ops" "count_write_ops dev img obj = Ok (length ops)"
    using write_ops_Ok [OF p] by blast
  let ?g = "RBD_OBJ_FLAG_COPYUP_ENABLED \<in> obj_flags obj"
  have eq: "rbd_obj_write_object dev img obj w =
      (let (r, w') = rbd_obj_add_osd_request w in if r \<noteq> 0 then Ok (r, w')
       else let (r, w') = (if ?g then call w' else (0, w')) in if r \<noteq> 0 then Ok (r, w')
         else osd_submit (Some (img_snaps img)) (if ?g then length ops + 1 else length ops)
                ((if ?g then [CEPH_OSD_OP_STAT] else []) @ ops) w')"
    by (simp add: rbd_obj_write_object_def ops Let_def split: prod.splits)
  show ?thesis unfolding eq by (rule guarded_submit_issued [OF w refl])
qed

lemma rbd_obj_copyup_current_issued:
  assumes p: "prepared dev img obj" "rbd_img_is_write img" and w: "world_ok w"
  shows "\<exists>ret w'. rbd_obj_copyup_current_snapc dev img obj bytes w = Ok (ret, w') \<and> issued is_osd ret w w'"
proof -
  obtain ops where ops: "rbd_osd_setup_write_ops dev img obj = Ok ops" "count_write_ops dev img obj = Ok (length ops)"
    using write_ops_Ok [OF p] by blast
  let ?g = "bytes \<noteq> MODS_ONLY"
  have eq: "rbd_obj_copyup_current_snapc dev img obj bytes w =
      (let (r, w') = rbd_obj_add_osd_request w in if r \<noteq> 0 then Ok (r, w')
       else let (r, w') = (if ?g then call w' else (0, w')) in if r \<noteq> 0 then Ok (r, w')
         else osd_submit (Some (img_snaps img)) (if ?g then length ops + 1 else length ops)
                ((if ?g then [RBD_COPYUP bytes] else []) @ ops) w')"
    by (simp add: rbd_obj_copyup_current_snapc_def ops Let_def split: prod.splits)
  show ?thesis unfolding eq by (rule guarded_submit_issued [OF w refl])
qed

lemma rbd_obj_copyup_empty_issued:
  assumes w: "world_ok w" and b: "bytes > 0" "bytes \<noteq> MODS_ONLY"
  shows "\<exists>ret w'. rbd_obj_copyup_empty_snapc bytes w = Ok (ret, w') \<and> issued is_osd ret w w'"
proof -
  have "rbd_obj_copyup_empty_snapc bytes w =
      (let (r, w') = rbd_obj_add_osd_request w in if r \<noteq> 0 then Ok (r, w')
       else let (r, w') = call w' in if r \<noteq> 0 then Ok (r, w') else osd_submit (Some []) 1 [RBD_COPYUP bytes] w')"
    using b by (simp add: rbd_obj_copyup_empty_snapc_def rbd_assert_def)
  then show ?thesis
    using guarded_submit_issued [OF w list.size(3), where g = True and op = "RBD_COPYUP bytes" and snapc = "Some []"]
    by (simp only: if_True append_Nil2 add_0)
qed

definition is_parent :: "submission \<Rightarrow> bool" where
  "is_parent sub \<longleftrightarrow> (\<exists>fes. sub = Parent_read fes)"

lemma rbd_obj_read_object_issued:
  assumes "data_ready img obj" and w: "world_ok w"
  shows "\<exists>ret w'. rbd_obj_read_object img obj w = Ok (ret, w') \<and> issued is_osd ret w w'"
proof -
  have "rbd_osd_setup_data img obj k = k" for k :: "(int \<times> world) outcome"
    using assms(1) by (auto simp: rbd_osd_setup_data_def data_ready_def rbd_assert_def split: obj_request_type.splits)
  then have eq: "rbd_obj_read_object img obj w = (let (r, w') = rbd_obj_add_osd_request w in
      if r \<noteq> 0 then Ok (r, w') else osd_submit None 1 [CEPH_OSD_OP_READ (oe_off (obj_ex obj)) (oe_len (obj_ex obj))] w')"
    by (simp add: rbd_obj_read_object_def split: prod.splits)
  show ?thesis unfolding eq by (rule add_then [OF w], rule osd_submit_is_osd, erule quietly_ok) simp
qed

lemma rbd_obj_read_from_parent_issued:
  assumes "rbd_img_is_write img \<or> img_data_type img \<noteq> OBJ_REQUEST_NODATA" and w: "world_ok w"
  shows "\<exists>ret w'. rbd_obj_read_from_parent img obj w = Ok (ret, w') \<and> issued is_parent ret w w'"
proof -
  have sub: "\<exists>ret w''. Ok (0, submit (Parent_read (img_extents obj)) w') = Ok (ret, w'') \<and> issued is_parent ret w' w''"
    if "quietly w1 w'" for w1 w'
    using quietly_ok [OF that] by (auto simp: issued_def submit_def world_ok_def is_parent_def)
  have inner: "\<exists>ret w''. (let (r, w2) = call w' in if r \<noteq> 0 then Ok (r, w2)
      else Ok (0, submit (Parent_read (img_extents obj)) w2)) = Ok (ret, w'') \<and> issued is_parent ret w' w''"
    if "quietly w w'" for w'
    by (rule call_then [OF quietly_ok [OF that], of "\<lambda>r. r"]) (use sub in blast)+
  have "rbd_obj_read_from_parent img obj w = (let (r, w') = call w in if r \<noteq> 0 then Ok (RET_ENOMEM, w')
      else let (r, w2) = call w' in if r \<noteq> 0 then Ok (r, w2) else Ok (0, submit (Parent_read (img_extents obj)) w2))"
    using assms(1) by (auto simp: rbd_obj_read_from_parent_def Let_def split: prod.splits)
  then show ?thesis using call_then [OF w, of "\<lambda>_. RET_ENOMEM", OF _ inner] by simp
qed

lemma quietly_refl: "world_ok w \<Longrightarrow> quietly w w"
  by (simp add: quietly_def)

definition is_map :: "u64 \<Rightarrow> submission \<Rightarrow> bool" where
  "is_map objno sub \<longleftrightarrow> (\<exists>snap_id new cur. two_bits new \<and>
     sub = Map_update snap_id (if snap_id = CEPH_NOSNAP then 2 else 1) (object_map_update_data objno new cur))"

text \<open>The update of the entry of an object in the map of the image or of a snapshot.\<close>

definition map_update_of :: "u64 \<Rightarrow> u64 \<Rightarrow> u8 \<Rightarrow> u8 option \<Rightarrow> submission" where
  "map_update_of objno snap_id new cur =
     Map_update snap_id (if snap_id = CEPH_NOSNAP then 2 else 1) (object_map_update_data objno new cur)"

lemma is_map_update: "two_bits new \<Longrightarrow> is_map objno (map_update_of objno snap_id new cur)"
  by (auto simp: is_map_def map_update_of_def)

lemma map_update_tail_issued:
  assumes w: "world_ok w"
  shows "\<exists>ret w'. (let (ret, data, w) = rbd_cls_object_map_update objno new_state cur w in
       if ret \<noteq> 0 then Ok (ret, w)
       else let (ret, w) = call w in
         if ret \<noteq> 0 then Ok (ret, w)
         else Ok (0, submit (Map_update snap_id (if snap_id = CEPH_NOSNAP then 2 else 1) data) w)) = Ok (ret, w') \<and>
     issued (\<lambda>sub. sub = map_update_of objno snap_id new_state cur) ret w w'"
proof -
  let ?s = "\<lambda>w. Ok (0, submit (Map_update snap_id (if snap_id = CEPH_NOSNAP then 2 else 1)
      (object_map_update_data objno new_state cur)) w)"
  have sub: "\<exists>ret w''. ?s w' = Ok (ret, w'') \<and> issued (\<lambda>sub. sub = map_update_of objno snap_id new_state cur) ret w' w''" if "quietly w0 w'" for w0 w'
    using quietly_ok [OF that]
    by (auto simp: issued_def submit_def world_ok_def map_update_of_def)
  have c3: "\<exists>ret w''. (let (r, w2) = call w' in if r \<noteq> 0 then Ok (r, w2) else ?s w2) = Ok (ret, w'') \<and>
      issued (\<lambda>sub. sub = map_update_of objno snap_id new_state cur) ret w' w''" if "quietly w0 w'" for w0 w'
    by (rule call_then [OF quietly_ok [OF that], of "\<lambda>r. r"]) (use sub in blast)+
  have c2: "\<exists>ret w''. (let (r, w1) = call w' in if r \<noteq> 0 then Ok (r, w1)
      else let (r, w2) = call w1 in if r \<noteq> 0 then Ok (r, w2) else ?s w2) = Ok (ret, w'') \<and>
      issued (\<lambda>sub. sub = map_update_of objno snap_id new_state cur) ret w' w''" if "quietly w0 w'" for w0 w'
    by (rule call_then [OF quietly_ok [OF that], of "\<lambda>r. r"]) (use c3 in blast)+
  have eq: "(let (ret, data, w) = rbd_cls_object_map_update objno new_state cur w in
       if ret \<noteq> 0 then Ok (ret, w)
       else let (ret, w) = call w in
         if ret \<noteq> 0 then Ok (ret, w)
         else Ok (0, submit (Map_update snap_id (if snap_id = CEPH_NOSNAP then 2 else 1) data) w)) =
     (let (r, w0) = call w in if r \<noteq> 0 then Ok (r, w0)
      else let (r, w1) = call w0 in if r \<noteq> 0 then Ok (r, w1)
      else let (r, w2) = call w1 in if r \<noteq> 0 then Ok (r, w2) else ?s w2)"
    by (simp add: rbd_cls_object_map_update_def Let_def split: prod.splits)
  show ?thesis unfolding eq
    by (rule call_then [OF w, of "\<lambda>r. r"]) (use c2 in blast)+
qed

lemma rbd_object_map_update_exact:
  assumes w: "world_ok w"
    and m: "snap_id = CEPH_NOSNAP \<Longrightarrow> map_within dev (oe_objno (obj_ex obj))"
  shows "\<exists>ret w'. rbd_object_map_update dev obj snap_id new_state cur w = Ok (ret, w') \<and>
     (issued (\<lambda>sub. sub = map_update_of (oe_objno (obj_ex obj)) snap_id new_state cur) ret w w' \<or>
      snap_id = CEPH_NOSNAP \<and> ret = 1 \<and> quietly w w' \<and> update_needed dev (oe_objno (obj_ex obj)) new_state = Ok False)"
proof -
  let ?o = "oe_objno (obj_ex obj)"
  obtain needed where needed:
    "(if snap_id = CEPH_NOSNAP then update_needed dev ?o new_state else Ok True) = Ok needed"
  proof (cases "snap_id = CEPH_NOSNAP")
    case True
    then obtain v where "rbd_object_map_get dev ?o = Ok v" using omap.get_Ok [OF m] by blast
    then show thesis using True that by (simp add: update_needed_def)
  qed (use that in simp)
  show ?thesis
  proof (cases needed)
    case False
    then have "snap_id = CEPH_NOSNAP" "update_needed dev ?o new_state = Ok False" using needed by (auto split: if_splits)
    then show ?thesis using needed False w by (simp add: rbd_object_map_update_def quietly_refl)
  next
    case True
    let ?tail = "\<lambda>w. let (ret, data, w) = rbd_cls_object_map_update ?o new_state cur w in
       if ret \<noteq> 0 then Ok (ret, w)
       else let (ret, w) = call w in
         if ret \<noteq> 0 then Ok (ret, w)
         else Ok (0, submit (Map_update snap_id (if snap_id = CEPH_NOSNAP then 2 else 1) data) w)"
    have tail: "\<exists>ret w''. ?tail w' = Ok (ret, w'') \<and> issued (\<lambda>sub. sub = map_update_of ?o snap_id new_state cur) ret w' w''" if "quietly w0 w'" for w0 w'
      using map_update_tail_issued [OF quietly_ok [OF that]] .
    have lock: "\<exists>ret w''. (let (r, w1) = (if snap_id = CEPH_NOSNAP then call w' else (0, w')) in
        if r \<noteq> 0 then Ok (r, w1) else ?tail w1) = Ok (ret, w'') \<and> issued (\<lambda>sub. sub = map_update_of ?o snap_id new_state cur) ret w' w''" if "quietly w w'" for w'
      by (rule maybe_call_then [OF quietly_ok [OF that]]) (use tail in blast)
    have eq: "rbd_object_map_update dev obj snap_id new_state cur w =
       (let (r, w0) = call w in if r \<noteq> 0 then Ok (RET_ENOMEM, w0)
        else let (r, w1) = (if snap_id = CEPH_NOSNAP then call w0 else (0, w0)) in
          if r \<noteq> 0 then Ok (r, w1) else ?tail w1)"
      unfolding rbd_object_map_update_def needed using True by simp
    have "\<exists>ret w'. rbd_object_map_update dev obj snap_id new_state cur w = Ok (ret, w') \<and> issued (\<lambda>sub. sub = map_update_of ?o snap_id new_state cur) ret w w'"
      unfolding eq by (rule call_then [OF w, of "\<lambda>_. RET_ENOMEM"]) (simp, use lock in blast)
    then show ?thesis by blast
  qed
qed

lemma rbd_object_map_update_issued:
  assumes w: "world_ok w" and new: "two_bits new_state"
    and m: "snap_id = CEPH_NOSNAP \<Longrightarrow> map_within dev (oe_objno (obj_ex obj))"
  shows "\<exists>ret w'. rbd_object_map_update dev obj snap_id new_state cur w = Ok (ret, w') \<and>
     (issued (is_map (oe_objno (obj_ex obj))) ret w w' \<or>
      snap_id = CEPH_NOSNAP \<and> ret = 1 \<and> quietly w w' \<and> update_needed dev (oe_objno (obj_ex obj)) new_state = Ok False)"
proof -
  obtain ret w' where u: "rbd_object_map_update dev obj snap_id new_state cur w = Ok (ret, w')"
    "issued (\<lambda>sub. sub = map_update_of (oe_objno (obj_ex obj)) snap_id new_state cur) ret w w' \<or>
      snap_id = CEPH_NOSNAP \<and> ret = 1 \<and> quietly w w' \<and> update_needed dev (oe_objno (obj_ex obj)) new_state = Ok False"
    using rbd_object_map_update_exact [OF w m, of snap_id new_state cur] by blast
  from u(2) show ?thesis
  proof
    assume i: "issued (\<lambda>sub. sub = map_update_of (oe_objno (obj_ex obj)) snap_id new_state cur) ret w w'"
    have "issued (is_map (oe_objno (obj_ex obj))) ret w w'" by (rule issued_mono [OF i]) (simp add: is_map_update [OF new])
    then show ?thesis using u(1) by blast
  qed (use u(1) in blast)
qed

section \<open>Extents\<close>

lemma neg_errno_neg: "neg_errno e < 0"
  by (cases e) (simp_all add: neg_errno_def)

text \<open>The bytes of the parent image below an object request: the file positions of its bytes that are below the overlap.\<close>

definition parent_bytes :: "rbd_device \<Rightarrow> rbd_obj_request \<Rightarrow> nat list" where
  "parent_bytes dev obj =
     filter (\<lambda>b. b < unat (parent_overlap dev))
       (map (\<lambda>j. file_byte (dev_layout dev) (unat (oe_objno (obj_ex obj)), j))
         [unat (oe_off (obj_ex obj))..<unat (oe_off (obj_ex obj)) + unat (oe_len (obj_ex obj))])"

text \<open>Reverse mapping succeeds or fails for lack of memory; it hands out nothing, and its extents cover exactly these bytes.\<close>

lemma rbd_obj_calc_img_extents_Ok:
  assumes w: "world_ok w" and r: "range_ok (dev_layout dev) (oe_objno (obj_ex obj)) (unat (oe_off (obj_ex obj))) (unat (oe_len (obj_ex obj)))"
    and g: "good_extents (img_extents obj)" "length (fes_bytes (img_extents obj)) \<le> max_extent_bytes"
    and len: "unat (oe_len (obj_ex obj)) \<le> max_extent_bytes"
  shows "\<exists>ret fes w'. rbd_obj_calc_img_extents dev obj False w = Ok (ret, obj\<lparr>img_extents := fes\<rparr>, w') \<and> ret \<le> 0 \<and>
     quietly w w' \<and> good_extents fes \<and> length (fes_bytes fes) \<le> max_extent_bytes \<and>
     (ret = 0 \<and> (parent_overlap dev \<noteq> 0 \<or> img_extents obj = []) \<longrightarrow> fes_bytes fes = parent_bytes dev obj)"
proof (cases "parent_overlap dev = 0")
  case True
  have "rbd_obj_calc_img_extents dev obj False w = Ok (0, obj\<lparr>img_extents := img_extents obj\<rparr>, w)"
    using True by (simp add: rbd_obj_calc_img_extents_def)
  moreover have "img_extents obj = [] \<longrightarrow> fes_bytes (img_extents obj) = parent_bytes dev obj"
    using True by (simp add: parent_bytes_def fes_bytes_def)
  ultimately show ?thesis using w g True quietly_refl by blast
next
  case False
  obtain r1 w1 where c: "call w = (r1, w1)" by (cases "call w")
  note q = call_quiet [OF w c]
  let ?ex = "obj_ex obj"
  obtain fes where fes: "ceph_extent_to_file (\<lambda>_. True) (dev_layout dev) (oe_objno ?ex) (oe_off ?ex) (oe_len ?ex) = Ok fes"
    "good_extents fes"
    "fes_bytes fes = map (\<lambda>j. file_byte (dev_layout dev) (unat (oe_objno ?ex), j)) [unat (oe_off ?ex)..<unat (oe_off ?ex) + unat (oe_len ?ex)]"
    using extents_of_range [OF r] by blast
  have l: "length (fes_bytes fes) \<le> max_extent_bytes" unfolding fes(3) using len by simp
  show ?thesis
  proof (cases "r1 = 0")
    case True
    let ?p = "prune_extents fes (parent_overlap dev)"
    have p: "fes_bytes ?p = filter (\<lambda>b. b < unat (parent_overlap dev)) (fes_bytes fes)" "good_extents ?p"
      using prune_extents_bytes [OF fes(2)] by auto
    have "length (fes_bytes ?p) \<le> max_extent_bytes"
      unfolding p(1) using l length_filter_le order_trans by blast
    moreover have "rbd_obj_calc_img_extents dev obj False w = Ok (0, obj\<lparr>img_extents := ?p\<rparr>, w1)"
      using False True c fes(1) by (simp add: rbd_obj_calc_img_extents_def)
    moreover have "fes_bytes ?p = parent_bytes dev obj" unfolding p(1) fes(3) by (simp add: parent_bytes_def)
    ultimately show ?thesis using q p(2) by auto
  next
    case fail: False
    have v: "stripe_unit (dev_layout dev) \<noteq> 0" using r by (auto simp: range_ok_def valid_layout_def)
    show ?thesis
    proof (cases "oe_len ?ex = 0")
      case True
      have "rbd_obj_calc_img_extents dev obj False w = Ok (0, obj\<lparr>img_extents := []\<rparr>, w1)"
        using False fail True c v by (simp add: rbd_obj_calc_img_extents_def ceph_extent_to_file_def Let_def)
      then show ?thesis using q True by (auto simp: good_extents_def fes_bytes_def parent_bytes_def)
    next
      case len: False
      have "rbd_obj_calc_img_extents dev obj False w = Ok (neg_errno ENOMEM, obj\<lparr>img_extents := img_extents obj\<rparr>, w1)"
        using False fail len c v by (simp add: rbd_obj_calc_img_extents_def ceph_extent_to_file_def Let_def)
      moreover have "neg_errno ENOMEM \<le> 0" "neg_errno ENOMEM \<noteq> 0" using neg_errno_neg [of ENOMEM] by simp_all
      ultimately show ?thesis using q g by blast
    qed
  qed
qed

text \<open>The pages for the copyup data cover the extents exactly.\<close>

lemma copyup_bvecs_loop_Ok:
  assumes "world_ok w" and "unat obj_overlap \<le> 4096 * n"
  shows "\<exists>ret left bvecs' w'. copyup_bvecs_loop n obj_overlap bvecs w = (ret, left, bvecs', w') \<and> ret \<le> 0 \<and> quietly w w' \<and>
     (ret = 0 \<longrightarrow> left = 0)"
  using assms
proof (induction n arbitrary: obj_overlap bvecs w)
  case 0
  then show ?case by (simp add: quietly_refl unat_eq_zero)
next
  case (Suc n)
  obtain r w1 where c: "call w = (r, w1)" by (cases "call w")
  note q = call_quiet [OF Suc.prems(1) c]
  let ?len = "ucast (min obj_overlap 4096) :: u32"
  have m: "unat (min obj_overlap 4096) = min (unat obj_overlap) 4096" by (simp add: unat_min)
  then have l: "unat ?len = min (unat obj_overlap) 4096" by (subst unat_ucast_64_32) simp_all
  have "unat (obj_overlap - ucast ?len) = unat obj_overlap - min (unat obj_overlap) 4096"
    using l by (subst unat_sub_no_wrap) simp_all
  moreover have "unat obj_overlap - min (unat obj_overlap) 4096 \<le> 4096 * n"
    using Suc.prems(2) by (auto simp: min_def le_diff_conv)
  ultimately have rest: "unat (obj_overlap - ucast ?len) \<le> 4096 * n" by (simp only:)
  show ?case
  proof (cases "r = 0")
    case True
    let ?bvecs = "bvecs @ [\<lparr>bv_len = ?len, bv_data = replicate (unat ?len) 0\<rparr>]"
    have w1: "quietly w w1" "world_ok w1" using q quietly_ok by auto
    obtain ret left bvecs' w' where l: "copyup_bvecs_loop n (obj_overlap - ucast ?len) ?bvecs w1 = (ret, left, bvecs', w')"
      "ret \<le> 0" "quietly w1 w'" "ret = 0 \<longrightarrow> left = 0"
      using Suc.IH [OF w1(2) rest, of ?bvecs] by (elim exE conjE) (rule that)
    have "copyup_bvecs_loop (Suc n) obj_overlap bvecs w = (ret, left, bvecs', w')"
      using True c l(1) by (simp add: Let_def)
    then show ?thesis using l(2,4) quietly_trans [OF w1(1) l(3)] by blast
  next
    case False
    then show ?thesis using c q by (auto simp: Let_def)
  qed
qed

lemma setup_copyup_bvecs_Ok:
  assumes w: "world_ok w" and b: "copyup_bvecs obj = None" and o: "unat obj_overlap \<le> max_extent_bytes"
  shows "\<exists>ret obj' w'. setup_copyup_bvecs obj obj_overlap w = Ok (ret, obj', w') \<and> ret \<le> 0 \<and> quietly w w' \<and>
     (\<exists>bv. obj' = obj\<lparr>copyup_bvecs := bv\<rparr> \<and> (ret = 0 \<longrightarrow> bv \<noteq> None))"
proof -
  obtain r w1 where c: "call w = (r, w1)" by (cases "call w")
  note q = call_quiet [OF w c]
  let ?n = "unat (drop_bit 12 (obj_overlap + 4095))"
  have "unat (obj_overlap + 4095) = unat obj_overlap + 4095"
    using o by (subst unat_add_no_wrap) (simp_all add: max_extent_bytes_def)
  then have "?n = (unat obj_overlap + 4095) div 4096" unfolding unat_drop_bit_eq by (simp add: drop_bit_eq_div)
  then have n: "unat obj_overlap \<le> 4096 * ?n" by simp
  show ?thesis
  proof (cases "r = 0")
    case True
    obtain ret left bvecs w' where l: "copyup_bvecs_loop ?n obj_overlap [] w1 = (ret, left, bvecs, w')" "ret \<le> 0"
      "quietly w1 w'" "ret = 0 \<longrightarrow> left = 0"
      using copyup_bvecs_loop_Ok [OF _ n, of w1 "[]"] q quietly_ok by blast
    have "setup_copyup_bvecs obj obj_overlap w = Ok (ret, obj\<lparr>copyup_bvecs := Some bvecs\<rparr>, w')"
      using True c b l(1,4) by (simp add: setup_copyup_bvecs_def rbd_assert_def Let_def)
    then show ?thesis using l(2,3) q quietly_trans by blast
  next
    case False
    have "setup_copyup_bvecs obj obj_overlap w = Ok (RET_ENOMEM, obj\<lparr>copyup_bvecs := copyup_bvecs obj\<rparr>, w1)"
      using False c b by (simp add: setup_copyup_bvecs_def rbd_assert_def Let_def)
    moreover have "RET_ENOMEM \<le> 0" "RET_ENOMEM \<noteq> 0" by simp_all
    ultimately show ?thesis using q by blast
  qed
qed

section \<open>Phases of an object request\<close>

definition quiet :: "rbd_obj_request \<Rightarrow> bool" where
  "quiet obj \<longleftrightarrow> pr_result (obj_pending obj) = 0 \<and> num_pending (obj_pending obj) = 0"

text \<open>Nothing of a copyup has been set up yet.\<close>

definition fresh :: "rbd_obj_request \<Rightarrow> bool" where
  "fresh obj \<longleftrightarrow> quiet obj \<and> copyup_bvecs obj = None \<and>
     (RBD_OBJ_FLAG_COPYUP_ENABLED \<in> obj_flags obj \<longrightarrow> img_extents obj \<noteq> [])"

text \<open>The requests \<open>out\<close> that an object request waits for in each state.\<close>

definition phase :: "rbd_img_request \<Rightarrow> rbd_obj_request \<Rightarrow> submission list \<Rightarrow> bool" where
  "phase img obj out \<longleftrightarrow>
     (if rbd_img_is_write img then
        (case write_state obj of
           RBD_OBJ_WRITE_START \<Rightarrow> False
         | RBD_OBJ_WRITE_PRE_OBJECT_MAP \<Rightarrow> length out = 1 \<and> fresh obj
         | RBD_OBJ_WRITE_OBJECT \<Rightarrow> length out = 1 \<and> fresh obj
         | RBD_OBJ_WRITE_COPYUP_PENDING \<Rightarrow>
             (case copyup_state obj of
                RBD_OBJ_COPYUP_START \<Rightarrow> False
              | RBD_OBJ_COPYUP_READ_PARENT \<Rightarrow> length out = 1 \<and> quiet obj \<and> copyup_bvecs obj \<noteq> None
              | RBD_OBJ_COPYUP_OBJECT_MAPS_PENDING \<Rightarrow>
                  out \<noteq> [] \<and> length out = num_pending (obj_pending obj) \<and> pr_result (obj_pending obj) \<le> 0
              | RBD_OBJ_COPYUP_OBJECT_MAPS \<Rightarrow> False
              | RBD_OBJ_COPYUP_WRITE_OBJECT_PENDING \<Rightarrow>
                  out \<noteq> [] \<and> length out = num_pending (obj_pending obj) \<and> pr_result (obj_pending obj) \<le> 0
              | RBD_OBJ_COPYUP_WRITE_OBJECT \<Rightarrow> length out = 1)
         | RBD_OBJ_WRITE_COPYUP \<Rightarrow> False
         | RBD_OBJ_WRITE_POST_OBJECT_MAP \<Rightarrow> length out = 1)
      else
        (case read_state obj of
           RBD_OBJ_READ_START \<Rightarrow> False
         | RBD_OBJ_READ_OBJECT \<Rightarrow> length out = 1
         | RBD_OBJ_READ_PARENT \<Rightarrow> length out = 1 \<and> (\<forall>sub\<in>set out. is_parent sub)))"

text \<open>How far an object request still has to go.\<close>

definition rank :: "rbd_img_request \<Rightarrow> rbd_obj_request \<Rightarrow> nat" where
  "rank img obj =
     (if rbd_img_is_write img then
        (case write_state obj of
           RBD_OBJ_WRITE_START \<Rightarrow> 8
         | RBD_OBJ_WRITE_PRE_OBJECT_MAP \<Rightarrow> 7
         | RBD_OBJ_WRITE_OBJECT \<Rightarrow> 6
         | RBD_OBJ_WRITE_COPYUP_PENDING \<Rightarrow>
             (case copyup_state obj of
                RBD_OBJ_COPYUP_START \<Rightarrow> 6
              | RBD_OBJ_COPYUP_READ_PARENT \<Rightarrow> 5
              | RBD_OBJ_COPYUP_OBJECT_MAPS_PENDING \<Rightarrow> 4
              | RBD_OBJ_COPYUP_OBJECT_MAPS \<Rightarrow> 4
              | RBD_OBJ_COPYUP_WRITE_OBJECT_PENDING \<Rightarrow> 3
              | RBD_OBJ_COPYUP_WRITE_OBJECT \<Rightarrow> 2)
         | RBD_OBJ_WRITE_COPYUP \<Rightarrow> 2
         | RBD_OBJ_WRITE_POST_OBJECT_MAP \<Rightarrow> 1)
      else
        (case read_state obj of RBD_OBJ_READ_START \<Rightarrow> 3 | RBD_OBJ_READ_OBJECT \<Rightarrow> 2 | RBD_OBJ_READ_PARENT \<Rightarrow> 1))"

definition sub_ok :: "rbd_device \<Rightarrow> rbd_obj_request \<Rightarrow> submission \<Rightarrow> bool" where
  "sub_ok dev obj sub \<longleftrightarrow>
     is_osd sub \<or> is_parent sub \<or> has_object_map dev \<and> is_map (oe_objno (obj_ex obj)) sub"

definition max_out :: "rbd_img_request \<Rightarrow> nat" where
  "max_out img = max 2 (length (img_snaps img))"

text \<open>What a handler has to leave behind: done with a result, or waiting in an earlier phase.\<close>

definition handled :: "nat \<Rightarrow> rbd_device \<Rightarrow> rbd_img_request \<Rightarrow> rbd_obj_request \<Rightarrow> world \<Rightarrow>
    (bool \<times> int \<times> rbd_obj_request \<times> world) outcome \<Rightarrow> bool" where
  "handled n dev img obj w r \<longleftrightarrow>
     (\<exists>done res obj' w' subs. r = Ok (done, res, obj', w') \<and> world_ok w' \<and> prepared dev img obj' \<and>
        obj_ex obj' = obj_ex obj \<and> w_log w' = w_log w @ subs \<and> list_all (sub_ok dev obj) subs \<and>
        (if done then res \<le> 0 \<and> subs = []
         else rank img obj' < n \<and> length subs \<le> max_out img \<and> phase img obj' subs))"

lemma handled_done:
  "quietly w w' \<Longrightarrow> prepared dev img obj' \<Longrightarrow> obj_ex obj' = obj_ex obj \<Longrightarrow> res \<le> 0 \<Longrightarrow>
     handled n dev img obj w (Ok (True, res, obj', w'))"
  by (auto simp: handled_def quietly_def)

lemma handled_wait:
  "world_ok w' \<Longrightarrow> prepared dev img obj' \<Longrightarrow> obj_ex obj' = obj_ex obj \<Longrightarrow> w_log w' = w_log w @ subs \<Longrightarrow>
     list_all (sub_ok dev obj) subs \<Longrightarrow> rank img obj' < n \<Longrightarrow> length subs \<le> max_out img \<Longrightarrow> phase img obj' subs \<Longrightarrow>
     handled n dev img obj w (Ok (False, res, obj', w'))"
  by (auto simp: handled_def)

lemma handled_mono: "handled m dev img obj w r \<Longrightarrow> m \<le> n \<Longrightarrow> handled n dev img obj w r"
  unfolding handled_def by (elim exE conjE) (auto split: if_splits)

text \<open>A handler may run after calls that handed out nothing, and on an object request with the same extent.\<close>

lemma handled_quietly:
  assumes "handled n dev img obj' w' r" and "quietly w w'" and "obj_ex obj' = obj_ex obj"
  shows "handled n dev img obj w r"
proof -
  have "sub_ok dev obj' = sub_ok dev obj" using assms(3) by (simp add: sub_ok_def fun_eq_iff)
  then show ?thesis using assms by (simp add: handled_def quietly_def)
qed

lemma prepared_upd [simp]:
  "prepared dev img (obj\<lparr>write_state := ws\<rparr>) = prepared dev img obj"
  "prepared dev img (obj\<lparr>read_state := rs\<rparr>) = prepared dev img obj"
  "prepared dev img (obj\<lparr>copyup_state := cs\<rparr>) = prepared dev img obj"
  "prepared dev img (obj\<lparr>copyup_bvecs := bv\<rparr>) = prepared dev img obj"
  "prepared dev img (obj\<lparr>obj_pending := p\<rparr>) = prepared dev img obj"
  "prepared dev img (obj\<lparr>obj_flags := insert RBD_OBJ_FLAG_MAY_EXIST (obj_flags obj)\<rparr>) = prepared dev img obj"
  "prepared dev img (obj\<lparr>obj_flags := insert RBD_OBJ_FLAG_COPYUP_ZEROS (obj_flags obj)\<rparr>) = prepared dev img obj"
  by (simp_all add: prepared_def data_ready_def rbd_obj_is_entire_def cong: obj_operation_type.case_cong)

lemma one_max_out [simp]: "Suc 0 \<le> max_out img" "2 \<le> max_out img" "length (img_snaps img) \<le> max_out img"
  by (simp_all add: max_out_def)

section \<open>Writing\<close>

lemma write_copyup_done_handled:
  assumes p: "prepared dev img obj" "rbd_img_is_write img" and w: "world_ok w" and r: "result \<le> 0"
  shows "handled 2 dev img obj w (write_copyup_done dev obj result w)"
proof (cases "result = 0 \<and> has_object_map dev \<and> RBD_OBJ_FLAG_DELETION \<in> obj_flags obj")
  case False
  then show ?thesis
    using p w r quietly_refl
    by (auto simp: write_copyup_done_def rbd_obj_write_post_object_map_def has_object_map_def write_post_done_def Let_def
        intro!: handled_done)
next
  case True
  have m: "map_within dev (oe_objno (obj_ex obj))" using p(1) True by (simp add: prepared_def)
  have tb: "two_bits OBJECT_NONEXISTENT" by (simp add: two_bits_def)
  obtain ret w' where u: "rbd_object_map_update dev obj CEPH_NOSNAP OBJECT_NONEXISTENT (Some OBJECT_PENDING) w = Ok (ret, w')"
    "issued (is_map (oe_objno (obj_ex obj))) ret w w' \<or> ret = 1 \<and> quietly w w'"
    using rbd_object_map_update_issued [OF w tb, of CEPH_NOSNAP dev obj "Some OBJECT_PENDING"] m by blast
  let ?obj = "obj\<lparr>write_state := RBD_OBJ_WRITE_POST_OBJECT_MAP\<rparr>"
  have post: "rbd_obj_write_post_object_map dev obj w = Ok (ret, w')"
    using True u(1) by (simp add: rbd_obj_write_post_object_map_def has_object_map_def)
  consider (err) "ret < 0" "quietly w w'"
    | (sent) sub where "ret = 0" "world_ok w'" "is_map (oe_objno (obj_ex obj)) sub" "w_log w' = w_log w @ [sub]"
    | (skip) "ret = 1" "quietly w w'"
    using u(2) by (auto simp: issued_def quietly_def)
  then show ?thesis
  proof cases
    case err
    then show ?thesis using True post p(1) by (simp add: write_copyup_done_def handled_done)
  next
    case sent
    then have "write_copyup_done dev obj result w = Ok (False, result, ?obj, w')"
      using True post by (simp add: write_copyup_done_def Let_def)
    then show ?thesis
      using sent p True by (auto simp: sub_ok_def rank_def phase_def intro!: handled_wait [where subs = "[sub]"])
  next
    case skip
    then show ?thesis using True post p(1) by (simp add: write_copyup_done_def write_post_done_def Let_def handled_done)
  qed
qed

lemma pending_upd [simp]: "obj_ex (obj\<lparr>obj_pending := p\<rparr>) = obj_ex obj"
  by simp

text \<open>The object map updates of the snapshots: one request for each, up to the first error.\<close>

lemma copyup_maps_loop_Ok:
  assumes "prepared dev img obj" and "world_ok w" and "CEPH_NOSNAP \<notin> set snaps"
    and "pr_result (obj_pending obj) = 0"
  shows "\<exists>obj' w' subs. copyup_maps_loop dev img i snaps obj w = Ok (obj', w') \<and> world_ok w' \<and>
     (\<exists>p. obj' = obj\<lparr>obj_pending := p\<rparr> \<and> pr_result p \<le> 0 \<and> num_pending p = num_pending (obj_pending obj) + length subs) \<and>
     w_log w' = w_log w @ subs \<and> list_all (is_map (oe_objno (obj_ex obj))) subs \<and> length subs \<le> length snaps"
  using assms
proof (induction snaps arbitrary: i obj w)
  case Nil
  have "\<exists>p. obj = obj\<lparr>obj_pending := p\<rparr> \<and> pr_result p \<le> 0 \<and> num_pending p = num_pending (obj_pending obj) + 0"
    using Nil by (intro exI [of _ "obj_pending obj"]) simp
  then show ?case using Nil by (intro exI [of _ obj] exI [of _ w] exI [of _ "[]"]) simp
next
  case (Cons snap snaps)
  let ?o = "oe_objno (obj_ex obj)"
  let ?new = "if dev_features dev AND RBD_FEATURE_FAST_DIFF \<noteq> 0 \<and> i + 1 < length (img_snaps img)
     then OBJECT_EXISTS_CLEAN else OBJECT_EXISTS"
  have tb: "two_bits ?new" by (simp add: two_bits_def)
  have ns: "snap \<noteq> CEPH_NOSNAP" using Cons.prems(3) by auto
  obtain ret w1 where u: "rbd_object_map_update dev obj snap ?new None w = Ok (ret, w1)" "issued (is_map ?o) ret w w1"
    using rbd_object_map_update_issued [OF Cons.prems(2) tb, of snap dev obj None] ns by blast
  show ?case
  proof (cases "ret < 0")
    case True
    let ?p = "(obj_pending obj)\<lparr>pr_result := ret\<rparr>"
    have "copyup_maps_loop dev img i (snap # snaps) obj w = Ok (obj\<lparr>obj_pending := ?p\<rparr>, w1)"
      using True u(1) by (simp add: Let_def)
    moreover have "w_log w1 = w_log w" "world_ok w1" using u(2) True by (auto simp: issued_def)
    ultimately show ?thesis
      using True by (intro exI [of _ "obj\<lparr>obj_pending := ?p\<rparr>"] exI [of _ w1] exI [of _ "[]"]) auto
  next
    case False
    then obtain sub where s: "ret = 0" "world_ok w1" "is_map ?o sub" "w_log w1 = w_log w @ [sub]"
      using u(2) by (auto simp: issued_def)
    let ?obj = "obj\<lparr>obj_pending := (obj_pending obj)\<lparr>num_pending := Suc (num_pending (obj_pending obj))\<rparr>\<rparr>"
    have "prepared dev img ?obj" "pr_result (obj_pending ?obj) = 0" "CEPH_NOSNAP \<notin> set snaps"
      using Cons.prems by auto
    from Cons.IH [OF this(1) s(2) this(3,2), of "Suc i"]
    obtain obj' w' subs p where r: "copyup_maps_loop dev img (Suc i) snaps ?obj w1 = Ok (obj', w')" "world_ok w'"
      "obj' = ?obj\<lparr>obj_pending := p\<rparr>" "pr_result p \<le> 0" "num_pending p = Suc (num_pending (obj_pending obj)) + length subs"
      "w_log w' = w_log w1 @ subs" "list_all (is_map ?o) subs" "length subs \<le> length snaps"
      by auto
    have "copyup_maps_loop dev img i (snap # snaps) obj w = Ok (obj\<lparr>obj_pending := p\<rparr>, w')"
      using s(1) u(1) r(1,3) by (simp add: Let_def rbd_assert_def)
    then show ?thesis
      using r s by (intro exI [of _ "obj\<lparr>obj_pending := p\<rparr>"] exI [of _ w'] exI [of _ "sub # subs"]) auto
  qed
qed

lemma list_all_sub_ok:
  "list_all is_osd subs \<Longrightarrow> list_all (sub_ok dev obj) subs"
  "list_all is_parent subs \<Longrightarrow> list_all (sub_ok dev obj) subs"
  "has_object_map dev \<Longrightarrow> list_all (is_map (oe_objno (obj_ex obj))) subs \<Longrightarrow> list_all (sub_ok dev obj) subs"
  by (auto simp: sub_ok_def list_all_iff)

text \<open>The writes of a copyup: up to two requests.\<close>

lemma extents_bytes_small:
  assumes "prepared dev img obj"
  shows "(ucast (rbd_obj_img_extents_bytes obj) :: u32) \<noteq> MODS_ONLY"
proof
  assume a: "(ucast (rbd_obj_img_extents_bytes obj) :: u32) = MODS_ONLY"
  have l: "length (fes_bytes (img_extents obj)) \<le> 2 ^ 31" using assms by (simp add: prepared_def max_extent_bytes_def)
  then have "unat (rbd_obj_img_extents_bytes obj) = length (fes_bytes (img_extents obj))"
    using unat_file_extents_bytes [of "img_extents obj"] by (simp add: rbd_obj_img_extents_bytes_def)
  then have "unat (ucast (rbd_obj_img_extents_bytes obj) :: u32) \<le> 2 ^ 31" using l by (subst unat_ucast_64_32) simp_all
  then show False unfolding a by (simp add: unsigned_minus_1_eq_mask mask_eq_exp_minus_1)
qed

lemma rbd_obj_copyup_write_object_Ok:
  assumes p: "prepared dev img obj" "rbd_img_is_write img" and w: "world_ok w" and q: "quiet obj"
  shows "\<exists>pd w' subs. rbd_obj_copyup_write_object dev img obj w = Ok (obj\<lparr>obj_pending := pd\<rparr>, w') \<and> world_ok w' \<and>
     pr_result pd \<le> 0 \<and> num_pending pd = length subs \<and> w_log w' = w_log w @ subs \<and> list_all is_osd subs \<and> length subs \<le> 2"
proof -
  define b where "b = (if RBD_OBJ_FLAG_COPYUP_ZEROS \<in> obj_flags obj then 0 else ucast (rbd_obj_img_extents_bytes obj) :: u32)"
  let ?fail = "\<lambda>obj ret. obj\<lparr>obj_pending := (obj_pending obj)\<lparr>pr_result := ret\<rparr>\<rparr>"
  let ?inc = "\<lambda>obj. obj\<lparr>obj_pending := (obj_pending obj)\<lparr>num_pending := Suc (num_pending (obj_pending obj))\<rparr>\<rparr>"
  have q0: "pr_result (obj_pending obj) = 0" "num_pending (obj_pending obj) = 0" using q by (simp_all add: quiet_def)
  show ?thesis
  proof (cases "img_snaps img \<noteq> [] \<and> b > 0")
    case False
    obtain ret w' where u: "rbd_obj_copyup_current_snapc dev img obj b w = Ok (ret, w')" "issued is_osd ret w w'"
      using rbd_obj_copyup_current_issued [OF p w] by blast
    have eq: "rbd_obj_copyup_write_object dev img obj w = Ok (if ret \<noteq> 0 then ?fail obj ret else ?inc obj, w')"
      using False u(1) q0 unfolding rbd_obj_copyup_write_object_def Let_def rbd_assert_def b_def [symmetric] by auto
    consider (err) "ret < 0" "w_log w' = w_log w" "world_ok w'"
      | (sent) sub where "ret = 0" "is_osd sub" "w_log w' = w_log w @ [sub]" "world_ok w'"
      using u(2) by (auto simp: issued_def)
    then show ?thesis
    proof cases
      case err
      then show ?thesis using eq q0 by (intro exI [of _ "(obj_pending obj)\<lparr>pr_result := ret\<rparr>"] exI [of _ w'] exI [of _ "[]"]) simp
    next
      case sent
      then show ?thesis using eq q0
        by (intro exI [of _ "(obj_pending obj)\<lparr>num_pending := Suc (num_pending (obj_pending obj))\<rparr>"] exI [of _ w'] exI [of _ "[sub]"]) simp
    qed
  next
    case True
    have bok: "b > 0" "b \<noteq> MODS_ONLY" using True extents_bytes_small [OF p(1)] by (auto simp: b_def)
    obtain ret w1 where u: "rbd_obj_copyup_empty_snapc b w = Ok (ret, w1)" "issued is_osd ret w w1"
      using rbd_obj_copyup_empty_issued [OF w bok] by blast
    show ?thesis
    proof (cases "ret = 0")
      case False
      have "rbd_obj_copyup_write_object dev img obj w = Ok (?fail obj ret, w1)"
        using True u(1) q0 False unfolding rbd_obj_copyup_write_object_def Let_def rbd_assert_def b_def [symmetric] by simp
      moreover have "ret < 0" "w_log w1 = w_log w" "world_ok w1" using u(2) False by (auto simp: issued_def)
      ultimately show ?thesis using q0
        by (intro exI [of _ "(obj_pending obj)\<lparr>pr_result := ret\<rparr>"] exI [of _ w1] exI [of _ "[]"]) simp
    next
      case first: True
      then obtain sub1 where s1: "is_osd sub1" "w_log w1 = w_log w @ [sub1]" "world_ok w1"
        using u(2) by (auto simp: issued_def)
      have p1: "prepared dev img (?inc obj)" using p(1) by simp
      obtain ret2 w2 where u2: "rbd_obj_copyup_current_snapc dev img (?inc obj) MODS_ONLY w1 = Ok (ret2, w2)" "issued is_osd ret2 w1 w2"
        using rbd_obj_copyup_current_issued [OF p1 p(2) s1(3)] by blast
      have eq: "rbd_obj_copyup_write_object dev img obj w =
          Ok (if ret2 \<noteq> 0 then ?fail (?inc obj) ret2 else ?inc (?inc obj), w2)"
        using True u(1) q0 first u2(1) unfolding rbd_obj_copyup_write_object_def Let_def rbd_assert_def b_def [symmetric] by simp
      consider (err) "ret2 < 0" "w_log w2 = w_log w1" "world_ok w2"
        | (sent) sub where "ret2 = 0" "is_osd sub" "w_log w2 = w_log w1 @ [sub]" "world_ok w2"
        using u2(2) by (auto simp: issued_def)
      then show ?thesis
      proof cases
        case err
        then show ?thesis using eq q0 s1
          by (intro exI [of _ "(obj_pending obj)\<lparr>num_pending := Suc 0, pr_result := ret2\<rparr>"] exI [of _ w2] exI [of _ "[sub1]"]) simp
      next
        case sent
        then show ?thesis using eq q0 s1
          by (intro exI [of _ "(obj_pending obj)\<lparr>num_pending := Suc (Suc 0)\<rparr>"] exI [of _ w2] exI [of _ "[sub1, sub]"]) simp
      qed
    qed
  qed
qed

lemma copyup_object_maps_done_handled:
  assumes p: "prepared dev img obj" "rbd_img_is_write img" and w: "world_ok w" and r: "result \<le> 0"
    and q: "result = 0 \<Longrightarrow> quiet obj" and st: "write_state obj = RBD_OBJ_WRITE_COPYUP_PENDING"
  shows "handled 4 dev img obj w (copyup_object_maps_done dev img obj result w)"
proof (cases "result = 0")
  case False
  then show ?thesis using p w r quietly_refl by (simp add: copyup_object_maps_done_def handled_done)
next
  case True
  obtain pd w' subs where u: "rbd_obj_copyup_write_object dev img obj w = Ok (obj\<lparr>obj_pending := pd\<rparr>, w')" "world_ok w'"
    "pr_result pd \<le> 0" "num_pending pd = length subs" "w_log w' = w_log w @ subs" "list_all is_osd subs" "length subs \<le> 2"
    using rbd_obj_copyup_write_object_Ok [OF p w q [OF True]] by (elim exE conjE) (rule that)
  show ?thesis
  proof (cases "subs = []")
    case True
    then show ?thesis
      using u p(1) \<open>result = 0\<close> by (auto simp: copyup_object_maps_done_def quietly_def intro!: handled_done)
  next
    case False
    have "copyup_object_maps_done dev img obj result w =
        Ok (False, result, obj\<lparr>obj_pending := pd, copyup_state := RBD_OBJ_COPYUP_WRITE_OBJECT_PENDING\<rparr>, w')"
      using False u(1,4) \<open>result = 0\<close> by (simp add: copyup_object_maps_done_def)
    moreover have "length subs \<le> max_out img" using u(7) one_max_out(2) [of img] by linarith
    ultimately show ?thesis
      using False u(2-7) p st list_all_sub_ok(1) [OF u(6)]
      by (auto simp: rank_def phase_def intro!: handled_wait [where subs = subs])
  qed
qed

lemma copyup_read_done_handled:
  assumes p: "prepared dev img obj" "rbd_img_is_write img" and w: "world_ok w" and r: "result \<le> 0"
    and q: "quiet obj" and st: "write_state obj = RBD_OBJ_WRITE_COPYUP_PENDING" and bv: "copyup_bvecs obj \<noteq> None"
  shows "handled 5 dev img obj w (copyup_read_done dev img obj result w)"
proof (cases "result = 0")
  case False
  then show ?thesis using p w r quietly_refl by (simp add: copyup_read_done_def handled_done)
next
  case True
  obtain bvecs where bvecs: "copyup_bvecs obj = Some bvecs" using bv by auto
  define ob where "ob = (if is_zero_bvecs bvecs (ucast (rbd_obj_img_extents_bytes obj))
     then obj\<lparr>obj_flags := insert RBD_OBJ_FLAG_COPYUP_ZEROS (obj_flags obj)\<rparr> else obj)"
  have ob: "prepared dev img ob" "quiet ob" "write_state ob = RBD_OBJ_WRITE_COPYUP_PENDING" "obj_ex ob = obj_ex obj"
    "pr_result (obj_pending ob) = 0" "num_pending (obj_pending ob) = 0"
    using p(1) q st by (auto simp: ob_def quiet_def)
  let ?next = "\<lambda>(obj, w). if num_pending (obj_pending obj) = 0
      then copyup_object_maps_done dev img (obj\<lparr>copyup_state := RBD_OBJ_COPYUP_OBJECT_MAPS\<rparr>) (pr_result (obj_pending obj)) w
      else Ok (False, 0, obj\<lparr>copyup_state := RBD_OBJ_COPYUP_OBJECT_MAPS_PENDING\<rparr>, w)"
  have eq: "copyup_read_done dev img obj result w = bind_outcome (rbd_obj_copyup_object_maps dev img ob w) ?next"
    using True bvecs by (simp add: copyup_read_done_def ob_def Let_def)
  have done': "handled 5 dev img obj w (?next (ob\<lparr>obj_pending := pd\<rparr>, w'))"
    if "num_pending pd = 0" "pr_result pd \<le> 0" "quietly w w'" for pd w'
  proof -
    let ?o = "ob\<lparr>obj_pending := pd, copyup_state := RBD_OBJ_COPYUP_OBJECT_MAPS\<rparr>"
    have h: "handled 4 dev img ?o w' (copyup_object_maps_done dev img ?o (pr_result pd) w')"
      using ob that quietly_ok [OF that(3)] p(2) by (intro copyup_object_maps_done_handled) (auto simp: quiet_def)
    then show ?thesis
      using that(1) handled_mono [OF handled_quietly [OF h that(3)], of obj 5] ob(4) by simp
  qed
  show ?thesis
  proof (cases "has_object_map dev \<and> RBD_OBJ_FLAG_COPYUP_ZEROS \<notin> obj_flags ob")
    case False
    then have "rbd_obj_copyup_object_maps dev img ob w = Ok (ob\<lparr>obj_pending := obj_pending ob\<rparr>, w)"
      using ob(5,6) by (auto simp: rbd_obj_copyup_object_maps_def rbd_assert_def has_object_map_def)
    then show ?thesis
      using eq done' [of "obj_pending ob" w] ob(5,6) quietly_refl [OF w] by simp
  next
    case maps: True
    have "CEPH_NOSNAP \<notin> set (img_snaps img)" using p(1) by (simp add: prepared_def)
    from copyup_maps_loop_Ok [OF ob(1) w this ob(5), of 0]
    obtain obj' w' subs pd where m: "copyup_maps_loop dev img 0 (img_snaps img) ob w = Ok (obj', w')" "world_ok w'"
      "obj' = ob\<lparr>obj_pending := pd\<rparr>" "pr_result pd \<le> 0" "num_pending pd = num_pending (obj_pending ob) + length subs"
      "w_log w' = w_log w @ subs" "list_all (is_map (oe_objno (obj_ex ob))) subs" "length subs \<le> length (img_snaps img)"
      by auto
    have call': "rbd_obj_copyup_object_maps dev img ob w = Ok (ob\<lparr>obj_pending := pd\<rparr>, w')"
      using maps m(1,3) ob(5,6) by (simp add: rbd_obj_copyup_object_maps_def rbd_assert_def has_object_map_def)
    show ?thesis
    proof (cases "subs = []")
      case True
      then have "quietly w w'" using m(2,6) by (simp add: quietly_def)
      then show ?thesis using True eq call' done' [of pd w'] m(4,5) ob(6) by simp
    next
      case False
      have "copyup_read_done dev img obj result w =
          Ok (False, result, ob\<lparr>obj_pending := pd, copyup_state := RBD_OBJ_COPYUP_OBJECT_MAPS_PENDING\<rparr>, w')"
        using eq call' False m(5) ob(6) True by simp
      moreover have "length subs \<le> max_out img" using m(8) one_max_out(3) [of img] by linarith
      moreover have "list_all (sub_ok dev obj) subs"
        using list_all_sub_ok(3) [of dev obj subs] maps m(7) ob(4) by simp
      ultimately show ?thesis
        using False m(2-6) p(2) ob by (auto simp: rank_def phase_def intro!: handled_wait [where subs = subs])
    qed
  qed
qed

lemma prepared_pruned:
  assumes p: "prepared dev img obj" and ne: "img_extents obj \<noteq> []" and c: "RBD_OBJ_FLAG_COPYUP_ENABLED \<in> obj_flags obj"
  shows "prepared dev img (obj\<lparr>img_extents := prune_extents (img_extents obj) (parent_overlap dev)\<rparr>)"
proof -
  let ?p = "prune_extents (img_extents obj) (parent_overlap dev)"
  have g: "good_extents (img_extents obj)" using p by (simp add: prepared_def)
  have b: "fes_bytes ?p = filter (\<lambda>b. b < unat (parent_overlap dev)) (fes_bytes (img_extents obj))" "good_extents ?p"
    using prune_extents_bytes [OF g] by auto
  have "length (fes_bytes ?p) \<le> length (fes_bytes (img_extents obj))" unfolding b(1) by simp
  then have l: "length (fes_bytes ?p) \<le> max_extent_bytes" using p by (auto simp: prepared_def)
  have e: "rbd_obj_is_entire dev (obj\<lparr>img_extents := ?p\<rparr>) = rbd_obj_is_entire dev obj" by (simp add: rbd_obj_is_entire_def)
  show ?thesis
  proof (cases "img_op_type img")
    case OBJ_OP_ZEROOUT
    then have "rbd_obj_is_entire dev obj \<Longrightarrow> ?p \<noteq> []" using p ne by (auto simp: prepared_def)
    then have "rbd_obj_is_entire dev obj \<Longrightarrow> prune_extents ?p (parent_overlap dev) \<noteq> []"
      using prune_prune_nonempty [OF g] by blast
    then show ?thesis using p b(2) l e OBJ_OP_ZEROOUT by (simp add: prepared_def)
  next
    case OBJ_OP_DISCARD
    then show ?thesis using p c by (simp add: prepared_def)
  qed (use p b(2) l in \<open>simp_all add: prepared_def data_ready_def\<close>)
qed

lemma copyup_start_handled:
  assumes p: "prepared dev img obj" "rbd_img_is_write img" and w: "world_ok w" and f: "fresh obj"
    and c: "RBD_OBJ_FLAG_COPYUP_ENABLED \<in> obj_flags obj" and st: "write_state obj = RBD_OBJ_WRITE_COPYUP_PENDING"
  shows "handled 6 dev img obj w (copyup_start dev img obj 0 w)"
proof -
  have ne: "img_extents obj \<noteq> []" and q: "quiet obj" "copyup_bvecs obj = None" using f c by (simp_all add: fresh_def)
  define ob where "ob = obj\<lparr>img_extents := prune_extents (img_extents obj) (parent_overlap dev)\<rparr>"
  have ob: "prepared dev img ob" "quiet ob" "copyup_bvecs ob = None" "write_state ob = RBD_OBJ_WRITE_COPYUP_PENDING"
    "obj_ex ob = obj_ex obj"
    using prepared_pruned [OF p(1) ne c] q st by (simp_all add: ob_def quiet_def)
  show ?thesis
  proof (cases "img_extents ob = []")
    case True
    obtain ret w' where u: "rbd_obj_copyup_current_snapc dev img ob MODS_ONLY w = Ok (ret, w')" "issued is_osd ret w w'"
      using rbd_obj_copyup_current_issued [OF ob(1) p(2) w] by blast
    have eq: "copyup_start dev img obj 0 w =
        (if ret \<noteq> 0 then Ok (True, ret, ob, w') else Ok (False, 0, ob\<lparr>copyup_state := RBD_OBJ_COPYUP_WRITE_OBJECT\<rparr>, w'))"
      using True ne u(1) unfolding copyup_start_def rbd_obj_copyup_read_parent_def rbd_assert_def Let_def ob_def [symmetric] by simp
    consider (err) "ret < 0" "quietly w w'" | (sent) sub where "ret = 0" "is_osd sub" "w_log w' = w_log w @ [sub]" "world_ok w'"
      using u(2) by (auto simp: issued_def quietly_def)
    then show ?thesis
    proof cases
      case err
      then show ?thesis using eq ob by (simp add: handled_done)
    next
      case sent
      then show ?thesis
        using eq ob p(2) by (auto simp: sub_ok_def rank_def phase_def intro!: handled_wait [where subs = "[sub]"])
    qed
  next
    case False
    have "length (fes_bytes (img_extents ob)) \<le> max_extent_bytes" using ob(1) by (simp add: prepared_def)
    then have b: "unat (rbd_obj_img_extents_bytes ob) \<le> max_extent_bytes"
      using unat_file_extents_bytes [of "img_extents ob"] by (simp add: rbd_obj_img_extents_bytes_def max_extent_bytes_def)
    obtain ret ob' w1 bv where s: "setup_copyup_bvecs ob (rbd_obj_img_extents_bytes ob) w = Ok (ret, ob', w1)" "ret \<le> 0" "quietly w w1"
      "ob' = ob\<lparr>copyup_bvecs := bv\<rparr>" "ret = 0 \<longrightarrow> bv \<noteq> None"
      using setup_copyup_bvecs_Ok [OF w ob(3) b] by (elim exE conjE) (rule that)
    obtain ret2 w2 where u: "rbd_obj_read_from_parent img ob' w1 = Ok (ret2, w2)" "issued is_parent ret2 w1 w2"
      using rbd_obj_read_from_parent_issued [of img w1 ob'] p(2) quietly_ok [OF s(3)] by blast
    have ob': "prepared dev img ob'" "obj_ex ob' = obj_ex obj" "img_extents ob' \<noteq> []" "quiet ob'"
      "write_state ob' = RBD_OBJ_WRITE_COPYUP_PENDING"
      using ob False s(4) by (simp_all add: quiet_def)
    show ?thesis
    proof (cases "ret = 0")
      case err: False
      have "copyup_start dev img obj 0 w = Ok (True, ret, ob', w1)"
        using False ne s(1) err unfolding copyup_start_def rbd_obj_copyup_read_parent_def rbd_assert_def Let_def ob_def [symmetric] by simp
      then show ?thesis using ob' s(2,3) by (simp add: handled_done)
    next
      case True
      have eq: "copyup_start dev img obj 0 w =
          (if ret2 \<noteq> 0 then Ok (True, ret2, ob', w2) else Ok (False, 0, ob'\<lparr>copyup_state := RBD_OBJ_COPYUP_READ_PARENT\<rparr>, w2))"
        using False ne s(1) True u(1) ob'(3)
        unfolding copyup_start_def rbd_obj_copyup_read_parent_def rbd_assert_def Let_def ob_def [symmetric] by simp
      have bv: "copyup_bvecs ob' \<noteq> None" using s(4,5) True by simp
      note i = quietly_issued [OF s(3) u(2)]
      consider (err) "ret2 < 0" "quietly w w2" | (sent) sub where "ret2 = 0" "is_parent sub" "w_log w2 = w_log w @ [sub]" "world_ok w2"
        using i by (auto simp: issued_def quietly_def)
      then show ?thesis
      proof cases
        case err
        then show ?thesis using eq ob' by (simp add: handled_done)
      next
        case sent
        then show ?thesis
          using eq ob' bv p(2)
          by (auto simp: sub_ok_def rank_def phase_def quiet_def intro!: handled_wait [where subs = "[sub]"])
      qed
    qed
  qed
qed

text \<open>When the copyup is done, the write goes on.\<close>

lemma write_copyup_pending_handled:
  assumes h: "handled n dev img obj w (rbd_obj_advance_copyup dev img obj result w)" and n: "2 \<le> n"
    and wr: "rbd_img_is_write img"
  shows "handled n dev img obj w (write_copyup_pending dev img obj result w)"
proof -
  obtain done' res obj' w' subs where r: "rbd_obj_advance_copyup dev img obj result w = Ok (done', res, obj', w')"
    "world_ok w'" "prepared dev img obj'" "obj_ex obj' = obj_ex obj" "w_log w' = w_log w @ subs"
    "if done' then res \<le> 0 \<and> subs = [] else rank img obj' < n \<and> length subs \<le> max_out img \<and> phase img obj' subs"
    using h unfolding handled_def by (elim exE conjE) (rule that)
  show ?thesis
  proof (cases done')
    case False
    then show ?thesis using h r(1) by (simp add: write_copyup_pending_def)
  next
    case True
    then have q: "quietly w w'" "res \<le> 0" using r(2,5,6) by (simp_all add: quietly_def)
    have "handled 2 dev img obj' w' (write_copyup_done dev obj' res w')"
      using write_copyup_done_handled [OF r(3) wr r(2) q(2)] .
    then show ?thesis
      using True r(1) handled_mono [OF handled_quietly [OF _ q(1) r(4)] n] by (simp add: write_copyup_pending_def)
  qed
qed

lemma write_object_done_handled:
  assumes p: "prepared dev img obj" "rbd_img_is_write img" and w: "world_ok w" and r: "result \<le> 0" and f: "fresh obj"
  shows "handled 6 dev img obj w (write_object_done dev img obj result w)"
proof (cases "result = RET_ENOENT \<and> RBD_OBJ_FLAG_COPYUP_ENABLED \<in> obj_flags obj")
  case True
  let ?o = "obj\<lparr>copyup_state := RBD_OBJ_COPYUP_START, write_state := RBD_OBJ_WRITE_COPYUP_PENDING\<rparr>"
  have "handled 6 dev img ?o w (copyup_start dev img ?o 0 w)"
    using p w f True by (intro copyup_start_handled) (auto simp: fresh_def quiet_def)
  then have "handled 6 dev img ?o w (write_copyup_pending dev img ?o 0 w)"
    using p(2) by (intro write_copyup_pending_handled) (simp_all add: rbd_obj_advance_copyup_def)
  then show ?thesis
    using True handled_quietly [OF _ quietly_refl [OF w], of 6 dev img ?o _ obj] by (simp add: write_object_done_def)
next
  case False
  define res where "res = (if result = RET_ENOENT \<and> RBD_OBJ_FLAG_DELETION \<in> obj_flags obj then 0 else result)"
  have res: "res \<le> 0" using r by (simp add: res_def)
  let ?o = "obj\<lparr>write_state := RBD_OBJ_WRITE_COPYUP\<rparr>"
  have h: "handled 2 dev img ?o w (write_copyup_done dev ?o res w)"
    using write_copyup_done_handled [of dev img ?o w res] p w res by simp
  have "write_object_done dev img obj result w =
      (if res \<noteq> 0 then Ok (True, res, obj, w) else write_copyup_done dev ?o res w)"
    using False unfolding write_object_done_def Let_def res_def by auto
  then show ?thesis
    using p(1) res quietly_refl [OF w] handled_mono [OF handled_quietly [OF h quietly_refl [OF w]], of obj 6]
    by (cases "res = 0") (simp_all add: handled_done)
qed

lemma write_pre_done_handled:
  assumes p: "prepared dev img obj" "rbd_img_is_write img" and w: "world_ok w" and r: "result \<le> 0" and f: "fresh obj"
  shows "handled 7 dev img obj w (write_pre_done dev img obj result w)"
proof (cases "result = 0")
  case False
  then show ?thesis using p(1) r quietly_refl [OF w] by (simp add: write_pre_done_def handled_done)
next
  case True
  obtain ret w' where u: "rbd_obj_write_object dev img obj w = Ok (ret, w')" "issued is_osd ret w w'"
    using rbd_obj_write_object_issued [OF p w] by blast
  consider (err) "ret < 0" "quietly w w'" | (sent) sub where "ret = 0" "is_osd sub" "w_log w' = w_log w @ [sub]" "world_ok w'"
    using u(2) by (auto simp: issued_def quietly_def)
  then show ?thesis
  proof cases
    case err
    then show ?thesis using True u(1) p(1) by (simp add: write_pre_done_def handled_done)
  next
    case sent
    then have "write_pre_done dev img obj result w = Ok (False, result, obj\<lparr>write_state := RBD_OBJ_WRITE_OBJECT\<rparr>, w')"
      using True u(1) by (simp add: write_pre_done_def)
    then show ?thesis
      using sent p f
      by (auto simp: sub_ok_def rank_def phase_def fresh_def quiet_def intro!: handled_wait [where subs = "[sub]"])
  qed
qed

lemma object_map_may_exist_Ok:
  assumes "prepared dev img obj"
  shows "\<exists>may. rbd_object_map_may_exist dev (oe_objno (obj_ex obj)) = Ok may"
proof (cases "use_object_map dev")
  case True
  then have "has_object_map dev" by (auto simp: use_object_map_def has_object_map_def split: if_splits)
  then have "map_within dev (oe_objno (obj_ex obj))" using assms by (simp add: prepared_def)
  from omap.get_Ok [OF this] show ?thesis using True by (auto simp: rbd_object_map_may_exist_def)
next
  case False
  then have "rbd_object_map_may_exist dev (oe_objno (obj_ex obj)) = Ok True" by (simp add: rbd_object_map_may_exist_def)
  then show ?thesis by blast
qed

lemma write_start_handled:
  assumes p: "prepared dev img obj" "rbd_img_is_write img" and w: "world_ok w" and f: "fresh obj"
  shows "handled 8 dev img obj w (write_start dev img obj 0 w)"
proof -
  obtain may where may: "rbd_object_map_may_exist dev (oe_objno (obj_ex obj)) = Ok may"
    using object_map_may_exist_Ok [OF p(1)] by blast
  define ob where "ob = (if may then obj\<lparr>obj_flags := insert RBD_OBJ_FLAG_MAY_EXIST (obj_flags obj)\<rparr> else obj)"
  have ob: "prepared dev img ob" "fresh ob" "obj_ex ob = obj_ex obj"
    using p(1) f by (auto simp: ob_def fresh_def quiet_def)
  define noop where "noop \<longleftrightarrow> RBD_OBJ_FLAG_MAY_EXIST \<notin> obj_flags ob \<and> RBD_OBJ_FLAG_NOOP_FOR_NONEXISTENT \<in> obj_flags ob"
  have n: "rbd_obj_write_is_noop dev obj = Ok (noop, ob)"
    unfolding rbd_obj_write_is_noop_def may noop_def ob_def by (simp add: Let_def)
  have "\<exists>ret w'. rbd_obj_write_pre_object_map dev ob w = Ok (ret, w') \<and>
      (has_object_map dev \<and> issued (is_map (oe_objno (obj_ex obj))) ret w w' \<or> ret = 1 \<and> quietly w w')"
  proof (cases "has_object_map dev")
    case False
    then show ?thesis using quietly_refl [OF w] by (simp add: rbd_obj_write_pre_object_map_def has_object_map_def)
  next
    case True
    let ?new = "if RBD_OBJ_FLAG_DELETION \<in> obj_flags ob then OBJECT_PENDING else OBJECT_EXISTS"
    have "map_within dev (oe_objno (obj_ex ob))" using ob(1) True by (simp add: prepared_def)
    moreover have "two_bits ?new" by (simp add: two_bits_def)
    ultimately obtain ret w' where "rbd_object_map_update dev ob CEPH_NOSNAP ?new None w = Ok (ret, w')"
      "issued (is_map (oe_objno (obj_ex ob))) ret w w' \<or> ret = 1 \<and> quietly w w'"
      using rbd_object_map_update_issued [OF w, of ?new CEPH_NOSNAP dev ob None] by blast
    then show ?thesis using True ob(3) unfolding rbd_obj_write_pre_object_map_def has_object_map_def by simp
  qed
  then obtain ret w' where u: "rbd_obj_write_pre_object_map dev ob w = Ok (ret, w')"
    "has_object_map dev \<and> issued (is_map (oe_objno (obj_ex obj))) ret w w' \<or> ret = 1 \<and> quietly w w'" by blast
  let ?o = "ob\<lparr>write_state := RBD_OBJ_WRITE_PRE_OBJECT_MAP\<rparr>"
  have eq: "write_start dev img obj 0 w =
      (if noop then Ok (True, 0, ob, w)
       else if ret < 0 then Ok (True, ret, ob, w')
       else if ret > 0 then write_pre_done dev img ?o 0 w' else Ok (False, 0, ?o, w'))"
    using u(1) n by (simp add: write_start_def rbd_assert_def Let_def)
  have fo: "fresh ?o" using ob(2) by (simp add: fresh_def quiet_def)
  consider (noop) noop | (err) "\<not> noop" "ret < 0" "quietly w w'"
    | (sent) sub where "\<not> noop" "has_object_map dev" "ret = 0" "world_ok w'" "is_map (oe_objno (obj_ex obj)) sub" "w_log w' = w_log w @ [sub]"
    | (skip) "\<not> noop" "ret = 1" "quietly w w'"
    using u(2) by (auto simp: issued_def quietly_def)
  then show ?thesis
  proof cases
    case noop
    then show ?thesis using eq ob quietly_refl [OF w] by (simp add: handled_done)
  next
    case err
    then show ?thesis using eq ob by (simp add: handled_done)
  next
    case sent
    then show ?thesis
      using eq ob fo p(2) by (auto simp: sub_ok_def rank_def phase_def intro!: handled_wait [where subs = "[sub]"])
  next
    case skip
    have "handled 7 dev img ?o w' (write_pre_done dev img ?o 0 w')"
      using ob(1) p(2) quietly_ok [OF skip(3)] fo by (intro write_pre_done_handled) simp_all
    then show ?thesis
      using eq skip ob(3) handled_mono [OF handled_quietly [OF _ skip(3)], of 7 dev img ?o _ obj 8] by simp
  qed
qed

section \<open>Reading\<close>

lemma zero_range_Ok:
  assumes "data_ready img obj"
  shows "\<exists>w'. rbd_obj_zero_range img off bytes w = Ok w' \<and> (world_ok w \<longrightarrow> quietly w w')"
  using assms by (auto simp: rbd_obj_zero_range_def data_ready_def quietly_def world_ok_def)

lemma read_fill_handled:
  assumes p: "prepared dev img obj" "data_ready img obj" and w: "world_ok w" and r: "result \<le> int (unat (oe_len (obj_ex obj)))"
  shows "handled n dev img obj w (read_fill img obj result w)"
proof -
  let ?len = "oe_len (obj_ex obj)"
  have zero: "handled n dev img obj w (bind_outcome (rbd_obj_zero_range img off bytes w) (\<lambda>w. Ok (True, 0, obj, w)))" for off bytes
    using zero_range_Ok [OF p(2), of off bytes w] w p(1) by (auto intro: handled_done)
  consider (hole) "result = RET_ENOENT" | (err) "result < 0" "result \<noteq> RET_ENOENT" | (ok) "0 \<le> result" by linarith
  then show ?thesis
  proof cases
    case hole
    then show ?thesis using zero by (simp add: read_fill_def Let_def)
  next
    case err
    then show ?thesis using p(1) quietly_refl [OF w] by (simp add: read_fill_def Let_def handled_done)
  next
    case ok
    show ?thesis
    proof (cases "word_of_int result < ?len")
      case True
      then show ?thesis using ok zero by (simp add: read_fill_def Let_def)
    next
      case False
      have "unat ?len < 2 ^ 64" using unat_u64_less [of ?len] by simp
      then have "int (unat ?len) < int (2 ^ 64)" by (simp only: of_nat_less_iff)
      then have "result < 2 ^ 64" using r by simp
      then have "unat (word_of_int result :: u64) = nat result" using ok
        by (simp add: unat_eq_nat_uint uint_word_of_int)
      moreover have "nat result \<le> unat ?len" using r by (simp only: nat_le_iff)
      ultimately have "unat (word_of_int result :: u64) \<le> unat ?len" by simp
      then have "word_of_int result = ?len" using False by (simp add: word_less_nat_alt unat_inj_iff [symmetric])
      then show ?thesis using ok False p(1) quietly_refl [OF w] by (simp add: read_fill_def Let_def rbd_assert_def handled_done)
    qed
  qed
qed

lemma prepared_read_extents:
  assumes "prepared dev img obj" and "img_op_type img = OBJ_OP_READ"
    and "good_extents fes" "length (fes_bytes fes) \<le> max_extent_bytes"
  shows "prepared dev img (obj\<lparr>img_extents := fes\<rparr>)"
  using assms by (simp add: prepared_def data_ready_def)

lemma read_object_done_handled:
  assumes p: "prepared dev img obj" "img_op_type img = OBJ_OP_READ" and w: "world_ok w"
    and r: "result \<le> int (unat (oe_len (obj_ex obj)))"
  shows "handled 2 dev img obj w (read_object_done dev img obj result w)"
proof -
  have d: "data_ready img obj" and nw: "\<not> rbd_img_is_write img"
    using p by (simp_all add: prepared_def rbd_img_is_write_def)
  show ?thesis
  proof (cases "result = RET_ENOENT \<and> parent_overlap dev \<noteq> 0")
    case False
    then show ?thesis
      using read_fill_handled [OF p(1) d w r] by (auto simp: read_object_done_def)
  next
    case True
    obtain ret fes w1 where c: "rbd_obj_calc_img_extents dev obj False w = Ok (ret, obj\<lparr>img_extents := fes\<rparr>, w1)" "ret \<le> 0"
      "quietly w w1" "good_extents fes" "length (fes_bytes fes) \<le> max_extent_bytes"
      using rbd_obj_calc_img_extents_Ok [OF w, of dev obj] p(1) unfolding prepared_def by blast
    let ?o = "obj\<lparr>img_extents := fes\<rparr>"
    have po: "prepared dev img ?o" "data_ready img ?o"
      using prepared_read_extents [OF p c(4,5)] d by (simp_all add: data_ready_def)
    note w1 = quietly_ok [OF c(3)]
    consider (err) "ret \<noteq> 0" | (hole) "ret = 0" "fes = []" | (parent) "ret = 0" "fes \<noteq> []" by blast
    then show ?thesis
    proof cases
      case err
      then show ?thesis using True c po by (simp add: read_object_done_def handled_done)
    next
      case hole
      have "handled 2 dev img ?o w1 (read_fill img ?o result w1)"
        using read_fill_handled [OF po w1] r by simp
      then show ?thesis
        using True hole c(1) handled_quietly [OF _ c(3), of 2 dev img ?o _ obj] by (simp add: read_object_done_def)
    next
      case parent
      obtain ret2 w2 where u: "rbd_obj_read_from_parent img ?o w1 = Ok (ret2, w2)" "issued is_parent ret2 w1 w2"
        using rbd_obj_read_from_parent_issued [OF _ w1, of img ?o] d by (auto simp: data_ready_def)
      have eq: "read_object_done dev img obj result w =
          (if ret2 \<noteq> 0 then Ok (True, ret2, ?o, w2) else Ok (False, result, ?o\<lparr>read_state := RBD_OBJ_READ_PARENT\<rparr>, w2))"
        using True parent c(1) u(1) by (simp add: read_object_done_def)
      consider (err) "ret2 < 0" "quietly w w2" | (sent) sub where "ret2 = 0" "is_parent sub" "w_log w2 = w_log w @ [sub]" "world_ok w2"
        using quietly_issued [OF c(3) u(2)] by (auto simp: issued_def quietly_def)
      then show ?thesis
      proof cases
        case err
        then show ?thesis using eq po by (simp add: handled_done)
      next
        case sent
        then show ?thesis
          using eq po nw by (auto simp: sub_ok_def rank_def phase_def intro!: handled_wait [where subs = "[sub]"])
      qed
    qed
  qed
qed

lemma read_parent_done_handled:
  assumes p: "prepared dev img obj" "data_ready img obj" and w: "world_ok w" and r: "result \<le> 0"
  shows "handled n dev img obj w (read_parent_done img obj result w)"
proof -
  have "handled n dev img obj w (bind_outcome (rbd_obj_zero_range img off bytes w) (\<lambda>w. Ok (True, 0, obj, w)))" for off bytes
    using zero_range_Ok [OF p(2), of off bytes w] w p(1) by (auto intro: handled_done)
  then show ?thesis
    using p(1) r quietly_refl [OF w] by (auto simp: read_parent_done_def Let_def intro: handled_done)
qed

lemma read_start_handled:
  assumes p: "prepared dev img obj" "img_op_type img = OBJ_OP_READ" and w: "world_ok w"
  shows "handled 3 dev img obj w (read_start dev img obj 0 w)"
proof -
  have d: "data_ready img obj" and nw: "\<not> rbd_img_is_write img"
    using p by (simp_all add: prepared_def rbd_img_is_write_def)
  obtain may where may: "rbd_object_map_may_exist dev (oe_objno (obj_ex obj)) = Ok may"
    using object_map_may_exist_Ok [OF p(1)] by blast
  show ?thesis
  proof (cases may)
    case False
    let ?o = "obj\<lparr>read_state := RBD_OBJ_READ_OBJECT\<rparr>"
    have r: "RET_ENOENT \<le> int (unat (oe_len (obj_ex ?o)))" by (rule order_trans [OF _ of_nat_0_le_iff]) simp
    have po: "prepared dev img ?o" using p(1) by simp
    have "handled 2 dev img ?o w (read_object_done dev img ?o RET_ENOENT w)"
      using read_object_done_handled [OF po p(2) w r] .
    then show ?thesis
      using False may handled_mono [OF handled_quietly [OF _ quietly_refl [OF w]], of 2 dev img ?o _ obj 3]
      by (simp add: read_start_def rbd_assert_def rbd_obj_may_exist_def)
  next
    case True
    let ?o = "obj\<lparr>obj_flags := insert RBD_OBJ_FLAG_MAY_EXIST (obj_flags obj)\<rparr>"
    have d': "data_ready img ?o" using d by (simp add: data_ready_def)
    obtain ret w' where u: "rbd_obj_read_object img ?o w = Ok (ret, w')" "issued is_osd ret w w'"
      using rbd_obj_read_object_issued [OF d' w] by blast
    have eq: "read_start dev img obj 0 w =
        (if ret \<noteq> 0 then Ok (True, ret, ?o, w') else Ok (False, 0, ?o\<lparr>read_state := RBD_OBJ_READ_OBJECT\<rparr>, w'))"
      using True may u(1) by (simp add: read_start_def rbd_assert_def rbd_obj_may_exist_def)
    consider (err) "ret < 0" "quietly w w'" | (sent) sub where "ret = 0" "is_osd sub" "w_log w' = w_log w @ [sub]" "world_ok w'"
      using u(2) by (auto simp: issued_def quietly_def)
    then show ?thesis
    proof cases
      case err
      then show ?thesis using eq p(1) by (simp add: handled_done)
    next
      case sent
      then show ?thesis
        using eq p(1) nw by (auto simp: sub_ok_def rank_def phase_def intro!: handled_wait [where subs = "[sub]"])
    qed
  qed
qed

section \<open>One completion\<close>

text \<open>When the last outstanding request of an object request completes, the machine moves to an earlier rank.\<close>

lemma pending_last:
  assumes "num_pending pd = 1" and "pr_result pd \<le> 0" and "result \<le> 0"
  shows "\<exists>res. pending_result_dec pd result = Ok (True, res, \<lparr>pr_result = res, num_pending = 0, \<dots> = pending_result.more pd\<rparr>) \<and> res \<le> 0"
  using assms by (cases pd) (auto simp: pending_result_dec_def rbd_assert_def Let_def)

lemma write_advance_handled:
  assumes p: "prepared dev img obj" "rbd_img_is_write img" and w: "world_ok w" and r: "result \<le> 0"
    and ph: "phase img obj out" and one: "length out = 1"
  shows "handled (rank img obj) dev img obj w (rbd_obj_advance_write dev img obj result w)"
proof (cases "write_state obj")
  case RBD_OBJ_WRITE_PRE_OBJECT_MAP
  then show ?thesis
    using ph p write_pre_done_handled [OF p w r] by (simp add: phase_def rank_def rbd_obj_advance_write_def)
next
  case RBD_OBJ_WRITE_OBJECT
  then show ?thesis
    using ph p write_object_done_handled [OF p w r] by (simp add: phase_def rank_def rbd_obj_advance_write_def)
next
  case RBD_OBJ_WRITE_POST_OBJECT_MAP
  then show ?thesis
    using p r quietly_refl [OF w] by (simp add: rbd_obj_advance_write_def write_post_done_def handled_done)
next
  case RBD_OBJ_WRITE_COPYUP_PENDING
  note st = this
  have adv: "rbd_obj_advance_write dev img obj result w = write_copyup_pending dev img obj result w"
    using st by (simp add: rbd_obj_advance_write_def)
  have "handled (rank img obj) dev img obj w (rbd_obj_advance_copyup dev img obj result w) \<and> 2 \<le> rank img obj"
  proof (cases "copyup_state obj")
    case RBD_OBJ_COPYUP_READ_PARENT
    then show ?thesis
      using ph p st copyup_read_done_handled [OF p w r _ st] by (simp add: phase_def rank_def rbd_obj_advance_copyup_def)
  next
    case RBD_OBJ_COPYUP_OBJECT_MAPS_PENDING
    then have pd: "num_pending (obj_pending obj) = 1" "pr_result (obj_pending obj) \<le> 0"
      using ph p st one by (simp_all add: phase_def)
    obtain res where d: "pending_result_dec (obj_pending obj) result =
        Ok (True, res, \<lparr>pr_result = res, num_pending = 0, \<dots> = pending_result.more (obj_pending obj)\<rparr>)" "res \<le> 0"
      using pending_last [OF pd r] by blast
    let ?o = "obj\<lparr>obj_pending := \<lparr>pr_result = res, num_pending = 0, \<dots> = pending_result.more (obj_pending obj)\<rparr>\<rparr>"
    have "handled 4 dev img ?o w (copyup_object_maps_done dev img ?o res w)"
      using p w d(2) st by (intro copyup_object_maps_done_handled) (simp_all add: quiet_def)
    then show ?thesis
      using RBD_OBJ_COPYUP_OBJECT_MAPS_PENDING p(2) st d(1) handled_quietly [OF _ quietly_refl [OF w], of 4 dev img ?o _ obj]
      by (simp add: rank_def rbd_obj_advance_copyup_def obj_pending_dec_def Let_def)
  next
    case RBD_OBJ_COPYUP_WRITE_OBJECT_PENDING
    then have pd: "num_pending (obj_pending obj) = 1" "pr_result (obj_pending obj) \<le> 0"
      using ph p st one by (simp_all add: phase_def)
    obtain res where d: "pending_result_dec (obj_pending obj) result =
        Ok (True, res, \<lparr>pr_result = res, num_pending = 0, \<dots> = pending_result.more (obj_pending obj)\<rparr>)" "res \<le> 0"
      using pending_last [OF pd r] by blast
    then show ?thesis
      using RBD_OBJ_COPYUP_WRITE_OBJECT_PENDING p st quietly_refl [OF w]
      by (simp add: rank_def rbd_obj_advance_copyup_def obj_pending_dec_def Let_def handled_done)
  next
    case RBD_OBJ_COPYUP_WRITE_OBJECT
    then show ?thesis
      using p st r quietly_refl [OF w] by (simp add: rank_def rbd_obj_advance_copyup_def handled_done)
  qed (use ph p st in \<open>simp_all add: phase_def\<close>)
  then show ?thesis unfolding adv using write_copyup_pending_handled p(2) by blast
qed (use ph p in \<open>simp_all add: phase_def\<close>)

text \<open>With more than one request outstanding, the machine only counts.\<close>

lemma write_advance_counts:
  assumes p: "prepared dev img obj" "rbd_img_is_write img" and r: "result \<le> 0" and ph: "phase img obj out" and more: "length out > 1"
  shows "\<exists>res pd. rbd_obj_advance_write dev img obj result w = Ok (False, res, obj\<lparr>obj_pending := pd\<rparr>, w) \<and>
     (\<forall>rest. length rest = length out - 1 \<longrightarrow> phase img (obj\<lparr>obj_pending := pd\<rparr>) rest)"
proof -
  have st: "write_state obj = RBD_OBJ_WRITE_COPYUP_PENDING"
    and cst: "copyup_state obj = RBD_OBJ_COPYUP_OBJECT_MAPS_PENDING \<or> copyup_state obj = RBD_OBJ_COPYUP_WRITE_OBJECT_PENDING"
    and pd: "length out = num_pending (obj_pending obj)" "pr_result (obj_pending obj) \<le> 0"
    using ph more p(2) by (simp_all add: phase_def split: rbd_obj_write_state.splits rbd_obj_copyup_state.splits)
  let ?pd = "(if result \<noteq> 0 \<and> pr_result (obj_pending obj) = 0 then (obj_pending obj)\<lparr>pr_result := result\<rparr> else obj_pending obj)
    \<lparr>num_pending := num_pending (obj_pending obj) - 1\<rparr>"
  have d: "pending_result_dec (obj_pending obj) result = Ok (False, result, ?pd)"
    using more pd(1) by (simp add: pending_result_dec_def rbd_assert_def Let_def)
  have "rbd_obj_advance_write dev img obj result w = Ok (False, result, obj\<lparr>obj_pending := ?pd\<rparr>, w)"
    using st cst unfolding rbd_obj_advance_write_def write_copyup_pending_def rbd_obj_advance_copyup_def obj_pending_dec_def d Let_def
    by auto
  moreover have "phase img (obj\<lparr>obj_pending := ?pd\<rparr>) rest" if "length rest = length out - 1" for rest
    using that st cst pd r p(2) more by (auto simp: phase_def)
  ultimately show ?thesis by blast
qed

lemma read_advance_handled:
  assumes p: "prepared dev img obj" "img_op_type img = OBJ_OP_READ" and w: "world_ok w" and ph: "phase img obj out"
    and r: "result \<le> int (unat (oe_len (obj_ex obj)))" "read_state obj = RBD_OBJ_READ_PARENT \<Longrightarrow> result \<le> 0"
  shows "handled (rank img obj) dev img obj w (rbd_obj_advance_read dev img obj result w)"
proof -
  have nw: "\<not> rbd_img_is_write img" "data_ready img obj" using p by (simp_all add: rbd_img_is_write_def prepared_def)
  show ?thesis
  proof (cases "read_state obj")
    case RBD_OBJ_READ_OBJECT
    then show ?thesis using read_object_done_handled [OF p w r(1)] nw by (simp add: rbd_obj_advance_read_def rank_def)
  next
    case RBD_OBJ_READ_PARENT
    then show ?thesis using read_parent_done_handled [OF p(1) nw(2) w] r(2) nw by (simp add: rbd_obj_advance_read_def)
  qed (use ph nw in \<open>simp add: phase_def\<close>)
qed

section \<open>Object requests and their environment\<close>

record obj_sys =
  sys_dev :: rbd_device
  sys_obj :: rbd_obj_request
  sys_out :: "submission list"
  sys_done :: "int option"

text \<open>
  The completion of an outstanding request: \<open>rbd_osd_req_callback\<close>, \<open>rbd_object_map_callback\<close>, or the end of the
  child image request, which has put the data \<open>bv\<close> of the parent into the pages of a copyup.
\<close>

definition obj_callback ::
    "rbd_img_request \<Rightarrow> rbd_device \<Rightarrow> rbd_obj_request \<Rightarrow> submission \<Rightarrow> int \<Rightarrow> bio_vec list \<Rightarrow>
     (int \<times> rbd_device \<times> rbd_obj_request) outcome" where
  "obj_callback img dev obj sub r bv =
     (case sub of
        Osd_request snapc num_ops ops \<Rightarrow> Ok (rbd_osd_req_result img r, dev, obj)
      | Map_update snap_id num_ops data \<Rightarrow>
          bind_outcome (rbd_object_map_update_finish dev obj r num_ops data) (\<lambda>(res, dev). Ok (res, dev, obj))
      | Parent_read fes \<Rightarrow>
          Ok (r, dev, if copyup_bvecs obj = None then obj else obj\<lparr>copyup_bvecs := Some bv\<rparr>))"

text \<open>
  One event: the \<open>k\<close>-th outstanding request completes with the result \<open>r\<close>; by then a refresh of the header may have changed
  the parent overlap to \<open>v\<close>. The calls of the handler that can fail return \<open>rets\<close>.
\<close>

record obj_event =
  ev_index :: nat
  ev_result :: int
  ev_data :: "bio_vec list"
  ev_overlap :: u64
  ev_rets :: "int list"

definition obj_complete :: "rbd_img_request \<Rightarrow> obj_event \<Rightarrow> obj_sys \<Rightarrow> obj_sys outcome" where
  "obj_complete img ev s =
     bind_outcome (aref (sys_out s) (ev_index ev)) (\<lambda>sub.
     bind_outcome (obj_callback img ((sys_dev s)\<lparr>parent_overlap := ev_overlap ev\<rparr>) (sys_obj s) sub (ev_result ev) (ev_data ev))
       (\<lambda>(res, dev, obj).
     bind_outcome (rbd_obj_handle_request dev img obj res \<lparr>w_rets = ev_rets ev, w_log = [], w_zeroed = []\<rparr>)
       (\<lambda>(done, res, obj, w).
       Ok \<lparr>sys_dev = dev, sys_obj = obj,
           sys_out = take (ev_index ev) (sys_out s) @ drop (Suc (ev_index ev)) (sys_out s) @ w_log w,
           sys_done = (if done then Some res else None)\<rparr>)))"

definition obj_start :: "rbd_img_request \<Rightarrow> rbd_device \<Rightarrow> rbd_obj_request \<Rightarrow> int list \<Rightarrow> obj_sys outcome" where
  "obj_start img dev obj rets =
     bind_outcome (rbd_obj_handle_request dev img obj 0 \<lparr>w_rets = rets, w_log = [], w_zeroed = []\<rparr>)
       (\<lambda>(done, res, obj, w).
         Ok \<lparr>sys_dev = dev, sys_obj = obj, sys_out = w_log w, sys_done = (if done then Some res else None)\<rparr>)"

text \<open>
  What the environment keeps to: an OSD returns at most the bytes that were asked for, an object map update and a
  parent image return no positive result, failing calls return an errno, and the image is not flattened under a
  request that zeroes a whole object.
\<close>

definition event_ok :: "rbd_img_request \<Rightarrow> obj_sys \<Rightarrow> obj_event \<Rightarrow> bool" where
  "event_ok img s ev \<longleftrightarrow>
     sys_done s = None \<and> ev_index ev < length (sys_out s) \<and>
     (case sys_out s ! ev_index ev of
        Osd_request snapc num_ops ops \<Rightarrow> ev_result ev \<le> int (unat (oe_len (obj_ex (sys_obj s))))
      | Map_update snap_id num_ops data \<Rightarrow> ev_result ev \<le> 0
      | Parent_read fes \<Rightarrow> ev_result ev \<le> 0) \<and>
     list_all (\<lambda>r. r \<le> 0) (ev_rets ev) \<and>
     (img_op_type img = OBJ_OP_ZEROOUT \<and> rbd_obj_is_entire (sys_dev s) (sys_obj s) \<longrightarrow>
        ev_overlap ev = parent_overlap (sys_dev s))"

inductive obj_step :: "rbd_img_request \<Rightarrow> obj_sys \<Rightarrow> obj_sys \<Rightarrow> bool" for img where
  complete: "event_ok img s ev \<Longrightarrow> obj_complete img ev s = Ok s' \<Longrightarrow> obj_step img s s'"

inductive_cases obj_stepE: "obj_step img s s'"

definition sys_inv :: "rbd_img_request \<Rightarrow> obj_sys \<Rightarrow> bool" where
  "sys_inv img s \<longleftrightarrow>
     prepared (sys_dev s) img (sys_obj s) \<and>
     (case sys_done s of
        None \<Rightarrow> phase img (sys_obj s) (sys_out s) \<and> list_all (sub_ok (sys_dev s) (sys_obj s)) (sys_out s) \<and>
          length (sys_out s) \<le> max_out img
      | Some res \<Rightarrow> sys_out s = [] \<and> res \<le> 0)"

definition sys_measure :: "rbd_img_request \<Rightarrow> obj_sys \<Rightarrow> nat" where
  "sys_measure img s =
     (case sys_done s of None \<Rightarrow> rank img (sys_obj s) * Suc (max_out img) + length (sys_out s) | Some res \<Rightarrow> 0)"

lemma prepared_dev:
  assumes "prepared dev img obj" and "length m = length (object_map dev)"
    and "img_op_type img = OBJ_OP_ZEROOUT \<and> rbd_obj_is_entire dev obj \<longrightarrow> v = parent_overlap dev"
  shows "prepared (dev\<lparr>parent_overlap := v, object_map := m\<rparr>) img obj"
  using assms
  by (cases "img_op_type img")
     (simp_all add: prepared_def has_object_map_def map_within_def rbd_obj_is_entire_def data_ready_def)

lemma phase_bvecs:
  assumes "phase img obj out" and "bvs = None \<longleftrightarrow> copyup_bvecs obj = None"
  shows "phase img (obj\<lparr>copyup_bvecs := bvs\<rparr>) out"
  using assms
  by (auto simp: phase_def fresh_def quiet_def split: rbd_obj_write_state.splits rbd_obj_copyup_state.splits rbd_obj_read_state.splits)

lemma rank_upd [simp]:
  "rank img (obj\<lparr>copyup_bvecs := bvs\<rparr>) = rank img obj" "rank img (obj\<lparr>obj_pending := pd\<rparr>) = rank img obj"
  by (simp_all add: rank_def split: rbd_obj_write_state.split)

definition result_ok :: "rbd_img_request \<Rightarrow> rbd_obj_request \<Rightarrow> submission \<Rightarrow> int \<Rightarrow> bool" where
  "result_ok img obj sub res \<longleftrightarrow>
     res \<le> int (unat (oe_len (obj_ex obj))) \<and> (rbd_img_is_write img \<or> is_parent sub \<longrightarrow> res \<le> 0)"

lemma result_okI: "res \<le> 0 \<Longrightarrow> result_ok img obj sub res"
  unfolding result_ok_def by (simp add: order_trans [OF _ uint_ge_0])

text \<open>What a completion passes on.\<close>

lemma obj_callback_Ok:
  assumes p: "prepared dev img obj" and sub: "sub_ok dev obj sub"
    and r: "case sub of
        Osd_request snapc num_ops ops \<Rightarrow> r \<le> int (unat (oe_len (obj_ex obj)))
      | Map_update snap_id num_ops data \<Rightarrow> r \<le> 0
      | Parent_read fes \<Rightarrow> r \<le> 0"
  shows "\<exists>res m bvs. obj_callback img dev obj sub r bv = Ok (res, dev\<lparr>object_map := m\<rparr>, obj\<lparr>copyup_bvecs := bvs\<rparr>) \<and>
     length m = length (object_map dev) \<and> (bvs = None \<longleftrightarrow> copyup_bvecs obj = None) \<and> result_ok img obj sub res"
proof (cases sub)
  case (Osd_request snapc n ops)
  have "result_ok img obj sub (rbd_osd_req_result img r)"
    using r Osd_request by (auto simp: result_ok_def rbd_osd_req_result_def is_parent_def)
  then show ?thesis
    using Osd_request by (intro exI [of _ "rbd_osd_req_result img r"] exI [of _ "object_map dev"] exI [of _ "copyup_bvecs obj"])
      (simp add: obj_callback_def)
next
  case (Parent_read fes)
  then show ?thesis
    using r result_okI [of r img obj sub]
    by (intro exI [of _ r] exI [of _ "object_map dev"] exI [of _ "if copyup_bvecs obj = None then None else Some bv"])
      (auto simp: obj_callback_def)
next
  case (Map_update snap_id n data)
  let ?o = "oe_objno (obj_ex obj)"
  obtain new cur where new: "two_bits new" and n: "n = (if snap_id = CEPH_NOSNAP then 2 else 1)"
    and data: "data = object_map_update_data ?o new cur" and has: "has_object_map dev"
    using sub Map_update by (auto simp: sub_ok_def is_osd_def is_parent_def is_map_def)
  have within: "map_within dev ?o" using p has by (simp add: prepared_def)
  have "\<exists>m res. rbd_object_map_update_finish dev obj r n data = Ok (res, dev\<lparr>object_map := m\<rparr>) \<and>
      length m = length (object_map dev) \<and> res \<le> 0"
  proof (cases "r = 0 \<and> n = 2")
    case True
    then show ?thesis using rbd_object_map_update_finish_Ok [OF within new, of cur] data by fastforce
  next
    case False
    then show ?thesis
      using r n Map_update by (intro exI [of _ "object_map dev"] exI [of _ r]) (auto simp: rbd_object_map_update_finish_def)
  qed
  then obtain m res where f: "rbd_object_map_update_finish dev obj r n data = Ok (res, dev\<lparr>object_map := m\<rparr>)"
    "length m = length (object_map dev)" "res \<le> 0" by blast
  then show ?thesis
    using Map_update result_okI [of res img obj sub]
    by (intro exI [of _ res] exI [of _ m] exI [of _ "copyup_bvecs obj"]) (simp add: obj_callback_def)
qed

lemma sub_ok_cong: "obj_ex obj' = obj_ex obj \<Longrightarrow> sub_ok dev obj' = sub_ok dev obj"
  by (simp add: fun_eq_iff sub_ok_def)

text \<open>A handled completion: the object request is done, waits in an earlier phase, or waits for one request less.\<close>

lemma handle_request_handled:
  assumes "handled n dev img obj w
     (if \<not> rbd_img_is_write img then rbd_obj_advance_read dev img obj result w else rbd_obj_advance_write dev img obj result w)"
  shows "handled n dev img obj w (rbd_obj_handle_request dev img obj result w)"
proof -
  obtain d res obj' w' where eq: "(if \<not> rbd_img_is_write img then rbd_obj_advance_read dev img obj result w
      else rbd_obj_advance_write dev img obj result w) = Ok (d, res, obj', w')" "d \<longrightarrow> res \<le> 0"
    using assms unfolding handled_def by (elim exE conjE) (auto split: if_splits)
  then have "rbd_obj_handle_request dev img obj result w = Ok (d, res, obj', w')"
    unfolding rbd_obj_handle_request_def eq(1) by (auto simp: rbd_assert_def)
  then show ?thesis using assms eq(1) by simp
qed

lemma advance_handled:
  assumes p: "prepared dev img obj" and w: "world_ok w" and ph: "phase img obj out" and one: "length out = 1"
    and r: "result_ok img obj (out ! 0) res"
  shows "handled (rank img obj) dev img obj w (rbd_obj_handle_request dev img obj res w)"
proof (rule handle_request_handled, cases "rbd_img_is_write img")
  case True
  then show "handled (rank img obj) dev img obj w
     (if \<not> rbd_img_is_write img then rbd_obj_advance_read dev img obj res w else rbd_obj_advance_write dev img obj res w)"
    using write_advance_handled [OF p True w _ ph one, of res] r by (simp add: result_ok_def)
next
  case False
  have rd: "img_op_type img = OBJ_OP_READ" using False by (simp add: rbd_img_is_write_def split: obj_operation_type.splits)
  have "read_state obj = RBD_OBJ_READ_PARENT \<Longrightarrow> is_parent (out ! 0)" using ph one False by (simp add: phase_def)
  then have "read_state obj = RBD_OBJ_READ_PARENT \<Longrightarrow> res \<le> 0" using r by (simp add: result_ok_def)
  then show "handled (rank img obj) dev img obj w
     (if \<not> rbd_img_is_write img then rbd_obj_advance_read dev img obj res w else rbd_obj_advance_write dev img obj res w)"
    using read_advance_handled [OF p rd w ph, of res] r False by (simp add: result_ok_def)
qed

lemma phase_more_write: "phase img obj out \<Longrightarrow> length out \<noteq> 1 \<Longrightarrow> rbd_img_is_write img \<and> 1 < length out"
  by (cases out)
    (auto simp: phase_def split: if_splits rbd_obj_write_state.splits rbd_obj_copyup_state.splits rbd_obj_read_state.splits)

text \<open>The state of the system after a handler.\<close>

lemma handled_sys:
  assumes "handled n dev img obj w r" and "w_log w = []"
  shows "\<exists>d res obj' w'. r = Ok (d, res, obj', w') \<and>
     sys_inv img \<lparr>sys_dev = dev, sys_obj = obj', sys_out = w_log w', sys_done = (if d then Some res else None)\<rparr> \<and>
     sys_measure img \<lparr>sys_dev = dev, sys_obj = obj', sys_out = w_log w', sys_done = (if d then Some res else None)\<rparr>
       \<le> n * Suc (max_out img)"
proof -
  from assms(1) obtain d res obj' w' subs where h: "r = Ok (d, res, obj', w')"
    "prepared dev img obj'" "obj_ex obj' = obj_ex obj" "w_log w' = w_log w @ subs" "list_all (sub_ok dev obj) subs"
    "if d then res \<le> 0 \<and> subs = [] else rank img obj' < n \<and> length subs \<le> max_out img \<and> phase img obj' subs"
    unfolding handled_def by (elim exE conjE) (rule that)
  have log: "w_log w' = subs" using h(4) assms(2) by simp
  show ?thesis
  proof (cases d)
    case True
    then show ?thesis using h log
      by (intro exI [of _ d] exI [of _ res] exI [of _ obj'] exI [of _ w']) (simp add: sys_inv_def sys_measure_def)
  next
    case False
    have l: "length subs \<le> max_out img" using False h(6) by simp
    have "Suc (rank img obj') * Suc (max_out img) \<le> n * Suc (max_out img)"
      using False h(6) by (intro mult_le_mono1) auto
    then have "rank img obj' * Suc (max_out img) + length subs \<le> n * Suc (max_out img)" using l by simp
    then show ?thesis using False h log sub_ok_cong [OF h(3), of dev]
      by (intro exI [of _ d] exI [of _ res] exI [of _ obj'] exI [of _ w']) (simp add: sys_inv_def sys_measure_def)
  qed
qed

lemma obj_complete_ok:
  assumes inv: "sys_inv img s" and ev: "event_ok img s ev"
  shows "\<exists>s'. obj_complete img ev s = Ok s' \<and> sys_inv img s' \<and> sys_measure img s' < sys_measure img s"
proof -
  let ?i = "ev_index ev" and ?out = "sys_out s" and ?obj = "sys_obj s"
  let ?sub = "?out ! ?i" and ?w = "\<lparr>w_rets = ev_rets ev, w_log = [], w_zeroed = []\<rparr>"
  let ?rest = "take ?i ?out @ drop (Suc ?i) ?out"
  let ?dev = "(sys_dev s)\<lparr>parent_overlap := ev_overlap ev\<rparr>"
  have nd: "sys_done s = None" and i: "?i < length ?out" using ev by (simp_all add: event_ok_def)
  have p: "prepared (sys_dev s) img ?obj" and ph: "phase img ?obj ?out"
    and subs: "list_all (sub_ok (sys_dev s) ?obj) ?out" and len: "length ?out \<le> max_out img"
    using inv nd by (simp_all add: sys_inv_def)
  have v: "img_op_type img = OBJ_OP_ZEROOUT \<and> rbd_obj_is_entire (sys_dev s) ?obj \<longrightarrow> ev_overlap ev = parent_overlap (sys_dev s)"
    using ev by (simp add: event_ok_def)
  have w: "world_ok ?w" using ev by (simp add: event_ok_def world_ok_def list_all_iff)
  have p1: "prepared ?dev img ?obj" using prepared_dev [OF p refl v] by simp
  have sub1: "sub_ok ?dev ?obj ?sub" using subs i by (simp add: sub_ok_def has_object_map_def list_all_length)
  have r: "case ?sub of
        Osd_request snapc num_ops ops \<Rightarrow> ev_result ev \<le> int (unat (oe_len (obj_ex ?obj)))
      | Map_update snap_id num_ops data \<Rightarrow> ev_result ev \<le> 0
      | Parent_read fes \<Rightarrow> ev_result ev \<le> 0" using ev unfolding event_ok_def by (elim conjE)
  obtain res m bvs where cb: "obj_callback img ?dev ?obj ?sub (ev_result ev) (ev_data ev) =
      Ok (res, ?dev\<lparr>object_map := m\<rparr>, ?obj\<lparr>copyup_bvecs := bvs\<rparr>)" "length m = length (object_map ?dev)"
      "bvs = None \<longleftrightarrow> copyup_bvecs ?obj = None" "result_ok img ?obj ?sub res"
    using obj_callback_Ok [OF p1 sub1 r, of "ev_data ev"] by (elim conjE exE) (rule that)
  let ?d = "?dev\<lparr>object_map := m\<rparr>" and ?o = "?obj\<lparr>copyup_bvecs := bvs\<rparr>"
  have po: "prepared ?d img ?o" using prepared_dev [OF p _ v, of m] cb(2) by simp
  have pho: "phase img ?o ?out" using phase_bvecs [OF ph cb(3)] .
  have eq: "obj_complete img ev s =
      bind_outcome (rbd_obj_handle_request ?d img ?o res ?w) (\<lambda>(done, res, obj, w).
       Ok \<lparr>sys_dev = ?d, sys_obj = obj, sys_out = ?rest @ w_log w, sys_done = (if done then Some res else None)\<rparr>)"
    using i cb(1) by (simp add: obj_complete_def aref_def)
  show ?thesis
  proof (cases "length ?out = 1")
    case True
    then have i0: "?i = 0" and rest: "?rest = []" using i by simp_all
    have r1: "result_ok img ?o (?out ! 0) res" using cb(4) i0 by (simp add: result_ok_def)
    obtain d res' obj' w' where h: "rbd_obj_handle_request ?d img ?o res ?w = Ok (d, res', obj', w')"
      and inv': "sys_inv img \<lparr>sys_dev = ?d, sys_obj = obj', sys_out = w_log w', sys_done = (if d then Some res' else None)\<rparr>"
      and m': "sys_measure img \<lparr>sys_dev = ?d, sys_obj = obj', sys_out = w_log w', sys_done = (if d then Some res' else None)\<rparr>
        \<le> rank img ?o * Suc (max_out img)"
      using handled_sys [OF advance_handled [OF po w pho True r1] world.select_convs(2)] by (elim exE conjE) (rule that)
    have "obj_complete img ev s =
        Ok \<lparr>sys_dev = ?d, sys_obj = obj', sys_out = w_log w', sys_done = (if d then Some res' else None)\<rparr>"
      using eq h i0 True by simp
    moreover have "sys_measure img s = rank img ?o * Suc (max_out img) + 1"
      using nd True by (simp add: sys_measure_def)
    ultimately show ?thesis using inv' m' by (metis add.commute less_Suc_eq_le plus_1_eq_Suc)
  next
    case False
    note more = phase_more_write [OF pho False]
    have r0: "res \<le> 0" using cb(4) more by (simp add: result_ok_def)
    obtain res' pd where a: "rbd_obj_advance_write ?d img ?o res ?w = Ok (False, res', ?o\<lparr>obj_pending := pd\<rparr>, ?w)"
      "\<forall>rest. length rest = length ?out - 1 \<longrightarrow> phase img (?o\<lparr>obj_pending := pd\<rparr>) rest"
      using write_advance_counts [OF po _ r0 pho, of ?w] more by blast
    let ?s = "\<lparr>sys_dev = ?d, sys_obj = ?o\<lparr>obj_pending := pd\<rparr>, sys_out = ?rest, sys_done = None\<rparr>"
    have c: "obj_complete img ev s = Ok ?s" using eq a(1) more by (simp add: rbd_obj_handle_request_def)
    have lr: "length ?rest = length ?out - 1" using i by simp
    have sr: "list_all (sub_ok (sys_dev s) ?obj) ?rest" using subs set_take_subset set_drop_subset by (fastforce simp: list_all_iff)
    have "sub_ok ?d (?o\<lparr>obj_pending := pd\<rparr>) = sub_ok (sys_dev s) ?obj"
      by (simp add: fun_eq_iff sub_ok_def has_object_map_def)
    then have "sys_inv img ?s" using po a(2) lr sr len by (simp add: sys_inv_def)
    moreover have "sys_measure img ?s < sys_measure img s" using nd i lr by (simp add: sys_measure_def)
    ultimately show ?thesis using c by blast
  qed
qed

text \<open>A prepared object request that has not started yet.\<close>

definition startable :: "rbd_device \<Rightarrow> rbd_img_request \<Rightarrow> rbd_obj_request \<Rightarrow> bool" where
  "startable dev img obj \<longleftrightarrow>
     prepared dev img obj \<and> fresh obj \<and>
     (if rbd_img_is_write img then write_state obj = RBD_OBJ_WRITE_START else read_state obj = RBD_OBJ_READ_START)"

lemma obj_start_ok:
  assumes st: "startable dev img obj" and rets: "list_all (\<lambda>r. r \<le> 0) rets"
  shows "\<exists>s. obj_start img dev obj rets = Ok s \<and> sys_inv img s \<and> sys_measure img s \<le> 8 * Suc (max_out img)"
proof -
  let ?w = "\<lparr>w_rets = rets, w_log = [], w_zeroed = []\<rparr>"
  have w: "world_ok ?w" using rets by (simp add: world_ok_def list_all_iff)
  have p: "prepared dev img obj" "fresh obj" using st by (simp_all add: startable_def)
  have "handled 8 dev img obj ?w
     (if \<not> rbd_img_is_write img then rbd_obj_advance_read dev img obj 0 ?w else rbd_obj_advance_write dev img obj 0 ?w)"
  proof (cases "rbd_img_is_write img")
    case True
    then show ?thesis using st write_start_handled [OF p(1) True w p(2)] by (simp add: startable_def rbd_obj_advance_write_def)
  next
    case False
    then have rd: "img_op_type img = OBJ_OP_READ" by (simp add: rbd_img_is_write_def split: obj_operation_type.splits)
    show ?thesis
      using False st handled_mono [OF read_start_handled [OF p(1) rd w], of 8] by (simp add: startable_def rbd_obj_advance_read_def)
  qed
  note h = handle_request_handled [OF this]
  obtain d res obj' w' where h: "rbd_obj_handle_request dev img obj 0 ?w = Ok (d, res, obj', w')"
    and i: "sys_inv img \<lparr>sys_dev = dev, sys_obj = obj', sys_out = w_log w', sys_done = (if d then Some res else None)\<rparr>"
    and m: "sys_measure img \<lparr>sys_dev = dev, sys_obj = obj', sys_out = w_log w', sys_done = (if d then Some res else None)\<rparr>
      \<le> 8 * Suc (max_out img)"
    using handled_sys [OF h world.select_convs(2)] by (elim exE conjE) (rule that)
  have "obj_start img dev obj rets =
      Ok \<lparr>sys_dev = dev, sys_obj = obj', sys_out = w_log w', sys_done = (if d then Some res else None)\<rparr>"
    using h by (simp add: obj_start_def)
  then show ?thesis using i m by blast
qed

text \<open>Some completion is possible as long as the object request isn't done.\<close>

lemma obj_waits:
  assumes inv: "sys_inv img s" and nd: "sys_done s = None"
  shows "\<exists>ev. event_ok img s ev \<and> ev_overlap ev = parent_overlap (sys_dev s)"
proof -
  have ph: "phase img (sys_obj s) (sys_out s)" using inv nd by (simp add: sys_inv_def)
  then have ne: "sys_out s \<noteq> []" by (auto simp: phase_def split: if_splits rbd_obj_write_state.splits
    rbd_obj_copyup_state.splits rbd_obj_read_state.splits)
  let ?ev = "\<lparr>ev_index = 0, ev_result = - 5, ev_data = [], ev_overlap = parent_overlap (sys_dev s), ev_rets = []\<rparr>"
  have "event_ok img s ?ev"
    using ne nd order_trans [OF _ uint_ge_0, of "- 5"] by (auto simp: event_ok_def split: submission.split)
  then show ?thesis by (intro exI [of _ ?ev]) simp
qed

text \<open>An object request is a machine that completions drive to its end.\<close>

interpretation object_request: event_machine "sys_inv img" "sys_measure img" "event_ok img" "obj_complete img" sys_done "obj_step img" for img
proof
  show "obj_step img s s' \<longleftrightarrow> (\<exists>e. event_ok img s e \<and> obj_complete img e s = Ok s')" for s s'
    by (auto elim: obj_stepE intro: obj_step.complete)
qed (use obj_complete_ok obj_waits in blast)+

end
