(* ===== verification/RbdRuns.thy ===== *)
theory RbdRuns
  imports RbdProgress
begin

text \<open>
  Runs of object requests: the preparation of new object requests (\<open>rbd_obj_init_read\<close> and its relatives) leads to requests that can
  be started, and the theorems about complete runs, from the preparation to the last completion.
\<close>

unbundle bit_operations_syntax

section \<open>Preparing an object request\<close>

text \<open>An object request as \<open>rbd_obj_request_create\<close> and the mapping of the image request to extents leave it.\<close>

definition new_request :: "rbd_device \<Rightarrow> rbd_img_request \<Rightarrow> rbd_obj_request \<Rightarrow> bool" where
  "new_request dev img obj \<longleftrightarrow>
     (has_object_map dev \<longrightarrow> map_within dev (oe_objno (obj_ex obj))) \<and>
     CEPH_NOSNAP \<notin> set (img_snaps img) \<and>
     range_ok (dev_layout dev) (oe_objno (obj_ex obj)) 0 (unat (object_size (dev_layout dev))) \<and>
     unat (object_size (dev_layout dev)) \<le> max_extent_bytes \<and>
     unat (oe_off (obj_ex obj)) + unat (oe_len (obj_ex obj)) \<le> unat (object_size (dev_layout dev)) \<and>
     (img_op_type img = OBJ_OP_READ \<or> img_op_type img = OBJ_OP_WRITE \<longrightarrow> data_ready img obj) \<and>
     obj_flags obj = {} \<and> img_extents obj = [] \<and> copyup_bvecs obj = None \<and> quiet obj"

lemma range_ok_sub:
  assumes r: "range_ok l objno 0 n" and le: "off + len \<le> n"
  shows "range_ok l objno off len"
proof -
  have v: "valid_layout l" using r by (simp add: range_ok_def)
  have "file_byte l (unat objno, off + len - 1) \<le> file_byte l (unat objno, n - 1)"
    using le by (intro file_byte_mono [OF v]) simp
  then show ?thesis using r le by (simp add: range_ok_def)
qed

text \<open>The extents of the whole object in the parent, which the preparation of a write computes.\<close>

lemma calc_entire_Ok:
  assumes w: "world_ok w" and n: "new_request dev img obj"
  shows "\<exists>ret fes w'. rbd_obj_calc_img_extents dev obj True w = Ok (ret, obj\<lparr>img_extents := fes\<rparr>, w') \<and> ret \<le> 0 \<and>
     quietly w w' \<and> good_extents fes \<and> length (fes_bytes fes) \<le> max_extent_bytes \<and>
     (ret = 0 \<longrightarrow> fes \<noteq> [] \<longrightarrow> prune_extents fes (parent_overlap dev) \<noteq> [])"
proof -
  let ?ex = "(obj_ex obj)\<lparr>oe_off := 0, oe_len := ucast (object_size (dev_layout dev))\<rparr>"
  let ?o = "obj\<lparr>obj_ex := ?ex\<rparr>"
  have len: "unat (oe_len ?ex) = unat (object_size (dev_layout dev))" by simp
  have r: "range_ok (dev_layout dev) (oe_objno (obj_ex ?o)) (unat (oe_off (obj_ex ?o))) (unat (oe_len (obj_ex ?o)))"
    using n len by (simp add: new_request_def)
  have e: "img_extents ?o = []" "good_extents (img_extents ?o)" "length (fes_bytes (img_extents ?o)) \<le> max_extent_bytes"
    "unat (oe_len (obj_ex ?o)) \<le> max_extent_bytes"
    using n by (simp_all add: new_request_def good_extents_def fes_bytes_def)
  obtain ret fes w' where c: "rbd_obj_calc_img_extents dev ?o False w = Ok (ret, ?o\<lparr>img_extents := fes\<rparr>, w')" "ret \<le> 0"
    "quietly w w'" "good_extents fes" "length (fes_bytes fes) \<le> max_extent_bytes"
    "ret = 0 \<and> (parent_overlap dev \<noteq> 0 \<or> img_extents ?o = []) \<longrightarrow> fes_bytes fes = parent_bytes dev ?o"
    using rbd_obj_calc_img_extents_Ok [OF w r e(2-4)] by (elim exE conjE) (rule that)
  have "rbd_obj_calc_img_extents dev obj True w = Ok (ret, obj\<lparr>img_extents := fes\<rparr>, w')"
    using c(1) by (cases "parent_overlap dev = 0") (auto simp: rbd_obj_calc_img_extents_def Let_def
        split: prod.splits outcome.splits dest: arg_cong [where f = "obj_ex_update (\<lambda>_. obj_ex obj)"])
  moreover have "prune_extents fes (parent_overlap dev) \<noteq> []" if "ret = 0" "fes \<noteq> []"
  proof -
    have b: "fes_bytes fes = parent_bytes dev ?o" using c(6) e(1) that(1) by blast
    have "fes_bytes (prune_extents fes (parent_overlap dev)) = fes_bytes fes"
      using prune_extents_bytes [OF c(4), of "parent_overlap dev"] by (simp add: b parent_bytes_def)
    then show ?thesis using that(2) fes_bytes_Nil_iff [OF c(4)] by (auto simp: fes_bytes_def)
  qed
  ultimately show ?thesis using c(2-5) by blast
qed

lemma round_down_le: "unat (round_down x y) \<le> unat x"
proof -
  have "uint (round_down x y) \<le> uint x"
    unfolding round_down_def by (simp add: unsigned_and_eq AND_upper1)
  then show ?thesis by (simp add: word_le_nat_alt [symmetric] word_le_def)
qed

lemma init_read_startable:
  assumes "new_request dev img obj" and "img_op_type img = OBJ_OP_READ"
  shows "startable dev img (rbd_obj_init_read obj)"
  using assms range_ok_sub [of "dev_layout dev" "oe_objno (obj_ex obj)" "unat (object_size (dev_layout dev))"]
  by (simp add: startable_def new_request_def prepared_def rbd_obj_init_read_def rbd_img_is_write_def fresh_def quiet_def
      good_extents_def fes_bytes_def data_ready_def)

text \<open>What the preparations have in common: flags that say which extents there are.\<close>

lemma write_startable:
  assumes n: "new_request dev img obj" and wr: "rbd_img_is_write img"
    and fes: "good_extents fes" "length (fes_bytes fes) \<le> max_extent_bytes" and ws: "write_state obj' = RBD_OBJ_WRITE_START"
    and o: "img_extents obj' = fes" "copyup_bvecs obj' = None" "quiet obj'" "oe_objno (obj_ex obj') = oe_objno (obj_ex obj)"
      "unat (oe_off (obj_ex obj')) + unat (oe_len (obj_ex obj')) \<le> unat (object_size (dev_layout dev))"
      "RBD_OBJ_FLAG_COPYUP_ENABLED \<in> obj_flags obj' \<longrightarrow> fes \<noteq> []"
    and op: "case img_op_type img of
        OBJ_OP_READ \<Rightarrow> True
      | OBJ_OP_WRITE \<Rightarrow> data_ready img obj'
      | OBJ_OP_DISCARD \<Rightarrow> RBD_OBJ_FLAG_COPYUP_ENABLED \<notin> obj_flags obj' \<and>
          (rbd_obj_is_entire dev obj' \<and> fes = [] \<longrightarrow> RBD_OBJ_FLAG_DELETION \<in> obj_flags obj')
      | OBJ_OP_ZEROOUT \<Rightarrow> rbd_obj_is_entire dev obj' \<longrightarrow>
          prune_extents fes (parent_overlap dev) \<noteq> [] \<or> fes = [] \<and> RBD_OBJ_FLAG_DELETION \<in> obj_flags obj'"
  shows "startable dev img obj'"
proof -
  have "range_ok (dev_layout dev) (oe_objno (obj_ex obj')) (unat (oe_off (obj_ex obj'))) (unat (oe_len (obj_ex obj')))"
    using n o(4,5) range_ok_sub by (metis new_request_def)
  moreover have "unat (oe_len (obj_ex obj')) \<le> max_extent_bytes" using n o(5) by (simp add: new_request_def)
  ultimately have "prepared dev img obj'"
    using n fes o op wr by (cases "img_op_type img") (simp_all add: prepared_def new_request_def rbd_img_is_write_def)
  then show ?thesis using o ws wr by (simp add: startable_def fresh_def)
qed

lemma init_write_startable:
  assumes w: "world_ok w" and n: "new_request dev img obj" and op: "img_op_type img = OBJ_OP_WRITE"
  shows "\<exists>ret obj' w'. rbd_obj_init_write dev img obj w = Ok (ret, obj', w') \<and> ret \<le> 0 \<and> quietly w w' \<and>
     (ret = 0 \<longrightarrow> startable dev img obj')"
proof -
  obtain ret fes w' where c: "rbd_obj_calc_img_extents dev obj True w = Ok (ret, obj\<lparr>img_extents := fes\<rparr>, w')" "ret \<le> 0"
    "quietly w w'" "good_extents fes" "length (fes_bytes fes) \<le> max_extent_bytes"
    using calc_entire_Ok [OF w n] by (elim exE conjE) (rule that)
  define ob where "ob = (let obj = obj\<lparr>img_extents := fes\<rparr> in (if rbd_obj_copyup_enabled dev img obj
      then obj\<lparr>obj_flags := insert RBD_OBJ_FLAG_COPYUP_ENABLED (obj_flags obj)\<rparr> else obj)\<lparr>write_state := RBD_OBJ_WRITE_START\<rparr>)"
  have ob: "img_extents ob = fes" "obj_ex ob = obj_ex obj" "copyup_bvecs ob = None" "quiet ob" "write_state ob = RBD_OBJ_WRITE_START"
    "RBD_OBJ_FLAG_COPYUP_ENABLED \<in> obj_flags ob \<longrightarrow> fes \<noteq> []" "data_ready img ob"
    using n op by (auto simp: ob_def Let_def new_request_def quiet_def data_ready_def rbd_obj_copyup_enabled_def split: if_splits)
  have "startable dev img ob"
    using ob n op by (intro write_startable [OF n _ c(4,5)]) (simp_all add: rbd_img_is_write_def new_request_def)
  moreover have "rbd_obj_init_write dev img obj w = (if ret \<noteq> 0 then Ok (ret, obj\<lparr>img_extents := fes\<rparr>, w') else Ok (0, ob, w'))"
    using c(1) by (simp add: rbd_obj_init_write_def ob_def Let_def)
  ultimately show ?thesis using c(2,3) by auto
qed

lemma init_zeroout_startable:
  assumes w: "world_ok w" and n: "new_request dev img obj" and op: "img_op_type img = OBJ_OP_ZEROOUT"
  shows "\<exists>ret obj' w'. rbd_obj_init_zeroout dev img obj w = Ok (ret, obj', w') \<and> ret \<le> 0 \<and> quietly w w' \<and>
     (ret = 0 \<longrightarrow> startable dev img obj')"
proof -
  obtain ret fes w' where c: "rbd_obj_calc_img_extents dev obj True w = Ok (ret, obj\<lparr>img_extents := fes\<rparr>, w')" "ret \<le> 0"
    "quietly w w'" "good_extents fes" "length (fes_bytes fes) \<le> max_extent_bytes"
    "ret = 0 \<longrightarrow> fes \<noteq> [] \<longrightarrow> prune_extents fes (parent_overlap dev) \<noteq> []"
    using calc_entire_Ok [OF w n] by (elim exE conjE) (rule that)
  define ob where "ob = (let obj = obj\<lparr>img_extents := fes\<rparr>;
         obj = (if rbd_obj_copyup_enabled dev img obj
                then obj\<lparr>obj_flags := insert RBD_OBJ_FLAG_COPYUP_ENABLED (obj_flags obj)\<rparr> else obj);
         obj = (if img_extents obj = [] then
                  let obj = obj\<lparr>obj_flags := insert RBD_OBJ_FLAG_NOOP_FOR_NONEXISTENT (obj_flags obj)\<rparr> in
                  if rbd_obj_is_entire dev obj
                  then obj\<lparr>obj_flags := insert RBD_OBJ_FLAG_DELETION (obj_flags obj)\<rparr> else obj
                else obj) in obj\<lparr>write_state := RBD_OBJ_WRITE_START\<rparr>)"
  have ob: "img_extents ob = fes" "obj_ex ob = obj_ex obj" "copyup_bvecs ob = None" "quiet ob" "write_state ob = RBD_OBJ_WRITE_START"
    "RBD_OBJ_FLAG_COPYUP_ENABLED \<in> obj_flags ob \<longrightarrow> fes \<noteq> []"
    "rbd_obj_is_entire dev ob \<longrightarrow> fes = [] \<longrightarrow> RBD_OBJ_FLAG_DELETION \<in> obj_flags ob"
    using n by (auto simp: ob_def Let_def new_request_def quiet_def rbd_obj_copyup_enabled_def rbd_obj_is_entire_def split: if_splits)
  have "startable dev img ob" if "ret = 0"
    using ob n op c(6) that
    by (intro write_startable [OF n _ c(4,5)]) (auto simp: rbd_img_is_write_def new_request_def)
  moreover have "rbd_obj_init_zeroout dev img obj w = (if ret \<noteq> 0 then Ok (ret, obj\<lparr>img_extents := fes\<rparr>, w') else Ok (0, ob, w'))"
    using c(1) by (simp add: rbd_obj_init_zeroout_def ob_def Let_def)
  ultimately show ?thesis using c(2,3) by auto
qed

lemma aligned_new_request:
  assumes n: "new_request dev img obj" and op: "img_op_type img = OBJ_OP_DISCARD"
    and lt: "off < round_down (oe_off (obj_ex obj) + oe_len (obj_ex obj)) align"
  shows "new_request dev img (obj\<lparr>obj_ex := (obj_ex obj)
     \<lparr>oe_off := off, oe_len := round_down (oe_off (obj_ex obj) + oe_len (obj_ex obj)) align - off\<rparr>\<rparr>)"
proof -
  let ?e = "oe_off (obj_ex obj) + oe_len (obj_ex obj)"
  let ?n = "round_down ?e align"
  have sum: "unat (oe_off (obj_ex obj)) + unat (oe_len (obj_ex obj)) \<le> unat (object_size (dev_layout dev))"
    using n by (simp add: new_request_def)
  then have "unat ?e = unat (oe_off (obj_ex obj)) + unat (oe_len (obj_ex obj))"
    using unat_u32_less [of "object_size (dev_layout dev)"] by (intro unat_add_no_wrap) simp
  then have "unat ?n \<le> unat (object_size (dev_layout dev))" using round_down_le [of ?e align] sum by simp
  moreover have "unat (?n - off) = unat ?n - unat off" using lt by (intro unat_sub_no_wrap) (simp add: word_less_nat_alt)
  ultimately have "unat off + unat (?n - off) \<le> unat (object_size (dev_layout dev))" using lt by (simp add: word_less_nat_alt)
  then show ?thesis using n op by (simp add: new_request_def quiet_def)
qed

lemma init_discard_startable:
  assumes w: "world_ok w" and n: "new_request dev img obj" and op: "img_op_type img = OBJ_OP_DISCARD"
  shows "\<exists>ret obj' w'. rbd_obj_init_discard dev obj w = Ok (ret, obj', w') \<and> ret \<le> 1 \<and> quietly w w' \<and>
     (ret = 0 \<longrightarrow> startable dev img obj')"
proof -
  define align where "align \<longleftrightarrow> dev_alloc_size dev \<noteq> object_size (dev_layout dev) \<or> \<not> rbd_obj_is_tail dev obj"
  define off where "off = round_up (oe_off (obj_ex obj)) (dev_alloc_size dev)"
  define nxt where "nxt = round_down (oe_off (obj_ex obj) + oe_len (obj_ex obj)) (dev_alloc_size dev)"
  show ?thesis
  proof (cases "align \<and> off \<ge> nxt")
    case True
    then have "rbd_obj_init_discard dev obj w = Ok (1, obj, w)"
      by (simp add: rbd_obj_init_discard_def align_def off_def nxt_def Let_def)
    moreover have "(1::int) \<noteq> 0" by simp
    ultimately show ?thesis using quietly_refl [OF w] by blast
  next
    case False
    define ob where "ob = (if align then obj\<lparr>obj_ex := (obj_ex obj)\<lparr>oe_off := off, oe_len := nxt - off\<rparr>\<rparr> else obj)"
    have n': "new_request dev img ob"
      using n False aligned_new_request [OF n op, of off "dev_alloc_size dev"] by (auto simp: ob_def nxt_def not_le)
    obtain ret fes w' where c: "rbd_obj_calc_img_extents dev ob True w = Ok (ret, ob\<lparr>img_extents := fes\<rparr>, w')" "ret \<le> 0"
      "quietly w w'" "good_extents fes" "length (fes_bytes fes) \<le> max_extent_bytes"
      using calc_entire_Ok [OF w n'] by (elim exE conjE) (rule that)
    define ob2 where "ob2 = (let obj = ob\<lparr>img_extents := fes, obj_flags := insert RBD_OBJ_FLAG_NOOP_FOR_NONEXISTENT (obj_flags ob)\<rparr>;
          obj = (if rbd_obj_is_entire dev obj \<and> img_extents obj = []
                 then obj\<lparr>obj_flags := insert RBD_OBJ_FLAG_DELETION (obj_flags obj)\<rparr> else obj) in
        obj\<lparr>write_state := RBD_OBJ_WRITE_START\<rparr>)"
    have ob2: "img_extents ob2 = fes" "obj_ex ob2 = obj_ex ob" "copyup_bvecs ob2 = None" "quiet ob2"
      "write_state ob2 = RBD_OBJ_WRITE_START" "RBD_OBJ_FLAG_COPYUP_ENABLED \<notin> obj_flags ob2"
      "rbd_obj_is_entire dev ob2 \<longrightarrow> fes = [] \<longrightarrow> RBD_OBJ_FLAG_DELETION \<in> obj_flags ob2"
      using n' by (auto simp: ob2_def Let_def new_request_def quiet_def rbd_obj_is_entire_def split: if_splits)
    have "startable dev img ob2"
      using ob2 n' op by (intro write_startable [OF n' _ c(4,5)]) (auto simp: rbd_img_is_write_def new_request_def)
    moreover have "rbd_obj_init_discard dev obj w = (if ret \<noteq> 0 then Ok (ret, ob\<lparr>img_extents := fes\<rparr>, w') else Ok (0, ob2, w'))"
    proof -
      have "rbd_obj_init_discard dev obj w =
         bind_outcome (rbd_obj_calc_img_extents dev ob True w) (\<lambda>(ret, obj, w).
          if ret \<noteq> 0 then Ok (ret, obj, w)
          else
            let obj = obj\<lparr>obj_flags := insert RBD_OBJ_FLAG_NOOP_FOR_NONEXISTENT (obj_flags obj)\<rparr>;
                obj = (if rbd_obj_is_entire dev obj \<and> img_extents obj = []
                       then obj\<lparr>obj_flags := insert RBD_OBJ_FLAG_DELETION (obj_flags obj)\<rparr> else obj) in
            Ok (0, obj\<lparr>write_state := RBD_OBJ_WRITE_START\<rparr>, w))"
        using False unfolding rbd_obj_init_discard_def Let_def align_def [symmetric] off_def [symmetric] nxt_def [symmetric] ob_def [symmetric]
        by (simp only: if_not_P [OF False] if_False)
      then show ?thesis unfolding c(1) by (simp add: ob2_def Let_def)
    qed
    moreover have "ret \<le> 1" using c(2) by simp
    ultimately show ?thesis using c(3) by auto
  qed
qed

text \<open>Preparing a new object request succeeds, drops it, or fails; a prepared one can be started.\<close>

lemma rbd_obj_init_startable:
  assumes w: "world_ok w" and n: "new_request dev img obj"
  shows "\<exists>ret obj' w'. rbd_obj_init dev img obj w = Ok (ret, obj', w') \<and> (ret = 0 \<longrightarrow> startable dev img obj')"
proof (cases "img_op_type img")
  case OBJ_OP_READ
  then show ?thesis using init_read_startable [OF n] by (simp add: rbd_obj_init_def)
next
  case OBJ_OP_WRITE
  then show ?thesis using init_write_startable [OF w n] by (auto simp: rbd_obj_init_def)
next
  case OBJ_OP_DISCARD
  then show ?thesis using init_discard_startable [OF w n] by (auto simp: rbd_obj_init_def)
next
  case OBJ_OP_ZEROOUT
  then show ?thesis using init_zeroout_startable [OF w n] by (auto simp: rbd_obj_init_def)
qed

section \<open>Examples\<close>

text \<open>A clone of 16 bytes of its parent with two objects of 8 bytes, an object map and one snapshot.\<close>

definition clone_layout :: ceph_file_layout where
  "clone_layout = \<lparr>stripe_unit = 8, stripe_count = 1, object_size = 8, pool_id = 1, pool_ns = None\<rparr>"

definition clone_device :: rbd_device where
  "clone_device = \<lparr>dev_features = 13, dev_readonly = False, dev_snap_id = CEPH_NOSNAP, dev_layout = clone_layout,
     dev_alloc_size = 4, dev_lock_on_read = False, dev_exclusive = False, dev_lock_state = RBD_LOCK_STATE_LOCKED,
     object_map = [64], object_map_size = 2, object_map_flags = 0, parent_overlap = 12\<rparr>"

definition clone_write :: rbd_img_request where
  "clone_write = \<lparr>img_op_type = OBJ_OP_WRITE, img_data_type = OBJ_REQUEST_BIO, img_child = False,
     img_state = RBD_IMG_START, img_snaps = [7], img_pending = \<lparr>pr_result = 0, num_pending = 0\<rparr>\<rparr>"

definition clone_object :: "u64 \<Rightarrow> rbd_obj_request" where
  "clone_object objno = \<lparr>obj_ex = \<lparr>oe_objno = objno, oe_off = 2, oe_len = 4\<rparr>, obj_flags = {}, read_state = RBD_OBJ_READ_START,
     write_state = RBD_OBJ_WRITE_START, img_extents = [], bvec_bytes = 0, bvec_count = 0, bvec_idx = 0,
     copyup_state = RBD_OBJ_COPYUP_START, copyup_bvecs = None, obj_pending = \<lparr>pr_result = 0, num_pending = 0\<rparr>\<rparr>"

definition clone_prepared :: rbd_obj_request where
  "clone_prepared = (clone_object 1)\<lparr>obj_flags := {RBD_OBJ_FLAG_COPYUP_ENABLED}, img_extents := [\<lparr>fe_off = 8, fe_len = 4\<rparr>]\<rparr>"

lemma clone_new: "new_request clone_device clone_write (clone_object 1)"
  by (simp add: new_request_def has_object_map_def clone_device_def clone_write_def clone_object_def map_within_def range_ok_def
      valid_layout_def clone_layout_def stripes_per_obj_def file_byte_def max_extent_bytes_def data_ready_def quiet_def)

lemma clone_init: "rbd_obj_init clone_device clone_write (clone_object 1) \<lparr>w_rets = [], w_log = [], w_zeroed = []\<rparr> =
    Ok (0, clone_prepared, \<lparr>w_rets = [], w_log = [], w_zeroed = []\<rparr>)"
  by code_simp

section \<open>Complete runs\<close>

lemma started_run:
  assumes "new_request dev img obj" and "list_all (\<lambda>r. r \<le> 0) (w_rets w)" and "rbd_obj_init dev img obj w = Ok (0, obj', w')"
    and "list_all (\<lambda>r. r \<le> 0) rets"
  shows "\<exists>s. obj_start img dev obj' rets = Ok s \<and> sys_inv img s \<and> sys_measure img s \<le> 8 * Suc (max_out img)"
proof -
  have "world_ok w" using assms(2) by (simp add: world_ok_def list_all_iff)
  from rbd_obj_init_startable [OF this assms(1)] have "startable dev img obj'" using assms(3) by auto
  then show ?thesis using obj_start_ok assms(4) by blast
qed

text \<open>
  C3: Every object request finishes. A new object request (any operation, any device whose object map covers the object)
  that has been prepared can be started; every sequence of completions of its requests, in any order and with any results,
  has at most \<open>8 * (max 2 s + 1)\<close> completions where \<open>s\<close> is the number of snapshots, and until the object request is done a
  further completion is always possible: it never waits for nothing.
\<close>

theorem rbd_obj_request_finishes:
  assumes "new_request dev img obj" and "list_all (\<lambda>r. r \<le> 0) (w_rets w)" and "rbd_obj_init dev img obj w = Ok (0, obj', w')"
    and "list_all (\<lambda>r. r \<le> 0) rets"
  shows "\<exists>s. obj_start img dev obj' rets = Ok s \<and>
     (\<forall>n t. (obj_step img ^^ n) s t \<longrightarrow>
        n \<le> 8 * (max 2 (length (img_snaps img)) + 1) \<and> (sys_done t = None \<longrightarrow> (\<exists>t'. obj_step img t t')))"
proof -
  obtain s where s: "obj_start img dev obj' rets = Ok s" "sys_inv img s" "sys_measure img s \<le> 8 * Suc (max_out img)"
    using started_run [OF assms] by blast
  have "n \<le> 8 * (max 2 (length (img_snaps img)) + 1) \<and> (sys_done t = None \<longrightarrow> (\<exists>t'. obj_step img t t'))"
    if "(obj_step img ^^ n) s t" for n t
    using object_request.finishes [OF that s(2)] s(3) by (simp add: max_out_def)
  then show ?thesis using s(1) by blast
qed


text \<open>
  C31: The records stay well formed. In every state that an object request reaches, its object number is inside the object
  map, its extents in the parent are sorted, non-empty and below \<open>2 ^ 64\<close>, the flags agree with the operation, and the payload of
  every object map update in flight decodes to the object of the request and a two-bit state.
\<close>

theorem rbd_obj_request_wellformed:
  assumes "new_request dev img obj" and "list_all (\<lambda>r. r \<le> 0) (w_rets w)" and "rbd_obj_init dev img obj w = Ok (0, obj', w')"
    and "list_all (\<lambda>r. r \<le> 0) rets" and "obj_start img dev obj' rets = Ok s" and "(obj_step img)\<^sup>*\<^sup>* s t"
  shows "prepared (sys_dev t) img (sys_obj t) \<and> list_all (sub_ok (sys_dev t) (sys_obj t)) (sys_out t)"
proof -
  have "sys_inv img s" using started_run [OF assms(1-4)] assms(5) by auto
  then have inv: "sys_inv img t" by (rule object_request.steps_inv [OF assms(6)])
  then show ?thesis by (auto simp: sys_inv_def split: option.splits)
qed

theorem rbd_obj_request_finishes_witness:
  "\<exists>s. obj_start clone_write clone_device clone_prepared [] = Ok s \<and>
     (\<forall>n t. (obj_step clone_write ^^ n) s t \<longrightarrow> n \<le> 24 \<and> (sys_done t = None \<longrightarrow> (\<exists>t'. obj_step clone_write t t')))"
  using rbd_obj_request_finishes [OF clone_new _ clone_init, of "[]"] by (simp add: clone_write_def)

lemma clone_start: "obj_start clone_write clone_device clone_prepared [] =
   Ok \<lparr>sys_dev = clone_device,
       sys_obj = clone_prepared\<lparr>write_state := RBD_OBJ_WRITE_PRE_OBJECT_MAP\<rparr>,
       sys_out = [Map_update CEPH_NOSNAP 2 (object_map_update_data 1 OBJECT_EXISTS None)], sys_done = None\<rparr>"
  by code_simp


theorem rbd_obj_request_wellformed_witness:
  "prepared clone_device clone_write (clone_prepared\<lparr>write_state := RBD_OBJ_WRITE_PRE_OBJECT_MAP\<rparr>)"
  using rbd_obj_request_wellformed [OF clone_new _ clone_init _ clone_start rtranclp.rtrancl_refl] by simp

section \<open>Flattening under a request\<close>

text \<open>A request that zeroes a whole object of the clone, on a device without object map.\<close>

definition flat_device :: rbd_device where "flat_device = clone_device\<lparr>dev_features := 1\<rparr>"

definition flat_zeroout :: rbd_img_request where
  "flat_zeroout = clone_write\<lparr>img_op_type := OBJ_OP_ZEROOUT, img_data_type := OBJ_REQUEST_NODATA\<rparr>"

definition flat_object :: rbd_obj_request where
  "flat_object = (clone_object 0)\<lparr>obj_ex := \<lparr>oe_objno = 0, oe_off = 0, oe_len = 8\<rparr>\<rparr>"

text \<open>
  C38: Flattening an image can stop the machine. A request that zeroes a whole object of a clone with snapshots is prepared
  and sent with copyup enabled; when the object turns out not to exist and the overlap with the parent has become 0 in the
  meantime, the operations are set up again without extents, and the assertion that the request is a deletion fails.
\<close>

theorem rbd_zeroout_flattened_bug:
  "\<exists>obj s w. new_request flat_device flat_zeroout flat_object \<and>
     rbd_obj_init flat_device flat_zeroout flat_object \<lparr>w_rets = [], w_log = [], w_zeroed = []\<rparr> = Ok (0, obj, w) \<and>
     obj_start flat_zeroout flat_device obj [] = Ok s \<and>
     obj_complete flat_zeroout
       \<lparr>ev_index = 0, ev_result = RET_ENOENT, ev_data = [], ev_overlap = 0, ev_rets = []\<rparr> s = Oops Bug_On"
proof -
  let ?obj = "flat_object\<lparr>obj_flags := {RBD_OBJ_FLAG_COPYUP_ENABLED}, img_extents := [\<lparr>fe_off = 0, fe_len = 8\<rparr>]\<rparr>"
  let ?s = "\<lparr>sys_dev = flat_device,
    sys_obj = ?obj\<lparr>obj_flags := {RBD_OBJ_FLAG_COPYUP_ENABLED, RBD_OBJ_FLAG_MAY_EXIST}, write_state := RBD_OBJ_WRITE_OBJECT\<rparr>,
    sys_out = [Osd_request (Some [7]) 2 [CEPH_OSD_OP_STAT, CEPH_OSD_OP_TRUNCATE 0 8]], sys_done = None\<rparr>"
  let ?w = "\<lparr>w_rets = [], w_log = [], w_zeroed = []\<rparr>"
  have "new_request flat_device flat_zeroout flat_object"
    by (simp add: new_request_def has_object_map_def flat_device_def clone_device_def flat_zeroout_def clone_write_def
        flat_object_def clone_object_def range_ok_def valid_layout_def clone_layout_def stripes_per_obj_def file_byte_def
        max_extent_bytes_def quiet_def)
  moreover have "rbd_obj_init flat_device flat_zeroout flat_object ?w = Ok (0, ?obj, ?w)" by code_simp
  moreover have "obj_start flat_zeroout flat_device ?obj [] = Ok ?s" by code_simp
  moreover have "obj_complete flat_zeroout
      \<lparr>ev_index = 0, ev_result = RET_ENOENT, ev_data = [], ev_overlap = 0, ev_rets = []\<rparr> ?s = Oops Bug_On" by code_simp
  ultimately show ?thesis by blast
qed

section \<open>The object map as a function\<close>

text \<open>The abstract update of a map from object numbers to states: conditional on the current state when one is given.\<close>

definition object_map_spec :: "u64 \<Rightarrow> u8 \<Rightarrow> u8 option \<Rightarrow> (u64 \<rightharpoonup> u8) \<Rightarrow> (u64 \<rightharpoonup> u8)" where
  "object_map_spec objno new cur M =
     (case M objno of
        None \<Rightarrow> M
      | Some state \<Rightarrow>
          if cur = None \<or> cur = Some state \<or> cur = Some OBJECT_EXISTS \<and> state = OBJECT_EXISTS_CLEAN
          then M(objno \<mapsto> new) else M)"

text \<open>An update that changes nothing that matters: see \<open>update_needed\<close>.\<close>

definition redundant :: "u8 \<Rightarrow> u8 \<Rightarrow> bool" where
  "redundant state new \<longleftrightarrow>
     state = new \<or> new = OBJECT_PENDING \<and> state = OBJECT_NONEXISTENT \<or> new = OBJECT_NONEXISTENT \<and> state \<noteq> OBJECT_PENDING"

lemma update_needed_iff:
  assumes "map_within dev objno"
  shows "\<exists>state. omap.view dev objno = Some state \<and> update_needed dev objno new = Ok (\<not> redundant state new)"
  using omap.view_Some [OF assms] by (auto simp: update_needed_def redundant_def)

lemma finish_spec:
  assumes "map_within dev (oe_objno (obj_ex obj))" and "two_bits new"
  shows "\<exists>dev'. rbd_object_map_update_finish dev obj 0 2 (object_map_update_data (oe_objno (obj_ex obj)) new cur) = Ok (0, dev') \<and>
     (\<exists>m. dev' = dev\<lparr>object_map := m\<rparr>) \<and> omap.view dev' = object_map_spec (oe_objno (obj_ex obj)) new cur (omap.view dev)"
  using rbd_object_map_update_finish_Ok [OF assms, of cur] by (auto simp: object_map_spec_def split: option.splits)

text \<open>
  C12: The packed object map implements a function from object numbers to states. An update of the map of the image is left out
  only when the state of the object makes it redundant; otherwise, if it doesn't fail, exactly one request is sent, and its
  completion changes the two bits of the object, and no others, as the abstract update does.
\<close>

theorem rbd_object_map_update_refines:
  assumes within: "map_within dev (oe_objno (obj_ex obj))" and new: "two_bits new" and w: "list_all (\<lambda>r. r \<le> 0) (w_rets w)"
  shows "\<exists>ret w' state. rbd_object_map_update dev obj CEPH_NOSNAP new cur w = Ok (ret, w') \<and>
     omap.view dev (oe_objno (obj_ex obj)) = Some state \<and>
     (if redundant state new then ret = 1 \<and> w_log w' = w_log w
      else ret < 0 \<and> w_log w' = w_log w \<or>
        ret = 0 \<and> (\<exists>data dev'. w_log w' = w_log w @ [Map_update CEPH_NOSNAP 2 data] \<and>
          rbd_object_map_update_finish dev obj 0 2 data = Ok (0, dev') \<and>
          omap.view dev' = object_map_spec (oe_objno (obj_ex obj)) new cur (omap.view dev)))"
proof -
  let ?o = "oe_objno (obj_ex obj)"
  have wok: "world_ok w" using w by (simp add: world_ok_def list_all_iff)
  obtain state where state: "omap.view dev ?o = Some state" "update_needed dev ?o new = Ok (\<not> redundant state new)"
    using update_needed_iff [OF within] by blast
  obtain ret w' where u: "rbd_object_map_update dev obj CEPH_NOSNAP new cur w = Ok (ret, w')"
    "issued (\<lambda>sub. sub = map_update_of ?o CEPH_NOSNAP new cur) ret w w' \<or>
      ret = 1 \<and> quietly w w' \<and> update_needed dev ?o new = Ok False"
    using rbd_object_map_update_exact [OF wok within, of CEPH_NOSNAP new cur] by blast
  obtain dev' where f: "rbd_object_map_update_finish dev obj 0 2 (object_map_update_data ?o new cur) = Ok (0, dev')"
    "omap.view dev' = object_map_spec ?o new cur (omap.view dev)"
    using finish_spec [OF within new, of cur] by blast
  show ?thesis
  proof (cases "redundant state new")
    case True
    then have "rbd_object_map_update dev obj CEPH_NOSNAP new cur w = Ok (1, w)" using state(2) by (simp add: rbd_object_map_update_def)
    then show ?thesis using True state(1) by simp
  next
    case False
    then have "issued (\<lambda>sub. sub = map_update_of ?o CEPH_NOSNAP new cur) ret w w'" using u(2) state(2) by auto
    then consider "ret < 0" "w_log w' = w_log w"
      | "ret = 0" "w_log w' = w_log w @ [Map_update CEPH_NOSNAP 2 (object_map_update_data ?o new cur)]"
      by (auto simp: issued_def map_update_of_def)
    then show ?thesis by cases (use False u(1) state(1) f in auto)
  qed
qed

theorem rbd_object_map_update_refines_witness:
  "\<exists>dev'. rbd_object_map_update_finish clone_device (clone_object 1) 0 2 (object_map_update_data 1 OBJECT_EXISTS None) = Ok (0, dev') \<and>
     omap.view dev' = object_map_spec 1 OBJECT_EXISTS None (omap.view clone_device)"
proof -
  let ?w = "\<lparr>w_rets = [], w_log = [], w_zeroed = []\<rparr>"
  have within: "map_within clone_device (oe_objno (obj_ex (clone_object 1)))"
    by (simp add: map_within_def clone_device_def clone_object_def)
  have "rbd_object_map_get clone_device 1 = Ok 0" by code_simp
  then have state: "omap.view clone_device 1 = Some 0"
    using within omap.view_Some [OF within] by (auto simp: clone_object_def)
  have sent: "rbd_object_map_update clone_device (clone_object 1) CEPH_NOSNAP 1 None ?w =
      Ok (0, ?w\<lparr>w_log := [Map_update CEPH_NOSNAP 2 (object_map_update_data 1 OBJECT_EXISTS None)]\<rparr>)" by code_simp
  have no: "oe_objno (obj_ex (clone_object 1)) = 1" by (simp add: clone_object_def)
  have "two_bits 1" by (simp add: two_bits_def)
  from rbd_object_map_update_refines [OF within this, of ?w None] show ?thesis
    unfolding no sent using state by (simp add: redundant_def)
qed

section \<open>The object map is ahead of the object\<close>

text \<open>The state that the map must have before a write is sent, and the states that are as good.\<close>

definition ahead_state :: "rbd_obj_request \<Rightarrow> u8" where
  "ahead_state obj = (if RBD_OBJ_FLAG_DELETION \<in> obj_flags obj then OBJECT_PENDING else OBJECT_EXISTS)"

definition map_ahead :: "rbd_device \<Rightarrow> rbd_obj_request \<Rightarrow> bool" where
  "map_ahead dev obj \<longleftrightarrow> (\<exists>state. omap.view dev (oe_objno (obj_ex obj)) = Some state \<and> redundant state (ahead_state obj))"

lemma ahead_two_bits: "two_bits (ahead_state obj)"
  by (simp add: ahead_state_def two_bits_def)

text \<open>What starting a write does, on a device with an object map.\<close>

lemma write_start_ahead:
  assumes p: "prepared dev img obj" "rbd_img_is_write img" "has_object_map dev" and w: "world_ok w" "w_log w = []"
  shows "\<exists>d res obj' w'. write_start dev img obj 0 w = Ok (d, res, obj', w') \<and> obj_ex obj' = obj_ex obj \<and>
     (RBD_OBJ_FLAG_DELETION \<in> obj_flags obj' \<longleftrightarrow> RBD_OBJ_FLAG_DELETION \<in> obj_flags obj) \<and>
     (w_log w' = [] \<or>
      map_ahead dev obj \<and> list_all is_osd (w_log w') \<or>
      \<not> d \<and> write_state obj' = RBD_OBJ_WRITE_PRE_OBJECT_MAP \<and> \<not> map_ahead dev obj \<and>
        w_log w' = [map_update_of (oe_objno (obj_ex obj)) CEPH_NOSNAP (ahead_state obj) None])"
proof -
  let ?o = "oe_objno (obj_ex obj)"
  have within: "map_within dev ?o" using p by (simp add: prepared_def)
  obtain may where may: "rbd_object_map_may_exist dev ?o = Ok may" using object_map_may_exist_Ok [OF p(1)] by blast
  define ob where "ob = (if may then obj\<lparr>obj_flags := insert RBD_OBJ_FLAG_MAY_EXIST (obj_flags obj)\<rparr> else obj)"
  have ob: "prepared dev img ob" "obj_ex ob = obj_ex obj" "ahead_state ob = ahead_state obj"
    "RBD_OBJ_FLAG_DELETION \<in> obj_flags ob \<longleftrightarrow> RBD_OBJ_FLAG_DELETION \<in> obj_flags obj"
    using p(1) by (auto simp: ob_def ahead_state_def)
  define noop where "noop \<longleftrightarrow> RBD_OBJ_FLAG_MAY_EXIST \<notin> obj_flags ob \<and> RBD_OBJ_FLAG_NOOP_FOR_NONEXISTENT \<in> obj_flags ob"
  have n: "rbd_obj_write_is_noop dev obj = Ok (noop, ob)"
    unfolding rbd_obj_write_is_noop_def may noop_def ob_def by (simp add: Let_def)
  obtain state where state: "omap.view dev ?o = Some state" "update_needed dev ?o (ahead_state obj) = Ok (\<not> redundant state (ahead_state obj))"
    using update_needed_iff [OF within] by blast
  obtain ret w1 where u: "rbd_object_map_update dev ob CEPH_NOSNAP (ahead_state obj) None w = Ok (ret, w1)"
    "issued (\<lambda>sub. sub = map_update_of ?o CEPH_NOSNAP (ahead_state obj) None) ret w w1 \<or>
      ret = 1 \<and> quietly w w1 \<and> update_needed dev ?o (ahead_state obj) = Ok False"
    using rbd_object_map_update_exact [OF w(1), of CEPH_NOSNAP dev ob "ahead_state obj" None] within ob(2) by auto
  have u': "rbd_obj_write_pre_object_map dev ob w = Ok (ret, w1)"
    using u(1) p(3) ob(4) by (simp add: rbd_obj_write_pre_object_map_def has_object_map_def ahead_state_def)
  let ?ob = "ob\<lparr>write_state := RBD_OBJ_WRITE_PRE_OBJECT_MAP\<rparr>"
  have eq: "write_start dev img obj 0 w =
      (if noop then Ok (True, 0, ob, w)
       else if ret < 0 then Ok (True, ret, ob, w1)
       else if ret > 0 then write_pre_done dev img ?ob 0 w1 else Ok (False, 0, ?ob, w1))"
    using u' n by (simp add: write_start_def rbd_assert_def Let_def)
  consider (noop) noop | (err) "\<not> noop" "ret < 0" "w_log w1 = []"
    | (sent) "\<not> noop" "ret = 0" "w_log w1 = [map_update_of ?o CEPH_NOSNAP (ahead_state obj) None]" "update_needed dev ?o (ahead_state obj) = Ok True"
    | (skip) "\<not> noop" "ret = 1" "quietly w w1" "update_needed dev ?o (ahead_state obj) = Ok False"
  proof -
    have "ret \<noteq> 0" if "update_needed dev ?o (ahead_state obj) = Ok False"
      using that u(1) ob(2) by (simp add: rbd_object_map_update_def)
    then show thesis using u(2) w(2) state(2) that by (cases noop) (auto simp: issued_def)
  qed
  then show ?thesis
  proof cases
    case noop
    then show ?thesis using eq ob w(2) by (intro exI [of _ True] exI [of _ 0] exI [of _ ob] exI [of _ w]) simp
  next
    case err
    then show ?thesis using eq ob by (intro exI [of _ True] exI [of _ ret] exI [of _ ob] exI [of _ w1]) simp
  next
    case sent
    then show ?thesis using eq ob state
      by (intro exI [of _ False] exI [of _ 0] exI [of _ ?ob] exI [of _ w1]) (simp add: map_ahead_def)
  next
    case skip
    have ahead: "map_ahead dev obj" using skip(4) state by (simp add: map_ahead_def)
    have po: "prepared dev img ?ob" using ob(1) by simp
    obtain ret2 w2 where v: "rbd_obj_write_object dev img ?ob w1 = Ok (ret2, w2)" "issued is_osd ret2 w1 w2"
      using rbd_obj_write_object_issued [OF po p(2) quietly_ok [OF skip(3)]] by blast
    have "w_log w1 = []" using skip(3) w(2) by (simp add: quietly_def)
    then have l: "w_log w2 = [] \<or> list_all is_osd (w_log w2)" using v(2) by (auto simp: issued_def)
    have "write_start dev img obj 0 w =
        (if ret2 \<noteq> 0 then Ok (True, ret2, ?ob, w2) else Ok (False, 0, ?ob\<lparr>write_state := RBD_OBJ_WRITE_OBJECT\<rparr>, w2))"
      using eq skip(1,2) v(1) by (simp add: write_pre_done_def)
    then show ?thesis using ob l ahead by auto
  qed
qed

lemma startable_init:
  assumes "new_request dev img obj" and "list_all (\<lambda>r. r \<le> 0) (w_rets w)" and "rbd_obj_init dev img obj w = Ok (0, obj', w')"
  shows "startable dev img obj'"
  using rbd_obj_init_startable [OF _ assms(1), of w] assms(2,3) by (auto simp: world_ok_def list_all_iff)

text \<open>The completion of the update that a write waits for.\<close>

lemma pre_map_completion:
  assumes s: "sys_inv img s" "sys_done s = None" "rbd_img_is_write img" "has_object_map (sys_dev s)"
    and st: "write_state (sys_obj s) = RBD_OBJ_WRITE_PRE_OBJECT_MAP"
    and out: "sys_out s = [map_update_of (oe_objno (obj_ex (sys_obj s))) CEPH_NOSNAP (ahead_state (sys_obj s)) None]"
    and ev: "event_ok img s ev" "obj_complete img ev s = Ok s'" and ne: "sys_out s' \<noteq> []"
  shows "ev_result ev = 0 \<and> obj_ex (sys_obj s') = obj_ex (sys_obj s) \<and>
     omap.view (sys_dev s') (oe_objno (obj_ex (sys_obj s))) = Some (ahead_state (sys_obj s))"
proof -
  let ?o = "oe_objno (obj_ex (sys_obj s))" and ?w = "\<lparr>w_rets = ev_rets ev, w_log = [], w_zeroed = []\<rparr>"
  let ?dev = "(sys_dev s)\<lparr>parent_overlap := ev_overlap ev\<rparr>"
  let ?data = "object_map_update_data ?o (ahead_state (sys_obj s)) None"
  have i: "ev_index ev = 0" using ev(1) out by (simp add: event_ok_def)
  have "map_within (sys_dev s) ?o" using s by (simp add: sys_inv_def prepared_def)
  then have within: "map_within ?dev ?o" by (simp add: map_within_def)
  obtain dev' where f: "rbd_object_map_update_finish ?dev (sys_obj s) 0 2 ?data = Ok (0, dev')"
    "\<exists>m. dev' = ?dev\<lparr>object_map := m\<rparr>" "omap.view dev' = object_map_spec ?o (ahead_state (sys_obj s)) None (omap.view ?dev)"
    using finish_spec [OF within ahead_two_bits] by blast
  have v: "omap.view dev' ?o = Some (ahead_state (sys_obj s))"
    using f(3) omap.view_Some [OF within] by (auto simp: object_map_spec_def)
  have c: "obj_complete img ev s =
      bind_outcome (rbd_object_map_update_finish ?dev (sys_obj s) (ev_result ev) 2 ?data) (\<lambda>(res, dev).
      bind_outcome (rbd_obj_handle_request dev img (sys_obj s) res ?w) (\<lambda>(done, res, obj, w).
        Ok \<lparr>sys_dev = dev, sys_obj = obj, sys_out = w_log w, sys_done = (if done then Some res else None)\<rparr>))"
    using i out by (simp add: obj_complete_def aref_def obj_callback_def map_update_of_def bind_outcome_assoc case_prod_unfold)
  have adv: "rbd_obj_handle_request dev img (sys_obj s) res w = Ok (True, res, sys_obj s, w)" if "res < 0" for dev res w
    using that s(3) st by (simp add: rbd_obj_handle_request_def rbd_obj_advance_write_def write_pre_done_def rbd_assert_def)
  have "ev_result ev \<le> 0" using ev(1) out i by (simp add: event_ok_def map_update_of_def)
  have r: "ev_result ev = 0"
  proof (rule ccontr)
    assume nz: "ev_result ev \<noteq> 0"
    then have "obj_complete img ev s = Ok \<lparr>sys_dev = ?dev, sys_obj = sys_obj s, sys_out = [], sys_done = Some (ev_result ev)\<rparr>"
      using c adv [of "ev_result ev" ?dev ?w] \<open>ev_result ev \<le> 0\<close> by (simp add: rbd_object_map_update_finish_def)
    then show False using ev(2) ne by auto
  qed
  obtain d res obj w where h: "rbd_obj_handle_request dev' img (sys_obj s) 0 ?w = Ok (d, res, obj, w)"
    "s' = \<lparr>sys_dev = dev', sys_obj = obj, sys_out = w_log w, sys_done = (if d then Some res else None)\<rparr>"
    using ev(2) c f(1) r by (auto simp: outcome_simps)
  have "obj_ex obj = obj_ex (sys_obj s)"
    using h(1) s(3) st by (auto simp: rbd_obj_handle_request_def rbd_obj_advance_write_def write_pre_done_def rbd_assert_def outcome_simps split: if_splits)
  then show ?thesis using r v h(2) by simp
qed

text \<open>
  C11: A write never overtakes the object map. Starting a prepared write on a device with an object map sends requests for the
  object only when the map already says that the object exists (for a deletion: that it is pending or gone). Otherwise the only
  request is the update of the map, and requests for the object follow only after it has succeeded and the map has the new state.
\<close>

theorem rbd_write_object_map_first:
  assumes "new_request dev img obj" and "list_all (\<lambda>r. r \<le> 0) (w_rets w)" and "rbd_obj_init dev img obj w = Ok (0, obj', w')"
    and "list_all (\<lambda>r. r \<le> 0) rets" and "obj_start img dev obj' rets = Ok s" and "rbd_img_is_write img" and "has_object_map dev"
  shows "sys_out s = [] \<or>
     map_ahead dev obj' \<and> list_all is_osd (sys_out s) \<or>
     sys_out s = [map_update_of (oe_objno (obj_ex obj')) CEPH_NOSNAP (ahead_state obj') None] \<and>
       (\<forall>ev t. event_ok img s ev \<longrightarrow> obj_complete img ev s = Ok t \<longrightarrow> sys_out t \<noteq> [] \<longrightarrow>
          ev_result ev = 0 \<and> omap.view (sys_dev t) (oe_objno (obj_ex obj')) = Some (ahead_state obj'))"
proof -
  let ?w = "\<lparr>w_rets = rets, w_log = [], w_zeroed = []\<rparr>"
  have st: "startable dev img obj'" using startable_init [OF assms(1-3)] .
  have inv: "sys_inv img s" using obj_start_ok [OF st assms(4)] assms(5) by auto
  have p: "prepared dev img obj'" "write_state obj' = RBD_OBJ_WRITE_START" using st assms(6) by (simp_all add: startable_def)
  have w: "world_ok ?w" "w_log ?w = []" using assms(4) by (simp_all add: world_ok_def list_all_iff)
  obtain d res ob w1 where ws: "write_start dev img obj' 0 ?w = Ok (d, res, ob, w1)" "obj_ex ob = obj_ex obj'"
    "RBD_OBJ_FLAG_DELETION \<in> obj_flags ob \<longleftrightarrow> RBD_OBJ_FLAG_DELETION \<in> obj_flags obj'"
    "w_log w1 = [] \<or> map_ahead dev obj' \<and> list_all is_osd (w_log w1) \<or>
      \<not> d \<and> write_state ob = RBD_OBJ_WRITE_PRE_OBJECT_MAP \<and> \<not> map_ahead dev obj' \<and>
        w_log w1 = [map_update_of (oe_objno (obj_ex obj')) CEPH_NOSNAP (ahead_state obj') None]"
    using write_start_ahead [OF p(1) assms(6,7) w] by (elim exE conjE) (rule that)
  have s: "s = \<lparr>sys_dev = dev, sys_obj = ob, sys_out = w_log w1, sys_done = (if d then Some res else None)\<rparr>"
    using assms(5,6) ws(1) p(2)
    by (auto simp: obj_start_def rbd_obj_handle_request_def rbd_obj_advance_write_def rbd_assert_def split: if_splits)
  have a: "ahead_state ob = ahead_state obj'" using ws(3) by (simp add: ahead_state_def)
  have "\<forall>ev t. event_ok img s ev \<longrightarrow> obj_complete img ev s = Ok t \<longrightarrow> sys_out t \<noteq> [] \<longrightarrow>
      ev_result ev = 0 \<and> omap.view (sys_dev t) (oe_objno (obj_ex obj')) = Some (ahead_state obj')"
    if "\<not> d" "write_state ob = RBD_OBJ_WRITE_PRE_OBJECT_MAP"
      "w_log w1 = [map_update_of (oe_objno (obj_ex obj')) CEPH_NOSNAP (ahead_state obj') None]"
    using pre_map_completion [OF inv _ assms(6)] that s ws(2) a assms(7) by simp
  then show ?thesis using ws(4) s by auto
qed

theorem rbd_write_object_map_first_witness:
  "\<exists>s. obj_start clone_write clone_device clone_prepared [] = Ok s \<and> length (sys_out s) = 1 \<and> \<not> list_all is_osd (sys_out s) \<and>
     (\<forall>ev t. event_ok clone_write s ev \<longrightarrow> obj_complete clone_write ev s = Ok t \<longrightarrow> sys_out t \<noteq> [] \<longrightarrow>
        omap.view (sys_dev t) 1 = Some OBJECT_EXISTS)"
proof -
  have wr: "rbd_img_is_write clone_write" "has_object_map clone_device"
    by (simp_all add: rbd_img_is_write_def clone_write_def has_object_map_def clone_device_def)
  have o: "oe_objno (obj_ex clone_prepared) = 1" "ahead_state clone_prepared = 1"
    by (simp_all add: clone_prepared_def clone_object_def ahead_state_def)
  have no: "\<not> is_osd (Map_update snap n data)" for snap n data by (simp add: is_osd_def)
  let ?s = "\<lparr>sys_dev = clone_device, sys_obj = clone_prepared\<lparr>write_state := RBD_OBJ_WRITE_PRE_OBJECT_MAP\<rparr>,
    sys_out = [Map_update CEPH_NOSNAP 2 (object_map_update_data 1 OBJECT_EXISTS None)], sys_done = None\<rparr>"
  have "\<forall>ev t. event_ok clone_write ?s ev \<longrightarrow> obj_complete clone_write ev ?s = Ok t \<longrightarrow> sys_out t \<noteq> [] \<longrightarrow>
      omap.view (sys_dev t) 1 = Some OBJECT_EXISTS"
    using rbd_write_object_map_first [OF clone_new _ clone_init _ clone_start wr] o no by simp
  then show ?thesis using clone_start no by (intro exI [of _ ?s]) simp
qed

end
