(* ===== verification/RbdLock.thy ===== *)
theory RbdLock
  imports RbdRuns
begin

text \<open>
  The exclusive lock and the watch of a RADOS block device (\<open>rbd/rbd.c\<close>): requests that need the lock, taking and releasing the lock of
  the header object, the notifications between clients, and the object map that is loaded when the lock is acquired. Where a function of the
  driver waits, it is split there into two definitions. What the cluster replies is an argument of the definitions; a loop that goes
  on as long as the cluster replies in a certain way takes one list entry for each round and ends in \<open>No_Fuel\<close> when the list is used up.
  A NULL object map is the empty list.
\<close>

unbundle bit_operations_syntax

section \<open>Data\<close>

abbreviation (input) RET_EIO :: int where "RET_EIO \<equiv> - 5"
abbreviation (input) RET_EBUSY :: int where "RET_EBUSY \<equiv> - 16"
abbreviation (input) RET_EEXIST :: int where "RET_EEXIST \<equiv> - 17"
abbreviation (input) RET_EINVAL :: int where "RET_EINVAL \<equiv> - 22"
abbreviation (input) RET_EBADMSG :: int where "RET_EBADMSG \<equiv> - 74"
abbreviation (input) RET_EOPNOTSUPP :: int where "RET_EOPNOTSUPP \<equiv> - 95"
abbreviation (input) RET_EBLOCKLISTED :: int where "RET_EBLOCKLISTED \<equiv> - 108"
abbreviation (input) RET_ETIMEDOUT :: int where "RET_ETIMEDOUT \<equiv> - 110"
abbreviation (input) RBD_RETRY_DELAY :: nat where "RBD_RETRY_DELAY \<equiv> 1000"
abbreviation (input) RBD_NOTIFY_TIMEOUT :: nat where "RBD_NOTIFY_TIMEOUT \<equiv> 5"

datatype rbd_watch_state = RBD_WATCH_STATE_UNREGISTERED | RBD_WATCH_STATE_REGISTERED | RBD_WATCH_STATE_ERROR

record rbd_client_id =
  cid_gid :: u64
  cid_handle :: u64

record ceph_locker =
  locker_name :: u64
  locker_cookie :: string
  locker_addr :: ceph_entity_addr

record ceph_watch_item =
  watch_name :: u64
  item_cookie :: u64
  watch_addr :: ceph_entity_addr

text \<open>
  The device with the part of \<open>struct rbd_device\<close> that the watch and the exclusive lock use. Delayed work that is pending has its
  delay in milliseconds; a completion is the number of times it can be waited for. Image requests have numbers:
  \<open>img_states\<close> gives their states, and \<open>img_works\<close> holds what \<open>rbd_img_schedule\<close> has queued.
\<close>

record rbd_locks =
  lk_dev :: rbd_device
  mapping_size :: u64
  client_gid :: u64
  watch_state :: rbd_watch_state
  watch_handle :: "u64 option"
  watch_cookie :: u64
  watch_dwork :: "nat option"
  lock_cookie :: string
  owner_cid :: rbd_client_id
  acquired_lock_work :: bool
  released_lock_work :: bool
  lock_dwork :: "nat option"
  unlock_work :: bool
  acquiring_list :: "nat list"
  running_list :: "nat list"
  acquire_wait :: bool
  acquire_err :: int
  releasing_wait :: nat
  img_states :: "nat \<Rightarrow> rbd_img_state"
  img_works :: "(nat \<times> int) list"

abbreviation lock_state :: "rbd_locks \<Rightarrow> rbd_lock_state" where
  "lock_state d \<equiv> dev_lock_state (lk_dev d)"

abbreviation set_lock_state :: "rbd_lock_state \<Rightarrow> rbd_locks \<Rightarrow> rbd_locks" where
  "set_lock_state st d \<equiv> d\<lparr>lk_dev := (lk_dev d)\<lparr>dev_lock_state := st\<rparr>\<rparr>"

text \<open>Queueing delayed work that is pending already has no effect; modifying it replaces its delay.\<close>

definition queue_delayed :: "nat \<Rightarrow> nat option \<Rightarrow> nat option" where
  "queue_delayed delay w = (case w of None \<Rightarrow> Some delay | Some d \<Rightarrow> Some d)"

definition rbd_img_schedule :: "nat \<Rightarrow> int \<Rightarrow> rbd_locks \<Rightarrow> rbd_locks" where
  "rbd_img_schedule img result d = d\<lparr>img_works := img_works d @ [(img, result)]\<rparr>"

section \<open>Requests and the lock\<close>

definition need_exclusive_lock :: "rbd_device \<Rightarrow> rbd_img_request \<Rightarrow> bool outcome" where
  "need_exclusive_lock dev img =
     (if dev_features dev AND RBD_FEATURE_EXCLUSIVE_LOCK = 0 then Ok False
      else if rbd_is_ro dev then Ok False
      else rbd_assert (\<not> img_child img)
        (if dev_lock_on_read dev \<or> dev_features dev AND RBD_FEATURE_OBJECT_MAP \<noteq> 0 then Ok True
         else Ok (rbd_img_is_write img)))"

definition rbd_lock_add_request :: "nat \<Rightarrow> rbd_locks \<Rightarrow> (bool \<times> rbd_locks) outcome" where
  "rbd_lock_add_request img d =
     (let locked = lock_state d = RBD_LOCK_STATE_LOCKED in
      rbd_assert (img \<notin> set (acquiring_list d) \<and> img \<notin> set (running_list d))
        (Ok (locked,
           if \<not> locked then d\<lparr>acquiring_list := acquiring_list d @ [img]\<rparr>
           else d\<lparr>running_list := running_list d @ [img]\<rparr>)))"

definition rbd_lock_del_request :: "nat \<Rightarrow> rbd_locks \<Rightarrow> rbd_locks outcome" where
  "rbd_lock_del_request img d =
     rbd_assert (img \<in> set (acquiring_list d) \<or> img \<in> set (running_list d))
       (let d = d\<lparr>acquiring_list := remove1 img (acquiring_list d), running_list := remove1 img (running_list d)\<rparr>;
            need_wakeup = lock_state d = RBD_LOCK_STATE_RELEASING \<and> running_list d = [] in
        Ok (if need_wakeup then d\<lparr>releasing_wait := Suc (releasing_wait d)\<rparr> else d))"

definition rbd_img_exclusive_lock :: "rbd_img_request \<Rightarrow> nat \<Rightarrow> rbd_locks \<Rightarrow> (int \<times> rbd_locks) outcome" where
  "rbd_img_exclusive_lock img no d =
     bind_outcome (need_exclusive_lock (lk_dev d) img) (\<lambda>need.
       if \<not> need then Ok (1, d)
       else
         bind_outcome (rbd_lock_add_request no d) (\<lambda>(locked, d).
           if locked then Ok (1, d)
           else if dev_exclusive (lk_dev d) then Ok (RET_EROFS, d)
           else Ok (0, d\<lparr>lock_dwork := queue_delayed 0 (lock_dwork d)\<rparr>)))"

section \<open>The lock of the header object\<close>

definition rbd_cid_equal :: "rbd_client_id \<Rightarrow> rbd_client_id \<Rightarrow> bool" where
  "rbd_cid_equal lhs rhs \<longleftrightarrow> cid_gid lhs = cid_gid rhs \<and> cid_handle lhs = cid_handle rhs"

definition rbd_empty_cid :: rbd_client_id where
  "rbd_empty_cid = \<lparr>cid_gid = 0, cid_handle = 0\<rparr>"

definition rbd_get_cid :: "rbd_locks \<Rightarrow> rbd_client_id" where
  "rbd_get_cid d = \<lparr>cid_gid = client_gid d, cid_handle = watch_cookie d\<rparr>"

definition rbd_set_owner_cid :: "rbd_client_id \<Rightarrow> rbd_locks \<Rightarrow> rbd_locks" where
  "rbd_set_owner_cid cid d = d\<lparr>owner_cid := cid\<rparr>"

text \<open>The decimal digits that \<open>sprintf\<close> prints for \<open>%llu\<close>.\<close>

fun decimal :: "nat \<Rightarrow> string" where
  "decimal n = (if n < 10 then [char_of (48 + n)] else decimal (n div 10) @ [char_of (48 + n mod 10)])"

definition format_lock_cookie :: "rbd_locks \<Rightarrow> string" where
  "format_lock_cookie d = ''auto '' @ decimal (unat (watch_cookie d))"

text \<open>\<open>__rbd_lock\<close>.\<close>

definition rbd_set_locked :: "string \<Rightarrow> rbd_locks \<Rightarrow> rbd_locks" where
  "rbd_set_locked cookie d =
     (rbd_set_owner_cid (rbd_get_cid d) (set_lock_state RBD_LOCK_STATE_LOCKED d\<lparr>lock_cookie := cookie\<rparr>))
       \<lparr>acquired_lock_work := True\<rparr>"

text \<open>\<open>ret\<close> is the result of \<open>ceph_cls_lock\<close>.\<close>

definition rbd_lock :: "int \<Rightarrow> rbd_locks \<Rightarrow> int \<times> rbd_locks" where
  "rbd_lock ret d = (if ret \<noteq> 0 then (ret, d) else (0, rbd_set_locked (format_lock_cookie d) d))"

text \<open>The result of \<open>ceph_cls_unlock\<close> is only reported.\<close>

definition rbd_unlock :: "rbd_locks \<Rightarrow> rbd_locks" where
  "rbd_unlock d =
     (rbd_set_owner_cid rbd_empty_cid (set_lock_state RBD_LOCK_STATE_UNLOCKED d\<lparr>lock_cookie := ''''\<rparr>))
       \<lparr>released_lock_work := True\<rparr>"

section \<open>Notifications\<close>

datatype rbd_notify_op =
    RBD_NOTIFY_OP_ACQUIRED_LOCK | RBD_NOTIFY_OP_RELEASED_LOCK | RBD_NOTIFY_OP_REQUEST_LOCK | RBD_NOTIFY_OP_HEADER_UPDATE

definition notify_op_code :: "rbd_notify_op \<Rightarrow> u32" where
  "notify_op_code op =
     (case op of RBD_NOTIFY_OP_ACQUIRED_LOCK \<Rightarrow> 0 | RBD_NOTIFY_OP_RELEASED_LOCK \<Rightarrow> 1
      | RBD_NOTIFY_OP_REQUEST_LOCK \<Rightarrow> 2 | RBD_NOTIFY_OP_HEADER_UPDATE \<Rightarrow> 3)"

text \<open>The message of \<open>__rbd_notify_op_lock\<close>, encoded into a buffer of 26 bytes.\<close>

definition rbd_notify_op_lock :: "rbd_notify_op \<Rightarrow> rbd_locks \<Rightarrow> u8 list outcome" where
  "rbd_notify_op_lock notify_op d =
     (let cid = rbd_get_cid d; buf = replicate 26 0 in
      bind_outcome (ceph_start_encoding buf 0 2 1 (26 - 6)) (\<lambda>(buf, p).
      bind_outcome (ceph_encode_32 buf p (notify_op_code notify_op)) (\<lambda>(buf, p).
      bind_outcome (ceph_encode_64 buf p (cid_gid cid)) (\<lambda>(buf, p).
      bind_outcome (ceph_encode_64 buf p (cid_handle cid)) (\<lambda>(buf, p). Ok buf)))))"

abbreviation (input) PAGE_SIZE :: nat where "PAGE_SIZE \<equiv> 4096"

text \<open>
  The acknowledgements in the reply to a lock request: \<open>page\<close> is the first page of the reply and \<open>end\<close> its length. The result is the
  value of \<open>ret\<close> at the end, and \<open>None\<close> in front of it stands for a jump to \<open>out\<close>.
\<close>

fun request_lock_acks :: "nat \<Rightarrow> u8 list \<Rightarrow> nat \<Rightarrow> nat \<Rightarrow> bool \<Rightarrow> int \<Rightarrow> (bool option \<times> int) outcome" where
  "request_lock_acks 0 page end p lock_owner_responded ret = Ok (Some lock_owner_responded, ret)"
| "request_lock_acks (Suc n) page end p lock_owner_responded ret =
     (if \<not> ceph_has_room p end 16 then Ok (None, RET_EINVAL)
      else
        let p = p + 16 in
        if \<not> ceph_has_room p end 4 then Ok (None, RET_EINVAL)
        else bind_outcome (ceph_decode_32 page p) (\<lambda>(len, p).
          if len = 0 then request_lock_acks n page end p lock_owner_responded ret
          else if lock_owner_responded then Ok (None, RET_EIO)
          else
            case ceph_start_decoding page p end 1 of
              Err e \<Rightarrow> Ok (None, RET_EINVAL)
            | Oops f \<Rightarrow> Oops f
            | Ok (struct_v, len, p) \<Rightarrow>
                bind_outcome (ceph_decode_32 page p) (\<lambda>(v, p).
                  request_lock_acks n page end p True (sint v))))"

text \<open>\<open>ret\<close>, the page and the length of the reply come from \<open>ceph_osdc_notify\<close>.\<close>

definition rbd_request_lock :: "int \<Rightarrow> u8 list \<Rightarrow> nat \<Rightarrow> int outcome" where
  "rbd_request_lock ret page reply_len =
     (if ret \<noteq> 0 \<and> ret \<noteq> RET_ETIMEDOUT then Ok ret
      else
        bind_outcome
          (if reply_len > 0 \<and> reply_len \<le> PAGE_SIZE then
             if \<not> ceph_has_room 0 reply_len 4 then Ok (None, RET_EINVAL)
             else bind_outcome (ceph_decode_32 page 0) (\<lambda>(n, p). request_lock_acks (unat n) page reply_len p False ret)
           else Ok (Some False, ret))
          (\<lambda>(responded, ret).
             case responded of
               None \<Rightarrow> Ok ret
             | Some lock_owner_responded \<Rightarrow> Ok (if \<not> lock_owner_responded then RET_ETIMEDOUT else ret)))"

section \<open>Acquiring the lock\<close>

fun schedule_all :: "nat list \<Rightarrow> int \<Rightarrow> rbd_locks \<Rightarrow> rbd_locks outcome" where
  "schedule_all [] result d = Ok d"
| "schedule_all (img # imgs) result d =
     rbd_assert (img_states d img = RBD_IMG_EXCLUSIVE_LOCK) (schedule_all imgs result (rbd_img_schedule img result d))"

definition wake_lock_waiters :: "int \<Rightarrow> rbd_locks \<Rightarrow> rbd_locks outcome" where
  "wake_lock_waiters result d =
     (let d = d\<lparr>lock_dwork := None\<rparr> in
      if \<not> acquire_wait d then
        rbd_assert (acquiring_list d = [] \<and> running_list d = [])
          (Ok (d\<lparr>acquire_err := result, acquire_wait := True\<rparr>))
      else
        bind_outcome (schedule_all (acquiring_list d) result d) (\<lambda>d.
          Ok (d\<lparr>running_list := running_list d @ acquiring_list d, acquiring_list := []\<rparr>)))"

text \<open>The reply of \<open>ceph_cls_lock_info\<close>: its result, the type and the tag of the lock, and the lockers.\<close>

type_synonym lock_info = "int \<times> u8 \<times> string \<times> ceph_locker list"

abbreviation (input) CEPH_CLS_LOCK_SHARED :: u8 where "CEPH_CLS_LOCK_SHARED \<equiv> 2"

definition get_lock_owner_info :: "lock_info \<Rightarrow> int \<times> ceph_locker list" where
  "get_lock_owner_info info =
     (let (ret, lock_type, lock_tag, lockers) = info in
      if ret \<noteq> 0 then (ret, lockers)
      else
        case lockers of
          [] \<Rightarrow> (0, lockers)
        | locker # _ \<Rightarrow>
            if lock_tag \<noteq> ''internal'' then (RET_EBUSY, lockers)
            else if lock_type = CEPH_CLS_LOCK_SHARED then (RET_EBUSY, lockers)
            else if take 4 (locker_cookie locker) \<noteq> ''auto'' then (RET_EBUSY, lockers)
            else (0, lockers))"

text \<open>
  The number that \<open>sscanf\<close> reads with the format \<open>auto %llu\<close>. When there is none, the variable keeps what it happened to hold,
  which is the argument \<open>garbage\<close>.
\<close>

definition is_space :: "char \<Rightarrow> bool" where
  "is_space c \<longleftrightarrow> (of_char c :: nat) \<in> {9, 10, 11, 12, 13, 32, 160}"

definition is_digit :: "char \<Rightarrow> bool" where
  "is_digit c \<longleftrightarrow> 48 \<le> (of_char c :: nat) \<and> (of_char c :: nat) \<le> 57"

fun scan_digits :: "u64 \<Rightarrow> string \<Rightarrow> u64" where
  "scan_digits acc [] = acc"
| "scan_digits acc (c # cs) =
     (if is_digit c then scan_digits (10 * acc + of_nat (of_char c - 48)) cs else acc)"

definition scan_cookie :: "u64 \<Rightarrow> string \<Rightarrow> u64" where
  "scan_cookie garbage s =
     (if take 4 s \<noteq> ''auto'' then garbage
      else
        case dropWhile is_space (drop 4 s) of
          [] \<Rightarrow> garbage
        | c # cs \<Rightarrow> if is_digit c then scan_digits 0 (c # cs) else garbage)"

definition ceph_addr_equal_no_type :: "ceph_entity_addr \<Rightarrow> ceph_entity_addr \<Rightarrow> bool" where
  "ceph_addr_equal_no_type lhs rhs \<longleftrightarrow> ea_in_addr lhs = ea_in_addr rhs \<and> ea_nonce lhs = ea_nonce rhs"

text \<open>1: there is a watcher, and it is recorded as the owner; 0: there is none.\<close>

definition find_watcher ::
    "int \<times> ceph_watch_item list \<Rightarrow> u64 \<Rightarrow> ceph_locker \<Rightarrow> rbd_locks \<Rightarrow> int \<times> rbd_locks" where
  "find_watcher reply garbage locker d =
     (let (ret, watchers) = reply in
      if ret \<noteq> 0 then (ret, d)
      else
        let cookie = scan_cookie garbage (locker_cookie locker) in
        case List.find (\<lambda>w. ceph_addr_equal_no_type (watch_addr w) (locker_addr locker) \<and> item_cookie w = cookie) watchers of
          Some w \<Rightarrow> (1, rbd_set_owner_cid \<lparr>cid_gid = watch_name w, cid_handle = cookie\<rparr> d)
        | None \<Rightarrow> (0, d))"

text \<open>The replies of the cluster in one round of \<open>rbd_try_lock\<close>.\<close>

record lock_round =
  lr_lock :: int
  lr_info :: lock_info
  lr_watchers :: "int \<times> ceph_watch_item list"
  lr_garbage :: u64
  lr_blocklist :: int
  lr_break :: int

fun rbd_try_lock :: "lock_round list \<Rightarrow> rbd_locks \<Rightarrow> (int \<times> rbd_locks) outcome" where
  "rbd_try_lock [] d = Oops No_Fuel"
| "rbd_try_lock (r # rounds) d =
     (let (ret, d) = rbd_lock (lr_lock r) d in
      if ret \<noteq> RET_EBUSY then Ok (ret, d)
      else
        let (ret, lockers) = get_lock_owner_info (lr_info r) in
        if ret \<noteq> 0 then Ok (ret, d)
        else
          case lockers of
            [] \<Rightarrow> rbd_try_lock rounds d
          | locker # _ \<Rightarrow>
              let (ret, d) = find_watcher (lr_watchers r) (lr_garbage r) locker d in
              if ret \<noteq> 0 then Ok (ret, d)
              else if lr_blocklist r \<noteq> 0 then Ok (lr_blocklist r, d)
              else if lr_break r \<noteq> 0 \<and> lr_break r \<noteq> RET_ENOENT then Ok (lr_break r, d)
              else rbd_try_lock rounds d)"

section \<open>Opening the object map\<close>

text \<open>The replies in one round of \<open>rbd_object_map_lock\<close>.\<close>

record map_lock_round =
  mr_lock :: int
  mr_info :: lock_info
  mr_break :: int

fun rbd_object_map_lock :: "map_lock_round list \<Rightarrow> bool \<Rightarrow> int outcome" where
  "rbd_object_map_lock [] broke_lock = Oops No_Fuel"
| "rbd_object_map_lock (r # rounds) broke_lock =
     (let ret = mr_lock r in
      if ret \<noteq> RET_EBUSY \<or> broke_lock then Ok (if ret = RET_EEXIST then 0 else ret)
      else
        let (ret, lock_type, lock_tag, lockers) = mr_info r in
        if ret \<noteq> 0 then (if ret = RET_ENOENT then rbd_object_map_lock rounds broke_lock else Ok ret)
        else if lockers = [] then rbd_object_map_lock rounds broke_lock
        else
          let ret = mr_break r in
          if ret \<noteq> 0 then (if ret = RET_ENOENT then rbd_object_map_lock rounds broke_lock else Ok ret)
          else rbd_object_map_lock rounds True)"

text \<open>The result is the size of the map and the position behind the header, which the header itself gives.\<close>

definition decode_object_map_header :: "u8 list \<Rightarrow> nat \<Rightarrow> nat \<Rightarrow> (u64 \<times> nat) outcome" where
  "decode_object_map_header b p end =
     bind_outcome (ceph_decode_32_safe b p end (Err EINVAL)) (\<lambda>(header_len, p).
       let header_end = p + unat header_len in
       bind_outcome (ceph_start_decoding b p end 1) (\<lambda>(struct_v, struct_len, p).
         bind_outcome (ceph_decode_64_safe b p end (Err EINVAL)) (\<lambda>(map_size, p).
           Ok (map_size, header_end))))"

definition calc_pages_for :: "u64 \<Rightarrow> u64 \<Rightarrow> u32" where
  "calc_pages_for off len = ucast (drop_bit 12 (off + len + 4096 - 1) - drop_bit 12 off)"

text \<open>
  What the cluster and the allocator contribute to \<open>__rbd_object_map_load\<close>: whether the allocations succeed, the result of the call,
  and, for a given number of pages, the pages with the reply and its length.
\<close>

record load_reply =
  ld_pages_ok :: bool
  ld_ret :: int
  ld_pages :: "nat \<Rightarrow> u8 list"
  ld_len :: "nat \<Rightarrow> nat"
  ld_alloc_ok :: bool
  ld_flags_ret :: int
  ld_flags :: u64

text \<open>\<open>__rbd_object_map_load\<close>.\<close>

definition object_map_load :: "load_reply \<Rightarrow> u64 \<Rightarrow> rbd_device \<Rightarrow> (int \<times> rbd_device) outcome" where
  "object_map_load r msize dev =
     rbd_assert (object_map dev = [] \<and> object_map_size dev = 0)
       (bind_outcome (ceph_get_num_objects (dev_layout dev) msize) (\<lambda>num_objects.
          let object_map_bytes = DIV_ROUND_UP_ULL (num_objects * 2) 8;
              num_pages = unat (calc_pages_for 0 object_map_bytes + 1) in
          if \<not> ld_pages_ok r then Ok (RET_ENOMEM, dev)
          else if ld_ret r \<noteq> 0 then Ok (ld_ret r, dev)
          else
            let pages = ld_pages r num_pages; reply_len = ld_len r num_pages in
            case decode_object_map_header pages 0 (min reply_len PAGE_SIZE) of
              Err e \<Rightarrow> Ok (neg_errno e, dev)
            | Oops f \<Rightarrow> Oops f
            | Ok (map_size, p) \<Rightarrow>
                if map_size \<noteq> num_objects then Ok (RET_EINVAL, dev)
                else if unat (of_nat (p mod PAGE_SIZE) + object_map_bytes) > reply_len then Ok (RET_EINVAL, dev)
                else if \<not> ld_alloc_ok r then Ok (RET_ENOMEM, dev)
                else bind_outcome (get_bytes pages (p mod PAGE_SIZE) (unat object_map_bytes)) (\<lambda>bytes.
                  Ok (0, dev\<lparr>object_map := bytes, object_map_size := map_size\<rparr>))))"

definition rbd_object_map_free :: "rbd_device \<Rightarrow> rbd_device" where
  "rbd_object_map_free dev = dev\<lparr>object_map := [], object_map_size := 0\<rparr>"

definition rbd_object_map_load :: "load_reply \<Rightarrow> u64 \<Rightarrow> rbd_device \<Rightarrow> (int \<times> rbd_device) outcome" where
  "rbd_object_map_load r msize dev =
     bind_outcome (object_map_load r msize dev) (\<lambda>(ret, dev).
       if ret \<noteq> 0 then Ok (ret, dev)
       else if ld_flags_ret r \<noteq> 0 then Ok (ld_flags_ret r, rbd_object_map_free dev)
       else Ok (0, dev\<lparr>object_map_flags := ld_flags r\<rparr>))"

definition rbd_object_map_open ::
    "map_lock_round list \<Rightarrow> load_reply \<Rightarrow> u64 \<Rightarrow> rbd_device \<Rightarrow> (int \<times> rbd_device) outcome" where
  "rbd_object_map_open rounds r msize dev =
     bind_outcome (rbd_object_map_lock rounds False) (\<lambda>ret.
       if ret \<noteq> 0 then Ok (ret, dev) else rbd_object_map_load r msize dev)"

definition rbd_object_map_close :: "rbd_device \<Rightarrow> rbd_device" where
  "rbd_object_map_close dev = rbd_object_map_free dev"

section \<open>Acquiring and releasing\<close>

text \<open>Everything the cluster replies while the lock is being acquired.\<close>

record acquire_env =
  ae_rounds :: "lock_round list"
  ae_map_rounds :: "map_lock_round list"
  ae_load :: load_reply

definition rbd_post_acquire_action :: "acquire_env \<Rightarrow> rbd_locks \<Rightarrow> (int \<times> rbd_locks) outcome" where
  "rbd_post_acquire_action env d =
     (if dev_features (lk_dev d) AND RBD_FEATURE_OBJECT_MAP \<noteq> 0 then
        bind_outcome (rbd_object_map_open (ae_map_rounds env) (ae_load env) (mapping_size d) (lk_dev d)) (\<lambda>(ret, dev).
          Ok (ret, d\<lparr>lk_dev := dev\<rparr>))
      else Ok (0, d))"

definition rbd_try_acquire_lock :: "acquire_env \<Rightarrow> rbd_locks \<Rightarrow> (int \<times> rbd_locks) outcome" where
  "rbd_try_acquire_lock env d =
     (if rbd_is_lock_owner (lk_dev d) then Ok (0, d)
      else
        bind_outcome (rbd_try_lock (ae_rounds env) d) (\<lambda>(ret, d).
          if ret = RET_EBLOCKLISTED then
            bind_outcome (wake_lock_waiters ret d) (\<lambda>d. Ok (ret, d))
          else
            let ret = (if ret < 0 then 1 else ret) in
            if ret > 0 then Ok (ret, d)
            else
              rbd_assert (lock_state d = RBD_LOCK_STATE_LOCKED)
              (rbd_assert (running_list d = [])
                (bind_outcome (rbd_post_acquire_action env d) (\<lambda>(ret, d).
                  let d = (if ret \<noteq> 0 then rbd_unlock d else d) in
                  bind_outcome (wake_lock_waiters ret d) (\<lambda>d. Ok (ret, d)))))))"

text \<open>The loop of \<open>rbd_acquire_lock\<close>: each round has the replies of an attempt and of the request to the owner.\<close>

fun rbd_acquire_lock :: "(acquire_env \<times> int \<times> u8 list \<times> nat) list \<Rightarrow> rbd_locks \<Rightarrow> rbd_locks outcome" where
  "rbd_acquire_lock [] d = Oops No_Fuel"
| "rbd_acquire_lock ((env, nret, page, len) # rounds) d =
     bind_outcome (rbd_try_acquire_lock env d) (\<lambda>(ret, d).
       if ret \<le> 0 then Ok d
       else
         bind_outcome (rbd_request_lock nret page len) (\<lambda>ret.
           if ret = RET_ETIMEDOUT then rbd_acquire_lock rounds d
           else if ret = RET_EROFS then wake_lock_waiters ret d
           else if ret < 0 then Ok (d\<lparr>lock_dwork := Some RBD_RETRY_DELAY\<rparr>)
           else Ok (d\<lparr>lock_dwork := Some (2 * RBD_NOTIFY_TIMEOUT * 1000)\<rparr>)))"

text \<open>
  \<open>rbd_quiesce_lock\<close> up to the point where it waits for running requests (\<open>None\<close>), and from there on, after the wait.
\<close>

definition rbd_quiesce_lock :: "rbd_locks \<Rightarrow> (bool option \<times> rbd_locks) outcome" where
  "rbd_quiesce_lock d =
     (if lock_state d \<noteq> RBD_LOCK_STATE_LOCKED then Ok (Some False, d)
      else
        let d = set_lock_state RBD_LOCK_STATE_RELEASING d in
        rbd_assert (releasing_wait d = 0)
          (if running_list d = [] then Ok (Some True, d) else Ok (None, d)))"

definition rbd_quiesce_lock_resume :: "rbd_locks \<Rightarrow> (bool \<times> rbd_locks) outcome" where
  "rbd_quiesce_lock_resume d =
     (let d = d\<lparr>releasing_wait := releasing_wait d - 1\<rparr> in
      if lock_state d \<noteq> RBD_LOCK_STATE_RELEASING then Ok (False, d)
      else rbd_assert (running_list d = []) (Ok (True, d)))"

definition rbd_pre_release_action :: "rbd_locks \<Rightarrow> rbd_locks" where
  "rbd_pre_release_action d =
     (if dev_features (lk_dev d) AND RBD_FEATURE_OBJECT_MAP \<noteq> 0
      then d\<lparr>lk_dev := rbd_object_map_close (lk_dev d)\<rparr> else d)"

text \<open>\<open>__rbd_release_lock\<close>, and \<open>rbd_release_lock\<close> after quiescing.\<close>

definition rbd_drop_lock :: "rbd_locks \<Rightarrow> rbd_locks outcome" where
  "rbd_drop_lock d = rbd_assert (running_list d = []) (Ok (rbd_unlock (rbd_pre_release_action d)))"

definition rbd_release_lock :: "bool \<Rightarrow> rbd_locks \<Rightarrow> rbd_locks outcome" where
  "rbd_release_lock quiesced d =
     (if \<not> quiesced then Ok d
      else bind_outcome (rbd_drop_lock d) (\<lambda>d. Ok (d\<lparr>lock_dwork := None\<rparr>)))"

definition maybe_kick_acquire :: "rbd_locks \<Rightarrow> rbd_locks" where
  "maybe_kick_acquire d =
     (if rbd_is_lock_owner (lk_dev d) then d
      else if acquiring_list d \<noteq> [] \<or> lock_dwork d \<noteq> None then d\<lparr>lock_dwork := Some 0\<rparr> else d)"

section \<open>Watch callbacks\<close>

text \<open>The client in a notification: \<open>data\<close> is the message and \<open>p\<close> the position behind the operation.\<close>

definition decode_cid :: "u8 \<Rightarrow> u8 list \<Rightarrow> nat \<Rightarrow> rbd_client_id outcome" where
  "decode_cid struct_v data p =
     (if struct_v \<ge> 2 then
        bind_outcome (ceph_decode_64 data p) (\<lambda>(gid, p).
        bind_outcome (ceph_decode_64 data p) (\<lambda>(handle, p). Ok \<lparr>cid_gid = gid, cid_handle = handle\<rparr>))
      else Ok rbd_empty_cid)"

definition rbd_handle_acquired_lock :: "u8 \<Rightarrow> u8 list \<Rightarrow> nat \<Rightarrow> rbd_locks \<Rightarrow> rbd_locks outcome" where
  "rbd_handle_acquired_lock struct_v data p d =
     bind_outcome (decode_cid struct_v data p) (\<lambda>cid.
       let d = (if \<not> rbd_cid_equal cid rbd_empty_cid \<and> \<not> rbd_cid_equal cid (owner_cid d)
                then rbd_set_owner_cid cid d else d) in
       Ok (maybe_kick_acquire d))"

definition rbd_handle_released_lock :: "u8 \<Rightarrow> u8 list \<Rightarrow> nat \<Rightarrow> rbd_locks \<Rightarrow> rbd_locks outcome" where
  "rbd_handle_released_lock struct_v data p d =
     bind_outcome (decode_cid struct_v data p) (\<lambda>cid.
       let d = (if \<not> rbd_cid_equal cid rbd_empty_cid \<and> rbd_cid_equal cid (owner_cid d)
                then rbd_set_owner_cid rbd_empty_cid d else d) in
       Ok (maybe_kick_acquire d))"

definition rbd_handle_request_lock :: "u8 \<Rightarrow> u8 list \<Rightarrow> nat \<Rightarrow> rbd_locks \<Rightarrow> (int \<times> rbd_locks) outcome" where
  "rbd_handle_request_lock struct_v data p d =
     bind_outcome (decode_cid struct_v data p) (\<lambda>cid.
       if rbd_cid_equal cid (rbd_get_cid d) then Ok (1, d)
       else if \<not> rbd_is_lock_owner (lk_dev d) then Ok (1, d)
       else if lock_state d = RBD_LOCK_STATE_LOCKED \<and> rbd_cid_equal (owner_cid d) rbd_empty_cid then Ok (1, d)
       else if lock_state d = RBD_LOCK_STATE_LOCKED then
         if \<not> dev_exclusive (lk_dev d) then Ok (0, d\<lparr>unlock_work := True\<rparr>) else Ok (RET_EROFS, d)
       else Ok (0, d))"

text \<open>The payload of an acknowledgement (\<open>__rbd_acknowledge_notify\<close>).\<close>

definition rbd_acknowledge_notify :: "int option \<Rightarrow> u8 list outcome" where
  "rbd_acknowledge_notify result =
     (case result of
        None \<Rightarrow> Ok []
      | Some r \<Rightarrow>
          bind_outcome (ceph_start_encoding (replicate 10 0) 0 1 1 (10 - 6)) (\<lambda>(buf, p).
          bind_outcome (ceph_encode_32 buf p (word_of_int r)) (\<lambda>(buf, p). Ok buf)))"

text \<open>
  The \<open>switch\<close> of \<open>rbd_watch_cb\<close> and the callback itself: the result has the acknowledgement that is sent, if any. A header update
  refreshes the device: \<open>refresh\<close> stands for \<open>rbd_dev_refresh\<close>.
\<close>

definition acknowledged :: "int option \<Rightarrow> rbd_locks \<Rightarrow> (u8 list option \<times> rbd_locks) outcome" where
  "acknowledged result d = bind_outcome (rbd_acknowledge_notify result) (\<lambda>buf. Ok (Some buf, d))"

definition rbd_watch_dispatch ::
    "(rbd_locks \<Rightarrow> rbd_locks) \<Rightarrow> u8 list \<Rightarrow> u8 \<Rightarrow> u32 \<Rightarrow> nat \<Rightarrow> rbd_locks \<Rightarrow> (u8 list option \<times> rbd_locks) outcome" where
  "rbd_watch_dispatch refresh data struct_v notify_op p d =
     (if notify_op = notify_op_code RBD_NOTIFY_OP_ACQUIRED_LOCK then
        bind_outcome (rbd_handle_acquired_lock struct_v data p d) (acknowledged None)
      else if notify_op = notify_op_code RBD_NOTIFY_OP_RELEASED_LOCK then
        bind_outcome (rbd_handle_released_lock struct_v data p d) (acknowledged None)
      else if notify_op = notify_op_code RBD_NOTIFY_OP_REQUEST_LOCK then
        bind_outcome (rbd_handle_request_lock struct_v data p d) (\<lambda>(ret, d).
          acknowledged (if ret \<le> 0 then Some ret else None) d)
      else if notify_op = notify_op_code RBD_NOTIFY_OP_HEADER_UPDATE then acknowledged None (refresh d)
      else acknowledged (if rbd_is_lock_owner (lk_dev d) then Some RET_EOPNOTSUPP else None) d)"

definition rbd_watch_cb ::
    "(rbd_locks \<Rightarrow> rbd_locks) \<Rightarrow> u8 list \<Rightarrow> rbd_locks \<Rightarrow> (u8 list option \<times> rbd_locks) outcome" where
  "rbd_watch_cb refresh data d =
     (if data \<noteq> [] then
        case ceph_start_decoding data 0 (length data) 1 of
          Err e \<Rightarrow> Ok (None, d)
        | Oops f \<Rightarrow> Oops f
        | Ok (struct_v, len, p) \<Rightarrow>
            bind_outcome (ceph_decode_32 data p) (\<lambda>(notify_op, p). rbd_watch_dispatch refresh data struct_v notify_op p d)
      else rbd_watch_dispatch refresh data 0 (notify_op_code RBD_NOTIFY_OP_HEADER_UPDATE) 0 d)"

section \<open>The watch\<close>

text \<open>\<open>__rbd_unregister_watch\<close> and \<open>__rbd_register_watch\<close>; the reply of \<open>ceph_osdc_watch\<close> is an error or a linger id.\<close>

definition drop_watch :: "rbd_locks \<Rightarrow> rbd_locks outcome" where
  "drop_watch d = rbd_assert (watch_handle d \<noteq> None) (Ok (d\<lparr>watch_handle := None\<rparr>))"

definition take_watch :: "int + u64 \<Rightarrow> rbd_locks \<Rightarrow> (int \<times> rbd_locks) outcome" where
  "take_watch reply d =
     rbd_assert (watch_handle d = None)
       (case reply of Inl err \<Rightarrow> Ok (err, d) | Inr linger_id \<Rightarrow> Ok (0, d\<lparr>watch_handle := Some linger_id\<rparr>))"

definition registered :: "rbd_locks \<Rightarrow> rbd_locks outcome" where
  "registered d =
     (case watch_handle d of
        None \<Rightarrow> Oops Bad_Access
      | Some linger_id \<Rightarrow> Ok (d\<lparr>watch_state := RBD_WATCH_STATE_REGISTERED, watch_cookie := linger_id\<rparr>))"

definition rbd_watch_errcb :: "rbd_locks \<Rightarrow> rbd_locks outcome" where
  "rbd_watch_errcb d =
     (let d = rbd_set_owner_cid rbd_empty_cid d in
      if watch_state d = RBD_WATCH_STATE_REGISTERED then
        bind_outcome (drop_watch d) (\<lambda>d.
          Ok (d\<lparr>watch_state := RBD_WATCH_STATE_ERROR, watch_dwork := queue_delayed 0 (watch_dwork d)\<rparr>))
      else Ok d)"

definition rbd_register_watch :: "int + u64 \<Rightarrow> rbd_locks \<Rightarrow> (int \<times> rbd_locks) outcome" where
  "rbd_register_watch reply d =
     rbd_assert (watch_state d = RBD_WATCH_STATE_UNREGISTERED)
       (bind_outcome (take_watch reply d) (\<lambda>(ret, d).
          if ret \<noteq> 0 then Ok (ret, d) else bind_outcome (registered d) (\<lambda>d. Ok (0, d))))"

definition cancel_tasks_sync :: "rbd_locks \<Rightarrow> rbd_locks" where
  "cancel_tasks_sync d =
     d\<lparr>acquired_lock_work := False, released_lock_work := False, lock_dwork := None, unlock_work := False\<rparr>"

definition rbd_unregister_watch :: "rbd_locks \<Rightarrow> rbd_locks outcome" where
  "rbd_unregister_watch d =
     (let d = cancel_tasks_sync d in
      bind_outcome (if watch_state d = RBD_WATCH_STATE_REGISTERED then drop_watch d else Ok d) (\<lambda>d.
        Ok (d\<lparr>watch_state := RBD_WATCH_STATE_UNREGISTERED, watch_dwork := None\<rparr>)))"

text \<open>\<open>rbd_reacquire_lock\<close> after quiescing; \<open>ret\<close> is the result of \<open>ceph_cls_set_cookie\<close>.\<close>

definition rbd_reacquire_lock :: "int \<Rightarrow> bool \<Rightarrow> rbd_locks \<Rightarrow> rbd_locks outcome" where
  "rbd_reacquire_lock ret quiesced d =
     (if \<not> quiesced then Ok d
      else if ret \<noteq> 0 then
        bind_outcome (rbd_drop_lock d) (\<lambda>d. Ok (d\<lparr>lock_dwork := queue_delayed 0 (lock_dwork d)\<rparr>))
      else wake_lock_waiters 0 (rbd_set_locked (format_lock_cookie d) d))"

text \<open>
  \<open>rbd_reregister_watch\<close> up to the point where it reacquires the lock; \<open>True\<close> says that it goes on there.
\<close>

definition rbd_reregister_watch :: "int + u64 \<Rightarrow> rbd_locks \<Rightarrow> (bool \<times> rbd_locks) outcome" where
  "rbd_reregister_watch reply d =
     (if watch_state d \<noteq> RBD_WATCH_STATE_ERROR then Ok (False, d)
      else
        bind_outcome (take_watch reply d) (\<lambda>(ret, d).
          if ret \<noteq> 0 then
            if ret \<noteq> RET_EBLOCKLISTED \<and> ret \<noteq> RET_ENOENT
            then Ok (False, d\<lparr>watch_dwork := queue_delayed RBD_RETRY_DELAY (watch_dwork d)\<rparr>)
            else bind_outcome (wake_lock_waiters ret d) (\<lambda>d. Ok (False, d))
          else bind_outcome (registered d) (\<lambda>d. Ok (lock_state d = RBD_LOCK_STATE_LOCKED, d))))"

section \<open>Mapping and unmapping\<close>

definition rbd_dev_image_unlock :: "rbd_locks \<Rightarrow> rbd_locks outcome" where
  "rbd_dev_image_unlock d = (if rbd_is_lock_owner (lk_dev d) then rbd_drop_lock d else Ok d)"

text \<open>
  \<open>rbd_add_acquire_lock\<close> before the wait (\<open>None\<close>: it waits) and after it; \<open>ret\<close> is the result of the wait, positive when the
  completion came.
\<close>

definition rbd_add_acquire_lock :: "rbd_locks \<Rightarrow> (int option \<times> rbd_locks) outcome" where
  "rbd_add_acquire_lock d =
     (let dev = lk_dev d in
      if dev_features dev AND RBD_FEATURE_EXCLUSIVE_LOCK = 0 then
        Ok (Some (if \<not> dev_exclusive dev \<and> \<not> dev_lock_on_read dev then 0 else RET_EINVAL), d)
      else if rbd_is_ro dev then Ok (Some 0, d)
      else rbd_assert (\<not> rbd_is_lock_owner dev) (Ok (None, d\<lparr>lock_dwork := queue_delayed 0 (lock_dwork d)\<rparr>)))"

definition rbd_add_acquire_lock_resume :: "int \<Rightarrow> rbd_locks \<Rightarrow> (int \<times> rbd_locks) outcome" where
  "rbd_add_acquire_lock_resume ret d =
     (let d = (if ret > 0 then d else d\<lparr>lock_dwork := None\<rparr>);
          ret = (if ret > 0 then acquire_err d else if ret = 0 then RET_ETIMEDOUT else ret) in
      if ret \<noteq> 0 then Ok (ret, d)
      else rbd_assert (\<not> dev_exclusive (lk_dev d) \<or> rbd_is_lock_owner (lk_dev d)) (Ok (0, d)))"

section \<open>Lock cookies\<close>

declare decimal.simps [simp del]

lemma digit_char:
  assumes "(k::nat) < 10"
  shows "is_digit (char_of (48 + k))" and "of_char (char_of (48 + k) :: char) - 48 = k" and "\<not> is_space (char_of (48 + k))"
proof -
  have "(of_char (char_of (48 + k) :: char) :: nat) = 48 + k" using assms by simp
  then show "is_digit (char_of (48 + k))" "of_char (char_of (48 + k) :: char) - 48 = k" "\<not> is_space (char_of (48 + k))"
    using assms by (simp_all only: is_digit_def is_space_def) auto
qed

lemma scan_decimal:
  "\<exists>q. \<forall>acc rest. scan_digits acc (decimal n @ rest) = scan_digits (acc * of_nat q + of_nat n) rest"
proof (induction n rule: decimal.induct)
  case (1 n)
  show ?case
  proof (cases "n < 10")
    case True
    then have "decimal n = [char_of (48 + n)]" by (simp add: decimal.simps)
    then show ?thesis using digit_char [OF True] by (intro exI [of _ 10]) (simp add: mult.commute)
  next
    case False
    then obtain q where q: "\<forall>acc rest. scan_digits acc (decimal (n div 10) @ rest) = scan_digits (acc * of_nat q + of_nat (n div 10)) rest"
      using 1 by blast
    have d: "decimal n = decimal (n div 10) @ [char_of (48 + n mod 10)]" using False by (simp add: decimal.simps [of n])
    have m: "n mod 10 < 10" by simp
    have n: "of_nat n = 10 * of_nat (n div 10) + (of_nat (n mod 10) :: u64)"
      by (metis mult_div_mod_eq of_nat_add of_nat_mult of_nat_numeral)
    have "scan_digits acc (decimal n @ rest) = scan_digits (acc * of_nat (10 * q) + of_nat n) rest" for acc rest
      unfolding d using q digit_char [OF m] by (simp add: n algebra_simps)
    then show ?thesis by blast
  qed
qed

lemma decimal_Cons: "\<exists>c cs. decimal n = c # cs \<and> is_digit c \<and> \<not> is_space c"
proof (induction n rule: decimal.induct)
  case (1 n)
  show ?case
  proof (cases "n < 10")
    case True
    then show ?thesis using digit_char [OF True] by (simp add: decimal.simps [of n])
  next
    case False
    then obtain c cs where "decimal (n div 10) = c # cs" "is_digit c" "\<not> is_space c" using 1 by blast
    then show ?thesis using False by (simp add: decimal.simps [of n])
  qed
qed

text \<open>
  The cookie of a lock identifies the watch of its owner. Whatever the watch cookie of a client is, the number that
  \<open>find_watcher\<close> scans from the text with which the client takes the lock is that cookie, and the text passes the test for the prefix.
\<close>

theorem rbd_lock_cookie_roundtrip:
  "scan_cookie garbage (format_lock_cookie d) = watch_cookie d \<and> take 4 (format_lock_cookie d) = ''auto''"
proof -
  let ?n = "unat (watch_cookie d)"
  obtain c cs where c: "decimal ?n = c # cs" "is_digit c" "\<not> is_space c" using decimal_Cons [of ?n] by (elim exE conjE) (rule that)
  obtain q where "\<forall>acc rest. scan_digits acc (decimal ?n @ rest) = scan_digits (acc * of_nat q + of_nat ?n) rest"
    using scan_decimal [of ?n] by blast
  then have "scan_digits 0 (decimal ?n @ []) = of_nat ?n" by (metis add_0 mult_zero_left scan_digits.simps(1))
  moreover have sp: "is_space CHR '' ''" by (simp add: is_space_def)
  moreover have "dropWhile is_space (CHR '' '' # decimal ?n) = decimal ?n"
    using c sp by simp
  ultimately show ?thesis using c by (simp add: scan_cookie_def format_lock_cookie_def)
qed

section \<open>Waking waiters with an error\<close>

lemma schedule_all_Ok:
  "\<forall>img\<in>set imgs. img_states d img = RBD_IMG_EXCLUSIVE_LOCK \<Longrightarrow>
     schedule_all imgs result d = Ok (d\<lparr>img_works := img_works d @ map (\<lambda>img. (img, result)) imgs\<rparr>)"
  by (induction imgs arbitrary: d) (simp_all add: rbd_assert_def rbd_img_schedule_def)

lemma wake_lock_waiters_Ok:
  assumes "acquire_wait d" and "\<forall>img\<in>set (acquiring_list d). img_states d img = RBD_IMG_EXCLUSIVE_LOCK"
  shows "wake_lock_waiters result d = Ok (d\<lparr>lock_dwork := None,
     img_works := img_works d @ map (\<lambda>img. (img, result)) (acquiring_list d),
     running_list := running_list d @ acquiring_list d, acquiring_list := []\<rparr>)"
  using assms schedule_all_Ok [of "acquiring_list d" "d\<lparr>lock_dwork := None\<rparr>" result]
  by (simp add: wake_lock_waiters_def Let_def)

text \<open>
  C39: Failing the requests that wait for the lock can stop the machine later. When the owner refuses to release the lock,
  the waiting requests are moved to the running list although they have failed; if the lock is then acquired before they have
  been taken off that list, the assertion that nothing runs fails.
\<close>

theorem rbd_wake_error_then_acquire_bug:
  assumes "acquire_wait d" and "acquiring_list d \<noteq> []"
    and "\<forall>img\<in>set (acquiring_list d). img_states d img = RBD_IMG_EXCLUSIVE_LOCK"
    and "lock_state d = RBD_LOCK_STATE_UNLOCKED" and "ae_rounds env = r # rounds" and "lr_lock r = 0"
  shows "\<exists>d'. wake_lock_waiters RET_EROFS d = Ok d' \<and> lock_state d' = RBD_LOCK_STATE_UNLOCKED \<and>
     rbd_try_acquire_lock env d' = Oops Bug_On"
  using assms
  by (simp add: wake_lock_waiters_Ok rbd_try_acquire_lock_def rbd_is_lock_owner_def rbd_lock_def rbd_set_locked_def
      rbd_set_owner_cid_def rbd_assert_def)

text \<open>A client that waits for the lock with one request.\<close>

definition waiting_client :: rbd_locks where
  "waiting_client = \<lparr>lk_dev = clone_device\<lparr>dev_lock_state := RBD_LOCK_STATE_UNLOCKED\<rparr>, mapping_size = 16, client_gid = 4711,
     watch_state = RBD_WATCH_STATE_REGISTERED, watch_handle = Some 9, watch_cookie = 9, watch_dwork = None, lock_cookie = '''',
     owner_cid = rbd_empty_cid, acquired_lock_work = False, released_lock_work = False, lock_dwork = None, unlock_work = False,
     acquiring_list = [1], running_list = [], acquire_wait = True, acquire_err = 0, releasing_wait = 0,
     img_states = (\<lambda>_. RBD_IMG_EXCLUSIVE_LOCK), img_works = []\<rparr>"

definition granted :: acquire_env where
  "granted = \<lparr>ae_rounds = [\<lparr>lr_lock = 0, lr_info = (0, 0, [], []), lr_watchers = (0, []), lr_garbage = 0, lr_blocklist = 0, lr_break = 0\<rparr>],
     ae_map_rounds = [], ae_load = \<lparr>ld_pages_ok = True, ld_ret = 0, ld_pages = (\<lambda>_. []), ld_len = (\<lambda>_. 0), ld_alloc_ok = True,
       ld_flags_ret = 0, ld_flags = 0\<rparr>\<rparr>"

theorem rbd_wake_error_then_acquire_bug_witness:
  "\<exists>d'. wake_lock_waiters RET_EROFS waiting_client = Ok d' \<and> rbd_try_acquire_lock granted d' = Oops Bug_On"
proof -
  have "\<exists>d'. wake_lock_waiters RET_EROFS waiting_client = Ok d' \<and> lock_state d' = RBD_LOCK_STATE_UNLOCKED \<and>
     rbd_try_acquire_lock granted d' = Oops Bug_On"
    by (rule rbd_wake_error_then_acquire_bug [where r = "hd (ae_rounds granted)" and rounds = "[]"])
      (simp_all add: waiting_client_def granted_def)
  then show ?thesis by blast
qed

text \<open>
  C40: On an exclusive mapping, I/O that arrives while the lock is being reacquired can stop the machine. The request fails with
  \<open>EROFS\<close> although the lock has never been given up, and taking it off the list signals a second time that everything
  has been flushed; the next time the lock is quiesced, the assertion that the signal is not pending fails.
\<close>

theorem rbd_exclusive_quiesce_bug:
  assumes "lock_state d = RBD_LOCK_STATE_LOCKED" and "dev_exclusive (lk_dev d)" and "releasing_wait d = 0" and "acquire_wait d"
    and "running_list d = [a]" and "acquiring_list d = []" and "a \<noteq> b" and "need_exclusive_lock (lk_dev d) img = Ok True"
  shows "\<exists>d1 d2 d3 d4 d5 d6. rbd_quiesce_lock d = Ok (None, d1) \<and>
     rbd_lock_del_request a d1 = Ok d2 \<and>
     rbd_img_exclusive_lock img b d2 = Ok (RET_EROFS, d3) \<and>
     rbd_lock_del_request b d3 = Ok d4 \<and>
     rbd_quiesce_lock_resume d4 = Ok (True, d5) \<and>
     rbd_reacquire_lock 0 True d5 = Ok d6 \<and> lock_state d6 = RBD_LOCK_STATE_LOCKED \<and>
     rbd_quiesce_lock d6 = Oops Bug_On"
proof -
  have "need_exclusive_lock ((lk_dev d)\<lparr>dev_lock_state := st\<rparr>) img = need_exclusive_lock (lk_dev d) img" for st
    by (simp add: need_exclusive_lock_def rbd_is_ro_def)
  note need = this [unfolded assms(8)]
  show ?thesis
    using assms(1-7) need
    by (simp add: rbd_quiesce_lock_def rbd_lock_del_request_def rbd_img_exclusive_lock_def rbd_lock_add_request_def
        rbd_quiesce_lock_resume_def rbd_reacquire_lock_def wake_lock_waiters_Ok rbd_assert_def rbd_set_locked_def
        rbd_set_owner_cid_def Let_def)
qed

definition exclusive_client :: rbd_locks where
  "exclusive_client = waiting_client\<lparr>lk_dev := clone_device\<lparr>dev_exclusive := True\<rparr>, acquiring_list := [], running_list := [1]\<rparr>"

theorem rbd_exclusive_quiesce_bug_witness:
  "\<exists>d1 d2 d3 d4 d5 d6. rbd_quiesce_lock exclusive_client = Ok (None, d1) \<and>
     rbd_lock_del_request 1 d1 = Ok d2 \<and>
     rbd_img_exclusive_lock clone_write 2 d2 = Ok (RET_EROFS, d3) \<and>
     rbd_lock_del_request 2 d3 = Ok d4 \<and>
     rbd_quiesce_lock_resume d4 = Ok (True, d5) \<and>
     rbd_reacquire_lock 0 True d5 = Ok d6 \<and> lock_state d6 = RBD_LOCK_STATE_LOCKED \<and>
     rbd_quiesce_lock d6 = Oops Bug_On"
  by (rule rbd_exclusive_quiesce_bug)
    (simp_all add: exclusive_client_def waiting_client_def clone_device_def clone_write_def need_exclusive_lock_def rbd_is_ro_def
      rbd_assert_def)

section \<open>Loading the object map\<close>

lemma decode_header_safe:
  assumes "end \<le> length b"
  shows "case decode_object_map_header b p end of
     Ok (n, p') \<Rightarrow> True | Err e \<Rightarrow> e \<in> {EINVAL, ERANGE} | Oops f \<Rightarrow> False"
proof -
  have d: "case ceph_decode_32_safe b p end (Err EINVAL) of
       Ok (x, p') \<Rightarrow> p' = p + 4 \<and> p' \<le> end | Err e' \<Rightarrow> e' = EINVAL | Oops f \<Rightarrow> False"
    using ceph_decode_32_safe_safe [OF assms] .
  show ?thesis
    using d ceph_start_decoding_safe [OF assms, of "p + 4" 1] ceph_decode_64_safe_safe [OF assms, of "10 + p" EINVAL]
    by (auto simp: decode_object_map_header_def Let_def split: outcome.splits)
qed

lemma map_bytes_bounds:
  fixes n :: u64
  assumes "unat n < 2 ^ 40"
  shows "unat (DIV_ROUND_UP_ULL (n * 2) 8) = (2 * unat n + 7) div 8"
    and "unat (calc_pages_for 0 (DIV_ROUND_UP_ULL (n * 2) 8) + 1) = ((2 * unat n + 7) div 8 + 4095) div 4096 + 1"
proof -
  have m: "unat (n * 2) = unat n * 2" using assms by (subst unat_mult_no_wrap) simp_all
  have a: "unat (n * 2 + 8) = unat n * 2 + 8" using assms m by (subst unat_add_no_wrap) simp_all
  have s: "unat (n * 2 + 8 - 1) = unat n * 2 + 7" using a by (subst unat_sub_no_wrap) simp_all
  show b: "unat (DIV_ROUND_UP_ULL (n * 2) 8) = (2 * unat n + 7) div 8"
    unfolding DIV_ROUND_UP_ULL_def using s by (simp add: unat_div mult.commute)
  let ?b = "DIV_ROUND_UP_ULL (n * 2) 8"
  have bl: "(2 * unat n + 7) div 8 < 2 ^ 38 + 1" using assms by (simp add: div_less_iff_less_mult)
  have a2: "unat (?b + 4096) = (2 * unat n + 7) div 8 + 4096" using b bl by (subst unat_add_no_wrap) simp_all
  have s2: "unat (?b + 4096 - 1) = (2 * unat n + 7) div 8 + 4095" using a2 by (subst unat_sub_no_wrap) simp_all
  have d: "unat (drop_bit 12 (?b + 4096 - 1)) = ((2 * unat n + 7) div 8 + 4095) div 4096"
    using s2 by (simp add: drop_bit_eq_div unat_div)
  have lt: "((2 * unat n + 7) div 8 + 4095) div 4096 < 2 ^ 27" using bl by (simp add: div_less_iff_less_mult)
  have "unat (calc_pages_for 0 ?b) = ((2 * unat n + 7) div 8 + 4095) div 4096"
    unfolding calc_pages_for_def using d lt by (subst unat_ucast_64_32) simp_all
  then show "unat (calc_pages_for 0 ?b + 1) = ((2 * unat n + 7) div 8 + 4095) div 4096 + 1"
    using lt by (subst unat_add_no_wrap) simp_all
qed

text \<open>
  C14: A loaded object map covers the image. Whatever the cluster replies, loading the map returns without a fault; when it succeeds,
  every object of the image has its two bits inside the map, and when it fails there is no map.
\<close>

theorem rbd_object_map_load_covers:
  assumes n: "ceph_get_num_objects (dev_layout dev) msize = Ok n" "unat n < 2 ^ 40"
    and none: "object_map dev = []" "object_map_size dev = 0"
    and pages: "\<forall>k. length (ld_pages r k) = 4096 * k \<and> ld_len r k \<le> 4096 * k"
  shows "\<exists>ret dev'. rbd_object_map_load r msize dev = Ok (ret, dev') \<and>
     (if ret = 0 then (\<forall>objno. objno < n \<longrightarrow> map_within dev' objno)
      else object_map dev' = [] \<and> object_map_size dev' = 0)"
proof -
  let ?bytes = "DIV_ROUND_UP_ULL (n * 2) 8"
  define np where "np = unat (calc_pages_for 0 ?bytes + 1)"
  let ?b = "ld_pages r np" and ?len = "ld_len r np"
  note b = map_bytes_bounds [OF n(2)]
  have np: "unat ?bytes + 4096 \<le> 4096 * np" unfolding np_def b by simp
  have bl: "length ?b = 4096 * np" "?len \<le> length ?b" using pages by simp_all
  have "min ?len PAGE_SIZE \<le> length ?b" using bl by simp
  note dh = decode_header_safe [OF this, of 0]
  have eq: "object_map_load r msize dev =
      (if \<not> ld_pages_ok r then Ok (RET_ENOMEM, dev)
       else if ld_ret r \<noteq> 0 then Ok (ld_ret r, dev)
       else
         case decode_object_map_header ?b 0 (min ?len PAGE_SIZE) of
           Err e \<Rightarrow> Ok (neg_errno e, dev)
         | Oops f \<Rightarrow> Oops f
         | Ok (map_size, p) \<Rightarrow>
             if map_size \<noteq> n then Ok (RET_EINVAL, dev)
             else if unat (of_nat (p mod PAGE_SIZE) + ?bytes) > ?len then Ok (RET_EINVAL, dev)
             else if \<not> ld_alloc_ok r then Ok (RET_ENOMEM, dev)
             else bind_outcome (get_bytes ?b (p mod PAGE_SIZE) (unat ?bytes)) (\<lambda>bytes.
               Ok (0, dev\<lparr>object_map := bytes, object_map_size := map_size\<rparr>)))"
    unfolding object_map_load_def n(1) bind_outcome.simps Let_def np_def [symmetric] using none by (simp add: rbd_assert_def)
  have "\<exists>ret dev1. object_map_load r msize dev = Ok (ret, dev1) \<and>
      (if ret = 0 then (\<forall>objno. objno < n \<longrightarrow> map_within dev1 objno) else object_map dev1 = [] \<and> object_map_size dev1 = 0)"
  proof (cases "\<not> ld_pages_ok r \<or> ld_ret r \<noteq> 0")
    case True
    then show ?thesis using eq none by auto
  next
    case False
    show ?thesis
    proof (cases "decode_object_map_header ?b 0 (min ?len PAGE_SIZE)")
      case (Err e)
      then have "object_map_load r msize dev = Ok (neg_errno e, dev)" using eq False by simp
      then show ?thesis using none neg_errno_neg [of e] by auto
    next
      case (Oops f)
      then show ?thesis using dh by simp
    next
      case (Ok v)
      obtain ms p where v: "v = (ms, p)" by (cases v)
      let ?off = "p mod PAGE_SIZE"
      have off: "?off < 4096" by simp
      show ?thesis
      proof (cases "ms \<noteq> n \<or> unat (of_nat ?off + ?bytes) > ?len \<or> \<not> ld_alloc_ok r")
        case True
        then show ?thesis using eq False Ok v none by auto
      next
        case ok: False
        have len: "length (take (unat ?bytes) (drop ?off ?b)) = unat ?bytes" using np off bl by simp
        have "get_bytes ?b ?off (unat ?bytes) = outcome.Ok (take (unat ?bytes) (drop ?off ?b))"
          using np off bl by (simp add: get_bytes_def)
        then have "object_map_load r msize dev =
            outcome.Ok (0, dev\<lparr>object_map := take (unat ?bytes) (drop ?off ?b), object_map_size := n\<rparr>)"
          using eq False Ok v ok by simp
        moreover have "unat n \<le> 4 * unat ?bytes" unfolding b(1) by simp
        ultimately show ?thesis using len by (auto simp: map_within_def)
      qed
    qed
  qed
  then obtain ret dev1 where l: "object_map_load r msize dev = Ok (ret, dev1)"
    "if ret = 0 then (\<forall>objno. objno < n \<longrightarrow> map_within dev1 objno) else object_map dev1 = [] \<and> object_map_size dev1 = 0" by blast
  have "rbd_object_map_load r msize dev =
      (if ret \<noteq> 0 then Ok (ret, dev1) else if ld_flags_ret r \<noteq> 0 then Ok (ld_flags_ret r, rbd_object_map_free dev1)
       else Ok (0, dev1\<lparr>object_map_flags := ld_flags r\<rparr>))"
    using l(1) by (simp add: rbd_object_map_load_def)
  then show ?thesis using l(2) by (auto simp: rbd_object_map_free_def map_within_def)
qed

text \<open>A reply with the map of the clone: two objects, of which the first exists.\<close>

definition clone_map_reply :: load_reply where
  "clone_map_reply = \<lparr>ld_pages_ok = True, ld_ret = 0,
     ld_pages = (\<lambda>k. take (4096 * k) ([14, 0, 0, 0, 1, 1, 8, 0, 0, 0, 2, 0, 0, 0, 0, 0, 0, 0, 64] @ replicate (4096 * k) 0)),
     ld_len = (\<lambda>k. min (4096 * k) 19), ld_alloc_ok = True, ld_flags_ret = 0, ld_flags = 0\<rparr>"

theorem rbd_object_map_load_covers_witness:
  "\<exists>ret dev'. rbd_object_map_load clone_map_reply 16 (rbd_object_map_free clone_device) = Ok (ret, dev') \<and>
     (if ret = 0 then (\<forall>objno. objno < 2 \<longrightarrow> map_within dev' objno)
      else object_map dev' = [] \<and> object_map_size dev' = 0)"
proof (rule rbd_object_map_load_covers)
  show "ceph_get_num_objects (dev_layout (rbd_object_map_free clone_device)) 16 = Ok 2" by code_simp
qed (simp_all add: rbd_object_map_free_def clone_map_reply_def)

section \<open>Messages between clients\<close>

lemma notify_message:
  "rbd_notify_op_lock op d =
     Ok ([2, 1] @ put_le 4 (20 :: u32) @ put_le 4 (notify_op_code op) @ put_le 8 (client_gid d) @ put_le 8 (watch_cookie d))"
  by (simp add: rbd_notify_op_lock_def ceph_start_encoding_def ceph_encode_8_def ceph_encode_32_def ceph_encode_64_def
      put_bytes_def rbd_get_cid_def Let_def numeral_eq_Suc)

lemma ack_message: "rbd_acknowledge_notify (Some r) = Ok ([1, 1] @ put_le 4 (4 :: u32) @ put_le 4 (word_of_int r :: u32))"
  by (simp add: rbd_acknowledge_notify_def ceph_start_encoding_def ceph_encode_8_def ceph_encode_32_def put_bytes_def numeral_eq_Suc)

lemma block_header:
  assumes "p + 6 + unat len \<le> length (pre @ [sv, 1] @ put_le 4 len @ post)" and "length pre = p" and "end = length (pre @ [sv, 1] @ put_le 4 len @ post)"
    and "v \<noteq> 0"
  shows "ceph_start_decoding (pre @ [sv, 1] @ put_le 4 len @ post @ rest) p end v = Ok (sv, len, p + 6)"
proof -
  let ?b = "pre @ [sv, 1] @ put_le 4 len @ post @ rest"
  have a: "ceph_decode_8 ?b p = Ok (sv, p + 1)" using decode_put(4) [OF assms(2), of sv "1 # put_le 4 len @ post @ rest"] by simp
  have b: "ceph_decode_8 ?b (p + 1) = Ok (1, p + 2)"
    using decode_put(4) [of "pre @ [sv]" "p + 1" 1 "put_le 4 len @ post @ rest"] assms(2) by simp
  have c: "ceph_decode_32 ?b (p + 2) = Ok (len, p + 6)"
    using decode_put(2) [of "pre @ [sv, 1]" "p + 2" len "post @ rest"] assms(2) by simp
  have r: "ceph_has_room p end 6" "ceph_has_room (p + 6) end (unat len)" using assms(1-3) by (auto simp: ceph_has_room_def)
  show ?thesis using a b c r assms(4) unfolding ceph_start_decoding_def ceph_decode_need_def by simp
qed

text \<open>What the watch callback sees of the message of another client.\<close>

lemma message_decodes:
  assumes "rbd_notify_op_lock op c = Ok msg"
  shows "msg \<noteq> [] \<and> ceph_start_decoding msg 0 (length msg) 1 = Ok (2, 20, 6) \<and> ceph_decode_32 msg 6 = Ok (notify_op_code op, 10) \<and>
     decode_cid 2 msg 10 = Ok (rbd_get_cid c)"
proof -
  let ?op = "put_le 4 (notify_op_code op)" and ?g = "put_le 8 (client_gid c)" and ?h = "put_le 8 (watch_cookie c)"
  have m: "msg = [2, 1] @ put_le 4 (20 :: u32) @ ?op @ ?g @ ?h" using assms by (simp add: notify_message)
  have a: "ceph_start_decoding msg 0 (length msg) 1 = Ok (2, 20, 6)"
    using block_header [of 0 20 "[]" 2 "?op @ ?g @ ?h" "length msg" 1 "[]"] by (simp add: m)
  have b: "ceph_decode_32 msg 6 = Ok (notify_op_code op, 10)"
    using decode_put(2) [of "[2, 1] @ put_le 4 (20 :: u32)" 6 "notify_op_code op" "?g @ ?h"] by (simp add: m)
  have c: "ceph_decode_64 msg 10 = Ok (client_gid c, 18)"
    using decode_put(1) [of "[2, 1] @ put_le 4 (20 :: u32) @ ?op" 10 "client_gid c" ?h] by (simp add: m)
  have d: "ceph_decode_64 msg 18 = Ok (watch_cookie c, 26)"
    using decode_put(1) [of "[2, 1] @ put_le 4 (20 :: u32) @ ?op @ ?g" 18 "watch_cookie c" "[]"] by (simp add: m)
  show ?thesis using a b c d m by (simp add: decode_cid_def rbd_get_cid_def)
qed

text \<open>The reply of the cluster to a notification with one acknowledgement, in its page.\<close>

definition one_ack :: "u64 \<Rightarrow> u64 \<Rightarrow> u8 list \<Rightarrow> u8 list" where
  "one_ack gid cookie ack = put_le 4 (1 :: u32) @ put_le 8 gid @ put_le 8 cookie @ put_le 4 (of_nat (length ack) :: u32) @ ack"

lemma request_lock_ack:
  assumes ack: "rbd_acknowledge_notify (Some r) = Ok ack" and r: "- (2 ^ 31) \<le> r" "r < 2 ^ 31" and ret: "ret = 0 \<or> ret = RET_ETIMEDOUT"
  shows "rbd_request_lock ret (one_ack gid cookie ack @ rest) (length (one_ack gid cookie ack)) = Ok r"
proof -
  have a: "ack = [1, 1] @ put_le 4 (4 :: u32) @ put_le 4 (word_of_int r :: u32)" using ack by (simp add: ack_message)
  let ?pre = "put_le 4 (1 :: u32) @ put_le 8 gid @ put_le 8 cookie @ put_le 4 (10 :: u32)"
  let ?b = "?pre @ [1, 1] @ put_le 4 (4 :: u32) @ put_le 4 (word_of_int r :: u32) @ rest"
  define B where "B = ?b"
  have b: "one_ack gid cookie ack @ rest = B" "length (one_ack gid cookie ack) = 34" by (simp_all add: one_ack_def a B_def)
  have h: "ceph_start_decoding B 24 34 1 = Ok (1, 4, 30)"
  proof -
    have "ceph_start_decoding (?pre @ [1, 1] @ put_le 4 (4 :: u32) @ put_le 4 (word_of_int r :: u32) @ rest) 24 34 1 = Ok (1, 4, 24 + 6)"
      by (rule block_header) simp_all
    then show ?thesis unfolding B_def by simp
  qed
  have d0: "ceph_decode_32 B 0 = Ok (1, 4)" using decode_put(2) [of "[]" 0 1] by (simp add: B_def)
  have d1: "ceph_decode_32 B 20 = Ok (10, 24)"
    using decode_put(2) [of "put_le 4 (1 :: u32) @ put_le 8 gid @ put_le 8 cookie" 20 10] by (simp add: B_def)
  have d2: "ceph_decode_32 B 30 = Ok (word_of_int r, 34)"
    using decode_put(2) [of "?pre @ [1, 1] @ put_le 4 (4 :: u32)" 30 "word_of_int r" rest] by (simp add: B_def)
  have sr: "sint (word_of_int r :: u32) = r" using r by (simp add: signed_of_int signed_take_bit_int_eq_self)
  have loop: "request_lock_acks (Suc 0) B 34 4 False ret = Ok (Some True, r)"
    using h d1 d2 sr by (simp add: ceph_has_room_def)
  show ?thesis
    using ret loop d0 unfolding b rbd_request_lock_def by (auto simp: ceph_has_room_def)
qed

text \<open>
  C13: The lock changes hands through notifications. The message with which one client asks for the lock makes the client that holds it
  (and knows that it does) schedule the release, or refuse on an exclusive mapping, and its acknowledgement tells the first client
  so: the request returns 0 or \<open>EROFS\<close>.
\<close>

theorem rbd_lock_handshake:
  assumes "lock_state d = RBD_LOCK_STATE_LOCKED" and "\<not> rbd_cid_equal (owner_cid d) rbd_empty_cid"
    and "\<not> rbd_cid_equal (rbd_get_cid c) (rbd_get_cid d)" and "ret = 0 \<or> ret = RET_ETIMEDOUT"
  shows "\<exists>msg ack. rbd_notify_op_lock RBD_NOTIFY_OP_REQUEST_LOCK c = Ok msg \<and>
     rbd_watch_cb refresh msg d = Ok (Some ack, if dev_exclusive (lk_dev d) then d else d\<lparr>unlock_work := True\<rparr>) \<and>
     rbd_request_lock ret (one_ack gid cookie ack @ rest) (length (one_ack gid cookie ack)) =
       Ok (if dev_exclusive (lk_dev d) then RET_EROFS else 0)"
proof -
  define r :: int where "r = (if dev_exclusive (lk_dev d) then RET_EROFS else 0)"
  obtain msg where msg: "rbd_notify_op_lock RBD_NOTIFY_OP_REQUEST_LOCK c = Ok msg" by (simp add: notify_message)
  obtain ack where ack: "rbd_acknowledge_notify (Some r) = Ok ack" by (simp add: ack_message)
  note m = message_decodes [OF msg]
  have h: "rbd_handle_request_lock 2 msg 10 d = Ok (r, if dev_exclusive (lk_dev d) then d else d\<lparr>unlock_work := True\<rparr>)"
    using assms(1-3) m by (simp add: rbd_handle_request_lock_def rbd_is_lock_owner_def r_def)
  have "r \<le> 0" by (simp add: r_def)
  then have "rbd_watch_cb refresh msg d = Ok (Some ack, if dev_exclusive (lk_dev d) then d else d\<lparr>unlock_work := True\<rparr>)"
    using m h ack by (simp add: rbd_watch_cb_def rbd_watch_dispatch_def acknowledged_def notify_op_code_def)
  moreover have "rbd_request_lock ret (one_ack gid cookie ack @ rest) (length (one_ack gid cookie ack)) = Ok r"
    by (rule request_lock_ack [OF ack _ _ assms(4)]) (simp_all add: r_def)
  ultimately show ?thesis using msg by (auto simp: r_def)
qed

definition other_client :: rbd_locks where "other_client = waiting_client\<lparr>client_gid := 4712\<rparr>"

definition owning_client :: rbd_locks where
  "owning_client = waiting_client\<lparr>lk_dev := clone_device, owner_cid := \<lparr>cid_gid = 4711, cid_handle = 9\<rparr>, acquiring_list := []\<rparr>"

theorem rbd_lock_handshake_witness:
  "\<exists>msg ack. rbd_notify_op_lock RBD_NOTIFY_OP_REQUEST_LOCK other_client = Ok msg \<and>
     rbd_watch_cb (\<lambda>d. d) msg owning_client = Ok (Some ack, owning_client\<lparr>unlock_work := True\<rparr>) \<and>
     rbd_request_lock 0 (one_ack 4711 9 ack @ []) (length (one_ack 4711 9 ack)) = Ok 0"
proof -
  have "lock_state owning_client = RBD_LOCK_STATE_LOCKED" "\<not> rbd_cid_equal (owner_cid owning_client) rbd_empty_cid"
    "\<not> rbd_cid_equal (rbd_get_cid other_client) (rbd_get_cid owning_client)" "\<not> dev_exclusive (lk_dev owning_client)"
    by (simp_all add: owning_client_def other_client_def waiting_client_def clone_device_def rbd_cid_equal_def rbd_empty_cid_def rbd_get_cid_def)
  then show ?thesis
    using rbd_lock_handshake [of owning_client other_client 0 "\<lambda>d. d" 4711 9 "[]"] by simp
qed

text \<open>
  A short notification is read past its end. The header of the block in a notification is checked, but the operation
  behind it is read without a check that the block holds it, so a block of length 0 makes the callback read beyond the message.
\<close>

theorem rbd_watch_cb_short_message:
  "rbd_watch_cb refresh [2, 1, 0, 0, 0, 0] d = Oops Bad_Access"
  by (simp add: rbd_watch_cb_def ceph_start_decoding_def ceph_decode_need_def ceph_has_room_def ceph_decode_8_def ceph_decode_32_def
      get_bytes_def aref_def)

end
