(* ===== verification/RbdLocking.thy ===== *)
theory RbdLocking
  imports RbdLock
begin

text \<open>
  Requests and the exclusive lock together: a transition system of the steps that the work queues, the requests and the callbacks of
  a device take, with every interleaving the locks of the driver allow, and its invariant.
\<close>

unbundle bit_operations_syntax

section \<open>Requests, the lock and the work queues\<close>

text \<open>
  A device with its image requests that need the lock: \<open>ls_active\<close> are those past the lock, that is, those whose object requests may run. The work of the lock and of
  the watch runs on one ordered queue; \<open>ls_wait\<close> says for what purpose it waits in \<open>rbd_quiesce_lock\<close>.
\<close>

datatype quiescer = For_Release | For_Reacquire int

record lock_sys =
  ls_dev :: rbd_locks
  ls_active :: "nat set"
  ls_wait :: "quiescer option"

text \<open>The states \<open>RBD_IMG_EXCLUSIVE_LOCK\<close> and \<open>RBD_IMG_START\<close> of \<open>rbd_img_advance\<close>, and the end of a request, as far as the lock is concerned.\<close>

definition lock_enter :: "nat \<Rightarrow> lock_sys \<Rightarrow> lock_sys outcome" where
  "lock_enter no s =
     rbd_assert (rbd_is_lock_owner (lk_dev (ls_dev s)))
       (Ok (s\<lparr>ls_dev := (ls_dev s)\<lparr>img_states := (img_states (ls_dev s))(no := RBD_IMG_OBJECT_REQUESTS_PENDING)\<rparr>,
              ls_active := insert no (ls_active s)\<rparr>))"

definition lock_start :: "rbd_img_request \<Rightarrow> nat \<Rightarrow> lock_sys \<Rightarrow> lock_sys outcome" where
  "lock_start img no s =
     bind_outcome (rbd_img_exclusive_lock img no (ls_dev s)) (\<lambda>(ret, d).
       if ret < 0 then bind_outcome (rbd_lock_del_request no d) (\<lambda>d. Ok (s\<lparr>ls_dev := d\<rparr>))
       else
         let s = s\<lparr>ls_dev := d\<lparr>img_states := (img_states d)(no := RBD_IMG_EXCLUSIVE_LOCK)\<rparr>\<rparr> in
         if ret > 0 then lock_enter no s else Ok s)"

definition lock_run :: "nat \<Rightarrow> int \<Rightarrow> lock_sys \<Rightarrow> lock_sys outcome" where
  "lock_run no result s =
     (let s = s\<lparr>ls_dev := (ls_dev s)\<lparr>img_works := remove1 (no, result) (img_works (ls_dev s))\<rparr>\<rparr> in
      if result \<noteq> 0 then bind_outcome (rbd_lock_del_request no (ls_dev s)) (\<lambda>d. Ok (s\<lparr>ls_dev := d\<rparr>))
      else lock_enter no s)"

definition lock_finish :: "nat \<Rightarrow> lock_sys \<Rightarrow> lock_sys outcome" where
  "lock_finish no s =
     bind_outcome (rbd_lock_del_request no (ls_dev s)) (\<lambda>d. Ok (s\<lparr>ls_dev := d, ls_active := ls_active s - {no}\<rparr>))"

text \<open>What follows quiescing, at once or after the wait.\<close>

definition quiesced :: "quiescer \<Rightarrow> bool \<Rightarrow> rbd_locks \<Rightarrow> rbd_locks outcome" where
  "quiesced q ok d = (case q of For_Release \<Rightarrow> rbd_release_lock ok d | For_Reacquire ret \<Rightarrow> rbd_reacquire_lock ret ok d)"

definition quiesce_for :: "quiescer \<Rightarrow> lock_sys \<Rightarrow> lock_sys outcome" where
  "quiesce_for q s =
     bind_outcome (rbd_quiesce_lock (ls_dev s)) (\<lambda>(res, d).
       case res of
         None \<Rightarrow> Ok (s\<lparr>ls_dev := d, ls_wait := Some q\<rparr>)
       | Some ok \<Rightarrow> bind_outcome (quiesced q ok d) (\<lambda>d. Ok (s\<lparr>ls_dev := d\<rparr>)))"

definition fresh_no :: "nat \<Rightarrow> lock_sys \<Rightarrow> bool" where
  "fresh_no no s \<longleftrightarrow>
     no \<notin> set (acquiring_list (ls_dev s)) \<and> no \<notin> set (running_list (ls_dev s)) \<and> acquire_wait (ls_dev s)"

inductive lock_step :: "lock_sys \<Rightarrow> lock_sys \<Rightarrow> bool" where
  start: "fresh_no no s \<Longrightarrow> need_exclusive_lock (lk_dev (ls_dev s)) img = Ok True \<Longrightarrow> lock_start img no s = Ok s' \<Longrightarrow> lock_step s s'"
| run: "(no, r) \<in> set (img_works (ls_dev s)) \<Longrightarrow> lock_run no r s = Ok s' \<Longrightarrow> lock_step s s'"
| finish: "no \<in> ls_active s \<Longrightarrow> lock_finish no s = Ok s' \<Longrightarrow> lock_step s s'"
| acquire: "ls_wait s = None \<Longrightarrow> rbd_acquire_lock rounds (ls_dev s) = Ok d \<Longrightarrow> lock_step s (s\<lparr>ls_dev := d\<rparr>)"
| release: "ls_wait s = None \<Longrightarrow> quiesce_for For_Release s = Ok s' \<Longrightarrow> lock_step s s'"
| reregister: "ls_wait s = None \<Longrightarrow> rbd_reregister_watch reply (ls_dev s) = Ok (False, d) \<Longrightarrow> lock_step s (s\<lparr>ls_dev := d\<rparr>)"
| reacquire: "ls_wait s = None \<Longrightarrow> rbd_reregister_watch reply (ls_dev s) = Ok (True, d) \<Longrightarrow>
    quiesce_for (For_Reacquire ret) (s\<lparr>ls_dev := d\<rparr>) = Ok s' \<Longrightarrow> lock_step s s'"
| resume: "ls_wait s = Some q \<Longrightarrow> releasing_wait (ls_dev s) > 0 \<Longrightarrow> rbd_quiesce_lock_resume (ls_dev s) = Ok (ok, d) \<Longrightarrow>
    quiesced q ok d = Ok d' \<Longrightarrow> lock_step s (s\<lparr>ls_dev := d', ls_wait := None\<rparr>)"
| notified: "rbd_watch_cb (\<lambda>d. d\<lparr>mapping_size := sz\<rparr>) data (ls_dev s) = Ok (ack, d) \<Longrightarrow> lock_step s (s\<lparr>ls_dev := d\<rparr>)"
| watch_error: "rbd_watch_errcb (ls_dev s) = Ok d \<Longrightarrow> lock_step s (s\<lparr>ls_dev := d\<rparr>)"

section \<open>The invariant\<close>

definition lock_inv :: "rbd_locks \<Rightarrow> nat set \<Rightarrow> bool" where
  "lock_inv d A \<longleftrightarrow>
     distinct (acquiring_list d @ running_list d) \<and>
     distinct (map fst (img_works d)) \<and> fst ` set (img_works d) \<inter> A = {} \<and>
     set (running_list d) = A \<union> fst ` set (img_works d) \<and>
     (A \<noteq> {} \<or> 0 \<in> snd ` set (img_works d) \<longrightarrow> rbd_is_lock_owner (lk_dev d)) \<and>
     (\<forall>no\<in>set (acquiring_list d). img_states d no = RBD_IMG_EXCLUSIVE_LOCK) \<and>
     (acquiring_list d \<noteq> [] \<or> running_list d \<noteq> [] \<longrightarrow> acquire_wait d)"

definition same_lists :: "rbd_locks \<Rightarrow> rbd_locks \<Rightarrow> bool" where
  "same_lists d d' \<longleftrightarrow>
     acquiring_list d' = acquiring_list d \<and> running_list d' = running_list d \<and> img_works d' = img_works d \<and>
     img_states d' = img_states d \<and> acquire_wait d' = acquire_wait d"

lemma same_lists_refl [simp]: "same_lists d d"
  by (simp add: same_lists_def)

lemma same_lists_trans: "same_lists d d' \<Longrightarrow> same_lists d' d'' \<Longrightarrow> same_lists d d''"
  by (simp add: same_lists_def)

lemma lock_inv_same:
  "lock_inv d A \<Longrightarrow> same_lists d d' \<Longrightarrow> (rbd_is_lock_owner (lk_dev d) \<Longrightarrow> rbd_is_lock_owner (lk_dev d')) \<Longrightarrow> lock_inv d' A"
  unfolding lock_inv_def same_lists_def by auto

lemma lock_inv_idle:
  assumes "lock_inv d A" and "running_list d = []"
  shows "A = {} \<and> img_works d = []"
  using assms by (auto simp: lock_inv_def)

lemma lock_invD:
  assumes "lock_inv d A"
  shows "distinct (acquiring_list d @ running_list d)" and "distinct (map fst (img_works d))" and "fst ` set (img_works d) \<inter> A = {}"
    and "set (running_list d) = A \<union> fst ` set (img_works d)"
    and "A \<noteq> {} \<or> 0 \<in> snd ` set (img_works d) \<Longrightarrow> rbd_is_lock_owner (lk_dev d)"
    and "\<forall>no\<in>set (acquiring_list d). img_states d no = RBD_IMG_EXCLUSIVE_LOCK"
    and "acquiring_list d \<noteq> [] \<or> running_list d \<noteq> [] \<Longrightarrow> acquire_wait d"
  using assms unfolding lock_inv_def by blast+

lemma lock_inv_idle_same:
  assumes inv: "lock_inv d A" and same: "same_lists d d'" and run: "running_list d = []"
  shows "lock_inv d' A"
proof -
  note idle = lock_inv_idle [OF inv run]
  have e: "acquiring_list d' = acquiring_list d" "running_list d' = []" "img_works d' = []" "img_states d' = img_states d"
    "acquire_wait d' = acquire_wait d"
    using same run idle by (simp_all add: same_lists_def)
  show ?thesis
    unfolding lock_inv_def e using idle lock_invD(1,6,7) [OF inv] run by simp
qed

text \<open>Waking the waiters keeps the invariant if they fail, or if the lock is held.\<close>

lemma wake_inv:
  assumes inv: "lock_inv d A" and ok: "result \<noteq> 0 \<or> rbd_is_lock_owner (lk_dev d)" and w: "wake_lock_waiters result d = Ok d'"
  shows "lock_inv d' A"
proof (cases "acquire_wait d")
  case True
  let ?new = "map (\<lambda>img. (img, result)) (acquiring_list d)"
  have d': "d' = d\<lparr>lock_dwork := None, img_works := img_works d @ ?new,
      running_list := running_list d @ acquiring_list d, acquiring_list := []\<rparr>"
    using w wake_lock_waiters_Ok [OF True lock_invD(6) [OF inv], of result] by simp
  have e: "acquiring_list d' = []" "running_list d' = running_list d @ acquiring_list d" "img_works d' = img_works d @ ?new"
    "lk_dev d' = lk_dev d" "acquire_wait d' = True"
    using True by (simp_all add: d')
  have m: "map fst ?new = acquiring_list d" by (simp add: comp_def)
  have f: "fst ` set ?new = set (acquiring_list d)" by (metis m set_map)
  have z: "0 \<in> snd ` set ?new \<Longrightarrow> result = 0" by auto
  have disj: "distinct (acquiring_list d)" "distinct (running_list d)" "set (acquiring_list d) \<inter> set (running_list d) = {}"
    using lock_invD(1) [OF inv] by simp_all
  note i = lock_invD(2,3,4) [OF inv]
  show ?thesis
    unfolding lock_inv_def e
  proof (intro conjI impI)
    show "distinct ([] @ running_list d @ acquiring_list d)" using disj by auto
    show "distinct (map fst (img_works d @ ?new))" unfolding map_append m using i disj by auto
    show "fst ` set (img_works d @ ?new) \<inter> A = {}" unfolding set_append image_Un f using i disj(3) by blast
    show "set (running_list d @ acquiring_list d) = A \<union> fst ` set (img_works d @ ?new)"
      unfolding set_append image_Un f i(3) by (rule Un_assoc)
    show "rbd_is_lock_owner (lk_dev d)" if "A \<noteq> {} \<or> 0 \<in> snd ` set (img_works d @ ?new)"
      using that ok z lock_invD(5) [OF inv] by auto
  qed simp_all
next
  case False
  then have "acquiring_list d = []" "running_list d = []" using lock_invD(7) [OF inv] by auto
  moreover have "same_lists d (d'\<lparr>acquire_wait := acquire_wait d\<rparr>)"
    using w False by (auto simp: wake_lock_waiters_def rbd_assert_def same_lists_def split: if_splits)
  ultimately show ?thesis using lock_inv_idle [OF inv] by (simp add: lock_inv_def same_lists_def)
qed

section \<open>Operations that keep the lists\<close>

lemma try_lock_frame:
  "rbd_try_lock rounds d = Ok (ret, d') \<Longrightarrow>
     same_lists d d' \<and> (lock_state d' = lock_state d \<or> lock_state d' = RBD_LOCK_STATE_LOCKED)"
proof (induction rounds d rule: rbd_try_lock.induct)
  case (2 r rounds d)
  obtain ret1 d1 where l: "rbd_lock (lr_lock r) d = (ret1, d1)" by (cases "rbd_lock (lr_lock r) d")
  have f1: "same_lists d d1" "lock_state d1 = lock_state d \<or> lock_state d1 = RBD_LOCK_STATE_LOCKED"
    using l by (auto simp: rbd_lock_def rbd_set_locked_def rbd_set_owner_cid_def same_lists_def split: if_splits)
  obtain ret2 lockers where i: "get_lock_owner_info (lr_info r) = (ret2, lockers)" by (cases "get_lock_owner_info (lr_info r)")
  have step: "same_lists d d' \<and> (lock_state d' = lock_state d \<or> lock_state d' = RBD_LOCK_STATE_LOCKED)"
    if "same_lists d1 d2" "lock_state d2 = lock_state d1"
      "same_lists d2 d' \<and> (lock_state d' = lock_state d2 \<or> lock_state d' = RBD_LOCK_STATE_LOCKED)" for d2
    using that f1 by (auto intro: same_lists_trans)
  have eq: "rbd_try_lock (r # rounds) d =
      (if ret1 \<noteq> RET_EBUSY then Ok (ret1, d1)
       else if ret2 \<noteq> 0 then Ok (ret2, d1)
       else case lockers of [] \<Rightarrow> rbd_try_lock rounds d1
         | locker # _ \<Rightarrow>
             let (ret, d) = find_watcher (lr_watchers r) (lr_garbage r) locker d1 in
             if ret \<noteq> 0 then Ok (ret, d)
             else if lr_blocklist r \<noteq> 0 then Ok (lr_blocklist r, d)
             else if lr_break r \<noteq> 0 \<and> lr_break r \<noteq> RET_ENOENT then Ok (lr_break r, d)
             else rbd_try_lock rounds d)"
    using l i by simp
  note res = "2.prems" [unfolded eq]
  show ?case
  proof (cases "ret1 \<noteq> RET_EBUSY \<or> ret2 \<noteq> 0")
    case True
    then show ?thesis using res f1 by (auto split: if_splits)
  next
    case False
    show ?thesis
    proof (cases lockers)
      case Nil
      then show ?thesis using 2(1) [OF l [symmetric] refl _ i [symmetric]] res False step [of d1] by simp
    next
      case (Cons locker ls)
      obtain ret3 d2 where fw: "find_watcher (lr_watchers r) (lr_garbage r) locker d1 = (ret3, d2)"
        by (cases "find_watcher (lr_watchers r) (lr_garbage r) locker d1")
      have f2: "same_lists d1 d2" "lock_state d2 = lock_state d1"
        using fw by (auto simp: find_watcher_def rbd_set_owner_cid_def same_lists_def Let_def split: prod.splits if_splits option.splits)
      show ?thesis
      proof (cases "ret3 \<noteq> 0 \<or> lr_blocklist r \<noteq> 0 \<or> lr_break r \<noteq> 0 \<and> lr_break r \<noteq> RET_ENOENT")
        case True
        then have "d' = d2" using res fw False Cons by (auto split: if_splits)
        then show ?thesis using step [OF f2] by simp
      next
        case ok: False
        then have "rbd_try_lock rounds d2 = Ok (ret, d')" using res fw False Cons by (auto split: if_splits)
        then show ?thesis
          using 2(2) [OF l [symmetric] refl _ i [symmetric] refl _ Cons fw [symmetric] refl] False ok step [OF f2] by simp
      qed
    qed
  qed
qed simp

lemma load_reply_frame:
  assumes "(case head of
            Err e \<Rightarrow> Ok (neg_errno e, dev)
          | Oops f \<Rightarrow> Oops f
          | Ok (map_size, p) \<Rightarrow>
              if c1 map_size then Ok (RET_EINVAL, dev)
              else if c2 p then Ok (RET_EINVAL, dev)
              else if c3 then Ok (RET_ENOMEM, dev)
              else bind_outcome (get p) (\<lambda>bytes. Ok (0, dev\<lparr>object_map := bytes, object_map_size := map_size\<rparr>))) = Ok (ret, dev')"
  shows "dev_lock_state dev' = dev_lock_state dev"
  using assms by (cases head) (auto simp: outcome_simps split: if_splits)

lemma object_map_load_frame:
  assumes "object_map_load r msize dev = Ok (ret, dev')"
  shows "dev_lock_state dev' = dev_lock_state dev"
proof -
  from assms obtain n where "(let object_map_bytes = DIV_ROUND_UP_ULL (n * 2) 8;
              num_pages = unat (calc_pages_for 0 object_map_bytes + 1) in
          if \<not> ld_pages_ok r then Ok (RET_ENOMEM, dev)
          else if ld_ret r \<noteq> 0 then Ok (ld_ret r, dev)
          else
            let pages = ld_pages r num_pages; reply_len = ld_len r num_pages in
            case decode_object_map_header pages 0 (min reply_len PAGE_SIZE) of
              Err e \<Rightarrow> Ok (neg_errno e, dev)
            | Oops f \<Rightarrow> Oops f
            | Ok (map_size, p) \<Rightarrow>
                if map_size \<noteq> n then Ok (RET_EINVAL, dev)
                else if unat (of_nat (p mod PAGE_SIZE) + object_map_bytes) > reply_len then Ok (RET_EINVAL, dev)
                else if \<not> ld_alloc_ok r then Ok (RET_ENOMEM, dev)
                else bind_outcome (get_bytes pages (p mod PAGE_SIZE) (unat object_map_bytes)) (\<lambda>bytes.
                  Ok (0, dev\<lparr>object_map := bytes, object_map_size := map_size\<rparr>))) = Ok (ret, dev')"
    unfolding object_map_load_def rbd_assert_def by (auto simp: bind_outcome_Ok_iff split: if_splits)
  then show ?thesis
    unfolding Let_def by (cases "\<not> ld_pages_ok r \<or> ld_ret r \<noteq> 0") (auto dest: load_reply_frame split: if_splits)
qed

lemma object_map_open_frame:
  assumes "rbd_object_map_open rounds r msize dev = Ok (ret, dev')"
  shows "dev_lock_state dev' = dev_lock_state dev"
proof -
  from assms consider "dev' = dev" | "rbd_object_map_load r msize dev = Ok (ret, dev')"
    unfolding rbd_object_map_open_def bind_outcome_Ok_iff by (auto split: if_splits)
  then show ?thesis
  proof cases
    case 2
    then obtain ret1 dev1 where l: "object_map_load r msize dev = Ok (ret1, dev1)"
      and "dev' = dev1 \<or> dev' = rbd_object_map_free dev1 \<or> dev' = dev1\<lparr>object_map_flags := ld_flags r\<rparr>"
      unfolding rbd_object_map_load_def bind_outcome_Ok_iff by (auto split: if_splits)
    then show ?thesis using object_map_load_frame [OF l] by (auto simp: rbd_object_map_free_def)
  qed simp
qed

lemma post_acquire_frame:
  assumes "rbd_post_acquire_action env d = Ok (ret, d')"
  shows "same_lists d d' \<and> lock_state d' = lock_state d"
  using assms object_map_open_frame
  by (auto simp: rbd_post_acquire_action_def same_lists_def outcome_simps split: if_splits)

lemma unlock_frame: "same_lists d (rbd_unlock d)"
  by (simp add: rbd_unlock_def rbd_set_owner_cid_def same_lists_def)

lemma set_locked_frame: "same_lists d (rbd_set_locked cookie d) \<and> lock_state (rbd_set_locked cookie d) = RBD_LOCK_STATE_LOCKED"
  by (simp add: rbd_set_locked_def rbd_set_owner_cid_def same_lists_def)

lemma pre_release_frame: "same_lists d (rbd_pre_release_action d)"
  by (simp add: rbd_pre_release_action_def same_lists_def)

lemma try_acquire_inv:
  assumes inv: "lock_inv d A" and t: "rbd_try_acquire_lock env d = Ok (ret, d')"
  shows "lock_inv d' A"
proof (cases "rbd_is_lock_owner (lk_dev d)")
  case True
  then show ?thesis using inv t by (simp add: rbd_try_acquire_lock_def)
next
  case False
  obtain ret1 d1 where l: "rbd_try_lock (ae_rounds env) d = Ok (ret1, d1)"
    using t False by (auto simp: rbd_try_acquire_lock_def outcome_simps)
  note f = try_lock_frame [OF l]
  have inv1: "lock_inv d1 A" using lock_inv_same [OF inv] f False by blast
  consider (blocked) "ret1 = RET_EBLOCKLISTED" | (later) "ret1 \<noteq> RET_EBLOCKLISTED" "ret1 \<noteq> 0" | (got) "ret1 = 0" by blast
  then show ?thesis
  proof cases
    case blocked
    then have "wake_lock_waiters RET_EBLOCKLISTED d1 = Ok d'" using t l False by (auto simp: rbd_try_acquire_lock_def outcome_simps)
    then show ?thesis using wake_inv [OF inv1, of RET_EBLOCKLISTED d'] by simp
  next
    case later
    then have "d' = d1" using t l False by (auto simp: rbd_try_acquire_lock_def Let_def split: if_splits)
    then show ?thesis using inv1 by simp
  next
    case got
    then have st: "lock_state d1 = RBD_LOCK_STATE_LOCKED" "running_list d1 = []"
      using t l False by (auto simp: rbd_try_acquire_lock_def rbd_assert_def split: if_splits)
    obtain ret2 d2 where p: "rbd_post_acquire_action env d1 = Ok (ret2, d2)"
      and w: "wake_lock_waiters ret2 (if ret2 \<noteq> 0 then rbd_unlock d2 else d2) = Ok d'"
    proof -
      have "rbd_try_acquire_lock env d =
          bind_outcome (rbd_post_acquire_action env d1) (\<lambda>(ret, d).
            bind_outcome (wake_lock_waiters ret (if ret \<noteq> 0 then rbd_unlock d else d)) (\<lambda>d. Ok (ret, d)))"
        using l False got st by (simp add: rbd_try_acquire_lock_def rbd_assert_def Let_def)
      from t [unfolded this] show thesis using that by (auto simp: bind_outcome_Ok_iff)
    qed
    note f2 = post_acquire_frame [OF p]
    have inv2: "lock_inv d2 A" using lock_inv_idle_same [OF inv1 _ st(2)] f2 by blast
    have run2: "running_list d2 = []" using f2 st(2) by (simp add: same_lists_def)
    show ?thesis
    proof (cases "ret2 = 0")
      case True
      have "rbd_is_lock_owner (lk_dev d2)" using f2 st(1) by (simp add: rbd_is_lock_owner_def)
      then show ?thesis using wake_inv [OF inv2 _ w [unfolded True, simplified]] by simp
    next
      case False
      have "lock_inv (rbd_unlock d2) A" using lock_inv_idle_same [OF inv2 unlock_frame run2] .
      then show ?thesis using wake_inv [of "rbd_unlock d2" A ret2 d'] w False by simp
    qed
  qed
qed

lemma acquire_inv: "lock_inv d A \<Longrightarrow> rbd_acquire_lock rounds d = Ok d' \<Longrightarrow> lock_inv d' A"
proof (induction rounds d rule: rbd_acquire_lock.induct)
  case (2 env nret page len rounds d)
  obtain ret d1 where t: "rbd_try_acquire_lock env d = Ok (ret, d1)" using "2.prems"(2) by (auto simp: outcome_simps)
  have inv1: "lock_inv d1 A" using try_acquire_inv [OF "2.prems"(1) t] .
  show ?case
  proof (cases "ret \<le> 0")
    case True
    then show ?thesis using "2.prems"(2) t inv1 by simp
  next
    case False
    obtain ret2 where r: "rbd_request_lock nret page len = Ok ret2" using "2.prems"(2) t False by (auto simp: outcome_simps)
    consider "ret2 = RET_ETIMEDOUT" | "ret2 = RET_EROFS" | "ret2 \<noteq> RET_ETIMEDOUT" "ret2 \<noteq> RET_EROFS" by blast
    then show ?thesis
    proof cases
      case 1
      then show ?thesis using "2.IH" [OF t refl _ r 1] False inv1 "2.prems"(2) t r by simp
    next
      case 2
      then show ?thesis using wake_inv [OF inv1, of RET_EROFS d'] "2.prems"(2) t r False by simp
    next
      case 3
      then have "\<exists>w. d' = d1\<lparr>lock_dwork := w\<rparr>" using "2.prems"(2) t r False by (auto split: if_splits)
      then show ?thesis using lock_inv_same [OF inv1] by (auto simp: same_lists_def)
    qed
  qed
qed simp

lemma drop_lock_inv:
  assumes inv: "lock_inv d A" and "rbd_drop_lock d = Ok d'"
  shows "lock_inv d' A"
proof -
  have run: "running_list d = []" and d': "d' = rbd_unlock (rbd_pre_release_action d)"
    using assms(2) by (auto simp: rbd_drop_lock_def rbd_assert_def split: if_splits)
  show ?thesis
    unfolding d' by (rule lock_inv_idle_same [OF inv same_lists_trans [OF pre_release_frame unlock_frame] run])
qed

lemma dwork_inv: "lock_inv d A \<Longrightarrow> lock_inv (d\<lparr>lock_dwork := w\<rparr>) A"
  by (rule lock_inv_same) (simp_all add: same_lists_def)

lemma quiesced_inv:
  assumes inv: "lock_inv d A" and q: "quiesced q ok d = Ok d'"
  shows "lock_inv d' A"
proof (cases ok)
  case False
  then show ?thesis using inv q by (auto simp: quiesced_def rbd_release_lock_def rbd_reacquire_lock_def split: quiescer.splits)
next
  case ok: True
  show ?thesis
  proof (cases "q = For_Release \<or> (\<exists>ret. q = For_Reacquire ret \<and> ret \<noteq> 0)")
    case True
    then obtain d1 w where "rbd_drop_lock d = Ok d1" "d' = d1\<lparr>lock_dwork := w\<rparr>"
      using ok q by (auto simp: quiesced_def rbd_release_lock_def rbd_reacquire_lock_def bind_outcome_Ok_iff)
    then show ?thesis using dwork_inv drop_lock_inv [OF inv] by blast
  next
    case False
    then have w: "wake_lock_waiters 0 (rbd_set_locked (format_lock_cookie d) d) = Ok d'"
      using ok q by (cases q) (auto simp: quiesced_def rbd_reacquire_lock_def)
    have own: "rbd_is_lock_owner (lk_dev (rbd_set_locked (format_lock_cookie d) d))"
      using set_locked_frame by (simp add: rbd_is_lock_owner_def)
    show ?thesis using wake_inv [OF _ _ w] lock_inv_same [OF inv] set_locked_frame own by blast
  qed
qed

lemma quiesce_frame:
  assumes "rbd_quiesce_lock d = Ok (res, d')"
  shows "same_lists d d' \<and> (rbd_is_lock_owner (lk_dev d) \<longrightarrow> rbd_is_lock_owner (lk_dev d'))"
  using assms by (auto simp: rbd_quiesce_lock_def rbd_assert_def same_lists_def rbd_is_lock_owner_def Let_def split: if_splits)

lemma quiesce_for_inv:
  assumes inv: "lock_inv (ls_dev s) A" and q: "quiesce_for q s = Ok s'"
  shows "lock_inv (ls_dev s') A \<and> ls_active s' = ls_active s"
proof -
  obtain res d where r: "rbd_quiesce_lock (ls_dev s) = Ok (res, d)" using q by (auto simp: quiesce_for_def bind_outcome_Ok_iff)
  have inv1: "lock_inv d A" using lock_inv_same [OF inv] quiesce_frame [OF r] by blast
  show ?thesis
    using q r inv1 quiesced_inv [OF inv1] by (cases res) (auto simp: quiesce_for_def bind_outcome_Ok_iff)
qed

lemma reregister_inv:
  assumes inv: "lock_inv d A" and r: "rbd_reregister_watch reply d = Ok (b, d')"
  shows "lock_inv d' A"
proof (cases "watch_state d \<noteq> RBD_WATCH_STATE_ERROR")
  case True
  then show ?thesis using inv r by (simp add: rbd_reregister_watch_def)
next
  case False
  obtain ret d1 where t: "take_watch reply d = Ok (ret, d1)" using r False by (auto simp: rbd_reregister_watch_def bind_outcome_Ok_iff)
  have f: "same_lists d d1" "lk_dev d1 = lk_dev d"
    using t by (auto simp: take_watch_def rbd_assert_def same_lists_def split: if_splits sum.splits)
  have inv1: "lock_inv d1 A" using lock_inv_same [OF inv f(1)] f(2) by simp
  have eq: "rbd_reregister_watch reply d =
      (if ret \<noteq> 0 then
         if ret \<noteq> RET_EBLOCKLISTED \<and> ret \<noteq> RET_ENOENT
         then Ok (False, d1\<lparr>watch_dwork := queue_delayed RBD_RETRY_DELAY (watch_dwork d1)\<rparr>)
         else bind_outcome (wake_lock_waiters ret d1) (\<lambda>d. Ok (False, d))
       else bind_outcome (registered d1) (\<lambda>d. Ok (lock_state d = RBD_LOCK_STATE_LOCKED, d)))"
    using False t by (simp add: rbd_reregister_watch_def)
  consider w where "d' = d1\<lparr>watch_dwork := w\<rparr>" | "ret \<noteq> 0" "wake_lock_waiters ret d1 = Ok d'" | "registered d1 = Ok d'"
    using r unfolding eq by (auto simp: bind_outcome_Ok_iff split: if_splits)
  then show ?thesis
  proof cases
    case 1
    then show ?thesis using lock_inv_same [OF inv1] by (simp add: same_lists_def)
  next
    case 2
    then show ?thesis using wake_inv [OF inv1 _ 2(2)] by simp
  next
    case 3
    then have "same_lists d1 d' \<and> lk_dev d' = lk_dev d1" by (auto simp: registered_def same_lists_def split: option.splits)
    then show ?thesis using lock_inv_same [OF inv1] by metis
  qed
qed

lemma acknowledged_frame: "acknowledged result d = Ok (ack, d') \<Longrightarrow> d' = d"
  by (auto simp: acknowledged_def bind_outcome_Ok_iff)

lemma kick_frame: "same_lists d (maybe_kick_acquire d)" "lk_dev (maybe_kick_acquire d) = lk_dev d"
  by (simp_all add: maybe_kick_acquire_def same_lists_def)

lemma owner_frame: "same_lists d (rbd_set_owner_cid cid d)" "lk_dev (rbd_set_owner_cid cid d) = lk_dev d"
  by (simp_all add: rbd_set_owner_cid_def same_lists_def)

lemma kick_owner_frame: "same_lists d (maybe_kick_acquire (rbd_set_owner_cid cid d))"
  using kick_frame owner_frame same_lists_trans by blast

lemma handle_request_frame:
  assumes "rbd_handle_request_lock v data p d = Ok (ret, d1)"
  shows "same_lists d d1 \<and> lk_dev d1 = lk_dev d"
proof -
  have "d1 = d \<or> d1 = d\<lparr>unlock_work := True\<rparr>"
    using assms unfolding rbd_handle_request_lock_def bind_outcome_Ok_iff by (auto split: if_splits)
  then show ?thesis by (auto simp: same_lists_def)
qed

lemma handle_frames:
  "rbd_handle_acquired_lock v data p d = Ok d1 \<Longrightarrow> same_lists d d1 \<and> lk_dev d1 = lk_dev d"
  "rbd_handle_released_lock v data p d = Ok d1 \<Longrightarrow> same_lists d d1 \<and> lk_dev d1 = lk_dev d"
  unfolding rbd_handle_acquired_lock_def rbd_handle_released_lock_def bind_outcome_Ok_iff Let_def
  by (auto simp: kick_frame owner_frame kick_owner_frame split: if_splits)

lemma watch_dispatch_frame:
  assumes "rbd_watch_dispatch (\<lambda>d. d\<lparr>mapping_size := sz\<rparr>) data v op p d = Ok (ack, d')"
  shows "same_lists d d' \<and> lk_dev d' = lk_dev d"
proof -
  from assms consider "rbd_handle_acquired_lock v data p d = Ok d'" | "rbd_handle_released_lock v data p d = Ok d'"
    | ret where "rbd_handle_request_lock v data p d = Ok (ret, d')" | "d' = d\<lparr>mapping_size := sz\<rparr>" | "d' = d"
    unfolding rbd_watch_dispatch_def by (auto simp: bind_outcome_Ok_iff dest: acknowledged_frame split: if_splits)
  then show ?thesis
    by cases (blast dest: handle_frames handle_request_frame, blast dest: handle_frames, blast dest: handle_request_frame, simp_all add: same_lists_def)
qed

lemma watch_cb_frame:
  assumes "rbd_watch_cb (\<lambda>d. d\<lparr>mapping_size := sz\<rparr>) data d = Ok (ack, d')"
  shows "same_lists d d' \<and> lk_dev d' = lk_dev d"
  using assms unfolding rbd_watch_cb_def
  by (auto simp: bind_outcome_Ok_iff dest: watch_dispatch_frame split: if_splits outcome.splits)

section \<open>Requests\<close>

lemma del_request_Ok:
  assumes "no \<in> set (acquiring_list d) \<or> no \<in> set (running_list d)"
  shows "\<exists>rw. rbd_lock_del_request no d = Ok (d\<lparr>acquiring_list := remove1 no (acquiring_list d),
     running_list := remove1 no (running_list d), releasing_wait := rw\<rparr>)"
proof -
  let ?d = "d\<lparr>acquiring_list := remove1 no (acquiring_list d), running_list := remove1 no (running_list d)\<rparr>"
  let ?rw = "if lock_state d = RBD_LOCK_STATE_RELEASING \<and> remove1 no (running_list d) = [] then Suc (releasing_wait d) else releasing_wait d"
  have "rbd_lock_del_request no d = Ok (?d\<lparr>releasing_wait := ?rw\<rparr>)"
    using assms by (simp add: rbd_lock_del_request_def rbd_assert_def Let_def)
  then show ?thesis by blast
qed

text \<open>A request that leaves the running list, and one that gets past the lock.\<close>

lemma without_work:
  "distinct (map fst ws) \<Longrightarrow> (no, r) \<in> set ws \<Longrightarrow> remove1 (no, r) ws = filter (\<lambda>w. fst w \<noteq> no) ws"
proof (induction ws)
  case (Cons w ws)
  show ?case
  proof (cases "w = (no, r)")
    case True
    then have "\<forall>x\<in>set ws. fst x \<noteq> no" using Cons.prems(1) by (auto simp: image_iff)
    then show ?thesis using True by simp
  next
    case False
    then have "fst w \<noteq> no" using Cons.prems by (auto simp: image_iff)
    then show ?thesis using False Cons by simp
  qed
qed simp

lemma leave_inv:
  assumes inv: "lock_inv d A" and run: "no \<in> set (running_list d)"
    and d': "acquiring_list d' = acquiring_list d" "running_list d' = remove1 no (running_list d)" "lk_dev d' = lk_dev d"
      "img_states d' = img_states d" "acquire_wait d' = acquire_wait d" "img_works d' = filter (\<lambda>w. fst w \<noteq> no) (img_works d)"
  shows "lock_inv d' (A - {no})"
proof -
  have dist: "distinct (acquiring_list d)" "distinct (running_list d)" "set (acquiring_list d) \<inter> set (running_list d) = {}"
    using lock_invD(1) [OF inv] by simp_all
  have set: "set (running_list d') = set (running_list d) - {no}" using dist d' by simp
  have w: "set (img_works d') = {w \<in> set (img_works d). fst w \<noteq> no}" using d' by simp
  show ?thesis
    unfolding lock_inv_def
  proof (intro conjI impI)
    show "distinct (acquiring_list d' @ running_list d')" using dist d' set by auto
    show "distinct (map fst (img_works d'))" using lock_invD(2) [OF inv] d' by (simp add: distinct_map_filter)
    show "fst ` set (img_works d') \<inter> (A - {no}) = {}" using lock_invD(3) [OF inv] w by auto
    show "set (running_list d') = A - {no} \<union> fst ` set (img_works d')" unfolding set lock_invD(4) [OF inv] w by auto
    show "rbd_is_lock_owner (lk_dev d')" if "A - {no} \<noteq> {} \<or> 0 \<in> snd ` set (img_works d')"
      using that lock_invD(5) [OF inv] w d'(3) by auto
    show "\<forall>no\<in>set (acquiring_list d'). img_states d' no = RBD_IMG_EXCLUSIVE_LOCK" using lock_invD(6) [OF inv] d' by simp
    show "acquire_wait d'" if "acquiring_list d' \<noteq> [] \<or> running_list d' \<noteq> []"
      using lock_invD(7) [OF inv] d' run by (metis empty_iff list.set(1))
  qed
qed

lemma enter_inv:
  assumes inv: "lock_inv d A" and own: "rbd_is_lock_owner (lk_dev d)" and wait: "acquire_wait d"
    and d': "acquiring_list d' = acquiring_list d" "lk_dev d' = lk_dev d" "acquire_wait d' = acquire_wait d"
      "\<And>k. k \<noteq> no \<Longrightarrow> img_states d' k = img_states d k" "img_works d' = filter (\<lambda>w. fst w \<noteq> no) (img_works d)"
    and run: "distinct (running_list d')" "set (running_list d') = insert no (set (running_list d))" "no \<notin> set (acquiring_list d)"
  shows "lock_inv d' (insert no A)"
proof -
  have dist: "distinct (acquiring_list d)" "set (acquiring_list d) \<inter> set (running_list d) = {}"
    using lock_invD(1) [OF inv] by simp_all
  have w: "set (img_works d') = {w \<in> set (img_works d). fst w \<noteq> no}" using d' by simp
  show ?thesis
    unfolding lock_inv_def
  proof (intro conjI impI)
    show "distinct (acquiring_list d' @ running_list d')" using dist d'(1) run by auto
    show "distinct (map fst (img_works d'))" using lock_invD(2) [OF inv] d' by (simp add: distinct_map_filter)
    show "fst ` set (img_works d') \<inter> insert no A = {}" using lock_invD(3) [OF inv] w by auto
    show "set (running_list d') = insert no A \<union> fst ` set (img_works d')" unfolding run lock_invD(4) [OF inv] w by auto
    show "\<forall>no\<in>set (acquiring_list d'). img_states d' no = RBD_IMG_EXCLUSIVE_LOCK"
      using lock_invD(6) [OF inv] d' run(3) by metis
  qed (use own wait d' in simp_all)
qed

lemma wait_inv:
  assumes inv: "lock_inv d A" and wait: "acquire_wait d" and no: "no \<notin> set (acquiring_list d)" "no \<notin> set (running_list d)"
    and d': "acquiring_list d' = acquiring_list d @ [no]" "running_list d' = running_list d" "lk_dev d' = lk_dev d"
      "acquire_wait d' = acquire_wait d" "img_states d' = (img_states d)(no := RBD_IMG_EXCLUSIVE_LOCK)" "img_works d' = img_works d"
  shows "lock_inv d' A"
  unfolding lock_inv_def d' using lock_invD [OF inv] wait no by auto

lemma lock_start_inv:
  assumes inv: "lock_inv (ls_dev s) (ls_active s)" and f: "fresh_no no s"
    and need: "need_exclusive_lock (lk_dev (ls_dev s)) img = Ok True" and st: "lock_start img no s = Ok s'"
  shows "lock_inv (ls_dev s') (ls_active s')"
proof -
  let ?d = "ls_dev s"
  have no: "no \<notin> set (acquiring_list ?d)" "no \<notin> set (running_list ?d)" "acquire_wait ?d" using f by (simp_all add: fresh_no_def)
  have works: "filter (\<lambda>w. fst w \<noteq> no) (img_works ?d) = img_works ?d"
    using lock_invD(4) [OF inv] no(2) by (intro filter_True) auto
  consider (locked) "lock_state ?d = RBD_LOCK_STATE_LOCKED" | (excl) "lock_state ?d \<noteq> RBD_LOCK_STATE_LOCKED" "dev_exclusive (lk_dev ?d)"
    | (wait) "lock_state ?d \<noteq> RBD_LOCK_STATE_LOCKED" "\<not> dev_exclusive (lk_dev ?d)" by blast
  then show ?thesis
  proof cases
    case locked
    have own: "rbd_is_lock_owner (lk_dev ?d)" using locked by (simp add: rbd_is_lock_owner_def)
    have s': "s' = s\<lparr>ls_dev := ?d\<lparr>running_list := running_list ?d @ [no],
        img_states := (img_states ?d)(no := RBD_IMG_OBJECT_REQUESTS_PENDING)\<rparr>, ls_active := insert no (ls_active s)\<rparr>"
      using st locked no need own
      by (simp add: lock_start_def rbd_img_exclusive_lock_def rbd_lock_add_request_def rbd_assert_def lock_enter_def Let_def)
    have a: "ls_active s' = insert no (ls_active s)" by (simp add: s')
    show ?thesis unfolding a
      by (rule enter_inv [OF inv own no(3)]) (use no works lock_invD(1) [OF inv] in \<open>simp_all add: s'\<close>)
  next
    case excl
    let ?d1 = "?d\<lparr>acquiring_list := acquiring_list ?d @ [no]\<rparr>"
    obtain rw where del: "rbd_lock_del_request no ?d1 = Ok (?d1\<lparr>acquiring_list := remove1 no (acquiring_list ?d1),
        running_list := remove1 no (running_list ?d1), releasing_wait := rw\<rparr>)"
      using del_request_Ok [of no ?d1] by auto
    have s': "s' = s\<lparr>ls_dev := ?d1\<lparr>acquiring_list := remove1 no (acquiring_list ?d1),
        running_list := remove1 no (running_list ?d1), releasing_wait := rw\<rparr>\<rparr>"
      using st excl no need del
      by (simp add: lock_start_def rbd_img_exclusive_lock_def rbd_lock_add_request_def rbd_assert_def Let_def)
    have "same_lists ?d (ls_dev s')" using no by (simp add: s' same_lists_def remove1_append remove1_idem)
    then show ?thesis using lock_inv_same [OF inv] by (simp add: s')
  next
    case wait
    have s': "s' = s\<lparr>ls_dev := ?d\<lparr>acquiring_list := acquiring_list ?d @ [no], lock_dwork := queue_delayed 0 (lock_dwork ?d),
        img_states := (img_states ?d)(no := RBD_IMG_EXCLUSIVE_LOCK)\<rparr>\<rparr>"
      using st wait no need
      by (simp add: lock_start_def rbd_img_exclusive_lock_def rbd_lock_add_request_def rbd_assert_def Let_def)
    have a: "ls_active s' = ls_active s" by (simp add: s')
    show ?thesis unfolding a by (rule wait_inv [OF inv no(3,1,2)]) (simp_all add: s')
  qed
qed

lemma lock_enter_Ok:
  assumes "rbd_is_lock_owner (lk_dev (ls_dev s))"
  shows "lock_enter no s = Ok (s\<lparr>ls_dev := (ls_dev s)\<lparr>img_states := (img_states (ls_dev s))(no := RBD_IMG_OBJECT_REQUESTS_PENDING)\<rparr>,
     ls_active := insert no (ls_active s)\<rparr>)"
  using assms by (simp add: lock_enter_def rbd_assert_def)

text \<open>Work that has been scheduled for a request runs without a fault.\<close>

lemma lock_run_inv:
  assumes inv: "lock_inv (ls_dev s) (ls_active s)" and w: "(no, r) \<in> set (img_works (ls_dev s))"
  shows "\<exists>s'. lock_run no r s = Ok s' \<and> lock_inv (ls_dev s') (ls_active s')"
proof -
  let ?d = "ls_dev s"
  let ?d1 = "?d\<lparr>img_works := remove1 (no, r) (img_works ?d)\<rparr>"
  have f: "fst (no, r) \<in> fst ` set (img_works ?d)" using w by (rule imageI)
  have run: "no \<in> set (running_list ?d)" and na: "no \<notin> ls_active s"
    using f lock_invD(3,4) [OF inv] by auto
  have nacq: "no \<notin> set (acquiring_list ?d)" using run lock_invD(1) [OF inv] by auto
  have ws: "img_works ?d1 = filter (\<lambda>w. fst w \<noteq> no) (img_works ?d)"
    using without_work [OF lock_invD(2) [OF inv] w] by simp
  show ?thesis
  proof (cases "r = 0")
    case True
    have own: "rbd_is_lock_owner (lk_dev ?d)" using lock_invD(5) [OF inv] w True by (metis image_eqI snd_conv)
    have wait: "acquire_wait ?d" using lock_invD(7) [OF inv] run by (metis empty_iff list.set(1))
    let ?s = "s\<lparr>ls_dev := ?d1\<lparr>img_states := (img_states ?d)(no := RBD_IMG_OBJECT_REQUESTS_PENDING)\<rparr>, ls_active := insert no (ls_active s)\<rparr>"
    have "lock_run no r s = Ok ?s" using True own by (simp add: lock_run_def lock_enter_Ok Let_def)
    moreover have "lock_inv (ls_dev ?s) (insert no (ls_active s))"
      by (rule enter_inv [OF inv own wait]) (use ws nacq run lock_invD(1) [OF inv] in auto)
    ultimately show ?thesis by auto
  next
    case False
    obtain rw where del: "rbd_lock_del_request no ?d1 = Ok (?d1\<lparr>acquiring_list := remove1 no (acquiring_list ?d1),
        running_list := remove1 no (running_list ?d1), releasing_wait := rw\<rparr>)"
      using del_request_Ok [of no ?d1] run by auto
    let ?d2 = "?d1\<lparr>acquiring_list := remove1 no (acquiring_list ?d1),
        running_list := remove1 no (running_list ?d1), releasing_wait := rw\<rparr>"
    have "lock_run no r s = Ok (s\<lparr>ls_dev := ?d2\<rparr>)" using False del by (simp add: lock_run_def Let_def)
    moreover have "lock_inv ?d2 (ls_active s - {no})"
      by (rule leave_inv [OF inv run]) (use ws nacq in \<open>simp_all add: remove1_idem\<close>)
    ultimately show ?thesis using na by auto
  qed
qed

lemma lock_finish_inv:
  assumes inv: "lock_inv (ls_dev s) (ls_active s)" and a: "no \<in> ls_active s"
  shows "\<exists>s'. lock_finish no s = Ok s' \<and> lock_inv (ls_dev s') (ls_active s')"
proof -
  let ?d = "ls_dev s"
  have run: "no \<in> set (running_list ?d)" and nw: "no \<notin> fst ` set (img_works ?d)"
    using a lock_invD(3,4) [OF inv] by auto
  have nacq: "no \<notin> set (acquiring_list ?d)" using run lock_invD(1) [OF inv] by auto
  have ws: "filter (\<lambda>w. fst w \<noteq> no) (img_works ?d) = img_works ?d" using nw by (intro filter_True) auto
  obtain rw where del: "rbd_lock_del_request no ?d = Ok (?d\<lparr>acquiring_list := remove1 no (acquiring_list ?d),
      running_list := remove1 no (running_list ?d), releasing_wait := rw\<rparr>)"
    using del_request_Ok [of no ?d] run by auto
  have "lock_inv (?d\<lparr>acquiring_list := remove1 no (acquiring_list ?d), running_list := remove1 no (running_list ?d),
      releasing_wait := rw\<rparr>) (ls_active s - {no})"
    by (rule leave_inv [OF inv run]) (use ws nacq in \<open>simp_all add: remove1_idem\<close>)
  then show ?thesis using del by (simp add: lock_finish_def)
qed

lemma lock_step_inv:
  assumes "lock_step s s'" and "lock_inv (ls_dev s) (ls_active s)"
  shows "lock_inv (ls_dev s') (ls_active s')"
  using assms
proof (induction rule: lock_step.induct)
  case (start no s img s')
  then show ?case using lock_start_inv by blast
next
  case (run no r s s')
  then show ?case using lock_run_inv by fastforce
next
  case (finish no s s')
  then show ?case using lock_finish_inv by fastforce
next
  case (acquire s rounds d)
  then show ?case using acquire_inv by simp
next
  case (release s s')
  then show ?case using quiesce_for_inv by fastforce
next
  case (reregister s reply d)
  then show ?case using reregister_inv by simp
next
  case (reacquire s reply d ret s')
  have "lock_inv (ls_dev (s\<lparr>ls_dev := d\<rparr>)) (ls_active s)" using reregister_inv [OF reacquire(4,2)] by simp
  then show ?case using quiesce_for_inv [OF _ reacquire(3)] by fastforce
next
  case (resume s q ok d d')
  have "same_lists (ls_dev s) d \<and> lk_dev d = lk_dev (ls_dev s)"
    using resume(3) by (auto simp: rbd_quiesce_lock_resume_def rbd_assert_def same_lists_def Let_def split: if_splits)
  then have "lock_inv d (ls_active s)" using lock_inv_same [OF resume(5)] by metis
  then show ?case using quiesced_inv [OF _ resume(4)] by simp
next
  case (notified sz data s ack d)
  then show ?case using watch_cb_frame [OF notified(1)] lock_inv_same [OF notified(2)] by simp
next
  case (watch_error s d)
  have "same_lists (ls_dev s) d \<and> lk_dev d = lk_dev (ls_dev s)"
    using watch_error(1) by (auto simp: rbd_watch_errcb_def drop_watch_def rbd_set_owner_cid_def rbd_assert_def same_lists_def bind_outcome_Ok_iff Let_def split: if_splits)
  then show ?case using lock_inv_same [OF watch_error(2)] by simp
qed

lemma lock_steps_inv:
  "lock_step\<^sup>*\<^sup>* s s' \<Longrightarrow> lock_inv (ls_dev s) (ls_active s) \<Longrightarrow> lock_inv (ls_dev s') (ls_active s')"
  by (induction rule: rtranclp_induct) (auto intro: lock_step_inv)

text \<open>
  C5: I/O runs only under the exclusive lock. However requests start, finish and fail, the lock is acquired, released and
  reacquired, watches break and notifications arrive: as long as the driver is not stopped by a failed assertion elsewhere, every request
  past the lock belongs to a client that holds it, a request that is woken to go on finds the lock held, and no request is
  missing from the lists when it ends.
\<close>

theorem rbd_io_under_lock:
  assumes "lock_step\<^sup>*\<^sup>* s t" and "acquiring_list (ls_dev s) = []" "running_list (ls_dev s) = []" "img_works (ls_dev s) = []" "ls_active s = {}"
  shows "(ls_active t \<noteq> {} \<longrightarrow> rbd_is_lock_owner (lk_dev (ls_dev t))) \<and>
     (\<forall>no r. (no, r) \<in> set (img_works (ls_dev t)) \<longrightarrow> (\<exists>u. lock_run no r t = Ok u)) \<and>
     (\<forall>no. no \<in> ls_active t \<longrightarrow> (\<exists>u. lock_finish no t = Ok u))"
proof -
  have "lock_inv (ls_dev s) (ls_active s)" using assms(2-5) by (simp add: lock_inv_def)
  then have inv: "lock_inv (ls_dev t) (ls_active t)" using lock_steps_inv [OF assms(1)] by blast
  show ?thesis using lock_invD(5) [OF inv] lock_run_inv [OF inv] lock_finish_inv [OF inv] by blast
qed

definition owning_sys :: lock_sys where
  "owning_sys = \<lparr>ls_dev = owning_client, ls_active = {}, ls_wait = None\<rparr>"

theorem rbd_io_under_lock_witness:
  "\<exists>t. lock_start clone_write 1 owning_sys = Ok t \<and> ls_active t = {1} \<and> rbd_is_lock_owner (lk_dev (ls_dev t)) \<and>
     (\<exists>u. lock_finish 1 t = Ok u)"
proof -
  have need: "need_exclusive_lock (lk_dev (ls_dev owning_sys)) clone_write = Ok True"
    by (simp add: owning_sys_def owning_client_def clone_device_def clone_write_def need_exclusive_lock_def rbd_is_ro_def rbd_assert_def)
  have idle: "acquiring_list (ls_dev owning_sys) = []" "running_list (ls_dev owning_sys) = []" "img_works (ls_dev owning_sys) = []"
    "ls_active owning_sys = {}" "fresh_no 1 owning_sys" "lock_state (ls_dev owning_sys) = RBD_LOCK_STATE_LOCKED"
    by (simp_all add: owning_sys_def owning_client_def waiting_client_def clone_device_def fresh_no_def)
  obtain t where t: "lock_start clone_write 1 owning_sys = Ok t" "ls_active t = {1}"
    using need idle
    by (simp add: lock_start_def rbd_img_exclusive_lock_def rbd_lock_add_request_def rbd_assert_def lock_enter_def rbd_is_lock_owner_def Let_def)
  have "lock_step\<^sup>*\<^sup>* owning_sys t" using lock_step.start [OF idle(5) need t(1)] by blast
  from rbd_io_under_lock [OF this idle(1-4)] show ?thesis using t by simp
qed

end
