(* ===== verification/RbdImage.thy ===== *)
theory RbdImage
  imports RbdLocking
begin

text \<open>
  Image requests (\<open>rbd/rbd.c\<close>, \<open>rbd_img_advance\<close>, \<open>__rbd_img_handle_request\<close> and \<open>rbd_img_handle_request\<close>): a request waits for the
  exclusive lock, starts its object requests and ends when all of them are done. The object requests share the device with each
  other, with other image requests and with the work of the lock.
\<close>

unbundle bit_operations_syntax

section \<open>The state machine\<close>

text \<open>
  An image request with the device: \<open>is_objs\<close> are its object requests, \<open>is_runs\<close> those that have been started, in their order, and
  \<open>is_done\<close> the result with which the request has been ended. The state of the request is in \<open>img_states\<close> of the device
  under its number, and \<open>is_pending\<close> is its field \<open>pending\<close>. The field \<open>sys_dev\<close> of a started object request is not used: the device is \<open>lk_dev\<close>
  of \<open>is_lk\<close>.
\<close>

record img_sys =
  is_lk :: rbd_locks
  is_no :: nat
  is_img :: rbd_img_request
  is_objs :: "rbd_obj_request list"
  is_runs :: "obj_sys list"
  is_pending :: pending_result
  is_done :: "int option"

abbreviation is_dev :: "img_sys \<Rightarrow> rbd_device" where "is_dev s \<equiv> lk_dev (is_lk s)"

definition set_img_state :: "rbd_img_state \<Rightarrow> img_sys \<Rightarrow> img_sys" where
  "set_img_state st s = s\<lparr>is_lk := (is_lk s)\<lparr>img_states := (img_states (is_lk s))(is_no s := st)\<rparr>\<rparr>"

text \<open>The loop of \<open>rbd_img_object_requests\<close>; the calls of the \<open>k\<close>-th object request that can fail return the \<open>k\<close>-th list of \<open>rets\<close>.\<close>

fun img_start_loop ::
    "rbd_device \<Rightarrow> rbd_img_request \<Rightarrow> int list list \<Rightarrow> rbd_obj_request list \<Rightarrow> pending_result \<Rightarrow> (obj_sys list \<times> pending_result) outcome" where
  "img_start_loop dev img rets [] pending = Ok ([], pending)"
| "img_start_loop dev img rets (obj # objs) pending =
     bind_outcome (obj_start img dev obj (case rets of [] \<Rightarrow> [] | rs # _ \<Rightarrow> rs)) (\<lambda>run.
       case sys_done run of
         Some result \<Rightarrow>
           if result \<noteq> 0 then Ok ([run], pending\<lparr>pr_result := result\<rparr>)
           else bind_outcome (img_start_loop dev img (tl rets) objs pending) (\<lambda>(runs, pending). Ok (run # runs, pending))
       | None \<Rightarrow>
           bind_outcome (img_start_loop dev img (tl rets) objs (pending\<lparr>num_pending := Suc (num_pending pending)\<rparr>))
             (\<lambda>(runs, pending). Ok (run # runs, pending)))"

definition rbd_img_object_requests :: "int list list \<Rightarrow> img_sys \<Rightarrow> img_sys outcome" where
  "rbd_img_object_requests rets s =
     rbd_assert (pr_result (is_pending s) = 0 \<and> num_pending (is_pending s) = 0)
       (bind_outcome (img_start_loop (is_dev s) (is_img s) rets (is_objs s) (is_pending s)) (\<lambda>(runs, pending).
          Ok (s\<lparr>is_runs := runs, is_pending := pending\<rparr>)))"

text \<open>The cases of \<open>rbd_img_advance\<close>; \<open>goto again\<close> is a call of the definition of the next case.\<close>

definition img_locked :: "int list list \<Rightarrow> int \<Rightarrow> img_sys \<Rightarrow> (bool \<times> int \<times> img_sys) outcome" where
  "img_locked rets result s =
     (if result \<noteq> 0 then Ok (True, result, s)
      else
        bind_outcome (need_exclusive_lock (is_dev s) (is_img s)) (\<lambda>need.
          rbd_assert (\<not> need \<or> rbd_is_lock_owner (is_dev s))
            (bind_outcome (rbd_img_object_requests rets s) (\<lambda>s.
               if num_pending (is_pending s) = 0
               then Ok (True, pr_result (is_pending s), set_img_state RBD_IMG_OBJECT_REQUESTS s)
               else Ok (False, result, set_img_state RBD_IMG_OBJECT_REQUESTS_PENDING s)))))"

definition rbd_img_advance :: "int list list \<Rightarrow> int \<Rightarrow> img_sys \<Rightarrow> (bool \<times> int \<times> img_sys) outcome" where
  "rbd_img_advance rets result s =
     (case img_states (is_lk s) (is_no s) of
        RBD_IMG_START \<Rightarrow>
          rbd_assert (result = 0)
            (bind_outcome (rbd_img_exclusive_lock (is_img s) (is_no s) (is_lk s)) (\<lambda>(ret, lk).
               let s = s\<lparr>is_lk := lk\<rparr> in
               if ret < 0 then Ok (True, ret, s)
               else
                 let s = set_img_state RBD_IMG_EXCLUSIVE_LOCK s in
                 if ret > 0 then img_locked rets result s else Ok (False, result, s)))
      | RBD_IMG_EXCLUSIVE_LOCK \<Rightarrow> img_locked rets result s
      | RBD_IMG_OBJECT_REQUESTS_PENDING \<Rightarrow>
          bind_outcome (pending_result_dec (is_pending s) result) (\<lambda>(done, result, pending).
            Ok (done, result, s\<lparr>is_pending := pending\<rparr>))
      | RBD_IMG_OBJECT_REQUESTS \<Rightarrow> Ok (True, result, s))"

text \<open>\<open>__rbd_img_handle_request\<close>.\<close>

definition img_handle :: "int list list \<Rightarrow> int \<Rightarrow> img_sys \<Rightarrow> (bool \<times> int \<times> img_sys) outcome" where
  "img_handle rets result s =
     bind_outcome (need_exclusive_lock (is_dev s) (is_img s)) (\<lambda>need.
     bind_outcome (rbd_img_advance rets result s) (\<lambda>(done, result, s).
     bind_outcome (if need \<and> done then rbd_lock_del_request (is_no s) (is_lk s) else Ok (is_lk s)) (\<lambda>lk.
       let s = s\<lparr>is_lk := lk\<rparr> in
       if done \<and> result \<noteq> 0 then rbd_assert (result < 0) (Ok (done, result, s)) else Ok (done, result, s))))"

text \<open>
  \<open>rbd_img_handle_request\<close>. The end of a request of the block layer and the end of a child request are the same here: the result is set. For
  a child request the object request that has sent it then gets the result as the completion of its read from the parent.
\<close>

definition rbd_img_handle_request :: "int list list \<Rightarrow> int \<Rightarrow> img_sys \<Rightarrow> img_sys outcome" where
  "rbd_img_handle_request rets result s =
     bind_outcome (img_handle rets result s) (\<lambda>(done, result, s). Ok (if done then s\<lparr>is_done := Some result\<rparr> else s))"

section \<open>Events\<close>

text \<open>
  What can happen to an image request: the work that \<open>rbd_img_schedule\<close> has queued runs, or a request that one of its object requests
  has sent completes. Before that, other activity has turned the device into \<open>ie_lk\<close>.
\<close>

datatype img_what = Woken int "int list list" | Completed nat obj_event

record img_event =
  ie_lk :: rbd_locks
  ie_what :: img_what

text \<open>A completion with \<open>rbd_obj_handle_request\<close>.\<close>

definition img_obj_complete :: "nat \<Rightarrow> obj_event \<Rightarrow> img_sys \<Rightarrow> img_sys outcome" where
  "img_obj_complete i ev s =
     bind_outcome (aref (is_runs s) i) (\<lambda>run.
     bind_outcome (obj_complete (is_img s) ev (run\<lparr>sys_dev := is_dev s\<rparr>)) (\<lambda>run.
       let s = s\<lparr>is_runs := (is_runs s)[i := run], is_lk := (is_lk s)\<lparr>lk_dev := sys_dev run\<rparr>\<rparr> in
       case sys_done run of None \<Rightarrow> Ok s | Some result \<Rightarrow> rbd_img_handle_request [] result s))"

definition img_complete :: "img_event \<Rightarrow> img_sys \<Rightarrow> img_sys outcome" where
  "img_complete ev s =
     (let s = s\<lparr>is_lk := ie_lk ev\<rparr> in
      case ie_what ev of
        Woken result rets \<Rightarrow> rbd_img_handle_request rets result s
      | Completed i oev \<Rightarrow> img_obj_complete i oev s)"

definition img_begin :: "rbd_locks \<Rightarrow> nat \<Rightarrow> rbd_img_request \<Rightarrow> rbd_obj_request list \<Rightarrow> int list list \<Rightarrow> img_sys outcome" where
  "img_begin lk no img objs rets =
     rbd_img_handle_request rets 0
       \<lparr>is_lk = lk\<lparr>img_states := (img_states lk)(no := img_state img)\<rparr>, is_no = no, is_img = img, is_objs = objs, is_runs = [],
        is_pending = img_pending img, is_done = None\<rparr>"

text \<open>
  What the environment keeps to. Other activity keeps the request on the lists of the lock, its state, and the device but for the
  parent overlap, the state of the lock and the contents of the object map; while the request waits for the lock, the object map can be loaded.
  A request is woken with success only when the lock is held and the object map covers its objects. The image is not
  flattened under a request that zeroes whole objects.
\<close>

definition on_lists :: "nat \<Rightarrow> rbd_locks \<Rightarrow> bool" where
  "on_lists no lk \<longleftrightarrow> no \<in> set (acquiring_list lk) \<or> no \<in> set (running_list lk)"

definition covers :: "rbd_device \<Rightarrow> rbd_obj_request list \<Rightarrow> bool" where
  "covers dev objs \<longleftrightarrow> (has_object_map dev \<longrightarrow> list_all (\<lambda>obj. map_within dev (oe_objno (obj_ex obj))) objs)"

definition kept :: "img_sys \<Rightarrow> rbd_locks \<Rightarrow> bool" where
  "kept s lk' \<longleftrightarrow>
     on_lists (is_no s) lk' = on_lists (is_no s) (is_lk s) \<and>
     img_states lk' (is_no s) = img_states (is_lk s) (is_no s) \<and>
     lk_dev lk' = (is_dev s)\<lparr>object_map := object_map (lk_dev lk'), object_map_size := object_map_size (lk_dev lk'),
       parent_overlap := parent_overlap (lk_dev lk'), dev_lock_state := lock_state lk'\<rparr> \<and>
     (img_op_type (is_img s) = OBJ_OP_ZEROOUT \<longrightarrow> parent_overlap (lk_dev lk') = parent_overlap (is_dev s)) \<and>
     (img_states (is_lk s) (is_no s) = RBD_IMG_OBJECT_REQUESTS_PENDING \<longrightarrow>
        length (object_map (lk_dev lk')) = length (object_map (is_dev s)) \<and> object_map_size (lk_dev lk') = object_map_size (is_dev s))"

definition img_event_ok :: "img_sys \<Rightarrow> img_event \<Rightarrow> bool" where
  "img_event_ok s ev \<longleftrightarrow>
     is_done s = None \<and> kept s (ie_lk ev) \<and>
     (case ie_what ev of
        Woken result rets \<Rightarrow>
          img_states (is_lk s) (is_no s) = RBD_IMG_EXCLUSIVE_LOCK \<and> result \<le> 0 \<and> list_all (list_all (\<lambda>r. r \<le> 0)) rets \<and>
          (result = 0 \<longrightarrow> rbd_is_lock_owner (lk_dev (ie_lk ev)) \<and> covers (lk_dev (ie_lk ev)) (is_objs s))
      | Completed i oev \<Rightarrow>
          i < length (is_runs s) \<and> event_ok (is_img s) ((is_runs s ! i)\<lparr>sys_dev := lk_dev (ie_lk ev)\<rparr>) oev \<and>
          (img_op_type (is_img s) = OBJ_OP_ZEROOUT \<longrightarrow> ev_overlap oev = parent_overlap (is_dev s)))"

inductive img_step :: "img_sys \<Rightarrow> img_sys \<Rightarrow> bool" where
  img: "img_event_ok s ev \<Longrightarrow> img_complete ev s = Ok s' \<Longrightarrow> img_step s s'"

inductive_cases img_stepE: "img_step s s'"

section \<open>The device under an image request\<close>

text \<open>How the device changes under a running request: the object map keeps its size.\<close>

definition similar :: "rbd_img_request \<Rightarrow> rbd_device \<Rightarrow> rbd_device \<Rightarrow> bool" where
  "similar img dev dev' \<longleftrightarrow>
     dev' = dev\<lparr>object_map := object_map dev', parent_overlap := parent_overlap dev', dev_lock_state := dev_lock_state dev'\<rparr> \<and>
     length (object_map dev') = length (object_map dev) \<and>
     (img_op_type img = OBJ_OP_ZEROOUT \<longrightarrow> parent_overlap dev' = parent_overlap dev)"

lemma similar_trans: "similar img a b \<Longrightarrow> similar img b c \<Longrightarrow> similar img a c"
  unfolding similar_def by (elim conjE) (intro conjI, erule ssubst, erule ssubst, simp_all)

lemma similarE:
  assumes "similar img dev dev'"
  obtains m v st where "dev' = dev\<lparr>object_map := m, parent_overlap := v, dev_lock_state := st\<rparr>" "length m = length (object_map dev)"
    "img_op_type img = OBJ_OP_ZEROOUT \<longrightarrow> v = parent_overlap dev"
  using assms that unfolding similar_def by blast

lemma similarI:
  "length m = length (object_map dev) \<Longrightarrow> (img_op_type img = OBJ_OP_ZEROOUT \<longrightarrow> v = parent_overlap dev) \<Longrightarrow>
   similar img dev (dev\<lparr>object_map := m, parent_overlap := v, dev_lock_state := st\<rparr>)"
  by (simp add: similar_def)

lemma prepared_similar:
  assumes "similar img dev dev'" and "prepared dev img obj"
  shows "prepared dev' img obj"
  using assms(1)
proof (rule similarE)
  fix m v st
  assume d: "dev' = dev\<lparr>object_map := m, parent_overlap := v, dev_lock_state := st\<rparr>" "length m = length (object_map dev)"
    "img_op_type img = OBJ_OP_ZEROOUT \<longrightarrow> v = parent_overlap dev"
  show ?thesis using assms(2) d(2,3) unfolding d(1)
    by (cases "img_op_type img")
      (simp_all add: prepared_def has_object_map_def map_within_def rbd_obj_is_entire_def data_ready_def)
qed

lemma similar_object_map: "similar img dev dev' \<Longrightarrow> has_object_map dev' = has_object_map dev"
  by (erule similarE) (simp add: has_object_map_def)

lemma similar_need: "similar img dev dev' \<Longrightarrow> need_exclusive_lock dev' img = need_exclusive_lock dev img"
  by (erule similarE) (simp add: need_exclusive_lock_def rbd_is_ro_def)

lemma sys_inv_similar:
  assumes "similar img dev dev'" and "sys_inv img (run\<lparr>sys_dev := dev\<rparr>)"
  shows "sys_inv img (run\<lparr>sys_dev := dev'\<rparr>)"
proof -
  have "sub_ok dev' obj = sub_ok dev obj" for obj
    using similar_object_map [OF assms(1)] by (simp add: sub_ok_def fun_eq_iff)
  then show ?thesis using assms(2) prepared_similar [OF assms(1)] by (simp add: sys_inv_def split: option.splits)
qed

lemma sys_measure_dev [simp]: "sys_measure img (run\<lparr>sys_dev := dev\<rparr>) = sys_measure img run"
  by (simp add: sys_measure_def split: option.split)

lemma map_finish_dev:
  assumes "rbd_object_map_update_finish dev obj r n data = Ok (res, dev')"
  shows "\<exists>m. dev' = dev\<lparr>object_map := m\<rparr> \<and> length m = length (object_map dev)"
proof -
  have "dev' = dev \<or> (\<exists>objno val. rbd_object_map_set dev objno val = Ok dev')"
    using assms by (auto simp: rbd_object_map_update_finish_def rbd_assert_def outcome_simps split: if_splits)
  then show ?thesis
  proof (elim disjE exE)
    show ?thesis if "dev' = dev" using that by (intro exI [of _ "object_map dev"]) simp
    show ?thesis if "rbd_object_map_set dev objno val = Ok dev'" for objno val
      using rbd_object_map_set_elim [OF that] by blast
  qed
qed

lemma obj_callback_dev:
  assumes "obj_callback img dev obj sub r bv = Ok (res, dev', obj')"
  shows "\<exists>m. dev' = dev\<lparr>object_map := m\<rparr> \<and> length m = length (object_map dev)"
proof (cases sub)
  case (Map_update snap_id n data)
  then show ?thesis using assms map_finish_dev by (auto simp: obj_callback_def outcome_simps)
qed (use assms in \<open>auto simp: obj_callback_def intro!: exI [of _ "object_map dev"]\<close>)

lemma obj_complete_similar:
  assumes "obj_complete img ev s = Ok s'" and "img_op_type img = OBJ_OP_ZEROOUT \<longrightarrow> ev_overlap ev = parent_overlap (sys_dev s)"
  shows "similar img (sys_dev s) (sys_dev s')"
proof -
  obtain sub res obj where cb: "obj_callback img ((sys_dev s)\<lparr>parent_overlap := ev_overlap ev\<rparr>) (sys_obj s) sub (ev_result ev) (ev_data ev) =
      Ok (res, sys_dev s', obj)"
    using assms(1) by (auto simp: obj_complete_def outcome_simps)
  obtain m where m: "sys_dev s' = (sys_dev s)\<lparr>parent_overlap := ev_overlap ev, object_map := m\<rparr>" "length m = length (object_map (sys_dev s))"
    using obj_callback_dev [OF cb] by auto
  show ?thesis unfolding m(1) using m(2) assms(2) by (simp add: similar_def)
qed

section \<open>Devices without their object maps\<close>

text \<open>
  While a request waits for the lock, the object map is not loaded: what holds of its object requests then is said of the device without
  the features.
\<close>

definition no_map :: "rbd_device \<Rightarrow> rbd_device" where
  "no_map dev = dev\<lparr>dev_features := 0\<rparr>"

lemma startable_no_map:
  "startable dev img obj \<longleftrightarrow>
     startable (no_map dev) img obj \<and> (has_object_map dev \<longrightarrow> map_within dev (oe_objno (obj_ex obj)))"
  by (cases "img_op_type img")
    (auto simp: startable_def prepared_def no_map_def has_object_map_def rbd_obj_is_entire_def data_ready_def)

lemma startable_covers:
  "covers dev objs \<Longrightarrow> list_all (startable (no_map dev) img) objs \<Longrightarrow> list_all (startable dev img) objs"
  using startable_no_map [of dev img] by (auto simp: covers_def list_all_iff)

lemma no_map_fields [simp]:
  "dev_layout (no_map dev) = dev_layout dev" "dev_alloc_size (no_map dev) = dev_alloc_size dev"
  "parent_overlap (no_map dev) = parent_overlap dev"
  by (simp_all add: no_map_def)

lemma no_map_tests [simp]:
  "rbd_obj_is_entire (no_map dev) obj = rbd_obj_is_entire dev obj" "rbd_obj_is_tail (no_map dev) obj = rbd_obj_is_tail dev obj"
  "rbd_obj_copyup_enabled (no_map dev) img obj = rbd_obj_copyup_enabled dev img obj"
  "rbd_obj_calc_img_extents (no_map dev) obj entire w = rbd_obj_calc_img_extents dev obj entire w"
  unfolding rbd_obj_is_entire_def rbd_obj_is_tail_def rbd_obj_copyup_enabled_def rbd_obj_calc_img_extents_def no_map_fields
  by (rule refl)+

lemma obj_init_no_map: "rbd_obj_init (no_map dev) img obj w = rbd_obj_init dev img obj w"
  unfolding rbd_obj_init_def rbd_obj_init_read_def rbd_obj_init_write_def rbd_obj_init_discard_def rbd_obj_init_zeroout_def no_map_fields no_map_tests ..

lemma kept_no_map:
  assumes "dev' = dev\<lparr>object_map := m, object_map_size := n, parent_overlap := v, dev_lock_state := st\<rparr>"
    and "img_op_type img = OBJ_OP_ZEROOUT \<longrightarrow> v = parent_overlap dev" and "startable (no_map dev) img obj"
  shows "startable (no_map dev') img obj"
  using assms(2,3) unfolding assms(1)
  by (cases "img_op_type img")
    (auto simp: startable_def prepared_def no_map_def has_object_map_def rbd_obj_is_entire_def data_ready_def)

section \<open>The invariant\<close>

text \<open>
  What the field \<open>pending\<close> says of the started object requests: how many of them are not done, and the first error. Without an error
  all object requests have been started.
\<close>

definition undone :: "obj_sys list \<Rightarrow> nat" where
  "undone runs = length (filter (\<lambda>run. sys_done run = None) runs)"

definition accounts :: "rbd_obj_request list \<Rightarrow> obj_sys list \<Rightarrow> int \<Rightarrow> bool" where
  "accounts objs runs result \<longleftrightarrow>
     result \<le> 0 \<and>
     (if result = 0 then length runs = length objs \<and> list_all (\<lambda>run. sys_done run = None \<or> sys_done run = Some 0) runs
      else list_ex (\<lambda>run. sys_done run = Some result) runs)"

definition running_inv :: "rbd_img_request \<Rightarrow> rbd_device \<Rightarrow> obj_sys list \<Rightarrow> bool" where
  "running_inv img dev runs \<longleftrightarrow> list_all (\<lambda>run. sys_inv img (run\<lparr>sys_dev := dev\<rparr>)) runs"

definition img_inv :: "img_sys \<Rightarrow> bool" where
  "img_inv s \<longleftrightarrow>
     (\<exists>need. need_exclusive_lock (is_dev s) (is_img s) = Ok need \<and>
       (case is_done s of
          Some result \<Rightarrow>
            running_inv (is_img s) (is_dev s) (is_runs s) \<and> undone (is_runs s) = 0 \<and> result \<le> 0 \<and>
            (is_runs s \<noteq> [] \<or> result = 0 \<longrightarrow> accounts (is_objs s) (is_runs s) result)
        | None \<Rightarrow>
            (need \<longrightarrow> on_lists (is_no s) (is_lk s)) \<and>
            (case img_states (is_lk s) (is_no s) of
               RBD_IMG_EXCLUSIVE_LOCK \<Rightarrow>
                 is_runs s = [] \<and> is_pending s = \<lparr>pr_result = 0, num_pending = 0\<rparr> \<and>
                 list_all (startable (no_map (is_dev s)) (is_img s)) (is_objs s)
             | RBD_IMG_OBJECT_REQUESTS_PENDING \<Rightarrow>
                 running_inv (is_img s) (is_dev s) (is_runs s) \<and>
                 num_pending (is_pending s) = undone (is_runs s) \<and> undone (is_runs s) > 0 \<and>
                 accounts (is_objs s) (is_runs s) (pr_result (is_pending s))
             | _ \<Rightarrow> False)))"

definition img_measure :: "img_sys \<Rightarrow> nat" where
  "img_measure s =
     (if is_done s \<noteq> None then 0
      else if img_states (is_lk s) (is_no s) = RBD_IMG_EXCLUSIVE_LOCK then Suc (length (is_objs s) * (8 * Suc (max_out (is_img s))))
      else sum_list (map (sys_measure (is_img s)) (is_runs s)))"

section \<open>Starting the object requests\<close>

lemma img_start_loop_ok:
  assumes "list_all (startable dev img) objs" and "list_all (list_all (\<lambda>r. r \<le> 0)) rets" and "pr_result pending = 0"
  shows "\<exists>runs pending'. img_start_loop dev img rets objs pending = Ok (runs, pending') \<and>
     running_inv img dev runs \<and> num_pending pending' = num_pending pending + undone runs \<and>
     accounts objs runs (pr_result pending') \<and>
     sum_list (map (sys_measure img) runs) \<le> length objs * (8 * Suc (max_out img))"
  using assms
proof (induction objs arbitrary: rets pending)
  case Nil
  then show ?case by (simp add: running_inv_def undone_def accounts_def)
next
  case (Cons obj objs)
  let ?rs = "case rets of [] \<Rightarrow> [] | rs # _ \<Rightarrow> rs"
  have st: "startable dev img obj" and rs: "list_all (\<lambda>r. r \<le> 0) ?rs" "list_all (list_all (\<lambda>r. r \<le> 0)) (tl rets)"
    using Cons.prems by (cases rets; simp)+
  obtain run where run: "obj_start img dev obj ?rs = Ok run" "sys_inv img run" "sys_measure img run \<le> 8 * Suc (max_out img)"
    using obj_start_ok [OF st rs(1)] by (elim exE conjE) (rule that)
  have dev: "sys_dev run = dev" using run(1) by (auto simp: obj_start_def outcome_simps)
  then have inv: "sys_inv img (run\<lparr>sys_dev := dev\<rparr>)" using run(2) by (cases run) simp
  show ?case
  proof (cases "sys_done run")
    case None
    obtain runs pending' where ih: "img_start_loop dev img (tl rets) objs (pending\<lparr>num_pending := Suc (num_pending pending)\<rparr>) = Ok (runs, pending')"
      "running_inv img dev runs" "num_pending pending' = Suc (num_pending pending) + undone runs" "accounts objs runs (pr_result pending')"
      "sum_list (map (sys_measure img) runs) \<le> length objs * (8 * Suc (max_out img))"
      using Cons.IH [of "tl rets" "pending\<lparr>num_pending := Suc (num_pending pending)\<rparr>"] Cons.prems rs(2) by auto
    show ?thesis
      using None run ih inv
      by (intro exI [of _ "run # runs"] exI [of _ pending']) (auto simp: running_inv_def undone_def accounts_def)
  next
    case (Some result)
    have le: "result \<le> 0" using run(2) Some by (simp add: sys_inv_def)
    show ?thesis
    proof (cases "result = 0")
      case True
      obtain runs pending' where ih: "img_start_loop dev img (tl rets) objs pending = Ok (runs, pending')"
        "running_inv img dev runs" "num_pending pending' = num_pending pending + undone runs" "accounts objs runs (pr_result pending')"
        "sum_list (map (sys_measure img) runs) \<le> length objs * (8 * Suc (max_out img))"
        using Cons.IH [of "tl rets" pending] Cons.prems rs(2) by auto
      show ?thesis
        using True Some run ih inv
        by (intro exI [of _ "run # runs"] exI [of _ pending']) (auto simp: running_inv_def undone_def accounts_def)
    next
      case False
      then show ?thesis
        using Some run inv le Cons.prems(3)
        by (intro exI [of _ "[run]"] exI [of _ "pending\<lparr>pr_result := result\<rparr>"]) (auto simp: running_inv_def undone_def accounts_def)
    qed
  qed
qed

lemma img_locked_ok:
  assumes "list_all (startable (is_dev s) (is_img s)) (is_objs s)" and "list_all (list_all (\<lambda>r. r \<le> 0)) rets"
    and "is_pending s = \<lparr>pr_result = 0, num_pending = 0\<rparr>"
    and "need_exclusive_lock (is_dev s) (is_img s) = Ok need" and "need \<longrightarrow> rbd_is_lock_owner (is_dev s)"
  shows "\<exists>runs pending. img_locked rets 0 s =
      Ok (num_pending pending = 0, if num_pending pending = 0 then pr_result pending else 0,
        set_img_state (if num_pending pending = 0 then RBD_IMG_OBJECT_REQUESTS else RBD_IMG_OBJECT_REQUESTS_PENDING)
          (s\<lparr>is_runs := runs, is_pending := pending\<rparr>)) \<and>
     running_inv (is_img s) (is_dev s) runs \<and> num_pending pending = undone runs \<and> accounts (is_objs s) runs (pr_result pending) \<and>
     sum_list (map (sys_measure (is_img s)) runs) \<le> length (is_objs s) * (8 * Suc (max_out (is_img s)))"
proof -
  have p: "pr_result (is_pending s) = 0" "num_pending (is_pending s) = 0" using assms(3) by simp_all
  obtain runs pending where l: "img_start_loop (is_dev s) (is_img s) rets (is_objs s) (is_pending s) = Ok (runs, pending)"
    "running_inv (is_img s) (is_dev s) runs" "num_pending pending = num_pending (is_pending s) + undone runs"
    "accounts (is_objs s) runs (pr_result pending)"
    "sum_list (map (sys_measure (is_img s)) runs) \<le> length (is_objs s) * (8 * Suc (max_out (is_img s)))"
    using img_start_loop_ok [OF assms(1,2) p(1)] by (elim exE conjE) (rule that)
  have "rbd_img_object_requests rets s = Ok (s\<lparr>is_runs := runs, is_pending := pending\<rparr>)"
    using p l(1) by (simp add: rbd_img_object_requests_def rbd_assert_def)
  then show ?thesis
    using l assms(4,5) p by (intro exI [of _ runs] exI [of _ pending]) (auto simp: img_locked_def rbd_assert_def)
qed

section \<open>Handling an event\<close>

lemma lock_del_ok: "on_lists no lk \<Longrightarrow> \<exists>lk'. rbd_lock_del_request no lk = Ok lk' \<and> lk_dev lk' = lk_dev lk"
  by (auto simp: on_lists_def rbd_lock_del_request_def rbd_assert_def Let_def)

lemma img_handle_done:
  assumes "need_exclusive_lock (is_dev s) (is_img s) = Ok need" and "rbd_img_advance rets result s = Ok (True, res, s')"
    and "need \<longrightarrow> on_lists (is_no s') (is_lk s')" and "res \<le> 0"
  shows "\<exists>lk'. lk_dev lk' = is_dev s' \<and> rbd_img_handle_request rets result s = Ok (s'\<lparr>is_lk := lk', is_done := Some res\<rparr>)"
proof -
  obtain lk' where "(if need then rbd_lock_del_request (is_no s') (is_lk s') else Ok (is_lk s')) = Ok lk'" "lk_dev lk' = is_dev s'"
    using assms(3) lock_del_ok by (cases need) auto
  then show ?thesis
    using assms by (intro exI [of _ lk']) (auto simp: rbd_img_handle_request_def img_handle_def rbd_assert_def Let_def)
qed

lemma img_handle_wait:
  assumes "need_exclusive_lock (is_dev s) (is_img s) = Ok need" and "rbd_img_advance rets result s = Ok (False, res, s')"
  shows "rbd_img_handle_request rets result s = Ok s'"
  using assms by (simp add: rbd_img_handle_request_def img_handle_def Let_def)

lemma set_img_state_simps [simp]:
  "is_dev (set_img_state st s) = is_dev s" "is_no (set_img_state st s) = is_no s" "is_img (set_img_state st s) = is_img s"
  "is_objs (set_img_state st s) = is_objs s" "is_runs (set_img_state st s) = is_runs s" "is_pending (set_img_state st s) = is_pending s"
  "is_done (set_img_state st s) = is_done s" "img_states (is_lk (set_img_state st s)) (is_no s) = st"
  "on_lists no (is_lk (set_img_state st s)) = on_lists no (is_lk s)"
  by (simp_all add: set_img_state_def on_lists_def)

text \<open>Once the lock is held, or is not needed, the object requests are started.\<close>

lemma img_locked_inv:
  assumes adv: "rbd_img_advance rets result s = img_locked rets 0 s1"
    and need: "need_exclusive_lock (is_dev s) (is_img s) = Ok need"
    and s1: "is_dev s1 = is_dev s" "is_img s1 = is_img s" "is_done s1 = None" "need \<longrightarrow> on_lists (is_no s1) (is_lk s1)"
    and st: "list_all (startable (is_dev s1) (is_img s1)) (is_objs s1)" "list_all (list_all (\<lambda>r. r \<le> 0)) rets"
      "is_pending s1 = \<lparr>pr_result = 0, num_pending = 0\<rparr>" "need \<longrightarrow> rbd_is_lock_owner (is_dev s1)"
  shows "\<exists>s'. rbd_img_handle_request rets result s = Ok s' \<and> img_inv s' \<and>
     img_measure s' \<le> length (is_objs s1) * (8 * Suc (max_out (is_img s1)))"
proof -
  have n1: "need_exclusive_lock (is_dev s1) (is_img s1) = Ok need" using need s1 by simp
  obtain runs pending where l: "img_locked rets 0 s1 =
      Ok (num_pending pending = 0, if num_pending pending = 0 then pr_result pending else 0,
        set_img_state (if num_pending pending = 0 then RBD_IMG_OBJECT_REQUESTS else RBD_IMG_OBJECT_REQUESTS_PENDING)
          (s1\<lparr>is_runs := runs, is_pending := pending\<rparr>))"
     "running_inv (is_img s1) (is_dev s1) runs" "num_pending pending = undone runs" "accounts (is_objs s1) runs (pr_result pending)"
     "sum_list (map (sys_measure (is_img s1)) runs) \<le> length (is_objs s1) * (8 * Suc (max_out (is_img s1)))"
    using img_locked_ok [OF st(1-3) n1 st(4)] by (elim exE conjE) (rule that)
  let ?s = "s1\<lparr>is_runs := runs, is_pending := pending\<rparr>"
  show ?thesis
  proof (cases "num_pending pending = 0")
    case True
    have adv': "rbd_img_advance rets result s = Ok (True, pr_result pending, set_img_state RBD_IMG_OBJECT_REQUESTS ?s)"
      using True l(1) adv by simp
    have le: "pr_result pending \<le> 0" using l(4) by (simp add: accounts_def)
    obtain lk' where h: "lk_dev lk' = is_dev (set_img_state RBD_IMG_OBJECT_REQUESTS ?s)"
      "rbd_img_handle_request rets result s =
         Ok ((set_img_state RBD_IMG_OBJECT_REQUESTS ?s)\<lparr>is_lk := lk', is_done := Some (pr_result pending)\<rparr>)"
      using img_handle_done [OF need adv' _ le] s1(4) by auto
    show ?thesis using h l(2-4) True n1 le unfolding h(2) by (auto simp: img_inv_def img_measure_def)
  next
    case False
    have adv': "rbd_img_advance rets result s = Ok (False, 0, set_img_state RBD_IMG_OBJECT_REQUESTS_PENDING ?s)"
      using False l(1) adv by simp
    have st2: "img_states (is_lk (set_img_state RBD_IMG_OBJECT_REQUESTS_PENDING ?s)) (is_no s1) = RBD_IMG_OBJECT_REQUESTS_PENDING"
      using set_img_state_simps(8) [of _ ?s] by simp
    show ?thesis using img_handle_wait [OF need adv'] False l(2-5) n1 s1(3,4) st2 by (simp add: img_inv_def img_measure_def)
  qed
qed

lemma undone_update:
  assumes "i < length runs" and "sys_done (runs ! i) = None"
  shows "undone runs > 0" "undone (runs[i := run]) = (if sys_done run = None then undone runs else undone runs - 1)"
proof -
  have split: "runs = take i runs @ runs ! i # drop (Suc i) runs" using assms(1) by (rule id_take_nth_drop)
  have u: "undone runs = undone (take i runs) + Suc (undone (drop (Suc i) runs))"
    using assms(2) by (subst split) (simp add: undone_def)
  then show "undone runs > 0" by simp
  show "undone (runs[i := run]) = (if sys_done run = None then undone runs else undone runs - 1)"
    using u assms(1) by (simp add: upd_conv_take_nth_drop undone_def)
qed

lemma accounts_update:
  assumes "i < length runs" and "sys_done (runs ! i) = None" and "accounts objs runs pr" and "\<forall>r. sys_done run = Some r \<longrightarrow> r \<le> 0"
  shows "accounts objs (runs[i := run]) (case sys_done run of None \<Rightarrow> pr | Some r \<Rightarrow> if r \<noteq> 0 \<and> pr = 0 then r else pr)"
proof (cases "pr = 0")
  case True
  have all: "list_all (\<lambda>run. sys_done run = None \<or> sys_done run = Some 0) runs" "length runs = length objs"
    using assms(3) True by (simp_all add: accounts_def)
  have "list_all (\<lambda>run. sys_done run = None \<or> sys_done run = Some 0) (runs[i := run])" if "sys_done run = None \<or> sys_done run = Some 0"
    using all(1) that set_update_subset_insert [of runs i run] by (auto simp: list_all_iff)
  moreover have "list_ex (\<lambda>run. sys_done run = Some r) (runs[i := run])" if "sys_done run = Some r" for r
    using that assms(1) set_update_memI [of i runs run] by (auto simp: list_ex_iff)
  ultimately show ?thesis using all(2) assms(4) True by (auto simp: accounts_def split: option.split)
next
  case False
  then obtain k where k: "k < length runs" "sys_done (runs ! k) = Some pr"
    using assms(3) by (auto simp: accounts_def list_ex_length)
  then have "(runs[i := run]) ! k = runs ! k" using assms(2) by (cases "k = i") auto
  then have "list_ex (\<lambda>run. sys_done run = Some pr) (runs[i := run])" using k by (auto simp: list_ex_length)
  then show ?thesis using False assms(3) by (auto simp: accounts_def split: option.split)
qed

lemma measure_update:
  assumes "i < length runs" and "sys_measure img run < sys_measure img (runs ! i)"
  shows "sum_list (map (sys_measure img) (runs[i := run])) < sum_list (map (sys_measure img) runs)"
proof -
  have split: "runs = take i runs @ runs ! i # drop (Suc i) runs" using assms(1) by (rule id_take_nth_drop)
  have "sum_list (map (sys_measure img) runs) =
      sum_list (map (sys_measure img) (take i runs)) + (sys_measure img (runs ! i) + sum_list (map (sys_measure img) (drop (Suc i) runs)))"
    by (subst split) simp
  then show ?thesis using assms by (simp add: upd_conv_take_nth_drop)
qed

lemma running_update:
  assumes "running_inv img dev runs" and "similar img dev (sys_dev run)" and "sys_inv img run"
  shows "running_inv img (sys_dev run) (runs[i := run])"
proof -
  have "sys_inv img (x\<lparr>sys_dev := sys_dev run\<rparr>)" if "x \<in> set runs" for x
    using sys_inv_similar [OF assms(2)] assms(1) that by (auto simp: running_inv_def list_all_iff)
  moreover have "run\<lparr>sys_dev := sys_dev run\<rparr> = run" by (cases run) simp
  ultimately show ?thesis
    using assms(3) set_update_subset_insert [of runs i run] by (auto simp: running_inv_def list_all_iff)
qed

lemma running_similar: "running_inv img dev runs \<Longrightarrow> similar img dev dev' \<Longrightarrow> running_inv img dev' runs"
  by (auto simp: running_inv_def list_all_iff intro: sys_inv_similar)

text \<open>An object request is done: the image request ends with the last one.\<close>

lemma img_pending_inv:
  assumes state: "img_states (is_lk s) (is_no s) = RBD_IMG_OBJECT_REQUESTS_PENDING" "is_done s = None"
    and need: "need_exclusive_lock (is_dev s) (is_img s) = Ok need" "need \<longrightarrow> on_lists (is_no s) (is_lk s)"
    and run: "running_inv (is_img s) (is_dev s) (is_runs s)" "num_pending (is_pending s) = Suc (undone (is_runs s))"
      "accounts (is_objs s) (is_runs s) (if r \<noteq> 0 \<and> pr_result (is_pending s) = 0 then r else pr_result (is_pending s))"
  shows "\<exists>s'. rbd_img_handle_request [] r s = Ok s' \<and> img_inv s' \<and> img_measure s' \<le> sum_list (map (sys_measure (is_img s)) (is_runs s))"
proof -
  let ?pr = "if r \<noteq> 0 \<and> pr_result (is_pending s) = 0 then r else pr_result (is_pending s)"
  let ?p = "(is_pending s)\<lparr>pr_result := ?pr, num_pending := undone (is_runs s)\<rparr>"
  have dec: "pending_result_dec (is_pending s) r = Ok (undone (is_runs s) = 0, if undone (is_runs s) = 0 then ?pr else r, ?p)"
    using run(2) by (simp add: pending_result_dec_def rbd_assert_def Let_def)
  have le: "?pr \<le> 0" using run(3) by (simp add: accounts_def)
  show ?thesis
  proof (cases "undone (is_runs s) = 0")
    case True
    have adv: "rbd_img_advance [] r s = Ok (True, ?pr, s\<lparr>is_pending := ?p\<rparr>)"
      using state dec True by (simp add: rbd_img_advance_def)
    obtain lk' where h: "lk_dev lk' = is_dev (s\<lparr>is_pending := ?p\<rparr>)"
      "rbd_img_handle_request [] r s = Ok ((s\<lparr>is_pending := ?p\<rparr>)\<lparr>is_lk := lk', is_done := Some ?pr\<rparr>)"
      using img_handle_done [OF need(1) adv _ le] need(2) by auto
    show ?thesis using h(1) run(1,3) le True need(1) unfolding h(2) by (simp add: img_inv_def img_measure_def)
  next
    case False
    have adv: "rbd_img_advance [] r s = Ok (False, r, s\<lparr>is_pending := ?p\<rparr>)"
      using state dec False by (simp add: rbd_img_advance_def)
    show ?thesis using img_handle_wait [OF need(1) adv] run False need state by (simp add: img_inv_def img_measure_def)
  qed
qed

lemma kept_dev:
  assumes "kept s lk"
  obtains m n v st where "lk_dev lk = (is_dev s)\<lparr>object_map := m, object_map_size := n, parent_overlap := v, dev_lock_state := st\<rparr>"
    "img_op_type (is_img s) = OBJ_OP_ZEROOUT \<longrightarrow> v = parent_overlap (is_dev s)"
    "on_lists (is_no s) lk = on_lists (is_no s) (is_lk s)" "img_states lk (is_no s) = img_states (is_lk s) (is_no s)"
    "need_exclusive_lock (lk_dev lk) (is_img s) = need_exclusive_lock (is_dev s) (is_img s)"
proof -
  have k: "\<exists>m n v st. lk_dev lk = (is_dev s)\<lparr>object_map := m, object_map_size := n, parent_overlap := v, dev_lock_state := st\<rparr> \<and>
      (img_op_type (is_img s) = OBJ_OP_ZEROOUT \<longrightarrow> v = parent_overlap (is_dev s))"
    "on_lists (is_no s) lk = on_lists (is_no s) (is_lk s)" "img_states lk (is_no s) = img_states (is_lk s) (is_no s)"
    using assms unfolding kept_def by blast+
  then have "need_exclusive_lock (lk_dev lk) (is_img s) = need_exclusive_lock (is_dev s) (is_img s)"
    by (auto simp: need_exclusive_lock_def rbd_is_ro_def)
  then show ?thesis using k that by blast
qed

lemma kept_similar:
  assumes "kept s lk" and "img_states (is_lk s) (is_no s) = RBD_IMG_OBJECT_REQUESTS_PENDING"
  shows "similar (is_img s) (is_dev s) (lk_dev lk)"
proof -
  have k: "lk_dev lk = (is_dev s)\<lparr>object_map := object_map (lk_dev lk), object_map_size := object_map_size (lk_dev lk),
       parent_overlap := parent_overlap (lk_dev lk), dev_lock_state := lock_state lk\<rparr>"
    "object_map_size (lk_dev lk) = object_map_size (is_dev s)" "length (object_map (lk_dev lk)) = length (object_map (is_dev s))"
    "img_op_type (is_img s) = OBJ_OP_ZEROOUT \<longrightarrow> parent_overlap (lk_dev lk) = parent_overlap (is_dev s)"
    using assms unfolding kept_def by blast+
  have "lk_dev lk = (is_dev s)\<lparr>object_map := object_map (lk_dev lk), parent_overlap := parent_overlap (lk_dev lk),
      dev_lock_state := lock_state lk\<rparr>"
    using k(1) unfolding k(2) by simp
  then show ?thesis using k(3,4) unfolding similar_def by blast
qed

lemma woken_ok:
  assumes inv: "img_inv s" and ev: "img_event_ok s ev" and w: "ie_what ev = Woken result rets"
  shows "\<exists>s'. img_complete ev s = Ok s' \<and> img_inv s' \<and> img_measure s' < img_measure s"
proof -
  have e: "is_done s = None" "kept s (ie_lk ev)" "img_states (is_lk s) (is_no s) = RBD_IMG_EXCLUSIVE_LOCK" "result \<le> 0"
    "list_all (list_all (\<lambda>r. r \<le> 0)) rets"
    "result = 0 \<longrightarrow> rbd_is_lock_owner (lk_dev (ie_lk ev)) \<and> covers (lk_dev (ie_lk ev)) (is_objs s)"
    using ev w by (simp_all add: img_event_ok_def)
  obtain need where n: "need_exclusive_lock (is_dev s) (is_img s) = Ok need" "need \<longrightarrow> on_lists (is_no s) (is_lk s)"
    "is_runs s = []" "is_pending s = \<lparr>pr_result = 0, num_pending = 0\<rparr>" "list_all (startable (no_map (is_dev s)) (is_img s)) (is_objs s)"
    using inv e(1,3) by (auto simp: img_inv_def)
  obtain m k v st where d: "lk_dev (ie_lk ev) = (is_dev s)\<lparr>object_map := m, object_map_size := k, parent_overlap := v, dev_lock_state := st\<rparr>"
    "img_op_type (is_img s) = OBJ_OP_ZEROOUT \<longrightarrow> v = parent_overlap (is_dev s)"
    "on_lists (is_no s) (ie_lk ev) = on_lists (is_no s) (is_lk s)" "img_states (ie_lk ev) (is_no s) = img_states (is_lk s) (is_no s)"
    "need_exclusive_lock (lk_dev (ie_lk ev)) (is_img s) = need_exclusive_lock (is_dev s) (is_img s)"
    by (rule kept_dev [OF e(2)]) 
  let ?s = "s\<lparr>is_lk := ie_lk ev\<rparr>"
  have meas: "img_measure s = Suc (length (is_objs s) * (8 * Suc (max_out (is_img s))))" using e(1,3) by (simp add: img_measure_def)
  have need: "need_exclusive_lock (is_dev ?s) (is_img ?s) = Ok need" using n(1) d(5) by simp
  have adv: "rbd_img_advance rets result ?s = img_locked rets result ?s" using e(3) d(4) by (simp add: rbd_img_advance_def)
  show ?thesis
  proof (cases "result = 0")
    case True
    have own: "covers (lk_dev (ie_lk ev)) (is_objs s)" "rbd_is_lock_owner (lk_dev (ie_lk ev))" using e(6) True by simp_all
    have "list_all (startable (no_map (lk_dev (ie_lk ev))) (is_img s)) (is_objs s)"
      using n(5) kept_no_map [OF d(1,2)] by (auto simp: list_all_iff)
    then have st: "list_all (startable (lk_dev (ie_lk ev)) (is_img s)) (is_objs s)" by (rule startable_covers [OF own(1)])
    have "\<exists>s'. rbd_img_handle_request rets result ?s = Ok s' \<and> img_inv s' \<and>
        img_measure s' \<le> length (is_objs ?s) * (8 * Suc (max_out (is_img ?s)))"
      by (rule img_locked_inv [where need = need]) (use adv True need e(1,5) n(2,4) d(3) st own(2) in simp_all)
    then show ?thesis using w meas by (auto simp: img_complete_def)
  next
    case False
    have adv': "rbd_img_advance rets result ?s = Ok (True, result, ?s)" using adv False by (simp add: img_locked_def)
    obtain lk' where h: "lk_dev lk' = is_dev ?s" "rbd_img_handle_request rets result ?s = Ok (?s\<lparr>is_lk := lk', is_done := Some result\<rparr>)"
      using img_handle_done [OF need adv' _ e(4)] n(2) d(3) by auto
    show ?thesis using w meas h n(3) need e(4) False
      by (simp add: img_complete_def img_inv_def img_measure_def running_inv_def undone_def)
  qed
qed

lemma completed_ok:
  assumes inv: "img_inv s" and ev: "img_event_ok s ev" and w: "ie_what ev = Completed i oev"
  shows "\<exists>s'. img_complete ev s = Ok s' \<and> img_inv s' \<and> img_measure s' < img_measure s"
proof -
  let ?img = "is_img s" and ?dev = "lk_dev (ie_lk ev)" and ?runs = "is_runs s"
  let ?run = "(?runs ! i)\<lparr>sys_dev := ?dev\<rparr>"
  have e: "is_done s = None" "kept s (ie_lk ev)" "i < length ?runs" "event_ok ?img ?run oev"
    "img_op_type ?img = OBJ_OP_ZEROOUT \<longrightarrow> ev_overlap oev = parent_overlap (is_dev s)"
    using ev w by (simp_all add: img_event_ok_def)
  have state: "img_states (is_lk s) (is_no s) = RBD_IMG_OBJECT_REQUESTS_PENDING"
    using inv e(1,3) by (auto simp: img_inv_def split: rbd_img_state.splits)
  obtain need where n: "need_exclusive_lock (is_dev s) ?img = Ok need" "need \<longrightarrow> on_lists (is_no s) (is_lk s)"
    "running_inv ?img (is_dev s) ?runs" "num_pending (is_pending s) = undone ?runs" "accounts (is_objs s) ?runs (pr_result (is_pending s))"
    using inv e(1) state by (auto simp: img_inv_def)
  have sim: "similar ?img (is_dev s) ?dev" using kept_similar [OF e(2) state] .
  have ri: "running_inv ?img ?dev ?runs" using running_similar [OF n(3) sim] .
  have nd: "sys_done (?runs ! i) = None" using e(4) by (simp add: event_ok_def)
  obtain run where run: "obj_complete ?img oev ?run = Ok run" "sys_inv ?img run" "sys_measure ?img run < sys_measure ?img ?run"
    using obj_complete_ok [OF _ e(4)] ri e(3) by (auto simp: running_inv_def list_all_length)
  have ov: "img_op_type ?img = OBJ_OP_ZEROOUT \<longrightarrow> ev_overlap oev = parent_overlap (sys_dev ?run)"
    using e(5) sim by (auto simp: similar_def)
  have sim': "similar ?img ?dev (sys_dev run)" using obj_complete_similar [OF run(1) ov] by simp
  let ?s = "s\<lparr>is_runs := ?runs[i := run], is_lk := (ie_lk ev)\<lparr>lk_dev := sys_dev run\<rparr>\<rparr>"
  have ri': "running_inv ?img (sys_dev run) (?runs[i := run])" using running_update [OF ri sim' run(2)] .
  have m: "sum_list (map (sys_measure ?img) (?runs[i := run])) < img_measure s"
    using measure_update [OF e(3), of ?img run] run(3) e(1) state by (simp add: img_measure_def)
  have le: "\<forall>r. sys_done run = Some r \<longrightarrow> r \<le> 0" using run(2) by (auto simp: sys_inv_def)
  note acc = accounts_update [OF e(3) nd n(5) le] and un = undone_update [OF e(3) nd]
  have need: "need_exclusive_lock (is_dev ?s) (is_img ?s) = Ok need"
    using n(1) similar_need [OF sim] similar_need [OF sim'] by simp
  have lists: "need \<longrightarrow> on_lists (is_no ?s) (is_lk ?s)" and st: "img_states (is_lk ?s) (is_no ?s) = RBD_IMG_OBJECT_REQUESTS_PENDING"
    using n(2) e(2) state by (auto simp: kept_def on_lists_def)
  have eq: "img_complete ev s = (case sys_done run of None \<Rightarrow> Ok ?s | Some result \<Rightarrow> rbd_img_handle_request [] result ?s)"
    using w e(3) run(1) by (simp add: img_complete_def img_obj_complete_def Let_def split: option.split)
  show ?thesis
  proof (cases "sys_done run")
    case None
    then show ?thesis
      using eq m need lists st ri' n(4) un acc e(1) by (simp add: img_inv_def img_measure_def)
  next
    case (Some r)
    have "\<exists>s'. rbd_img_handle_request [] r ?s = Ok s' \<and> img_inv s' \<and> img_measure s' \<le> sum_list (map (sys_measure (is_img ?s)) (is_runs ?s))"
      by (rule img_pending_inv [OF st _ need lists]) (use e(1) ri' n(4) un acc Some in auto)
    then show ?thesis using eq Some m by fastforce
  qed
qed

lemma img_event_handled:
  assumes "img_inv s" and "img_event_ok s ev"
  shows "\<exists>s'. img_complete ev s = Ok s' \<and> img_inv s' \<and> img_measure s' < img_measure s"
  using woken_ok [OF assms] completed_ok [OF assms] by (cases "ie_what ev") auto

lemma kept_refl: "kept s (is_lk s)"
  by (simp add: kept_def)

lemma undone_pos: "undone runs > 0 \<Longrightarrow> \<exists>i<length runs. sys_done (runs ! i) = None"
  by (auto simp: undone_def filter_empty_conv in_set_conv_nth)

lemma img_waits:
  assumes inv: "img_inv s" and nd: "is_done s = None"
  shows "\<exists>ev. img_event_ok s ev"
proof (cases "img_states (is_lk s) (is_no s) = RBD_IMG_EXCLUSIVE_LOCK")
  case True
  then have "img_event_ok s \<lparr>ie_lk = is_lk s, ie_what = Woken (- 5) []\<rparr>"
    using nd kept_refl [of s] by (simp add: img_event_ok_def)
  then show ?thesis by blast
next
  case False
  then have r: "running_inv (is_img s) (is_dev s) (is_runs s)" "undone (is_runs s) > 0"
    using inv nd by (auto simp: img_inv_def split: rbd_img_state.splits)
  obtain i where i: "i < length (is_runs s)" "sys_done (is_runs s ! i) = None" using undone_pos [OF r(2)] by blast
  let ?run = "(is_runs s ! i)\<lparr>sys_dev := is_dev s\<rparr>"
  have "sys_inv (is_img s) ?run" using r(1) i(1) by (simp add: running_inv_def list_all_length)
  then obtain oev where "event_ok (is_img s) ?run oev" "ev_overlap oev = parent_overlap (is_dev s)"
    using obj_waits [of "is_img s" ?run] i(2) by auto
  then have "img_event_ok s \<lparr>ie_lk = is_lk s, ie_what = Completed i oev\<rparr>"
    using nd kept_refl [of s] i(1) by (simp add: img_event_ok_def)
  then show ?thesis by blast
qed

interpretation image_request: event_machine img_inv img_measure img_event_ok img_complete is_done img_step
proof
  show "img_step s s' \<longleftrightarrow> (\<exists>e. img_event_ok s e \<and> img_complete e s = Ok s')" for s s'
    by (auto elim: img_stepE intro: img_step.img)
qed (use img_event_handled img_waits in blast)+

section \<open>From the preparation to the end\<close>

lemma calc_world: "rbd_obj_calc_img_extents dev obj entire w = Ok (ret, obj', w') \<Longrightarrow> world_ok w \<Longrightarrow> world_ok w'"
  by (auto simp: rbd_obj_calc_img_extents_def call_def world_ok_def Let_def split: if_splits list.splits outcome.splits)

lemma init_world: "rbd_obj_init dev img obj w = Ok (ret, obj', w') \<Longrightarrow> world_ok w \<Longrightarrow> world_ok w'"
  by (auto simp: rbd_obj_init_def rbd_obj_init_read_def rbd_obj_init_write_def rbd_obj_init_discard_def rbd_obj_init_zeroout_def
      outcome_simps Let_def dest: calc_world split: if_splits obj_operation_type.splits)

lemma fill_startable:
  assumes "list_all (new_request dev img) objs" and "world_ok w" and "img_fill_loop dev img objs w = Ok (0, objs', w')"
  shows "list_all (startable dev img) objs'"
  using assms
proof (induction objs arbitrary: w objs' w')
  case (Cons obj objs)
  obtain ret obj1 w1 where i: "rbd_obj_init dev img obj w = Ok (ret, obj1, w1)" "ret = 0 \<longrightarrow> startable dev img obj1"
    using rbd_obj_init_startable [OF Cons.prems(2), of dev img obj] Cons.prems(1) by auto
  have "ret \<ge> 0" using Cons.prems(3) i(1) by (auto split: if_splits)
  then obtain objs1 where l: "img_fill_loop dev img objs w1 = Ok (0, objs1, w')" "objs' = (if ret > 0 then objs1 else obj1 # objs1)"
    using Cons.prems(3) i(1) by (auto simp: outcome_simps)
  have "list_all (startable dev img) objs1" using Cons.IH [OF _ init_world [OF i(1) Cons.prems(2)] l(1)] Cons.prems(1) by simp
  then show ?case using i(2) l(2) \<open>ret \<ge> 0\<close> by auto
qed simp

lemma fill_loop_no_map: "img_fill_loop (no_map dev) img objs w = img_fill_loop dev img objs w"
  by (induction dev img objs w rule: img_fill_loop.induct) (auto simp: obj_init_no_map intro!: bind_outcome_cong)

lemma startable_state [simp]: "startable dev (img\<lparr>img_state := st\<rparr>) obj = startable dev img obj"
  by (cases "img_op_type img") (simp_all add: startable_def prepared_def data_ready_def rbd_img_is_write_def)

lemma img_begin_ok:
  assumes st: "list_all (startable (no_map (lk_dev lk)) img) objs" "list_all (list_all (\<lambda>r. r \<le> 0)) rets"
    and img: "img_state img = RBD_IMG_START" "img_pending img = \<lparr>pr_result = 0, num_pending = 0\<rparr>"
    and need: "need_exclusive_lock (lk_dev lk) img = Ok need" "\<not> on_lists no lk"
    and cov: "\<not> need \<or> lock_state lk = RBD_LOCK_STATE_LOCKED \<longrightarrow> covers (lk_dev lk) objs"
  shows "\<exists>s. img_begin lk no img objs rets = Ok s \<and> img_inv s \<and> img_measure s \<le> Suc (length objs * (8 * Suc (max_out img)))"
proof -
  define s where "s = \<lparr>is_lk = lk\<lparr>img_states := (img_states lk)(no := img_state img)\<rparr>, is_no = no, is_img = img, is_objs = objs, is_runs = [],
      is_pending = img_pending img, is_done = None\<rparr>"
  have s: "is_dev s = lk_dev lk" "is_no s = no" "is_img s = img" "is_objs s = objs" "is_runs s = []" "is_done s = None"
    "is_pending s = \<lparr>pr_result = 0, num_pending = 0\<rparr>" "img_states (is_lk s) no = RBD_IMG_START"
    "acquiring_list (is_lk s) = acquiring_list lk" "running_list (is_lk s) = running_list lk"
    using img by (simp_all add: s_def)
  have n: "need_exclusive_lock (is_dev s) (is_img s) = Ok need" using need s by simp
  have bg: "img_begin lk no img objs rets = rbd_img_handle_request rets 0 s" by (simp add: img_begin_def s_def)
  show ?thesis
  proof (cases "need \<and> lock_state lk \<noteq> RBD_LOCK_STATE_LOCKED")
    case False
    let ?lk = "if need then (is_lk s)\<lparr>running_list := running_list (is_lk s) @ [no]\<rparr> else is_lk s"
    let ?s = "set_img_state RBD_IMG_EXCLUSIVE_LOCK (s\<lparr>is_lk := ?lk\<rparr>)"
    have "rbd_img_exclusive_lock img no (is_lk s) = Ok (1, ?lk)"
      using False need s by (auto simp: rbd_img_exclusive_lock_def rbd_lock_add_request_def rbd_assert_def on_lists_def)
    then have adv: "rbd_img_advance rets 0 s = img_locked rets 0 ?s"
      using s by (simp add: rbd_img_advance_def rbd_assert_def Let_def)
    have dev: "is_dev ?s = lk_dev lk" using s by simp
    have on: "need \<longrightarrow> on_lists (is_no ?s) (is_lk ?s)" using s by (simp add: on_lists_def set_img_state_def)
    have start: "list_all (startable (lk_dev lk) img) objs" using startable_covers [OF _ st(1)] cov False by blast
    have own: "need \<longrightarrow> rbd_is_lock_owner (lk_dev lk)" using False by (simp add: rbd_is_lock_owner_def)
    have "\<exists>s'. rbd_img_handle_request rets 0 s = Ok s' \<and> img_inv s' \<and> img_measure s' \<le> length (is_objs ?s) * (8 * Suc (max_out (is_img ?s)))"
      by (rule img_locked_inv [OF adv n _ _ _ on]) (use dev s start st(2) own in simp_all)
    then show ?thesis using s bg by fastforce
  next
    case True
    let ?lk = "(is_lk s)\<lparr>acquiring_list := acquiring_list (is_lk s) @ [no]\<rparr>"
    have add: "rbd_lock_add_request no (is_lk s) = Ok (False, ?lk)"
      using True need s by (auto simp: rbd_lock_add_request_def rbd_assert_def on_lists_def)
    show ?thesis
    proof (cases "dev_exclusive (lk_dev lk)")
      case True
      have adv: "rbd_img_advance rets 0 s = Ok (True, RET_EROFS, s\<lparr>is_lk := ?lk\<rparr>)"
        using True add n s \<open>need \<and> _\<close> by (simp add: rbd_img_advance_def rbd_img_exclusive_lock_def rbd_assert_def Let_def)
      obtain lk' where h: "lk_dev lk' = is_dev (s\<lparr>is_lk := ?lk\<rparr>)"
        "rbd_img_handle_request rets 0 s = Ok ((s\<lparr>is_lk := ?lk\<rparr>)\<lparr>is_lk := lk', is_done := Some RET_EROFS\<rparr>)"
        using img_handle_done [OF n adv] s by (auto simp: on_lists_def)
      show ?thesis using h s n bg by (simp add: img_inv_def img_measure_def running_inv_def undone_def)
    next
      case False
      let ?s = "set_img_state RBD_IMG_EXCLUSIVE_LOCK (s\<lparr>is_lk := ?lk\<lparr>lock_dwork := queue_delayed 0 (lock_dwork ?lk)\<rparr>\<rparr>)"
      have adv: "rbd_img_advance rets 0 s = Ok (False, 0, ?s)"
        using False add n s \<open>need \<and> _\<close> by (simp add: rbd_img_advance_def rbd_img_exclusive_lock_def rbd_assert_def Let_def)
      have "on_lists no (is_lk ?s)" "img_states (is_lk ?s) no = RBD_IMG_EXCLUSIVE_LOCK" using s by (simp_all add: on_lists_def set_img_state_def)
      then show ?thesis using img_handle_wait [OF n adv] n s st(1) bg by (simp add: img_inv_def img_measure_def)
    qed
  qed
qed

lemma object_requests_objs: "rbd_img_object_requests rets s = Ok s' \<Longrightarrow> is_objs s' = is_objs s"
  by (auto simp: rbd_img_object_requests_def rbd_assert_def outcome_simps split: if_splits)

lemma locked_objs: "img_locked rets result s = Ok (d, res, s') \<Longrightarrow> is_objs s' = is_objs s"
  by (auto simp: img_locked_def rbd_assert_def outcome_simps dest: object_requests_objs split: if_splits)

lemma advance_objs: "rbd_img_advance rets result s = Ok (d, res, s') \<Longrightarrow> is_objs s' = is_objs s"
  by (auto simp: rbd_img_advance_def rbd_assert_def outcome_simps Let_def dest: locked_objs split: if_splits rbd_img_state.splits)

lemma img_handle_objs: "img_handle rets result s = Ok (d, res, s') \<Longrightarrow> is_objs s' = is_objs s"
  unfolding img_handle_def bind_outcome_Ok_iff
  by (elim exE conjE) (auto simp: rbd_assert_def outcome_simps Let_def dest!: advance_objs split: if_splits)

lemma handle_objs: "rbd_img_handle_request rets result s = Ok s' \<Longrightarrow> is_objs s' = is_objs s"
  unfolding rbd_img_handle_request_def bind_outcome_Ok_iff
  by (elim exE conjE) (auto dest!: img_handle_objs split: if_splits)

lemma complete_objs: "img_complete ev s = Ok s' \<Longrightarrow> is_objs s' = is_objs s"
  by (auto simp: img_complete_def img_obj_complete_def outcome_simps Let_def dest!: handle_objs split: img_what.splits option.splits)

lemma steps_objs: "img_step\<^sup>*\<^sup>* s t \<Longrightarrow> is_objs t = is_objs s"
  by (induction rule: rtranclp_induct) (auto elim!: img_stepE dest: complete_objs)

lemma need_state [simp]: "need_exclusive_lock dev (img\<lparr>img_state := st\<rparr>) = need_exclusive_lock dev img"
  by (simp add: need_exclusive_lock_def rbd_img_is_write_def)

lemma prepared_begin:
  assumes "list_all (new_request (no_map (lk_dev lk)) img) objs" and "list_all (\<lambda>r. r \<le> 0) (w_rets w)"
    and "rbd_img_fill_requests (lk_dev lk) img objs w = Ok (0, img', objs', w')" and "img_pending img = \<lparr>pr_result = 0, num_pending = 0\<rparr>"
    and "need_exclusive_lock (lk_dev lk) img = Ok need" and "\<not> on_lists no lk"
    and "\<not> need \<or> lock_state lk = RBD_LOCK_STATE_LOCKED \<longrightarrow> covers (lk_dev lk) objs'"
    and "list_all (list_all (\<lambda>r. r \<le> 0)) rets"
  shows "\<exists>s. img_begin lk no img' objs' rets = Ok s \<and> img_inv s \<and> img_measure s \<le> Suc (length objs' * (8 * Suc (max_out img)))"
proof -
  have img': "img' = img\<lparr>img_state := RBD_IMG_START\<rparr>" and fill: "img_fill_loop (no_map (lk_dev lk)) img objs w = Ok (0, objs', w')"
    using assms(3) by (auto simp: rbd_img_fill_requests_def fill_loop_no_map outcome_simps split: if_splits)
  have "world_ok w" using assms(2) by (simp add: world_ok_def list_all_iff)
  then have st: "list_all (startable (no_map (lk_dev lk)) img') objs'" using fill_startable [OF assms(1) _ fill] by (simp add: img' list_all_iff)
  have need: "need_exclusive_lock (lk_dev lk) img' = Ok need" using assms(5) by (simp add: img')
  have "max_out img' = max_out img" by (simp add: img' max_out_def)
  then show ?thesis using img_begin_ok [OF st assms(8) _ _ need assms(6,7)] assms(4) by (simp add: img')
qed



section \<open>An image request with two objects\<close>

text \<open>A write to the two objects of the clone, on a client that owns the lock.\<close>

definition wide_objs :: "rbd_obj_request list" where
  "wide_objs = [(clone_object 0)\<lparr>obj_flags := {RBD_OBJ_FLAG_COPYUP_ENABLED}, img_extents := [\<lparr>fe_off = 0, fe_len = 8\<rparr>]\<rparr>, clone_prepared]"

lemma wide_fill:
  "rbd_img_fill_requests (lk_dev owning_client) clone_write [clone_object 0, clone_object 1] \<lparr>w_rets = [], w_log = [], w_zeroed = []\<rparr> =
     Ok (0, clone_write, wide_objs, \<lparr>w_rets = [], w_log = [], w_zeroed = []\<rparr>)"
  by code_simp

lemma wide_new: "list_all (new_request (no_map (lk_dev owning_client)) clone_write) [clone_object 0, clone_object 1]"
  by (simp add: new_request_def has_object_map_def owning_client_def no_map_def clone_device_def clone_write_def clone_object_def range_ok_def
      valid_layout_def clone_layout_def stripes_per_obj_def file_byte_def max_extent_bytes_def data_ready_def quiet_def)

lemma wide_ready:
  "img_pending clone_write = \<lparr>pr_result = 0, num_pending = 0\<rparr>" "need_exclusive_lock (lk_dev owning_client) clone_write = Ok True"
  "\<not> on_lists 1 owning_client" "covers (lk_dev owning_client) wide_objs"
  by (simp_all add: clone_write_def owning_client_def waiting_client_def clone_device_def need_exclusive_lock_def rbd_is_ro_def rbd_assert_def
      on_lists_def covers_def wide_objs_def clone_object_def clone_prepared_def map_within_def)


lemma wide_begin:
  "case img_begin owning_client 1 clone_write wide_objs [[- 12], []] of
     Ok s \<Rightarrow> is_done s = Some (- 12) \<and> length (is_runs s) = 1 | _ \<Rightarrow> False"
  by code_simp


end
