(* ===== verification/Spec2Isabelle.thy ===== *)
theory Spec2Isabelle
  imports Striper Armor OsdRequests RbdImage
begin

text \<open>
  Verification of the Ceph client of the XCP-ng kernel modules.

  \<^bold>\<open>The program.\<close> The directory \<open>src/kernel-modules/src\<close> holds two Linux kernel modules: \<open>libceph\<close>, the client side of the Ceph protocols, and
  \<open>rbd\<close>, a block device driver on top of it. A request of the block layer becomes an image request; \<open>rbd\<close> maps the range of
  the image to objects (\<open>striper.c\<close>), waits for the exclusive lock of the image, keeps the object map up to date and sends operations on objects.
  \<open>libceph\<close> maps every object to a placement group (\<open>osdmap.c\<close>, \<open>ceph_hash.c\<close>), the group to an ordered set of OSDs with the CRUSH
  algorithm (\<open>crush/\<close>), links the request to the session with the first OSD of the set (\<open>osd_client.c\<close>), encodes the messages (\<open>decode.h\<close>) and sends
  them; it sends them again when a new map or a broken connection makes that necessary.

  \<^bold>\<open>The theories\<close>, from the bottom to the top; the files are relative to \<open>src/kernel-modules/src\<close>.
  \<^item> \<open>Prelude\<close>: machine integers, the type \<open>outcome\<close> of C functions (a value, an errno or a fault), array accesses that fault out of
    range, and the locale \<open>event_machine\<close>, the contract of a state machine that completions drive to its end.
  \<^item> \<open>Striper\<close> (\<open>libceph/striper.c\<close>, \<open>striper.h\<close>): file ranges to object extents and back. The locale \<open>byte_layout\<close> is the abstract layout, a
    bijection between file bytes and object bytes; it is interpreted on the layouts of the code, and the mapping functions are
    proved against it byte by byte.
  \<^item> \<open>Armor\<close> (\<open>libceph/armor.c\<close>): base64, with its round trip.
  \<^item> \<open>CrushHash\<close> (\<open>libceph/crush/hash.c\<close>, \<open>libceph/ceph_hash.c\<close>), \<open>CrushMap\<close> (\<open>crush.h\<close>, \<open>crush.c\<close>, the data and the working space),
    \<open>CrushBuckets\<close> and \<open>CrushChoose\<close> (\<open>libceph/crush/mapper.c\<close>): the hashes, the five bucket algorithms, depth-first and breadth-first placement, and
    rules. The locale \<open>bucket_chooser\<close> is what placement needs of a bucket algorithm: an item of the bucket, independent of the cache.
  \<^item> \<open>OsdMap\<close>, \<open>OsdMapPgs\<close> (\<open>libceph/osdmap.c\<close>, \<open>osdmap.h\<close>, \<open>rados.h\<close>): objects to placement groups, groups to up and acting sets, and what changes between
    two maps: splits, and new sets.
  \<^item> \<open>Codec\<close> (\<open>decode.h\<close>): little-endian integers, strings and versioned blocks in buffers, checked and unchecked. The locale \<open>wire_format\<close>
    is an encoder with a decoder that reads it back; it is interpreted on the formats of the code.
  \<^item> \<open>RbTree\<close> (\<open>libceph.h\<close>): the search trees of \<open>DEFINE_RB_FUNCS\<close>. The locale \<open>rb_order\<close> is a comparison that a key orders.
  \<^item> \<open>OsdTarget\<close> (\<open>libceph/osd_client.c\<close>, \<open>calc_target\<close>, \<open>target_should_be_paused\<close>, \<open>pick_closest_replica\<close>; \<open>libceph/osdmap.c\<close>, the location of OSDs): the
    placement group and the OSD that a request goes to, and whether a new map makes it go somewhere else.
  \<^item> \<open>OsdBackoff\<close> (\<open>hoid_compare\<close>, \<open>should_plug_request\<close>, \<open>decode_MOSDBackoff\<close>, \<open>handle_backoff_block\<close>, \<open>clear_backoffs\<close>): the intervals of objects for
    which an OSD holds requests back; \<open>rb_order\<close> is interpreted on placement groups, object ids and backoff ids.
  \<^item> \<open>OsdClient\<close> (\<open>libceph/osd_client.c\<close>): sessions and requests of the client: \<open>link_request\<close>, \<open>__submit_request\<close>, \<open>handle_reply\<close>, \<open>ceph_osdc_handle_map\<close>,
    \<open>scan_requests\<close>, \<open>kick_requests\<close>, \<open>osd_fault\<close>, \<open>handle_backoff\<close>, \<open>handle_timeout\<close>, \<open>ceph_osdc_abort_requests\<close> and the checks of missing pools; with the
    subscription to maps of \<open>mon_client.c\<close>.
  \<^item> \<open>OsdLinks\<close>: the invariant \<open>client_ok\<close> (a request is in the tree of the session it points to, and in no other), kept by every operation that
    works on one request or one session. \<open>OsdScan\<close>: messages with maps, and aborts, as entries of a \<open>ledger\<close> of requests. \<open>OsdRequests\<close>: the life of requests,
    the step relation \<open>osdc_run\<close> in which all of these are interleaved, and the properties of the client.
  \<^item> \<open>RbdDevice\<close> (\<open>rbd/rbd.c\<close>): devices and requests as records, the object map with the locale \<open>state_array\<close> (an array of two-bit states) and its
    interpretation on the packed bytes, the extents in the parent image, and the preparation of object requests.
  \<^item> \<open>RbdRequest\<close>: the state machines of object requests, \<open>rbd_obj_advance_read\<close>, \<open>rbd_obj_advance_copyup\<close> and \<open>rbd_obj_advance_write\<close>. Each
    case of their \<open>switch\<close> statements is a definition.
  \<^item> \<open>RbdProgress\<close>: object requests with what they have in flight as a transition system of completions, its invariant and its measure;
    \<open>event_machine\<close> is interpreted on it.
  \<^item> \<open>RbdRuns\<close>: complete runs of object requests from their preparation, the object map as an abstract map from objects to states
    (a refinement), and the order of object map updates and writes.
  \<^item> \<open>RbdLock\<close>: the exclusive lock and the watch: acquiring, breaking, releasing, reacquiring, notifications and acknowledgements as bytes, and
    loading the object map.
  \<^item> \<open>RbdLocking\<close>: the lock together with image requests: a step relation with every interleaving of requests, lock work, watch errors
    and notifications, and its invariant.
  \<^item> \<open>RbdImage\<close>: image requests, \<open>rbd_img_advance\<close> and \<open>rbd_img_handle_request\<close>, on top of the object requests and the lock;
    \<open>event_machine\<close> is interpreted a second time.

  \<^bold>\<open>How the code is modelled.\<close> A C function is a HOL function on the values it reads, with the same name where that is free; functions whose
  names begin with two underscores have a name of their own, given in the text before them. A failed \<open>rbd_assert\<close>, a \<open>BUG_ON\<close>, an access
  out of range or through a NULL pointer and a division by zero are \<open>Oops\<close>; a theorem that a result is \<open>Ok\<close> excludes them. Integers are words of
  their width where they can wrap. Statuses that the driver passes on as \<open>int\<close> are \<open>int\<close>. Pointers to shared data are numbers
  or values in a record, lists are lists. What comes from outside is a parameter: replies of the cluster (results, pages, lock and
  watcher lists), allocations that can fail (\<open>w_rets\<close>, a list of the results of the calls in their order) and the time of events.
  Waiting splits a function in two definitions, up to the wait and from there on; code that runs under a mutex or in
  one work item is one step.

  \<^bold>\<open>What the theorems show.\<close>
  \<^item> Requests: every image request and every object request ends after a bounded number of events, is safe in every interleaving, and reports
    success only if everything it was made of succeeded (\<open>RbdImage\<close>, \<open>RbdRuns\<close>). A write is sent only when the object map covers it,
    and the packed map implements the abstract one.
  \<^item> The lock: requests run only while the client holds the lock, in every interleaving; the handshake between two clients
    goes through the bytes on the wire; a loaded object map covers the image; cookies identify the watch of the owner.
  \<^item> The OSD client: in every run the completion of a request is signalled at most once, never while it is linked to a session, and the client stays
    consistent; a message with maps, a reply and a submission return and account for every request that they touch; after a broken connection the
    requests of the session that are not paused are sent again in order; a target agrees with the current map; a request is held back exactly if a backoff
    contains its object.
  \<^item> Placement: a rule of a well-formed map is evaluated without a fault; the chosen items are distinct, of the requested type and in; up and acting sets
    hold live OSDs only; the cached permutations are transparent; growing a pool moves objects only to the new groups.
  \<^item> Mapping and encoding: extents are exactly the bytes of the range in both directions; armor and blocks can be read back; checked decoders
    stay inside their buffers.
  \<^item> Errors: the theorems of kind error are inputs on which the code does not do what it is meant to do.

  \<^bold>\<open>Bounds and fuel.\<close> \<open>choose_fuel\<close> bounds the recursion of the placement functions, which call themselves once for leaves, and their
  retries, which the code bounds with \<open>tries\<close>; the theorems hold for every map with tunables below \<open>2 ^ 28\<close>, and show that the fuel
  is enough. \<open>crush_do_rule\<close> gets a positive \<open>result_max\<close> and scratch vectors that do not overlap, as its callers pass them.
  Pools have fewer than \<open>2 ^ 31\<close> groups, extents of a request at most \<open>max_extent_bytes = 2 ^ 31\<close> bytes and object maps fewer than \<open>2 ^ 40\<close> objects,
  which the sizes the server accepts imply. Loops that wait for a reply of the cluster (\<open>rbd_try_lock\<close>, \<open>rbd_object_map_lock\<close>, \<open>rbd_acquire_lock\<close>) recurse over
  the list of the replies. \<open>osdc_fuel\<close> bounds the loops of the OSD client over tables of the map and over backoffs: \<open>2 ^ 30\<close> is enough for every pool that
  fits, and \<open>clear_rounds\<close>, the number of backoffs and groups of a session, for \<open>clear_backoffs\<close>.

  \<^bold>\<open>Not modelled.\<close> The messengers (\<open>messenger.c\<close>, \<open>messenger_v1.c\<close>, \<open>messenger_v2.c\<close>), the monitor client except for the subscription to OSD
  maps, and authentication (\<open>auth*.c\<close>, \<open>crypto.c\<close>) move bytes between sockets, timers and the crypto API of the kernel. Of the OSD client
  the linger requests with their watches, the building of request messages and of operations, notifications, sparse reads and the setup are missing; \<open>rbd\<close> takes the
  results of its operations as parameters, so its theories do not rest on those of the OSD client. \<open>__submit_request\<close> drops the lock of the
  client between its two rounds to take it for writing; the model does not interleave other operations there. The decoding of OSD maps is the parameter
  \<open>map_codec\<close> of the client, and the maps are values that satisfy the invariants which the decoder establishes (\<open>codec_ok\<close>). The rebalancing of search trees is
  the parameter \<open>rb_ops\<close> (\<open>lib/rbtree.c\<close> of the kernel), with \<open>rb_ok\<close>: it keeps the order of the nodes. Of \<open>rbd.c\<close> the parsing of options, the reading of headers,
  snapshots and parents, sysfs, and the block layer are missing. \<open>krb5\<close> is code of the kernel's crypto library, the rest of \<open>libceph\<close> manages memory, prints,
  or fills tables of names. The Python programs under \<open>rbdsr\<close> and \<open>rbdvol\<close> and the packaging are outside the modules.

  \<^bold>\<open>Plan.\<close> Next are the linger requests of the OSD client, the decoding of OSD maps with the invariants that \<open>OsdMap\<close> assumes, the frames of
  \<open>messenger_v2.c\<close>, and the headers of \<open>rbd\<close> images.
\<close>

end
